(* ===== verification/Prelude.thy ===== *)
theory Prelude
  imports Main "HOL-Library.Word"
begin

text \<open>
  Shared vocabulary of the development: the machine types of the C++ sources
  (\<open>unsigned char\<close>, \<open>uint32_t\<close>, \<open>size_t\<close>, all with their width), the exceptions the
  library throws, and the generic lemmas on lists and words that the component
  theories use.  The collection \<open>width_simps\<close> gathers the rules that move between a
  word and the number it holds.
\<close>

named_theorems width_simps \<open>rules that relate a machine word and its value\<close>

section \<open>Machine types\<close>

type_synonym byte = "8 word"
type_synonym u8 = "8 word"
type_synonym u32 = "32 word"
type_synonym size_t = "64 word"

abbreviation SIZE_MAX :: size_t where
  "SIZE_MAX \<equiv> - 1"

text \<open>The exceptions that leave a function of the library.\<close>

datatype exn =
    bad_alloc
  | runtime_error string
  | invalid_argument string

section \<open>Words\<close>

lemma unat_u8_lt [simp]: "unat (i :: u8) < 256"
  using unsigned_less [of i, where ?'a = nat] by simp

lemma unat_ucast_u8_size [width_simps]: "unat (ucast (i :: u8) :: size_t) = unat i"
proof -
  have "unat i < 2 ^ 64" by (rule less_trans [OF unat_u8_lt]) simp
  then show ?thesis by (simp add: unsigned_ucast_eq take_bit_nat_eq_self)
qed

lemma unat_of_nat_u8 [width_simps]: "unat (of_nat n :: u8) = n mod 256"
  by (simp add: unat_of_nat)

lemma unat_of_nat_size [width_simps]: "n < 2 ^ 64 \<Longrightarrow> unat (of_nat n :: size_t) = n"
  by (simp add: unat_of_nat)

lemma unat_SIZE_MAX [width_simps]: "unat SIZE_MAX = 2 ^ 64 - 1"
  by (simp add: unsigned_minus_1_eq_mask mask_eq_exp_minus_1)

lemma of_nat_Suc_u8: "(of_nat n :: u8) + 1 = of_nat (Suc n)"
  by (simp add: add.commute)

section \<open>Lists\<close>

lemma take_append_list_update:
  "n = length xs \<Longrightarrow> ys \<noteq> [] \<Longrightarrow> (xs @ ys)[n := y] = xs @ y # tl ys"
  by (cases ys) (auto simp: list_update_append)

lemma drop_Suc_conv: "n < length xs \<Longrightarrow> drop n xs = xs ! n # drop (Suc n) xs"
  by (simp add: Cons_nth_drop_Suc)

end
