(* ===== verification/StreamQueue.thy ===== *)
theory StreamQueue
  imports Prelude
begin

text \<open>
  Model of \<open>shared/StreamQueue.hpp\<close>: the byte queue a channel fills with received data
  and hands to the listeners.  The deque \<open>bytes\<close> is a list whose head is the front.
\<close>

section \<open>ReadOnlyStreamQueue and StreamQueue\<close>

record stream_queue =
  bytes :: "byte list"

definition empty_queue :: stream_queue where
  "empty_queue = \<lparr>bytes = []\<rparr>"

definition of_span :: "byte list \<Rightarrow> stream_queue" where
  "of_span bs = \<lparr>bytes = bs\<rparr>"

text \<open>\<open>std::min(maxCount, bytes.size())\<close>.\<close>

definition countToDequeue :: "size_t \<Rightarrow> byte list \<Rightarrow> nat" where
  "countToDequeue maxCount bs = min (unat maxCount) (length bs)"

definition dequeue :: "size_t \<Rightarrow> stream_queue \<Rightarrow> byte list \<times> stream_queue" where
  "dequeue maxCount q =
     (let n = countToDequeue maxCount (bytes q)
      in (take n (bytes q), q\<lparr>bytes := drop n (bytes q)\<rparr>))"

text \<open>
  The loop of \<open>dequeueAsVec\<close>.  Its counter is a \<open>uint8_t\<close>, compared with the 64-bit
  \<open>maxCount\<close> after promotion; a store outside the vector is undefined behaviour, the
  value \<open>None\<close>.
\<close>

fun dequeueAsVec_loop :: "size_t \<Rightarrow> u8 \<Rightarrow> byte list \<Rightarrow> byte list \<Rightarrow> (byte list \<times> byte list) option" where
  "dequeueAsVec_loop maxCount i newQueue [] = Some (newQueue, [])"
| "dequeueAsVec_loop maxCount i newQueue (b # bs) =
     (if (ucast i :: size_t) < maxCount
      then if unat i < length newQueue
           then dequeueAsVec_loop maxCount (i + 1) (newQueue[unat i := b]) bs
           else None
      else Some (newQueue, b # bs))"

definition dequeueAsVec :: "size_t \<Rightarrow> stream_queue \<Rightarrow> (byte list \<times> stream_queue) option" where
  "dequeueAsVec maxCount q =
     map_option (\<lambda>(v, rest). (v, q\<lparr>bytes := rest\<rparr>))
       (dequeueAsVec_loop maxCount 0 (replicate (countToDequeue maxCount (bytes q)) 0) (bytes q))"

definition peek :: "size_t \<Rightarrow> stream_queue \<Rightarrow> byte list" where
  "peek maxCount q = take (countToDequeue maxCount (bytes q)) (bytes q)"

definition queueSize :: "stream_queue \<Rightarrow> nat" where
  "queueSize q = length (bytes q)"

definition enqueue_span :: "byte list \<Rightarrow> stream_queue \<Rightarrow> stream_queue" where
  "enqueue_span newBytes q = q\<lparr>bytes := bytes q @ newBytes\<rparr>"

definition enqueueMove :: "byte list \<Rightarrow> stream_queue \<Rightarrow> stream_queue" where
  "enqueueMove newBytes q = q\<lparr>bytes := bytes q @ newBytes\<rparr>"

definition enqueue_vector :: "byte list \<Rightarrow> stream_queue \<Rightarrow> stream_queue" where
  "enqueue_vector newBytes q = q\<lparr>bytes := bytes q @ newBytes\<rparr>"

text \<open>The overload for a message inserts at \<open>bytes.begin()\<close>, in front of the queue.\<close>

definition enqueue_message :: "byte list \<Rightarrow> stream_queue \<Rightarrow> stream_queue" where
  "enqueue_message newBytes q = q\<lparr>bytes := newBytes @ bytes q\<rparr>"

section \<open>The loop of dequeueAsVec\<close>

text \<open>
  While fewer than 256 bytes have been copied the counter is the number of copied bytes,
  and the loop fills the vector from the left.
\<close>

lemma dequeueAsVec_loop_prefix:
  assumes "unat maxCount \<le> 255 \<or> length done + length bs \<le> 256"
    and "length done + n = min (unat maxCount) (length done + length bs)"
  shows "dequeueAsVec_loop maxCount (of_nat (length done)) (done @ replicate n 0) bs
           = Some (done @ take n bs, drop n bs)"
  using assms
proof (induction bs arbitrary: "done" n)
  case Nil
  then show ?case by simp
next
  case (Cons b bs)
  show ?case
  proof (cases "length done < unat maxCount")
    case False
    with Cons.prems(2) have n: "n = 0" by simp
    have "length done \<le> 256" using Cons.prems by auto
    have "\<not> (ucast (of_nat (length done) :: u8) :: size_t) < maxCount"
    proof (cases "length done < 256")
      case True
      then show ?thesis
        using False by (simp add: word_less_nat_alt width_simps)
    next
      case len: False
      with Cons.prems have False by auto
      then show ?thesis ..
    qed
    with n show ?thesis by simp
  next
    case True
    with Cons.prems have lt: "length done < 256" and n: "0 < n" by auto
    then obtain m where m: "n = Suc m" by (cases n) auto
    have less: "(ucast (of_nat (length done) :: u8) :: size_t) < maxCount"
      using True lt by (simp add: word_less_nat_alt width_simps)
    have IH: "dequeueAsVec_loop maxCount (of_nat (length (done @ [b]))) ((done @ [b]) @ replicate m 0) bs
        = Some ((done @ [b]) @ take m bs, drop m bs)"
      by (rule Cons.IH) (use Cons.prems m in auto)
    have "(done @ replicate n 0)[length done := b] = (done @ [b]) @ replicate m 0"
      by (simp add: m)
    with IH less lt m show ?thesis
      by (simp add: width_simps of_nat_Suc_u8 del: of_nat_Suc)
  qed
qed

text \<open>
  When \<open>maxCount\<close> exceeds every value of the counter, the loop test never fails: the loop
  runs until the deque is empty and its counter wraps every 256 bytes.
\<close>

lemma dequeueAsVec_loop_test: "256 \<le> unat maxCount \<Longrightarrow> (ucast (i :: u8) :: size_t) < maxCount"
  using order_less_le_trans [OF unat_u8_lt] by (simp add: word_less_nat_alt width_simps)

lemma dequeueAsVec_loop_append:
  assumes "256 \<le> unat maxCount" and "256 \<le> length v"
  shows "dequeueAsVec_loop maxCount i v (bs @ cs) =
     (case dequeueAsVec_loop maxCount i v bs of
        None \<Rightarrow> None
      | Some (w, _) \<Rightarrow> dequeueAsVec_loop maxCount (i + of_nat (length bs)) w cs)"
  using assms(2)
proof (induction bs arbitrary: i v)
  case Nil
  then show ?case by simp
next
  case (Cons b bs)
  then show ?case
    using order_less_le_trans [OF unat_u8_lt [of i] Cons.prems] dequeueAsVec_loop_test [OF assms(1), of i]
    by (simp add: ac_simps split: option.split)
qed

lemma wrap_position:
  fixes j k :: nat
  assumes "j < 256" and "j \<noteq> k mod 256" and "j < k"
  shows "k - (k - j) mod 256 = k - 1 - (k - 1 - j) mod 256"
proof -
  obtain d where d: "k - j = Suc d" "k = Suc d + j"
    using assms(3) by (metis Suc_diff_Suc add.commute le_add_diff_inverse less_imp_le)
  have "(Suc d + j) mod 256 \<noteq> j" using assms(2) d(2) by metis
  then have "Suc d mod 256 \<noteq> 0"
    using assms(1) by (metis add.commute add.right_neutral mod_add_right_eq mod_less)
  then have "Suc d mod 256 = Suc (d mod 256)" by (simp add: mod_Suc split: if_splits)
  with d show ?thesis by simp
qed

lemma dequeueAsVec_loop_wrap:
  assumes "256 \<le> unat maxCount"
  shows "256 \<le> n \<Longrightarrow> \<exists>v. dequeueAsVec_loop maxCount 0 (replicate n 0) bs = Some (v, []) \<and> length v = n
     \<and> (\<forall>j<256. j < length bs \<longrightarrow> v ! j = bs ! (length bs - 1 - (length bs - 1 - j) mod 256))
     \<and> (\<forall>j<n. 256 \<le> j \<or> length bs \<le> j \<longrightarrow> v ! j = 0)"
proof (induction bs rule: rev_induct)
  case Nil
  then show ?case by simp
next
  case (snoc b bs)
  then obtain v where v: "dequeueAsVec_loop maxCount 0 (replicate n 0) bs = Some (v, [])" "length v = n"
    "\<forall>j<256. j < length bs \<longrightarrow> v ! j = bs ! (length bs - 1 - (length bs - 1 - j) mod 256)"
    "\<forall>j<n. 256 \<le> j \<or> length bs \<le> j \<longrightarrow> v ! j = 0"
    by blast
  let ?i = "length bs mod 256"
  have lt: "?i < n" using snoc.prems by (meson mod_less_divisor order_less_le_trans zero_less_numeral)
  have run: "dequeueAsVec_loop maxCount 0 (replicate n 0) (bs @ [b]) = Some (v[?i := b], [])"
    using snoc.prems v(1,2) lt dequeueAsVec_loop_test [OF assms, of "of_nat (length bs)"]
    by (simp add: dequeueAsVec_loop_append [OF assms] width_simps)
  have low: "(v[?i := b]) ! j = (bs @ [b]) ! (length bs - (length bs - j) mod 256)"
    if j: "j < 256" "j < Suc (length bs)" for j
  proof (cases "j = ?i")
    case True
    have "?i \<le> length bs" by (rule mod_less_eq_dividend)
    then have "(length bs - ?i) mod 256 = 0" by (metis dvd_minus_mod mod_eq_0_iff_dvd)
    then show ?thesis using True lt v(2) by (simp add: nth_append)
  next
    case False
    with j have lt': "j < length bs" by (cases "j = length bs") auto
    have "length bs - 1 - (length bs - 1 - j) mod 256 < length bs" using lt' by simp
    with False lt' j v(3) wrap_position [OF j(1) False lt'] show ?thesis
      by (simp add: nth_append)
  qed
  have high: "(v[?i := b]) ! j = 0" if "j < n" "256 \<le> j \<or> Suc (length bs) \<le> j" for j
  proof -
    have "j \<noteq> ?i"
      using that by (metis Suc_n_not_le_n less_le_not_le mod_less_divisor mod_less_eq_dividend order_trans zero_less_numeral)
    with that v(4) show ?thesis by auto
  qed
  from v(2) have "length (v[?i := b]) = n" by simp
  moreover have "\<forall>j<256. j < length (bs @ [b]) \<longrightarrow> (v[?i := b]) ! j
      = (bs @ [b]) ! (length (bs @ [b]) - 1 - (length (bs @ [b]) - 1 - j) mod 256)"
    using low by simp
  moreover have "\<forall>j<n. 256 \<le> j \<or> length (bs @ [b]) \<le> j \<longrightarrow> (v[?i := b]) ! j = 0"
    using high by (metis length_append_singleton)
  ultimately show ?case using run by blast
qed

section \<open>Properties\<close>

text \<open>
  \<open>dequeue\<close> takes the first \<open>min(maxCount, size)\<close> bytes: what it returns followed by
  what stays is the old content, and \<open>peek\<close> returns the same bytes without removing them.
\<close>

theorem dequeue_splits:
  "case dequeue maxCount q of (out, q') \<Rightarrow>
     out @ bytes q' = bytes q \<and> length out = min (unat maxCount) (queueSize q)
     \<and> queueSize q' = queueSize q - unat maxCount \<and> peek maxCount q = out"
  by (simp add: dequeue_def peek_def queueSize_def countToDequeue_def Let_def min_def)

text \<open>
  (C39) \<open>dequeueAsVec\<close> agrees with \<open>dequeue\<close> whenever at most 255 bytes are asked for or
  at most 256 bytes are queued: its 8-bit counter cannot wrap before it stops, and no
  store is out of range.
\<close>

theorem dequeueAsVec_eq_dequeue:
  assumes "unat maxCount \<le> 255 \<or> queueSize q \<le> 256"
  shows "dequeueAsVec maxCount q = Some (dequeue maxCount q)"
  using dequeueAsVec_loop_prefix [of maxCount "[]" "bytes q" "countToDequeue maxCount (bytes q)"] assms
  by (simp add: dequeueAsVec_def dequeue_def queueSize_def countToDequeue_def Let_def)

theorem dequeueAsVec_eq_dequeue_witness:
  "dequeueAsVec 2 \<lparr>bytes = [10, 20, 30]\<rparr> = Some ([10, 20], \<lparr>bytes = [30]\<rparr>)"
  using dequeueAsVec_eq_dequeue [of 2 "\<lparr>bytes = [10, 20, 30]\<rparr>"]
  by (simp add: dequeue_def countToDequeue_def queueSize_def)

text \<open>
  With more than 256 bytes queued and a limit of at least 256, the 8-bit counter of
  \<open>dequeueAsVec\<close> wraps: the whole deque is consumed whatever the limit, position \<open>j\<close> of the
  vector is overwritten with the last byte whose position is congruent to \<open>j\<close> modulo 256, and the
  positions from 256 on stay zero.  The earlier bytes are lost.
\<close>

theorem dequeueAsVec_wraps:
  assumes "256 \<le> unat maxCount" and "256 < queueSize q"
  shows "\<exists>v. dequeueAsVec maxCount q = Some (v, q\<lparr>bytes := []\<rparr>)
     \<and> length v = min (unat maxCount) (queueSize q)
     \<and> (\<forall>j<256. v ! j = bytes q ! (queueSize q - 1 - (queueSize q - 1 - j) mod 256))
     \<and> (\<forall>j. 256 \<le> j \<and> j < length v \<longrightarrow> v ! j = 0)"
  using dequeueAsVec_loop_wrap [OF assms(1), of "countToDequeue maxCount (bytes q)" "bytes q"] assms
  by (auto simp: dequeueAsVec_def queueSize_def countToDequeue_def min_def split: if_splits)

theorem dequeueAsVec_wraps_witness:
  "\<exists>v. dequeueAsVec 256 \<lparr>bytes = replicate 300 7\<rparr> = Some (v, \<lparr>bytes = []\<rparr>) \<and> length v = 256"
proof -
  have "256 \<le> unat (256 :: size_t)" and "256 < queueSize \<lparr>bytes = replicate 300 7\<rparr>"
    by (simp_all add: queueSize_def)
  from dequeueAsVec_wraps [OF this] show ?thesis by (auto simp: queueSize_def)
qed

section \<open>The stream contract\<close>

text \<open>
  What a channel and its listeners rely on: pushing appends, popping removes a prefix.
  From the two laws it follows that every interleaving of pushes and pops delivers the
  bytes in the order they arrived, none lost and none repeated.
\<close>

datatype stream_op = Push "byte list" | Pop size_t

fun run_stream ::
  "(byte list \<Rightarrow> 'q \<Rightarrow> 'q) \<Rightarrow> (size_t \<Rightarrow> 'q \<Rightarrow> byte list \<times> 'q) \<Rightarrow> stream_op list \<Rightarrow> 'q \<Rightarrow> byte list \<times> 'q" where
  "run_stream push pop [] q = ([], q)"
| "run_stream push pop (Push bs # ops) q = run_stream push pop ops (push bs q)"
| "run_stream push pop (Pop n # ops) q =
     (case pop n q of (out, q') \<Rightarrow> apfst ((@) out) (run_stream push pop ops q'))"

fun pushed :: "stream_op list \<Rightarrow> byte list" where
  "pushed [] = []"
| "pushed (Push bs # ops) = bs @ pushed ops"
| "pushed (Pop n # ops) = pushed ops"

locale byte_stream =
  fixes content :: "'q \<Rightarrow> byte list"
    and push :: "byte list \<Rightarrow> 'q \<Rightarrow> 'q"
    and pop :: "size_t \<Rightarrow> 'q \<Rightarrow> byte list \<times> 'q"
  assumes content_push: "content (push bs q) = content q @ bs"
    and content_pop: "pop n q = (out, q') \<Longrightarrow> content q = out @ content q'"
begin

lemma run_stream_fifo:
  "run_stream push pop ops q = (out, q') \<Longrightarrow> out @ content q' = content q @ pushed ops"
proof (induction ops arbitrary: q out q')
  case Nil
  then show ?case by simp
next
  case (Cons op ops)
  show ?case
  proof (cases op)
    case (Push bs)
    with Cons show ?thesis by (simp add: content_push)
  next
    case (Pop n)
    obtain a r where pop: "pop n q = (a, r)" by (cases "pop n q")
    obtain b r' where rest: "run_stream push pop ops r = (b, r')" by (cases "run_stream push pop ops r")
    with Pop pop Cons.prems have "out = a @ b" "q' = r'" by simp_all
    with Cons.IH [OF rest] content_pop [OF pop] Pop show ?thesis by simp
  qed
qed

end

interpretation span_queue: byte_stream bytes enqueue_span dequeue
  by unfold_locales (auto simp: enqueue_span_def dequeue_def Let_def)

interpretation move_queue: byte_stream bytes enqueueMove dequeue
  by unfold_locales (auto simp: enqueueMove_def dequeue_def Let_def)

text \<open>
  Any interleaving of \<open>enqueueMove\<close> (what \<open>Channel::readData\<close> calls) and \<open>dequeue\<close> on a
  stream queue is first in, first out: the bytes returned so far followed by the bytes
  still queued are the bytes that were queued at the start followed by all bytes pushed.
\<close>

theorem stream_queue_fifo:
  "case run_stream enqueueMove dequeue ops q of (out, q') \<Rightarrow> out @ bytes q' = bytes q @ pushed ops"
  using move_queue.run_stream_fifo by (auto split: prod.split)

text \<open>
  Enqueueing a message puts its bytes in front of the queue, so they overtake every byte
  already queued, while the span and vector overloads append.
\<close>

theorem enqueue_message_overtakes:
  assumes "length newBytes = unat n"
  shows "fst (dequeue n (enqueue_message newBytes q)) = newBytes
     \<and> bytes (snd (dequeue n (enqueue_message newBytes q))) = bytes q
     \<and> bytes (enqueue_vector newBytes q) = bytes q @ newBytes"
  using assms by (simp add: dequeue_def enqueue_message_def enqueue_vector_def countToDequeue_def Let_def)

theorem enqueue_message_overtakes_witness:
  "fst (dequeue 1 (enqueue_message [9] \<lparr>bytes = [1, 2]\<rparr>)) = [9]"
  using enqueue_message_overtakes [of "[9]" 1] by simp

end
