(* ===== verification/Message.thy ===== *)
theory Message
  imports Prelude
begin

text \<open>
  Model of \<open>shared/Message.hpp\<close>: an owning byte buffer with hand-written copy, move and
  destruction.  Because every claim about it is about ownership, the model has an explicit
  store: message objects are named by numbers, buffers live in a heap of cells, memory is
  finite (\<open>new\<close> throws \<open>bad_alloc\<close> when it is exhausted), and a sticky flag \<open>ub\<close> records
  undefined behaviour (a double \<open>delete[]\<close>, a read past a buffer or through a dangling
  pointer).
\<close>

section \<open>Store\<close>

type_synonym addr = nat
type_synonym obj = nat

record message =
  len_field :: size_t
  data_field :: "addr option"

text \<open>A cell that was allocated but not written holds \<open>None\<close>.\<close>

type_synonym buffer = "byte option list"

record mem =
  objs :: "obj \<Rightarrow> message"
  cells :: "addr \<Rightarrow> buffer option"
  nextAddr :: addr
  avail :: nat
  ub :: bool

definition default_message :: message where
  "default_message = \<lparr>len_field = 0, data_field = None\<rparr>"

abbreviation set_obj :: "obj \<Rightarrow> message \<Rightarrow> mem \<Rightarrow> mem" where
  "set_obj i m M \<equiv> M\<lparr>objs := (objs M)(i := m)\<rparr>"

definition new_bytes :: "size_t \<Rightarrow> mem \<Rightarrow> (addr \<times> mem) option" where
  "new_bytes len M =
     (if unat len \<le> avail M
      then Some (nextAddr M,
             M\<lparr>cells := (cells M)(nextAddr M \<mapsto> replicate (unat len) None),
               nextAddr := Suc (nextAddr M), avail := avail M - unat len\<rparr>)
      else None)"

definition delete_bytes :: "addr option \<Rightarrow> mem \<Rightarrow> mem" where
  "delete_bytes p M =
     (case p of
        None \<Rightarrow> M
      | Some a \<Rightarrow>
          (case cells M a of
             None \<Rightarrow> M\<lparr>ub := True\<rparr>
           | Some buf \<Rightarrow> M\<lparr>cells := (cells M)(a := None), avail := avail M + length buf\<rparr>))"

text \<open>The bytes readable through a pointer; a dangling pointer reads nothing.\<close>

definition readable :: "mem \<Rightarrow> addr option \<Rightarrow> buffer option" where
  "readable M p = map_option (\<lambda>a. case cells M a of None \<Rightarrow> [] | Some buf \<Rightarrow> buf) p"

definition memcpy :: "addr \<Rightarrow> buffer \<Rightarrow> nat \<Rightarrow> mem \<Rightarrow> mem" where
  "memcpy dst src n M =
     (if length src < n then M\<lparr>ub := True\<rparr>
      else M\<lparr>cells := (cells M)(dst \<mapsto> take n src)\<rparr>)"

section \<open>Operations\<close>

text \<open>\<open>init(size_t len)\<close>: the length is stored before \<open>new\<close> may throw.\<close>

definition init_len :: "obj \<Rightarrow> size_t \<Rightarrow> mem \<Rightarrow> exn option \<times> mem" where
  "init_len this len M =
     (if len = 0 then (None, set_obj this \<lparr>len_field = 0, data_field = None\<rparr> M)
      else
        let M1 = set_obj this ((objs M this)\<lparr>len_field := len\<rparr>) M
        in case new_bytes len M1 of
             None \<Rightarrow> (Some bad_alloc, M1)
           | Some (a, M2) \<Rightarrow> (None, set_obj this \<lparr>len_field = len, data_field = Some a\<rparr> M2))"

text \<open>\<open>init(const byte* data, size_t len)\<close>; \<open>src\<close> is what can be read at \<open>data\<close>, \<open>None\<close> for null.\<close>

definition init_data :: "obj \<Rightarrow> buffer option \<Rightarrow> size_t \<Rightarrow> mem \<Rightarrow> exn option \<times> mem" where
  "init_data this src len M =
     (case src of
        None \<Rightarrow> (None, set_obj this \<lparr>len_field = 0, data_field = None\<rparr> M)
      | Some buf \<Rightarrow>
          if len = 0 then (None, set_obj this \<lparr>len_field = 0, data_field = None\<rparr> M)
          else
            let M1 = set_obj this ((objs M this)\<lparr>len_field := len\<rparr>) M
            in case new_bytes len M1 of
                 None \<Rightarrow> (Some bad_alloc, M1)
               | Some (a, M2) \<Rightarrow>
                   (None, memcpy a buf (unat len)
                            (set_obj this \<lparr>len_field = len, data_field = Some a\<rparr> M2)))"

definition Message_len :: "obj \<Rightarrow> size_t \<Rightarrow> mem \<Rightarrow> exn option \<times> mem" where
  "Message_len this len M = init_len this len (set_obj this default_message M)"

definition Message_ptr :: "obj \<Rightarrow> buffer option \<Rightarrow> size_t \<Rightarrow> mem \<Rightarrow> exn option \<times> mem" where
  "Message_ptr this data len M = init_data this data len (set_obj this default_message M)"

text \<open>The span, vector and string view constructors pass the container's \<open>data()\<close> and size.\<close>

definition Message_bytes :: "obj \<Rightarrow> byte list \<Rightarrow> mem \<Rightarrow> exn option \<times> mem" where
  "Message_bytes this bs M =
     init_data this (Some (map Some bs)) (of_nat (length bs)) (set_obj this default_message M)"

definition Message_copy :: "obj \<Rightarrow> obj \<Rightarrow> mem \<Rightarrow> exn option \<times> mem" where
  "Message_copy this msg M =
     init_data this (readable M (data_field (objs M msg))) (len_field (objs M msg))
       (set_obj this default_message M)"

definition assign_copy :: "obj \<Rightarrow> obj \<Rightarrow> mem \<Rightarrow> exn option \<times> mem" where
  "assign_copy this msg M =
     (if msg = this then (None, M)
      else
        let M1 = delete_bytes (data_field (objs M this)) M
        in init_data this (readable M1 (data_field (objs M1 msg))) (len_field (objs M1 msg)) M1)"

definition move :: "obj \<Rightarrow> obj \<Rightarrow> mem \<Rightarrow> mem" where
  "move this other M =
     (if other = this then M
      else
        let M1 = set_obj this ((objs M this)\<lparr>len_field := len_field (objs M other)\<rparr>) M;
            M2 = delete_bytes (data_field (objs M1 this)) M1;
            M3 = set_obj this ((objs M2 this)\<lparr>data_field := data_field (objs M2 other)\<rparr>) M2
        in set_obj other ((objs M3 other)\<lparr>data_field := None\<rparr>) M3)"

definition Message_move :: "obj \<Rightarrow> obj \<Rightarrow> mem \<Rightarrow> mem" where
  "Message_move this other M = move this other (set_obj this default_message M)"

definition assign_move :: "obj \<Rightarrow> obj \<Rightarrow> mem \<Rightarrow> mem" where
  "assign_move this other M = move this other M"

definition destroy_message :: "obj \<Rightarrow> mem \<Rightarrow> mem" where
  "destroy_message this M = delete_bytes (data_field (objs M this)) M"

definition message_data :: "obj \<Rightarrow> mem \<Rightarrow> addr option" where
  "message_data this M = data_field (objs M this)"

definition message_length :: "obj \<Rightarrow> mem \<Rightarrow> size_t" where
  "message_length this M = len_field (objs M this)"

text \<open>
  \<open>toStringView\<close> and \<open>toSpan\<close> form a view of \<open>_len\<close> bytes at \<open>_data\<close>; \<open>toString\<close> reads it.  The
  read is \<open>None\<close> when the view is longer than what the pointer gives.
\<close>

definition toSpan :: "obj \<Rightarrow> mem \<Rightarrow> addr option \<times> size_t" where
  "toSpan this M = (data_field (objs M this), len_field (objs M this))"

definition read_span :: "addr option \<times> size_t \<Rightarrow> mem \<Rightarrow> buffer option" where
  "read_span v M =
     (case readable M (fst v) of
        None \<Rightarrow> (if snd v = 0 then Some [] else None)
      | Some buf \<Rightarrow> if unat (snd v) \<le> length buf then Some (take (unat (snd v)) buf) else None)"

definition toString :: "obj \<Rightarrow> mem \<Rightarrow> buffer option" where
  "toString this M = read_span (toSpan this M) M"

section \<open>Ownership invariant\<close>

text \<open>
  For the set \<open>S\<close> of live objects: a non-null pointer points to a live buffer of exactly
  \<open>_len\<close> bytes, two objects never share a buffer, every live buffer has an owner (nothing
  leaks) and no undefined behaviour happened.
\<close>

definition owns :: "mem \<Rightarrow> obj \<Rightarrow> addr \<Rightarrow> bool" where
  "owns M i a \<longleftrightarrow> data_field (objs M i) = Some a"

definition wf_mem :: "obj set \<Rightarrow> mem \<Rightarrow> bool" where
  "wf_mem S M \<longleftrightarrow>
     \<not> ub M
     \<and> (\<forall>i\<in>S. \<forall>a. owns M i a \<longrightarrow>
          (\<exists>buf. cells M a = Some buf \<and> length buf = unat (len_field (objs M i)) \<and> buf \<noteq> []))
     \<and> (\<forall>i\<in>S. \<forall>j\<in>S. \<forall>a. owns M i a \<and> owns M j a \<longrightarrow> i = j)
     \<and> (\<forall>a. cells M a \<noteq> None \<longrightarrow> (\<exists>i\<in>S. owns M i a) \<and> a < nextAddr M)"

lemma wf_memI:
  assumes "\<not> ub M"
    and "\<And>i a. i \<in> S \<Longrightarrow> data_field (objs M i) = Some a \<Longrightarrow>
      \<exists>buf. cells M a = Some buf \<and> length buf = unat (len_field (objs M i)) \<and> buf \<noteq> []"
    and "\<And>i j a. i \<in> S \<Longrightarrow> j \<in> S \<Longrightarrow> data_field (objs M i) = Some a \<Longrightarrow>
      data_field (objs M j) = Some a \<Longrightarrow> i = j"
    and "\<And>a buf. cells M a = Some buf \<Longrightarrow> \<exists>i\<in>S. data_field (objs M i) = Some a"
    and "\<And>a buf. cells M a = Some buf \<Longrightarrow> a < nextAddr M"
  shows "wf_mem S M"
  using assms unfolding wf_mem_def owns_def by blast

lemma wf_memD_buffer:
  "wf_mem S M \<Longrightarrow> i \<in> S \<Longrightarrow> data_field (objs M i) = Some a \<Longrightarrow>
     \<exists>buf. cells M a = Some buf \<and> length buf = unat (len_field (objs M i)) \<and> buf \<noteq> []"
  by (simp add: wf_mem_def owns_def)

lemma wf_memD_disjoint:
  "wf_mem S M \<Longrightarrow> i \<in> S \<Longrightarrow> j \<in> S \<Longrightarrow> data_field (objs M i) = Some a \<Longrightarrow>
     data_field (objs M j) = Some a \<Longrightarrow> i = j"
  unfolding wf_mem_def owns_def by blast

lemma wf_memD_owned: "wf_mem S M \<Longrightarrow> cells M a = Some buf \<Longrightarrow> \<exists>i\<in>S. data_field (objs M i) = Some a"
  unfolding wf_mem_def owns_def by blast

lemma wf_memD_fresh: "wf_mem S M \<Longrightarrow> cells M a = Some buf \<Longrightarrow> a < nextAddr M"
  unfolding wf_mem_def by blast

lemma wf_memD_no_ub: "wf_mem S M \<Longrightarrow> \<not> ub M"
  by (simp add: wf_mem_def)

text \<open>Updating an object that is not live changes nothing the invariant looks at.\<close>

lemma wf_mem_frame:
  assumes "wf_mem S M" and "\<And>i. i \<in> S \<Longrightarrow> objs M' i = objs M i"
    and "cells M' = cells M" "nextAddr M' = nextAddr M" "ub M' = ub M"
  shows "wf_mem S M'"
proof (rule wf_memI)
  show "\<not> ub M'" using assms(1,5) by (simp add: wf_memD_no_ub)
next
  fix i a assume "i \<in> S" "data_field (objs M' i) = Some a"
  then show "\<exists>buf. cells M' a = Some buf \<and> length buf = unat (len_field (objs M' i)) \<and> buf \<noteq> []"
    using wf_memD_buffer [OF assms(1)] assms(2,3) by simp
next
  fix i j a assume "i \<in> S" "j \<in> S" "data_field (objs M' i) = Some a" "data_field (objs M' j) = Some a"
  then show "i = j" using wf_memD_disjoint [OF assms(1)] assms(2) by metis
next
  fix a buf assume "cells M' a = Some buf"
  then show "\<exists>i\<in>S. data_field (objs M' i) = Some a"
    using wf_memD_owned [OF assms(1)] assms(2,3) by metis
next
  fix a buf assume "cells M' a = Some buf"
  then show "a < nextAddr M'" using wf_memD_fresh [OF assms(1)] assms(3,4) by metis
qed

lemma wf_mem_set_dead [simp]:
  assumes "i \<notin> S"
  shows "wf_mem S (set_obj i m M) = wf_mem S M"
  using assms by (intro iffI; elim wf_mem_frame) auto

lemma message_update_all [simp]:
  "m\<lparr>len_field := n, data_field := p\<rparr> = \<lparr>len_field = n, data_field = p\<rparr>"
  by (cases m) simp

lemma delete_bytes_set_obj [simp]:
  "delete_bytes p (set_obj i m M) = set_obj i m (delete_bytes p M)"
  by (simp add: delete_bytes_def split: option.split)

lemma delete_bytes_objs [simp]: "objs (delete_bytes p M) = objs M"
  by (simp add: delete_bytes_def split: option.split)

text \<open>The three ways an object gets its pointer: null, a fresh buffer, another object's buffer.\<close>

lemma wf_mem_null:
  assumes wf: "wf_mem S M" and "i \<notin> S"
  shows "wf_mem (insert i S) (set_obj i \<lparr>len_field = n, data_field = None\<rparr> M)"
proof (rule wf_memI)
  fix j a assume "j \<in> insert i S" "data_field (objs (set_obj i \<lparr>len_field = n, data_field = None\<rparr> M) j) = Some a"
  then show "\<exists>buf. cells (set_obj i \<lparr>len_field = n, data_field = None\<rparr> M) a = Some buf \<and>
      length buf = unat (len_field (objs (set_obj i \<lparr>len_field = n, data_field = None\<rparr> M) j)) \<and> buf \<noteq> []"
    using wf_memD_buffer [OF wf] by (auto split: if_splits)
qed (use wf_memD_no_ub [OF wf] wf_memD_disjoint [OF wf] wf_memD_fresh [OF wf] wf_memD_owned [OF wf] assms
      in \<open>fastforce split: if_splits\<close>)+

lemma wf_mem_fresh:
  assumes wf: "wf_mem S M" and "i \<notin> S" and "length buf = unat n" and "buf \<noteq> []"
    and M': "M' = set_obj i \<lparr>len_field = n, data_field = Some (nextAddr M)\<rparr>
        (M\<lparr>cells := (cells M)(nextAddr M \<mapsto> buf), nextAddr := Suc (nextAddr M), avail := r\<rparr>)"
  shows "wf_mem (insert i S) M'"
proof (rule wf_memI)
  have old: "a < nextAddr M" if "j \<in> S" "data_field (objs M j) = Some a" for j a
    using wf_memD_buffer [OF wf that] wf_memD_fresh [OF wf] by blast
  have eq: "objs M' i = \<lparr>len_field = n, data_field = Some (nextAddr M)\<rparr>"
    and other: "\<And>j. j \<in> S \<Longrightarrow> objs M' j = objs M j"
    and cells: "cells M' = (cells M)(nextAddr M \<mapsto> buf)" and nxt: "nextAddr M' = Suc (nextAddr M)"
    using assms(2) by (auto simp: M')
  show "\<not> ub M'" using wf_memD_no_ub [OF wf] by (simp add: M')
  show "\<exists>b. cells M' a = Some b \<and> length b = unat (len_field (objs M' j)) \<and> b \<noteq> []"
    if "j \<in> insert i S" "data_field (objs M' j) = Some a" for j a
    using that wf_memD_buffer [OF wf, of j a] old [of j a] assms(3,4) other [of j] by (auto simp: eq cells)
  show "j = k" if "j \<in> insert i S" "k \<in> insert i S"
    "data_field (objs M' j) = Some a" "data_field (objs M' k) = Some a" for j k a
    using that wf_memD_disjoint [OF wf, of j k a] old [of j a] old [of k a] other by (auto simp: eq)
  show "\<exists>j\<in>insert i S. data_field (objs M' j) = Some a" if "cells M' a = Some b" for a b
    using that wf_memD_owned [OF wf, of a] other by (fastforce simp: eq cells split: if_splits)
  show "a < nextAddr M'" if "cells M' a = Some b" for a b
    using that wf_memD_fresh [OF wf, of a b] by (auto simp: cells nxt split: if_splits)
qed

lemma wf_mem_take_over:
  assumes wf: "wf_mem S M" and "i \<notin> S" and "j \<in> S"
    and M': "M' = set_obj j ((objs M j)\<lparr>data_field := None\<rparr>)
        (set_obj i \<lparr>len_field = len_field (objs M j), data_field = data_field (objs M j)\<rparr> M)"
  shows "wf_mem (insert i S) M'"
proof (rule wf_memI)
  have i: "data_field (objs M' i) = data_field (objs M j)" "len_field (objs M' i) = len_field (objs M j)"
    and j: "data_field (objs M' j) = None"
    and k: "\<And>k. k \<in> S \<Longrightarrow> k \<noteq> j \<Longrightarrow> objs M' k = objs M k"
    and cells: "cells M' = cells M" and nxt: "nextAddr M' = nextAddr M"
    using assms(2,3) by (auto simp: M')
  show "\<not> ub M'" using wf_memD_no_ub [OF wf] by (simp add: M')
  show "\<exists>b. cells M' a = Some b \<and> length b = unat (len_field (objs M' l)) \<and> b \<noteq> []"
    if "l \<in> insert i S" "data_field (objs M' l) = Some a" for l a
    using that wf_memD_buffer [OF wf, of l a] wf_memD_buffer [OF wf \<open>j \<in> S\<close>, of a] k [of l] i j
    by (cases "l = i"; cases "l = j") (auto simp: cells)
  show "l = m" if "l \<in> insert i S" "m \<in> insert i S"
    "data_field (objs M' l) = Some a" "data_field (objs M' m) = Some a" for l m a
    using that wf_memD_disjoint [OF wf, of l m a] wf_memD_disjoint [OF wf, of j m a]
      wf_memD_disjoint [OF wf, of l j a] assms(2,3) i j k [of l] k [of m]
    by (cases "l = j"; cases "m = j") auto
  show "\<exists>l\<in>insert i S. data_field (objs M' l) = Some a" if "cells M' a = Some b" for a b
    using wf_memD_owned [OF wf, of a b] that i k by (metis cells insert_iff)
  show "a < nextAddr M'" if "cells M' a = Some b" for a b
    using that wf_memD_fresh [OF wf, of a b] by (simp add: cells nxt)
qed

lemma delete_bytes_live:
  assumes "wf_mem S M" and "i \<in> S"
  shows "\<not> ub (delete_bytes (data_field (objs M i)) M)"
    and "nextAddr (delete_bytes (data_field (objs M i)) M) = nextAddr M"
    and "cells (delete_bytes (data_field (objs M i)) M) a
           = (if data_field (objs M i) = Some a then None else cells M a)"
  using assms wf_memD_no_ub [OF assms(1)] wf_memD_buffer [OF assms]
  by (auto simp: delete_bytes_def split: option.split)

lemma wf_mem_release:
  assumes wf: "wf_mem S M" and i: "i \<in> S"
  shows "wf_mem (S - {i}) (delete_bytes (data_field (objs M i)) M)" (is "wf_mem _ ?D")
proof (rule wf_memI)
  note live = delete_bytes_live [OF wf i]
  have other: "data_field (objs M i) \<noteq> Some a" if "j \<in> S - {i}" "data_field (objs M j) = Some a" for j a
    using that wf_memD_disjoint [OF wf i, of j a] by blast
  show "\<not> ub ?D" by (rule live(1))
  show "\<exists>buf. cells ?D a = Some buf \<and> length buf = unat (len_field (objs ?D j)) \<and> buf \<noteq> []"
    if "j \<in> S - {i}" "data_field (objs ?D j) = Some a" for j a
    using that other [of j a] wf_memD_buffer [OF wf, of j a] by (simp add: live(3))
  show "j = k" if "j \<in> S - {i}" "k \<in> S - {i}"
    "data_field (objs ?D j) = Some a" "data_field (objs ?D k) = Some a" for j k a
    using that wf_memD_disjoint [OF wf, of j k a] by simp
  show "\<exists>j\<in>S - {i}. data_field (objs ?D j) = Some a" if "cells ?D a = Some buf" for a buf
    using that wf_memD_owned [OF wf, of a buf] by (auto simp: live(3) split: if_splits)
  show "a < nextAddr ?D" if "cells ?D a = Some buf" for a buf
    using that wf_memD_fresh [OF wf, of a buf] by (simp add: live(2,3) split: if_splits)
qed

section \<open>Every operation keeps the invariant\<close>

lemma wf_mem_init_len:
  assumes "wf_mem S M" and "i \<notin> S" and "init_len i n M = (None, M')"
  shows "wf_mem (insert i S) M'"
proof (cases "n = 0")
  case True
  with assms show ?thesis by (auto simp: init_len_def wf_mem_null)
next
  case False
  then have "replicate (unat n) None \<noteq> []" by (simp add: unat_eq_zero)
  moreover have "wf_mem S (set_obj i ((objs M i)\<lparr>len_field := n\<rparr>) M)" using assms(1,2) by simp
  ultimately show ?thesis
    using assms False
    by (intro wf_mem_fresh [of S "set_obj i ((objs M i)\<lparr>len_field := n\<rparr>) M" i "replicate (unat n) None" n M'
          "avail M - unat n"])
       (auto simp: init_len_def new_bytes_def Let_def split: if_splits)
qed

lemma wf_mem_init_data:
  assumes "wf_mem S M" and "i \<notin> S" and "init_data i src n M = (None, M')"
    and "\<And>buf. src = Some buf \<Longrightarrow> unat n \<le> length buf"
  shows "wf_mem (insert i S) M'"
proof (cases "src = None \<or> n = 0")
  case True
  with assms show ?thesis by (auto simp: init_data_def wf_mem_null split: option.splits)
next
  case False
  then obtain buf where src: "src = Some buf" "n \<noteq> 0" by auto
  then have "take (unat n) buf \<noteq> []" using assms(4) by (auto simp: unat_eq_zero)
  moreover have "wf_mem S (set_obj i ((objs M i)\<lparr>len_field := n\<rparr>) M)" using assms(1,2) by simp
  ultimately show ?thesis
    using assms src
    by (intro wf_mem_fresh [of S "set_obj i ((objs M i)\<lparr>len_field := n\<rparr>) M" i "take (unat n) buf" n M'
          "avail M - unat n"])
       (auto simp: init_data_def new_bytes_def memcpy_def Let_def split: if_splits)
qed

text \<open>A constructor whose allocation throws leaves the live objects as they were.\<close>

lemma init_len_throws: "i \<notin> S \<Longrightarrow> wf_mem S M \<Longrightarrow> init_len i n M = (Some e, M') \<Longrightarrow> wf_mem S M'"
  by (auto simp: init_len_def Let_def split: if_splits option.splits)

lemma init_data_throws: "i \<notin> S \<Longrightarrow> wf_mem S M \<Longrightarrow> init_data i src n M = (Some e, M') \<Longrightarrow> wf_mem S M'"
  by (auto simp: init_data_def Let_def split: if_splits option.splits)

lemma readable_live:
  assumes "wf_mem S M" and "j \<in> S" and "readable M (data_field (objs M j)) = Some buf"
  shows "unat (len_field (objs M j)) \<le> length buf"
  using assms wf_memD_buffer [OF assms(1,2)] by (auto simp: readable_def)

lemma wf_mem_move:
  assumes "wf_mem S M" and "this \<in> S" and "other \<in> S"
  shows "wf_mem S (move this other M)"
proof (cases "other = this")
  case True
  with assms show ?thesis by (simp add: move_def)
next
  case False
  let ?D = "delete_bytes (data_field (objs M this)) M"
  have rel: "wf_mem (S - {this}) ?D" using assms by (simp add: wf_mem_release)
  have "move this other M =
    set_obj other ((objs ?D other)\<lparr>data_field := None\<rparr>)
      (set_obj this \<lparr>len_field = len_field (objs ?D other), data_field = data_field (objs ?D other)\<rparr> ?D)"
    using False by (simp add: move_def Let_def)
  moreover have "insert this (S - {this}) = S" using assms by blast
  ultimately show ?thesis
    using wf_mem_take_over [OF rel, of this other, OF _ _ refl] assms False by simp
qed

lemma wf_mem_Message_move:
  assumes "wf_mem S M" and "this \<notin> S" and "other \<in> S"
  shows "wf_mem (insert this S) (Message_move this other M)"
proof -
  have "wf_mem (insert this S) (set_obj this default_message M)"
    using wf_mem_null [OF assms(1,2)] by (simp add: default_message_def)
  then show ?thesis
    unfolding Message_move_def by (rule wf_mem_move) (use assms in auto)
qed

lemma wf_mem_ctor_data:
  assumes "wf_mem S M" and "i \<notin> S" and "\<And>buf. src = Some buf \<Longrightarrow> unat n \<le> length buf"
    and "init_data i src n (set_obj i default_message M) = (e, M')"
  shows "wf_mem (if e = None then insert i S else S) M'"
  using assms wf_mem_init_data [of S "set_obj i default_message M" i src n M']
    init_data_throws [of i S "set_obj i default_message M" src n _ M']
  by (cases e) auto

lemma wf_mem_assign_copy:
  assumes "wf_mem S M" and "this \<in> S" and "msg \<in> S" and "assign_copy this msg M = (None, M')"
  shows "wf_mem S M'"
proof (cases "msg = this")
  case True
  with assms show ?thesis by (simp add: assign_copy_def)
next
  case False
  let ?D = "delete_bytes (data_field (objs M this)) M"
  have rel: "wf_mem (S - {this}) ?D" using assms by (simp add: wf_mem_release)
  have "init_data this (readable ?D (data_field (objs ?D msg))) (len_field (objs ?D msg)) ?D = (None, M')"
    using assms False by (simp add: assign_copy_def Let_def)
  then have "wf_mem (insert this (S - {this})) M'"
    using readable_live [OF rel, of msg] assms False by (intro wf_mem_init_data [OF rel]) auto
  moreover have "insert this (S - {this}) = S" using assms by blast
  ultimately show ?thesis by simp
qed

section \<open>Programs over messages\<close>

text \<open>
  One step constructs, assigns or destroys one object, as the language allows it: a
  constructor runs on an object that is not live, every other operation on live ones; a
  constructor that throws leaves the object not live.  A copy assignment that throws is
  not one of these steps: a history counts those.
\<close>

inductive msg_step :: "obj set \<Rightarrow> mem \<Rightarrow> obj set \<Rightarrow> mem \<Rightarrow> bool" where
  ctor_len: "i \<notin> S \<Longrightarrow> Message_len i n M = (e, M') \<Longrightarrow>
     msg_step S M (if e = None then insert i S else S) M'"
| ctor_bytes: "i \<notin> S \<Longrightarrow> length bs < 2 ^ 64 \<Longrightarrow> Message_bytes i bs M = (e, M') \<Longrightarrow>
     msg_step S M (if e = None then insert i S else S) M'"
| ctor_copy: "i \<notin> S \<Longrightarrow> j \<in> S \<Longrightarrow> Message_copy i j M = (e, M') \<Longrightarrow>
     msg_step S M (if e = None then insert i S else S) M'"
| ctor_move: "i \<notin> S \<Longrightarrow> j \<in> S \<Longrightarrow> msg_step S M (insert i S) (Message_move i j M)"
| copy_assign: "i \<in> S \<Longrightarrow> j \<in> S \<Longrightarrow> assign_copy i j M = (None, M') \<Longrightarrow> msg_step S M S M'"
| move_assign: "i \<in> S \<Longrightarrow> j \<in> S \<Longrightarrow> msg_step S M S (assign_move i j M)"
| dtor: "i \<in> S \<Longrightarrow> msg_step S M (S - {i}) (destroy_message i M)"

inductive_cases msg_stepE: "msg_step S M S' M'"

lemma msg_step_wf:
  assumes "msg_step S M S' M'" and wf: "wf_mem S M"
  shows "wf_mem S' M'"
  using assms(1)
proof (cases rule: msg_step.cases)
  case (ctor_len i n e)
  then show ?thesis
    using wf wf_mem_init_len [of S "set_obj i default_message M" i n M']
      init_len_throws [of i S "set_obj i default_message M" n _ M']
    by (cases e) (auto simp: Message_len_def)
next
  case (ctor_bytes i bs e)
  then show ?thesis
    using wf_mem_ctor_data [OF wf, of i "Some (map Some bs)" "of_nat (length bs)" e M']
    by (auto simp: Message_bytes_def width_simps)
next
  case (ctor_copy i j e)
  then show ?thesis
    using wf_mem_ctor_data [OF wf, of i "readable M (data_field (objs M j))" "len_field (objs M j)" e M']
      readable_live [OF wf, of j]
    by (simp add: Message_copy_def)
next
  case (ctor_move i j)
  then show ?thesis using wf by (simp add: wf_mem_Message_move)
next
  case (copy_assign i j)
  then show ?thesis using wf wf_mem_assign_copy by blast
next
  case (move_assign i j)
  then show ?thesis using wf by (simp add: assign_move_def wf_mem_move)
next
  case (dtor i)
  then show ?thesis using wf by (simp add: destroy_message_def wf_mem_release)
qed

definition init_mem :: "nat \<Rightarrow> mem" where
  "init_mem n = \<lparr>objs = (\<lambda>_. default_message), cells = (\<lambda>_. None), nextAddr = 0, avail = n, ub = False\<rparr>"

text \<open>The last argument of a history counts the copy assignments that have thrown.\<close>

inductive msg_history :: "nat \<Rightarrow> obj set \<Rightarrow> mem \<Rightarrow> nat \<Rightarrow> bool" for n where
  start: "msg_history n {} (init_mem n) 0"
| step: "msg_history n S M k \<Longrightarrow> msg_step S M S' M' \<Longrightarrow> msg_history n S' M' k"
| copy_assign_throws: "msg_history n S M k \<Longrightarrow> i \<in> S \<Longrightarrow> j \<in> S \<Longrightarrow> assign_copy i j M = (Some e, M') \<Longrightarrow> msg_history n S M' (Suc k)"

lemma msg_history_wf: "msg_history n S M k \<Longrightarrow> k = 0 \<Longrightarrow> wf_mem S M"
proof (induction rule: msg_history.induct)
  case start
  show ?case by (simp add: wf_mem_def init_mem_def owns_def default_message_def)
next
  case (step S M k S' M')
  then show ?case by (blast intro: msg_step_wf)
qed simp

section \<open>Properties\<close>

text \<open>
  (C26) Ownership: in every program built from the constructors, assignments, moves and the
  destructor of messages in which no copy assignment has thrown (the last argument of the history
  is 0; constructors may throw) no buffer is freed twice, read out of range, shared between two
  messages or leaked.  What a copy assignment that throws does is the property
  \<open>assign_copy_throw_double_free\<close>.
\<close>

theorem message_ownership:
  assumes "msg_history n S M 0"
  shows "wf_mem S M"
  by (rule msg_history_wf [OF assms refl])

theorem message_ownership_witness:
  "\<exists>S M. msg_history 8 S M 0 \<and> 1 \<in> S \<and> wf_mem S M"
proof -
  have "msg_step {} (init_mem 8) (if fst (Message_bytes 1 [5, 6] (init_mem 8)) = None then insert 1 {} else {})
      (snd (Message_bytes 1 [5, 6] (init_mem 8)))"
    by (rule msg_step.ctor_bytes [where bs = "[5, 6]"]) auto
  moreover have "fst (Message_bytes 1 [5, 6] (init_mem 8)) = None"
    by (simp add: Message_bytes_def init_data_def new_bytes_def init_mem_def Let_def)
  ultimately have "msg_history 8 {1} (snd (Message_bytes 1 [5, 6] (init_mem 8))) 0"
    by (auto intro: msg_history.step [OF msg_history.start])
  with message_ownership [OF this] show ?thesis by blast
qed

text \<open>
  (C30) Round trip: a message built from bytes holds exactly these bytes; construction fails
  only when memory is exhausted.
\<close>

theorem message_bytes_roundtrip:
  assumes "length bs < 2 ^ 64" and "Message_bytes i bs M = (e, M')"
  shows "(e = None \<longleftrightarrow> length bs \<le> avail M) \<and> (e = None \<longrightarrow> toString i M' = Some (map Some bs))"
  using assms
  by (auto simp: Message_bytes_def init_data_def new_bytes_def memcpy_def toString_def toSpan_def
      read_span_def readable_def width_simps Let_def word_of_nat_eq_0_iff dvd_imp_le split: if_splits)

theorem message_bytes_roundtrip_witness:
  "toString 3 (snd (Message_bytes 3 [1, 2] (init_mem 4))) = Some [Some 1, Some 2]"
proof -
  have "Message_bytes 3 [1, 2] (init_mem 4)
      = (fst (Message_bytes 3 [1, 2] (init_mem 4)), snd (Message_bytes 3 [1, 2] (init_mem 4)))" by simp
  from message_bytes_roundtrip [OF _ this] show ?thesis by (simp add: init_mem_def)
qed

text \<open>
  The copy constructor is deep: the copy reads the same bytes as the source, the source
  is unchanged, and the two use different buffers.
\<close>

theorem message_copy_deep:
  assumes "wf_mem S M" and "j \<in> S" and "i \<notin> S" and "data_field (objs M j) \<noteq> None"
    and "Message_copy i j M = (None, M')"
  shows "toString i M' = toString j M \<and> toString j M' = toString j M
     \<and> message_length i M' = message_length j M \<and> message_data i M' \<noteq> message_data j M'"
proof -
  obtain a where a: "data_field (objs M j) = Some a" using assms(4) by blast
  obtain buf where buf: "cells M a = Some buf" "length buf = unat (len_field (objs M j))" "buf \<noteq> []"
    using wf_memD_buffer [OF assms(1,2) a] by blast
  have "a < nextAddr M" using wf_memD_fresh [OF assms(1) buf(1)] .
  moreover have "j \<noteq> i" using assms by blast
  moreover have "len_field (objs M j) \<noteq> 0" using buf by auto
  ultimately show ?thesis
    using assms(5) a buf
    by (auto simp: Message_copy_def init_data_def new_bytes_def memcpy_def toString_def toSpan_def
        read_span_def readable_def message_length_def message_data_def Let_def split: if_splits)
qed

theorem message_copy_deep_witness:
  "let M = snd (Message_bytes 1 [7] (init_mem 8)); M' = snd (Message_copy 2 1 M)
   in toString 2 M' = Some [Some 7]"
proof -
  let ?M = "snd (Message_bytes 1 [7] (init_mem 8))"
  have wf: "wf_mem {1} ?M"
    by (rule wf_memI) (auto simp: Message_bytes_def init_data_def new_bytes_def memcpy_def init_mem_def Let_def
        split: if_splits)
  have c: "Message_copy 2 1 ?M = (None, snd (Message_copy 2 1 ?M))"
    by (simp add: Message_copy_def Message_bytes_def init_data_def new_bytes_def memcpy_def init_mem_def
        readable_def Let_def)
  have d: "data_field (objs ?M 1) \<noteq> None"
    by (simp add: Message_bytes_def init_data_def new_bytes_def memcpy_def init_mem_def Let_def)
  have "toString 1 ?M = Some [Some 7]"
    by (simp add: Message_bytes_def init_data_def new_bytes_def memcpy_def init_mem_def toString_def toSpan_def
        read_span_def readable_def Let_def)
  with message_copy_deep [OF wf _ _ d c] show ?thesis by simp
qed

text \<open>
  A move hands the buffer over without copying and leaves the source with a null
  pointer, but the source keeps its old length: its span claims bytes behind a null pointer
  and reading it is undefined.
\<close>

theorem message_move_transfers:
  assumes "wf_mem S M" and "this \<in> S" and "other \<in> S" and "this \<noteq> other"
    and "data_field (objs M other) \<noteq> None"
  shows "toString this (move this other M) = toString other M
     \<and> message_data other (move this other M) = None
     \<and> message_length other (move this other M) = message_length other M
     \<and> toString other (move this other M) = None"
proof -
  let ?D = "delete_bytes (data_field (objs M this)) M"
  obtain a where a: "data_field (objs M other) = Some a" using assms(5) by blast
  then have "data_field (objs M this) \<noteq> Some a"
    using wf_memD_disjoint [OF assms(1-3)] assms(4) by blast
  then have cell: "cells ?D a = cells M a"
    using delete_bytes_live(3) [OF assms(1,2), of a] by simp
  have "len_field (objs M other) \<noteq> 0" using wf_memD_buffer [OF assms(1,3) a] by auto
  with a cell assms(4) show ?thesis
    by (auto simp: move_def Let_def toString_def toSpan_def read_span_def readable_def
        message_data_def message_length_def split: option.splits)
qed

theorem message_move_transfers_witness:
  "let M = snd (Message_bytes 1 [7] (set_obj 2 default_message (init_mem 8)))
   in toString 2 (move 2 1 M) = toString 1 M \<and> toString 1 (move 2 1 M) = None"
proof -
  let ?M = "snd (Message_bytes 1 [7] (set_obj 2 default_message (init_mem 8)))"
  have wf: "wf_mem {1, 2} ?M"
    by (rule wf_memI) (auto simp: Message_bytes_def init_data_def new_bytes_def memcpy_def init_mem_def
        default_message_def Let_def split: if_splits)
  have d: "data_field (objs ?M 1) \<noteq> None"
    by (simp add: Message_bytes_def init_data_def new_bytes_def memcpy_def init_mem_def Let_def)
  from message_move_transfers [OF wf _ _ _ d, of 2] show ?thesis by simp
qed

text \<open>
  (C36) Copy assignment is not exception safe: when its allocation throws, the old buffer is
  already deleted but \<open>_data\<close> still points to it, so destroying the object frees it a second
  time.
\<close>

theorem assign_copy_throw_double_free:
  assumes "wf_mem S M" and "this \<in> S" and "data_field (objs M this) \<noteq> None"
    and "assign_copy this msg M = (Some e, M')"
  shows "message_data this M' = message_data this M \<and> ub (destroy_message this M')"
proof -
  obtain a where a: "data_field (objs M this) = Some a" using assms(3) by blast
  let ?D = "delete_bytes (data_field (objs M this)) M"
  have "cells ?D a = None" using delete_bytes_live(3) [OF assms(1,2), of a] a by simp
  moreover have "cells M' = cells ?D \<and> data_field (objs M' this) = Some a"
    using assms(4) a
    by (auto simp: assign_copy_def init_data_def Let_def split: if_splits option.splits)
  ultimately show ?thesis
    using a by (simp add: destroy_message_def delete_bytes_def message_data_def)
qed

theorem assign_copy_throw_double_free_witness:
  "let M = snd (Message_bytes 2 [1, 2, 3] (snd (Message_bytes 1 [7] (init_mem 4))))
   in fst (assign_copy 1 2 M) = Some bad_alloc \<and> ub (destroy_message 1 (snd (assign_copy 1 2 M)))"
proof -
  let ?M = "snd (Message_bytes 2 [1, 2, 3] (snd (Message_bytes 1 [7] (init_mem 4))))"
  have wf: "wf_mem {1, 2} ?M"
    by (rule wf_memI) (auto simp: Message_bytes_def init_data_def new_bytes_def memcpy_def init_mem_def
        default_message_def Let_def split: if_splits)
  have d: "data_field (objs ?M 1) \<noteq> None"
    by (simp add: Message_bytes_def init_data_def new_bytes_def memcpy_def init_mem_def Let_def)
  have t: "fst (assign_copy 1 2 ?M) = Some bad_alloc"
    by (simp add: assign_copy_def Message_bytes_def init_data_def new_bytes_def memcpy_def init_mem_def
        delete_bytes_def readable_def Let_def)
  then have "assign_copy 1 2 ?M = (Some bad_alloc, snd (assign_copy 1 2 ?M))" by (metis prod.collapse)
  from assign_copy_throw_double_free [OF wf _ d this] t show ?thesis by simp
qed

end
