(* ===== verification/ExclusiveSharedMutex.thy ===== *)
theory ExclusiveSharedMutex
  imports Prelude
begin

text \<open>
  Model of \<open>shared/ExclusiveSharedMutex.h\<close>, the reader/writer lock that guards the client map
  of a server socket.  Any number of threads call \<open>lock_shared\<close>, \<open>unlock_shared\<close>, \<open>lock\<close> and
  \<open>unlock\<close>; each thread has a program counter, and one step of the model is one atomic access
  (one load, one \<open>fetch_add\<close>, one acquisition of \<open>mutex_\<close>, one wait, one notification).  The
  steps are interleaved arbitrarily (sequentially consistent memory).  A wait on a condition
  variable gives up \<open>mutex_\<close> and joins the waiting set in one step, as the standard says.
\<close>

section \<open>State\<close>

type_synonym tid = nat

datatype pc =
    Idle
  | LS_load | LS_fetch | LS_mutex | LS_pred1 | LS_pred2 | LS_wait | LS_relock | LS_inc | LS_release
  | HasShared
  | US_sub | US_mutex | US_notify | US_release
  | L_request | L_mutex | L_pred1 | L_pred2 | L_wait | L_relock | L_unrequest | L_inc | L_release
  | HasExclusive
  | U_mutex | U_sub | U_notify | U_release

record mstate =
  sharedCount :: int
  exclusiveRequests :: int
  exclusiveWaiting :: int
  exclusiveCount :: int
  mutex :: "tid option"
  sharedCv :: "tid set"
  exclusiveCv :: "tid set"
  pcs :: "tid \<Rightarrow> pc"

definition init_mutex :: mstate where
  "init_mutex = \<lparr>sharedCount = 0, exclusiveRequests = 0, exclusiveWaiting = 0, exclusiveCount = 0,
     mutex = None, sharedCv = {}, exclusiveCv = {}, pcs = (\<lambda>_. Idle)\<rparr>"

text \<open>
  What the scheduler supplies with a step: a call when the thread is outside an operation, the
  thread chosen by \<open>notify_one\<close>, a spurious wake-up, or nothing.
\<close>

datatype input = CallShared | CallExclusive | CallUnlock | Go | Wake tid | Spurious

section \<open>Atomic steps\<close>

definition goto :: "tid \<Rightarrow> pc \<Rightarrow> mstate \<Rightarrow> mstate" where
  "goto t p s = s\<lparr>pcs := (pcs s)(t := p)\<rparr>"

definition acquire_mutex :: "tid \<Rightarrow> pc \<Rightarrow> mstate \<Rightarrow> mstate option" where
  "acquire_mutex t p s = (if mutex s = None then Some (goto t p (s\<lparr>mutex := Some t\<rparr>)) else None)"

definition release_mutex :: "tid \<Rightarrow> pc \<Rightarrow> mstate \<Rightarrow> mstate" where
  "release_mutex t p s = goto t p (s\<lparr>mutex := None\<rparr>)"

text \<open>
  The end of \<open>unlock\<close> and \<open>unlock_shared\<close>: \<open>exclusiveCv_.notify_one()\<close> if \<open>exclusiveWaiting_\<close> is
  positive, else \<open>sharedCv_.notify_one()\<close>.  Notifying an empty waiting set does nothing.
\<close>

definition notify :: "tid \<Rightarrow> pc \<Rightarrow> input \<Rightarrow> mstate \<Rightarrow> mstate option" where
  "notify t p inp s =
     (if exclusiveWaiting s > 0
      then if exclusiveCv s = {} then (if inp = Go then Some (goto t p s) else None)
           else (case inp of
                   Wake u \<Rightarrow> if u \<in> exclusiveCv s
                     then Some (goto t p (goto u L_relock (s\<lparr>exclusiveCv := exclusiveCv s - {u}\<rparr>))) else None
                 | _ \<Rightarrow> None)
      else if sharedCv s = {} then (if inp = Go then Some (goto t p s) else None)
           else (case inp of
                   Wake u \<Rightarrow> if u \<in> sharedCv s
                     then Some (goto t p (goto u LS_relock (s\<lparr>sharedCv := sharedCv s - {u}\<rparr>))) else None
                 | _ \<Rightarrow> None))"

definition lock_shared_step :: "tid \<Rightarrow> input \<Rightarrow> mstate \<Rightarrow> mstate option" where
  "lock_shared_step t inp s =
     (case pcs s t of
        LS_load \<Rightarrow> if inp = Go then Some (goto t (if exclusiveRequests s = 0 then LS_fetch else LS_mutex) s) else None
      | LS_fetch \<Rightarrow> if inp = Go
          then Some (goto t (if sharedCount s \<ge> 0 then HasShared else LS_mutex)
                      (s\<lparr>sharedCount := sharedCount s + 1\<rparr>)) else None
      | LS_mutex \<Rightarrow> if inp = Go then acquire_mutex t LS_pred1 s else None
      | LS_pred1 \<Rightarrow> if inp = Go
          then Some (if exclusiveRequests s = 0 then goto t LS_pred2 s
                     else release_mutex t LS_wait (s\<lparr>sharedCv := insert t (sharedCv s)\<rparr>)) else None
      | LS_pred2 \<Rightarrow> if inp = Go
          then Some (if exclusiveCount s = 0 then goto t LS_inc s
                     else release_mutex t LS_wait (s\<lparr>sharedCv := insert t (sharedCv s)\<rparr>)) else None
      | LS_wait \<Rightarrow> if inp = Spurious then Some (goto t LS_relock (s\<lparr>sharedCv := sharedCv s - {t}\<rparr>)) else None
      | LS_relock \<Rightarrow> if inp = Go then acquire_mutex t LS_pred1 s else None
      | LS_inc \<Rightarrow> if inp = Go then Some (goto t LS_release (s\<lparr>sharedCount := sharedCount s + 1\<rparr>)) else None
      | LS_release \<Rightarrow> if inp = Go then Some (release_mutex t HasShared s) else None
      | _ \<Rightarrow> None)"

definition unlock_shared_step :: "tid \<Rightarrow> input \<Rightarrow> mstate \<Rightarrow> mstate option" where
  "unlock_shared_step t inp s =
     (case pcs s t of
        US_sub \<Rightarrow> if inp = Go
          then Some (goto t (if sharedCount s = 1 then US_mutex else Idle) (s\<lparr>sharedCount := sharedCount s - 1\<rparr>))
          else None
      | US_mutex \<Rightarrow> if inp = Go then acquire_mutex t US_notify s else None
      | US_notify \<Rightarrow> notify t US_release inp s
      | US_release \<Rightarrow> if inp = Go then Some (release_mutex t Idle s) else None
      | _ \<Rightarrow> None)"

definition lock_step :: "tid \<Rightarrow> input \<Rightarrow> mstate \<Rightarrow> mstate option" where
  "lock_step t inp s =
     (case pcs s t of
        L_request \<Rightarrow> if inp = Go then Some (goto t L_mutex (s\<lparr>exclusiveRequests := exclusiveRequests s + 1\<rparr>)) else None
      | L_mutex \<Rightarrow> if inp = Go then acquire_mutex t L_pred1 s else None
      | L_pred1 \<Rightarrow> if inp = Go
          then Some (if sharedCount s = 0 then goto t L_pred2 s
                     else release_mutex t L_wait (s\<lparr>exclusiveCv := insert t (exclusiveCv s)\<rparr>)) else None
      | L_pred2 \<Rightarrow> if inp = Go
          then Some (if exclusiveCount s = 0 then goto t L_unrequest s
                     else release_mutex t L_wait (s\<lparr>exclusiveCv := insert t (exclusiveCv s)\<rparr>)) else None
      | L_wait \<Rightarrow> if inp = Spurious then Some (goto t L_relock (s\<lparr>exclusiveCv := exclusiveCv s - {t}\<rparr>)) else None
      | L_relock \<Rightarrow> if inp = Go then acquire_mutex t L_pred1 s else None
      | L_unrequest \<Rightarrow> if inp = Go then Some (goto t L_inc (s\<lparr>exclusiveRequests := exclusiveRequests s - 1\<rparr>)) else None
      | L_inc \<Rightarrow> if inp = Go then Some (goto t L_release (s\<lparr>exclusiveCount := exclusiveCount s + 1\<rparr>)) else None
      | L_release \<Rightarrow> if inp = Go then Some (release_mutex t HasExclusive s) else None
      | _ \<Rightarrow> None)"

definition unlock_step :: "tid \<Rightarrow> input \<Rightarrow> mstate \<Rightarrow> mstate option" where
  "unlock_step t inp s =
     (case pcs s t of
        U_mutex \<Rightarrow> if inp = Go then acquire_mutex t U_sub s else None
      | U_sub \<Rightarrow> if inp = Go then Some (goto t U_notify (s\<lparr>exclusiveCount := exclusiveCount s - 1\<rparr>)) else None
      | U_notify \<Rightarrow> notify t U_release inp s
      | U_release \<Rightarrow> if inp = Go then Some (release_mutex t Idle s) else None
      | _ \<Rightarrow> None)"

text \<open>A thread outside the lock calls one of the lock operations; a holder calls the matching unlock.\<close>

definition call_step :: "tid \<Rightarrow> input \<Rightarrow> mstate \<Rightarrow> mstate option" where
  "call_step t inp s =
     (case (pcs s t, inp) of
        (Idle, CallShared) \<Rightarrow> Some (goto t LS_load s)
      | (Idle, CallExclusive) \<Rightarrow> Some (goto t L_request s)
      | (HasShared, CallUnlock) \<Rightarrow> Some (goto t US_sub s)
      | (HasExclusive, CallUnlock) \<Rightarrow> Some (goto t U_mutex s)
      | _ \<Rightarrow> None)"

definition mstep :: "tid \<Rightarrow> input \<Rightarrow> mstate \<Rightarrow> mstate option" where
  "mstep t inp s =
     (case call_step t inp s of
        Some s' \<Rightarrow> Some s'
      | None \<Rightarrow> (case lock_shared_step t inp s of
          Some s' \<Rightarrow> Some s'
        | None \<Rightarrow> (case unlock_shared_step t inp s of
            Some s' \<Rightarrow> Some s'
          | None \<Rightarrow> (case lock_step t inp s of
              Some s' \<Rightarrow> Some s'
            | None \<Rightarrow> unlock_step t inp s))))"

fun mrun :: "(tid \<times> input) list \<Rightarrow> mstate \<Rightarrow> mstate option" where
  "mrun [] s = Some s"
| "mrun ((t, inp) # sched) s = (case mstep t inp s of None \<Rightarrow> None | Some s' \<Rightarrow> mrun sched s')"

definition mreach :: "mstate \<Rightarrow> bool" where
  "mreach s \<longleftrightarrow> (\<exists>sched. mrun sched init_mutex = Some s)"

lemma mrun_append: "mrun (xs @ ys) s = (case mrun xs s of None \<Rightarrow> None | Some s' \<Rightarrow> mrun ys s')"
  by (induction xs s rule: mrun.induct) (auto split: option.split)

lemma mreach_induct [consumes 1, case_names start step]:
  assumes "mreach s" and "P init_mutex"
    and step: "\<And>s t inp s'. mreach s \<Longrightarrow> P s \<Longrightarrow> mstep t inp s = Some s' \<Longrightarrow> P s'"
  shows "P s"
proof -
  have "mrun sched init_mutex = Some s \<Longrightarrow> P s" for sched s
  proof (induction sched arbitrary: s rule: rev_induct)
    case Nil
    then show ?case using assms(2) by simp
  next
    case (snoc x xs)
    obtain t inp where x: "x = (t, inp)" by (cases x)
    from snoc.prems obtain s1 where "mrun xs init_mutex = Some s1" "mstep t inp s1 = Some s"
      by (auto simp: mrun_append x split: option.splits)
    then show ?case using snoc.IH step unfolding mreach_def by blast
  qed
  then show ?thesis using assms(1) unfolding mreach_def by blast
qed

section \<open>Invariant\<close>

fun holds_mutex :: "pc \<Rightarrow> bool" where
  "holds_mutex LS_pred1 = True"
| "holds_mutex LS_pred2 = True"
| "holds_mutex LS_inc = True"
| "holds_mutex LS_release = True"
| "holds_mutex US_notify = True"
| "holds_mutex US_release = True"
| "holds_mutex L_pred1 = True"
| "holds_mutex L_pred2 = True"
| "holds_mutex L_unrequest = True"
| "holds_mutex L_inc = True"
| "holds_mutex L_release = True"
| "holds_mutex U_sub = True"
| "holds_mutex U_notify = True"
| "holds_mutex U_release = True"
| "holds_mutex _ = False"

fun owns_exclusive :: "pc \<Rightarrow> bool" where
  "owns_exclusive L_release = True"
| "owns_exclusive HasExclusive = True"
| "owns_exclusive U_mutex = True"
| "owns_exclusive U_sub = True"
| "owns_exclusive _ = False"

fun owns_shared :: "pc \<Rightarrow> bool" where
  "owns_shared LS_release = True"
| "owns_shared HasShared = True"
| "owns_shared US_sub = True"
| "owns_shared _ = False"

fun requests_exclusive :: "pc \<Rightarrow> bool" where
  "requests_exclusive L_mutex = True"
| "requests_exclusive L_pred1 = True"
| "requests_exclusive L_pred2 = True"
| "requests_exclusive L_wait = True"
| "requests_exclusive L_relock = True"
| "requests_exclusive L_unrequest = True"
| "requests_exclusive _ = False"

lemmas mstep_defs = mstep_def call_step_def lock_shared_step_def unlock_shared_step_def lock_step_def
  unlock_step_def acquire_mutex_def release_mutex_def notify_def goto_def

text \<open>The threads at program points of a class, counted.\<close>

definition count_pcs :: "(pc \<Rightarrow> bool) \<Rightarrow> (tid \<Rightarrow> pc) \<Rightarrow> int" where
  "count_pcs P f = int (card {t. P (f t)})"

definition finite_pcs :: "(tid \<Rightarrow> pc) \<Rightarrow> bool" where
  "finite_pcs f \<longleftrightarrow> finite {t. f t \<noteq> Idle}"

lemma finite_pcs_upd [simp]: "finite_pcs f \<Longrightarrow> finite_pcs (f(t := p))"
proof -
  assume "finite_pcs f"
  then have "finite (insert t {u. f u \<noteq> Idle})" by (simp add: finite_pcs_def)
  then show ?thesis unfolding finite_pcs_def by (rule rev_finite_subset) auto
qed

lemma finite_pcs_class: "finite_pcs f \<Longrightarrow> \<not> P Idle \<Longrightarrow> finite {t. P (f t)}"
  unfolding finite_pcs_def by (erule rev_finite_subset) (auto intro: ccontr)

lemma count_pcs_upd:
  assumes "finite_pcs f" and "\<not> P Idle"
  shows "count_pcs P (f(t := p)) = count_pcs P f + of_bool (P p) - of_bool (P (f t))"
proof -
  have fin: "finite {u. P (f u)}" using assms by (rule finite_pcs_class)
  have eq: "{u. P ((f(t := p)) u)} = (if P p then insert t ({u. P (f u)} - {t}) else {u. P (f u)} - {t})"
    by auto
  have diff: "int (card ({u. P (f u)} - {t})) = int (card {u. P (f u)}) - of_bool (P (f t))"
  proof (cases "P (f t)")
    case True
    then have "card {u. P (f u)} > 0" using fin by (auto simp: card_gt_0_iff)
    with True show ?thesis using fin by (simp add: card_Diff_singleton of_nat_diff)
  next
    case False
    then have "{u. P (f u)} - {t} = {u. P (f u)}" by auto
    with False show ?thesis by simp
  qed
  show ?thesis unfolding count_pcs_def eq using fin diff by (auto simp: card_insert_if)
qed

lemma count_pcs_pos: "finite_pcs f \<Longrightarrow> \<not> P Idle \<Longrightarrow> P (f t) \<Longrightarrow> 1 \<le> count_pcs P f"
  using finite_pcs_class [of f P] by (auto simp: count_pcs_def Suc_le_eq card_gt_0_iff)

text \<open>
  The bookkeeping invariant: who holds \<open>mutex_\<close>, who waits where, and what each counter counts.
\<close>

definition minv :: "mstate \<Rightarrow> bool" where
  "minv s \<longleftrightarrow>
     finite_pcs (pcs s)
     \<and> (\<forall>t. holds_mutex (pcs s t) \<longleftrightarrow> mutex s = Some t)
     \<and> sharedCv s = {t. pcs s t = LS_wait}
     \<and> exclusiveCv s = {t. pcs s t = L_wait}
     \<and> exclusiveWaiting s = 0
     \<and> sharedCount s = count_pcs owns_shared (pcs s)
     \<and> exclusiveRequests s = count_pcs requests_exclusive (pcs s)
     \<and> exclusiveCount s = count_pcs owns_exclusive (pcs s)
     \<and> (\<forall>t. pcs s t \<in> {L_unrequest, L_inc} \<longrightarrow> exclusiveCount s = 0)
     \<and> exclusiveCount s \<le> 1"

text \<open>
  Every step that is not a notification moves one thread to another program point and updates the
  counters, the holder of \<open>mutex_\<close> and the waiting sets by what the two points say: the function
  \<open>mv\<close> is this canonical update, and \<open>mv_ok\<close> what it needs to keep the invariant.
\<close>

definition mv :: "tid \<Rightarrow> pc \<Rightarrow> mstate \<Rightarrow> mstate" where
  "mv t p s = s\<lparr>
     sharedCount := sharedCount s + of_bool (owns_shared p) - of_bool (owns_shared (pcs s t)),
     exclusiveRequests := exclusiveRequests s + of_bool (requests_exclusive p) - of_bool (requests_exclusive (pcs s t)),
     exclusiveCount := exclusiveCount s + of_bool (owns_exclusive p) - of_bool (owns_exclusive (pcs s t)),
     mutex := (if holds_mutex p then Some t else if holds_mutex (pcs s t) then None else mutex s),
     sharedCv := (if p = LS_wait then insert t (sharedCv s) else sharedCv s - {t}),
     exclusiveCv := (if p = L_wait then insert t (exclusiveCv s) else exclusiveCv s - {t}),
     pcs := (pcs s)(t := p)\<rparr>"

lemma minvD:
  assumes "minv s"
  shows "finite_pcs (pcs s)" "\<And>t. holds_mutex (pcs s t) \<longleftrightarrow> mutex s = Some t"
    "sharedCv s = {t. pcs s t = LS_wait}" "exclusiveCv s = {t. pcs s t = L_wait}" "exclusiveWaiting s = 0"
    "sharedCount s = count_pcs owns_shared (pcs s)" "exclusiveRequests s = count_pcs requests_exclusive (pcs s)"
    "exclusiveCount s = count_pcs owns_exclusive (pcs s)"
    "\<And>t. pcs s t \<in> {L_unrequest, L_inc} \<Longrightarrow> exclusiveCount s = 0" "exclusiveCount s \<le> 1"
  using assms unfolding minv_def by blast+

lemma minv_mv:
  assumes inv: "minv s"
    and mut: "holds_mutex p \<Longrightarrow> holds_mutex (pcs s t) \<or> mutex s = None"
    and chk: "p = L_unrequest \<Longrightarrow> exclusiveCount s = 0" "p = L_inc \<Longrightarrow> pcs s t = L_unrequest"
    and own: "owns_exclusive p \<Longrightarrow> owns_exclusive (pcs s t) \<or> pcs s t = L_inc"
    and rel: "owns_exclusive (pcs s t) \<Longrightarrow> owns_exclusive p \<or> holds_mutex (pcs s t)"
  shows "minv (mv t p s)"
proof -
  note I = minvD [OF inv]
  have c0: "exclusiveCount s = 0" if "pcs s t = L_inc" using I(9) [of t] that by simp
  have cnt: "exclusiveCount (mv t p s) \<le> 1"
    using own c0 I(10) by (auto simp: mv_def)
  have other: "exclusiveCount (mv t p s) = 0" if "pcs (mv t p s) u \<in> {L_unrequest, L_inc}" for u
  proof (cases "u = t")
    case True
    with that have "p = L_unrequest \<or> p = L_inc" by (simp add: mv_def)
    then have "exclusiveCount s = 0" "\<not> owns_exclusive p" using chk I(9) [of t] by (auto simp:)
    moreover have "\<not> owns_exclusive (pcs s t)"
      using \<open>exclusiveCount s = 0\<close> count_pcs_pos [OF I(1), of owns_exclusive t] I(8) by auto
    ultimately show ?thesis by (simp add: mv_def)
  next
    case False
    with that have u: "pcs s u \<in> {L_unrequest, L_inc}" by (simp add: mv_def)
    then have "mutex s = Some u" using I(2) [of u] by (auto simp:)
    then have "\<not> holds_mutex (pcs s t)" using I(2) [of t] False by auto
    moreover have "pcs s t \<noteq> L_inc" using \<open>\<not> holds_mutex (pcs s t)\<close> by (auto simp:)
    ultimately have "owns_exclusive p = owns_exclusive (pcs s t)" using own rel by blast
    with I(9) [OF u] show ?thesis by (simp add: mv_def)
  qed
  have mtx: "holds_mutex (pcs (mv t p s) u) \<longleftrightarrow> mutex (mv t p s) = Some u" for u
    using I(2) [of u] I(2) [of t] mut by (auto simp: mv_def)
  show ?thesis
    unfolding minv_def
    using I(1,3,4,5,6,7,8) cnt other mtx by (auto simp: mv_def count_pcs_upd)
qed

definition mv_ok :: "tid \<Rightarrow> pc \<Rightarrow> mstate \<Rightarrow> bool" where
  "mv_ok t p s \<longleftrightarrow>
     (holds_mutex p \<longrightarrow> holds_mutex (pcs s t) \<or> mutex s = None)
     \<and> (p = L_unrequest \<longrightarrow> exclusiveCount s = 0) \<and> (p = L_inc \<longrightarrow> pcs s t = L_unrequest)
     \<and> (owns_exclusive p \<longrightarrow> owns_exclusive (pcs s t) \<or> pcs s t = L_inc)
     \<and> (owns_exclusive (pcs s t) \<longrightarrow> owns_exclusive p \<or> holds_mutex (pcs s t))"

lemma mv_wait_sets:
  assumes "minv s"
  shows "pcs s t \<noteq> LS_wait \<Longrightarrow> sharedCv s - {t} = sharedCv s"
    "pcs s t \<noteq> L_wait \<Longrightarrow> exclusiveCv s - {t} = exclusiveCv s"
    "owns_shared (pcs s t) \<Longrightarrow> 1 \<le> sharedCount s"
  using minvD(1,3,4,6) [OF assms] count_pcs_pos [of "pcs s" owns_shared t]
  by auto

lemma sharedCount_nonneg: "minv s \<Longrightarrow> 0 \<le> sharedCount s"
  by (simp add: minvD(6) count_pcs_def)




lemma call_step_mv:
  assumes inv: "minv s" and "call_step t inp s = Some s'"
  shows "s' = mv t (pcs s' t) s \<and> mv_ok t (pcs s' t) s"
  using assms(2) [symmetric] mv_wait_sets [OF inv, of t] sharedCount_nonneg [OF inv] minvD(2) [OF inv, of t]
  by (cases "pcs s t"; cases inp, simp_all add: call_step_def acquire_mutex_def release_mutex_def goto_def split: if_splits)
    (simp_all add: mv_def mv_ok_def)

lemma lock_shared_step_mv:
  assumes inv: "minv s" and "lock_shared_step t inp s = Some s'"
  shows "s' = mv t (pcs s' t) s \<and> mv_ok t (pcs s' t) s"
  using assms(2) [symmetric] mv_wait_sets [OF inv, of t] sharedCount_nonneg [OF inv] minvD(2) [OF inv, of t]
  by (cases "pcs s t", simp_all add: lock_shared_step_def acquire_mutex_def release_mutex_def goto_def split: if_splits)
    (simp_all add: mv_def mv_ok_def)

lemma lock_step_mv:
  assumes inv: "minv s" and "lock_step t inp s = Some s'"
  shows "s' = mv t (pcs s' t) s \<and> mv_ok t (pcs s' t) s"
  using assms(2) [symmetric] mv_wait_sets [OF inv, of t] sharedCount_nonneg [OF inv] minvD(2) [OF inv, of t]
  by (cases "pcs s t", simp_all add: lock_step_def acquire_mutex_def release_mutex_def goto_def split: if_splits)
    (simp_all add: mv_def mv_ok_def)

text \<open>A notification wakes at most one waiting reader: \<open>exclusiveWaiting_\<close> is never positive.\<close>

lemma notify_mv:
  assumes inv: "minv s" and "notify t p inp s = Some s'"
    and "holds_mutex (pcs s t)" "\<not> owns_shared (pcs s t)" "\<not> owns_exclusive (pcs s t)" "\<not> requests_exclusive (pcs s t)"
    and "p = US_release \<or> p = U_release"
  shows "s' = mv t p s \<or> (\<exists>u. pcs s u = LS_wait \<and> s' = mv t p (mv u LS_relock s))"
proof -
  have nw: "t \<notin> sharedCv s" "t \<notin> exclusiveCv s" "mutex s = Some t"
    using minvD(2) [OF inv, of t] minvD(3,4) [OF inv] assms(3) by (auto dest: arg_cong [where f = holds_mutex])
  from minvD(5) [OF inv] assms(2) consider
      "sharedCv s = {}" "s' = goto t p s"
    | u where "u \<in> sharedCv s" "s' = goto t p (goto u LS_relock (s\<lparr>sharedCv := sharedCv s - {u}\<rparr>))"
    by (auto simp: notify_def split: if_splits input.splits)
  then show ?thesis
  proof cases
    case 1
    then have "s' = mv t p s" using nw assms(3-7) by (auto simp: mv_def goto_def)
    then show ?thesis ..
  next
    case 2
    then have u: "pcs s u = LS_wait" "u \<noteq> t" "u \<notin> exclusiveCv s"
      using minvD(3,4) [OF inv] nw by auto
    then have "s' = mv t p (mv u LS_relock s)"
      using 2 nw assms(3-7) by (auto simp: mv_def goto_def)
    with u show ?thesis by blast
  qed
qed

lemma minv_mv_ok: "minv s \<Longrightarrow> mv_ok t p s \<Longrightarrow> minv (mv t p s)"
  unfolding mv_ok_def by (rule minv_mv) auto

lemma minv_notify:
  assumes inv: "minv s" and "notify t p inp s = Some s'"
    and "pcs s t = US_notify \<and> p = US_release \<or> pcs s t = U_notify \<and> p = U_release"
  shows "minv s'"
proof -
  have t: "mv_ok t p s" using assms(3) by (auto simp: mv_ok_def)
  consider "s' = mv t p s" | u where "pcs s u = LS_wait" "s' = mv t p (mv u LS_relock s)"
    using notify_mv [OF assms(1,2)] assms(3) by fastforce
  then show ?thesis
  proof cases
    case 1
    with inv t show ?thesis by (simp add: minv_mv_ok)
  next
    case 2
    then have "minv (mv u LS_relock s)" using inv by (intro minv_mv_ok) (auto simp: mv_ok_def)
    moreover have "mv_ok t p (mv u LS_relock s)"
      using assms(3) 2 by (auto simp: mv_ok_def mv_def)
    ultimately show ?thesis using 2 by (simp add: minv_mv_ok)
  qed
qed

lemma unlock_shared_step_minv:
  assumes inv: "minv s" and "unlock_shared_step t inp s = Some s'"
  shows "minv s'"
proof (cases "pcs s t = US_notify")
  case True
  with assms minv_notify [OF inv] show ?thesis by (auto simp: unlock_shared_step_def)
next
  case False
  then have "s' = mv t (pcs s' t) s \<and> mv_ok t (pcs s' t) s"
    using assms(2) [symmetric] mv_wait_sets [OF inv, of t] minvD(2) [OF inv, of t]
    by (cases "pcs s t", simp_all add: unlock_shared_step_def acquire_mutex_def release_mutex_def goto_def split: if_splits)
      (simp_all add: mv_def mv_ok_def)
  with inv show ?thesis using minv_mv_ok by metis
qed

lemma unlock_step_minv:
  assumes inv: "minv s" and "unlock_step t inp s = Some s'"
  shows "minv s'"
proof (cases "pcs s t = U_notify")
  case True
  with assms minv_notify [OF inv] show ?thesis by (auto simp: unlock_step_def)
next
  case False
  then have "s' = mv t (pcs s' t) s \<and> mv_ok t (pcs s' t) s"
    using assms(2) [symmetric] mv_wait_sets [OF inv, of t] minvD(2) [OF inv, of t]
    by (cases "pcs s t", simp_all add: unlock_step_def acquire_mutex_def release_mutex_def goto_def split: if_splits)
      (simp_all add: mv_def mv_ok_def)
  with inv show ?thesis using minv_mv_ok by metis
qed

lemma mstep_minv: "minv s \<Longrightarrow> mstep t inp s = Some s' \<Longrightarrow> minv s'"
  using call_step_mv [of s t inp s'] lock_shared_step_mv [of s t inp s'] lock_step_mv [of s t inp s']
    unlock_shared_step_minv [of s t inp s'] unlock_step_minv [of s t inp s'] minv_mv_ok [of s t "pcs s' t"]
  by (auto simp: mstep_def split: option.splits)

lemma minv_init: "minv init_mutex"
  by (simp add: minv_def init_mutex_def finite_pcs_def count_pcs_def)

lemma mreach_minv: "mreach s \<Longrightarrow> minv s"
  by (induction rule: mreach_induct) (auto intro: minv_init mstep_minv)

section \<open>Properties\<close>

text \<open>
  (C28) Writers exclude writers: in every reachable state of any number of threads at most one
  thread owns the lock exclusively.
\<close>

theorem exclusive_excludes_exclusive:
  assumes "mreach s" and "pcs s t = HasExclusive" and "pcs s u = HasExclusive"
  shows "t = u"
proof (rule ccontr)
  assume "t \<noteq> u"
  have inv: "minv s" using assms(1) by (rule mreach_minv)
  have "{t, u} \<subseteq> {x. owns_exclusive (pcs s x)}" using assms(2,3) by auto
  moreover have "finite {x. owns_exclusive (pcs s x)}"
    using minvD(1) [OF inv] by (rule finite_pcs_class) simp
  ultimately have "card {t, u} \<le> card {x. owns_exclusive (pcs s x)}" by (rule card_mono [rotated])
  then have "2 \<le> exclusiveCount s" using \<open>t \<noteq> u\<close> minvD(8) [OF inv] by (simp add: count_pcs_def)
  with minvD(10) [OF inv] show False by simp
qed

definition writer_enters :: "(tid \<times> input) list" where
  "writer_enters = (0, CallExclusive) # replicate 7 (0, Go)"

theorem exclusive_excludes_exclusive_witness:
  "\<exists>s. mreach s \<and> pcs s 0 = HasExclusive \<and> (\<forall>u. pcs s u = HasExclusive \<longrightarrow> u = 0)"
proof -
  let ?s = "the (mrun writer_enters init_mutex)"
  have run: "mrun writer_enters init_mutex = Some ?s" and pc: "pcs ?s 0 = HasExclusive"
    by (simp_all add: writer_enters_def numeral_eq_Suc mstep_defs init_mutex_def)
  then have "mreach ?s" unfolding mreach_def by blast
  with exclusive_excludes_exclusive [OF this pc] pc show ?thesis by blast
qed

text \<open>
  The counters count: in every reachable state \<open>sharedCount_\<close> is the number of threads that
  hold the lock shared (and so never negative: the second test of the fast path of
  \<open>lock_shared\<close> always succeeds), \<open>exclusiveRequests_\<close> the number of threads between announcing
  and getting exclusive access, \<open>exclusiveCount_\<close> the number of exclusive owners.
\<close>

theorem mutex_counters:
  assumes "mreach s"
  shows "sharedCount s = int (card {t. owns_shared (pcs s t)})
     \<and> exclusiveRequests s = int (card {t. requests_exclusive (pcs s t)})
     \<and> exclusiveCount s = int (card {t. owns_exclusive (pcs s t)}) \<and> exclusiveCount s \<le> 1"
  using minvD [OF mreach_minv [OF assms]] by (simp add: count_pcs_def)

theorem mutex_counters_witness: "sharedCount init_mutex = int (card {t. owns_shared (pcs init_mutex t)})"
proof -
  have "mreach init_mutex" unfolding mreach_def by (rule exI [of _ "[]"]) simp
  from mutex_counters [OF this] show ?thesis by blast
qed

text \<open>
  (C40) Readers do not exclude writers: \<open>lock\<close> withdraws its request before it returns and the fast
  path of \<open>lock_shared\<close> looks only at the requests, so a state is reachable in which one thread
  owns the lock exclusively and another owns it shared.
\<close>

theorem reader_enters_during_exclusive:
  "\<exists>s. mreach s \<and> pcs s 0 = HasExclusive \<and> pcs s 1 = HasShared"
proof -
  let ?sched = "writer_enters @ [(1, CallShared), (1, Go), (1, Go)]"
  have "\<exists>s. mrun ?sched init_mutex = Some s \<and> pcs s 0 = HasExclusive \<and> pcs s 1 = HasShared"
    by (simp add: writer_enters_def numeral_eq_Suc mstep_defs init_mutex_def)
  then show ?thesis unfolding mreach_def by blast
qed

text \<open>
  A writer that has to wait is never notified: \<open>exclusiveWaiting_\<close> is zero in every reachable
  state, so \<open>unlock\<close> and \<open>unlock_shared\<close> always notify \<open>sharedCv_\<close>, and no step other than a
  spurious wake-up of that thread moves it out of the wait in \<open>lock\<close>.
\<close>

theorem waiting_writer_never_notified:
  assumes "mreach s" and "pcs s t = L_wait" and "mstep u inp s = Some s'"
    and "\<not> (u = t \<and> inp = Spurious)"
  shows "exclusiveWaiting s = 0 \<and> pcs s' t = L_wait"
proof -
  have inv: "minv s" using assms(1) by (rule mreach_minv)
  note w = minvD(3,5) [OF inv]
  have "pcs s' t = L_wait"
  proof (cases "u = t")
    case True
    with assms(2-4) show ?thesis by (cases inp) (simp_all add: mstep_defs)
  next
    case False
    have "\<forall>x \<in> sharedCv s. x \<noteq> t" using w(1) assms(2) by auto
    with False assms(2,3) w(2) show ?thesis
      by (cases "pcs s u"; cases inp) (auto simp: mstep_defs split: if_splits)
  qed
  with w show ?thesis by simp
qed

definition writer_blocks :: "(tid \<times> input) list" where
  "writer_blocks = [(1, CallShared), (1, Go), (1, Go)] @ (0, CallExclusive) # replicate 3 (0, Go)"

definition reader_leaves :: "(tid \<times> input) list" where
  "reader_leaves = (1, CallUnlock) # replicate 4 (1, Go)"

theorem waiting_writer_never_notified_witness:
  "\<exists>s s'. mreach s \<and> pcs s 0 = L_wait \<and> sharedCount s = 0 \<and> exclusiveCount s = 0
     \<and> mstep 1 CallShared s = Some s' \<and> pcs s' 0 = L_wait"
proof -
  let ?s = "the (mrun (writer_blocks @ reader_leaves) init_mutex)"
  let ?s' = "the (mstep 1 CallShared ?s)"
  have run: "mrun (writer_blocks @ reader_leaves) init_mutex = Some ?s" and pc: "pcs ?s 0 = L_wait"
    and free: "sharedCount ?s = 0" "exclusiveCount ?s = 0" and st: "mstep 1 CallShared ?s = Some ?s'"
    by (simp_all add: writer_blocks_def reader_leaves_def numeral_eq_Suc mstep_defs init_mutex_def)
  from run have "mreach ?s" unfolding mreach_def by blast
  with waiting_writer_never_notified [OF this pc st] pc free st show ?thesis by blast
qed

end
