(* ===== verification/Threads.thy ===== *)
theory Threads
  imports Main
begin

text \<open>
  Sums over the program counters of an unbounded family of threads, all but finitely many of
  which are at the idle point.  The concurrent models use them to say what a shared counter
  counts; one lemma describes how the sum changes when one thread moves.
\<close>

definition fin_threads :: "'p \<Rightarrow> (nat \<Rightarrow> 'p) \<Rightarrow> bool" where
  "fin_threads idle f \<longleftrightarrow> finite {t. f t \<noteq> idle}"

definition thread_sum :: "'p \<Rightarrow> ('p \<Rightarrow> int) \<Rightarrow> (nat \<Rightarrow> 'p) \<Rightarrow> int" where
  "thread_sum idle w f = (\<Sum>t | f t \<noteq> idle. w (f t))"

lemma fin_threads_init [simp]: "fin_threads idle (\<lambda>_. idle)"
  by (simp add: fin_threads_def)

lemma thread_sum_init [simp]: "thread_sum idle w (\<lambda>_. idle) = 0"
  by (simp add: thread_sum_def)

lemma fin_threads_upd [simp]:
  assumes "fin_threads idle f"
  shows "fin_threads idle (f(t := p))"
proof -
  have "finite (insert t {u. f u \<noteq> idle})" using assms by (simp add: fin_threads_def)
  then show ?thesis unfolding fin_threads_def by (rule rev_finite_subset) auto
qed

lemma thread_sum_superset:
  assumes "finite A" and "{t. f t \<noteq> idle} \<subseteq> A" and "w idle = 0"
  shows "thread_sum idle w f = (\<Sum>t\<in>A. w (f t))"
  unfolding thread_sum_def by (rule sum.mono_neutral_left) (use assms in auto)

lemma thread_sum_upd:
  assumes "fin_threads idle f" and "w idle = 0"
  shows "thread_sum idle w (f(t := p)) = thread_sum idle w f + w p - w (f t)"
proof -
  let ?A = "insert t {u. f u \<noteq> idle}"
  have fin: "finite ?A" using assms(1) by (simp add: fin_threads_def)
  have new: "thread_sum idle w (f(t := p)) = (\<Sum>u\<in>?A. w ((f(t := p)) u))"
    using fin assms(2) by (intro thread_sum_superset) auto
  have old: "thread_sum idle w f = (\<Sum>u\<in>?A. w (f u))"
    using fin assms(2) by (intro thread_sum_superset) auto
  have "(\<Sum>u\<in>?A. w ((f(t := p)) u)) = w p + (\<Sum>u\<in>?A - {t}. w ((f(t := p)) u))"
    using fin by (subst sum.remove [of ?A t]) auto
  also have "(\<Sum>u\<in>?A - {t}. w ((f(t := p)) u)) = (\<Sum>u\<in>?A - {t}. w (f u))"
    by (rule sum.cong) auto
  also have "\<dots> = (\<Sum>u\<in>?A. w (f u)) - w (f t)"
    using fin by (subst sum.remove [of ?A t]) auto
  finally show ?thesis by (simp add: new old)
qed

lemma thread_sum_nonneg: "(\<And>p. 0 \<le> w p) \<Longrightarrow> 0 \<le> thread_sum idle w f"
  by (simp add: thread_sum_def sum_nonneg)

lemma thread_sum_pos:
  assumes "fin_threads idle f" and "\<And>p. 0 \<le> w p" and "f t \<noteq> idle"
  shows "w (f t) \<le> thread_sum idle w f"
  unfolding thread_sum_def using assms by (intro member_le_sum) (auto simp: fin_threads_def)

lemma thread_sum_someone:
  assumes "thread_sum idle w f > 0"
  shows "\<exists>t. w (f t) > 0"
proof (rule ccontr)
  assume "\<not> ?thesis"
  then have "thread_sum idle w f \<le> 0" unfolding thread_sum_def by (intro sum_nonpos) (auto simp: not_less)
  with assms show False by simp
qed

end
