(* ===== verification/LightweightSemaphore.thy ===== *)
theory LightweightSemaphore
  imports Prelude Threads
begin

text \<open>
  Model of \<open>shared/queue_internal/lightweightsemaphore.h\<close> (the POSIX branch): a counter
  \<open>m_count\<close> that is decremented optimistically, in front of a kernel semaphore \<open>m_sema\<close> on which
  threads sleep when the counter is not positive.  Any number of threads run the public
  operations; one step is one atomic access to \<open>m_count\<close> or one call of a \<open>sem_\<close> function, and
  the steps are interleaved arbitrarily.  The outcome of a system call (interrupted, timed out,
  failed) and a spurious failure of a weak compare-exchange are supplied with the step.
  The steps keep \<open>m_count\<close> as an exact integer; \<open>machine_step\<close> below is the step of the code, whose counter is a \<open>ssize_t\<close> that
  wraps and whose \<open>signal\<close> casts to \<open>int\<close>, and \<open>machine_exact\<close> shows that the two agree while fewer than \<open>2 ^ 63\<close> permits have
  been given out and there are fewer than \<open>2 ^ 31\<close> threads.
\<close>

section \<open>State\<close>

text \<open>
  \<open>tryWait\<close> and \<open>tryWaitMany\<close> are called on their own and from the waiting operations: what
  happens with their result is the continuation.
\<close>

datatype wcont = ReturnTry | ForWait int
datatype mcont = ReturnTryMany | ForWaitMany int | AfterSleep

datatype sem_pc =
    S_Idle
  | TW_load wcont | TW_cas wcont int
  | WS_spin nat int | WS_cas nat int int | WS_fetch int | WS_sleep int | WS_adjust | WS_adjust_try int
  | TM_load mcont int | TM_cas mcont int int
  | MS_spin nat int int | MS_cas nat int int int | MS_fetch int int | MS_sleep int int
  | MS_adjust int | MS_adjust_try int int
  | SG_add int | SG_post nat

text \<open>
  \<open>kernel\<close> is the value of the \<open>sem_t\<close>.  The ghost counters \<open>signalled\<close> and \<open>returned\<close> add up the
  arguments of \<open>signal\<close> and the results the waiting operations returned.
\<close>

record sem =
  m_count :: int
  kernel :: int
  m_maxSpins :: nat
  spc :: "nat \<Rightarrow> sem_pc"
  signalled :: int
  returned :: int

definition LightweightSemaphore :: "int \<Rightarrow> nat \<Rightarrow> sem" where
  "LightweightSemaphore initialCount maxSpins =
     \<lparr>m_count = initialCount, kernel = 0, m_maxSpins = maxSpins, spc = (\<lambda>_. S_Idle),
      signalled = initialCount, returned = 0\<rparr>"

datatype sem_call = C_tryWait | C_wait int | C_tryWaitMany int | C_waitMany int int | C_signal int

datatype sem_input = SCall sem_call | SGo | CasFails | Interrupted | Expired

section \<open>Steps\<close>

definition at :: "nat \<Rightarrow> sem_pc \<Rightarrow> sem \<Rightarrow> sem" where
  "at t p s = s\<lparr>spc := (spc s)(t := p)\<rparr>"

definition ret :: "nat \<Rightarrow> int \<Rightarrow> sem \<Rightarrow> sem" where
  "ret t n s = at t S_Idle (s\<lparr>returned := returned s + n\<rparr>)"

text \<open>\<open>Semaphore::wait\<close>, \<open>try_wait\<close>, \<open>timed_wait\<close>: an interrupted call is repeated.\<close>

definition sema_wait :: "sem \<Rightarrow> sem_input \<Rightarrow> sem \<Rightarrow> (sem \<Rightarrow> sem) \<Rightarrow> (sem \<Rightarrow> sem) \<Rightarrow> sem option" where
  "sema_wait s inp again taken failed =
     (case inp of
        SGo \<Rightarrow> if kernel s > 0 then Some (taken (s\<lparr>kernel := kernel s - 1\<rparr>)) else None
      | Interrupted \<Rightarrow> Some again
      | Expired \<Rightarrow> Some (failed s)
      | _ \<Rightarrow> None)"

definition sema_try_wait :: "sem \<Rightarrow> sem_input \<Rightarrow> (sem \<Rightarrow> sem) \<Rightarrow> (sem \<Rightarrow> sem) \<Rightarrow> sem option" where
  "sema_try_wait s inp taken failed =
     (case inp of
        SGo \<Rightarrow> Some (if kernel s > 0 then taken (s\<lparr>kernel := kernel s - 1\<rparr>) else failed s)
      | Interrupted \<Rightarrow> Some s
      | _ \<Rightarrow> None)"

text \<open>The absolute time \<open>Semaphore::timed_wait\<close> passes to \<open>sem_timedwait\<close>, from the clock and the microseconds.\<close>

definition timed_wait_deadline :: "int \<times> int \<Rightarrow> int \<Rightarrow> int \<times> int" where
  "timed_wait_deadline ts usecs =
     (let tv_sec = fst ts + usecs div 1000000;
          tv_nsec = snd ts + usecs mod 1000000 * 1000
      in if tv_nsec \<ge> 1000000000 then (tv_sec + 1, tv_nsec - 1000000000) else (tv_sec, tv_nsec))"

definition tryWait_fails :: "nat \<Rightarrow> wcont \<Rightarrow> sem \<Rightarrow> sem" where
  "tryWait_fails t c s = (case c of ReturnTry \<Rightarrow> ret t 0 s | ForWait timeout \<Rightarrow> at t (WS_spin (m_maxSpins s) timeout) s)"

text \<open>The loop test of \<open>tryWait\<close> on the value just read.\<close>

definition tryWait_test :: "nat \<Rightarrow> wcont \<Rightarrow> sem \<Rightarrow> sem" where
  "tryWait_test t c s = (if m_count s > 0 then at t (TW_cas c (m_count s)) s else tryWait_fails t c s)"

definition tryWait_step :: "nat \<Rightarrow> sem_input \<Rightarrow> sem \<Rightarrow> sem option" where
  "tryWait_step t inp s =
     (case spc s t of
        TW_load c \<Rightarrow> if inp = SGo then Some (tryWait_test t c s) else None
      | TW_cas c oldCount \<Rightarrow>
          if inp = SGo then
            Some (if m_count s = oldCount then ret t 1 (s\<lparr>m_count := oldCount - 1\<rparr>) else tryWait_test t c s)
          else if inp = CasFails then Some (tryWait_test t c s) else None
      | _ \<Rightarrow> None)"

definition waitWithPartialSpinning_step :: "nat \<Rightarrow> sem_input \<Rightarrow> sem \<Rightarrow> sem option" where
  "waitWithPartialSpinning_step t inp s =
     (case spc s t of
        WS_spin 0 timeout \<Rightarrow> if inp = SGo then Some (at t (WS_fetch timeout) s) else None
      | WS_spin (Suc spin) timeout \<Rightarrow> if inp = SGo then
          Some (at t (if m_count s > 0 then WS_cas spin (m_count s) timeout else WS_spin spin timeout) s) else None
      | WS_cas spin oldCount timeout \<Rightarrow> if inp = SGo then
          Some (if m_count s = oldCount then ret t 1 (s\<lparr>m_count := oldCount - 1\<rparr>) else at t (WS_spin spin timeout) s)
          else None
      | WS_fetch timeout \<Rightarrow> if inp = SGo then
          Some (let s' = s\<lparr>m_count := m_count s - 1\<rparr> in
                if m_count s > 0 then ret t 1 s' else at t (if timeout = 0 then WS_adjust else WS_sleep timeout) s')
          else None
      | WS_sleep timeout \<Rightarrow> sema_wait s inp s (ret t 1) (at t WS_adjust)
      | WS_adjust \<Rightarrow> if inp = SGo then Some (at t (WS_adjust_try (m_count s)) s) else None
      | WS_adjust_try oldCount \<Rightarrow>
          if oldCount \<ge> 0 then sema_try_wait s inp (ret t 1) (at t WS_adjust)
          else if inp = SGo then
            Some (if m_count s = oldCount then ret t 0 (s\<lparr>m_count := oldCount + 1\<rparr>) else at t WS_adjust s)
          else None
      | _ \<Rightarrow> None)"

text \<open>A call of \<open>tryWaitMany\<close> ends with \<open>n\<close> permits; the last call of \<open>waitMany\<close> adds the one it slept for.\<close>

definition tryWaitMany_returns :: "nat \<Rightarrow> mcont \<Rightarrow> int \<Rightarrow> int \<Rightarrow> sem \<Rightarrow> sem" where
  "tryWaitMany_returns t c mx n s =
     (case c of
        ReturnTryMany \<Rightarrow> ret t n s
      | ForWaitMany timeout \<Rightarrow>
          if n = 0 \<and> mx > 0 then at t (MS_spin (m_maxSpins s) mx timeout) s else ret t n s
      | AfterSleep \<Rightarrow> ret t (1 + n) s)"

definition tryWaitMany_test :: "nat \<Rightarrow> mcont \<Rightarrow> int \<Rightarrow> sem \<Rightarrow> sem" where
  "tryWaitMany_test t c mx s =
     (if m_count s > 0 then at t (TM_cas c mx (m_count s)) s else tryWaitMany_returns t c mx 0 s)"

definition newCount_of :: "int \<Rightarrow> int \<Rightarrow> int" where
  "newCount_of oldCount mx = (if oldCount > mx then oldCount - mx else 0)"

definition tryWaitMany_step :: "nat \<Rightarrow> sem_input \<Rightarrow> sem \<Rightarrow> sem option" where
  "tryWaitMany_step t inp s =
     (case spc s t of
        TM_load c mx \<Rightarrow> if inp = SGo then Some (tryWaitMany_test t c mx s) else None
      | TM_cas c mx oldCount \<Rightarrow>
          if inp = SGo then
            Some (if m_count s = oldCount
                  then tryWaitMany_returns t c mx (oldCount - newCount_of oldCount mx)
                         (s\<lparr>m_count := newCount_of oldCount mx\<rparr>)
                  else tryWaitMany_test t c mx s)
          else if inp = CasFails then Some (tryWaitMany_test t c mx s) else None
      | _ \<Rightarrow> None)"

text \<open>The end of \<open>waitManyWithPartialSpinning\<close>: one permit is taken, try for the rest.\<close>

definition waitMany_got_one :: "nat \<Rightarrow> int \<Rightarrow> sem \<Rightarrow> sem" where
  "waitMany_got_one t mx s = (if mx > 1 then at t (TM_load AfterSleep (mx - 1)) s else ret t 1 s)"

definition waitManyWithPartialSpinning_step :: "nat \<Rightarrow> sem_input \<Rightarrow> sem \<Rightarrow> sem option" where
  "waitManyWithPartialSpinning_step t inp s =
     (case spc s t of
        MS_spin 0 mx timeout \<Rightarrow> if inp = SGo then Some (at t (MS_fetch mx timeout) s) else None
      | MS_spin (Suc spin) mx timeout \<Rightarrow> if inp = SGo then
          Some (at t (if m_count s > 0 then MS_cas spin mx (m_count s) timeout else MS_spin spin mx timeout) s) else None
      | MS_cas spin mx oldCount timeout \<Rightarrow> if inp = SGo then
          Some (if m_count s = oldCount
                then ret t (oldCount - newCount_of oldCount mx) (s\<lparr>m_count := newCount_of oldCount mx\<rparr>)
                else at t (MS_spin spin mx timeout) s)
          else None
      | MS_fetch mx timeout \<Rightarrow> if inp = SGo then
          Some (let s' = s\<lparr>m_count := m_count s - 1\<rparr> in
                if m_count s > 0 then waitMany_got_one t mx s'
                else at t (if timeout = 0 then MS_adjust mx else MS_sleep mx timeout) s')
          else None
      | MS_sleep mx timeout \<Rightarrow> sema_wait s inp s (waitMany_got_one t mx) (at t (MS_adjust mx))
      | MS_adjust mx \<Rightarrow> if inp = SGo then Some (at t (MS_adjust_try mx (m_count s)) s) else None
      | MS_adjust_try mx oldCount \<Rightarrow>
          if oldCount \<ge> 0 then sema_try_wait s inp (waitMany_got_one t mx) (at t (MS_adjust mx))
          else if inp = SGo then
            Some (if m_count s = oldCount then ret t 0 (s\<lparr>m_count := oldCount + 1\<rparr>) else at t (MS_adjust mx) s)
          else None
      | _ \<Rightarrow> None)"

text \<open>\<open>signal\<close>: add to the counter, then post once for every sleeper the new count covers.\<close>

definition toRelease_of :: "int \<Rightarrow> int \<Rightarrow> int" where
  "toRelease_of oldCount count = (if - oldCount < count then - oldCount else count)"

definition signal_step :: "nat \<Rightarrow> sem_input \<Rightarrow> sem \<Rightarrow> sem option" where
  "signal_step t inp s =
     (case spc s t of
        SG_add count \<Rightarrow> if inp = SGo then
          Some (let n = toRelease_of (m_count s) count;
                    s' = s\<lparr>m_count := m_count s + count, signalled := signalled s + count\<rparr>
                in at t (if n > 0 then SG_post (nat n) else S_Idle) s')
          else None
      | SG_post 0 \<Rightarrow> if inp = SGo then Some (at t S_Idle s) else None
      | SG_post (Suc n) \<Rightarrow>
          if inp = SGo then Some (at t (SG_post n) (s\<lparr>kernel := kernel s + 1\<rparr>))
          else if inp = Interrupted then Some s else None
      | _ \<Rightarrow> None)"

text \<open>A thread outside the semaphore calls a public operation.  The asserts require \<open>max\<close> and \<open>count\<close> not negative.\<close>

fun call_pc :: "sem_call \<Rightarrow> sem_pc option" where
  "call_pc C_tryWait = Some (TW_load ReturnTry)"
| "call_pc (C_wait timeout) = Some (TW_load (ForWait timeout))"
| "call_pc (C_tryWaitMany mx) = (if mx \<ge> 0 then Some (TM_load ReturnTryMany mx) else None)"
| "call_pc (C_waitMany mx timeout) = (if mx \<ge> 0 then Some (TM_load (ForWaitMany timeout) mx) else None)"
| "call_pc (C_signal count) = (if count \<ge> 0 then Some (SG_add count) else None)"

definition sem_call_step :: "nat \<Rightarrow> sem_input \<Rightarrow> sem \<Rightarrow> sem option" where
  "sem_call_step t inp s =
     (case (spc s t, inp) of
        (S_Idle, SCall c) \<Rightarrow> map_option (\<lambda>p. at t p s) (call_pc c)
      | _ \<Rightarrow> None)"

definition availableApprox :: "sem \<Rightarrow> int" where
  "availableApprox s = (if m_count s > 0 then m_count s else 0)"

definition sstep :: "nat \<Rightarrow> sem_input \<Rightarrow> sem \<Rightarrow> sem option" where
  "sstep t inp s =
     (case sem_call_step t inp s of
        Some s' \<Rightarrow> Some s'
      | None \<Rightarrow> (case tryWait_step t inp s of
          Some s' \<Rightarrow> Some s'
        | None \<Rightarrow> (case waitWithPartialSpinning_step t inp s of
            Some s' \<Rightarrow> Some s'
          | None \<Rightarrow> (case tryWaitMany_step t inp s of
              Some s' \<Rightarrow> Some s'
            | None \<Rightarrow> (case waitManyWithPartialSpinning_step t inp s of
                Some s' \<Rightarrow> Some s'
              | None \<Rightarrow> signal_step t inp s)))))"

fun srun :: "(nat \<times> sem_input) list \<Rightarrow> sem \<Rightarrow> sem option" where
  "srun [] s = Some s"
| "srun ((t, inp) # sched) s = (case sstep t inp s of None \<Rightarrow> None | Some s' \<Rightarrow> srun sched s')"

inductive sreach :: "int \<Rightarrow> nat \<Rightarrow> sem \<Rightarrow> bool" for initial spins where
  start: "initial \<ge> 0 \<Longrightarrow> sreach initial spins (LightweightSemaphore initial spins)"
| step: "sreach initial spins s \<Longrightarrow> sstep t inp s = Some s' \<Longrightarrow> sreach initial spins s'"

lemma srun_reach: "sreach n k s \<Longrightarrow> srun sched s = Some s' \<Longrightarrow> sreach n k s'"
proof (induction sched s rule: srun.induct)
  case (1 s)
  then show ?case by simp
next
  case (2 t inp sched s)
  then show ?case by (auto split: option.splits intro: sreach.step)
qed

section \<open>The invariant\<close>

text \<open>
  \<open>sleeping\<close> counts the threads that have taken the counter below its value and wait for a post,
  \<open>posting\<close> the posts a signaller still owes, \<open>holding\<close> the permit a thread keeps while it
  tries for more.  \<open>sem_inv\<close> balances them with the two counters.
\<close>

fun sleeping :: "sem_pc \<Rightarrow> int" where
  "sleeping (WS_sleep _) = 1" | "sleeping WS_adjust = 1" | "sleeping (WS_adjust_try _) = 1"
| "sleeping (MS_sleep _ _) = 1" | "sleeping (MS_adjust _) = 1" | "sleeping (MS_adjust_try _ _) = 1"
| "sleeping _ = 0"

fun posting :: "sem_pc \<Rightarrow> int" where
  "posting (SG_post n) = int n" | "posting _ = 0"

fun holding :: "sem_pc \<Rightarrow> int" where
  "holding (TM_load AfterSleep _) = 1" | "holding (TM_cas AfterSleep _ _) = 1" | "holding _ = 0"

fun pc_ok :: "sem_pc \<Rightarrow> bool" where
  "pc_ok (TW_cas _ n) = (n > 0)" | "pc_ok (WS_cas _ n _) = (n > 0)"
| "pc_ok (TM_cas _ _ n) = (n > 0)" | "pc_ok (MS_cas _ _ n _) = (n > 0)"
| "pc_ok (SG_add n) = (n \<ge> 0)" | "pc_ok _ = True"

definition sleepers :: "sem \<Rightarrow> int" where "sleepers s = thread_sum S_Idle sleeping (spc s)"
definition posts :: "sem \<Rightarrow> int" where "posts s = thread_sum S_Idle posting (spc s)"
definition held :: "sem \<Rightarrow> int" where "held s = thread_sum S_Idle holding (spc s)"

definition sem_inv :: "sem \<Rightarrow> bool" where
  "sem_inv s \<longleftrightarrow> fin_threads S_Idle (spc s) \<and> (\<forall>t. pc_ok (spc s t)) \<and> kernel s \<ge> 0
     \<and> sleepers s = max 0 (- m_count s) + kernel s + posts s
     \<and> signalled s = returned s + m_count s + sleepers s + held s"

text \<open>The effect of one step: thread \<open>t\<close> moves to \<open>p\<close> and the counters change by the given amounts.\<close>

definition mv :: "nat \<Rightarrow> sem_pc \<Rightarrow> int \<Rightarrow> int \<Rightarrow> int \<Rightarrow> int \<Rightarrow> sem \<Rightarrow> sem" where
  "mv t p c k g r s = s\<lparr>m_count := m_count s + c, kernel := kernel s + k, spc := (spc s)(t := p),
     signalled := signalled s + g, returned := returned s + r\<rparr>"

definition mv_ok :: "nat \<Rightarrow> sem_pc \<Rightarrow> int \<Rightarrow> int \<Rightarrow> int \<Rightarrow> int \<Rightarrow> sem \<Rightarrow> bool" where
  "mv_ok t p c k g r s \<longleftrightarrow> pc_ok p \<and> kernel s + k \<ge> 0
     \<and> sleeping p - sleeping (spc s t) = max 0 (- (m_count s + c)) - max 0 (- m_count s) + k + posting p - posting (spc s t)
     \<and> g = r + c + sleeping p - sleeping (spc s t) + holding p - holding (spc s t)"

lemma mv_inv: "sem_inv s \<Longrightarrow> mv_ok t p c k g r s \<Longrightarrow> sem_inv (mv t p c k g r s)"
  unfolding sem_inv_def mv_ok_def mv_def sleepers_def posts_def held_def
  by (simp add: thread_sum_upd)

lemma at_mv: "at t p s = mv t p 0 0 0 0 s"
  by (cases s) (simp add: at_def mv_def)
lemma ret_mv: "ret t n s = mv t S_Idle 0 0 0 n s"
  by (cases s) (simp add: at_def mv_def ret_def)

lemma mv_upd:
  "mv t p c k g r (s\<lparr>m_count := x\<rparr>) = mv t p (x - m_count s + c) k g r s"
  "mv t p c k g r (s\<lparr>kernel := y\<rparr>) = mv t p c (y - kernel s + k) g r s"
  "mv t p c k g r (s\<lparr>m_count := x, signalled := z\<rparr>) = mv t p (x - m_count s + c) k (z - signalled s + g) r s"
  by (simp_all add: mv_def)

lemmas sem_steps = tryWait_step_def waitWithPartialSpinning_step_def tryWaitMany_step_def waitManyWithPartialSpinning_step_def
  signal_step_def sem_call_step_def tryWait_test_def tryWait_fails_def sema_wait_def sema_try_wait_def
  tryWaitMany_test_def tryWaitMany_returns_def waitMany_got_one_def at_mv ret_mv mv_upd Let_def

lemma inv_pc: "sem_inv s \<Longrightarrow> pc_ok (spc s t)" by (simp add: sem_inv_def)
lemma inv_k: "sem_inv s \<Longrightarrow> kernel s \<ge> 0" by (simp add: sem_inv_def)

definition inv_move :: "nat \<Rightarrow> sem \<Rightarrow> sem option \<Rightarrow> bool" where
  "inv_move t s r \<longleftrightarrow> (case r of None \<Rightarrow> True | Some s' \<Rightarrow> s' = s \<or> (\<exists>p c k g r. s' = mv t p c k g r s \<and> mv_ok t p c k g r s))"

lemma inv_moveI: "mv_ok t p c k g r s \<Longrightarrow> inv_move t s (Some (mv t p c k g r s))"
  unfolding inv_move_def by auto
lemma inv_move_trivial [simp]: "inv_move t s None" "inv_move t s (Some s)"
  by (auto simp: inv_move_def)

lemma tryWait_move: "sem_inv s \<Longrightarrow> inv_move t s (tryWait_step t inp s)"
  using inv_pc [of s t] inv_k [of s]
  by (cases "spc s t"; simp add: sem_steps split: if_splits wcont.splits)
     (auto intro!: inv_moveI simp: mv_ok_def split: if_splits wcont.splits)

lemma wait_move: "sem_inv s \<Longrightarrow> inv_move t s (waitWithPartialSpinning_step t inp s)"
  using inv_pc [of s t] inv_k [of s]
  by (cases "spc s t"; simp add: sem_steps split: if_splits nat.splits sem_input.splits)
     (auto intro!: inv_moveI simp: mv_ok_def split: if_splits)
lemma tryWaitMany_move: "sem_inv s \<Longrightarrow> inv_move t s (tryWaitMany_step t inp s)"
  using inv_pc [of s t] inv_k [of s]
  by (cases "spc s t"; simp add: sem_steps split: if_splits mcont.splits)
     (auto intro!: inv_moveI simp: mv_ok_def newCount_of_def split: if_splits mcont.splits)

lemma waitMany_move: "sem_inv s \<Longrightarrow> inv_move t s (waitManyWithPartialSpinning_step t inp s)"
  using inv_pc [of s t] inv_k [of s]
  by (cases "spc s t"; simp add: sem_steps split: if_splits nat.splits sem_input.splits)
     (auto intro!: inv_moveI simp: mv_ok_def newCount_of_def split: if_splits)

lemma signal_move: "sem_inv s \<Longrightarrow> inv_move t s (signal_step t inp s)"
  using inv_pc [of s t] inv_k [of s]
  by (cases "spc s t"; simp add: sem_steps split: if_splits nat.splits sem_input.splits)
     (auto intro!: inv_moveI simp: mv_ok_def toRelease_of_def split: if_splits)

lemma call_pc_ok:
  "call_pc c = Some p \<Longrightarrow> pc_ok p \<and> sleeping p = 0 \<and> posting p = 0 \<and> holding p = 0"
  by (cases c) (auto split: if_splits)

lemma call_move: "sem_inv s \<Longrightarrow> inv_move t s (sem_call_step t inp s)"
  using inv_k [of s]
  by (cases "spc s t"; simp add: sem_steps split: sem_input.splits)
     (auto simp: map_option_case mv_ok_def dest: call_pc_ok intro!: inv_moveI split: option.split)

lemma inv_move_or:
  "inv_move t s a \<Longrightarrow> inv_move t s b \<Longrightarrow> inv_move t s (case a of Some s' \<Rightarrow> Some s' | None \<Rightarrow> b)"
  by (cases a) simp_all

lemma sstep_move: "sem_inv s \<Longrightarrow> inv_move t s (sstep t inp s)"
  unfolding sstep_def
  by (intro inv_move_or call_move tryWait_move wait_move tryWaitMany_move waitMany_move signal_move)

lemma sstep_inv: "sem_inv s \<Longrightarrow> sstep t inp s = Some s' \<Longrightarrow> sem_inv s'"
  using sstep_move [of s t inp] by (auto simp: inv_move_def intro: mv_inv)

lemma sreach_inv: "sreach n k s \<Longrightarrow> sem_inv s"
proof (induction rule: sreach.induct)
  case start
  then show ?case by (simp add: sem_inv_def LightweightSemaphore_def sleepers_def posts_def held_def)
qed (rule sstep_inv)

lemma sleeping_nonneg: "sleeping p \<ge> 0"
  by (cases p) simp_all
lemma posting_nonneg: "posting p \<ge> 0"
  by (cases p) simp_all
lemma holding_nonneg: "holding p \<ge> 0"
  by (induction p rule: holding.induct) simp_all

lemma posts_nonneg: "posts s \<ge> 0"
  unfolding posts_def by (rule thread_sum_nonneg, rule posting_nonneg)
lemma held_nonneg: "held s \<ge> 0"
  unfolding held_def by (rule thread_sum_nonneg, rule holding_nonneg)


lemma sem_balance:
  assumes "sreach n k s"
  shows "kernel s \<ge> 0" and "sleepers s = max 0 (- m_count s) + kernel s + posts s"
    and "signalled s = returned s + m_count s + sleepers s + held s" and "fin_threads S_Idle (spc s)"
  using sreach_inv [OF assms] by (simp_all add: sem_inv_def)

lemma posting_pos: "posting p > 0 \<longleftrightarrow> (\<exists>n. p = SG_post (Suc n))"
  by (cases p) (auto simp: gr0_conv_Suc)

section \<open>Properties\<close>

text \<open>
  (C24) Permits are never granted twice: whatever the interleaving, the interruptions and the
  timeouts, the number of permits the waiting operations have returned never exceeds the initial
  count plus what \<open>signal\<close> has added.
\<close>

theorem semaphore_never_overgrants: "sreach n k s \<Longrightarrow> returned s \<le> signalled s"
  using sem_balance [of n k s] posts_nonneg [of s] held_nonneg [of s] by linarith

text \<open>A thread sleeps in \<open>waitMany(3)\<close>; another signals twice; the sleeper returns with both permits.\<close>

lemma sem_handover_run:
  "\<exists>s. srun [(0, SCall (C_waitMany 3 (-1))), (0, SGo), (0, SGo), (0, SGo),
             (1, SCall (C_signal 2)), (1, SGo), (1, SGo), (1, SGo), (0, SGo), (0, SGo), (0, SGo)]
         (LightweightSemaphore 0 0) = Some s \<and> returned s = 2 \<and> signalled s = 2
       \<and> (\<forall>t. spc s t = S_Idle)"
  by (simp add: sstep_def sem_steps LightweightSemaphore_def mv_def toRelease_of_def newCount_of_def
      numeral_eq_Suc)

lemma sem_handover_reach:
  "\<exists>s. sreach 0 0 s \<and> returned s = 2 \<and> signalled s = 2 \<and> (\<forall>t. spc s t = S_Idle)"
  using sem_handover_run srun_reach [OF sreach.start [of 0 0]] by fastforce

theorem semaphore_never_overgrants_witness:
  "\<exists>s. sreach 0 0 s \<and> returned s = 2 \<and> returned s \<le> signalled s"
  using sem_handover_reach semaphore_never_overgrants [of 0 0] by blast

text \<open>
  When no thread is inside an operation, the kernel semaphore is back at zero and
  \<open>availableApprox\<close> is exact: it is the number of permits signalled and not yet returned.  Timed-out
  waiters leave nothing behind.
\<close>

theorem semaphore_quiescent:
  assumes "sreach n k s" and "\<forall>t. spc s t = S_Idle"
  shows "kernel s = 0 \<and> availableApprox s = signalled s - returned s"
proof -
  have "spc s = (\<lambda>_. S_Idle)" using assms(2) by auto
  then have "sleepers s = 0" "posts s = 0" "held s = 0" by (simp_all add: sleepers_def posts_def held_def)
  moreover from this have "kernel s = 0" "m_count s \<ge> 0" using sem_balance(1,2) [OF assms(1)] by linarith+
  ultimately show ?thesis using sem_balance(3) [OF assms(1)] by (simp add: availableApprox_def)
qed

theorem semaphore_quiescent_witness:
  "\<exists>s. sreach 0 0 s \<and> returned s = 2 \<and> kernel s = 0 \<and> availableApprox s = 0"
  using sem_handover_reach semaphore_quiescent [of 0 0] by fastforce

section \<open>The counter of the machine\<close>

text \<open>
  In the steps above the counter is an exact integer.  In the code it is a \<open>ssize_t\<close> of 64 bits that wraps, and
  \<open>signal\<close> casts what it hands to the kernel semaphore to \<open>int\<close>.  \<open>machine_step\<close> is the step with both; \<open>machine_reach\<close> are
  the states \<open>N\<close> threads reach by it.
\<close>

definition ssize_wrap :: "int \<Rightarrow> int" where
  "ssize_wrap x = sint (word_of_int x :: 64 word)"

definition int_cast :: "int \<Rightarrow> int" where
  "int_cast x = sint (word_of_int x :: 32 word)"

definition cast_posts :: "sem_pc \<Rightarrow> sem_pc" where
  "cast_posts p = (case p of SG_post n \<Rightarrow> SG_post (nat (int_cast (int n))) | _ \<Rightarrow> p)"

definition machine_step :: "nat \<Rightarrow> sem_input \<Rightarrow> sem \<Rightarrow> sem option" where
  "machine_step t inp s =
     map_option (\<lambda>s'. s'\<lparr>m_count := ssize_wrap (m_count s'), spc := (spc s')(t := cast_posts (spc s' t))\<rparr>) (sstep t inp s)"

inductive machine_reach :: "int \<Rightarrow> nat \<Rightarrow> nat \<Rightarrow> sem \<Rightarrow> bool" for initial spins N where
  start: "initial \<ge> 0 \<Longrightarrow> initial < 2 ^ 63 \<Longrightarrow> machine_reach initial spins N (LightweightSemaphore initial spins)"
| step: "machine_reach initial spins N s \<Longrightarrow> t < N \<Longrightarrow> machine_step t inp s = Some s' \<Longrightarrow> machine_reach initial spins N s'"

lemma ssize_wrap_id: "- (2 ^ 63) \<le> x \<Longrightarrow> x < 2 ^ 63 \<Longrightarrow> ssize_wrap x = x"
  unfolding ssize_wrap_def by (simp add: signed_of_int signed_take_bit_int_eq_self)

lemma int_cast_id: "- (2 ^ 31) \<le> x \<Longrightarrow> x < 2 ^ 31 \<Longrightarrow> int_cast x = x"
  unfolding int_cast_def by (simp add: signed_of_int signed_take_bit_int_eq_self)

text \<open>What a step changes besides the counters.\<close>

lemma sstep_frame:
  assumes "sstep t inp s = Some s'"
  shows "u \<noteq> t \<Longrightarrow> spc s' u = spc s u"
    and "signalled s' = signalled s \<or> (\<exists>n. spc s t = SG_add n \<and> signalled s' = signalled s + n)"
    and "spc s' t = SG_add n \<Longrightarrow> n \<ge> 0"
proof -
  have "(u \<noteq> t \<longrightarrow> spc s' u = spc s u) \<and> (signalled s' = signalled s \<or> (\<exists>n. spc s t = SG_add n \<and> signalled s' = signalled s + n))
    \<and> (spc s' t = SG_add n \<longrightarrow> n \<ge> 0)"
    using assms by (cases "spc s t"; simp add: sstep_def sem_steps split: if_splits wcont.splits mcont.splits nat.splits sem_input.splits option.splits)
     (auto simp: mv_def elim: call_pc.elims split: if_splits wcont.splits mcont.splits)
  then show "u \<noteq> t \<Longrightarrow> spc s' u = spc s u"
    and "signalled s' = signalled s \<or> (\<exists>n. spc s t = SG_add n \<and> signalled s' = signalled s + n)"
    and "spc s' t = SG_add n \<Longrightarrow> n \<ge> 0" by blast+
qed

text \<open>The waiting operations return no negative number of permits.\<close>

fun mx_ok :: "sem_pc \<Rightarrow> bool" where
  "mx_ok (TM_load _ mx) = (mx \<ge> 0)" | "mx_ok (TM_cas _ mx _) = (mx \<ge> 0)"
| "mx_ok (MS_spin _ mx _) = (mx > 0)" | "mx_ok (MS_cas _ mx _ _) = (mx > 0)" | "mx_ok (MS_fetch mx _) = (mx > 0)"
| "mx_ok (MS_sleep mx _) = (mx > 0)" | "mx_ok (MS_adjust mx) = (mx > 0)" | "mx_ok (MS_adjust_try mx _) = (mx > 0)"
| "mx_ok _ = True"

lemma sstep_returned:
  assumes "sstep t inp s = Some s'" and "pc_ok (spc s t)" and "mx_ok (spc s t)"
  shows "mx_ok (spc s' t) \<and> returned s \<le> returned s'"
  using assms by (cases "spc s t"; simp add: sstep_def sem_steps split: if_splits wcont.splits mcont.splits nat.splits sem_input.splits option.splits)
    (auto simp: mv_def newCount_of_def elim: call_pc.elims split: if_splits wcont.splits mcont.splits)

lemma sreach_returned: "sreach initial spins s \<Longrightarrow> returned s \<ge> 0 \<and> (\<forall>t. mx_ok (spc s t))"
proof (induction rule: sreach.induct)
  case start
  show ?case by (simp add: LightweightSemaphore_def)
next
  case (step s t inp s')
  have "mx_ok (spc s' t) \<and> returned s \<le> returned s'"
    using sstep_returned [OF step.hyps(2) inv_pc [OF sreach_inv [OF step.hyps(1)]]] step.IH by blast
  moreover have "mx_ok (spc s' u)" if "u \<noteq> t" for u using sstep_frame(1) [OF step.hyps(2) that] step.IH by simp
  ultimately show ?case using step.IH by (metis order_trans)
qed

lemma sleeping_le: "sleeping p \<le> 1"
  by (cases p) simp_all

lemma sleepers_le:
  assumes "\<And>u. u \<ge> N \<Longrightarrow> spc s u = S_Idle"
  shows "sleepers s \<le> int N"
proof -
  have sub: "{u. spc s u \<noteq> S_Idle} \<subseteq> {..<N}" using assms by (metis (mono_tags) lessThan_iff mem_Collect_eq not_le subsetI)
  have "sleepers s = (\<Sum>u<N. sleeping (spc s u))"
    unfolding sleepers_def by (rule thread_sum_superset [OF _ sub]) simp_all
  also have "\<dots> \<le> (\<Sum>u<N. 1)" by (rule sum_mono) (rule sleeping_le)
  finally show ?thesis by simp
qed

text \<open>The range of the counter, and of what \<open>signal\<close> casts.\<close>

lemma sreach_range:
  assumes "sreach initial spins s" and "\<And>u. u \<ge> N \<Longrightarrow> spc s u = S_Idle"
  shows "- int N \<le> m_count s" and "m_count s \<le> signalled s" and "spc s t = SG_post n \<Longrightarrow> int n \<le> int N"
proof -
  note b = sem_balance [OF assms(1)]
  have N: "sleepers s \<le> int N" by (rule sleepers_le [OF assms(2)])
  show "- int N \<le> m_count s" using b(1,2) N posts_nonneg [of s] by linarith
  have "sleepers s \<ge> 0" using b(1,2) posts_nonneg [of s] by linarith
  then show "m_count s \<le> signalled s" using b(3) held_nonneg [of s] sreach_returned [OF assms(1)] by linarith
  assume p: "spc s t = SG_post n"
  have "posting (spc s t) \<le> posts s" unfolding posts_def using b(4) p by (intro thread_sum_pos posting_nonneg) simp_all
  then show "int n \<le> int N" using p b(1,2) N by simp
qed

text \<open>While fewer than \<open>2 ^ 63\<close> permits have been given out and there are fewer than \<open>2 ^ 31\<close> threads, nothing wraps.\<close>

lemma machine_exact:
  assumes "machine_reach initial spins N s" and "N < 2 ^ 31"
  shows "(\<forall>u\<ge>N. spc s u = S_Idle) \<and> (\<forall>u n. spc s u = SG_add n \<longrightarrow> n \<ge> 0) \<and> (signalled s < 2 ^ 63 \<longrightarrow> sreach initial spins s)"
  using assms(1)
proof (induction rule: machine_reach.induct)
  case start
  then show ?case by (simp add: LightweightSemaphore_def sreach.start [unfolded LightweightSemaphore_def])
next
  case (step s t inp s')
  obtain s1 where s1: "sstep t inp s = Some s1"
    "s' = s1\<lparr>m_count := ssize_wrap (m_count s1), spc := (spc s1)(t := cast_posts (spc s1 t))\<rparr>"
    using step.hyps(3) by (auto simp: machine_step_def)
  have idle: "\<forall>u\<ge>N. spc s1 u = S_Idle" and add: "\<forall>u n. spc s1 u = SG_add n \<longrightarrow> n \<ge> 0"
    using sstep_frame(1) [OF s1(1)] sstep_frame(3) [OF s1(1)] step.IH step.hyps(2) by (metis not_le)+
  have "sreach initial spins s'" if small: "signalled s' < 2 ^ 63"
  proof -
    have "signalled s \<le> signalled s1" using sstep_frame(2) [OF s1(1)] step.IH by auto
    then have "sreach initial spins s" using small s1(2) step.IH by simp
    then have r: "sreach initial spins s1" using s1(1) by (rule sreach.step)
    note range = sreach_range [OF r, of N]
    have "ssize_wrap (m_count s1) = m_count s1"
      using range(1,2) idle small s1(2) assms(2) by (intro ssize_wrap_id) simp_all
    moreover have "cast_posts (spc s1 t) = spc s1 t"
      using range(3) [of t] idle assms(2) by (cases "spc s1 t") (simp_all add: cast_posts_def int_cast_id)
    ultimately have "s' = s1" using s1(2) by simp
    then show ?thesis using r by simp
  qed
  moreover have u: "spc s' u = (if u = t then cast_posts (spc s1 t) else spc s1 u)" for u using s1(2) by simp
  then have "\<forall>u\<ge>N. spc s' u = S_Idle" using idle step.hyps(2) by auto
  moreover have "cast_posts p = SG_add n \<longleftrightarrow> p = SG_add n" for p n by (cases p) (simp_all add: cast_posts_def)
  then have "\<forall>u n. spc s' u = SG_add n \<longrightarrow> n \<ge> 0" using u add by auto
  ultimately show ?case by blast
qed

section \<open>No wake-up is lost\<close>

text \<open>
  (C27) No wake-up is lost, on the machine's integers, while fewer than \<open>2 ^ 63\<close> permits have been given out (the initial
  count included) and there are fewer than \<open>2 ^ 31\<close> threads: when the counter says that every waiter has been signalled, there is a
  post made or still to be made for every one of them, and a thread that sleeps in \<open>sem_wait\<close> or \<open>sem_timedwait\<close>, from \<open>wait\<close> or
  from \<open>waitMany\<close>, can take a permit at once, or a signalling thread still has a \<open>sem_post\<close> to make.
\<close>

theorem semaphore_no_lost_wakeup:
  assumes "machine_reach initial spins N s" and "N < 2 ^ 31" and "signalled s < 2 ^ 63" and "m_count s \<ge> 0"
    and "(\<exists>timeout. spc s t = WS_sleep timeout) \<or> (\<exists>mx timeout. spc s t = MS_sleep mx timeout)"
  shows "sleepers s = kernel s + posts s
    \<and> ((\<exists>s'. machine_step t SGo s = Some s' \<and> kernel s' = kernel s - 1
         \<and> (spc s' t = S_Idle \<and> returned s' = returned s + 1 \<or> (\<exists>mx. spc s' t = TM_load AfterSleep mx)))
       \<or> (\<exists>u m. spc s u = SG_post (Suc m)))"
proof -
  have r: "sreach initial spins s" using machine_exact [OF assms(1,2)] assms(3) by blast
  have all: "sleepers s = kernel s + posts s" using sem_balance(2) [OF r] assms(4) by simp
  have "sleeping (spc s t) \<le> sleepers s" unfolding sleepers_def
    using sem_balance(4) [OF r] assms(5) by (intro thread_sum_pos sleeping_nonneg) auto
  then have some: "kernel s + posts s > 0" using all assms(5) by auto
  show ?thesis
  proof (cases "kernel s > 0")
    case True
    then have "\<exists>s'. machine_step t SGo s = Some s' \<and> kernel s' = kernel s - 1
        \<and> (spc s' t = S_Idle \<and> returned s' = returned s + 1 \<or> (\<exists>mx. spc s' t = TM_load AfterSleep mx))"
      using assms(5) by (auto simp: machine_step_def sstep_def sem_steps mv_def cast_posts_def)
    then show ?thesis using all by blast
  next
    case False
    then have "posts s > 0" using some by simp
    then show ?thesis using all thread_sum_someone [of S_Idle posting "spc s"] by (auto simp: posts_def posting_pos)
  qed
qed

fun machine_run :: "(nat \<times> sem_input) list \<Rightarrow> sem \<Rightarrow> sem option" where
  "machine_run [] s = Some s"
| "machine_run ((t, inp) # sched) s = (case machine_step t inp s of None \<Rightarrow> None | Some s' \<Rightarrow> machine_run sched s')"

lemma machine_run_reach:
  "machine_reach n k N s \<Longrightarrow> \<forall>(t, inp) \<in> set sched. t < N \<Longrightarrow> machine_run sched s = Some s' \<Longrightarrow> machine_reach n k N s'"
proof (induction sched s rule: machine_run.induct)
  case (1 s)
  then show ?case by simp
next
  case (2 t inp sched s)
  then show ?case by (auto split: option.splits intro: machine_reach.step)
qed

lemma sem_asleep_run:
  "\<exists>s. machine_run [(0, SCall (C_waitMany 3 (-1))), (0, SGo), (0, SGo), (0, SGo), (1, SCall (C_signal 2)), (1, SGo)]
         (LightweightSemaphore 0 0) = Some s
     \<and> spc s 0 = MS_sleep 3 (-1) \<and> m_count s = 1 \<and> kernel s = 0 \<and> signalled s = 2"
  by (simp add: machine_step_def sstep_def sem_steps LightweightSemaphore_def mv_def toRelease_of_def cast_posts_def
      ssize_wrap_id int_cast_id numeral_eq_Suc)

theorem semaphore_no_lost_wakeup_witness:
  "\<exists>s. machine_reach 0 0 2 s \<and> spc s 0 = MS_sleep 3 (-1) \<and> kernel s = 0 \<and> (\<exists>u m. spc s u = SG_post (Suc m))"
proof -
  obtain s where s: "machine_run [(0, SCall (C_waitMany 3 (-1))), (0, SGo), (0, SGo), (0, SGo), (1, SCall (C_signal 2)), (1, SGo)]
      (LightweightSemaphore 0 0) = Some s" "spc s 0 = MS_sleep 3 (-1)" "m_count s = 1" "kernel s = 0" "signalled s = 2"
    using sem_asleep_run by blast
  have r: "machine_reach 0 0 2 s" by (rule machine_run_reach [OF machine_reach.start _ s(1)]) simp_all
  have "machine_step 0 SGo s = None" using s by (simp add: machine_step_def sstep_def sem_steps)
  moreover have "(2 :: nat) < 2 ^ 31" "signalled s < 2 ^ 63" "m_count s \<ge> 0" using s by simp_all
  ultimately show ?thesis using r s(2,4) semaphore_no_lost_wakeup [OF r, of 0] by auto
qed

section \<open>Operations without contention\<close>

text \<open>
  Run by one thread with nobody interfering, \<open>tryWaitMany(max)\<close> returns the smaller of \<open>max\<close>
  and the count, and takes exactly that from the count.
\<close>

theorem tryWaitMany_uncontended:
  assumes "spc s t = S_Idle" and "mx \<ge> 0" and "m_count s > 0"
  shows "srun [(t, SCall (C_tryWaitMany mx)), (t, SGo), (t, SGo)] s
    = Some (s\<lparr>m_count := m_count s - min mx (m_count s), returned := returned s + min mx (m_count s)\<rparr>)"
  using assms by (cases s) (auto simp: sstep_def sem_steps mv_def newCount_of_def min_def fun_upd_idem)

theorem tryWaitMany_uncontended_witness:
  "\<exists>s. srun [(0, SCall (C_tryWaitMany 3)), (0, SGo), (0, SGo)] (LightweightSemaphore 5 1) = Some s \<and> m_count s = 2"
  using tryWaitMany_uncontended [of "LightweightSemaphore 5 1" 0 3] by (simp add: LightweightSemaphore_def)

text \<open>
  The deadline of a timed wait is well formed, its nanoseconds below one second as
  \<open>sem_timedwait\<close> requires, and lies exactly the requested number of microseconds after the clock.
\<close>

theorem timed_wait_deadline_exact:
  assumes "0 \<le> snd ts" and "snd ts < 1000000000" and "timed_wait_deadline ts usecs = (sec, nsec)"
  shows "0 \<le> nsec \<and> nsec < 1000000000
    \<and> sec * 1000000000 + nsec = fst ts * 1000000000 + snd ts + usecs * 1000"
proof -
  define q r where "q = usecs div 1000000" and "r = usecs mod 1000000"
  have usecs: "usecs = q * 1000000 + r" "0 \<le> r" "r < 1000000" by (simp_all add: q_def r_def)
  have "(sec, nsec) = (if snd ts + r * 1000 \<ge> 1000000000 then (fst ts + q + 1, snd ts + r * 1000 - 1000000000)
                       else (fst ts + q, snd ts + r * 1000))"
    using assms(3) [symmetric] by (simp add: timed_wait_deadline_def Let_def q_def r_def)
  then show ?thesis using assms(1,2) usecs by (auto split: if_splits)
qed

theorem timed_wait_deadline_exact_witness:
  "timed_wait_deadline (10, 999999999) 2000001 = (13, 999) \<and> (999 :: int) < 1000000000"
  using timed_wait_deadline_exact [of "(10, 999999999)" 2000001 13 999] by (simp add: timed_wait_deadline_def)

end
