(* ===== verification/EventCallback.thy ===== *)
theory EventCallback
  imports Prelude "HOL-Library.Multiset"
begin

unbundle bit_operations_syntax

text \<open>
  Model of \<open>shared/utils/EventCallback.hpp\<close>: type-erased callbacks with the identity the code
  gives them, and the event classes that keep them in a \<open>std::set\<close> or a \<open>std::unordered_set\<close>.
  The containers of the standard library are lists in iteration order.  The locale
  \<open>callback_container\<close> is what the event classes need of a container; it is interpreted on both.
\<close>

section \<open>Callbacks\<close>

type_synonym addr = "64 word"

text \<open>
  The three specialisations of \<open>FunctionWrapper\<close>: a function pointer, a member function with its
  object, and a copy of a \<open>std::function\<close> (named by a number) with the address it was copied from.
\<close>

datatype callback =
    FnPtr addr
  | MemFn addr addr
  | StdFunction nat addr

primrec instance_of :: "callback \<Rightarrow> addr" where
  "instance_of (FnPtr held) = 0"
| "instance_of (MemFn held inst) = inst"
| "instance_of (StdFunction held handle) = 0"

primrec ptr_of :: "callback \<Rightarrow> addr" where
  "ptr_of (FnPtr held) = held"
| "ptr_of (MemFn held inst) = held"
| "ptr_of (StdFunction held handle) = handle"

definition fn_eq :: "callback \<Rightarrow> callback \<Rightarrow> bool" where
  "fn_eq a b \<longleftrightarrow> instance_of a = instance_of b \<and> ptr_of a = ptr_of b"

definition fn_less :: "callback \<Rightarrow> callback \<Rightarrow> bool" where
  "fn_less a b \<longleftrightarrow> ptr_of a < ptr_of b"

text \<open>\<open>std::hash\<close> of a callback; the addition binds tighter than the exclusive or.\<close>

definition fn_hash :: "(addr \<Rightarrow> size_t) \<Rightarrow> callback \<Rightarrow> size_t" where
  "fn_hash hash_ptr obj =
     (let seed = hash_ptr (instance_of obj)
      in seed XOR (hash_ptr (ptr_of obj) + 0x9e3779b9 + push_bit 6 seed + drop_bit 2 seed))"

text \<open>
  The outcome of running code on a state: it returns, it throws, or the process is terminated.
  Every call operator here is \<open>noexcept\<close>, so an exception of the callback terminates.
\<close>

datatype 's outcome = Ret 's | Throw exn 's | Terminate 's

type_synonym ('a, 's) behaviour = "callback \<Rightarrow> 'a \<Rightarrow> 's \<Rightarrow> 's outcome"

definition call :: "('a, 's) behaviour \<Rightarrow> callback \<Rightarrow> 'a \<Rightarrow> 's \<Rightarrow> 's outcome" where
  "call beh f args s = (case beh f args s of Ret s' \<Rightarrow> Ret s' | Throw e s' \<Rightarrow> Terminate s' | Terminate s' \<Rightarrow> Terminate s')"

section \<open>Containers\<close>

record container =
  c_emplace :: "callback \<Rightarrow> callback list \<Rightarrow> callback list"
  c_erase :: "callback \<Rightarrow> callback list \<Rightarrow> callback list"

text \<open>\<open>std::set\<close> with \<open>operator<\<close>: elements ascending, an element equivalent to a present one is not inserted.\<close>

fun oset_emplace :: "callback \<Rightarrow> callback list \<Rightarrow> callback list" where
  "oset_emplace f [] = [f]"
| "oset_emplace f (g # gs) =
     (if fn_less f g then f # g # gs else if fn_less g f then g # oset_emplace f gs else g # gs)"

definition oset_erase :: "callback \<Rightarrow> callback list \<Rightarrow> callback list" where
  "oset_erase f gs = filter (\<lambda>g. fn_less f g \<or> fn_less g f) gs"

definition default_ordered_set :: container where
  "default_ordered_set = \<lparr>c_emplace = oset_emplace, c_erase = oset_erase\<rparr>"

text \<open>
  \<open>std::unordered_set\<close> with \<open>operator==\<close>: the iteration order after an insertion is the
  library's choice, the parameter \<open>arrange\<close>.
\<close>

definition uset_emplace :: "(callback list \<Rightarrow> callback list) \<Rightarrow> callback \<Rightarrow> callback list \<Rightarrow> callback list" where
  "uset_emplace arrange f gs = (if list_ex (fn_eq f) gs then gs else arrange (f # gs))"

definition uset_erase :: "callback \<Rightarrow> callback list \<Rightarrow> callback list" where
  "uset_erase f gs = filter (\<lambda>g. \<not> fn_eq f g) gs"

definition default_unordered_set :: "(callback list \<Rightarrow> callback list) \<Rightarrow> container" where
  "default_unordered_set arrange = \<lparr>c_emplace = uset_emplace arrange, c_erase = uset_erase\<rparr>"

section \<open>Event classes\<close>

text \<open>
  The member functions of \<open>BasicEventCallback\<close> and \<open>ThreadSafeEventCallback\<close> differ only in the
  lock the latter holds; one call runs to its end, so both are the same functions of the container's
  contents.  The operators \<open>+=\<close> and \<open>-=\<close> call these.
\<close>

definition addCallback :: "container \<Rightarrow> callback \<Rightarrow> callback list \<Rightarrow> callback list" where
  "addCallback C f callbacks = c_emplace C f callbacks"

definition addCallback_fn :: "container \<Rightarrow> addr \<Rightarrow> callback list \<Rightarrow> callback list" where
  "addCallback_fn C f callbacks = c_emplace C (FnPtr f) callbacks"

definition addCallback_member :: "container \<Rightarrow> addr \<Rightarrow> addr \<Rightarrow> callback list \<Rightarrow> callback list" where
  "addCallback_member C f inst callbacks = c_emplace C (MemFn f inst) callbacks"

definition removeCallback :: "container \<Rightarrow> callback \<Rightarrow> callback list \<Rightarrow> callback list" where
  "removeCallback C f callbacks = c_erase C f callbacks"

definition removeCallback_fn :: "container \<Rightarrow> addr \<Rightarrow> callback list \<Rightarrow> callback list" where
  "removeCallback_fn C f callbacks = c_erase C (FnPtr f) callbacks"

text \<open>Removal of a member function walks the container and erases through the iterator.\<close>

fun removeCallback_member :: "addr \<Rightarrow> callback list \<Rightarrow> callback list" where
  "removeCallback_member f [] = []"
| "removeCallback_member f (g # itr) =
     (if ptr_of g = f then removeCallback_member f itr else g # removeCallback_member f itr)"

fun invoke :: "('a, 's) behaviour \<Rightarrow> 'a \<Rightarrow> callback list \<Rightarrow> 's \<Rightarrow> 's outcome" where
  "invoke beh args [] s = Ret s"
| "invoke beh args (f # callbacks) s =
     (case call beh f args s of
        Ret s' \<Rightarrow> invoke beh args callbacks s'
      | Throw e s' \<Rightarrow> Throw e s'
      | Terminate s' \<Rightarrow> Terminate s')"

text \<open>\<open>invokeError\<close> catches what a callback throws, hands it to the handler and goes on.\<close>

fun invokeError :: "('a, 's) behaviour \<Rightarrow> (exn \<Rightarrow> 's \<Rightarrow> 's outcome) \<Rightarrow> 'a \<Rightarrow> callback list \<Rightarrow> 's \<Rightarrow> 's outcome" where
  "invokeError beh exceptionHandle args [] s = Ret s"
| "invokeError beh exceptionHandle args (f # callbacks) s =
     (case call beh f args s of
        Ret s' \<Rightarrow> invokeError beh exceptionHandle args callbacks s'
      | Throw e s' \<Rightarrow>
          (case exceptionHandle e s' of
             Ret s'' \<Rightarrow> invokeError beh exceptionHandle args callbacks s''
           | r \<Rightarrow> r)
      | Terminate s' \<Rightarrow> Terminate s')"

definition event_size :: "callback list \<Rightarrow> nat" where
  "event_size callbacks = length callbacks"

definition event_empty :: "callback list \<Rightarrow> bool" where
  "event_empty callbacks \<longleftrightarrow> callbacks = []"

definition event_clear :: "callback list \<Rightarrow> callback list" where
  "event_clear callbacks = []"

datatype event_op = Add callback | Remove callback | RemoveMember addr | Clear

fun event_step :: "container \<Rightarrow> event_op \<Rightarrow> callback list \<Rightarrow> callback list" where
  "event_step C (Add f) gs = addCallback C f gs"
| "event_step C (Remove f) gs = removeCallback C f gs"
| "event_step C (RemoveMember a) gs = removeCallback_member a gs"
| "event_step C Clear gs = event_clear gs"

definition event_run :: "container \<Rightarrow> event_op list \<Rightarrow> callback list \<Rightarrow> callback list" where
  "event_run C ops gs = fold (event_step C) ops gs"

section \<open>What the event classes need of a container\<close>

text \<open>
  \<open>same\<close> is the equivalence by which the container identifies callbacks, \<open>ok\<close> its invariant.
\<close>

definition apart :: "(callback \<Rightarrow> callback \<Rightarrow> bool) \<Rightarrow> callback list \<Rightarrow> bool" where
  "apart same gs = sorted_wrt (\<lambda>a b. \<not> same a b) gs"

text \<open>Whether a callback identified with \<open>f\<close> is registered after the operations, given whether one was before.\<close>

fun registered :: "(callback \<Rightarrow> callback \<Rightarrow> bool) \<Rightarrow> callback \<Rightarrow> event_op list \<Rightarrow> bool \<Rightarrow> bool" where
  "registered same f [] b = b"
| "registered same f (Add g # ops) b = registered same f ops (b \<or> same f g)"
| "registered same f (Remove g # ops) b = registered same f ops (b \<and> \<not> same f g)"
| "registered same f (RemoveMember a # ops) b = registered same f ops (b \<and> ptr_of f \<noteq> a)"
| "registered same f (Clear # ops) b = registered same f ops False"

lemma removeCallback_member_filter: "removeCallback_member f gs = filter (\<lambda>g. ptr_of g \<noteq> f) gs"
  by (induction gs) auto

locale callback_container =
  fixes C :: container
    and same :: "callback \<Rightarrow> callback \<Rightarrow> bool"
    and ok :: "callback list \<Rightarrow> bool"
  assumes same_equiv: "equivp same"
    and same_ptr: "same f g \<Longrightarrow> ptr_of f = ptr_of g"
    and ok_empty: "ok []"
    and ok_apart: "ok gs \<Longrightarrow> apart same gs"
    and ok_emplace: "ok gs \<Longrightarrow> ok (c_emplace C f gs)"
    and ok_filter: "ok gs \<Longrightarrow> ok (filter p gs)"
    and emplace_mset: "ok gs \<Longrightarrow> mset (c_emplace C f gs) =
      (if \<exists>g\<in>set gs. same f g then mset gs else add_mset f (mset gs))"
    and erase_filter: "ok gs \<Longrightarrow> c_erase C f gs = filter (\<lambda>g. \<not> same f g) gs"
begin

lemma step_ok: "ok gs \<Longrightarrow> ok (event_step C op gs)"
  by (cases op) (simp_all add: addCallback_def removeCallback_def event_clear_def erase_filter
      removeCallback_member_filter ok_emplace ok_filter ok_empty)

lemma run_ok: "ok gs \<Longrightarrow> ok (event_run C ops gs)"
  unfolding event_run_def by (induction ops arbitrary: gs) (simp_all add: step_ok)

lemma emplace_set:
  "ok gs \<Longrightarrow> set (c_emplace C f gs) = (if \<exists>g\<in>set gs. same f g then set gs else insert f (set gs))"
  using arg_cong [OF emplace_mset [of gs f], of set_mset] by (simp split: if_splits)

lemma same_sym: "same a b \<longleftrightarrow> same b a"
  using equivp_symp [OF same_equiv] by blast

lemma same_refl: "same a a"
  using equivp_reflp [OF same_equiv] by blast

lemma same_trans: "same a b \<Longrightarrow> same b c \<Longrightarrow> same a c"
  using equivp_transp [OF same_equiv] by blast

lemma emplace_has:
  "ok gs \<Longrightarrow> (\<exists>x\<in>set (c_emplace C g gs). same f x) \<longleftrightarrow> (\<exists>x\<in>set gs. same f x) \<or> same f g"
  by (auto simp: emplace_set split: if_splits intro: same_trans)

lemma erase_has:
  "ok gs \<Longrightarrow> (\<exists>x\<in>set (c_erase C g gs). same f x) \<longleftrightarrow> (\<exists>x\<in>set gs. same f x) \<and> \<not> same f g"
  by (auto simp: erase_filter intro: same_trans dest: same_sym [THEN iffD1])

lemma run_registered:
  "ok gs \<Longrightarrow> (\<exists>x\<in>set (event_run C ops gs). same f x) \<longleftrightarrow> registered same f ops (\<exists>x\<in>set gs. same f x)"
proof (induction ops arbitrary: gs)
  case Nil
  then show ?case by (simp add: event_run_def)
next
  case (Cons op ops)
  have "(\<exists>x\<in>set (event_step C op gs). same f x) \<longleftrightarrow> registered same f [op] (\<exists>x\<in>set gs. same f x)"
    using Cons.prems same_ptr [of f]
    by (cases op) (auto simp: addCallback_def removeCallback_def event_clear_def
        removeCallback_member_filter emplace_has erase_has)
  then show ?case using Cons.IH [OF step_ok [OF Cons.prems, of op]]
    by (cases op) (simp_all add: event_run_def)
qed

lemma run_apart: "ok gs \<Longrightarrow> apart same (event_run C ops gs)"
  by (rule ok_apart [OF run_ok])

end

section \<open>Both containers\<close>

lemma oset_emplace_set: "set (oset_emplace f gs) \<subseteq> insert f (set gs)"
  by (induction gs) auto

lemma oset_emplace_sorted: "sorted_wrt fn_less gs \<Longrightarrow> sorted_wrt fn_less (oset_emplace f gs)"
proof (induction gs)
  case (Cons g gs)
  have "\<forall>x\<in>set (oset_emplace f gs). fn_less g x" if "fn_less g f"
    using that Cons.prems oset_emplace_set [of f gs] by auto
  then show ?case using Cons by (auto simp: fn_less_def)
qed simp

lemma oset_emplace_mset:
  "sorted_wrt fn_less gs \<Longrightarrow> mset (oset_emplace f gs) =
     (if \<exists>g\<in>set gs. ptr_of f = ptr_of g then mset gs else add_mset f (mset gs))"
  by (induction gs) (force simp: fn_less_def)+

interpretation ordered: callback_container default_ordered_set "\<lambda>a b. ptr_of a = ptr_of b" "sorted_wrt fn_less"
proof unfold_locales
  show "equivp (\<lambda>a b. ptr_of a = ptr_of b)" by (intro equivpI reflpI sympI transpI) simp_all
qed (auto simp: default_ordered_set_def apart_def oset_emplace_sorted oset_emplace_mset oset_erase_def
      fn_less_def sorted_wrt_filter neq_iff elim: sorted_wrt_mono_rel [rotated] intro!: filter_cong)

text \<open>In the unordered container callbacks are identified by object and address together.\<close>

definition key_of :: "callback \<Rightarrow> addr \<times> addr" where
  "key_of f = (instance_of f, ptr_of f)"

lemma fn_eq_key: "fn_eq a b \<longleftrightarrow> key_of a = key_of b"
  by (simp add: fn_eq_def key_of_def)

lemma apart_distinct: "apart fn_eq gs \<longleftrightarrow> distinct (map key_of gs)"
  by (induction gs) (auto simp: apart_def fn_eq_key)

lemma apart_permute: "mset gs = mset hs \<Longrightarrow> apart fn_eq gs \<longleftrightarrow> apart fn_eq hs"
  unfolding apart_distinct by (rule mset_eq_imp_distinct_iff) simp

lemma unordered_container:
  assumes "\<And>gs. mset (arrange gs) = mset gs"
  shows "callback_container (default_unordered_set arrange) fn_eq (apart fn_eq)"
proof
  show "equivp fn_eq" by (intro equivpI reflpI sympI transpI) (simp_all add: fn_eq_key)
next
  fix gs f assume "apart fn_eq gs"
  moreover have "apart fn_eq (arrange (f # gs)) \<longleftrightarrow> apart fn_eq (f # gs)"
    by (rule apart_permute [OF assms])
  ultimately show "apart fn_eq (c_emplace (default_unordered_set arrange) f gs)"
    by (auto simp: default_unordered_set_def uset_emplace_def apart_def list_ex_iff)
qed (auto simp: default_unordered_set_def uset_emplace_def uset_erase_def assms apart_def list_ex_iff
      fn_eq_def sorted_wrt_filter)

interpretation unordered: callback_container "default_unordered_set (\<lambda>gs. gs)" fn_eq "apart fn_eq"
  by (rule unordered_container) simp

section \<open>Properties\<close>

lemma call_no_throw: "call beh f args s \<noteq> Throw e s'"
  by (simp add: call_def split: outcome.split)

lemma invoke_returns:
  assumes "\<And>f s. f \<in> set gs \<Longrightarrow> beh f args s = Ret (eff f s)"
  shows "invoke beh args gs s = Ret (fold eff gs s)"
  using assms by (induction gs arbitrary: s) (simp_all add: call_def)

lemma fold_snoc: "fold (\<lambda>f tr. tr @ [f]) gs tr = tr @ gs"
  by (induction gs arbitrary: tr) simp_all

text \<open>
  (C29) An \<open>EventCallback\<close> identifies its callbacks by the address of the function alone, not by the object a member
  function belongs to.  After any sequence of additions, removals and clears, a function address is held exactly when
  the last operation on that address added it, whichever object the operations named; the callbacks are in strictly
  ascending order of address, and \<open>invoke\<close> runs each of them once in that order.
\<close>

theorem event_callback_registered:
  "(\<exists>g\<in>set (event_run default_ordered_set ops []). ptr_of f = ptr_of g)
     = registered (\<lambda>a b. ptr_of a = ptr_of b) f ops False
   \<and> sorted_wrt fn_less (event_run default_ordered_set ops [])
   \<and> invoke (\<lambda>f args tr. Ret (tr @ [f])) args (event_run default_ordered_set ops []) []
     = Ret (event_run default_ordered_set ops [])"
  using ordered.run_registered [of "[]" ops f] ordered.run_ok [of "[]" ops]
    invoke_returns [of "event_run default_ordered_set ops []" "\<lambda>f args tr. Ret (tr @ [f])" args "\<lambda>f tr. tr @ [f]" "[]"]
  by (simp add: fold_snoc)

text \<open>
  The same for an \<open>UnorderedEventCallback\<close>, whose callbacks are identified by object and address:
  whatever order the library iterates in, a callback is registered exactly when the last operation
  that concerns it added it, and none is registered twice.
\<close>

theorem unordered_callback_registered:
  assumes "\<forall>gs. mset (arrange gs) = mset gs"
  shows "(\<exists>g\<in>set (event_run (default_unordered_set arrange) ops []). fn_eq f g) = registered fn_eq f ops False
    \<and> distinct (map key_of (event_run (default_unordered_set arrange) ops []))"
proof -
  have C: "callback_container (default_unordered_set arrange) fn_eq (apart fn_eq)"
    using assms by (intro unordered_container) simp
  have nil: "apart fn_eq []" by (simp add: apart_def)
  show ?thesis using callback_container.run_registered [OF C nil, of ops f]
      callback_container.run_apart [OF C nil, of ops] by (simp add: apart_distinct)
qed

theorem unordered_callback_registered_witness:
  "\<exists>g\<in>set (event_run (default_unordered_set rev) [Add (MemFn 1 7), Add (MemFn 1 8), Remove (MemFn 1 7)] []).
     fn_eq (MemFn 1 8) g"
  using unordered_callback_registered
    [of rev "[Add (MemFn 1 7), Add (MemFn 1 8), Remove (MemFn 1 7)]" "MemFn 1 8"]
  by (simp add: fn_eq_def)

text \<open>
  The handler given to \<open>invokeError\<close> is never called: every call operator is \<open>noexcept\<close>, so a
  throwing callback ends the process and \<open>invokeError\<close> does what \<open>invoke\<close> does for any handler.
\<close>

theorem invokeError_handler_dead: "invokeError beh exceptionHandle args gs s = invoke beh args gs s"
  by (induction gs arbitrary: s) (simp_all add: call_no_throw split: outcome.split)

text \<open>
  \<open>operator<\<close> compares addresses only.  A second object that registers the same member function
  with an \<open>EventCallback\<close> is dropped, while the unordered variant keeps both; and two lambdas whose
  \<open>std::function\<close> temporaries had the same address collide in both.
\<close>

theorem ordered_drops_second_instance:
  "addCallback_member default_ordered_set f i2 (addCallback_member default_ordered_set f i1 [])
     = addCallback_member default_ordered_set f i1 []
   \<and> (i1 \<noteq> i2 \<longrightarrow> addCallback_member (default_unordered_set (\<lambda>gs. gs)) f i2
        (addCallback_member (default_unordered_set (\<lambda>gs. gs)) f i1 []) = [MemFn f i2, MemFn f i1])
   \<and> addCallback (default_unordered_set (\<lambda>gs. gs)) (StdFunction lambda2 temporary) [StdFunction lambda1 temporary]
     = [StdFunction lambda1 temporary]"
  by (simp add: addCallback_member_def addCallback_def default_ordered_set_def default_unordered_set_def
      uset_emplace_def fn_less_def fn_eq_def)

theorem ordered_drops_second_instance_witness:
  "addCallback_member default_ordered_set 5 2 (addCallback_member default_ordered_set 5 1 []) = [MemFn 5 1]"
  using ordered_drops_second_instance [of 5 2 1 0 0 0]
  by (simp add: addCallback_member_def default_ordered_set_def)

text \<open>Callbacks that compare equal have the same hash, as \<open>std::unordered_set\<close> requires.\<close>

theorem fn_hash_consistent: "fn_eq a b \<Longrightarrow> fn_hash hash_ptr a = fn_hash hash_ptr b"
  by (simp add: fn_eq_def fn_hash_def)

theorem fn_hash_consistent_witness:
  "FnPtr 4 \<noteq> StdFunction 1 4 \<and> fn_hash id (FnPtr 4) = fn_hash id (StdFunction 1 4)"
  using fn_hash_consistent [of "FnPtr 4" "StdFunction 1 4" id] by (simp add: fn_eq_def)

end
