(* ===== verification/CQ_Details.thy ===== *)
theory CQ_Details
  imports Prelude
begin

unbundle bit_operations_syntax

text \<open>
  The compile-time parameters and the helpers of namespace \<open>details\<close> in
  \<open>shared/queue_internal/concurrentqueue.h\<close>: the default traits, the hash of thread ids, the
  comparison of wrapping indices, rounding to powers of two and alignment.
\<close>

section \<open>Traits\<close>

text \<open>
  \<open>ConcurrentQueueDefaultTraits\<close>, and the requirements the class asserts at compile time.  The queue is also
  parameterised by the type of its elements; what the code asks of that type is \<open>MOODYCAMEL_NOEXCEPT_CTOR\<close>, whether an element is
  constructed in a block without exceptions, which is kept with the traits.
\<close>

record traits =
  BLOCK_SIZE :: nat
  EXPLICIT_BLOCK_EMPTY_COUNTER_THRESHOLD :: nat
  EXPLICIT_INITIAL_INDEX_SIZE :: nat
  IMPLICIT_INITIAL_INDEX_SIZE :: nat
  INITIAL_IMPLICIT_PRODUCER_HASH_SIZE :: nat
  EXPLICIT_CONSUMER_CONSUMPTION_QUOTA_BEFORE_ROTATE :: nat
  TRAITS_MAX_SUBQUEUE_SIZE :: nat
  RECYCLE_ALLOCATED_BLOCKS :: bool
  noexcept_ctor :: bool

definition size_max :: nat where
  "size_max = 2 ^ 64 - 1"

definition default_traits :: traits where
  "default_traits =
     \<lparr>BLOCK_SIZE = 32, EXPLICIT_BLOCK_EMPTY_COUNTER_THRESHOLD = 32, EXPLICIT_INITIAL_INDEX_SIZE = 32,
      IMPLICIT_INITIAL_INDEX_SIZE = 32, INITIAL_IMPLICIT_PRODUCER_HASH_SIZE = 32,
      EXPLICIT_CONSUMER_CONSUMPTION_QUOTA_BEFORE_ROTATE = 256, TRAITS_MAX_SUBQUEUE_SIZE = size_max,
      RECYCLE_ALLOCATED_BLOCKS = False, noexcept_ctor = False\<rparr>"

text \<open>What the constructor of an element throws, when it can throw at all.\<close>

definition raised :: "traits \<Rightarrow> exn option \<Rightarrow> exn option" where
  "raised tr throws = (if noexcept_ctor tr then None else throws)"

lemma raised_None [simp]: "raised tr None = None"
  by (simp add: raised_def)

lemma raised_may [simp]: "\<not> noexcept_ctor tr \<Longrightarrow> raised tr throws = throws"
  by (simp add: raised_def)

definition pow2 :: "nat \<Rightarrow> bool" where
  "pow2 n \<longleftrightarrow> n > 0 \<and> n AND (n - 1) = 0"

definition traits_ok :: "traits \<Rightarrow> bool" where
  "traits_ok tr \<longleftrightarrow>
     BLOCK_SIZE tr > 1 \<and> pow2 (BLOCK_SIZE tr)
     \<and> EXPLICIT_BLOCK_EMPTY_COUNTER_THRESHOLD tr > 1 \<and> pow2 (EXPLICIT_BLOCK_EMPTY_COUNTER_THRESHOLD tr)
     \<and> EXPLICIT_INITIAL_INDEX_SIZE tr > 1 \<and> pow2 (EXPLICIT_INITIAL_INDEX_SIZE tr)
     \<and> IMPLICIT_INITIAL_INDEX_SIZE tr > 1 \<and> pow2 (IMPLICIT_INITIAL_INDEX_SIZE tr)"

definition MAX_SUBQUEUE_SIZE :: "traits \<Rightarrow> nat" where
  "MAX_SUBQUEUE_SIZE tr =
     (if size_max - TRAITS_MAX_SUBQUEUE_SIZE tr < BLOCK_SIZE tr then size_max
      else (TRAITS_MAX_SUBQUEUE_SIZE tr + (BLOCK_SIZE tr - 1)) div BLOCK_SIZE tr * BLOCK_SIZE tr)"

text \<open>
  The code masks indices with \<open>BLOCK_SIZE - 1\<close> and with the size of a circular index minus one, both
  powers of two; the model writes the remainder and the multiple below.
\<close>

definition block_offset :: "traits \<Rightarrow> nat \<Rightarrow> nat" where
  "block_offset tr i = i mod BLOCK_SIZE tr"

definition block_base :: "traits \<Rightarrow> nat \<Rightarrow> nat" where
  "block_base tr i = i - i mod BLOCK_SIZE tr"

section \<open>Helpers\<close>

text \<open>The finalizer of MurmurHash3 that spreads thread ids, for 32 and 64 bits.\<close>

definition hash32 :: "u32 \<Rightarrow> u32" where
  "hash32 h0 =
     (let h = h0 XOR drop_bit 16 h0;
          h = h * 0x85ebca6b;
          h = h XOR drop_bit 13 h;
          h = h * 0xc2b2ae35
      in h XOR drop_bit 16 h)"

definition hash64 :: "64 word \<Rightarrow> 64 word" where
  "hash64 h0 =
     (let h = h0 XOR drop_bit 33 h0;
          h = h * 0xff51afd7ed558ccd;
          h = h XOR drop_bit 33 h;
          h = h * 0xc4ceb9fe1a85ec53
      in h XOR drop_bit 33 h)"

text \<open>Comparison of indices that wrap.\<close>

definition circular_less_than :: "64 word \<Rightarrow> 64 word \<Rightarrow> bool" where
  "circular_less_than a b \<longleftrightarrow> a - b > push_bit 63 1"

text \<open>
  The queue model counts enqueued and dequeued elements with natural numbers; \<open>index_less\<close> is the
  comparison of the wrapped indices (lemma \<open>index_less_wraps\<close>).
\<close>

definition index_less :: "nat \<Rightarrow> nat \<Rightarrow> bool" where
  "index_less a b \<longleftrightarrow> a < b \<and> b - a < 2 ^ 63"

definition align_for :: "nat \<Rightarrow> nat \<Rightarrow> nat" where
  "align_for alignment ptr = ptr + (alignment - ptr mod alignment) mod alignment"

text \<open>The loop over \<open>i = 1, 2, 4\<close> (while \<open>i\<close> is below \<open>sizeof(T)\<close>) is the fold.\<close>

definition ceil_to_pow_2 :: "size_t \<Rightarrow> size_t" where
  "ceil_to_pow_2 x0 =
     (let x = x0 - 1;
          x = x OR drop_bit 1 x;
          x = x OR drop_bit 2 x;
          x = x OR drop_bit 4 x;
          x = fold (\<lambda>i x. x OR drop_bit (8 * i) x) [1, 2, 4] x
      in x + 1)"

section \<open>Lemmas\<close>

lemma mask_is_mod: "i AND (2 ^ k - 1) = i mod (2 ^ k :: nat)"
proof -
  have "(2 ^ k - 1 :: nat) = mask k" by (simp only: mask_eq_exp_minus_1)
  then show ?thesis by (simp only: take_bit_eq_mask [symmetric] take_bit_eq_mod)
qed

lemma pow2_exp: "pow2 (2 ^ k)"
  by (simp add: pow2_def mask_is_mod [simplified])

lemma block_base_offset: "block_base tr i + block_offset tr i = i"
  by (simp add: block_base_def block_offset_def)

lemma align_for_aligned:
  "a > 0 \<Longrightarrow> a dvd align_for a p \<and> p \<le> align_for a p \<and> align_for a p < p + a"
proof -
  assume a: "a > 0"
  have "(p mod a + (a - p mod a) mod a) mod a = 0"
    using a by (cases "p mod a = 0") (auto simp: mod_less_divisor le_mod_geq)
  then have "(p + (a - p mod a) mod a) mod a = 0" by (simp add: mod_add_left_eq)
  then show ?thesis using a by (auto simp: align_for_def mod_eq_0_iff_dvd)
qed

lemma xorshift_inj:
  fixes x y :: "'a :: len word"
  assumes "k > 0" and "x XOR drop_bit k x = y XOR drop_bit k y"
  shows "x = y"
proof (rule bit_word_eqI)
  fix n
  have eq: "(bit x n \<noteq> bit x (n + k)) = (bit y n \<noteq> bit y (n + k))" for n
    using arg_cong [OF assms(2), of "\<lambda>w. bit w n"] by (simp add: bit_xor_iff bit_drop_bit_eq add.commute)
  show "bit x n = bit y n"
  proof (induction "LENGTH('a) - n" arbitrary: n rule: less_induct)
    case less
    show ?case
    proof (cases "n < LENGTH('a)")
      case True
      then have "bit x (n + k) = bit y (n + k)" using assms(1) by (intro less) simp
      with eq [of n] show ?thesis by blast
    next
      case False
      then show ?thesis by (auto dest: bit_imp_le_length)
    qed
  qed
qed

lemma mult_inj:
  fixes c d x y :: "'a :: len word"
  assumes "c * d = 1" and "x * c = y * c"
  shows "x = y"
  using arg_cong [OF assms(2), of "\<lambda>w. w * d"] assms(1) by (simp add: mult.assoc)


definition xorshift :: "nat \<Rightarrow> 'a :: len word \<Rightarrow> 'a word" where
  "xorshift k x = x XOR drop_bit k x"

lemma inj_xorshift: "k > 0 \<Longrightarrow> inj (xorshift k)"
  by (rule injI) (auto simp: xorshift_def dest: xorshift_inj)

lemma inj_times: "c * d = 1 \<Longrightarrow> inj (\<lambda>x :: 'a :: len word. x * c)"
  by (rule injI) (rule mult_inj)

lemma hash32_steps:
  "hash32 = xorshift 16 \<circ> (\<lambda>x. x * 0xc2b2ae35) \<circ> xorshift 13 \<circ> (\<lambda>x. x * 0x85ebca6b) \<circ> xorshift 16"
  by (simp add: fun_eq_iff hash32_def xorshift_def Let_def)

lemma hash64_steps:
  "hash64 = xorshift 33 \<circ> (\<lambda>x. x * 0xc4ceb9fe1a85ec53) \<circ> xorshift 33 \<circ> (\<lambda>x. x * 0xff51afd7ed558ccd) \<circ> xorshift 33"
  by (simp add: fun_eq_iff hash64_def xorshift_def Let_def)

lemma murmur_multipliers:
  "inj (\<lambda>x :: u32. x * 0x85ebca6b)" "inj (\<lambda>x :: u32. x * 0xc2b2ae35)"
  "inj (\<lambda>x :: 64 word. x * 0xff51afd7ed558ccd)" "inj (\<lambda>x :: 64 word. x * 0xc4ceb9fe1a85ec53)"
  by (rule inj_times [where d = "0xa5cb9243"], simp, rule inj_times [where d = "0x7ed1b41d"], simp,
      rule inj_times [where d = "0x4f74430c22a54005"], simp, rule inj_times [where d = "0x9cb4b2f8129337db"], simp)

lemma unat_minus_of_nat:
  assumes "0 < d" and "d < 2 ^ 64"
  shows "unat (- (of_nat d :: 64 word)) = 2 ^ 64 - d"
proof -
  have "(of_nat (2 ^ 64 - d) :: 64 word) = of_nat (2 ^ 64) - of_nat d"
    using assms by (intro of_nat_diff) simp
  then have "- (of_nat d :: 64 word) = of_nat (2 ^ 64 - d)" by simp
  then show ?thesis using assms by (simp only: unat_of_nat) simp
qed

lemma smear_step:
  fixes x y :: "'a :: len word"
  assumes "\<And>n. bit y n \<longleftrightarrow> (\<exists>j<k. bit x (n + j))"
  shows "bit (y OR drop_bit k y) n \<longleftrightarrow> (\<exists>j<2 * k. bit x (n + j))"
proof
  assume "bit (y OR drop_bit k y) n"
  then consider j where "j < k" "bit x (n + j)" | j where "j < k" "bit x (n + k + j)"
    by (auto simp: bit_or_iff bit_drop_bit_eq assms add.commute)
  then show "\<exists>j<2 * k. bit x (n + j)"
  proof cases
    case 1
    then show ?thesis by (intro exI [of _ j]) simp
  next
    case 2
    then show ?thesis by (intro exI [of _ "k + j"]) (simp add: add.assoc)
  qed
next
  assume "\<exists>j<2 * k. bit x (n + j)"
  then obtain j where j: "j < 2 * k" "bit x (n + j)" by blast
  show "bit (y OR drop_bit k y) n"
  proof (cases "j < k")
    case True
    then show ?thesis using j assms [of n] by (auto simp: bit_or_iff)
  next
    case False
    then have "bit y (n + k)" using j assms [of "n + k"] by (auto intro!: exI [of _ "j - k"])
    then show ?thesis by (simp add: bit_or_iff bit_drop_bit_eq add.commute)
  qed
qed

definition smear :: "size_t \<Rightarrow> size_t" where
  "smear x =
     (let x = x OR drop_bit 1 x;
          x = x OR drop_bit 2 x;
          x = x OR drop_bit 4 x
      in fold (\<lambda>i x. x OR drop_bit (8 * i) x) [1, 2, 4] x)"

lemma smear_doubles:
  fixes x y :: "'a :: len word"
  assumes "\<forall>n. bit y n \<longleftrightarrow> (\<exists>j<k. bit x (n + j))" and "m = 2 * k"
  shows "\<forall>n. bit (y OR drop_bit k y) n \<longleftrightarrow> (\<exists>j<m. bit x (n + j))"
  using smear_step [of y k x] assms by blast

lemma smear_bit: "bit (smear x) n \<longleftrightarrow> (\<exists>j<64. bit x (n + j))"
proof -
  have 1: "\<forall>n. bit x n \<longleftrightarrow> (\<exists>j<1. bit x (n + j))" by (simp add: less_Suc_eq)
  note 2 = smear_doubles [OF 1, of 2]
  note 4 = smear_doubles [OF 2 [OF mult_1_right [symmetric]], of 4]
  note 8 = smear_doubles [OF 4, of 8]
  note 16 = smear_doubles [OF 8, of 16]
  note 32 = smear_doubles [OF 16, of 32]
  note 64 = smear_doubles [OF 32, of 64]
  show ?thesis unfolding smear_def Let_def using 64 by simp
qed

lemma bit_le_unat: "bit (y :: size_t) n \<Longrightarrow> 2 ^ n \<le> unat y"
proof -
  assume "bit y n"
  then have "bit (unat y) n" by (simp add: bit_unsigned_iff)
  then have "odd (unat y div 2 ^ n)" by (simp add: bit_iff_odd)
  then have "unat y div 2 ^ n \<noteq> 0" by (metis even_zero)
  then show ?thesis by (simp add: div_eq_0_iff not_less)
qed

lemma top_bit: "2 ^ n \<le> unat (y :: size_t) \<Longrightarrow> unat y < 2 ^ Suc n \<Longrightarrow> bit y n"
proof -
  assume y: "2 ^ n \<le> unat y" "unat y < 2 ^ Suc n"
  then have "unat y div 2 ^ n = 1" by (intro div_nat_eqI) simp_all
  then have "bit (unat y) n" by (simp add: bit_iff_odd)
  then show ?thesis by (simp add: bit_unsigned_iff)
qed

lemma smear_mask:
  assumes "2 ^ k \<le> unat y" and "unat y < 2 ^ Suc k" and "k < 64"
  shows "smear y = mask (Suc k)"
proof (rule bit_word_eqI)
  fix n assume n: "n < LENGTH(64)"
  show "bit (smear y) n = bit (mask (Suc k) :: size_t) n"
  proof (cases "n \<le> k")
    case True
    then have "bit y (n + (k - n))" using top_bit [OF assms(1,2)] by simp
    moreover have "k - n < 64" using assms(3) by simp
    ultimately show ?thesis using True n by (auto simp: smear_bit bit_mask_iff)
  next
    case False
    have "\<not> bit y (n + j)" for j
    proof
      assume "bit y (n + j)"
      then have "2 ^ (n + j) \<le> unat y" by (rule bit_le_unat)
      moreover have "(2 :: nat) ^ Suc k \<le> 2 ^ (n + j)" using False by (intro power_increasing) simp_all
      ultimately show False using assms(2) by linarith
    qed
    then show ?thesis using False by (simp add: smear_bit bit_mask_iff)
  qed
qed


lemma circular_less_than_distance:
  assumes "d < 2 ^ 64"
  shows "circular_less_than a (a + of_nat d) \<longleftrightarrow> 0 < d \<and> d < 2 ^ 63"
proof -
  have "a - (a + of_nat d) = - (of_nat d :: 64 word)" by simp
  moreover have "unat (push_bit 63 1 :: 64 word) = 2 ^ 63" by (simp add: push_bit_eq_mult)
  ultimately show ?thesis
    unfolding circular_less_than_def word_less_nat_alt using assms unat_minus_of_nat [of d]
    by (cases "d = 0") auto
qed

lemma index_less_wraps:
  assumes "a \<le> b" and "b - a < 2 ^ 64"
  shows "circular_less_than (of_nat a) (of_nat b) \<longleftrightarrow> index_less a b"
proof -
  have "(of_nat b :: 64 word) = of_nat a + of_nat (b - a)" using assms(1) by simp
  then show ?thesis using circular_less_than_distance [OF assms(2), of "of_nat a"] by (auto simp: index_less_def)
qed

section \<open>Properties\<close>

text \<open>Distinct thread ids have distinct hashes, for both widths: the finalizers are injective.\<close>

theorem thread_hash_injective: "inj hash32 \<and> inj hash64"
  unfolding hash32_steps hash64_steps
  by (intro conjI inj_compose murmur_multipliers; rule inj_xorshift; simp)

text \<open>
  The comparison of wrapping 64-bit indices orders any two indices that are less than half the range apart,
  across the wrap-around too: \<open>a\<close> is below \<open>a + d\<close> exactly when \<open>d\<close> is positive and below 2 to the 63.
\<close>

theorem circular_less_than_window:
  assumes "d < 2 ^ 64"
  shows "circular_less_than a (a + of_nat d) \<longleftrightarrow> 0 < d \<and> d < 2 ^ 63"
  by (rule circular_less_than_distance [OF assms])

theorem circular_less_than_window_witness:
  "circular_less_than (- 2) (- 2 + of_nat 5) \<and> (- 2 + of_nat 5 :: 64 word) = 3"
  using circular_less_than_window [of 5 "- 2"] by simp

text \<open>
  \<open>ceil_to_pow_2\<close> returns the least power of two that is not below its argument, for arguments
  from 1 to 2 to the 63 (above, the result wraps to 0).
\<close>

theorem ceil_to_pow_2_least:
  assumes "0 < x" and "x \<le> 2 ^ 63"
  shows "\<exists>k. unat (ceil_to_pow_2 x) = 2 ^ k \<and> unat x \<le> 2 ^ k \<and> (k = 0 \<or> 2 ^ (k - 1) < unat x)"
proof -
  have ceil: "ceil_to_pow_2 x = smear (x - 1) + 1" by (simp add: ceil_to_pow_2_def smear_def Let_def)
  have ux: "unat x > 0" "unat x \<le> 2 ^ 63" "unat (x - 1) = unat x - 1"
    using assms by (simp_all add: unat_gt_0 word_le_nat_alt unat_sub [of 1 x] Suc_le_eq)
  show ?thesis
  proof (cases "unat x = 1")
    case True
    then have "x = 1" by (metis unat_1 word_unat_eq_iff)
    then show ?thesis by (intro exI [of _ 0]) (simp add: ceil_to_pow_2_def)
  next
    case False
    then have "unat (x - 1) > 0" using ux by simp
    then obtain k where k: "2 ^ k \<le> unat (x - 1)" "unat (x - 1) < 2 ^ (k + 1)"
      using ex_power_ivl1 [of 2 "unat (x - 1)"] by auto
    have "(2 :: nat) ^ k < 2 ^ 63" using k(1) ux by simp
    then have "k < 63" by (rule power_less_imp_less_exp [rotated]) simp
    have "(2 :: nat) ^ Suc k < 2 ^ 64" using \<open>k < 63\<close> by (intro power_strict_increasing) simp_all
    then have "unat (2 ^ Suc k :: size_t) = 2 ^ Suc k" using unat_of_nat_size [of "2 ^ Suc k"] by (simp only: of_nat_power of_nat_numeral)
    then have "unat (mask (Suc k) + 1 :: size_t) = 2 ^ Suc k" by (simp only: mask_eq_exp_minus_1 diff_add_cancel)
    then show ?thesis using smear_mask [of k "x - 1"] k \<open>k < 63\<close> ux by (intro exI [of _ "Suc k"]) (auto simp: ceil)
  qed
qed

theorem ceil_to_pow_2_least_witness:
  "\<exists>k. unat (ceil_to_pow_2 33) = 2 ^ k \<and> (33 :: nat) \<le> 2 ^ k \<and> (k = 0 \<or> 2 ^ (k - 1) < (33 :: nat))"
  using ceil_to_pow_2_least [of 33] by simp

end
