(* ===== verification/CQ_Block.thy ===== *)
theory CQ_Block
  imports CQ_Details
begin

unbundle bit_operations_syntax

text \<open>
  The blocks of \<open>ConcurrentQueue\<close> in \<open>concurrentqueue.h\<close>: storage for \<open>BLOCK_SIZE\<close> elements together
  with the bookkeeping that tells when all of them have been dequeued, by one flag per element
  for explicit producers with small blocks and by a counter otherwise.
\<close>

section \<open>Blocks\<close>

datatype InnerQueueContext = explicit_context | implicit_context

text \<open>\<open>None\<close> in \<open>elements\<close> is storage that holds no object.  Blocks are named by numbers; the links of the free list are in the pool.\<close>

record 'a block =
  elements :: "'a option list"
  next_block :: "nat option"
  elementsCompletelyDequeued :: nat
  emptyFlags :: "bool list"
  dynamicallyAllocated :: bool

definition Block :: "traits \<Rightarrow> 'a block" where
  "Block tr =
     \<lparr>elements = replicate (BLOCK_SIZE tr) None, next_block = None, elementsCompletelyDequeued = 0,
      emptyFlags = replicate (BLOCK_SIZE tr) False, dynamicallyAllocated = True\<rparr>"

definition uses_flags :: "traits \<Rightarrow> InnerQueueContext \<Rightarrow> bool" where
  "uses_flags tr ctx \<longleftrightarrow> ctx = explicit_context \<and> BLOCK_SIZE tr \<le> EXPLICIT_BLOCK_EMPTY_COUNTER_THRESHOLD tr"

definition is_empty :: "traits \<Rightarrow> InnerQueueContext \<Rightarrow> 'a block \<Rightarrow> bool" where
  "is_empty tr ctx b \<longleftrightarrow>
     (if uses_flags tr ctx then list_all (\<lambda>i. emptyFlags b ! i) [0..<BLOCK_SIZE tr]
      else elementsCompletelyDequeued b = BLOCK_SIZE tr)"

definition set_empty :: "traits \<Rightarrow> InnerQueueContext \<Rightarrow> nat \<Rightarrow> 'a block \<Rightarrow> 'a block \<times> bool" where
  "set_empty tr ctx i b =
     (if uses_flags tr ctx
      then (b\<lparr>emptyFlags := (emptyFlags b)[BLOCK_SIZE tr - 1 - block_offset tr i := True]\<rparr>, False)
      else (b\<lparr>elementsCompletelyDequeued := elementsCompletelyDequeued b + 1\<rparr>,
            elementsCompletelyDequeued b = BLOCK_SIZE tr - 1))"

text \<open>
  In \<open>set_many_empty\<close> the first flag is computed with unsigned arithmetic whose intermediate value may
  wrap below zero and come back: the integers compute the same index.
\<close>

definition set_many_empty :: "traits \<Rightarrow> InnerQueueContext \<Rightarrow> nat \<Rightarrow> nat \<Rightarrow> 'a block \<Rightarrow> 'a block \<times> bool" where
  "set_many_empty tr ctx i count b =
     (if uses_flags tr ctx
      then (let i' = nat (int (BLOCK_SIZE tr) - 1 - int (block_offset tr i) - int count + 1)
            in (b\<lparr>emptyFlags := fold (\<lambda>j fl. fl[i' + j := True]) [0..<count] (emptyFlags b)\<rparr>, False))
      else (b\<lparr>elementsCompletelyDequeued := elementsCompletelyDequeued b + count\<rparr>,
            elementsCompletelyDequeued b + count = BLOCK_SIZE tr))"

definition set_all_empty :: "traits \<Rightarrow> InnerQueueContext \<Rightarrow> 'a block \<Rightarrow> 'a block" where
  "set_all_empty tr ctx b =
     (if uses_flags tr ctx then b\<lparr>emptyFlags := replicate (BLOCK_SIZE tr) True\<rparr>
      else b\<lparr>elementsCompletelyDequeued := BLOCK_SIZE tr\<rparr>)"

definition reset_empty :: "traits \<Rightarrow> InnerQueueContext \<Rightarrow> 'a block \<Rightarrow> 'a block" where
  "reset_empty tr ctx b =
     (if uses_flags tr ctx then b\<lparr>emptyFlags := replicate (BLOCK_SIZE tr) False\<rparr>
      else b\<lparr>elementsCompletelyDequeued := 0\<rparr>)"

text \<open>\<open>operator[]\<close>: read the element, construct one in place, destroy it.\<close>

definition block_at :: "traits \<Rightarrow> 'a block \<Rightarrow> nat \<Rightarrow> 'a option" where
  "block_at tr b idx = elements b ! block_offset tr idx"

definition construct_at :: "traits \<Rightarrow> nat \<Rightarrow> 'a \<Rightarrow> 'a block \<Rightarrow> 'a block" where
  "construct_at tr idx x b = b\<lparr>elements := (elements b)[block_offset tr idx := Some x]\<rparr>"

definition destroy_at :: "traits \<Rightarrow> nat \<Rightarrow> 'a block \<Rightarrow> 'a block" where
  "destroy_at tr idx b = b\<lparr>elements := (elements b)[block_offset tr idx := None]\<rparr>"

section \<open>What the bookkeeping means\<close>

text \<open>
  \<open>emptied tr ctx b js\<close>: the bookkeeping of \<open>b\<close> says that exactly the offsets in \<open>js\<close> have been
  dequeued.
\<close>

definition emptied :: "traits \<Rightarrow> InnerQueueContext \<Rightarrow> 'a block \<Rightarrow> nat set \<Rightarrow> bool" where
  "emptied tr ctx b js \<longleftrightarrow>
     js \<subseteq> {..<BLOCK_SIZE tr} \<and>
     (if uses_flags tr ctx
      then length (emptyFlags b) = BLOCK_SIZE tr \<and> (\<forall>j<BLOCK_SIZE tr. emptyFlags b ! (BLOCK_SIZE tr - 1 - j) \<longleftrightarrow> j \<in> js)
      else elementsCompletelyDequeued b = card js)"

lemma emptied_reset: "emptied tr ctx (reset_empty tr ctx b) {}"
  by (simp add: emptied_def reset_empty_def)

lemma emptied_all: "emptied tr ctx (set_all_empty tr ctx b) {..<BLOCK_SIZE tr}"
  by (simp add: emptied_def set_all_empty_def)

lemma emptied_is_empty:
  assumes "emptied tr ctx b js"
  shows "is_empty tr ctx b \<longleftrightarrow> js = {..<BLOCK_SIZE tr}"
proof (cases "uses_flags tr ctx")
  case True
  have "(\<forall>i<BLOCK_SIZE tr. emptyFlags b ! i) \<longleftrightarrow> (\<forall>j<BLOCK_SIZE tr. emptyFlags b ! (BLOCK_SIZE tr - 1 - j))"
  proof (intro iffI allI impI)
    fix i assume all: "\<forall>j<BLOCK_SIZE tr. emptyFlags b ! (BLOCK_SIZE tr - 1 - j)" and i: "i < BLOCK_SIZE tr"
    have "BLOCK_SIZE tr - 1 - i < BLOCK_SIZE tr" using i by simp
    note all [rule_format, OF this]
    moreover have "BLOCK_SIZE tr - 1 - (BLOCK_SIZE tr - 1 - i) = i" using i by simp
    ultimately show "emptyFlags b ! i" by (simp only:)
  qed simp
  then show ?thesis using assms True by (auto simp: emptied_def is_empty_def list_all_iff)
next
  case False
  have "card js = BLOCK_SIZE tr \<longleftrightarrow> js = {..<BLOCK_SIZE tr}"
    using assms by (auto simp: emptied_def dest: card_subset_eq [rotated])
  then show ?thesis using assms False by (simp add: emptied_def is_empty_def)
qed

lemma emptied_set_empty:
  assumes "emptied tr ctx b js" and "block_offset tr i \<notin> js" and "BLOCK_SIZE tr > 0"
  shows "emptied tr ctx (fst (set_empty tr ctx i b)) (insert (block_offset tr i) js)"
proof -
  have o: "block_offset tr i < BLOCK_SIZE tr" using assms(3) by (simp add: block_offset_def)
  have fin: "finite js" using assms(1) by (auto simp: emptied_def intro: finite_subset)
  have "BLOCK_SIZE tr - Suc (block_offset tr i) = BLOCK_SIZE tr - Suc j \<longleftrightarrow> j = block_offset tr i"
    if "j < BLOCK_SIZE tr" for j using that o by auto
  then show ?thesis using assms o fin
    by (cases "uses_flags tr ctx") (simp_all add: emptied_def set_empty_def nth_list_update)
qed

text \<open>Setting a run of offsets at once is setting them one by one, in either representation.\<close>

lemma fold_set_flags_length: "length (fold (\<lambda>j fl. fl[i' + j := True]) [0..<n] fl) = length fl"
  by (induction n) simp_all

lemma fold_set_flags:
  "i' + n \<le> length fl \<Longrightarrow> k < length fl \<Longrightarrow>
   fold (\<lambda>j fl. fl[i' + j := True]) [0..<n] fl ! k = (fl ! k \<or> i' \<le> k \<and> k < i' + n)"
  by (induction n) (auto simp: nth_list_update fold_set_flags_length)

lemma emptied_set_many:
  assumes "emptied tr ctx b js" and "block_offset tr i + count \<le> BLOCK_SIZE tr" and "count > 0"
    and "js \<inter> {block_offset tr i..<block_offset tr i + count} = {}"
  shows "emptied tr ctx (fst (set_many_empty tr ctx i count b)) (js \<union> {block_offset tr i..<block_offset tr i + count})"
proof (cases "uses_flags tr ctx")
  case True
  let ?i = "nat (int (BLOCK_SIZE tr) - 1 - int (block_offset tr i) - int count + 1)"
  have len: "length (emptyFlags b) = BLOCK_SIZE tr" using assms(1) True by (simp add: emptied_def)
  have "?i + count = BLOCK_SIZE tr - block_offset tr i" using assms(2,3) by simp
  then have i: "?i + count \<le> length (emptyFlags b)" using len by simp
  have "?i \<le> BLOCK_SIZE tr - 1 - j \<and> BLOCK_SIZE tr - 1 - j < ?i + count
     \<longleftrightarrow> j \<in> {block_offset tr i..<block_offset tr i + count}" if "j < BLOCK_SIZE tr" for j
    using that assms(2,3) by auto
  then have "fold (\<lambda>j fl. fl[?i + j := True]) [0..<count] (emptyFlags b) ! (BLOCK_SIZE tr - 1 - j)
     \<longleftrightarrow> j \<in> js \<union> {block_offset tr i..<block_offset tr i + count}" if "j < BLOCK_SIZE tr" for j
    using that assms(1) True fold_set_flags [OF i, of "BLOCK_SIZE tr - 1 - j"] by (simp add: len emptied_def)
  then show ?thesis
    using assms(1,2) True by (auto simp: emptied_def set_many_empty_def Let_def len fold_set_flags_length)
next
  case False
  have "finite js" using assms(1) by (auto simp: emptied_def intro: finite_subset)
  then have "card (js \<union> {block_offset tr i..<block_offset tr i + count}) = card js + count"
    using assms(4) by (subst card_Un_disjoint) auto
  then show ?thesis using assms False by (auto simp: emptied_def set_many_empty_def)
qed

lemma emptied_fold:
  assumes "BLOCK_SIZE tr > 0"
  shows "emptied tr ctx b js \<Longrightarrow> distinct (map (block_offset tr) is) \<Longrightarrow> js \<inter> block_offset tr ` set is = {} \<Longrightarrow>
    emptied tr ctx (fold (\<lambda>i b. fst (set_empty tr ctx i b)) is b) (js \<union> block_offset tr ` set is)"
proof (induction "is" arbitrary: b js)
  case (Cons i "is")
  have "emptied tr ctx (fst (set_empty tr ctx i b)) (insert (block_offset tr i) js)"
    using Cons.prems assms by (intro emptied_set_empty) auto
  then have "emptied tr ctx (fold (\<lambda>i b. fst (set_empty tr ctx i b)) is (fst (set_empty tr ctx i b)))
    (insert (block_offset tr i) js \<union> block_offset tr ` set is)"
    using Cons.prems by (intro Cons.IH) auto
  then show ?case by simp
qed simp

section \<open>Properties\<close>

text \<open>
  Flags and counter agree: starting from a reset block, after \<open>set_empty\<close> for any distinct
  elements in any order, \<open>is_empty\<close> holds exactly when all \<open>BLOCK_SIZE\<close> elements have been marked.
\<close>

theorem block_empty_iff_all_marked:
  assumes "BLOCK_SIZE tr > 0" and "distinct (map (block_offset tr) is)"
  shows "is_empty tr ctx (fold (\<lambda>i b. fst (set_empty tr ctx i b)) is (reset_empty tr ctx b))
    \<longleftrightarrow> length is = BLOCK_SIZE tr"
proof -
  have e: "emptied tr ctx (fold (\<lambda>i b. fst (set_empty tr ctx i b)) is (reset_empty tr ctx b)) (block_offset tr ` set is)"
    using emptied_fold [OF assms(1) emptied_reset assms(2)] by simp
  have "card (block_offset tr ` set is) = length is" using distinct_card [OF assms(2)] by simp
  moreover have "block_offset tr ` set is \<subseteq> {..<BLOCK_SIZE tr}" using assms(1) by (auto simp: block_offset_def)
  ultimately show ?thesis unfolding emptied_is_empty [OF e]
    by (metis card_lessThan card_subset_eq finite_lessThan)
qed

theorem block_empty_iff_all_marked_witness:
  "is_empty (default_traits\<lparr>BLOCK_SIZE := 2\<rparr>) explicit_context
     (fold (\<lambda>i b. fst (set_empty (default_traits\<lparr>BLOCK_SIZE := 2\<rparr>) explicit_context i b)) [5, 4]
        (reset_empty (default_traits\<lparr>BLOCK_SIZE := 2\<rparr>) explicit_context (Block (default_traits\<lparr>BLOCK_SIZE := 2\<rparr>) :: nat block)))"
  using block_empty_iff_all_marked [of "default_traits\<lparr>BLOCK_SIZE := 2\<rparr>" "[5, 4]" explicit_context
      "Block (default_traits\<lparr>BLOCK_SIZE := 2\<rparr>)"]
  by (simp add: block_offset_def)

end
