(* ===== verification/CQ_Pool.thy ===== *)
theory CQ_Pool
  imports CQ_Block
begin

text \<open>
  The block pool of \<open>ConcurrentQueue\<close>: blocks allocated with the queue, blocks recycled through the
  free list, and blocks created on demand.  The pool also holds all blocks by number, so that the
  producers, which share it, can follow their links.  The free list is the stack it is without
  contention.  Whether the n-th allocation succeeds is the parameter \<open>malloc_ok\<close>.
\<close>

record 'a pool =
  heap :: "nat \<Rightarrow> 'a block"
  fresh :: nat
  mallocs :: nat
  initialBlockPoolSize :: nat
  initialBlockPoolIndex :: nat
  freeList :: "nat list"
  destroyed :: "nat list"

datatype AllocationMode = CanAlloc | CannotAlloc

definition upd_block :: "nat \<Rightarrow> ('a block \<Rightarrow> 'a block) \<Rightarrow> 'a pool \<Rightarrow> 'a pool" where
  "upd_block b f P = P\<lparr>heap := (heap P)(b := f (heap P b))\<rparr>"

definition malloc :: "(nat \<Rightarrow> bool) \<Rightarrow> 'a pool \<Rightarrow> bool \<times> 'a pool" where
  "malloc malloc_ok P = (malloc_ok (mallocs P), P\<lparr>mallocs := mallocs P + 1\<rparr>)"

definition empty_pool :: "traits \<Rightarrow> 'a pool" where
  "empty_pool tr =
     \<lparr>heap = (\<lambda>_. Block tr), fresh = 0, mallocs = 0, initialBlockPoolSize = 0, initialBlockPoolIndex = 0,
      freeList = [], destroyed = []\<rparr>"

text \<open>The initial blocks are numbered from 0.\<close>

definition populate_initial_block_list :: "(nat \<Rightarrow> bool) \<Rightarrow> traits \<Rightarrow> nat \<Rightarrow> 'a pool \<Rightarrow> 'a pool" where
  "populate_initial_block_list malloc_ok tr blockCount P =
     (if blockCount = 0 then P\<lparr>initialBlockPoolSize := 0\<rparr>
      else case malloc malloc_ok P of (ok, P) \<Rightarrow>
        if ok then P\<lparr>initialBlockPoolSize := blockCount, fresh := blockCount,
                     heap := (\<lambda>b. if b < blockCount then (Block tr)\<lparr>dynamicallyAllocated := False\<rparr> else heap P b)\<rparr>
        else P\<lparr>initialBlockPoolSize := 0\<rparr>)"

definition try_get_block_from_initial_pool :: "'a pool \<Rightarrow> nat option \<times> 'a pool" where
  "try_get_block_from_initial_pool P =
     (if initialBlockPoolIndex P \<ge> initialBlockPoolSize P then (None, P)
      else (let index = initialBlockPoolIndex P; P' = P\<lparr>initialBlockPoolIndex := index + 1\<rparr>
            in if index < initialBlockPoolSize P then (Some index, P') else (None, P')))"

definition add_block_to_free_list :: "traits \<Rightarrow> nat \<Rightarrow> 'a pool \<Rightarrow> 'a pool" where
  "add_block_to_free_list tr b P =
     (if \<not> RECYCLE_ALLOCATED_BLOCKS tr \<and> dynamicallyAllocated (heap P b) then P\<lparr>destroyed := b # destroyed P\<rparr>
      else P\<lparr>freeList := b # freeList P\<rparr>)"

definition try_get_block_from_free_list :: "'a pool \<Rightarrow> nat option \<times> 'a pool" where
  "try_get_block_from_free_list P =
     (case freeList P of [] \<Rightarrow> (None, P) | b # rest \<Rightarrow> (Some b, P\<lparr>freeList := rest\<rparr>))"

text \<open>\<open>create<Block>\<close>: memory and the constructor.\<close>

definition create_block :: "(nat \<Rightarrow> bool) \<Rightarrow> traits \<Rightarrow> 'a pool \<Rightarrow> nat option \<times> 'a pool" where
  "create_block malloc_ok tr P =
     (case malloc malloc_ok P of (ok, P) \<Rightarrow>
        if ok then (Some (fresh P), P\<lparr>heap := (heap P)(fresh P := Block tr), fresh := fresh P + 1\<rparr>) else (None, P))"

definition requisition_block :: "(nat \<Rightarrow> bool) \<Rightarrow> traits \<Rightarrow> AllocationMode \<Rightarrow> 'a pool \<Rightarrow> nat option \<times> 'a pool" where
  "requisition_block malloc_ok tr canAlloc P =
     (case try_get_block_from_initial_pool P of
        (Some b, P) \<Rightarrow> (Some b, P)
      | (None, P) \<Rightarrow> (case try_get_block_from_free_list P of
          (Some b, P) \<Rightarrow> (Some b, P)
        | (None, P) \<Rightarrow> if canAlloc = CanAlloc then create_block malloc_ok tr P else (None, P)))"

section \<open>The pool invariant\<close>

text \<open>
  \<open>available P\<close> are the blocks the pool can hand out again.  They are distinct, exist, and are not
  destroyed; \<open>in_use P\<close> are the others that have been handed out.  The blocks allocated with the queue are told
  by their flag, and never destroyed one by one.
\<close>

definition available :: "'a pool \<Rightarrow> nat list" where
  "available P = [initialBlockPoolIndex P..<initialBlockPoolSize P] @ freeList P"

definition in_use :: "'a pool \<Rightarrow> nat set" where
  "in_use P = {..<fresh P} - set (available P) - set (destroyed P)"

definition pool_ok :: "traits \<Rightarrow> 'a pool \<Rightarrow> bool" where
  "pool_ok tr P \<longleftrightarrow> distinct (available P @ destroyed P) \<and> set (available P @ destroyed P) \<subseteq> {..<fresh P}
     \<and> (\<forall>b. length (elements (heap P b)) = BLOCK_SIZE tr)
     \<and> initialBlockPoolSize P \<le> fresh P \<and> set (destroyed P) \<subseteq> {initialBlockPoolSize P..}
     \<and> (\<forall>b<fresh P. dynamicallyAllocated (heap P b) = (initialBlockPoolSize P \<le> b))"

definition same_blocks :: "nat set \<Rightarrow> 'a pool \<Rightarrow> 'a pool \<Rightarrow> bool" where
  "same_blocks B P P' \<longleftrightarrow> (\<forall>b\<in>B. heap P' b = heap P b)"

lemma upt_pop: "i < j \<Longrightarrow> [i..<j] = i # [Suc i..<j]"
  by (rule upt_conv_Cons)

lemma requisition_cases:
  obtains (none) P' where "requisition_block mo tr m P = (None, P')"
      "P' = P \<or> P' = P\<lparr>mallocs := mallocs P + 1\<rparr>" 
    | (initial) "requisition_block mo tr m P
        = (Some (initialBlockPoolIndex P), P\<lparr>initialBlockPoolIndex := initialBlockPoolIndex P + 1\<rparr>)"
        "initialBlockPoolIndex P < initialBlockPoolSize P"
    | (free) b rest where "requisition_block mo tr m P = (Some b, P\<lparr>freeList := rest\<rparr>)"
        "freeList P = b # rest" "initialBlockPoolSize P \<le> initialBlockPoolIndex P"
    | (created) "requisition_block mo tr m P = (Some (fresh P),
        P\<lparr>mallocs := mallocs P + 1, heap := (heap P)(fresh P := Block tr), fresh := fresh P + 1\<rparr>)"
        "freeList P = []" "initialBlockPoolSize P \<le> initialBlockPoolIndex P"
proof -
  show thesis
  proof (cases "initialBlockPoolIndex P < initialBlockPoolSize P")
    case True
    then show thesis by (intro initial) (simp_all add: requisition_block_def try_get_block_from_initial_pool_def Let_def)
  next
    case False
    show thesis
    proof (cases "freeList P")
      case Nil
      then have "requisition_block mo tr m P = (if m = CanAlloc then create_block mo tr P else (None, P))"
        using False by (simp add: requisition_block_def try_get_block_from_initial_pool_def
            try_get_block_from_free_list_def)
      then show thesis using False Nil none [of P] none [of "P\<lparr>mallocs := mallocs P + 1\<rparr>"] created
        by (cases "m = CanAlloc"; cases "mo (mallocs P)") (simp_all add: create_block_def malloc_def)
    next
      case (Cons b rest)
      then show thesis using False free
        by (simp add: requisition_block_def try_get_block_from_initial_pool_def try_get_block_from_free_list_def)
    qed
  qed
qed

lemma available_initial:
  "initialBlockPoolIndex P < initialBlockPoolSize P \<Longrightarrow>
   available P = initialBlockPoolIndex P # available (P\<lparr>initialBlockPoolIndex := initialBlockPoolIndex P + 1\<rparr>)"
  by (simp add: available_def upt_pop)

text \<open>Handing out a block takes it from the pool, and touches no block that is in use.\<close>

lemma requisition_ok:
  assumes "pool_ok tr P" and "requisition_block mo tr m P = (r, P')"
  shows "pool_ok tr P'" and "same_blocks (in_use P) P P'"
    and "r = None \<Longrightarrow> in_use P' = in_use P"
    and "r = Some b \<Longrightarrow> b \<notin> in_use P \<and> in_use P' = insert b (in_use P)"
proof -
  have "pool_ok tr P' \<and> same_blocks (in_use P) P P' \<and>
    (case r of None \<Rightarrow> in_use P' = in_use P | Some b \<Rightarrow> b \<notin> in_use P \<and> in_use P' = insert b (in_use P))"
  proof (cases rule: requisition_cases [of mo tr m P])
    case (none P'')
    then show ?thesis using assms by (auto simp: pool_ok_def same_blocks_def in_use_def available_def)
  next
    case initial
    let ?P = "P\<lparr>initialBlockPoolIndex := initialBlockPoolIndex P + 1\<rparr>"
    have "available P = initialBlockPoolIndex P # available ?P" by (rule available_initial [OF initial(2)])
    then show ?thesis using assms initial by (auto simp: pool_ok_def same_blocks_def in_use_def)
  next
    case (free b rest)
    then show ?thesis using assms by (auto simp: pool_ok_def same_blocks_def in_use_def available_def)
  next
    case created
    then show ?thesis using assms
      by (auto simp: pool_ok_def same_blocks_def in_use_def available_def Block_def)
  qed
  then show "pool_ok tr P'" "same_blocks (in_use P) P P'"
    "r = None \<Longrightarrow> in_use P' = in_use P" "r = Some b \<Longrightarrow> b \<notin> in_use P \<and> in_use P' = insert b (in_use P)"
    by simp_all
qed

lemma add_block_ok:
  assumes "pool_ok tr P" and "b \<in> in_use P"
  shows "pool_ok tr (add_block_to_free_list tr b P)" and "in_use (add_block_to_free_list tr b P) = in_use P - {b}"
    and "heap (add_block_to_free_list tr b P) = heap P"
  using assms by (auto simp: pool_ok_def in_use_def available_def add_block_to_free_list_def)

lemma populate_ok: "pool_ok tr (populate_initial_block_list mo tr n (empty_pool tr))"
  by (auto simp: populate_initial_block_list_def empty_pool_def malloc_def pool_ok_def available_def Block_def)

lemma populate_in_use: "in_use (populate_initial_block_list mo tr n (empty_pool tr)) = {}"
  by (auto simp: populate_initial_block_list_def empty_pool_def malloc_def in_use_def available_def)

lemma upd_block_ok:
  assumes "pool_ok tr P" and "length (elements (f (heap P b))) = BLOCK_SIZE tr"
    and "dynamicallyAllocated (f (heap P b)) = dynamicallyAllocated (heap P b)"
  shows "pool_ok tr (upd_block b f P)" and "in_use (upd_block b f P) = in_use P"
  using assms by (auto simp: pool_ok_def upd_block_def available_def in_use_def)

lemma upd_block_heap [simp]: "heap (upd_block b f P) = (heap P)(b := f (heap P b))"
  by (simp add: upd_block_def)

section \<open>Properties\<close>

text \<open>
  A requisitioned block is exclusively the requester's: it was not in use and becomes so, no block in use
  is touched, and the pool keeps its invariant (nothing available twice, nothing destroyed
  handed out).  When nothing is handed out the set of blocks in use is unchanged.
\<close>

theorem requisition_exclusive:
  assumes "pool_ok tr P" and "requisition_block mo tr m P = (r, P')"
  shows "pool_ok tr P' \<and> same_blocks (in_use P) P P'
    \<and> (case r of None \<Rightarrow> in_use P' = in_use P | Some b \<Rightarrow> b \<notin> in_use P \<and> in_use P' = insert b (in_use P))"
  using requisition_ok [OF assms] by (simp split: option.split)

theorem requisition_exclusive_witness:
  "\<exists>P' :: nat pool. requisition_block (\<lambda>_. True) default_traits CanAlloc (empty_pool default_traits) = (Some 0, P')
     \<and> in_use P' = insert 0 (in_use (empty_pool default_traits :: nat pool))"
proof -
  have "pool_ok default_traits (empty_pool default_traits :: nat pool)"
    by (simp add: pool_ok_def empty_pool_def available_def Block_def)
  moreover obtain P' :: "nat pool" where
    "requisition_block (\<lambda>_. True) default_traits CanAlloc (empty_pool default_traits) = (Some 0, P')"
    by (simp add: requisition_block_def try_get_block_from_initial_pool_def try_get_block_from_free_list_def
        create_block_def malloc_def empty_pool_def)
  ultimately show ?thesis using requisition_exclusive by fastforce
qed

end
