(* ===== verification/CQ_FreeList.thy ===== *)
theory CQ_FreeList
  imports Threads CQ_Pool
begin

text \<open>
  The lock-free \<open>FreeList\<close> of \<open>concurrentqueue.h\<close>, which holds the blocks that have been given back, under any interleaving of
  any number of threads: a step is one atomic access of one thread.  The reference count of a node keeps its width of
  32 bits; its highest bit says that the node should be on the list.  \<open>CQ_Pool\<close> uses the list as a stack, which is what
  a thread sees that is not disturbed: the last section proves it.
\<close>

section \<open>State and steps\<close>

definition REFS_MASK :: u32 where "REFS_MASK = 0x7FFFFFFF"
definition SHOULD_BE_ON_FREELIST :: u32 where "SHOULD_BE_ON_FREELIST = 0x80000000"

text \<open>Where \<open>add_knowing_refcount_is_zero\<close> returns to: the end of \<open>add\<close>, or the loop of \<open>try_get\<close> with its \<open>head\<close>.\<close>

datatype fcont = AddDone | TryAgain "nat option"

datatype fpc =
    F_Idle
  | A_flag nat
  | K_head fcont nat | K_next fcont nat "nat option" | K_refs fcont nat "nat option" | K_cas fcont nat "nat option"
  | K_back fcont nat "nat option"
  | G_load | G_refs nat | G_inc nat u32 | G_next nat | G_cas nat "nat option" | G_check nat | G_sub2 nat
  | G_dec nat "nat option"
  | F_Abort

text \<open>\<open>held\<close> is not in the code: the nodes that callers have, which they may add; nodes a caller has made anew among them.\<close>

record flist =
  freeListHead :: "nat option"
  freeListRefs :: "nat \<Rightarrow> u32"
  freeListNext :: "nat \<Rightarrow> nat option"
  fpc :: "nat \<Rightarrow> fpc"
  held :: "nat \<Rightarrow> bool"

definition FreeList :: flist where
  "FreeList = \<lparr>freeListHead = None, freeListRefs = (\<lambda>_. 0), freeListNext = (\<lambda>_. None), fpc = (\<lambda>_. F_Idle), held = (\<lambda>_. True)\<rparr>"

definition goes :: "nat \<Rightarrow> fpc \<Rightarrow> flist \<Rightarrow> flist" where
  "goes t p s = s\<lparr>fpc := (fpc s)(t := p)\<rparr>"

definition set_refs :: "nat \<Rightarrow> u32 \<Rightarrow> flist \<Rightarrow> flist" where
  "set_refs n r s = s\<lparr>freeListRefs := (freeListRefs s)(n := r)\<rparr>"

text \<open>The test of the loop of \<open>try_get\<close>.\<close>

definition try_loop :: "nat option \<Rightarrow> fpc" where
  "try_loop head = (case head of None \<Rightarrow> F_Idle | Some n \<Rightarrow> G_refs n)"

definition returns_to :: "fcont \<Rightarrow> fpc" where
  "returns_to k = (case k of AddDone \<Rightarrow> F_Idle | TryAgain head \<Rightarrow> try_loop head)"

datatype fl_input = FAdd nat | FTryGet | FGo

text \<open>A caller adds a node it has, and takes one.\<close>

definition fl_call :: "nat \<Rightarrow> fl_input \<Rightarrow> flist \<Rightarrow> flist option" where
  "fl_call t inp s =
     (if fpc s t \<noteq> F_Idle then None
      else case inp of
        FAdd n \<Rightarrow> if held s n then Some (goes t (A_flag n) (s\<lparr>held := (held s)(n := False)\<rparr>)) else None
      | FTryGet \<Rightarrow> Some (goes t G_load s)
      | FGo \<Rightarrow> None)"

definition add_step :: "nat \<Rightarrow> flist \<Rightarrow> flist option" where
  "add_step t s =
     (case fpc s t of
        A_flag n \<Rightarrow>
          let old = freeListRefs s n in
          Some (goes t (if old = 0 then K_head AddDone n else F_Idle) (set_refs n (old + SHOULD_BE_ON_FREELIST) s))
      | _ \<Rightarrow> None)"

definition add_knowing_refcount_is_zero_step :: "nat \<Rightarrow> flist \<Rightarrow> flist option" where
  "add_knowing_refcount_is_zero_step t s =
     (case fpc s t of
        K_head k n \<Rightarrow> Some (goes t (K_next k n (freeListHead s)) s)
      | K_next k n head \<Rightarrow> Some (goes t (K_refs k n head) (s\<lparr>freeListNext := (freeListNext s)(n := head)\<rparr>))
      | K_refs k n head \<Rightarrow> Some (goes t (K_cas k n head) (set_refs n 1 s))
      | K_cas k n head \<Rightarrow>
          Some (if freeListHead s = head then goes t (returns_to k) (s\<lparr>freeListHead := Some n\<rparr>)
                else goes t (K_back k n (freeListHead s)) s)
      | K_back k n head \<Rightarrow>
          let old = freeListRefs s n in
          Some (goes t (if old = 1 then K_next k n head else returns_to k) (set_refs n (old + (SHOULD_BE_ON_FREELIST - 1)) s))
      | _ \<Rightarrow> None)"

definition try_get_step :: "nat \<Rightarrow> flist \<Rightarrow> flist option" where
  "try_get_step t s =
     (case fpc s t of
        G_load \<Rightarrow> Some (goes t (try_loop (freeListHead s)) s)
      | G_refs n \<Rightarrow>
          let refs = freeListRefs s n in Some (goes t (if refs AND REFS_MASK = 0 then G_load else G_inc n refs) s)
      | G_inc n refs \<Rightarrow>
          Some (if freeListRefs s n = refs then goes t (G_next n) (set_refs n (refs + 1) s) else goes t G_load s)
      | G_next n \<Rightarrow> Some (goes t (G_cas n (freeListNext s n)) s)
      | G_cas n nxt \<Rightarrow>
          Some (if freeListHead s = Some n then goes t (G_check n) (s\<lparr>freeListHead := nxt\<rparr>)
                else goes t (G_dec n (freeListHead s)) s)
      | G_check n \<Rightarrow> Some (goes t (if freeListRefs s n AND SHOULD_BE_ON_FREELIST = 0 then G_sub2 n else F_Abort) s)
      | G_sub2 n \<Rightarrow> Some (goes t F_Idle ((set_refs n (freeListRefs s n - 2) s)\<lparr>held := (held s)(n := True)\<rparr>))
      | G_dec n head \<Rightarrow>
          let old = freeListRefs s n in
          Some (goes t (if old = SHOULD_BE_ON_FREELIST + 1 then K_head (TryAgain head) n else try_loop head)
                 (set_refs n (old - 1) s))
      | _ \<Rightarrow> None)"

definition fl_step :: "nat \<Rightarrow> fl_input \<Rightarrow> flist \<Rightarrow> flist option" where
  "fl_step t inp s =
     (if inp \<noteq> FGo then fl_call t inp s
      else case add_step t s of
        Some s' \<Rightarrow> Some s'
      | None \<Rightarrow> (case add_knowing_refcount_is_zero_step t s of
          Some s' \<Rightarrow> Some s'
        | None \<Rightarrow> try_get_step t s))"

text \<open>What the threads below \<open>threads\<close> can do to a new list.\<close>

inductive fl_reach :: "nat \<Rightarrow> flist \<Rightarrow> bool" for threads where
  start: "fl_reach threads FreeList"
| step: "fl_reach threads s \<Longrightarrow> t < threads \<Longrightarrow> fl_step t inp s = Some s' \<Longrightarrow> fl_reach threads s'"

fun fl_run :: "(nat \<times> fl_input) list \<Rightarrow> flist \<Rightarrow> flist option" where
  "fl_run [] s = Some s"
| "fl_run ((t, inp) # sched) s = (case fl_step t inp s of None \<Rightarrow> None | Some s' \<Rightarrow> fl_run sched s')"

lemma fl_run_reach: "fl_reach threads s \<Longrightarrow> fl_run sched s = Some s' \<Longrightarrow> fst ` set sched \<subseteq> {..<threads} \<Longrightarrow> fl_reach threads s'"
  by (induction sched s rule: fl_run.induct) (auto split: option.splits intro: fl_reach.step)

section \<open>The invariant\<close>

text \<open>
  What a thread has to do with node \<open>n\<close>: it is about to flag it, is adding it with the count at zero or with the count
  of the list, has just taken it, or has a reference to it.
\<close>

fun flagging :: "nat \<Rightarrow> fpc \<Rightarrow> int" where
  "flagging n (A_flag m) = of_bool (m = n)"
| "flagging n p = 0"

fun adding0 :: "nat \<Rightarrow> fpc \<Rightarrow> int" where
  "adding0 n (K_head k m) = of_bool (m = n)"
| "adding0 n (K_next k m h) = of_bool (m = n)"
| "adding0 n (K_refs k m h) = of_bool (m = n)"
| "adding0 n p = 0"

fun adding1 :: "nat \<Rightarrow> fpc \<Rightarrow> int" where
  "adding1 n (K_cas k m h) = of_bool (m = n)"
| "adding1 n (K_back k m h) = of_bool (m = n)"
| "adding1 n p = 0"

fun taking :: "nat \<Rightarrow> fpc \<Rightarrow> int" where
  "taking n (G_check m) = of_bool (m = n)"
| "taking n (G_sub2 m) = of_bool (m = n)"
| "taking n p = 0"

fun referring :: "nat \<Rightarrow> fpc \<Rightarrow> int" where
  "referring n (G_next m) = of_bool (m = n)"
| "referring n (G_cas m x) = of_bool (m = n)"
| "referring n (G_check m) = of_bool (m = n)"
| "referring n (G_sub2 m) = of_bool (m = n)"
| "referring n (G_dec m h) = of_bool (m = n)"
| "referring n p = 0"

text \<open>
  The account of one node: callers, threads and the list have it at most once; its count is the number of references, with
  one more while the list has it and with the flag while nobody has it or it is being added at zero.
\<close>

definition node_ok :: "int \<Rightarrow> int \<Rightarrow> int \<Rightarrow> int \<Rightarrow> int \<Rightarrow> int \<Rightarrow> int \<Rightarrow> int \<Rightarrow> bool" where
  "node_ok h a z o' l p c r \<longleftrightarrow>
     h + a + z + o' + l + p \<le> 1
     \<and> r = c + o' + l + p + 2 ^ 31 * of_bool (h + a + z + o' + l + p = 0 \<or> z > 0)
     \<and> (h + a + z + o' + l + p = 0 \<longrightarrow> c > 0) \<and> (z > 0 \<longrightarrow> c = 0)"

primrec chain :: "(nat \<Rightarrow> nat option) \<Rightarrow> nat option \<Rightarrow> nat list \<Rightarrow> bool" where
  "chain nxt h [] \<longleftrightarrow> h = None"
| "chain nxt h (n # L) \<longleftrightarrow> h = Some n \<and> chain nxt (nxt n) L"

text \<open>What a thread knows of the next pointer of its node, and of the count it wants to increase.\<close>

fun pc_ok :: "(nat \<Rightarrow> nat option) \<Rightarrow> fpc \<Rightarrow> bool" where
  "pc_ok nxt (G_inc n r) \<longleftrightarrow> r AND REFS_MASK \<noteq> 0"
| "pc_ok nxt (G_cas n x) \<longleftrightarrow> nxt n = x"
| "pc_ok nxt (K_refs k n h) \<longleftrightarrow> nxt n = h"
| "pc_ok nxt (K_cas k n h) \<longleftrightarrow> nxt n = h"
| "pc_ok nxt F_Abort \<longleftrightarrow> False"
| "pc_ok nxt p \<longleftrightarrow> True"

abbreviation tally :: "(nat \<Rightarrow> fpc \<Rightarrow> int) \<Rightarrow> nat \<Rightarrow> (nat \<Rightarrow> fpc) \<Rightarrow> int" where
  "tally w n f \<equiv> thread_sum F_Idle (w n) f"

definition fl_inv :: "nat \<Rightarrow> flist \<Rightarrow> nat list \<Rightarrow> bool" where
  "fl_inv threads s L \<longleftrightarrow>
     chain (freeListNext s) (freeListHead s) L \<and> distinct L
     \<and> (\<forall>n. node_ok (of_bool (held s n)) (tally flagging n (fpc s)) (tally adding0 n (fpc s)) (tally adding1 n (fpc s))
             (of_bool (n \<in> set L)) (tally taking n (fpc s)) (tally referring n (fpc s)) (uint (freeListRefs s n)))
     \<and> (\<forall>t. pc_ok (freeListNext s) (fpc s t))
     \<and> (\<forall>t\<ge>threads. fpc s t = F_Idle)"

lemma weights_nonneg [simp]: "0 \<le> flagging n p" "0 \<le> adding0 n p" "0 \<le> adding1 n p" "0 \<le> taking n p" "0 \<le> referring n p"
  by (cases p; simp)+

lemma tally_nonneg: "0 \<le> tally flagging n f" "0 \<le> tally adding0 n f" "0 \<le> tally adding1 n f" "0 \<le> tally taking n f" "0 \<le> tally referring n f"
  by (simp_all add: thread_sum_nonneg)

lemma fin_threads_below: "\<forall>t\<ge>threads. f t = idle \<Longrightarrow> fin_threads idle f"
  unfolding fin_threads_def by (rule finite_subset [of _ "{..<threads}"]) (auto simp: not_less [symmetric])

lemma referring_bound:
  assumes "\<forall>t\<ge>threads. f t = F_Idle"
  shows "tally referring n f \<le> int threads"
proof -
  have sub: "{t. f t \<noteq> F_Idle} \<subseteq> {..<threads}" using assms by (auto simp: not_less [symmetric])
  have "referring n p \<le> 1" for p by (cases p) auto
  then have "tally referring n f \<le> (\<Sum>t | f t \<noteq> F_Idle. 1)" unfolding thread_sum_def by (intro sum_mono)
  also have "\<dots> = int (card {t. f t \<noteq> F_Idle})" by simp
  also have "\<dots> \<le> int threads" using card_mono [OF _ sub] by simp
  finally show ?thesis .
qed

lemma fl_inv_start: "fl_inv threads FreeList []"
  by (simp add: fl_inv_def FreeList_def node_ok_def)

section \<open>Counts of 32 bits\<close>

lemma u32_add: "uint x + uint y < 2 ^ 32 \<Longrightarrow> uint (x + y :: u32) = uint x + uint y"
  by (simp add: uint_word_ariths)

lemma u32_sub: "uint y \<le> uint x \<Longrightarrow> uint (x - y :: u32) = uint x - uint y"
proof -
  assume le: "uint y \<le> uint x"
  have "uint x < 2 ^ 32" using uint_lt2p [of x] by simp
  moreover have "0 \<le> uint y" by simp
  ultimately have "uint x - uint y < 2 ^ 32" by linarith
  then show ?thesis using le by (simp add: uint_word_ariths)
qed

lemma flag_uint: "uint SHOULD_BE_ON_FREELIST = 2 ^ 31"
  by (simp add: SHOULD_BE_ON_FREELIST_def)

lemma refs_mask: "x AND REFS_MASK = 0 \<longleftrightarrow> uint x mod 2 ^ 31 = 0"
proof -
  have m: "REFS_MASK = mask 31" by (simp add: REFS_MASK_def mask_eq_exp_minus_1)
  have "x AND REFS_MASK = 0 \<longleftrightarrow> uint (take_bit 31 x) = 0" unfolding m take_bit_eq_mask [symmetric] by (simp add: uint_0_iff)
  also have "uint (take_bit 31 x) = uint x mod 2 ^ 31" by (simp add: unsigned_take_bit_eq take_bit_eq_mod uint_mod)
  finally show ?thesis .
qed

lemma flag_clear: "uint x < 2 ^ 31 \<Longrightarrow> x AND SHOULD_BE_ON_FREELIST = 0"
proof (rule bit_word_eqI)
  fix i assume small: "uint x < 2 ^ 31"
  have flag: "SHOULD_BE_ON_FREELIST = 2 ^ 31" by (simp add: SHOULD_BE_ON_FREELIST_def)
  have "bit SHOULD_BE_ON_FREELIST i \<longleftrightarrow> i = 31" if "i < 32" unfolding flag bit_exp_iff using that by auto
  moreover have "\<not> bit x 31"
  proof -
    have "bit (uint x) 31 = odd (uint x div 2 ^ 31)" by (simp add: bit_iff_odd)
    also have "uint x div 2 ^ 31 = 0" using small by (simp add: div_pos_pos_trivial)
    finally show ?thesis by (simp add: bit_uint_iff)
  qed
  ultimately show "i < LENGTH(32) \<Longrightarrow> bit (x AND SHOULD_BE_ON_FREELIST) i = bit (0 :: u32) i" by (auto simp: bit_and_iff)
qed

section \<open>Every step keeps the invariant\<close>

text \<open>A step of thread \<open>t\<close> that concerns node \<open>n\<close> only.\<close>

lemma fl_inv_upd:
  assumes "fl_inv threads s L" and "t < threads"
    and "\<And>m. m \<noteq> n \<Longrightarrow> flagging m p = flagging m (fpc s t) \<and> adding0 m p = adding0 m (fpc s t) \<and> adding1 m p = adding1 m (fpc s t)
          \<and> taking m p = taking m (fpc s t) \<and> referring m p = referring m (fpc s t) \<and> (m \<in> set L' \<longleftrightarrow> m \<in> set L)"
    and "node_ok (of_bool b) (tally flagging n (fpc s) + flagging n p - flagging n (fpc s t))
          (tally adding0 n (fpc s) + adding0 n p - adding0 n (fpc s t)) (tally adding1 n (fpc s) + adding1 n p - adding1 n (fpc s t))
          (of_bool (n \<in> set L')) (tally taking n (fpc s) + taking n p - taking n (fpc s t))
          (tally referring n (fpc s) + referring n p - referring n (fpc s t)) (uint r)"
    and "chain nxt head L'" and "distinct L'" and "pc_ok nxt p" and "\<And>u. u \<noteq> t \<Longrightarrow> pc_ok nxt (fpc s u)"
  shows "fl_inv threads \<lparr>freeListHead = head, freeListRefs = (freeListRefs s)(n := r), freeListNext = nxt,
    fpc = (fpc s)(t := p), held = (held s)(n := b)\<rparr> L'"
proof -
  have idle: "\<forall>t\<ge>threads. fpc s t = F_Idle" and ok: "\<And>m. node_ok (of_bool (held s m)) (tally flagging m (fpc s)) (tally adding0 m (fpc s))
      (tally adding1 m (fpc s)) (of_bool (m \<in> set L)) (tally taking m (fpc s)) (tally referring m (fpc s)) (uint (freeListRefs s m))"
    using assms(1) by (simp_all add: fl_inv_def)
  note fin = fin_threads_below [OF idle]
  have upd: "tally w m ((fpc s)(t := p)) = tally w m (fpc s) + w m p - w m (fpc s t)" if "w m F_Idle = 0" for w m
    using thread_sum_upd [where w = "w m" and f = "fpc s" and t = t and p = p, OF fin that] .
  have "node_ok (of_bool (((held s)(n := b)) m)) (tally flagging m ((fpc s)(t := p))) (tally adding0 m ((fpc s)(t := p)))
      (tally adding1 m ((fpc s)(t := p))) (of_bool (m \<in> set L')) (tally taking m ((fpc s)(t := p)))
      (tally referring m ((fpc s)(t := p))) (uint (((freeListRefs s)(n := r)) m))" for m
    using assms(3) [of m] assms(4) ok [of m] by (cases "m = n") (simp_all add: upd)
  then show ?thesis using assms(2,5-8) idle unfolding fl_inv_def by simp
qed

text \<open>A step that changes nothing but what the thread does next.\<close>

lemma fl_inv_goes:
  assumes "fl_inv threads s L" and "t < threads"
    and "\<And>m. flagging m p = flagging m (fpc s t) \<and> adding0 m p = adding0 m (fpc s t) \<and> adding1 m p = adding1 m (fpc s t)
          \<and> taking m p = taking m (fpc s t) \<and> referring m p = referring m (fpc s t)"
    and "pc_ok (freeListNext s) p"
  shows "fl_inv threads (goes t p s) L"
proof -
  have "fl_inv threads \<lparr>freeListHead = freeListHead s, freeListRefs = (freeListRefs s)(0 := freeListRefs s 0), freeListNext = freeListNext s,
    fpc = (fpc s)(t := p), held = (held s)(0 := held s 0)\<rparr> L"
    by (rule fl_inv_upd [OF assms(1,2)]) (use assms in \<open>auto simp: fl_inv_def\<close>)
  then show ?thesis by (cases s) (simp add: goes_def)
qed

text \<open>The numbers of a node and a thread at \<open>q\<close>, and what they are at each kind of place.\<close>

definition account :: "nat \<Rightarrow> fpc \<Rightarrow> int \<Rightarrow> int \<Rightarrow> int \<Rightarrow> int \<Rightarrow> int \<Rightarrow> int \<Rightarrow> int \<Rightarrow> int \<Rightarrow> bool" where
  "account n q h a z o' l p c r \<longleftrightarrow>
     node_ok h a z o' l p c r \<and> 0 \<le> h \<and> 0 \<le> a \<and> 0 \<le> z \<and> 0 \<le> o' \<and> 0 \<le> l \<and> 0 \<le> p \<and> 0 \<le> c \<and> c < 2 ^ 31 - 2
     \<and> flagging n q \<le> a \<and> adding0 n q \<le> z \<and> adding1 n q \<le> o' \<and> taking n q \<le> p \<and> referring n q \<le> c"

lemma account_flagging:
  assumes "account n q h a z o' l p c r" and "flagging n q = 1"
  shows "h = 0" "a = 1" "z = 0" "o' = 0" "l = 0" "p = 0" "r = c" "0 \<le> c" "c < 2 ^ 31 - 2"
  using assms by (auto simp: account_def node_ok_def)

lemma account_zero:
  assumes "account n q h a z o' l p c r" and "z > 0"
  shows "h = 0" "a = 0" "z = 1" "o' = 0" "l = 0" "p = 0" "c = 0" "r = 2 ^ 31"
  using assms by (auto simp: account_def node_ok_def)

lemma account_adding0:
  assumes "account n q h a z o' l p c r" and "adding0 n q = 1"
  shows "h = 0" "a = 0" "z = 1" "o' = 0" "l = 0" "p = 0" "c = 0" "r = 2 ^ 31"
  using assms by (auto simp: account_def node_ok_def)

lemma account_adding1:
  assumes "account n q h a z o' l p c r" and "adding1 n q = 1"
  shows "h = 0" "a = 0" "z = 0" "o' = 1" "l = 0" "p = 0" "r = c + 1" "0 \<le> c" "c < 2 ^ 31 - 2"
  using assms by (auto simp: account_def node_ok_def)

lemma account_taking:
  assumes "account n q h a z o' l p c r" and "taking n q = 1" and "referring n q = 1"
  shows "h = 0" "a = 0" "z = 0" "o' = 0" "l = 0" "p = 1" "r = c + 1" "1 \<le> c" "c < 2 ^ 31 - 2"
  using assms by (auto simp: account_def node_ok_def)

lemma account_referring:
  assumes "account n q h a z o' l p c r" and "referring n q = 1"
  shows "z = 0" "1 \<le> c" "c < 2 ^ 31 - 2" "h + a + o' + l + p \<le> 1" "0 \<le> h" "0 \<le> a" "0 \<le> o'" "0 \<le> l" "0 \<le> p"
    "r = c + o' + l + p + 2 ^ 31 * of_bool (h + a + o' + l + p = 0)"
  using assms by (auto simp: account_def node_ok_def)

lemma fl_inv_account:
  assumes "fl_inv threads s L" and "int threads < 2 ^ 31 - 2"
  shows "account n (fpc s t) (of_bool (held s n)) (tally flagging n (fpc s)) (tally adding0 n (fpc s)) (tally adding1 n (fpc s))
    (of_bool (n \<in> set L)) (tally taking n (fpc s)) (tally referring n (fpc s)) (uint (freeListRefs s n))"
proof -
  have idle: "\<forall>t\<ge>threads. fpc s t = F_Idle" using assms(1) by (simp add: fl_inv_def)
  have le: "w n (fpc s t) \<le> tally w n (fpc s)" if "\<And>p. 0 \<le> w n p" "w n F_Idle = 0" for w :: "nat \<Rightarrow> fpc \<Rightarrow> int"
  proof (cases "fpc s t = F_Idle")
    case True
    then show ?thesis using that thread_sum_nonneg [of "w n" F_Idle "fpc s"] by simp
  next
    case False
    then show ?thesis using thread_sum_pos [where w = "w n" and f = "fpc s" and t = t, OF fin_threads_below [OF idle]] that by auto
  qed
  show ?thesis using assms(1) referring_bound [OF idle, of n] assms(2)
    by (simp add: account_def fl_inv_def tally_nonneg le)
qed

text \<open>A step of thread \<open>t\<close> at \<open>q\<close> that concerns node \<open>n\<close> only, with the account of the node to settle.\<close>

lemma fl_inv_step:
  assumes inv: "fl_inv threads s L" and small: "int threads < 2 ^ 31 - 2" and "t < threads" and pc: "fpc s t = q"
    and "\<And>m. m \<noteq> n \<Longrightarrow> flagging m p = flagging m q \<and> adding0 m p = adding0 m q \<and> adding1 m p = adding1 m q
          \<and> taking m p = taking m q \<and> referring m p = referring m q \<and> (m \<in> set L' \<longleftrightarrow> m \<in> set L)"
    and "\<And>a z o' v c. account n q (of_bool (held s n)) a z o' (of_bool (n \<in> set L)) v c (uint (freeListRefs s n)) \<Longrightarrow>
          node_ok (of_bool b) (a + flagging n p - flagging n q) (z + adding0 n p - adding0 n q) (o' + adding1 n p - adding1 n q)
            (of_bool (n \<in> set L')) (v + taking n p - taking n q) (c + referring n p - referring n q) (uint r)"
    and "chain nxt head L'" and "distinct L'" and "pc_ok nxt p" and "\<And>u. u \<noteq> t \<Longrightarrow> pc_ok nxt (fpc s u)"
    and "s' = \<lparr>freeListHead = head, freeListRefs = (freeListRefs s)(n := r), freeListNext = nxt, fpc = (fpc s)(t := p),
               held = (held s)(n := b)\<rparr>"
  shows "fl_inv threads s' L'"
  unfolding assms(11)
proof (rule fl_inv_upd [OF inv assms(3) _ _ assms(7-10)])
  note acc = fl_inv_account [OF inv small, of n t, unfolded pc]
  show "node_ok (of_bool b) (tally flagging n (fpc s) + flagging n p - flagging n (fpc s t))
      (tally adding0 n (fpc s) + adding0 n p - adding0 n (fpc s t)) (tally adding1 n (fpc s) + adding1 n p - adding1 n (fpc s t))
      (of_bool (n \<in> set L')) (tally taking n (fpc s) + taking n p - taking n (fpc s t))
      (tally referring n (fpc s) + referring n p - referring n (fpc s t)) (uint r)"
    unfolding pc by (rule assms(6) [OF acc])
qed (use assms(5) pc in blast)+

lemma add_step_inv:
  assumes inv: "fl_inv threads s L" and small: "int threads < 2 ^ 31 - 2" and "t < threads" and step: "add_step t s = Some s'"
  shows "fl_inv threads s' L"
proof -
  obtain n where pc: "fpc s t = A_flag n" using step by (auto simp: add_step_def split: fpc.splits)
  let ?old = "freeListRefs s n"
  let ?p = "if ?old = 0 then K_head AddDone n else F_Idle"
  show ?thesis
  proof (rule fl_inv_step [OF inv small assms(3) pc, where n = n and p = ?p and b = "held s n" and r = "?old + SHOULD_BE_ON_FREELIST"])
    fix a z o' v c
    assume acc: "account n (A_flag n) (of_bool (held s n)) a z o' (of_bool (n \<in> set L)) v c (uint ?old)"
    have one: "flagging n (A_flag n) = 1" by simp
    note old = account_flagging [OF acc one]
    have "uint (?old + SHOULD_BE_ON_FREELIST) = c + 2 ^ 31"
      using u32_add [of ?old SHOULD_BE_ON_FREELIST] old by (simp add: flag_uint)
    moreover have "?old = 0 \<longleftrightarrow> c = 0" using old(7) by (auto simp flip: uint_0_iff)
    ultimately show "node_ok (of_bool (held s n)) (a + flagging n ?p - flagging n (A_flag n)) (z + adding0 n ?p - adding0 n (A_flag n))
        (o' + adding1 n ?p - adding1 n (A_flag n)) (of_bool (n \<in> set L)) (v + taking n ?p - taking n (A_flag n))
        (c + referring n ?p - referring n (A_flag n)) (uint (?old + SHOULD_BE_ON_FREELIST))"
      using old(1-6,8) by (auto simp: node_ok_def)
  next
    show "s' = \<lparr>freeListHead = freeListHead s, freeListRefs = (freeListRefs s)(n := ?old + SHOULD_BE_ON_FREELIST),
      freeListNext = freeListNext s, fpc = (fpc s)(t := ?p), held = (held s)(n := held s n)\<rparr>"
      using step pc by (cases s) (auto simp: add_step_def goes_def set_refs_def Let_def)
  qed (use inv in \<open>auto simp: fl_inv_def\<close>)
qed

lemma try_loop_weights [simp]:
  "flagging m (try_loop h) = 0" "adding0 m (try_loop h) = 0" "adding1 m (try_loop h) = 0" "taking m (try_loop h) = 0"
  "referring m (try_loop h) = 0" "pc_ok nxt (try_loop h)"
  by (simp_all add: try_loop_def split: option.split)

lemma returns_to_weights [simp]:
  "flagging m (returns_to k) = 0" "adding0 m (returns_to k) = 0" "adding1 m (returns_to k) = 0" "taking m (returns_to k) = 0"
  "referring m (returns_to k) = 0" "pc_ok nxt (returns_to k)"
  by (simp_all add: returns_to_def split: fcont.split)

lemma chain_update: "n \<notin> set L \<Longrightarrow> chain (nxt(n := x)) h L = chain nxt h L"
  by (induction L arbitrary: h) auto

text \<open>Only the thread that adds a node at count zero writes its next pointer, and no other relies on it.\<close>

lemma next_written:
  assumes inv: "fl_inv threads s L" and small: "int threads < 2 ^ 31 - 2" and pc: "fpc s t = K_next k n x"
  shows "n \<notin> set L" and "u \<noteq> t \<Longrightarrow> pc_ok ((freeListNext s)(n := y)) (fpc s u)"
proof -
  have one: "adding0 n (K_next k n x) = 1" by simp
  note counts = account_adding0 [OF fl_inv_account [OF inv small, of n t, unfolded pc] one]
  show "n \<notin> set L" using counts(5) by auto
  assume u: "u \<noteq> t"
  have idle: "\<forall>t\<ge>threads. fpc s t = F_Idle" and ok: "pc_ok (freeListNext s) (fpc s u)" using inv by (simp_all add: fl_inv_def)
  note fin = fin_threads_below [OF idle]
  have le: "w (fpc s u) \<le> thread_sum F_Idle w (fpc s) - w (fpc s t)" if "\<And>p. 0 \<le> w p" "w F_Idle = 0" for w
  proof -
    have without: "thread_sum F_Idle w ((fpc s)(t := F_Idle)) = thread_sum F_Idle w (fpc s) - w (fpc s t)"
      using thread_sum_upd [where w = w and f = "fpc s" and t = t and p = F_Idle, OF fin that(2)] that(2) by simp
    show ?thesis
    proof (cases "fpc s u = F_Idle")
      case True
      then show ?thesis using that thread_sum_nonneg [of w F_Idle "(fpc s)(t := F_Idle)"] without by simp
    next
      case False
      then show ?thesis
        using thread_sum_pos [where w = w and f = "(fpc s)(t := F_Idle)" and t = u and idle = F_Idle, OF fin_threads_upd [OF fin]] that u without
        by simp
    qed
  qed
  have "adding0 n (fpc s u) \<le> 0" "adding1 n (fpc s u) \<le> 0" "referring n (fpc s u) \<le> 0"
    using le [of "adding0 n"] le [of "adding1 n"] le [of "referring n"] counts pc by simp_all
  then show "pc_ok ((freeListNext s)(n := y)) (fpc s u)" using ok by (cases "fpc s u") auto
qed

text \<open>The steps of \<open>add_knowing_refcount_is_zero\<close>.\<close>

lemmas fl_def = add_knowing_refcount_is_zero_step_def try_get_step_def goes_def set_refs_def Let_def

lemma K_next_inv:
  assumes inv: "fl_inv threads s L" and small: "int threads < 2 ^ 31 - 2" and t: "t < threads" and pc: "fpc s t = K_next k n x"
    and step: "add_knowing_refcount_is_zero_step t s = Some s'"
  shows "fl_inv threads s' L"
proof (rule fl_inv_step [OF inv small t pc, where n = n and p = "K_refs k n x" and b = "held s n" and r = "freeListRefs s n"])
  note w = next_written(1) [OF inv small pc] next_written(2) [OF inv small pc, where y = x]
  show "chain ((freeListNext s)(n := x)) (freeListHead s) L" using inv w(1) by (simp add: fl_inv_def chain_update)
  show "pc_ok ((freeListNext s)(n := x)) (fpc s u)" if "u \<noteq> t" for u using w(2) that .
  show "s' = \<lparr>freeListHead = freeListHead s, freeListRefs = (freeListRefs s)(n := freeListRefs s n),
      freeListNext = (freeListNext s)(n := x), fpc = (fpc s)(t := K_refs k n x), held = (held s)(n := held s n)\<rparr>"
    using step pc by (cases s) (auto simp: fl_def)
qed (use inv in \<open>auto simp: fl_inv_def account_def\<close>)

lemma K_refs_inv:
  assumes inv: "fl_inv threads s L" and small: "int threads < 2 ^ 31 - 2" and t: "t < threads" and pc: "fpc s t = K_refs k n x"
    and step: "add_knowing_refcount_is_zero_step t s = Some s'"
  shows "fl_inv threads s' L"
proof (rule fl_inv_step [OF inv small t pc, where n = n and p = "K_cas k n x" and b = "held s n" and r = 1])
  fix a z o' v c
  assume acc: "account n (K_refs k n x) (of_bool (held s n)) a z o' (of_bool (n \<in> set L)) v c (uint (freeListRefs s n))"
  have one: "adding0 n (K_refs k n x) = 1" by simp
  show "node_ok (of_bool (held s n)) (a + flagging n (K_cas k n x) - flagging n (K_refs k n x)) (z + adding0 n (K_cas k n x) - adding0 n (K_refs k n x))
      (o' + adding1 n (K_cas k n x) - adding1 n (K_refs k n x)) (of_bool (n \<in> set L)) (v + taking n (K_cas k n x) - taking n (K_refs k n x))
      (c + referring n (K_cas k n x) - referring n (K_refs k n x)) (uint (1 :: u32))"
    using account_adding0 [OF acc one] by (simp add: node_ok_def)
next
  have "pc_ok (freeListNext s) (K_refs k n x)" using inv pc by (metis fl_inv_def)
  then show "pc_ok (freeListNext s) (K_cas k n x)" by simp
  show "s' = \<lparr>freeListHead = freeListHead s, freeListRefs = (freeListRefs s)(n := 1),
      freeListNext = freeListNext s, fpc = (fpc s)(t := K_cas k n x), held = (held s)(n := held s n)\<rparr>"
    using step pc by (cases s) (auto simp: fl_def)
qed (use inv in \<open>auto simp: fl_inv_def\<close>)

lemma K_cas_inv:
  assumes inv: "fl_inv threads s L" and small: "int threads < 2 ^ 31 - 2" and t: "t < threads" and pc: "fpc s t = K_cas k n x"
    and "freeListHead s = x" and step: "add_knowing_refcount_is_zero_step t s = Some s'"
  shows "fl_inv threads s' (n # L)"
proof (rule fl_inv_step [OF inv small t pc, where n = n and p = "returns_to k" and b = "held s n" and r = "freeListRefs s n"])
  have one: "adding1 n (K_cas k n x) = 1" by simp
  fix a z o' v c
  assume acc: "account n (K_cas k n x) (of_bool (held s n)) a z o' (of_bool (n \<in> set L)) v c (uint (freeListRefs s n))"
  show "node_ok (of_bool (held s n)) (a + flagging n (returns_to k) - flagging n (K_cas k n x)) (z + adding0 n (returns_to k) - adding0 n (K_cas k n x))
      (o' + adding1 n (returns_to k) - adding1 n (K_cas k n x)) (of_bool (n \<in> set (n # L))) (v + taking n (returns_to k) - taking n (K_cas k n x))
      (c + referring n (returns_to k) - referring n (K_cas k n x)) (uint (freeListRefs s n))"
    using account_adding1 [OF acc one] by (simp add: node_ok_def)
next
  have one: "adding1 n (K_cas k n x) = 1" by simp
  have new: "n \<notin> set L" using account_adding1(5) [OF fl_inv_account [OF inv small, of n t, unfolded pc] one] by auto
  have "pc_ok (freeListNext s) (K_cas k n x)" using inv pc by (metis fl_inv_def)
  then have "freeListNext s n = freeListHead s" using assms(5) by simp
  then show "chain (freeListNext s) (Some n) (n # L)" using inv by (simp add: fl_inv_def)
  show "distinct (n # L)" using inv new by (simp add: fl_inv_def)
  show "s' = \<lparr>freeListHead = Some n, freeListRefs = (freeListRefs s)(n := freeListRefs s n),
      freeListNext = freeListNext s, fpc = (fpc s)(t := returns_to k), held = (held s)(n := held s n)\<rparr>"
    using step pc assms(5) by (cases s) (auto simp: fl_def)
qed (use inv in \<open>auto simp: fl_inv_def\<close>)

lemma K_back_inv:
  assumes inv: "fl_inv threads s L" and small: "int threads < 2 ^ 31 - 2" and t: "t < threads" and pc: "fpc s t = K_back k n x"
    and step: "add_knowing_refcount_is_zero_step t s = Some s'"
  shows "fl_inv threads s' L"
proof -
  let ?old = "freeListRefs s n" and ?p = "if freeListRefs s n = 1 then K_next k n x else returns_to k"
  show ?thesis
  proof (rule fl_inv_step [OF inv small t pc, where n = n and p = ?p and b = "held s n" and r = "?old + (SHOULD_BE_ON_FREELIST - 1)"])
    fix a z o' v c
    assume acc: "account n (K_back k n x) (of_bool (held s n)) a z o' (of_bool (n \<in> set L)) v c (uint ?old)"
    have one: "adding1 n (K_back k n x) = 1" by simp
    note old = account_adding1 [OF acc one]
    have "uint (SHOULD_BE_ON_FREELIST - 1) = 2 ^ 31 - 1" by (simp add: SHOULD_BE_ON_FREELIST_def)
    then have "uint (?old + (SHOULD_BE_ON_FREELIST - 1)) = c + 2 ^ 31"
      using u32_add [of ?old "SHOULD_BE_ON_FREELIST - 1"] old by simp
    moreover have "?old = 1 \<longleftrightarrow> c = 0" using old(7) by (simp add: word_uint_eq_iff)
    ultimately show "node_ok (of_bool (held s n)) (a + flagging n ?p - flagging n (K_back k n x)) (z + adding0 n ?p - adding0 n (K_back k n x))
        (o' + adding1 n ?p - adding1 n (K_back k n x)) (of_bool (n \<in> set L)) (v + taking n ?p - taking n (K_back k n x))
        (c + referring n ?p - referring n (K_back k n x)) (uint (?old + (SHOULD_BE_ON_FREELIST - 1)))"
      using old(1-6,8) by (auto simp: node_ok_def)
  next
    show "s' = \<lparr>freeListHead = freeListHead s, freeListRefs = (freeListRefs s)(n := ?old + (SHOULD_BE_ON_FREELIST - 1)),
        freeListNext = freeListNext s, fpc = (fpc s)(t := ?p), held = (held s)(n := held s n)\<rparr>"
      using step pc by (cases s) (auto simp: fl_def)
  qed (use inv in \<open>auto simp: fl_inv_def\<close>)
qed

lemma add_zero_inv:
  assumes inv: "fl_inv threads s L" and small: "int threads < 2 ^ 31 - 2" and t: "t < threads"
    and step: "add_knowing_refcount_is_zero_step t s = Some s'"
  shows "\<exists>L'. fl_inv threads s' L'"
proof (cases "fpc s t")
  case (K_head k n)
  then have "s' = goes t (K_next k n (freeListHead s)) s" using step by (simp add: add_knowing_refcount_is_zero_step_def)
  then show ?thesis using fl_inv_goes [OF inv t, of "K_next k n (freeListHead s)"] K_head by auto
next
  case (K_next k n x)
  from K_next_inv [OF inv small t this step] show ?thesis by blast
next
  case (K_refs k n x)
  from K_refs_inv [OF inv small t this step] show ?thesis by blast
next
  case (K_cas k n x)
  show ?thesis
  proof (cases "freeListHead s = x")
    case True
    from K_cas_inv [OF inv small t K_cas this step] show ?thesis by blast
  next
    case False
    then have "s' = goes t (K_back k n (freeListHead s)) s" using step K_cas by (simp add: add_knowing_refcount_is_zero_step_def)
    then show ?thesis using fl_inv_goes [OF inv t, of "K_back k n (freeListHead s)"] K_cas by auto
  qed
next
  case (K_back k n x)
  from K_back_inv [OF inv small t this step] show ?thesis by blast
qed (use step in \<open>simp_all add: add_knowing_refcount_is_zero_step_def\<close>)

text \<open>The steps of \<open>try_get\<close>.\<close>

lemma G_inc_inv:
  assumes inv: "fl_inv threads s L" and small: "int threads < 2 ^ 31 - 2" and t: "t < threads" and pc: "fpc s t = G_inc n r"
    and "freeListRefs s n = r" and step: "try_get_step t s = Some s'"
  shows "fl_inv threads s' L"
proof (rule fl_inv_step [OF inv small t pc, where n = n and p = "G_next n" and b = "held s n" and r = "r + 1"])
  fix a z o' v c
  assume acc: "account n (G_inc n r) (of_bool (held s n)) a z o' (of_bool (n \<in> set L)) v c (uint (freeListRefs s n))"
  have "pc_ok (freeListNext s) (G_inc n r)" using inv pc by (metis fl_inv_def)
  then have "uint r \<noteq> 2 ^ 31" by (auto simp: refs_mask)
  then have "\<not> z > 0" using account_zero(8) [OF acc] assms(5) by auto
  then have nz: "z = 0" using acc by (simp add: account_def)
  have "uint (r + 1) = uint r + 1" using u32_add [of r 1] acc assms(5) nz by (auto simp: account_def node_ok_def)
  then show "node_ok (of_bool (held s n)) (a + flagging n (G_next n) - flagging n (G_inc n r)) (z + adding0 n (G_next n) - adding0 n (G_inc n r))
      (o' + adding1 n (G_next n) - adding1 n (G_inc n r)) (of_bool (n \<in> set L)) (v + taking n (G_next n) - taking n (G_inc n r))
      (c + referring n (G_next n) - referring n (G_inc n r)) (uint (r + 1))"
    using acc assms(5) nz by (simp add: account_def node_ok_def)
next
  show "s' = \<lparr>freeListHead = freeListHead s, freeListRefs = (freeListRefs s)(n := r + 1),
      freeListNext = freeListNext s, fpc = (fpc s)(t := G_next n), held = (held s)(n := held s n)\<rparr>"
    using step pc assms(5) by (cases s) (auto simp: fl_def)
qed (use inv in \<open>auto simp: fl_inv_def\<close>)

lemma G_cas_inv:
  assumes inv: "fl_inv threads s L" and small: "int threads < 2 ^ 31 - 2" and t: "t < threads" and pc: "fpc s t = G_cas n x"
    and head: "freeListHead s = Some n" and step: "try_get_step t s = Some s'"
  shows "fl_inv threads s' (tl L)"
proof (rule fl_inv_step [OF inv small t pc, where n = n and p = "G_check n" and b = "held s n" and r = "freeListRefs s n"])
  have "chain (freeListNext s) (freeListHead s) L" "distinct L" using inv by (simp_all add: fl_inv_def)
  then have L: "L = n # tl L" "chain (freeListNext s) (freeListNext s n) (tl L)" "n \<notin> set (tl L)" using head by (cases L; simp)+
  show "flagging m (G_check n) = flagging m (G_cas n x) \<and> adding0 m (G_check n) = adding0 m (G_cas n x) \<and> adding1 m (G_check n) = adding1 m (G_cas n x)
      \<and> taking m (G_check n) = taking m (G_cas n x) \<and> referring m (G_check n) = referring m (G_cas n x) \<and> (m \<in> set (tl L) \<longleftrightarrow> m \<in> set L)"
    if "m \<noteq> n" for m
    using that by (subst L(1)) simp
  fix a z o' v c
  assume acc: "account n (G_cas n x) (of_bool (held s n)) a z o' (of_bool (n \<in> set L)) v c (uint (freeListRefs s n))"
  have "n \<in> set L" using L(1) by (metis list.set_intros(1))
  then show "node_ok (of_bool (held s n)) (a + flagging n (G_check n) - flagging n (G_cas n x)) (z + adding0 n (G_check n) - adding0 n (G_cas n x))
      (o' + adding1 n (G_check n) - adding1 n (G_cas n x)) (of_bool (n \<in> set (tl L))) (v + taking n (G_check n) - taking n (G_cas n x))
      (c + referring n (G_check n) - referring n (G_cas n x)) (uint (freeListRefs s n))"
    using acc L(3) by (auto simp: account_def node_ok_def)
next
  have "chain (freeListNext s) (freeListHead s) L" "pc_ok (freeListNext s) (G_cas n x)" using inv pc by (metis fl_inv_def)+
  then show "chain (freeListNext s) x (tl L)" using head by (cases L) simp_all
  show "distinct (tl L)" using inv by (simp add: fl_inv_def distinct_tl)
  show "s' = \<lparr>freeListHead = x, freeListRefs = (freeListRefs s)(n := freeListRefs s n),
      freeListNext = freeListNext s, fpc = (fpc s)(t := G_check n), held = (held s)(n := held s n)\<rparr>"
    using step pc head by (cases s) (auto simp: fl_def)
qed (use inv in \<open>auto simp: fl_inv_def\<close>)

text \<open>The assertion of \<open>try_get\<close> holds.\<close>

lemma G_check_clear:
  assumes inv: "fl_inv threads s L" and small: "int threads < 2 ^ 31 - 2" and pc: "fpc s t = G_check n"
  shows "freeListRefs s n AND SHOULD_BE_ON_FREELIST = 0"
proof -
  have one: "taking n (G_check n) = 1" "referring n (G_check n) = 1" by simp_all
  show ?thesis using account_taking [OF fl_inv_account [OF inv small, of n t, unfolded pc] one] by (intro flag_clear) simp
qed

lemma G_sub2_inv:
  assumes inv: "fl_inv threads s L" and small: "int threads < 2 ^ 31 - 2" and t: "t < threads" and pc: "fpc s t = G_sub2 n"
    and step: "try_get_step t s = Some s'"
  shows "fl_inv threads s' L"
proof (rule fl_inv_step [OF inv small t pc, where n = n and p = F_Idle and b = True and r = "freeListRefs s n - 2"])
  fix a z o' v c
  assume acc: "account n (G_sub2 n) (of_bool (held s n)) a z o' (of_bool (n \<in> set L)) v c (uint (freeListRefs s n))"
  have one: "taking n (G_sub2 n) = 1" "referring n (G_sub2 n) = 1" by simp_all
  note old = account_taking [OF acc one]
  have "uint (freeListRefs s n - 2) = c - 1" using u32_sub [of 2 "freeListRefs s n"] old(7,8) by simp
  then show "node_ok (of_bool True) (a + flagging n F_Idle - flagging n (G_sub2 n)) (z + adding0 n F_Idle - adding0 n (G_sub2 n))
      (o' + adding1 n F_Idle - adding1 n (G_sub2 n)) (of_bool (n \<in> set L)) (v + taking n F_Idle - taking n (G_sub2 n))
      (c + referring n F_Idle - referring n (G_sub2 n)) (uint (freeListRefs s n - 2))"
    using old(2-6,8) by (simp add: node_ok_def)
next
  show "s' = \<lparr>freeListHead = freeListHead s, freeListRefs = (freeListRefs s)(n := freeListRefs s n - 2),
      freeListNext = freeListNext s, fpc = (fpc s)(t := F_Idle), held = (held s)(n := True)\<rparr>"
    using step pc by (cases s) (auto simp: fl_def)
qed (use inv in \<open>auto simp: fl_inv_def\<close>)

lemma G_dec_inv:
  assumes inv: "fl_inv threads s L" and small: "int threads < 2 ^ 31 - 2" and t: "t < threads" and pc: "fpc s t = G_dec n x"
    and step: "try_get_step t s = Some s'"
  shows "fl_inv threads s' L"
proof -
  let ?old = "freeListRefs s n" and ?p = "if freeListRefs s n = SHOULD_BE_ON_FREELIST + 1 then K_head (TryAgain x) n else try_loop x"
  show ?thesis
  proof (rule fl_inv_step [OF inv small t pc, where n = n and p = ?p and b = "held s n" and r = "?old - 1"])
    fix a z o' v c
    assume acc: "account n (G_dec n x) (of_bool (held s n)) a z o' (of_bool (n \<in> set L)) v c (uint ?old)"
    have one: "referring n (G_dec n x) = 1" by simp
    note old = account_referring [OF acc one]
    have "uint (SHOULD_BE_ON_FREELIST + 1) = 2 ^ 31 + 1" by (simp add: SHOULD_BE_ON_FREELIST_def)
    then have last: "?old = SHOULD_BE_ON_FREELIST + 1 \<longleftrightarrow> c = 1 \<and> of_bool (held s n) + a + o' + of_bool (n \<in> set L) + v = 0"
      using old by (auto simp: word_uint_eq_iff split: if_splits)
    have "uint (?old - 1) = uint ?old - 1" using u32_sub [of 1 ?old] old by simp
    then show "node_ok (of_bool (held s n)) (a + flagging n ?p - flagging n (G_dec n x)) (z + adding0 n ?p - adding0 n (G_dec n x))
        (o' + adding1 n ?p - adding1 n (G_dec n x)) (of_bool (n \<in> set L)) (v + taking n ?p - taking n (G_dec n x))
        (c + referring n ?p - referring n (G_dec n x)) (uint (?old - 1))"
      using old last by (auto simp: node_ok_def)
  next
    show "s' = \<lparr>freeListHead = freeListHead s, freeListRefs = (freeListRefs s)(n := ?old - 1),
        freeListNext = freeListNext s, fpc = (fpc s)(t := ?p), held = (held s)(n := held s n)\<rparr>"
      using step pc by (cases s) (auto simp: fl_def)
  qed (use inv in \<open>auto simp: fl_inv_def\<close>)
qed

lemma try_get_inv:
  assumes inv: "fl_inv threads s L" and small: "int threads < 2 ^ 31 - 2" and t: "t < threads" and step: "try_get_step t s = Some s'"
  shows "\<exists>L'. fl_inv threads s' L'"
proof (cases "fpc s t")
  case G_load
  then show ?thesis using fl_inv_goes [OF inv t, of "try_loop (freeListHead s)"] step by (auto simp: try_get_step_def)
next
  case (G_refs n)
  then show ?thesis
    using fl_inv_goes [OF inv t, of "if freeListRefs s n AND REFS_MASK = 0 then G_load else G_inc n (freeListRefs s n)"] step
    by (auto simp: try_get_step_def Let_def split: if_splits)
next
  case (G_inc n r)
  then show ?thesis using fl_inv_goes [OF inv t, of G_load] G_inc_inv [OF inv small t G_inc _ step] step
    by (cases "freeListRefs s n = r") (auto simp: try_get_step_def)
next
  case (G_next n)
  then show ?thesis using fl_inv_goes [OF inv t, of "G_cas n (freeListNext s n)"] step by (auto simp: try_get_step_def)
next
  case (G_cas n x)
  then show ?thesis using fl_inv_goes [OF inv t, of "G_dec n (freeListHead s)"] G_cas_inv [OF inv small t G_cas _ step] step
    by (cases "freeListHead s = Some n") (auto simp: try_get_step_def)
next
  case (G_check n)
  then show ?thesis using fl_inv_goes [OF inv t, of "G_sub2 n"] G_check_clear [OF inv small G_check] step by (auto simp: try_get_step_def)
next
  case (G_sub2 n)
  from G_sub2_inv [OF inv small t this step] show ?thesis by blast
next
  case (G_dec n x)
  from G_dec_inv [OF inv small t this step] show ?thesis by blast
qed (use step in \<open>simp_all add: try_get_step_def\<close>)

lemma fl_call_inv:
  assumes inv: "fl_inv threads s L" and small: "int threads < 2 ^ 31 - 2" and t: "t < threads" and step: "fl_call t inp s = Some s'"
  shows "fl_inv threads s' L"
proof (cases inp)
  case (FAdd n)
  then have pc: "fpc s t = F_Idle" "held s n" and s': "s' = goes t (A_flag n) (s\<lparr>held := (held s)(n := False)\<rparr>)"
    using step by (auto simp: fl_call_def split: if_splits)
  show ?thesis
  proof (rule fl_inv_step [OF inv small t pc(1), where n = n and p = "A_flag n" and b = False and r = "freeListRefs s n"])
    show "s' = \<lparr>freeListHead = freeListHead s, freeListRefs = (freeListRefs s)(n := freeListRefs s n),
        freeListNext = freeListNext s, fpc = (fpc s)(t := A_flag n), held = (held s)(n := False)\<rparr>"
      unfolding s' by (cases s) (simp add: goes_def)
  qed (use inv pc in \<open>auto simp: fl_inv_def account_def node_ok_def\<close>)
next
  case FTryGet
  then show ?thesis using step fl_inv_goes [OF inv t, of G_load] by (auto simp: fl_call_def split: if_splits)
qed (use step in \<open>simp add: fl_call_def split: if_splits\<close>)

lemma fl_reach_inv:
  assumes "int threads < 2 ^ 31 - 2"
  shows "fl_reach threads s \<Longrightarrow> \<exists>L. fl_inv threads s L"
proof (induction rule: fl_reach.induct)
  case start
  show ?case using fl_inv_start by blast
next
  case (step s t inp s')
  then obtain L where inv: "fl_inv threads s L" by blast
  consider "fl_call t inp s = Some s'" | "add_step t s = Some s'" | "add_knowing_refcount_is_zero_step t s = Some s'" | "try_get_step t s = Some s'"
    using step.hyps(3) by (auto simp: fl_step_def split: if_splits option.splits)
  then show ?case
    using fl_call_inv [OF inv assms step.hyps(2)] add_step_inv [OF inv assms step.hyps(2)] add_zero_inv [OF inv assms step.hyps(2)]
      try_get_inv [OF inv assms step.hyps(2)] by cases blast+
qed

section \<open>Properties\<close>

text \<open>The thread has the node to itself: it is about to add it, adding it, or has just taken it off the list.\<close>

definition owns_node :: "nat \<Rightarrow> fpc \<Rightarrow> bool" where
  "owns_node n p \<longleftrightarrow> flagging n p + adding0 n p + adding1 n p + taking n p > 0"

lemma two_owners:
  assumes "fin_threads F_Idle f" and "owns_node n (f t)" and "owns_node n (f u)" and "t \<noteq> u"
  shows "tally flagging n f + tally adding0 n f + tally adding1 n f + tally taking n f \<ge> 2"
proof -
  let ?w = "\<lambda>p. flagging n p + adding0 n p + adding1 n p + taking n p"
  have sum: "thread_sum F_Idle ?w f = tally flagging n f + tally adding0 n f + tally adding1 n f + tally taking n f"
    by (simp add: thread_sum_def sum.distrib)
  have busy: "f t \<noteq> F_Idle" "f u \<noteq> F_Idle" using assms(2,3) by (auto simp: owns_node_def)
  have "?w (f u) \<le> thread_sum F_Idle ?w (f(t := F_Idle))"
    using thread_sum_pos [where w = ?w and f = "f(t := F_Idle)" and t = u, OF fin_threads_upd [OF assms(1)]] busy(2) assms(4) by simp
  also have "\<dots> = thread_sum F_Idle ?w f - ?w (f t)" using thread_sum_upd [where w = ?w and p = F_Idle, OF assms(1)] by simp
  finally show ?thesis using assms(2,3) sum unfolding owns_node_def by linarith
qed

text \<open>Thread 0 gives block 5 back and thread 1 takes it.\<close>

lemma demo_free_list:
  obtains s where "fl_reach 2 s" "fpc s 1 = G_sub2 5" "fpc s 0 = F_Idle"
proof -
  let ?sched = "(0, FAdd 5) # replicate 5 (0, FGo) @ (1, FTryGet) # replicate 6 (1, FGo)"
  have "(1 :: u32) AND REFS_MASK \<noteq> 0" "(2 :: u32) AND SHOULD_BE_ON_FREELIST = 0"
    by (simp_all add: REFS_MASK_def SHOULD_BE_ON_FREELIST_def)
  then have "\<exists>s. fl_run ?sched FreeList = Some s \<and> fpc s 1 = G_sub2 5 \<and> fpc s 0 = F_Idle"
    by (simp add: eval_nat_numeral FreeList_def fl_step_def fl_call_def add_step_def fl_def try_loop_def returns_to_def)
  then obtain s where s: "fl_run ?sched FreeList = Some s" "fpc s 1 = G_sub2 5" "fpc s 0 = F_Idle" by blast
  have "fst ` set ?sched \<subseteq> {..<2 :: nat}" by auto
  from fl_run_reach [OF fl_reach.start s(1) this] s(2,3) show thesis by (rule that)
qed

text \<open>
  (C5) No block is given to two.  Under every interleaving of any number of threads (fewer than two to the 31) that add blocks they
  have and take blocks, the list stays a list without repetition, and each block is with at most one of: the callers, one
  thread that is adding it or has just taken it, the list.  In particular a block is handed out only when nobody else has
  it, and the assertion of \<open>try_get\<close> never fails.
\<close>

theorem free_list_exclusive:
  assumes "fl_reach threads s" and "int threads < 2 ^ 31 - 2"
  shows "(\<forall>t. fpc s t \<noteq> F_Abort)
    \<and> (\<exists>L. chain (freeListNext s) (freeListHead s) L \<and> distinct L
        \<and> (\<forall>n. (held s n \<longrightarrow> n \<notin> set L \<and> (\<forall>t. \<not> owns_node n (fpc s t)))
             \<and> (n \<in> set L \<longrightarrow> (\<forall>t. \<not> owns_node n (fpc s t)))
             \<and> (\<forall>t u. owns_node n (fpc s t) \<and> owns_node n (fpc s u) \<longrightarrow> t = u)))"
proof -
  obtain L where inv: "fl_inv threads s L" using fl_reach_inv [OF assms(2,1)] by blast
  have idle: "\<forall>t\<ge>threads. fpc s t = F_Idle" using inv by (simp add: fl_inv_def)
  note acc = fl_inv_account [OF inv assms(2)]
  have once: "of_bool (held s n) + of_bool (n \<in> set L) + (tally flagging n (fpc s) + tally adding0 n (fpc s) + tally adding1 n (fpc s)
      + tally taking n (fpc s)) \<le> (1 :: int)" for n
    using acc [of n 0] by (simp add: account_def node_ok_def)
  have some: "of_bool (held s n) + of_bool (n \<in> set L) \<le> (0 :: int)" if "owns_node n (fpc s t)" for n t
    using acc [of n t] once [of n] that unfolding account_def owns_node_def by linarith
  have "\<not> owns_node n (fpc s t) \<or> \<not> owns_node n (fpc s u)" if "t \<noteq> u" for n t u
  proof (rule ccontr)
    assume "\<not> (\<not> owns_node n (fpc s t) \<or> \<not> owns_node n (fpc s u))"
    then have "tally flagging n (fpc s) + tally adding0 n (fpc s) + tally adding1 n (fpc s) + tally taking n (fpc s) \<ge> 2"
      using two_owners [OF fin_threads_below [OF idle] _ _ that] by blast
    moreover have "0 \<le> of_bool (held s n) + (of_bool (n \<in> set L) :: int)" by simp
    ultimately show False using once [of n] by linarith
  qed
  moreover have "\<not> (held s n \<and> n \<in> set L)" for n using acc [of n 0] by (auto simp: account_def node_ok_def)
  moreover have "fpc s t \<noteq> F_Abort" for t using inv unfolding fl_inv_def by (metis pc_ok.simps(5))
  moreover have "\<not> held s n \<and> n \<notin> set L" if "owns_node n (fpc s t)" for n t
    using some [OF that] by (cases "held s n"; cases "n \<in> set L") auto
  moreover have "chain (freeListNext s) (freeListHead s) L" "distinct L" using inv by (simp_all add: fl_inv_def)
  ultimately show ?thesis by (intro conjI allI exI [of _ L] impI) blast+
qed

theorem free_list_exclusive_witness:
  "\<exists>s. fl_reach 2 s \<and> fpc s 1 = G_sub2 5 \<and> \<not> held s 5 \<and> \<not> owns_node 5 (fpc s 0)"
proof -
  obtain s where s: "fl_reach 2 s" "fpc s 1 = G_sub2 5" by (rule demo_free_list)
  then have own: "owns_node 5 (fpc s 1)" by (simp add: owns_node_def)
  have "int 2 < 2 ^ 31 - 2" by simp
  from conjunct2 [OF free_list_exclusive [OF s(1) this]] obtain L where
    "held s 5 \<longrightarrow> (\<forall>t. \<not> owns_node 5 (fpc s t))" "\<forall>t u. owns_node 5 (fpc s t) \<and> owns_node 5 (fpc s u) \<longrightarrow> t = u" by blast
  then have "\<not> held s 5 \<and> \<not> owns_node 5 (fpc s 0)" using own by (metis zero_neq_one)
  then show ?thesis using s by blast
qed

text \<open>
  (C6) No block is lost.  In every state a block is with the callers, on the list, with a thread that is adding or has just
  taken it, or flagged for the list while a thread still refers to it, the last of which adds it; when no thread is
  inside an operation, the blocks on the list are exactly those the callers do not have.
\<close>

theorem free_list_loses_none:
  assumes "fl_reach threads s" and "int threads < 2 ^ 31 - 2"
  shows "\<exists>L. chain (freeListNext s) (freeListHead s) L
    \<and> (\<forall>n. held s n \<or> n \<in> set L \<or> (\<exists>t. owns_node n (fpc s t))
         \<or> uint (freeListRefs s n) > 2 ^ 31 \<and> (\<exists>t. referring n (fpc s t) > 0))
    \<and> ((\<forall>t. fpc s t = F_Idle) \<longrightarrow> (\<forall>n. n \<in> set L \<longleftrightarrow> \<not> held s n))"
proof -
  obtain L where inv: "fl_inv threads s L" using fl_reach_inv [OF assms(2,1)] by blast
  have some: "\<exists>t. w (fpc s t) > 0" if "thread_sum F_Idle w (fpc s) > 0" for w using thread_sum_someone [OF that] .
  have all: "held s n \<or> n \<in> set L \<or> (\<exists>t. owns_node n (fpc s t)) \<or> uint (freeListRefs s n) > 2 ^ 31 \<and> (\<exists>t. referring n (fpc s t) > 0)" for n
  proof (cases "tally flagging n (fpc s) = 0 \<and> tally adding0 n (fpc s) = 0 \<and> tally adding1 n (fpc s) = 0 \<and> tally taking n (fpc s) = 0")
    case True
    then show ?thesis using fl_inv_account [OF inv assms(2), of n 0] some [of "referring n"] by (auto simp: account_def node_ok_def)
  next
    case False
    then have "tally flagging n (fpc s) > 0 \<or> tally adding0 n (fpc s) > 0 \<or> tally adding1 n (fpc s) > 0 \<or> tally taking n (fpc s) > 0"
      using tally_nonneg [of n "fpc s"] by linarith
    then have "\<exists>t. flagging n (fpc s t) > 0 \<or> adding0 n (fpc s t) > 0 \<or> adding1 n (fpc s t) > 0 \<or> taking n (fpc s t) > 0"
      using some [of "flagging n"] some [of "adding0 n"] some [of "adding1 n"] some [of "taking n"] by blast
    then obtain t where t: "flagging n (fpc s t) > 0 \<or> adding0 n (fpc s t) > 0 \<or> adding1 n (fpc s t) > 0 \<or> taking n (fpc s t) > 0" by blast
    have "owns_node n (fpc s t)" using t weights_nonneg [of n "fpc s t"] unfolding owns_node_def by linarith
    then show ?thesis by blast
  qed
  moreover have "n \<in> set L \<longleftrightarrow> \<not> held s n" if "\<forall>t. fpc s t = F_Idle" for n
  proof -
    have "\<not> owns_node n (fpc s t)" "\<not> referring n (fpc s t) > 0" for t using that by (simp_all add: owns_node_def)
    then have "held s n \<or> n \<in> set L" using all [of n] by blast
    then show ?thesis using fl_inv_account [OF inv assms(2), of n 0] by (auto simp: account_def node_ok_def)
  qed
  ultimately show ?thesis using inv unfolding fl_inv_def by blast
qed

theorem free_list_loses_none_witness:
  "\<exists>s L. fl_run ((0, FAdd 5) # replicate 5 (0, FGo)) FreeList = Some s \<and> chain (freeListNext s) (freeListHead s) L
     \<and> (\<forall>n. n \<in> set L \<longleftrightarrow> \<not> held s n)"
proof -
  have "\<exists>s. fl_run ((0, FAdd 5) # replicate 5 (0, FGo)) FreeList = Some s \<and> (\<forall>t. fpc s t = F_Idle)"
    by (simp add: eval_nat_numeral FreeList_def fl_step_def fl_call_def add_step_def fl_def returns_to_def)
  then obtain s where s: "fl_run ((0, FAdd 5) # replicate 5 (0, FGo)) FreeList = Some s" "\<forall>t. fpc s t = F_Idle" by blast
  have "fl_reach 2 s" by (rule fl_run_reach [OF fl_reach.start s(1)]) auto
  from free_list_loses_none [OF this] s show ?thesis by auto
qed

section \<open>What a thread that is not disturbed sees\<close>

text \<open>The list between operations represents the stack of the pool.\<close>

definition represents :: "nat \<Rightarrow> flist \<Rightarrow> 'a pool \<Rightarrow> bool" where
  "represents threads s P \<longleftrightarrow>
     fl_reach threads s \<and> (\<forall>t. fpc s t = F_Idle) \<and> chain (freeListNext s) (freeListHead s) (freeList P)"

lemma chain_unique: "chain nxt h L \<Longrightarrow> chain nxt h L' \<Longrightarrow> L = L'"
proof (induction L arbitrary: h L')
  case Nil
  then show ?case by (cases L') auto
next
  case (Cons n L)
  then show ?case by (cases L') auto
qed

lemma represents_refs:
  assumes "represents threads s P" and "int threads < 2 ^ 31 - 2"
  shows "freeListRefs s n = (if n \<in> set (freeList P) then 1 else 0)" and "n \<in> set (freeList P) \<longleftrightarrow> \<not> held s n" and "distinct (freeList P)"
proof -
  obtain L where inv: "fl_inv threads s L" using fl_reach_inv [OF assms(2)] assms(1) by (auto simp: represents_def)
  then have L: "L = freeList P" using assms(1) chain_unique by (fastforce simp: represents_def fl_inv_def)
  have idle: "\<forall>t. fpc s t = F_Idle" using assms(1) by (simp add: represents_def)
  then have zero: "thread_sum F_Idle w (fpc s) = 0" for w by (simp add: thread_sum_def)
  note acc = fl_inv_account [OF inv assms(2), of n 0, unfolded zero L]
  have "uint (freeListRefs s n) = of_bool (n \<in> set (freeList P))" using acc by (auto simp: account_def node_ok_def)
  then show "freeListRefs s n = (if n \<in> set (freeList P) then 1 else 0)" by (simp add: word_uint_eq_iff)
  show "n \<in> set (freeList P) \<longleftrightarrow> \<not> held s n" using acc by (auto simp: account_def node_ok_def)
  show "distinct (freeList P)" using inv L by (simp add: fl_inv_def)
qed

lemma add_alone:
  assumes rep: "represents threads s P" and small: "int threads < 2 ^ 31 - 2" and t: "t < threads" and "held s n"
  obtains s' where "fl_run ((t, FAdd n) # replicate 5 (t, FGo)) s = Some s'" "\<forall>t. fpc s' t = F_Idle"
    "chain (freeListNext s') (freeListHead s') (n # freeList P)"
proof -
  have n: "n \<notin> set (freeList P)" "freeListRefs s n = 0" using represents_refs(1,2) [OF rep small, of n] assms(4) by auto
  have idle: "\<forall>t. fpc s t = F_Idle" and ch: "chain (freeListNext s) (freeListHead s) (freeList P)" using rep by (simp_all add: represents_def)
  let ?s = "\<lparr>freeListHead = Some n, freeListRefs = (freeListRefs s)(n := 1), freeListNext = (freeListNext s)(n := freeListHead s),
    fpc = fpc s, held = (held s)(n := False)\<rparr>"
  have "fpc s = (fpc s)(t := F_Idle)" using idle by (simp add: fun_upd_idem)
  then have "fl_run ((t, FAdd n) # replicate 5 (t, FGo)) s = Some ?s"
    using idle assms(4) n(2)
    by (simp add: eval_nat_numeral fl_step_def fl_call_def add_step_def fl_def returns_to_def)
  moreover have "chain (freeListNext ?s) (freeListHead ?s) (n # freeList P)" using ch n(1) by (simp add: chain_update)
  ultimately show thesis using that idle by fastforce
qed

lemma get_alone:
  assumes rep: "represents threads s P" and small: "int threads < 2 ^ 31 - 2" and t: "t < threads" and L: "freeList P = n # L"
  obtains s' where "fl_run ((t, FTryGet) # replicate 7 (t, FGo)) s = Some s'" "\<forall>t. fpc s' t = F_Idle"
    "chain (freeListNext s') (freeListHead s') L" "held s' = (held s)(n := True)"
proof -
  have n: "n \<notin> set L" "freeListRefs s n = 1" using represents_refs(1) [OF rep small, of n] represents_refs(3) [OF rep small] L by auto
  have idle: "\<forall>t. fpc s t = F_Idle" and ch: "freeListHead s = Some n" "chain (freeListNext s) (freeListNext s n) L"
    using rep L by (simp_all add: represents_def)
  let ?s = "\<lparr>freeListHead = freeListNext s n, freeListRefs = (freeListRefs s)(n := 0), freeListNext = freeListNext s,
    fpc = fpc s, held = (held s)(n := True)\<rparr>"
  have "(1 :: u32) AND REFS_MASK \<noteq> 0" "(2 :: u32) AND SHOULD_BE_ON_FREELIST = 0"
    by (simp_all add: REFS_MASK_def SHOULD_BE_ON_FREELIST_def)
  moreover have "fpc s = (fpc s)(t := F_Idle)" using idle by (simp add: fun_upd_idem)
  ultimately have "fl_run ((t, FTryGet) # replicate 7 (t, FGo)) s = Some ?s"
    using idle n(2) ch(1)
    by (simp add: eval_nat_numeral fl_step_def fl_call_def add_step_def fl_def try_loop_def)
  then show thesis using that ch(2) idle by fastforce
qed

text \<open>
  (C7) The free list is the stack the pool takes it for: a thread that nobody disturbs and that gives a block back, or asks for one, needs
  a few steps, after which the list represents the pool that \<open>add_block_to_free_list\<close> and
  \<open>try_get_block_from_free_list\<close> compute, and the block asked for is the caller's.
\<close>

theorem free_list_refines_pool:
  assumes "represents threads s P" and "int threads < 2 ^ 31 - 2" and "t < threads" and "try_get_block_from_free_list P = (r, P')"
  shows "(held s b \<and> (RECYCLE_ALLOCATED_BLOCKS tr \<or> \<not> dynamicallyAllocated (heap P b)) \<longrightarrow>
      (\<exists>s'. fl_run ((t, FAdd b) # replicate 5 (t, FGo)) s = Some s' \<and> represents threads s' (add_block_to_free_list tr b P)))
    \<and> (\<exists>steps s'. fl_run ((t, FTryGet) # replicate steps (t, FGo)) s = Some s' \<and> represents threads s' P'
      \<and> held s' = (case r of None \<Rightarrow> held s | Some n \<Rightarrow> (held s)(n := True)))"
proof (intro conjI impI)
  have reach: "fl_reach threads s" using assms(1) by (simp add: represents_def)
  assume b: "held s b \<and> (RECYCLE_ALLOCATED_BLOCKS tr \<or> \<not> dynamicallyAllocated (heap P b))"
  then have "held s b" by blast
  obtain s' where s': "fl_run ((t, FAdd b) # replicate 5 (t, FGo)) s = Some s'" "\<forall>t. fpc s' t = F_Idle"
    "chain (freeListNext s') (freeListHead s') (b # freeList P)" by (rule add_alone [OF assms(1-3) \<open>held s b\<close>])
  have "fl_reach threads s'" using fl_run_reach [OF reach s'(1)] assms(3) by simp
  then show "\<exists>s'. fl_run ((t, FAdd b) # replicate 5 (t, FGo)) s = Some s' \<and> represents threads s' (add_block_to_free_list tr b P)"
    using s' b by (auto simp: represents_def add_block_to_free_list_def)
next
  have reach: "fl_reach threads s" and idle: "\<forall>t. fpc s t = F_Idle" using assms(1) by (simp_all add: represents_def)
  show "\<exists>steps s'. fl_run ((t, FTryGet) # replicate steps (t, FGo)) s = Some s' \<and> represents threads s' P'
      \<and> held s' = (case r of None \<Rightarrow> held s | Some n \<Rightarrow> (held s)(n := True))"
  proof (cases "freeList P")
    case Nil
    then have head: "freeListHead s = None" and r: "r = None" "P' = P"
      using assms(1,4) by (auto simp: represents_def try_get_block_from_free_list_def)
    have "fpc s = (fpc s)(t := F_Idle)" using idle by (simp add: fun_upd_idem)
    then have "fl_run ((t, FTryGet) # replicate 1 (t, FGo)) s = Some s"
      using idle head by (cases s) (simp add: fl_step_def fl_call_def add_step_def fl_def try_loop_def)
    then show ?thesis using assms(1) r by (intro exI [of _ 1] exI [of _ s]) simp
  next
    case (Cons n L)
    then have r: "r = Some n" "freeList P' = L" using assms(4) by (auto simp: try_get_block_from_free_list_def)
    obtain s' where s': "fl_run ((t, FTryGet) # replicate 7 (t, FGo)) s = Some s'" "\<forall>t. fpc s' t = F_Idle"
      "chain (freeListNext s') (freeListHead s') L" "held s' = (held s)(n := True)" by (rule get_alone [OF assms(1-3) Cons])
    have "fl_reach threads s'" using fl_run_reach [OF reach s'(1)] assms(3) by simp
    then have "represents threads s' P'" using s' r by (simp add: represents_def)
    then show ?thesis using s' r by (intro exI [of _ 7] exI [of _ s']) simp
  qed
qed


theorem free_list_refines_pool_witness:
  "\<exists>s. fl_run ((0, FAdd 5) # replicate 5 (0, FGo)) FreeList = Some s
     \<and> represents 2 s (add_block_to_free_list (default_traits\<lparr>RECYCLE_ALLOCATED_BLOCKS := True\<rparr>) 5 (empty_pool default_traits :: nat pool))"
proof -
  have "represents 2 FreeList (empty_pool default_traits :: nat pool)"
    by (simp add: represents_def fl_reach.start) (simp add: FreeList_def empty_pool_def)
  moreover have "try_get_block_from_free_list (empty_pool default_traits :: nat pool) = (None, empty_pool default_traits)"
    by (simp add: try_get_block_from_free_list_def empty_pool_def)
  moreover have "held FreeList 5" "RECYCLE_ALLOCATED_BLOCKS (default_traits\<lparr>RECYCLE_ALLOCATED_BLOCKS := True\<rparr>)"
    by (simp_all add: FreeList_def)
  ultimately show ?thesis using free_list_refines_pool [of 2 FreeList "empty_pool default_traits :: nat pool" 0 None] by simp
qed

end
