(* ===== verification/CQ_Explicit.thy ===== *)
theory CQ_Explicit
  imports CQ_Pool
begin

text \<open>
  \<open>ExplicitProducer\<close> of \<open>concurrentqueue.h\<close>, one operation at a time: the sub-queue of a producer token.
  Its blocks form a ring; the elements in the queue lie in the blocks from the one that holds
  \<open>headIndex\<close> to \<open>tailBlock\<close>; a circular index maps the base of each started block to the block.
\<close>

section \<open>State\<close>

text \<open>
  \<open>idx_entries\<close> (with \<open>pr_blockIndexSize\<close> slots) and \<open>idx_front\<close> are the entries and \<open>front\<close> of the current
  \<open>BlockIndexHeader\<close>, which \<open>blockIndex\<close> and the \<open>pr_\<close> fields share; \<open>idx_raw\<close> says that one has been
  allocated.
\<close>

record producer =
  tailIndex :: nat
  headIndex :: nat
  dequeueOptimisticCount :: nat
  dequeueOvercommit :: nat
  tailBlock :: "nat option"

record eproducer = producer +
  idx_raw :: bool
  idx_entries :: "(nat \<times> nat) list"
  idx_front :: nat
  pr_blockIndexSlotsUsed :: nat
  pr_blockIndexSize :: nat
  pr_blockIndexFront :: nat

text \<open>\<open>ProducerBase::size_approx\<close>.\<close>

definition producer_size_approx :: "('b :: type) producer_scheme \<Rightarrow> nat" where
  "producer_size_approx p = (if index_less (headIndex p) (tailIndex p) then tailIndex p - headIndex p else 0)"

section \<open>The block index\<close>

text \<open>
  The loop of \<open>new_block_index\<close> that copies the used entries, oldest first, until it is back at the front;
  it makes at most as many rounds as the old index has slots.
\<close>

primrec copy_index :: "nat \<Rightarrow> (nat \<times> nat) list \<Rightarrow> nat \<Rightarrow> nat \<Rightarrow> nat \<Rightarrow> (nat \<times> nat) list" where
  "copy_index 0 entries prevSize front i = []"
| "copy_index (Suc rounds) entries prevSize front i =
     entries ! i #
     (let i' = (i + 1) mod prevSize
      in if i' = front then [] else copy_index rounds entries prevSize front i')"

definition new_block_index :: "(nat \<Rightarrow> bool) \<Rightarrow> nat \<Rightarrow> eproducer \<Rightarrow> 'a pool \<Rightarrow> bool \<times> eproducer \<times> 'a pool" where
  "new_block_index malloc_ok numberOfFilledSlotsToExpose p P =
     (let prevSize = pr_blockIndexSize p in
      case malloc malloc_ok P of (ok, P) \<Rightarrow>
        if \<not> ok then (False, p, P)
        else
          let copied = (if pr_blockIndexSlotsUsed p \<noteq> 0
                        then copy_index prevSize (idx_entries p) prevSize (pr_blockIndexFront p)
                               ((pr_blockIndexFront p + prevSize - pr_blockIndexSlotsUsed p) mod prevSize)
                        else [])
          in (True,
              p\<lparr>pr_blockIndexSize := 2 * prevSize,
                idx_entries := copied @ replicate (2 * prevSize - length copied) (0, 0),
                idx_front := (if numberOfFilledSlotsToExpose = 0 then size_max else numberOfFilledSlotsToExpose - 1),
                pr_blockIndexFront := length copied,
                idx_raw := True\<rparr>,
              P))"

definition ExplicitProducer :: "(nat \<Rightarrow> bool) \<Rightarrow> traits \<Rightarrow> 'a pool \<Rightarrow> eproducer \<times> 'a pool" where
  "ExplicitProducer malloc_ok tr P =
     (let half = EXPLICIT_INITIAL_INDEX_SIZE tr div 2;
          poolBased = unat (ceil_to_pow_2 (of_nat (initialBlockPoolSize P))) div 2;
          p = \<lparr>tailIndex = 0, headIndex = 0, dequeueOptimisticCount = 0, dequeueOvercommit = 0, tailBlock = None,
               idx_raw = False, idx_entries = [], idx_front = 0, pr_blockIndexSlotsUsed = 0,
               pr_blockIndexSize = (if poolBased > half then poolBased else half), pr_blockIndexFront = 0\<rparr>
      in case new_block_index malloc_ok 0 p P of (_, p, P) \<Rightarrow> (p, P))"

section \<open>Enqueue\<close>

text \<open>The leeway test: the sub-queue may not grow by another block.\<close>

definition no_room :: "traits \<Rightarrow> nat \<Rightarrow> nat \<Rightarrow> bool" where
  "no_room tr head currentTailIndex \<longleftrightarrow>
     \<not> index_less head (currentTailIndex + BLOCK_SIZE tr)
     \<or> (MAX_SUBQUEUE_SIZE tr \<noteq> size_max
        \<and> (MAX_SUBQUEUE_SIZE tr = 0 \<or> MAX_SUBQUEUE_SIZE tr - BLOCK_SIZE tr < currentTailIndex - head))"

definition next_of :: "'a pool \<Rightarrow> nat \<Rightarrow> nat" where
  "next_of P b = the (next_block (heap P b))"

text \<open>Insert a new block after the tail of the ring and make it the tail.\<close>

definition ring_insert :: "nat \<Rightarrow> eproducer \<Rightarrow> 'a pool \<Rightarrow> eproducer \<times> 'a pool" where
  "ring_insert newBlock p P =
     (case tailBlock p of
        None \<Rightarrow> (p\<lparr>tailBlock := Some newBlock\<rparr>, upd_block newBlock (\<lambda>b. b\<lparr>next_block := Some newBlock\<rparr>) P)
      | Some t \<Rightarrow>
          (p\<lparr>tailBlock := Some newBlock\<rparr>,
           upd_block t (\<lambda>b. b\<lparr>next_block := Some newBlock\<rparr>)
             (upd_block newBlock (\<lambda>b. b\<lparr>next_block := next_block (heap P t)\<rparr>) P)))"

text \<open>
  The start of a new block: reuse the block ahead when it is empty, otherwise check for leeway, grow
  the index if it is full, and requisition a block.  The flag says whether there is a block to fill.
\<close>

definition fresh_block :: "(nat \<Rightarrow> bool) \<Rightarrow> traits \<Rightarrow> AllocationMode \<Rightarrow> eproducer \<Rightarrow> 'a pool \<Rightarrow> bool \<times> eproducer \<times> 'a pool" where
  "fresh_block malloc_ok tr allocMode p P =
     (if no_room tr (headIndex p) (tailIndex p) then (False, p, P)
      else
        let full = (\<not> idx_raw p \<or> pr_blockIndexSlotsUsed p = pr_blockIndexSize p) in
        if full \<and> allocMode = CannotAlloc then (False, p, P)
        else
          case (if full then new_block_index malloc_ok (pr_blockIndexSlotsUsed p) p P else (True, p, P)) of (ok, p, P) \<Rightarrow>
            if \<not> ok then (False, p, P)
            else
              case requisition_block malloc_ok tr allocMode P of
                (None, P) \<Rightarrow> (False, p, P)
              | (Some newBlock, P) \<Rightarrow>
                  (case ring_insert newBlock p (upd_block newBlock (reset_empty tr explicit_context) P) of (p, P) \<Rightarrow>
                     (True, p\<lparr>pr_blockIndexSlotsUsed := pr_blockIndexSlotsUsed p + 1\<rparr>, P)))"

definition start_block :: "(nat \<Rightarrow> bool) \<Rightarrow> traits \<Rightarrow> AllocationMode \<Rightarrow> eproducer \<Rightarrow> 'a pool \<Rightarrow> bool \<times> eproducer \<times> 'a pool" where
  "start_block malloc_ok tr allocMode p P =
     (case tailBlock p of
        Some t \<Rightarrow>
          if is_empty tr explicit_context (heap P (next_of P t))
          then (True, p\<lparr>tailBlock := Some (next_of P t)\<rparr>,
                upd_block (next_of P t) (reset_empty tr explicit_context) P)
          else fresh_block malloc_ok tr allocMode p P
      | None \<Rightarrow> fresh_block malloc_ok tr allocMode p P)"

text \<open>Add the tail block to the index.\<close>

definition publish_block :: "eproducer \<Rightarrow> eproducer" where
  "publish_block p =
     p\<lparr>idx_entries := (idx_entries p)[pr_blockIndexFront p := (tailIndex p, the (tailBlock p))],
       idx_front := pr_blockIndexFront p,
       pr_blockIndexFront := (pr_blockIndexFront p + 1) mod pr_blockIndexSize p\<rparr>"

text \<open>
  \<open>enqueue\<close>.  \<open>throws\<close> is the exception the constructor of the element throws, if it does; then the
  element is not enqueued and the change of block is reverted.
\<close>

definition explicit_enqueue ::
  "(nat \<Rightarrow> bool) \<Rightarrow> traits \<Rightarrow> AllocationMode \<Rightarrow> exn option \<Rightarrow> 'a \<Rightarrow> eproducer \<Rightarrow> 'a pool \<Rightarrow> (exn + bool) \<times> eproducer \<times> 'a pool" where
  "explicit_enqueue malloc_ok tr allocMode throws element p P =
     (if block_offset tr (tailIndex p) = 0 then
        (case start_block malloc_ok tr allocMode p P of (ok, p', P') \<Rightarrow>
           if \<not> ok then (Inr False, p', P')
           else case raised tr throws of
             Some e \<Rightarrow>
               (Inl e,
                p'\<lparr>pr_blockIndexSlotsUsed := pr_blockIndexSlotsUsed p,
                   tailBlock := (if tailBlock p = None then tailBlock p' else tailBlock p)\<rparr>,
                P')
           | None \<Rightarrow>
               (Inr True,
                (publish_block p')\<lparr>tailIndex := tailIndex p + 1\<rparr>,
                upd_block (the (tailBlock p')) (construct_at tr (tailIndex p) element) P'))
      else case raised tr throws of
        Some e \<Rightarrow> (Inl e, p, P)
      | None \<Rightarrow>
          (Inr True,
           p\<lparr>tailIndex := tailIndex p + 1\<rparr>,
           upd_block (the (tailBlock p)) (construct_at tr (tailIndex p) element) P))"

section \<open>Dequeue\<close>

text \<open>The slot of the index that holds the block of an element, relative to the front entry.\<close>

definition index_slot :: "traits \<Rightarrow> eproducer \<Rightarrow> nat \<Rightarrow> nat" where
  "index_slot tr p index =
     (let headBase = fst (idx_entries p ! idx_front p);
          offset = (int (block_base tr index) - int headBase) div int (BLOCK_SIZE tr)
      in nat ((int (idx_front p) + offset) mod int (pr_blockIndexSize p)))"

text \<open>\<open>dequeue\<close> returns whether there was an element, and what was moved out of its storage.\<close>

definition explicit_dequeue :: "traits \<Rightarrow> eproducer \<Rightarrow> 'a pool \<Rightarrow> (bool \<times> 'a option) \<times> eproducer \<times> 'a pool" where
  "explicit_dequeue tr p P =
     (let tail = tailIndex p; overcommit = dequeueOvercommit p in
      if index_less (dequeueOptimisticCount p - overcommit) tail then
        let myDequeueCount = dequeueOptimisticCount p;
            p = p\<lparr>dequeueOptimisticCount := dequeueOptimisticCount p + 1\<rparr> in
        if index_less (myDequeueCount - overcommit) tail then
          let index = headIndex p;
              block = snd (idx_entries p ! index_slot tr p index)
          in ((True, block_at tr (heap P block) index),
              p\<lparr>headIndex := index + 1\<rparr>,
              upd_block block (\<lambda>b. fst (set_empty tr explicit_context index (destroy_at tr index b))) P)
        else ((False, None), p\<lparr>dequeueOvercommit := dequeueOvercommit p + 1\<rparr>, P)
      else ((False, None), p, P))"

text \<open>
  The block loop of \<open>dequeue_bulk\<close>: empty the rest of one block after the other until \<open>stop\<close>.  Every round
  but an empty one advances, so one more round than there are elements is enough.
\<close>

primrec bulk_blocks :: "nat \<Rightarrow> traits \<Rightarrow> eproducer \<Rightarrow> nat \<Rightarrow> nat \<Rightarrow> nat \<Rightarrow> 'a pool \<Rightarrow> 'a option list \<times> 'a pool" where
  "bulk_blocks 0 tr p stop index slot P = ([], P)"
| "bulk_blocks (Suc rounds) tr p stop index slot P =
     (let blockEnd = block_base tr index + BLOCK_SIZE tr;
          endIndex = (if index_less stop blockEnd then stop else blockEnd);
          block = snd (idx_entries p ! slot);
          items = map (block_at tr (heap P block)) [index..<endIndex];
          P' = upd_block block (\<lambda>b. fst (set_many_empty tr explicit_context index (endIndex - index)
                 (fold (destroy_at tr) [index..<endIndex] b))) P
      in if endIndex = stop then (items, P')
         else case bulk_blocks rounds tr p stop endIndex ((slot + 1) mod pr_blockIndexSize p) P' of
                (rest, P'') \<Rightarrow> (items @ rest, P''))"

definition explicit_dequeue_bulk :: "traits \<Rightarrow> nat \<Rightarrow> eproducer \<Rightarrow> 'a pool \<Rightarrow> 'a option list \<times> eproducer \<times> 'a pool" where
  "explicit_dequeue_bulk tr mx p P =
     (let tail = tailIndex p; overcommit = dequeueOvercommit p;
          desired = tail - (dequeueOptimisticCount p - overcommit) in
      if index_less 0 desired then
        let desiredCount = min desired mx;
            myDequeueCount = dequeueOptimisticCount p;
            p = p\<lparr>dequeueOptimisticCount := myDequeueCount + desiredCount\<rparr>;
            actual = tail - (myDequeueCount - overcommit) in
        if index_less 0 actual then
          let actualCount = min desiredCount actual;
              p = (if actualCount < desiredCount
                   then p\<lparr>dequeueOvercommit := dequeueOvercommit p + (desiredCount - actualCount)\<rparr> else p);
              firstIndex = headIndex p;
              p = p\<lparr>headIndex := firstIndex + actualCount\<rparr>
          in case bulk_blocks (Suc actualCount) tr p (firstIndex + actualCount) firstIndex (index_slot tr p firstIndex) P of
               (items, P) \<Rightarrow> (items, p, P)
        else ([], p\<lparr>dequeueOvercommit := dequeueOvercommit p + desiredCount\<rparr>, P)
      else ([], p, P))"

section \<open>Bulk enqueue\<close>

text \<open>
  \<open>enqueue_bulk\<close> first gets hold of all the blocks it needs and enters them in the index, then constructs the elements
  in them.  How many blocks the tail will enter; the code computes the number of indices they span, with a wrap below
  zero that is undone: the integers compute the same.  Where the loops below carry \<open>currentTailIndex\<close>, it is the value after the
  increment they begin with.
\<close>

definition new_blocks :: "traits \<Rightarrow> nat \<Rightarrow> nat \<Rightarrow> nat" where
  "new_blocks tr startTailIndex count =
     nat ((int startTailIndex + int count - 1) div int (BLOCK_SIZE tr) - (int startTailIndex - 1) div int (BLOCK_SIZE tr))"

definition first_new_base :: "traits \<Rightarrow> nat \<Rightarrow> nat" where
  "first_new_base tr startTailIndex = nat ((int startTailIndex - 1) div int (BLOCK_SIZE tr) * int (BLOCK_SIZE tr) + int (BLOCK_SIZE tr))"

text \<open>Enter the tail block in the index, without moving \<open>front\<close>.\<close>

definition enter_block :: "nat \<Rightarrow> eproducer \<Rightarrow> eproducer" where
  "enter_block base p =
     p\<lparr>idx_entries := (idx_entries p)[pr_blockIndexFront p := (base, the (tailBlock p))],
       pr_blockIndexFront := (pr_blockIndexFront p + 1) mod pr_blockIndexSize p\<rparr>"

definition first_allocated :: "nat option \<Rightarrow> nat \<Rightarrow> nat option" where
  "first_allocated firstAllocatedBlock b = (case firstAllocatedBlock of None \<Rightarrow> Some b | Some f \<Rightarrow> Some f)"

text \<open>The loop that takes blocks from ahead, while they are empty.  It gives the number of blocks still needed.\<close>

primrec take_ahead ::
  "nat \<Rightarrow> traits \<Rightarrow> nat option \<Rightarrow> nat \<Rightarrow> eproducer \<Rightarrow> 'a pool \<Rightarrow> nat \<times> nat option \<times> nat \<times> eproducer" where
  "take_ahead 0 tr firstAllocatedBlock currentTailIndex p P = (0, firstAllocatedBlock, currentTailIndex, p)"
| "take_ahead (Suc blocks) tr firstAllocatedBlock currentTailIndex p P =
     (case tailBlock p of
        None \<Rightarrow> (Suc blocks, firstAllocatedBlock, currentTailIndex, p)
      | Some t \<Rightarrow>
          if next_block (heap P t) \<noteq> firstAllocatedBlock \<and> is_empty tr explicit_context (heap P (next_of P t))
          then take_ahead blocks tr (first_allocated firstAllocatedBlock (next_of P t)) (currentTailIndex + BLOCK_SIZE tr)
                 (enter_block currentTailIndex (p\<lparr>tailBlock := Some (next_of P t)\<rparr>)) P
          else (Suc blocks, firstAllocatedBlock, currentTailIndex, p))"

text \<open>
  The loop that gets the remaining blocks from the pool.  \<open>originalFront\<close> and \<open>originalSlotsUsed\<close> are what a failure
  goes back to.
\<close>

primrec take_from_pool ::
  "nat \<Rightarrow> (nat \<Rightarrow> bool) \<Rightarrow> traits \<Rightarrow> AllocationMode \<Rightarrow> nat \<Rightarrow> nat \<Rightarrow> nat option \<Rightarrow> nat \<Rightarrow> eproducer \<Rightarrow> 'a pool
   \<Rightarrow> bool \<times> nat \<times> nat option \<times> eproducer \<times> 'a pool" where
  "take_from_pool 0 malloc_ok tr allocMode originalSlotsUsed originalFront firstAllocatedBlock currentTailIndex p P =
     (True, originalFront, firstAllocatedBlock, p, P)"
| "take_from_pool (Suc blocks) malloc_ok tr allocMode originalSlotsUsed originalFront firstAllocatedBlock currentTailIndex p P =
     (let full = no_room tr (headIndex p) currentTailIndex;
          grow = (\<not> idx_raw p \<or> pr_blockIndexSlotsUsed p = pr_blockIndexSize p \<or> full)
      in
      if grow \<and> (allocMode = CannotAlloc \<or> full) then (False, originalFront, firstAllocatedBlock, p, P)
      else
        case (if grow then new_block_index malloc_ok originalSlotsUsed p P else (True, p, P)) of (ok, p, P) \<Rightarrow>
          if \<not> ok then (False, originalFront, firstAllocatedBlock, p, P)
          else
            let originalFront = (if grow then originalSlotsUsed else originalFront) in
            case requisition_block malloc_ok tr allocMode P of
              (None, P) \<Rightarrow> (False, originalFront, firstAllocatedBlock, p, P)
            | (Some newBlock, P) \<Rightarrow>
                (case ring_insert newBlock p (upd_block newBlock (set_all_empty tr explicit_context) P) of (p, P) \<Rightarrow>
                   take_from_pool blocks malloc_ok tr allocMode originalSlotsUsed originalFront
                     (first_allocated firstAllocatedBlock newBlock) (currentTailIndex + BLOCK_SIZE tr)
                     (enter_block currentTailIndex (p\<lparr>pr_blockIndexSlotsUsed := pr_blockIndexSlotsUsed p + 1\<rparr>)) P))"

definition undo_bulk :: "nat \<Rightarrow> nat \<Rightarrow> nat option \<Rightarrow> nat option \<Rightarrow> eproducer \<Rightarrow> eproducer" where
  "undo_bulk originalFront originalSlotsUsed startBlock firstAllocatedBlock p =
     p\<lparr>pr_blockIndexFront := originalFront, pr_blockIndexSlotsUsed := originalSlotsUsed,
       tailBlock := (if startBlock = None then firstAllocatedBlock else startBlock)\<rparr>"

text \<open>The loop that resets the blocks from the first new one to the tail; there are \<open>blocks\<close> of them.\<close>

primrec reset_chain :: "nat \<Rightarrow> traits \<Rightarrow> nat \<Rightarrow> nat option \<Rightarrow> 'a pool \<Rightarrow> 'a pool" where
  "reset_chain 0 tr b lastBlock P = P"
| "reset_chain (Suc blocks) tr b lastBlock P =
     (let P = upd_block b (reset_empty tr explicit_context) P
      in if Some b = lastBlock then P else reset_chain blocks tr (next_of P b) lastBlock P)"

text \<open>
  Constructing the elements: those for one block, and one block after the other up to \<open>endBlock\<close>.  Each element comes with the exception
  its constructor throws, if it does; the result says which was thrown, how far the construction came and in which
  block.
\<close>

primrec construct_items :: "traits \<Rightarrow> nat option \<Rightarrow> nat \<Rightarrow> (exn option \<times> 'a) list \<Rightarrow> 'a pool \<Rightarrow> exn option \<times> nat \<times> 'a pool" where
  "construct_items tr b currentTailIndex [] P = (None, currentTailIndex, P)"
| "construct_items tr b currentTailIndex (item # items) P =
     (case raised tr (fst item) of
        Some e \<Rightarrow> (Some e, currentTailIndex, P)
      | None \<Rightarrow> construct_items tr b (currentTailIndex + 1) items
                  (upd_block (the b) (construct_at tr currentTailIndex (snd item)) P))"

definition stop_index :: "traits \<Rightarrow> nat \<Rightarrow> nat \<Rightarrow> nat" where
  "stop_index tr limit currentTailIndex =
     (let stopIndex = block_base tr currentTailIndex + BLOCK_SIZE tr in if index_less limit stopIndex then limit else stopIndex)"

primrec fill_blocks ::
  "nat \<Rightarrow> traits \<Rightarrow> nat \<Rightarrow> nat option \<Rightarrow> nat option \<Rightarrow> nat \<Rightarrow> (exn option \<times> 'a) list \<Rightarrow> 'a pool
   \<Rightarrow> exn option \<times> nat \<times> nat option \<times> 'a pool" where
  "fill_blocks 0 tr newTailIndex endBlock b currentTailIndex items P = (None, currentTailIndex, b, P)"
| "fill_blocks (Suc blocks) tr newTailIndex endBlock b currentTailIndex items P =
     (let n = stop_index tr newTailIndex currentTailIndex - currentTailIndex in
      case construct_items tr b currentTailIndex (take n items) P of (thrown, currentTailIndex, P) \<Rightarrow>
        if thrown \<noteq> None then (thrown, currentTailIndex, b, P)
        else if b = endBlock then (None, currentTailIndex, b, P)
        else fill_blocks blocks tr newTailIndex endBlock (next_block (heap P (the b))) currentTailIndex (drop n items) P)"

text \<open>The loop that destroys what was constructed before a constructor threw.\<close>

primrec destroy_blocks :: "nat \<Rightarrow> traits \<Rightarrow> nat \<Rightarrow> nat option \<Rightarrow> nat option \<Rightarrow> nat \<Rightarrow> 'a pool \<Rightarrow> 'a pool" where
  "destroy_blocks 0 tr constructedStopIndex lastBlock b currentTailIndex P = P"
| "destroy_blocks (Suc blocks) tr constructedStopIndex lastBlock b currentTailIndex P =
     (let stopIndex = stop_index tr constructedStopIndex currentTailIndex;
          P = upd_block (the b) (fold (destroy_at tr) [currentTailIndex..<stopIndex]) P
      in if b = lastBlock then P
         else destroy_blocks blocks tr constructedStopIndex lastBlock (next_block (heap P (the b))) stopIndex P)"

text \<open>
  \<open>enqueue_bulk\<close>.  \<open>front\<close> is stored after the elements have been constructed, as for a constructor that may throw; without
  exceptions nobody can tell when.  The block to begin with is the tail block, or the first new one at a block boundary.
\<close>

definition explicit_enqueue_bulk ::
  "(nat \<Rightarrow> bool) \<Rightarrow> traits \<Rightarrow> AllocationMode \<Rightarrow> (exn option \<times> 'a) list \<Rightarrow> eproducer \<Rightarrow> 'a pool
   \<Rightarrow> (exn + bool) \<times> eproducer \<times> 'a pool" where
  "explicit_enqueue_bulk malloc_ok tr allocMode items p P =
     (let startTailIndex = tailIndex p; startBlock = tailBlock p;
          originalSlotsUsed = pr_blockIndexSlotsUsed p;
          blocks = new_blocks tr startTailIndex (length items)
      in
      case take_ahead blocks tr None (first_new_base tr startTailIndex) p P of (missing, firstAllocatedBlock, currentTailIndex, p') \<Rightarrow>
      case take_from_pool missing malloc_ok tr allocMode originalSlotsUsed (pr_blockIndexFront p) firstAllocatedBlock currentTailIndex p' P of
        (ok, originalFront, firstAllocatedBlock, p', P) \<Rightarrow>
        if \<not> ok then (Inr False, undo_bulk originalFront originalSlotsUsed startBlock firstAllocatedBlock p', P)
        else
          let P = (case firstAllocatedBlock of None \<Rightarrow> P | Some f \<Rightarrow> reset_chain blocks tr f (tailBlock p') P);
              newTailIndex = startTailIndex + length items;
              first = (if block_offset tr startTailIndex = 0 \<and> firstAllocatedBlock \<noteq> None then firstAllocatedBlock else startBlock)
          in
          case fill_blocks (Suc blocks) tr newTailIndex (tailBlock p') first startTailIndex items P of
            (thrown, currentTailIndex, b, P) \<Rightarrow>
            (case thrown of
               Some e \<Rightarrow>
                 (Inl e, undo_bulk originalFront originalSlotsUsed startBlock firstAllocatedBlock p',
                  destroy_blocks (Suc blocks) tr currentTailIndex b
                    (if block_offset tr startTailIndex = 0 then firstAllocatedBlock else startBlock) startTailIndex P)
             | None \<Rightarrow>
                 (Inr True,
                  p'\<lparr>tailBlock := b, tailIndex := newTailIndex,
                     idx_front := (if firstAllocatedBlock \<noteq> None
                                   then (pr_blockIndexFront p' + pr_blockIndexSize p' - 1) mod pr_blockIndexSize p'
                                   else idx_front p')\<rparr>, P)))"

end
