(* ===== verification/CQ_SubQueue.thy ===== *)
theory CQ_SubQueue
  imports CQ_Pool
begin

text \<open>
  What explicit and implicit producers share: how blocks hold the elements of a sub-queue between two
  indices, the arithmetic of block numbers and circular block indices, the frame of an operation on the
  shared pool, and the contract \<open>sub_queue\<close>, the first-in first-out list a producer implements.
\<close>

section \<open>Blocks and their elements\<close>

text \<open>
  The number of blocks started when the tail is at \<open>t\<close>; block number \<open>k\<close> holds the elements from \<open>k * BLOCK_SIZE\<close>.
\<close>

definition started :: "traits \<Rightarrow> nat \<Rightarrow> nat" where
  "started tr t = (t + BLOCK_SIZE tr - 1) div BLOCK_SIZE tr"

text \<open>Block \<open>b\<close> is block number \<open>k\<close> of a sub-queue whose elements from index \<open>h\<close> to \<open>t\<close> are \<open>xs\<close>.\<close>

definition holds :: "traits \<Rightarrow> InnerQueueContext \<Rightarrow> nat \<Rightarrow> nat \<Rightarrow> 'a list \<Rightarrow> nat \<Rightarrow> 'a block \<Rightarrow> bool" where
  "holds tr ctx h t xs k b \<longleftrightarrow>
     length (elements b) = BLOCK_SIZE tr
     \<and> emptied tr ctx b {j. j < BLOCK_SIZE tr \<and> k * BLOCK_SIZE tr + j < h}
     \<and> (\<forall>j<BLOCK_SIZE tr. h \<le> k * BLOCK_SIZE tr + j \<and> k * BLOCK_SIZE tr + j < t
          \<longrightarrow> elements b ! j = Some (xs ! (k * BLOCK_SIZE tr + j - h)))"

text \<open>In a circular index of \<open>S\<close> slots whose next free slot is \<open>front\<close>, the slot of block number \<open>k\<close> of \<open>n\<close>.\<close>

definition slot_of :: "nat \<Rightarrow> nat \<Rightarrow> nat \<Rightarrow> nat \<Rightarrow> nat" where
  "slot_of S front n k = (front + S - (n - k)) mod S"

definition content :: "traits \<Rightarrow> InnerQueueContext \<Rightarrow> (nat \<Rightarrow> nat) \<Rightarrow> nat \<Rightarrow> nat \<Rightarrow> nat \<Rightarrow> nat \<Rightarrow> 'a list \<Rightarrow> 'a pool \<Rightarrow> bool" where
  "content tr ctx W lo n h t xs P \<longleftrightarrow>
     lo * BLOCK_SIZE tr \<le> h \<and> h \<le> t \<and> length xs = t - h
     \<and> (\<forall>k. lo \<le> k \<and> k < n \<longrightarrow> holds tr ctx h t xs k (heap P (W k)))"

lemma div_block: "r < B \<Longrightarrow> (r + k * B) div B = (k :: nat)"
  by simp

lemma started_eq: "r < BLOCK_SIZE tr \<Longrightarrow> t + BLOCK_SIZE tr - 1 = r + k * BLOCK_SIZE tr \<Longrightarrow> started tr t = k"
  unfolding started_def by (simp only: div_block)

lemma started_times: "BLOCK_SIZE tr > 0 \<Longrightarrow> started tr (k * BLOCK_SIZE tr) = k"
  by (rule started_eq [of "BLOCK_SIZE tr - 1"]) simp_all

lemma boundary_times: "t mod B = 0 \<Longrightarrow> \<exists>k. t = k * (B :: nat)"
  by (metis dvd_div_mult_self mod_0_imp_dvd)

lemma started_boundary: "BLOCK_SIZE tr > 0 \<Longrightarrow> t mod BLOCK_SIZE tr = 0 \<Longrightarrow> started tr t * BLOCK_SIZE tr = t"
  using boundary_times [of t "BLOCK_SIZE tr"] started_times by auto

lemma started_Suc_boundary:
  "BLOCK_SIZE tr > 0 \<Longrightarrow> t mod BLOCK_SIZE tr = 0 \<Longrightarrow> started tr (Suc t) = Suc (started tr t)"
  using boundary_times [of t "BLOCK_SIZE tr"] started_times [of tr] started_eq [of 0 tr "Suc t"] by auto

lemma started_inside:
  assumes "BLOCK_SIZE tr > 0" and "t mod BLOCK_SIZE tr \<noteq> 0"
  shows "started tr t = Suc (t div BLOCK_SIZE tr)" and "started tr (Suc t) = started tr t"
proof -
  define q r where "q = t div BLOCK_SIZE tr" and "r = t mod BLOCK_SIZE tr"
  have t: "t = q * BLOCK_SIZE tr + r" "r < BLOCK_SIZE tr" "r \<noteq> 0" using assms by (simp_all add: q_def r_def)
  have "started tr t = Suc q" by (rule started_eq [of "r - 1"]) (use t in simp_all)
  moreover have "started tr (Suc t) = Suc q" by (rule started_eq [of r]) (use t in simp_all)
  ultimately show "started tr t = Suc (t div BLOCK_SIZE tr)" and "started tr (Suc t) = started tr t"
    by (simp_all add: q_def)
qed

lemma below_started: "BLOCK_SIZE tr > 0 \<Longrightarrow> i < t \<Longrightarrow> i div BLOCK_SIZE tr < started tr t"
proof -
  assume B: "BLOCK_SIZE tr > 0" and "i < t"
  then have "i + 1 * BLOCK_SIZE tr \<le> t + BLOCK_SIZE tr - 1" by simp
  then have "(i + 1 * BLOCK_SIZE tr) div BLOCK_SIZE tr \<le> started tr t" unfolding started_def by (rule div_le_mono)
  then show ?thesis using B div_add_self2 [of "BLOCK_SIZE tr" i] by simp
qed

lemma circ_sub: "a < S \<Longrightarrow> d \<le> S \<Longrightarrow> (a + S - d) mod S = (if d \<le> a then a - d else a + S - (d :: nat))"
proof (cases "d \<le> a")
  case True
  assume "a < S"
  then have "(a - d + S) mod S = a - d" by simp
  moreover have "a + S - d = a - d + S" using True by simp
  ultimately show ?thesis using True by (simp only: if_True)
qed simp

lemma emptied_cong: "emptyFlags b' = emptyFlags b \<Longrightarrow> elementsCompletelyDequeued b' = elementsCompletelyDequeued b \<Longrightarrow>
   emptied tr ctx b' js = emptied tr ctx b js"
  by (simp add: emptied_def)

lemma emptied_construct [simp]: "emptied tr ctx (construct_at tr i x b) js = emptied tr ctx b js"
  by (rule emptied_cong) (simp_all add: construct_at_def)

lemma emptied_destroy [simp]: "emptied tr ctx (destroy_at tr i b) js = emptied tr ctx b js"
  by (rule emptied_cong) (simp_all add: destroy_at_def)

lemma emptied_next [simp]: "emptied tr ctx (b\<lparr>next_block := nb\<rparr>) js = emptied tr ctx b js"
  by (rule emptied_cong) simp_all

lemma holds_next [simp]: "holds tr ctx h t xs k (b\<lparr>next_block := nb\<rparr>) = holds tr ctx h t xs k b"
  by (simp add: holds_def)

lemma block_number:
  assumes "j < B" and "k * B + j = (i :: nat)"
  shows "i div B = k" and "i mod B = j"
  using assms by auto

lemma holds_push:
  assumes "holds tr ctx h t xs k b" and "h \<le> t" and "length xs = t - h" and "k = t div BLOCK_SIZE tr" and "BLOCK_SIZE tr > 0"
  shows "holds tr ctx h (Suc t) (xs @ [x]) k (construct_at tr t x b)"
proof -
  have t: "k * BLOCK_SIZE tr + block_offset tr t = t" "block_offset tr t < BLOCK_SIZE tr"
    using assms(4,5) by (simp_all add: block_offset_def)
  have len: "length (elements b) = BLOCK_SIZE tr" using assms(1) by (simp add: holds_def)
  have "elements (construct_at tr t x b) ! j = Some ((xs @ [x]) ! (k * BLOCK_SIZE tr + j - h))"
    if j: "j < BLOCK_SIZE tr" "h \<le> k * BLOCK_SIZE tr + j" "k * BLOCK_SIZE tr + j < Suc t" for j
  proof (cases "j = block_offset tr t")
    case True
    then show ?thesis using t len assms(3) by (simp add: construct_at_def nth_append)
  next
    case False
    then have "k * BLOCK_SIZE tr + j < t" using t j(3) by linarith
    moreover from this have "k * BLOCK_SIZE tr + j - h < length xs" using assms(3) j(2) by linarith
    ultimately show ?thesis using False j assms(1) by (simp add: construct_at_def holds_def nth_append)
  qed
  then show ?thesis using assms(1) len by (simp add: holds_def) (simp add: construct_at_def)
qed

lemma holds_push_other:
  assumes "holds tr ctx h t xs k b" and "h \<le> t" and "length xs = t - h" and "k \<noteq> t div BLOCK_SIZE tr"
  shows "holds tr ctx h (Suc t) (xs @ [x]) k b"
proof -
  have "elements b ! j = Some ((xs @ [x]) ! (k * BLOCK_SIZE tr + j - h))"
    if j: "j < BLOCK_SIZE tr" "h \<le> k * BLOCK_SIZE tr + j" "k * BLOCK_SIZE tr + j < Suc t" for j
  proof -
    have "k * BLOCK_SIZE tr + j \<noteq> t" using block_number(1) [OF j(1), of k t] assms(4) by metis
    then have lt: "k * BLOCK_SIZE tr + j < t" using j(3) by simp
    then have "k * BLOCK_SIZE tr + j - h < length xs" using assms(3) j(2) by linarith
    then show ?thesis using lt j assms(1) by (simp add: holds_def nth_append)
  qed
  then show ?thesis using assms(1) by (simp add: holds_def)
qed

lemma content_push:
  assumes "content tr ctx W lo n h t xs P" and "BLOCK_SIZE tr > 0" and "lo \<le> t div BLOCK_SIZE tr" and "t div BLOCK_SIZE tr < n"
    and "inj_on W {lo..<n}"
    and "heap P' = (heap P)(W (t div BLOCK_SIZE tr) := construct_at tr t x (heap P (W (t div BLOCK_SIZE tr))))"
  shows "content tr ctx W lo n h (Suc t) (xs @ [x]) P'"
proof -
  let ?k = "t div BLOCK_SIZE tr"
  have c: "h \<le> t" "length xs = t - h" "lo * BLOCK_SIZE tr \<le> h"
    "\<And>k. lo \<le> k \<Longrightarrow> k < n \<Longrightarrow> holds tr ctx h t xs k (heap P (W k))"
    using assms(1) by (simp_all add: content_def)
  have "holds tr ctx h (Suc t) (xs @ [x]) k (heap P' (W k))" if k: "lo \<le> k" "k < n" for k
  proof (cases "k = ?k")
    case True
    then show ?thesis using holds_push [OF c(4) c(1,2) refl assms(2), of x] k by (simp add: assms(6))
  next
    case False
    then have "W k \<noteq> W ?k" using assms(3,4,5) k by (auto dest: inj_onD)
    then show ?thesis using holds_push_other [OF c(4) [OF k] c(1,2) False, of x] by (simp add: assms(6))
  qed
  then show ?thesis using c by (simp add: content_def)
qed

lemma slot_of_advance:
  assumes "f < S" and "k \<le> n" and "n - k < S"
  shows "slot_of S (Suc f mod S) (Suc n) k = slot_of S f n k"
proof -
  have "(Suc f mod S + S - (Suc n - k)) mod S = (f + S - (n - k)) mod S"
  proof (cases "Suc f = S")
    case True
    then show ?thesis using assms circ_sub [of 0 S "Suc n - k"] circ_sub [of f S "n - k"] by (auto simp: Suc_diff_le)
  next
    case False
    then have "Suc f + S - (Suc n - k) = f + S - (n - k)" using assms by (simp add: Suc_diff_le)
    then show ?thesis using False assms by simp
  qed
  then show ?thesis by (simp add: slot_of_def)
qed

lemma slot_of_neq_front: "f < S \<Longrightarrow> k < n \<Longrightarrow> n - k < S \<Longrightarrow> slot_of S f n k \<noteq> f"
  unfolding slot_of_def by (subst circ_sub) auto

lemma slot_of_front: "f < S \<Longrightarrow> slot_of S f n n = f"
  unfolding slot_of_def by simp

lemma dynamic_simps [simp]:
  "dynamicallyAllocated (reset_empty tr ctx b) = dynamicallyAllocated b" "dynamicallyAllocated (construct_at tr i x b) = dynamicallyAllocated b"
  "dynamicallyAllocated (destroy_at tr i b) = dynamicallyAllocated b" "dynamicallyAllocated (set_all_empty tr ctx b) = dynamicallyAllocated b"
  "dynamicallyAllocated (fst (set_empty tr ctx i b)) = dynamicallyAllocated b"
  "dynamicallyAllocated (fst (set_many_empty tr ctx i n b)) = dynamicallyAllocated b"
  by (simp_all add: reset_empty_def construct_at_def destroy_at_def set_all_empty_def set_empty_def set_many_empty_def Let_def)

lemma dynamic_fold [simp]: "dynamicallyAllocated (fold (destroy_at tr) is b) = dynamicallyAllocated b"
  by (induction "is" arbitrary: b) simp_all

lemma pool_block_length: "pool_ok tr P \<Longrightarrow> length (elements (heap P b)) = BLOCK_SIZE tr"
  by (simp add: pool_ok_def)

lemma upd_elements_ok:
  assumes "pool_ok tr P"
  shows "pool_ok tr (upd_block b (construct_at tr i x) P)" and "in_use (upd_block b (construct_at tr i x) P) = in_use P"
  using upd_block_ok [OF assms, of "construct_at tr i x" b] pool_block_length [OF assms] by (simp_all add: construct_at_def)

text \<open>
  An operation of a sub-queue that owns the blocks \<open>own\<close> leaves the blocks of the others alone, and owns
  \<open>own'\<close> afterwards.
\<close>

definition frame_step :: "nat set \<Rightarrow> 'a pool \<Rightarrow> nat set \<Rightarrow> 'a pool \<Rightarrow> bool" where
  "frame_step own P own' P' \<longleftrightarrow>
     own \<subseteq> in_use P \<and> same_blocks (in_use P - own) P P' \<and> in_use P' = (in_use P - own) \<union> own'
     \<and> own' \<inter> (in_use P - own) = {}"

lemma frame_step_refl: "own \<subseteq> in_use P \<Longrightarrow> frame_step own P own P"
  by (auto simp: frame_step_def same_blocks_def)

lemma frame_step_trans: "frame_step own P own' P' \<Longrightarrow> frame_step own' P' own'' P'' \<Longrightarrow> frame_step own P own'' P''"
proof -
  assume 1: "frame_step own P own' P'" and 2: "frame_step own' P' own'' P''"
  have "in_use P' - own' = in_use P - own" using 1 by (auto simp: frame_step_def)
  then show ?thesis using 1 2 by (simp add: frame_step_def same_blocks_def)
qed

lemma frame_step_own: "own \<subseteq> in_use P \<Longrightarrow> in_use P' = in_use P \<Longrightarrow> same_blocks (in_use P - own) P P' \<Longrightarrow> frame_step own P own P'"
  by (auto simp: frame_step_def)

lemma frame_step_requisition:
  assumes "pool_ok tr P" and "own \<subseteq> in_use P" and "requisition_block mo tr m P = (r, P')"
  shows "frame_step own P (own \<union> set_option r) P'"
  using requisition_ok [OF assms(1,3)] assms(2) by (cases r) (auto simp: frame_step_def same_blocks_def)

lemma mallocs_frame: "same_blocks B P (P\<lparr>mallocs := m\<rparr>)" "in_use (P\<lparr>mallocs := m\<rparr>) = in_use P"
  "pool_ok tr P \<Longrightarrow> pool_ok tr (P\<lparr>mallocs := m\<rparr>)"
  by (auto simp: same_blocks_def in_use_def available_def pool_ok_def)

lemma reset_empty_simps [simp]:
  "next_block (reset_empty tr ctx b) = next_block b" "elements (reset_empty tr ctx b) = elements b"
  by (simp_all add: reset_empty_def)

lemma reset_block_ok:
  assumes "pool_ok tr P"
  shows "pool_ok tr (upd_block b (reset_empty tr ctx) P)" and "in_use (upd_block b (reset_empty tr ctx) P) = in_use P"
  using upd_block_ok [OF assms, of "reset_empty tr ctx" b] pool_block_length [OF assms] by simp_all

lemma slot_of_Suc: "0 < S \<Longrightarrow> k < n \<Longrightarrow> n - k \<le> S \<Longrightarrow> (slot_of S f n k + 1) mod S = slot_of S f n (Suc k)"
  by (simp add: slot_of_def mod_Suc_eq Suc_diff_le [symmetric])

lemma slot_of_offset:
  assumes "0 < S" and "k < n" and "n - k \<le> S"
  shows "nat ((int (slot_of S f n (n - 1)) + (int k - int (n - 1))) mod int S) = slot_of S f n k"
proof -
  have "(int (slot_of S f n (n - 1)) + (int k - int (n - 1))) mod int S
      = (int (f + S - 1) mod int S + (int k - int (n - 1))) mod int S"
    using assms by (simp add: slot_of_def zmod_int)
  also have "\<dots> = (int (f + S - 1) + (int k - int (n - 1))) mod int S" by (rule mod_add_left_eq)
  also have "int (f + S - 1) + (int k - int (n - 1)) = int (f + S - (n - k))" using assms by linarith
  also have "\<dots> mod int S = int (slot_of S f n k)" by (simp add: slot_of_def zmod_int)
  finally show ?thesis by simp
qed

text \<open>The elements from \<open>h\<close> to \<open>e\<close> leave block number \<open>k\<close>.\<close>

lemma holds_pop:
  assumes "holds tr ctx h t xs k b" and "k * BLOCK_SIZE tr \<le> h" and "h \<le> e" and "e \<le> Suc k * BLOCK_SIZE tr" and "e \<le> t"
    and "length xs = t - h" and "length (elements b') = BLOCK_SIZE tr"
    and "emptied tr ctx b' ({j. j < BLOCK_SIZE tr \<and> k * BLOCK_SIZE tr + j < h} \<union> {h - k * BLOCK_SIZE tr..<e - k * BLOCK_SIZE tr})"
    and "\<And>j. j < BLOCK_SIZE tr \<Longrightarrow> e \<le> k * BLOCK_SIZE tr + j \<Longrightarrow> elements b' ! j = elements b ! j"
  shows "holds tr ctx e t (drop (e - h) xs) k b'"
proof -
  let ?B = "BLOCK_SIZE tr"
  have "{j. j < ?B \<and> k * ?B + j < h} \<union> {h - k * ?B..<e - k * ?B} = {j. j < ?B \<and> k * ?B + j < e}"
    using assms(2-4) by auto
  moreover have "elements b' ! j = Some (drop (e - h) xs ! (k * ?B + j - e))"
    if j: "j < ?B" "e \<le> k * ?B + j" "k * ?B + j < t" for j
  proof -
    have "drop (e - h) xs ! (k * ?B + j - e) = xs ! (k * ?B + j - h)" using j assms(3,5,6) by simp
    then show ?thesis using j assms(1,3) assms(9) [OF j(1,2)] by (simp add: holds_def)
  qed
  ultimately show ?thesis using assms(7,8) by (simp add: holds_def)
qed

lemma holds_pop_other:
  assumes "holds tr ctx h t xs k' b" and "k' \<noteq> k" and "k * BLOCK_SIZE tr \<le> h" and "h \<le> e" and "e \<le> Suc k * BLOCK_SIZE tr"
    and "e \<le> t" and "length xs = t - h"
  shows "holds tr ctx e t (drop (e - h) xs) k' b"
proof -
  let ?B = "BLOCK_SIZE tr"
  have side: "k' * ?B + ?B \<le> h \<or> e \<le> k' * ?B"
  proof (cases "k' < k")
    case True
    then have "Suc k' * ?B \<le> k * ?B" by (intro mult_le_mono1) simp
    then show ?thesis using assms(3) by simp
  next
    case False
    then have "Suc k * ?B \<le> k' * ?B" using assms(2) by (intro mult_le_mono1) simp
    then show ?thesis using assms(5) by simp
  qed
  have "{j. j < ?B \<and> k' * ?B + j < h} = {j. j < ?B \<and> k' * ?B + j < e}" using side assms(4) by auto
  moreover have "elements b ! j = Some (drop (e - h) xs ! (k' * ?B + j - e))"
    if j: "j < ?B" "e \<le> k' * ?B + j" "k' * ?B + j < t" for j
  proof -
    have "drop (e - h) xs ! (k' * ?B + j - e) = xs ! (k' * ?B + j - h)" using j assms(4,6,7) by simp
    then show ?thesis using j assms(1,4) by (simp add: holds_def)
  qed
  ultimately show ?thesis using assms(1) by (simp add: holds_def)
qed

lemma items_in_block:
  assumes "holds tr ctx h t xs k b" and "k * BLOCK_SIZE tr \<le> h" and "h \<le> e" and "e \<le> Suc k * BLOCK_SIZE tr" and "e \<le> t"
    and "length xs = t - h"
  shows "map (block_at tr b) [h..<e] = map Some (take (e - h) xs)"
proof (rule nth_equalityI)
  show "length (map (block_at tr b) [h..<e]) = length (map Some (take (e - h) xs))" using assms by simp
  fix i assume "i < length (map (block_at tr b) [h..<e])"
  then have i: "h + i < e" by simp
  then have lt: "h + i - k * BLOCK_SIZE tr < BLOCK_SIZE tr" using assms(2,4) by simp
  have "block_offset tr (h + i) = h + i - k * BLOCK_SIZE tr"
    unfolding block_offset_def using assms(2) lt block_number(2) [of "h + i - k * BLOCK_SIZE tr" "BLOCK_SIZE tr" k "h + i"] by simp
  moreover have "elements b ! (h + i - k * BLOCK_SIZE tr) = Some (xs ! i)"
    using assms(1,2,5) lt i unfolding holds_def by (auto dest!: spec [of _ "h + i - k * BLOCK_SIZE tr"])
  ultimately show "map (block_at tr b) [h..<e] ! i = map Some (take (e - h) xs) ! i"
    using i assms by (simp add: block_at_def)
qed

lemma upd_block_const: "upd_block b f P = upd_block b (\<lambda>_. f (heap P b)) P"
  by (simp add: upd_block_def)

lemma set_empty_simps [simp]:
  "next_block (fst (set_empty tr ctx i b)) = next_block b" "elements (fst (set_empty tr ctx i b)) = elements b"
  "next_block (fst (set_many_empty tr ctx i c b)) = next_block b" "elements (fst (set_many_empty tr ctx i c b)) = elements b"
  by (simp_all add: set_empty_def set_many_empty_def Let_def)

lemma in_block:
  assumes "BLOCK_SIZE tr > 0" and "h div BLOCK_SIZE tr = k"
  shows "k * BLOCK_SIZE tr \<le> h" and "Suc h \<le> Suc k * BLOCK_SIZE tr" and "h - k * BLOCK_SIZE tr = block_offset tr h"
proof -
  define r where "r = h mod BLOCK_SIZE tr"
  have "h = k * BLOCK_SIZE tr + r" "r < BLOCK_SIZE tr" using assms by (auto simp: r_def)
  then show "k * BLOCK_SIZE tr \<le> h" "Suc h \<le> Suc k * BLOCK_SIZE tr" "h - k * BLOCK_SIZE tr = block_offset tr h"
    unfolding block_offset_def r_def [symmetric] by simp_all
qed

lemma fold_destroy:
  "next_block (fold (destroy_at tr) is b) = next_block b \<and> length (elements (fold (destroy_at tr) is b)) = length (elements b)
   \<and> emptied tr ctx (fold (destroy_at tr) is b) js = emptied tr ctx b js
   \<and> (\<forall>j. j \<notin> block_offset tr ` set is \<longrightarrow> elements (fold (destroy_at tr) is b) ! j = elements b ! j)"
  by (induction "is" arbitrary: b) (simp_all add: destroy_at_def emptied_destroy [unfolded destroy_at_def])

lemma block_offset_range:
  assumes "k * BLOCK_SIZE tr \<le> h" and "e \<le> Suc k * BLOCK_SIZE tr" and "i \<in> {h..<e}"
  shows "block_offset tr i = i - k * BLOCK_SIZE tr" and "i - k * BLOCK_SIZE tr < BLOCK_SIZE tr"
proof -
  show 1: "i - k * BLOCK_SIZE tr < BLOCK_SIZE tr" using assms by auto
  have "k * BLOCK_SIZE tr + (i - k * BLOCK_SIZE tr) = i" using assms by simp
  then show "block_offset tr i = i - k * BLOCK_SIZE tr" unfolding block_offset_def by (rule block_number(2) [OF 1])
qed

lemma set_many_empty_zero: "fst (set_many_empty tr ctx i 0 b) = b"
  by (simp add: set_many_empty_def Let_def)

lemma content_pop:
  assumes "content tr ctx W lo n h t xs P" and "inj_on W {lo..<n}" and "lo \<le> k" and "k < n"
    and "k * BLOCK_SIZE tr \<le> h" and "h \<le> e" and "e \<le> Suc k * BLOCK_SIZE tr" and "e \<le> t"
    and "heap P' = (heap P)(W k := b')" and "holds tr ctx e t (drop (e - h) xs) k b'"
  shows "content tr ctx W lo n e t (drop (e - h) xs) P'"
proof -
  have c: "lo * BLOCK_SIZE tr \<le> h" "h \<le> t" "length xs = t - h"
    "\<And>k. lo \<le> k \<Longrightarrow> k < n \<Longrightarrow> holds tr ctx h t xs k (heap P (W k))"
    using assms(1) by (simp_all add: content_def)
  have "holds tr ctx e t (drop (e - h) xs) k' (heap P' (W k'))" if k': "lo \<le> k'" "k' < n" for k'
  proof (cases "k' = k")
    case True
    then show ?thesis using assms(9,10) by simp
  next
    case False
    then have "W k' \<noteq> W k" using assms(2-4) k' by (auto dest: inj_onD)
    then show ?thesis using holds_pop_other [OF c(4) [OF k'] False assms(5-8) c(3)] assms(9) by simp
  qed
  then show ?thesis using c assms(6,8) by (simp add: content_def)
qed

lemma holds_mark_one:
  assumes "holds tr ctx h t xs k b" and "BLOCK_SIZE tr > 0" and "h div BLOCK_SIZE tr = k" and "h < t" and "length xs = t - h"
  shows "holds tr ctx (Suc h) t (drop (Suc h - h) xs) k (fst (set_empty tr ctx h (destroy_at tr h b)))"
    and "block_at tr b h = Some (hd xs)"
proof -
  let ?B = "BLOCK_SIZE tr"
  let ?b' = "fst (set_empty tr ctx h (destroy_at tr h b))"
  note ib = in_block [OF assms(2,3)]
  have "map (block_at tr b) [h..<Suc h] = map Some (take (Suc h - h) xs)"
    using assms(4) by (intro items_in_block [OF assms(1) ib(1) _ ib(2) _ assms(5)]) simp_all
  then show "block_at tr b h = Some (hd xs)" using assms(4,5) by (cases xs) simp_all
  have "emptied tr ctx ?b' (insert (block_offset tr h) {j. j < ?B \<and> k * ?B + j < h})"
    using assms(1,2) ib by (intro emptied_set_empty) (auto simp: holds_def block_offset_def)
  moreover have "insert (block_offset tr h) {j. j < ?B \<and> k * ?B + j < h}
      = {j. j < ?B \<and> k * ?B + j < h} \<union> {h - k * ?B..<Suc h - k * ?B}"
    using ib assms(2) by (auto simp: Suc_diff_le block_offset_def)
  ultimately have em: "emptied tr ctx ?b' ({j. j < ?B \<and> k * ?B + j < h} \<union> {h - k * ?B..<Suc h - k * ?B})" by simp
  have el: "elements ?b' ! j = elements b ! j" if "j < ?B" "Suc h \<le> k * ?B + j" for j
    using that ib by (auto simp: destroy_at_def)
  show "holds tr ctx (Suc h) t (drop (Suc h - h) xs) k ?b'"
    by (rule holds_pop [OF assms(1) ib(1) _ ib(2) _ assms(5) _ em el])
       (use assms(1,4) in \<open>simp_all add: holds_def destroy_at_def\<close>)
qed

lemma holds_mark_many:
  assumes "holds tr ctx h t xs k b" and "BLOCK_SIZE tr > 0" and "h div BLOCK_SIZE tr = k" and "h < e" and "e \<le> t"
    and "e \<le> Suc k * BLOCK_SIZE tr" and "length xs = t - h"
  shows "holds tr ctx e t (drop (e - h) xs) k (fst (set_many_empty tr ctx h (e - h) (fold (destroy_at tr) [h..<e] b)))"
    and "map (block_at tr b) [h..<e] = map Some (take (e - h) xs)"
proof -
  let ?B = "BLOCK_SIZE tr" and ?c = "fold (destroy_at tr) [h..<e] b"
  let ?b' = "fst (set_many_empty tr ctx h (e - h) ?c)"
  note ib = in_block [OF assms(2,3)]
  show "map (block_at tr b) [h..<e] = map Some (take (e - h) xs)"
    using assms(4) by (intro items_in_block [OF assms(1) ib(1) _ assms(6,5,7)]) simp_all
  have fd: "length (elements ?c) = length (elements b)" "\<And>js. emptied tr ctx ?c js = emptied tr ctx b js"
    "\<And>j. j \<notin> block_offset tr ` {h..<e} \<Longrightarrow> elements ?c ! j = elements b ! j"
    using fold_destroy [of tr "[h..<e]" b] by simp_all
  have range: "block_offset tr h + (e - h) = e - k * ?B" using ib(1,3) assms(4) by simp
  have "emptied tr ctx ?b' ({j. j < ?B \<and> k * ?B + j < h} \<union> {block_offset tr h..<block_offset tr h + (e - h)})"
    using assms(1,4,6) ib range by (intro emptied_set_many) (auto simp: holds_def fd(2))
  then have em: "emptied tr ctx ?b' ({j. j < ?B \<and> k * ?B + j < h} \<union> {h - k * ?B..<e - k * ?B})"
    using range ib(3) by simp
  have el: "elements ?b' ! j = elements b ! j" if j: "j < ?B" "e \<le> k * ?B + j" for j
  proof -
    have "j \<notin> block_offset tr ` {h..<e}" using j block_offset_range [OF ib(1) assms(6)] ib(1) by fastforce
    then show ?thesis using fd(3) by simp
  qed
  show "holds tr ctx e t (drop (e - h) xs) k ?b'"
    by (rule holds_pop [OF assms(1) ib(1) _ assms(6,5,7) _ em el]) (use assms(1,4) fd(1) in \<open>simp_all add: holds_def\<close>)
qed

section \<open>The contract of a sub-queue\<close>

text \<open>
  The operations a sub-queue offers to the queue: \<open>enq\<close>, which may fail or throw, \<open>deq\<close> and \<open>bulk\<close>, all on
  the sub-queue and the shared pool.  \<open>rep own xs p P\<close> relates them to the list \<open>xs\<close> they hold and the
  blocks \<open>own\<close> they own.
\<close>

datatype 'a sub_op = SubEnq "exn option" 'a | SubDeq | SubBulk nat

text \<open>A run of operations: the elements accepted, the elements handed out, and the final state.\<close>

fun sub_run ::
  "(exn option \<Rightarrow> 'a \<Rightarrow> 'p \<Rightarrow> 'a pool \<Rightarrow> (exn + bool) \<times> 'p \<times> 'a pool) \<Rightarrow>
   ('p \<Rightarrow> 'a pool \<Rightarrow> (bool \<times> 'a option) \<times> 'p \<times> 'a pool) \<Rightarrow>
   (nat \<Rightarrow> 'p \<Rightarrow> 'a pool \<Rightarrow> 'a option list \<times> 'p \<times> 'a pool) \<Rightarrow>
   'a sub_op list \<Rightarrow> 'p \<Rightarrow> 'a pool \<Rightarrow> 'a list \<times> 'a option list \<times> 'p \<times> 'a pool" where
  "sub_run enq deq bulk [] p P = ([], [], p, P)"
| "sub_run enq deq bulk (SubEnq th x # ops) p P =
     (case enq th x p P of (r, p, P) \<Rightarrow> case sub_run enq deq bulk ops p P of (acc, out, p, P) \<Rightarrow>
        (if r = Inr True then x # acc else acc, out, p, P))"
| "sub_run enq deq bulk (SubDeq # ops) p P =
     (case deq p P of ((got, x), p, P) \<Rightarrow> case sub_run enq deq bulk ops p P of (acc, out, p, P) \<Rightarrow>
        (acc, if got then x # out else out, p, P))"
| "sub_run enq deq bulk (SubBulk mx # ops) p P =
     (case bulk mx p P of (items, p, P) \<Rightarrow> case sub_run enq deq bulk ops p P of (acc, out, p, P) \<Rightarrow>
        (acc, items @ out, p, P))"

locale sub_queue =
  fixes rep :: "nat set \<Rightarrow> 'a list \<Rightarrow> 'p \<Rightarrow> 'a pool \<Rightarrow> bool"
    and enq :: "exn option \<Rightarrow> 'a \<Rightarrow> 'p \<Rightarrow> 'a pool \<Rightarrow> (exn + bool) \<times> 'p \<times> 'a pool"
    and deq :: "'p \<Rightarrow> 'a pool \<Rightarrow> (bool \<times> 'a option) \<times> 'p \<times> 'a pool"
    and bulk :: "nat \<Rightarrow> 'p \<Rightarrow> 'a pool \<Rightarrow> 'a option list \<times> 'p \<times> 'a pool"
  assumes owns: "rep own xs p P \<Longrightarrow> own \<subseteq> in_use P"
    and enq_law: "rep own xs p P \<Longrightarrow> enq th x p P = (r, p', P') \<Longrightarrow>
      \<exists>own'. frame_step own P own' P' \<and> rep own' (if r = Inr True then xs @ [x] else xs) p' P'"
    and deq_law: "rep own xs p P \<Longrightarrow> length xs < 2 ^ 63 \<Longrightarrow> deq p P = (d, p', P') \<Longrightarrow>
      d = (if xs = [] then (False, None) else (True, Some (hd xs)))
      \<and> (\<exists>own'. frame_step own P own' P' \<and> rep own' (tl xs) p' P')"
    and bulk_law: "rep own xs p P \<Longrightarrow> length xs < 2 ^ 63 \<Longrightarrow> bulk mx p P = (items, p', P') \<Longrightarrow>
      items = map Some (take mx xs) \<and> (\<exists>own'. frame_step own P own' P' \<and> rep own' (drop mx xs) p' P')"
begin

lemma run_fifo:
  "rep own xs p P \<Longrightarrow> length xs + length ops < 2 ^ 63 \<Longrightarrow> sub_run enq deq bulk ops p P = (acc, out, p', P') \<Longrightarrow>
   \<exists>own' ys zs. frame_step own P own' P' \<and> rep own' ys p' P' \<and> out = map Some zs \<and> xs @ acc = zs @ ys"
proof (induction ops arbitrary: own xs p P acc out)
  case Nil
  then show ?case using frame_step_refl [OF owns] by force
next
  case (Cons op ops)
  show ?case
  proof (cases op)
    case (SubEnq th x)
    obtain r p1 P1 where e: "enq th x p P = (r, p1, P1)" by (metis prod_cases3)
    obtain acc1 out1 where s: "sub_run enq deq bulk ops p1 P1 = (acc1, out1, p', P')"
        "acc = (if r = Inr True then x # acc1 else acc1)" "out = out1"
      using Cons.prems(3) SubEnq e by (auto split: prod.splits)
    from enq_law [OF Cons.prems(1) e] obtain own1 where
      1: "frame_step own P own1 P1" "rep own1 (if r = Inr True then xs @ [x] else xs) p1 P1" by blast
    have "length (if r = Inr True then xs @ [x] else xs) + length ops < 2 ^ 63" using Cons.prems(2) by simp
    from Cons.IH [OF 1(2) this s(1)] show ?thesis using frame_step_trans [OF 1(1)] s by (auto split: if_splits)
  next
    case SubDeq
    obtain got x p1 P1 where e: "deq p P = ((got, x), p1, P1)" by (metis prod.exhaust)
    obtain out1 where s: "sub_run enq deq bulk ops p1 P1 = (acc, out1, p', P')" "out = (if got then x # out1 else out1)"
      using Cons.prems(3) SubDeq e by (auto split: prod.splits)
    from deq_law [OF Cons.prems(1) _ e] Cons.prems(2) obtain own1 where
      1: "frame_step own P own1 P1" "rep own1 (tl xs) p1 P1" and r: "(got, x) = (if xs = [] then (False, None) else (True, Some (hd xs)))"
      by auto
    have "length (tl xs) + length ops < 2 ^ 63" using Cons.prems(2) by simp
    from Cons.IH [OF 1(2) this s(1)] obtain own' ys zs where
      2: "frame_step own1 P1 own' P'" "rep own' ys p' P'" "out1 = map Some zs" "tl xs @ acc = zs @ ys" by blast
    then have "out = map Some (take 1 xs @ zs)" "xs @ acc = (take 1 xs @ zs) @ ys" using s(2) r by (cases xs; simp)+
    then show ?thesis using frame_step_trans [OF 1(1) 2(1)] 2(2) by blast
  next
    case (SubBulk mx)
    obtain items p1 P1 where e: "bulk mx p P = (items, p1, P1)" by (metis prod_cases3)
    obtain out1 where s: "sub_run enq deq bulk ops p1 P1 = (acc, out1, p', P')" "out = items @ out1"
      using Cons.prems(3) SubBulk e by (auto split: prod.splits)
    from bulk_law [OF Cons.prems(1) _ e] Cons.prems(2) obtain own1 where
      1: "frame_step own P own1 P1" "rep own1 (drop mx xs) p1 P1" and r: "items = map Some (take mx xs)" by auto
    have "length (drop mx xs) + length ops < 2 ^ 63" using Cons.prems(2) by simp
    from Cons.IH [OF 1(2) this s(1)] obtain own' ys zs where
      2: "frame_step own1 P1 own' P'" "rep own' ys p' P'" "out1 = map Some zs" "drop mx xs @ acc = zs @ ys" by blast
    have "xs @ acc = take mx xs @ (drop mx xs @ acc)" by (simp add: append_assoc [symmetric])
    also have "\<dots> = (take mx xs @ zs) @ ys" using 2(4) by simp
    finally have "xs @ acc = (take mx xs @ zs) @ ys" .
    moreover have "out = map Some (take mx xs @ zs)" using s(2) r 2(3) by simp
    ultimately show ?thesis using frame_step_trans [OF 1(1) 2(1)] 2(2) by blast
  qed
qed

end

text \<open>
  A sub-queue with a bulk enqueue, which is all or nothing for the outcomes that are \<open>sure\<close>; each element comes with the exception its
  constructor throws, if it does.
\<close>

locale bulk_sub_queue = sub_queue +
  fixes enqb :: "(exn option \<times> 'a) list \<Rightarrow> 'b \<Rightarrow> 'a pool \<Rightarrow> (exn + bool) \<times> 'b \<times> 'a pool"
    and sure :: "'b \<Rightarrow> exn + bool \<Rightarrow> bool"
  assumes enqb_law: "rep own xs p P \<Longrightarrow> enqb items p P = (r, p', P') \<Longrightarrow> sure p r \<Longrightarrow>
      \<exists>own'. frame_step own P own' P' \<and> rep own' (if r = Inr True then xs @ map snd items else xs) p' P'"
begin

text \<open>A bulk enqueue between two runs.\<close>

lemma run_bulk_fifo:
  assumes "rep own xs p P" and "sub_run enq deq bulk ops p P = (acc, out, p1, P1)" and "enqb items p1 P1 = (r, p2, P2)" and "sure p1 r"
    and "sub_run enq deq bulk ops' p2 P2 = (acc', out', p', P')"
    and "length xs + length ops + length items + length ops' < 2 ^ 63"
    and "length acc \<le> length ops"
  shows "\<exists>own' ys zs. frame_step own P own' P' \<and> rep own' ys p' P' \<and> out @ out' = map Some zs
    \<and> xs @ acc @ (if r = Inr True then map snd items else []) @ acc' = zs @ ys"
proof -
  let ?new = "if r = Inr True then map snd items else []"
  obtain own1 ys1 zs1 where 1: "frame_step own P own1 P1" "rep own1 ys1 p1 P1" "out = map Some zs1" "xs @ acc = zs1 @ ys1"
    using run_fifo [OF assms(1) _ assms(2)] assms(6) by auto
  obtain own2 where 2: "frame_step own1 P1 own2 P2" "rep own2 (ys1 @ ?new) p2 P2"
    using enqb_law [OF 1(2) assms(3,4)] by (cases "r = Inr True") auto
  have "length zs1 + length ys1 \<le> length xs + length ops" using arg_cong [OF 1(4), of length] assms(7) by simp
  moreover have "length ?new \<le> length items" by simp
  ultimately have "length (ys1 @ ?new) + length ops' < 2 ^ 63" using assms(6) by simp
  from run_fifo [OF 2(2) this assms(5)] obtain own' ys zs where
    3: "frame_step own2 P2 own' P'" "rep own' ys p' P'" "out' = map Some zs" "(ys1 @ ?new) @ acc' = zs @ ys" by blast
  have "xs @ acc @ ?new @ acc' = (zs1 @ zs) @ ys" using 1(4) 3(4) by (metis append.assoc)
  then show ?thesis using frame_step_trans [OF frame_step_trans [OF 1(1) 2(1)] 3(1)] 1(3) 3(2,3) by (metis map_append)
qed

end

lemma sub_run_accepted: "sub_run enq deq bulk ops p P = (acc, out, p', P') \<Longrightarrow> length acc \<le> length ops"
proof (induction ops arbitrary: p P acc out)
  case (Cons op ops)
  show ?case
  proof (cases op)
    case (SubEnq th x)
    then show ?thesis using Cons.prems by (auto split: prod.splits if_splits dest: Cons.IH intro: le_SucI)
  qed (use Cons.prems in \<open>auto split: prod.splits dest: Cons.IH intro: le_SucI\<close>)
qed simp

end
