(* ===== verification/CQ_ExplicitFifo.thy ===== *)
theory CQ_ExplicitFifo
  imports CQ_Explicit CQ_SubQueue
begin

text \<open>
  Correctness of the sub-queue of an explicit producer (theory \<open>CQ_Explicit\<close>): an invariant that
  relates the ring of blocks, the circular block index and the emptiness flags to the list of
  elements in the queue, and that every operation acts on that list as on a first-in first-out queue while
  it leaves the blocks of other sub-queues alone.  The locale \<open>sub_queue\<close> states this contract;
  it is interpreted here on the explicit producer.
\<close>

section \<open>The ring\<close>

definition ring :: "'a pool \<Rightarrow> nat list \<Rightarrow> bool" where
  "ring P bs \<longleftrightarrow> distinct bs \<and> (\<forall>i<length bs. next_block (heap P (bs ! i)) = Some (bs ! (Suc i mod length bs)))"

lemma ring_rotate: "ring P (b # bs) \<longleftrightarrow> ring P (bs @ [b])"
proof -
  let ?n = "Suc (length bs)"
  have rot: "(bs @ [b]) ! i = (b # bs) ! (Suc i mod ?n)" if "i < ?n" for i
    using that by (cases "i = length bs") (auto simp: nth_append)
  have suc: "Suc (Suc i mod ?n) mod ?n = Suc (Suc i) mod ?n" for i by (simp add: mod_Suc_eq)
  have step: "next_block (heap P ((bs @ [b]) ! i)) = Some ((bs @ [b]) ! (Suc i mod ?n))
    \<longleftrightarrow> next_block (heap P ((b # bs) ! (Suc i mod ?n))) = Some ((b # bs) ! (Suc (Suc i mod ?n) mod ?n))" if "i < ?n" for i
    using rot [OF that] rot [of "Suc i mod ?n"] by (simp add: suc)
  have onto: "(\<forall>j<?n. Q j) \<longleftrightarrow> (\<forall>i<?n. Q (Suc i mod ?n))" for Q :: "nat \<Rightarrow> bool"
  proof (intro iffI allI impI)
    fix j assume all: "\<forall>i<?n. Q (Suc i mod ?n)" and j: "j < ?n"
    show "Q j" using all [rule_format, of "length bs"] all [rule_format, of "j - 1"] j by (cases "j = 0") simp_all
  qed simp
  show ?thesis unfolding ring_def using step
    onto [of "\<lambda>j. next_block (heap P ((b # bs) ! j)) = Some ((b # bs) ! (Suc j mod ?n))"] by auto
qed

lemma ring_next_last:
  assumes "ring P bs" and "bs \<noteq> []"
  shows "next_block (heap P (last bs)) = Some (hd bs)"
proof -
  have "length bs - 1 < length bs" using assms(2) by simp
  then have "next_block (heap P (bs ! (length bs - 1))) = Some (bs ! (Suc (length bs - 1) mod length bs))"
    using assms(1) by (simp add: ring_def)
  then show ?thesis using assms(2) by (simp add: last_conv_nth hd_conv_nth)
qed

lemma ring_cong: "ring P bs \<Longrightarrow> \<forall>b\<in>set bs. next_block (heap P' b) = next_block (heap P b) \<Longrightarrow> ring P' bs"
  by (auto simp: ring_def)

lemma ring_insert_ring:
  assumes "ring P bs" and "b \<notin> set bs" and "tailBlock p = (if bs = [] then None else Some (last bs))"
    and "ring_insert b p P = (p', P')"
  shows "ring P' (bs @ [b]) \<and> p' = p\<lparr>tailBlock := Some b\<rparr>
    \<and> (\<forall>c. heap P' c = (heap P c)\<lparr>next_block := next_block (heap P' c)\<rparr>)
    \<and> (\<forall>c. c \<notin> set (bs @ [b]) \<longrightarrow> heap P' c = heap P c)
    \<and> in_use P' = in_use P \<and> (pool_ok tr P \<longrightarrow> pool_ok tr P')"
proof (cases "bs = []")
  case True
  then show ?thesis using assms
    by (auto simp: ring_insert_def ring_def upd_block_def in_use_def available_def pool_ok_def split: if_splits)
next
  case False
  then have P': "P' = upd_block (last bs) (\<lambda>c. c\<lparr>next_block := Some b\<rparr>)
      (upd_block b (\<lambda>c. c\<lparr>next_block := next_block (heap P (last bs))\<rparr>) P)" "p' = p\<lparr>tailBlock := Some b\<rparr>"
    using assms(3,4) by (auto simp: ring_insert_def)
  have neq: "b \<noteq> last bs" using False assms(2) by auto
  have d: "distinct bs" using assms(1) by (simp add: ring_def)
  have "ring P' (bs @ [b])" unfolding ring_def
  proof (intro conjI allI impI)
    show "distinct (bs @ [b])" using d assms(2) by simp
    fix i assume i: "i < length (bs @ [b])"
    consider "Suc i < length bs" | "Suc i = length bs" | "i = length bs" using i by force
    then show "next_block (heap P' ((bs @ [b]) ! i)) = Some ((bs @ [b]) ! (Suc i mod length (bs @ [b])))"
    proof cases
      case 1
      then have "bs ! i \<noteq> last bs" using d False by (simp add: last_conv_nth nth_eq_iff_index_eq)
      moreover have "bs ! i \<noteq> b" using 1 assms(2) by auto
      moreover have "next_block (heap P (bs ! i)) = Some (bs ! Suc i)" using 1 assms(1) by (simp add: ring_def)
      ultimately show ?thesis using 1 by (simp add: P' nth_append)
    next
      case 2
      then have "bs ! i = last bs" by (metis False diff_Suc_1 last_conv_nth)
      then show ?thesis using 2 by (simp add: P' nth_append)
    next
      case 3
      then show ?thesis using neq False ring_next_last [OF assms(1) False] by (simp add: P' nth_append hd_conv_nth)
    qed
  qed
  then show ?thesis using neq False by (auto simp: P' upd_block_def in_use_def available_def pool_ok_def split: if_splits)
qed

section \<open>The invariant\<close>

definition index_ok :: "traits \<Rightarrow> (nat \<Rightarrow> nat) \<Rightarrow> nat \<Rightarrow> nat \<Rightarrow> eproducer \<Rightarrow> bool" where
  "index_ok tr W lo n p \<longleftrightarrow>
     0 < pr_blockIndexSize p \<and> lo \<le> n \<and> n - lo \<le> pr_blockIndexSlotsUsed p
     \<and> pr_blockIndexSlotsUsed p \<le> pr_blockIndexSize p
     \<and> (if idx_raw p then length (idx_entries p) = pr_blockIndexSize p \<and> pr_blockIndexFront p < pr_blockIndexSize p
        else pr_blockIndexSlotsUsed p = 0)
     \<and> (lo < n \<longrightarrow> idx_front p = slot_of (pr_blockIndexSize p) (pr_blockIndexFront p) n (n - 1))
     \<and> (\<forall>k. lo \<le> k \<and> k < n \<longrightarrow>
          idx_entries p ! slot_of (pr_blockIndexSize p) (pr_blockIndexFront p) n k = (k * BLOCK_SIZE tr, W k))"

text \<open>
  The sub-queue holds \<open>xs\<close>, the elements from index \<open>h\<close> on.  The ring consists of the blocks
  \<open>stale\<close>, which a reverted enqueue left behind, followed by blocks number \<open>lo\<close> to the last started.
\<close>

definition blocks_of :: "nat list \<Rightarrow> (nat \<Rightarrow> nat) \<Rightarrow> nat \<Rightarrow> nat \<Rightarrow> nat list" where
  "blocks_of stale W lo n = stale @ map W [lo..<n]"

definition ring_ok :: "traits \<Rightarrow> nat list \<Rightarrow> (nat \<Rightarrow> nat) \<Rightarrow> nat \<Rightarrow> nat \<Rightarrow> eproducer \<Rightarrow> 'a pool \<Rightarrow> bool" where
  "ring_ok tr stale W lo n p P \<longleftrightarrow>
     ring P (blocks_of stale W lo n) \<and> set (blocks_of stale W lo n) \<subseteq> in_use P
     \<and> tailBlock p = (if blocks_of stale W lo n = [] then None else Some (last (blocks_of stale W lo n)))
     \<and> (stale \<noteq> [] \<longrightarrow> emptied tr explicit_context (heap P (hd stale)) {})"

definition ep_rep :: "traits \<Rightarrow> nat list \<Rightarrow> (nat \<Rightarrow> nat) \<Rightarrow> nat \<Rightarrow> 'a list \<Rightarrow> eproducer \<Rightarrow> 'a pool \<Rightarrow> bool" where
  "ep_rep tr stale W lo xs p P \<longleftrightarrow>
     BLOCK_SIZE tr > 0 \<and> pool_ok tr P
     \<and> dequeueOptimisticCount p = headIndex p + dequeueOvercommit p
     \<and> index_ok tr W lo (started tr (tailIndex p)) p
     \<and> ring_ok tr stale W lo (started tr (tailIndex p)) p P
     \<and> content tr explicit_context W lo (started tr (tailIndex p)) (headIndex p) (tailIndex p) xs P"

text \<open>What holds in addition while no constructor has thrown: all blocks are in use, and the index counts them.\<close>

definition tidy :: "bool \<Rightarrow> nat list \<Rightarrow> nat \<Rightarrow> nat \<Rightarrow> eproducer \<Rightarrow> bool" where
  "tidy c stale lo n p \<longleftrightarrow> (c \<longrightarrow> stale = [] \<and> n - lo = pr_blockIndexSlotsUsed p)"

lemma tidy_cong: "pr_blockIndexSlotsUsed p' = pr_blockIndexSlotsUsed p \<Longrightarrow> tidy c stale lo n p' = tidy c stale lo n p"
  by (simp add: tidy_def)

lemma tidy_fields [simp]:
  "tidy c stale lo n (p\<lparr>tailBlock := b\<rparr>) = tidy c stale lo n p" "tidy c stale lo n (p\<lparr>tailIndex := i\<rparr>) = tidy c stale lo n p"
  "tidy c stale lo n (p\<lparr>idx_front := i\<rparr>) = tidy c stale lo n p"
  by (simp_all add: tidy_def)

lemma tidy_Suc:
  "tidy c stale lo n p \<Longrightarrow> lo \<le> n \<Longrightarrow> tidy c stale lo (Suc n) (p\<lparr>pr_blockIndexSlotsUsed := Suc (pr_blockIndexSlotsUsed p)\<rparr>)"
  by (auto simp: tidy_def)

text \<open>
  The sub-queue \<open>p\<close>, which owns the blocks \<open>own\<close> of \<open>P\<close>, is well formed, tidy if \<open>c\<close> says so, and holds \<open>xs\<close>, oldest first.
\<close>

definition ep_queue :: "traits \<Rightarrow> bool \<Rightarrow> nat set \<Rightarrow> 'a list \<Rightarrow> eproducer \<Rightarrow> 'a pool \<Rightarrow> bool" where
  "ep_queue tr c own xs p P \<longleftrightarrow>
     (\<exists>stale W lo. ep_rep tr stale W lo xs p P \<and> tidy c stale lo (started tr (tailIndex p)) p
        \<and> own = set (blocks_of stale W lo (started tr (tailIndex p))))"

section \<open>The block index\<close>

lemma copy_index_eq:
  assumes "S > 0" and "front < S" and "0 < u" and "u \<le> rounds" and "u \<le> S"
  shows "copy_index rounds entries S front ((front + S - u) mod S) = map (\<lambda>j. entries ! ((front + S - u + j) mod S)) [0..<u]"
  using assms(3,4,5)
proof (induction rounds arbitrary: u)
  case (Suc rounds)
  let ?i = "(front + S - u) mod S"
  have next_i: "(?i + 1) mod S = (front + S - (u - 1)) mod S"
    using Suc.prems by (simp add: mod_Suc_eq Suc_diff_le)
  show ?case
  proof (cases "u = 1")
    case True
    then have "(?i + 1) mod S = front" using next_i assms(2) by simp
    then show ?thesis using True by simp
  next
    case False
    then have u: "0 < u - 1" "u - 1 < S" using Suc.prems by auto
    have "(?i + 1) mod S \<noteq> front"
    proof
      assume "(?i + 1) mod S = front"
      then have eq: "(front + S - (u - 1)) mod S = front" using next_i by simp
      show False using eq circ_sub [of front S "u - 1"] assms(2) u by (simp split: if_splits)
    qed
    moreover have "copy_index rounds entries S front ((front + S - (u - 1)) mod S)
        = map (\<lambda>j. entries ! ((front + S - (u - 1) + j) mod S)) [0..<u - 1]"
      using Suc.prems u by (intro Suc.IH) auto
    moreover have "[0..<u] = 0 # map Suc [0..<u - 1]" using Suc.prems by (simp add: map_Suc_upt upt_conv_Cons)
    moreover have "Suc (front + S) - u = Suc (front + S - u)" using Suc.prems by (simp add: Suc_diff_le)
    ultimately show ?thesis using next_i by (simp add: o_def)
  qed
qed simp

lemma slot_of_grown: "n - k \<le> u \<Longrightarrow> 0 < n - k \<Longrightarrow> u \<le> S \<Longrightarrow> slot_of (2 * S) u n k = u - (n - k)"
  unfolding slot_of_def by (subst circ_sub) auto

lemma new_block_index_ok:
  assumes "index_ok tr W lo n p" and "new_block_index mo (pr_blockIndexSlotsUsed p) p P = (ok, p', P')"
  shows "index_ok tr W lo n p'"
    and "ok \<Longrightarrow> idx_raw p' \<and> pr_blockIndexSlotsUsed p' < pr_blockIndexSize p'"
    and "\<exists>r e s f g. p' = p\<lparr>idx_raw := r, idx_entries := e, pr_blockIndexSize := s, idx_front := f, pr_blockIndexFront := g\<rparr>"
    and "P' = P\<lparr>mallocs := mallocs P + 1\<rparr>"
proof -
  let ?S = "pr_blockIndexSize p" and ?u = "pr_blockIndexSlotsUsed p" and ?f = "pr_blockIndexFront p"
  let ?copied = "map (\<lambda>j. idx_entries p ! ((?f + ?S - ?u + j) mod ?S)) [0..<?u]"
  have ix: "0 < ?S" "?u \<le> ?S" "n - lo \<le> ?u" "lo \<le> n" using assms(1) by (simp_all add: index_ok_def)
  have copied: "(if ?u \<noteq> 0 then copy_index ?S (idx_entries p) ?S ?f ((?f + ?S - ?u) mod ?S) else []) = ?copied"
    using assms(1) ix copy_index_eq [of ?S ?f ?u ?S "idx_entries p"] by (auto simp: index_ok_def split: if_splits)
  have entry: "?copied ! (?u - (n - k)) = (k * BLOCK_SIZE tr, W k)" if k: "lo \<le> k" "k < n" for k
  proof -
    have "?f + ?S - ?u + (?u - (n - k)) = ?f + ?S - (n - k)" using k ix by simp
    then have "?copied ! (?u - (n - k)) = idx_entries p ! slot_of ?S ?f n k" using k ix by (simp add: slot_of_def)
    then show ?thesis using k assms(1) by (simp add: index_ok_def)
  qed
  have slots: "slot_of (2 * ?S) ?u n k = ?u - (n - k)" if "lo \<le> k" "k < n" for k
    using that ix by (intro slot_of_grown) auto
  show "index_ok tr W lo n p'"
  proof (cases "mo (mallocs P)")
    case True
    then have p': "p' = p\<lparr>pr_blockIndexSize := 2 * ?S, idx_entries := ?copied @ replicate (2 * ?S - ?u) (0, 0),
         idx_front := (if ?u = 0 then size_max else ?u - 1), pr_blockIndexFront := ?u, idx_raw := True\<rparr>"
      using assms(2) copied by (simp add: new_block_index_def malloc_def Let_def)
    have "(?copied @ replicate (2 * ?S - ?u) (0, 0)) ! (?u - (n - k)) = (k * BLOCK_SIZE tr, W k)" if "lo \<le> k" "k < n" for k
    proof -
      have "?u - (n - k) < length ?copied" using that ix by simp
      then show ?thesis using entry [OF that] by (simp only: nth_append if_True)
    qed
    then show ?thesis using ix slots slots [of "n - 1"] by (auto simp: index_ok_def p')
  next
    case False
    then show ?thesis using assms by (simp add: new_block_index_def malloc_def)
  qed
  show "ok \<Longrightarrow> idx_raw p' \<and> pr_blockIndexSlotsUsed p' < pr_blockIndexSize p'"
    using assms(2) ix by (auto simp: new_block_index_def malloc_def Let_def split: if_splits)
  show "\<exists>r e s f g. p' = p\<lparr>idx_raw := r, idx_entries := e, pr_blockIndexSize := s, idx_front := f, pr_blockIndexFront := g\<rparr>"
  proof (cases "mo (mallocs P)")
    case True
    then show ?thesis using assms(2) copied by (cases p) (auto simp: new_block_index_def malloc_def Let_def)
  next
    case False
    then show ?thesis using assms(2) by (cases p) (auto simp: new_block_index_def malloc_def Let_def)
  qed
  show "P' = P\<lparr>mallocs := mallocs P + 1\<rparr>"
    using assms(2) by (auto simp: new_block_index_def malloc_def Let_def split: if_splits)
qed

section \<open>Adding a block to the index\<close>

lemma publish_index:
  assumes "index_ok tr W lo n p" and "idx_raw p" and "Suc n - lo \<le> pr_blockIndexSlotsUsed p"
    and "tailIndex p = n * BLOCK_SIZE tr" and "tailBlock p = Some b"
  shows "index_ok tr (W(n := b)) lo (Suc n) ((publish_block p)\<lparr>tailIndex := t'\<rparr>)"
proof -
  let ?S = "pr_blockIndexSize p" and ?f = "pr_blockIndexFront p"
  have ix: "0 < ?S" "lo \<le> n" "pr_blockIndexSlotsUsed p \<le> ?S" "length (idx_entries p) = ?S" "?f < ?S"
    "\<And>k. lo \<le> k \<Longrightarrow> k < n \<Longrightarrow> idx_entries p ! slot_of ?S ?f n k = (k * BLOCK_SIZE tr, W k)"
    using assms(1,2) by (simp_all add: index_ok_def)
  have "(idx_entries p)[?f := (n * BLOCK_SIZE tr, b)] ! slot_of ?S (Suc ?f mod ?S) (Suc n) k
      = (k * BLOCK_SIZE tr, (W(n := b)) k)" if k: "lo \<le> k" "k < Suc n" for k
  proof -
    have adv: "slot_of ?S (Suc ?f mod ?S) (Suc n) k = slot_of ?S ?f n k"
      using k ix assms(3) by (intro slot_of_advance) auto
    show ?thesis
    proof (cases "k = n")
      case True
      then show ?thesis using adv slot_of_front [OF ix(5)] ix by simp
    next
      case False
      then have "slot_of ?S ?f n k \<noteq> ?f" using k ix assms(3) by (intro slot_of_neq_front) auto
      then show ?thesis using False k adv ix(6) [of k] by simp
    qed
  qed
  moreover have "slot_of ?S (Suc ?f mod ?S) (Suc n) n = ?f"
    using slot_of_advance [OF ix(5), of n n] slot_of_front [OF ix(5)] ix assms(3) by simp
  ultimately show ?thesis using ix assms by (auto simp: index_ok_def publish_block_def)
qed

section \<open>Starting a block\<close>

text \<open>
  What holds between \<open>start_block\<close> and the publication of the block \<open>b\<close> it provides: the ring ends in
  \<open>b\<close>, there is room for it in the index, and everything else still holds.
\<close>

definition about_to :: "traits \<Rightarrow> nat list \<Rightarrow> (nat \<Rightarrow> nat) \<Rightarrow> nat \<Rightarrow> nat \<Rightarrow> nat \<Rightarrow> 'a list \<Rightarrow> eproducer \<Rightarrow> 'a pool \<Rightarrow> bool" where
  "about_to tr stale W lo n b xs p P \<longleftrightarrow>
     BLOCK_SIZE tr > 0 \<and> pool_ok tr P \<and> tailIndex p = n * BLOCK_SIZE tr
     \<and> dequeueOptimisticCount p = headIndex p + dequeueOvercommit p
     \<and> index_ok tr W lo n p \<and> idx_raw p \<and> Suc n - lo \<le> pr_blockIndexSlotsUsed p
     \<and> ring P (blocks_of stale W lo n @ [b]) \<and> set (blocks_of stale W lo n @ [b]) \<subseteq> in_use P
     \<and> tailBlock p = Some b
     \<and> (stale \<noteq> [] \<longrightarrow> emptied tr explicit_context (heap P (hd stale)) {})
     \<and> emptied tr explicit_context (heap P b) {}
     \<and> content tr explicit_context W lo n (headIndex p) (tailIndex p) xs P"

lemma blocks_of_snoc: "lo \<le> n \<Longrightarrow> blocks_of stale (W(n := b)) lo (Suc n) = blocks_of stale W lo n @ [b]"
  by (simp add: blocks_of_def)

lemma ring_inj: "ring P (blocks_of stale W lo n) \<Longrightarrow> inj_on W {lo..<n}"
  by (auto simp: ring_def blocks_of_def distinct_map)

lemma about_to_publish:
  assumes "about_to tr stale W lo n b xs p P"
  shows "ep_rep tr stale (W(n := b)) lo (xs @ [x]) ((publish_block p)\<lparr>tailIndex := tailIndex p + 1\<rparr>)
    (upd_block b (construct_at tr (tailIndex p) x) P)"
proof -
  let ?P = "upd_block b (construct_at tr (tailIndex p) x) P" and ?W = "W(n := b)"
  note a = assms [unfolded about_to_def]
  have B: "BLOCK_SIZE tr > 0" and t: "tailIndex p = n * BLOCK_SIZE tr" and ok: "pool_ok tr P" using a by simp_all
  have lo: "lo \<le> n" using a by (simp add: index_ok_def)
  have n: "started tr (tailIndex p + 1) = Suc n" using B t started_Suc_boundary [of tr "tailIndex p"] started_times [of tr n] by simp
  have ring: "ring P (blocks_of stale ?W lo (Suc n))" using a lo by (simp add: blocks_of_snoc)
  have new: "b \<notin> set (blocks_of stale W lo n)" using a by (auto simp: ring_def)
  have "holds tr explicit_context (headIndex p) (tailIndex p) xs n (heap P b)"
    using a ok by (auto simp: holds_def content_def pool_ok_def)
  moreover have "?W k = W k" "k \<noteq> n" if "k < n" for k using that by auto
  ultimately have "content tr explicit_context ?W lo (Suc n) (headIndex p) (tailIndex p) xs P"
    using a by (auto simp: content_def less_Suc_eq)
  then have "content tr explicit_context ?W lo (Suc n) (headIndex p) (Suc (tailIndex p)) (xs @ [x]) ?P"
    using B t lo ring_inj [OF ring] by (intro content_push [where P = P]) simp_all
  moreover have "ring ?P (blocks_of stale ?W lo (Suc n))"
    by (rule ring_cong [OF ring]) (simp add: construct_at_def)
  moreover have "index_ok tr ?W lo (Suc n) ((publish_block p)\<lparr>tailIndex := tailIndex p + 1\<rparr>)"
    using a t by (intro publish_index) simp_all
  moreover have "stale \<noteq> [] \<Longrightarrow> hd stale \<noteq> b" using new by (cases stale) (auto simp: blocks_of_def)
  ultimately show ?thesis using a upd_elements_ok [OF ok] lo B n
    by (simp add: ep_rep_def ring_ok_def blocks_of_snoc publish_block_def)
qed

text \<open>A constructor that throws leaves the new block behind as stale.\<close>

lemma revert_index:
  "index_ok tr W lo n p \<Longrightarrow> n - lo \<le> u \<Longrightarrow> u \<le> pr_blockIndexSize p \<Longrightarrow> idx_raw p \<Longrightarrow>
   index_ok tr W lo n (p\<lparr>pr_blockIndexSlotsUsed := u, tailBlock := tb\<rparr>)"
  by (simp add: index_ok_def)

lemma about_to_revert:
  assumes "about_to tr stale W lo n b xs p P" and "n - lo \<le> u" and "u \<le> pr_blockIndexSize p"
    and "tb = Some (last (b # blocks_of stale W lo n))"
  shows "ep_rep tr (b # stale) W lo xs (p\<lparr>pr_blockIndexSlotsUsed := u, tailBlock := tb\<rparr>) P"
proof -
  note a = assms(1) [unfolded about_to_def]
  have n: "started tr (tailIndex p) = n" using a started_times [of tr n] by simp
  have "ring P (b # blocks_of stale W lo n)" using a by (simp add: ring_rotate)
  then have "ring P (blocks_of (b # stale) W lo n)" by (simp add: blocks_of_def)
  moreover have "index_ok tr W lo n (p\<lparr>pr_blockIndexSlotsUsed := u, tailBlock := tb\<rparr>)"
    using a assms(2,3) by (intro revert_index) simp_all
  ultimately show ?thesis using a n assms(4) by (elim conjE) (simp add: ep_rep_def ring_ok_def blocks_of_def)
qed

section \<open>Frames\<close>

lemma ring_frame: "ring P bs \<Longrightarrow> set bs \<subseteq> B \<Longrightarrow> same_blocks B P P' \<Longrightarrow> ring P' bs"
  by (rule ring_cong) (auto simp: same_blocks_def)

lemma blocks_of_mem: "lo \<le> k \<Longrightarrow> k < n \<Longrightarrow> W k \<in> set (blocks_of stale W lo n)"
  by (simp add: blocks_of_def)

lemma content_frame:
  "content tr explicit_context W lo n h t xs P \<Longrightarrow> set (blocks_of stale W lo n) \<subseteq> B \<Longrightarrow> same_blocks B P P' \<Longrightarrow> content tr explicit_context W lo n h t xs P'"
  using blocks_of_mem [of lo _ n W stale] by (auto simp: content_def same_blocks_def subset_iff)

lemma ring_ok_frame:
  assumes "ring_ok tr stale W lo n p P" and "set (blocks_of stale W lo n) \<subseteq> B" and "same_blocks B P P'"
    and "set (blocks_of stale W lo n) \<subseteq> in_use P'"
  shows "ring_ok tr stale W lo n p P'"
  using assms ring_frame [of P _ B P'] by (cases stale) (auto simp: ring_ok_def blocks_of_def same_blocks_def)

text \<open>A sub-queue does not change when the pool changes outside its blocks.\<close>

lemma ep_rep_frame:
  assumes "ep_rep tr stale W lo xs p P" and "same_blocks B P P'" and "pool_ok tr P'"
    and "set (blocks_of stale W lo (started tr (tailIndex p))) \<subseteq> B"
    and "set (blocks_of stale W lo (started tr (tailIndex p))) \<subseteq> in_use P'"
  shows "ep_rep tr stale W lo xs p P'"
  using assms(1,3) ring_ok_frame [OF _ assms(4,2,5), of tr p] content_frame [OF _ assms(4,2)]
  by (simp add: ep_rep_def)

lemma ep_rep_in_use: "ep_rep tr stale W lo xs p P \<Longrightarrow> set (blocks_of stale W lo (started tr (tailIndex p))) \<subseteq> in_use P"
  by (simp add: ep_rep_def ring_ok_def)

lemma ep_rep_new_index:
  assumes "ep_rep tr stale W lo xs p P" and "new_block_index mo (pr_blockIndexSlotsUsed p) p P = (ok, p', P')"
  shows "ep_rep tr stale W lo xs p' P'" and "ok \<Longrightarrow> idx_raw p' \<and> pr_blockIndexSlotsUsed p' < pr_blockIndexSize p'"
    and "tailIndex p' = tailIndex p" "pr_blockIndexSlotsUsed p' = pr_blockIndexSlotsUsed p" "tailBlock p' = tailBlock p"
    and "in_use P' = in_use P"
proof -
  let ?n = "started tr (tailIndex p)"
  have ix: "index_ok tr W lo ?n p" using assms(1) by (simp add: ep_rep_def)
  note nb = new_block_index_ok [OF ix assms(2)]
  obtain r e s f g where p': "p' = p\<lparr>idx_raw := r, idx_entries := e, pr_blockIndexSize := s, idx_front := f, pr_blockIndexFront := g\<rparr>"
    using nb(3) by blast
  have "ep_rep tr stale W lo xs p P'"
    using ep_rep_frame [OF assms(1) mallocs_frame(1) _ subset_refl] assms(1) ep_rep_in_use [OF assms(1)]
    by (simp add: nb(4) mallocs_frame ep_rep_def)
  then show "ep_rep tr stale W lo xs p' P'" using nb(1) by (auto simp: ep_rep_def ring_ok_def p')
  show "ok \<Longrightarrow> idx_raw p' \<and> pr_blockIndexSlotsUsed p' < pr_blockIndexSize p'" by (rule nb(2))
  show "tailIndex p' = tailIndex p" "pr_blockIndexSlotsUsed p' = pr_blockIndexSlotsUsed p" "tailBlock p' = tailBlock p"
    by (simp_all add: p')
  show "in_use P' = in_use P" by (simp add: nb(4) mallocs_frame)
qed

section \<open>Enqueue\<close>

text \<open>
  What \<open>start_block\<close> promises when it succeeds, with all that is needed to publish or to revert.  \<open>P\<close> is the pool
  before, when the sub-queue owned \<open>own\<close>.
\<close>

definition starts :: "traits \<Rightarrow> bool \<Rightarrow> 'a list \<Rightarrow> nat set \<Rightarrow> 'a pool \<Rightarrow> eproducer \<Rightarrow> eproducer \<Rightarrow> 'a pool \<Rightarrow> bool" where
  "starts tr c xs own P p p' P' \<longleftrightarrow>
     (\<exists>stale W lo n b. about_to tr stale W lo n b xs p' P' \<and> tidy c stale lo (Suc n) p' \<and> tailIndex p' = tailIndex p
        \<and> frame_step own P (set (blocks_of stale W lo n @ [b])) P'
        \<and> n - lo \<le> pr_blockIndexSlotsUsed p \<and> pr_blockIndexSlotsUsed p \<le> pr_blockIndexSize p'
        \<and> (if tailBlock p = None then tailBlock p' else tailBlock p) = Some (last (b # blocks_of stale W lo n)))"

lemma startsI:
  "about_to tr stale W lo n b xs p' P' \<Longrightarrow> tidy c stale lo (Suc n) p' \<Longrightarrow> tailIndex p' = tailIndex p \<Longrightarrow>
   frame_step own P (set (blocks_of stale W lo n @ [b])) P' \<Longrightarrow> n - lo \<le> pr_blockIndexSlotsUsed p \<Longrightarrow>
   pr_blockIndexSlotsUsed p \<le> pr_blockIndexSize p' \<Longrightarrow>
   (if tailBlock p = None then tailBlock p' else tailBlock p) = Some (last (b # blocks_of stale W lo n)) \<Longrightarrow>
   starts tr c xs own P p p' P'"
  unfolding starts_def by blast

lemma insert_starts:
  assumes "ep_rep tr stale W lo xs p P" and "tidy c stale lo (started tr (tailIndex p)) p" and "block_offset tr (tailIndex p) = 0"
    and "idx_raw p" and "pr_blockIndexSlotsUsed p < pr_blockIndexSize p"
    and "requisition_block mo tr m P = (Some b, P1)"
    and "ring_insert b p (upd_block b (reset_empty tr explicit_context) P1) = (p', P')"
  shows "starts tr c xs (set (blocks_of stale W lo (started tr (tailIndex p)))) P p
    (p'\<lparr>pr_blockIndexSlotsUsed := pr_blockIndexSlotsUsed p' + 1\<rparr>) P'"
proof -
  let ?n = "started tr (tailIndex p)" and ?P2 = "upd_block b (reset_empty tr explicit_context) P1"
  let ?bs = "blocks_of stale W lo ?n"
  have e: "BLOCK_SIZE tr > 0" "pool_ok tr P" "index_ok tr W lo ?n p" "ring_ok tr stale W lo ?n p P"
    "content tr explicit_context W lo ?n (headIndex p) (tailIndex p) xs P" "dequeueOptimisticCount p = headIndex p + dequeueOvercommit p"
    using assms(1) by (simp_all add: ep_rep_def)
  note rq = requisition_ok [OF e(2) assms(6)]
  have b: "b \<notin> in_use P" "in_use P1 = insert b (in_use P)" using rq(4) by simp_all
  have sub: "set ?bs \<subseteq> in_use P" by (rule ep_rep_in_use [OF assms(1)])
  then have bn: "b \<notin> set ?bs" using b by auto
  have ok2: "pool_ok tr ?P2" "in_use ?P2 = in_use P1" using reset_block_ok [OF rq(1)] by simp_all
  have same: "same_blocks (set ?bs) P ?P2" using rq(2) sub bn by (auto simp: same_blocks_def)
  have ring2: "ring ?P2 ?bs" using e(4) same by (auto simp: ring_ok_def intro: ring_frame)
  have tb: "tailBlock p = (if ?bs = [] then None else Some (last ?bs))" using e(4) by (simp add: ring_ok_def)
  have ri: "ring P' (?bs @ [b])" "p' = p\<lparr>tailBlock := Some b\<rparr>"
      "\<And>c. heap P' c = (heap ?P2 c)\<lparr>next_block := next_block (heap P' c)\<rparr>" "in_use P' = in_use ?P2" "pool_ok tr P'"
      "\<And>c. c \<notin> set (?bs @ [b]) \<Longrightarrow> heap P' c = heap ?P2 c"
    using ring_insert_ring [OF ring2 bn tb assms(7), of tr] ok2 by auto
  have content2: "content tr explicit_context W lo ?n (headIndex p) (tailIndex p) xs ?P2"
    by (rule content_frame [OF e(5) subset_refl same])
  have "holds tr explicit_context h t xs k (heap P' c) = holds tr explicit_context h t xs k (heap ?P2 c)" for h t k c
    by (subst ri(3)) (rule holds_next)
  then have cont: "content tr explicit_context W lo ?n (headIndex p) (tailIndex p) xs P'" using content2 by (simp add: content_def)
  have em: "emptied tr explicit_context (heap P' c) js = emptied tr explicit_context (heap ?P2 c) js" for c js
    by (subst ri(3)) (rule emptied_next)
  have "stale \<noteq> [] \<Longrightarrow> emptied tr explicit_context (heap P' (hd stale)) {}"
    using e(4) same by (cases stale) (auto simp: em ring_ok_def same_blocks_def blocks_of_def)
  moreover have "emptied tr explicit_context (heap P' b) {}" by (simp add: em emptied_reset)
  moreover have "tailIndex p = ?n * BLOCK_SIZE tr"
    using started_boundary [OF e(1)] assms(3) by (simp add: block_offset_def)
  moreover have "index_ok tr W lo ?n (p\<lparr>tailBlock := Some b, pr_blockIndexSlotsUsed := pr_blockIndexSlotsUsed p + 1\<rparr>)"
    using e(3) assms(4,5) by (auto simp: index_ok_def)
  moreover have slots: "?n - lo \<le> pr_blockIndexSlotsUsed p" "lo \<le> ?n" using e(3) by (simp_all add: index_ok_def)
  ultimately have about: "about_to tr stale W lo ?n b xs (p'\<lparr>pr_blockIndexSlotsUsed := pr_blockIndexSlotsUsed p' + 1\<rparr>) P'"
    using e ri ok2 b sub cont assms(4) by (auto simp: about_to_def Suc_diff_le)
  have "heap P' c = heap P c" if "c \<in> in_use P - set ?bs" for c
    using that b(1) rq(2) ri(6) [of c] by (auto simp: same_blocks_def)
  then have frame: "frame_step (set ?bs) P (set (?bs @ [b])) P'"
    using b bn sub ri(4) ok2(2) by (auto simp: frame_step_def same_blocks_def)
  have tl: "(if tailBlock p = None then tailBlock (p'\<lparr>pr_blockIndexSlotsUsed := pr_blockIndexSlotsUsed p' + 1\<rparr>)
      else tailBlock p) = Some (last (b # ?bs))"
    using tb ri(2) by (cases "?bs = []") simp_all
  have "tidy c stale lo (Suc ?n) (p'\<lparr>pr_blockIndexSlotsUsed := pr_blockIndexSlotsUsed p' + 1\<rparr>)"
    using assms(2) slots(2) ri(2) by (auto simp: tidy_def)
  then show ?thesis by (intro startsI [OF about _ _ frame _ _ tl]) (use slots assms(5) ri(2) in simp_all)
qed

lemma grow_ok:
  assumes "ep_rep tr stale W lo xs p P"
    and "(if \<not> idx_raw p \<or> pr_blockIndexSlotsUsed p = pr_blockIndexSize p
          then new_block_index mo (pr_blockIndexSlotsUsed p) p P else (True, p, P)) = (ok1, p1, P1)"
  shows "ep_rep tr stale W lo xs p1 P1" and "tailIndex p1 = tailIndex p" and "in_use P1 = in_use P"
    and "pr_blockIndexSlotsUsed p1 = pr_blockIndexSlotsUsed p" and "tailBlock p1 = tailBlock p"
    and "same_blocks B P P1" and "ok1 \<Longrightarrow> idx_raw p1 \<and> pr_blockIndexSlotsUsed p1 < pr_blockIndexSize p1"
proof -
  have "ep_rep tr stale W lo xs p1 P1 \<and> tailIndex p1 = tailIndex p \<and> in_use P1 = in_use P
      \<and> pr_blockIndexSlotsUsed p1 = pr_blockIndexSlotsUsed p \<and> tailBlock p1 = tailBlock p
      \<and> same_blocks B P P1 \<and> (ok1 \<longrightarrow> idx_raw p1 \<and> pr_blockIndexSlotsUsed p1 < pr_blockIndexSize p1)"
  proof (cases "\<not> idx_raw p \<or> pr_blockIndexSlotsUsed p = pr_blockIndexSize p")
    case True
    then have nb: "new_block_index mo (pr_blockIndexSlotsUsed p) p P = (ok1, p1, P1)" using assms(2) by simp
    have "index_ok tr W lo (started tr (tailIndex p)) p" using assms(1) by (simp add: ep_rep_def)
    then have "P1 = P\<lparr>mallocs := mallocs P + 1\<rparr>" by (rule new_block_index_ok(4) [OF _ nb])
    then show ?thesis using ep_rep_new_index [OF assms(1) nb] by (simp add: mallocs_frame)
  next
    case False
    moreover have "pr_blockIndexSlotsUsed p \<le> pr_blockIndexSize p" using assms(1) by (simp add: ep_rep_def index_ok_def)
    ultimately show ?thesis using assms by (simp add: same_blocks_def)
  qed
  then show "ep_rep tr stale W lo xs p1 P1" and "tailIndex p1 = tailIndex p" and "in_use P1 = in_use P"
    and "pr_blockIndexSlotsUsed p1 = pr_blockIndexSlotsUsed p" and "tailBlock p1 = tailBlock p"
    and "same_blocks B P P1" and "ok1 \<Longrightarrow> idx_raw p1 \<and> pr_blockIndexSlotsUsed p1 < pr_blockIndexSize p1"
    by simp_all
qed

lemma starts_frame:
  assumes "starts tr c xs own P1 p1 p' P'" and "frame_step own P own P1" and "tailIndex p1 = tailIndex p"
    and "tailBlock p1 = tailBlock p" and "pr_blockIndexSlotsUsed p1 = pr_blockIndexSlotsUsed p"
  shows "starts tr c xs own P p p' P'"
proof -
  obtain stale W lo n b where *: "about_to tr stale W lo n b xs p' P'" "tidy c stale lo (Suc n) p'" "tailIndex p' = tailIndex p1"
      "frame_step own P1 (set (blocks_of stale W lo n @ [b])) P'" "n - lo \<le> pr_blockIndexSlotsUsed p1"
      "pr_blockIndexSlotsUsed p1 \<le> pr_blockIndexSize p'"
      "(if tailBlock p1 = None then tailBlock p' else tailBlock p1) = Some (last (b # blocks_of stale W lo n))"
    using assms(1) unfolding starts_def by blast
  show ?thesis
    by (rule startsI [OF *(1,2) _ frame_step_trans [OF assms(2) *(4)]])
       (use * assms(3-5) in \<open>simp_all only: assms(3-5)\<close>)
qed

lemma fresh_block_ok:
  assumes "ep_rep tr stale W lo xs p P" and "tidy c stale lo (started tr (tailIndex p)) p" and "block_offset tr (tailIndex p) = 0"
    and "fresh_block mo tr m p P = (ok, p', P')"
  defines "own \<equiv> set (blocks_of stale W lo (started tr (tailIndex p)))"
  shows "if ok then starts tr c xs own P p p' P'
    else ep_rep tr stale W lo xs p' P' \<and> tailIndex p' = tailIndex p \<and> pr_blockIndexSlotsUsed p' = pr_blockIndexSlotsUsed p
      \<and> frame_step own P own P'"
proof -
  let ?full = "\<not> idx_raw p \<or> pr_blockIndexSlotsUsed p = pr_blockIndexSize p"
  have sub: "own \<subseteq> in_use P" using ep_rep_in_use [OF assms(1)] by (simp add: own_def)
  obtain ok1 p1 P1 where grow: "(if ?full then new_block_index mo (pr_blockIndexSlotsUsed p) p P else (True, p, P)) = (ok1, p1, P1)"
    by (metis prod_cases3)
  note g = grow_ok [OF assms(1) grow]
  have f1: "frame_step own P own P1" using frame_step_own [OF sub g(3,6)] .
  obtain r P2 where rq: "requisition_block mo tr m P1 = (r, P2)" by (metis prod.exhaust)
  have ok1: "pool_ok tr P1" using g(1) by (simp add: ep_rep_def)
  have f2: "frame_step own P1 (own \<union> set_option r) P2"
    using frame_step_requisition [OF ok1 _ rq] sub g(3) by simp
  have none: "ep_rep tr stale W lo xs p1 P2" if "r = None"
  proof (rule ep_rep_frame [OF g(1)])
    show "same_blocks (in_use P1) P1 P2" "pool_ok tr P2" using requisition_ok [OF ok1 rq] by simp_all
    show "set (blocks_of stale W lo (started tr (tailIndex p1))) \<subseteq> in_use P1" by (rule ep_rep_in_use [OF g(1)])
    then show "set (blocks_of stale W lo (started tr (tailIndex p1))) \<subseteq> in_use P2"
      using requisition_ok(3) [OF ok1 rq that] by simp
  qed
  have some: "starts tr c xs own P p (p3\<lparr>pr_blockIndexSlotsUsed := pr_blockIndexSlotsUsed p3 + 1\<rparr>) P3"
    if "r = Some b" "ring_insert b p1 (upd_block b (reset_empty tr explicit_context) P2) = (p3, P3)" ok1 for b p3 P3
    using insert_starts [OF g(1), of c mo m b P2 p3 P3] that rq g f1 assms(2,3) starts_frame by (simp add: own_def tidy_def)
  show ?thesis
  proof (cases "no_room tr (headIndex p) (tailIndex p) \<or> ?full \<and> m = CannotAlloc")
    case True
    then show ?thesis using assms(1,4) frame_step_refl [OF sub] by (auto simp: fresh_block_def Let_def split: if_splits)
  next
    case False
    then have fb: "fresh_block mo tr m p P = (if \<not> ok1 then (False, p1, P1) else case r of None \<Rightarrow> (False, p1, P2)
      | Some b \<Rightarrow> (case ring_insert b p1 (upd_block b (reset_empty tr explicit_context) P2) of (p, P) \<Rightarrow>
           (True, p\<lparr>pr_blockIndexSlotsUsed := pr_blockIndexSlotsUsed p + 1\<rparr>, P)))"
      using grow rq unfolding fresh_block_def Let_def by (cases "?full") (auto split: option.split)
    show ?thesis
    proof (cases "ok1 \<and> r \<noteq> None")
      case True
      then obtain b p3 P3 where "r = Some b" "ring_insert b p1 (upd_block b (reset_empty tr explicit_context) P2) = (p3, P3)"
        by (metis not_None_eq prod.exhaust)
      then show ?thesis using True fb assms(4) some by auto
    next
      case False
      then show ?thesis using fb assms(4) none g(1,2,4) f1 f2 frame_step_trans [OF f1 f2] by (auto split: if_splits)
    qed
  qed
qed

lemma ep_rep_next:
  assumes "ep_rep tr stale W lo xs p P" and "tailBlock p = Some t"
  shows "blocks_of stale W lo (started tr (tailIndex p)) \<noteq> []"
    and "next_of P t = hd (blocks_of stale W lo (started tr (tailIndex p)))"
proof -
  let ?bs = "blocks_of stale W lo (started tr (tailIndex p))"
  have "ring P ?bs" and tb: "tailBlock p = (if ?bs = [] then None else Some (last ?bs))"
    using assms(1) by (simp_all add: ep_rep_def ring_ok_def)
  then show "?bs \<noteq> []" "next_of P t = hd ?bs"
    using assms(2) ring_next_last [of P ?bs] by (auto simp: next_of_def split: if_splits)
qed

lemma empty_ahead:
  assumes "ep_rep tr stale W lo xs p P" and "tailBlock p = Some t"
    and "is_empty tr explicit_context (heap P (next_of P t))"
  shows "stale = []" and "lo < started tr (tailIndex p)" and "next_of P t = W lo"
    and "Suc lo * BLOCK_SIZE tr \<le> headIndex p"
proof -
  let ?n = "started tr (tailIndex p)"
  note nx = ep_rep_next [OF assms(1,2)]
  have B: "BLOCK_SIZE tr > 0" and st: "stale \<noteq> [] \<Longrightarrow> emptied tr explicit_context (heap P (hd stale)) {}"
    and cont: "content tr explicit_context W lo ?n (headIndex p) (tailIndex p) xs P"
    using assms(1) by (simp_all add: ep_rep_def ring_ok_def)
  show 1: "stale = []"
  proof (rule ccontr)
    assume "stale \<noteq> []"
    moreover from this have "next_of P t = hd stale" using nx(2) by (simp add: blocks_of_def)
    ultimately have "({} :: nat set) = {..<BLOCK_SIZE tr}" using emptied_is_empty [OF st] assms(3) by simp
    then show False using B by auto
  qed
  then show 2: "lo < ?n" using nx(1) by (simp add: blocks_of_def)
  then show 3: "next_of P t = W lo" using nx(2) 1 by (simp add: blocks_of_def upt_conv_Cons)
  have "holds tr explicit_context (headIndex p) (tailIndex p) xs lo (heap P (W lo))" using cont 2 by (simp add: content_def)
  then have em: "emptied tr explicit_context (heap P (W lo)) {j. j < BLOCK_SIZE tr \<and> lo * BLOCK_SIZE tr + j < headIndex p}"
    by (simp add: holds_def)
  have "is_empty tr explicit_context (heap P (W lo))" using assms(3) 3 by (simp only:)
  then have "{j. j < BLOCK_SIZE tr \<and> lo * BLOCK_SIZE tr + j < headIndex p} = {..<BLOCK_SIZE tr}"
    by (rule emptied_is_empty [OF em, THEN iffD1])
  moreover have "BLOCK_SIZE tr - 1 \<in> {..<BLOCK_SIZE tr}" using B by simp
  ultimately have "lo * BLOCK_SIZE tr + (BLOCK_SIZE tr - 1) < headIndex p" by blast
  then show "Suc lo * BLOCK_SIZE tr \<le> headIndex p" using B by simp
qed

lemma reuse_starts:
  assumes "ep_rep tr stale W lo xs p P" and "tidy c stale lo (started tr (tailIndex p)) p" and "block_offset tr (tailIndex p) = 0" and "tailBlock p = Some t"
    and "is_empty tr explicit_context (heap P (next_of P t))"
  defines "own \<equiv> set (blocks_of stale W lo (started tr (tailIndex p)))"
  shows "starts tr c xs own P p (p\<lparr>tailBlock := Some (next_of P t)\<rparr>)
    (upd_block (next_of P t) (reset_empty tr explicit_context) P)"
proof -
  let ?n = "started tr (tailIndex p)" and ?P = "upd_block (W lo) (reset_empty tr explicit_context) P"
  note ea = empty_ahead [OF assms(1,4,5)]
  have e: "BLOCK_SIZE tr > 0" "pool_ok tr P" "index_ok tr W lo ?n p" "ring_ok tr stale W lo ?n p P"
    "content tr explicit_context W lo ?n (headIndex p) (tailIndex p) xs P" "dequeueOptimisticCount p = headIndex p + dequeueOvercommit p"
    using assms(1) by (simp_all add: ep_rep_def)
  have bs: "blocks_of stale W lo ?n = W lo # blocks_of [] W (Suc lo) ?n"
    using ea by (simp add: blocks_of_def upt_conv_Cons)
  have tail: "tailIndex p = ?n * BLOCK_SIZE tr" using started_boundary [OF e(1)] assms(3) by (simp add: block_offset_def)
  have ring: "ring P (blocks_of [] W (Suc lo) ?n @ [W lo])" using e(4) by (simp add: ring_ok_def bs ring_rotate)
  have new: "W lo \<notin> set (blocks_of [] W (Suc lo) ?n)" using ring by (simp add: ring_def)
  have sub: "set (blocks_of [] W (Suc lo) ?n @ [W lo]) \<subseteq> in_use P" using e(4) by (auto simp: ring_ok_def bs)
  have raw: "idx_raw p" using e(3) ea(2) by (auto simp: index_ok_def split: if_splits)
  have "index_ok tr W (Suc lo) ?n (p\<lparr>tailBlock := Some (W lo)\<rparr>)" using e(3) ea(2) by (auto simp: index_ok_def)
  moreover have "W k \<noteq> W lo" if "Suc lo \<le> k" "k < ?n" for k
    using new blocks_of_mem [OF that, of W "[]"] by metis
  then have "content tr explicit_context W (Suc lo) ?n (headIndex p) (tailIndex p) xs ?P"
    using e(5) ea(4) by (simp add: content_def)
  moreover have "ring ?P (blocks_of [] W (Suc lo) ?n @ [W lo])" by (rule ring_cong [OF ring]) simp
  moreover have sl: "?n - lo \<le> pr_blockIndexSlotsUsed p" "pr_blockIndexSlotsUsed p \<le> pr_blockIndexSize p"
    using e(3) by (simp_all add: index_ok_def)
  ultimately have about: "about_to tr [] W (Suc lo) ?n (W lo) xs (p\<lparr>tailBlock := Some (W lo)\<rparr>) ?P"
    using e raw tail sub reset_block_ok [OF e(2)] ea(2) by (simp add: about_to_def emptied_reset)
  have own: "own = set (blocks_of [] W (Suc lo) ?n @ [W lo])" by (simp add: own_def bs)
  have frame: "frame_step own P (set (blocks_of [] W (Suc lo) ?n @ [W lo])) ?P"
    unfolding own by (rule frame_step_own [OF sub]) (use reset_block_ok [OF e(2)] in \<open>auto simp: same_blocks_def\<close>)
  have tl: "(if tailBlock p = None then tailBlock (p\<lparr>tailBlock := Some (W lo)\<rparr>) else tailBlock p)
      = Some (last (W lo # blocks_of [] W (Suc lo) ?n))"
    using e(4) assms(4) bs by (simp add: ring_ok_def)
  have "tidy c [] (Suc lo) (Suc ?n) (p\<lparr>tailBlock := Some (W lo)\<rparr>)" using assms(2) ea(2) by (auto simp: tidy_def)
  then show ?thesis unfolding ea(3)
    by (intro startsI [OF about _ _ frame _ _ tl]) (use sl in simp_all)
qed

lemma start_block_ok:
  assumes "ep_rep tr stale W lo xs p P" and "tidy c stale lo (started tr (tailIndex p)) p" and "block_offset tr (tailIndex p) = 0"
    and "start_block mo tr m p P = (ok, p', P')"
  defines "own \<equiv> set (blocks_of stale W lo (started tr (tailIndex p)))"
  shows "if ok then starts tr c xs own P p p' P'
    else ep_rep tr stale W lo xs p' P' \<and> tailIndex p' = tailIndex p \<and> pr_blockIndexSlotsUsed p' = pr_blockIndexSlotsUsed p
      \<and> frame_step own P own P'"
  using assms(4) reuse_starts [OF assms(1-3)] fresh_block_ok [OF assms(1-3), of mo m ok p' P']
  by (auto simp: start_block_def own_def split: option.splits if_splits)

lemma ep_queueI:
  "ep_rep tr stale W lo xs p P \<Longrightarrow> tidy c stale lo (started tr (tailIndex p)) p \<Longrightarrow>
   own = set (blocks_of stale W lo (started tr (tailIndex p))) \<Longrightarrow> ep_queue tr c own xs p P"
  unfolding ep_queue_def by blast

lemma started_publish:
  assumes "starts tr c xs own P p p' P'"
  shows "\<exists>own'. frame_step own P own' (upd_block (the (tailBlock p')) (construct_at tr (tailIndex p) x) P')
    \<and> ep_queue tr c own' (xs @ [x]) ((publish_block p')\<lparr>tailIndex := tailIndex p + 1\<rparr>)
        (upd_block (the (tailBlock p')) (construct_at tr (tailIndex p) x) P')"
proof -
  obtain stale W lo n b where *: "about_to tr stale W lo n b xs p' P'" "tidy c stale lo (Suc n) p'" "tailIndex p' = tailIndex p"
      "frame_step own P (set (blocks_of stale W lo n @ [b])) P'"
    using assms unfolding starts_def by blast
  let ?own = "set (blocks_of stale W lo n @ [b])" and ?P = "upd_block b (construct_at tr (tailIndex p) x) P'"
  have a: "tailBlock p' = Some b" "pool_ok tr P'" "lo \<le> n" "BLOCK_SIZE tr > 0" "tailIndex p' = n * BLOCK_SIZE tr" "?own \<subseteq> in_use P'"
    using *(1) by (auto simp: about_to_def index_ok_def)
  have rep: "ep_rep tr stale (W(n := b)) lo (xs @ [x]) ((publish_block p')\<lparr>tailIndex := tailIndex p + 1\<rparr>) ?P"
    using about_to_publish [OF *(1), of x] *(3) by simp
  have "started tr (tailIndex p + 1) = Suc n"
    using a *(3) started_Suc_boundary [of tr "tailIndex p"] started_times [of tr n] by simp
  then have "ep_queue tr c ?own (xs @ [x]) ((publish_block p')\<lparr>tailIndex := tailIndex p + 1\<rparr>) ?P"
    using rep a(3) *(2) by (intro ep_queueI) (auto simp: blocks_of_snoc tidy_def publish_block_def)
  moreover have "frame_step ?own P' ?own ?P"
    by (rule frame_step_own [OF a(6)]) (use upd_elements_ok [OF a(2)] in \<open>auto simp: same_blocks_def\<close>)
  then have "frame_step own P ?own ?P" by (rule frame_step_trans [OF *(4)])
  ultimately show ?thesis using a(1) by auto
qed

lemma started_revert:
  assumes "starts tr c xs own P p p' P'"
  defines "q \<equiv> p'\<lparr>pr_blockIndexSlotsUsed := pr_blockIndexSlotsUsed p,
                   tailBlock := (if tailBlock p = None then tailBlock p' else tailBlock p)\<rparr>"
  shows "\<exists>own'. frame_step own P own' P' \<and> ep_queue tr False own' xs q P'"
proof -
  obtain stale W lo n b where *: "about_to tr stale W lo n b xs p' P'" "tidy c stale lo (Suc n) p'" "tailIndex p' = tailIndex p"
      "frame_step own P (set (blocks_of stale W lo n @ [b])) P'"
      "n - lo \<le> pr_blockIndexSlotsUsed p" "pr_blockIndexSlotsUsed p \<le> pr_blockIndexSize p'"
      "(if tailBlock p = None then tailBlock p' else tailBlock p) = Some (last (b # blocks_of stale W lo n))"
    using assms(1) unfolding starts_def by blast
  have rep: "ep_rep tr (b # stale) W lo xs q P'" unfolding q_def by (rule about_to_revert [OF *(1,5,6,7)])
  have "tailIndex q = n * BLOCK_SIZE tr" "BLOCK_SIZE tr > 0" using *(1) by (simp_all add: about_to_def q_def)
  then have "started tr (tailIndex q) = n" by (simp add: started_times)
  then have "ep_queue tr False (set (blocks_of stale W lo n @ [b])) xs q P'"
    by (intro ep_queueI [OF rep]) (simp_all add: blocks_of_def tidy_def)
  then show ?thesis using *(4) by blast
qed

lemma last_block:
  "lo \<le> k \<Longrightarrow> last (blocks_of stale W lo (Suc k)) = W k" "lo \<le> k \<Longrightarrow> blocks_of stale W lo (Suc k) \<noteq> []"
  by (simp_all add: blocks_of_def)

lemma inside_push:
  fixes x :: 'a
  assumes "ep_rep tr stale W lo xs p P" and "block_offset tr (tailIndex p) \<noteq> 0"
  defines "own \<equiv> set (blocks_of stale W lo (started tr (tailIndex p)))"
  defines "P' \<equiv> upd_block (the (tailBlock p)) (construct_at tr (tailIndex p) x) P"
  shows "ep_rep tr stale W lo (xs @ [x]) (p\<lparr>tailIndex := tailIndex p + 1\<rparr>) P'" and "frame_step own P own P'"
    and "started tr (tailIndex p + 1) = started tr (tailIndex p)"
proof -
  let ?k = "tailIndex p div BLOCK_SIZE tr" and ?n = "started tr (tailIndex p)"
  have e: "BLOCK_SIZE tr > 0" "pool_ok tr P" "index_ok tr W lo ?n p" "ring_ok tr stale W lo ?n p P"
    "content tr explicit_context W lo ?n (headIndex p) (tailIndex p) xs P" "dequeueOptimisticCount p = headIndex p + dequeueOvercommit p"
    using assms(1) by (simp_all add: ep_rep_def)
  have n: "?n = Suc ?k" and n': "started tr (tailIndex p + 1) = ?n"
    using started_inside [OF e(1)] assms(2) by (simp_all add: block_offset_def)
  show "started tr (tailIndex p + 1) = ?n" by (rule n')
  have "lo * BLOCK_SIZE tr \<le> tailIndex p" using e(5) by (simp add: content_def)
  then have lo: "lo \<le> ?k" using e(1) by (simp add: less_eq_div_iff_mult_less_eq)
  have tb: "tailBlock p = Some (W ?k)" using e(4) n lo last_block [of lo ?k stale W] by (simp add: ring_ok_def)
  have ring: "ring P (blocks_of stale W lo ?n)" using e(4) by (simp add: ring_ok_def)
  have "content tr explicit_context W lo ?n (headIndex p) (Suc (tailIndex p)) (xs @ [x]) P'"
    by (rule content_push [OF e(5,1) lo _ ring_inj [OF ring]]) (simp_all add: n tb P'_def)
  moreover have "ring P' (blocks_of stale W lo ?n)" by (rule ring_cong [OF ring]) (simp add: P'_def tb construct_at_def)
  moreover have "emptied tr explicit_context (heap P' c) js = emptied tr explicit_context (heap P c) js" for c js
    by (simp add: P'_def)
  moreover have inuse: "pool_ok tr P'" "in_use P' = in_use P" unfolding P'_def using upd_elements_ok [OF e(2)] by simp_all
  moreover have "index_ok tr W lo ?n (p\<lparr>tailIndex := tailIndex p + 1\<rparr>)" using e(3) by (simp add: index_ok_def)
  ultimately show "ep_rep tr stale W lo (xs @ [x]) (p\<lparr>tailIndex := tailIndex p + 1\<rparr>) P'"
    using e n' by (simp add: ep_rep_def ring_ok_def)
  have "W ?k \<in> own" using lo n by (simp add: own_def blocks_of_def)
  then show "frame_step own P own P'"
    using ep_rep_in_use [OF assms(1)] inuse by (intro frame_step_own) (auto simp: own_def P'_def tb same_blocks_def)
qed

lemma ep_queue_weaken: "ep_queue tr c own xs p P \<Longrightarrow> ep_queue tr (c \<and> d) own xs p P"
  unfolding ep_queue_def tidy_def by blast

lemma explicit_enqueue_ok:
  assumes "ep_queue tr c own xs p P" and "explicit_enqueue mo tr m th x p P = (r, p', P')"
  shows "\<exists>own'. frame_step own P own' P' \<and> ep_queue tr (c \<and> raised tr th = None) own' (if r = Inr True then xs @ [x] else xs) p' P'"
proof -
  obtain stale W lo where rep: "ep_rep tr stale W lo xs p P" and own: "own = set (blocks_of stale W lo (started tr (tailIndex p)))"
    and tidy: "tidy c stale lo (started tr (tailIndex p)) p"
    using assms(1) unfolding ep_queue_def by blast
  have sub: "own \<subseteq> in_use P" using ep_rep_in_use [OF rep] own by simp
  show ?thesis
  proof (cases "block_offset tr (tailIndex p) = 0")
    case True
    obtain ok p1 P1 where sb: "start_block mo tr m p P = (ok, p1, P1)" by (metis prod_cases3)
    note st = start_block_ok [OF rep tidy True sb, folded own]
    show ?thesis
    proof (cases ok)
      case True
      then show ?thesis using st assms(2) \<open>block_offset tr (tailIndex p) = 0\<close> sb started_publish [of tr c xs own P p p1 P1 x]
          started_revert [of tr c xs own P p p1 P1] by (cases "raised tr th") (auto simp: explicit_enqueue_def)
    next
      case False
      then have "ep_queue tr c own xs p1 P1"
        using st own tidy by (intro ep_queueI [where stale = stale and W = W and lo = lo]) (auto simp: tidy_def)
      then have "ep_queue tr (c \<and> raised tr th = None) own xs p1 P1" by (rule ep_queue_weaken)
      then show ?thesis using False st assms(2) True sb by (auto simp: explicit_enqueue_def)
    qed
  next
    case False
    note ip = inside_push(1) [OF rep False, where x = x] inside_push(2) [OF rep False, where x = x, folded own]
      inside_push(3) [OF rep False]
    have "ep_queue tr c own (xs @ [x]) (p\<lparr>tailIndex := tailIndex p + 1\<rparr>)
      (upd_block (the (tailBlock p)) (construct_at tr (tailIndex p) x) P)"
      using ip(1,3) own tidy by (intro ep_queueI) (auto simp: tidy_def)
    from ep_queue_weaken [OF this, of "raised tr th = None"] ep_queue_weaken [OF assms(1), of "raised tr th = None"]
    show ?thesis using False assms(2) ip(2) frame_step_refl [OF sub] by (cases "raised tr th") (auto simp: explicit_enqueue_def)
  qed
qed

section \<open>Dequeue\<close>

lemma index_slot_ok:
  assumes "index_ok tr W lo n p" and "BLOCK_SIZE tr > 0" and "lo \<le> i div BLOCK_SIZE tr" and "i div BLOCK_SIZE tr < n"
  shows "index_slot tr p i = slot_of (pr_blockIndexSize p) (pr_blockIndexFront p) n (i div BLOCK_SIZE tr)"
    and "idx_entries p ! index_slot tr p i = (i div BLOCK_SIZE tr * BLOCK_SIZE tr, W (i div BLOCK_SIZE tr))"
proof -
  let ?B = "BLOCK_SIZE tr" and ?k = "i div BLOCK_SIZE tr" and ?S = "pr_blockIndexSize p"
  have ix: "0 < ?S" "n - lo \<le> ?S" "idx_front p = slot_of ?S (pr_blockIndexFront p) n (n - 1)"
    "\<And>k. lo \<le> k \<Longrightarrow> k < n \<Longrightarrow> idx_entries p ! slot_of ?S (pr_blockIndexFront p) n k = (k * ?B, W k)"
    using assms(1,3,4) by (auto simp: index_ok_def)
  have front: "fst (idx_entries p ! idx_front p) = (n - 1) * ?B" using ix(4) [of "n - 1"] assms(3,4) by (simp add: ix(3))
  have base: "block_base tr i = ?k * ?B" by (simp add: block_base_def minus_mod_eq_div_mult)
  have "(int (?k * ?B) - int ((n - 1) * ?B)) = (int ?k - int (n - 1)) * int ?B" by (simp add: left_diff_distrib)
  then have "(int (block_base tr i) - int (fst (idx_entries p ! idx_front p))) div int ?B = int ?k - int (n - 1)"
    unfolding front base using assms(2) by simp
  then show 1: "index_slot tr p i = slot_of ?S (pr_blockIndexFront p) n ?k"
    unfolding index_slot_def Let_def ix(3) using slot_of_offset [of ?S ?k n] ix(1,2) assms(3,4) by simp
  show "idx_entries p ! index_slot tr p i = (?k * ?B, W ?k)" unfolding 1 using ix(4) assms(3,4) by simp
qed

text \<open>What of the invariant does not concern the counters of the producer, with the head at \<open>h\<close>.\<close>

definition pcore :: "traits \<Rightarrow> nat list \<Rightarrow> (nat \<Rightarrow> nat) \<Rightarrow> nat \<Rightarrow> nat \<Rightarrow> nat \<Rightarrow> nat \<Rightarrow> 'a list \<Rightarrow> eproducer \<Rightarrow> 'a pool \<Rightarrow> bool" where
  "pcore tr stale W lo n h t xs p P \<longleftrightarrow>
     BLOCK_SIZE tr > 0 \<and> pool_ok tr P \<and> ring_ok tr stale W lo n p P \<and> content tr explicit_context W lo n h t xs P"

lemma pcore_pop:
  assumes "pcore tr stale W lo n h t xs p P" and "lo \<le> k" and "k < n"
    and "k * BLOCK_SIZE tr \<le> h" and "h \<le> e" and "e \<le> Suc k * BLOCK_SIZE tr" and "e \<le> t"
    and "next_block (f (heap P (W k))) = next_block (heap P (W k))"
    and "holds tr explicit_context e t (drop (e - h) xs) k (f (heap P (W k)))"
    and "dynamicallyAllocated (f (heap P (W k))) = dynamicallyAllocated (heap P (W k))"
  shows "pcore tr stale W lo n e t (drop (e - h) xs) p (upd_block (W k) f P)"
    and "frame_step (set (blocks_of stale W lo n)) P (set (blocks_of stale W lo n)) (upd_block (W k) f P)"
proof -
  let ?P = "upd_block (W k) f P" and ?bs = "blocks_of stale W lo n"
  have c: "BLOCK_SIZE tr > 0" "pool_ok tr P" "ring_ok tr stale W lo n p P" "content tr explicit_context W lo n h t xs P"
    using assms(1) by (simp_all add: pcore_def)
  have mem: "W k \<in> set ?bs" using assms(2,3) by (rule blocks_of_mem)
  have ring: "ring P ?bs" and sub: "set ?bs \<subseteq> in_use P" using c(3) by (simp_all add: ring_ok_def)
  have "content tr explicit_context W lo n e t (drop (e - h) xs) ?P"
    by (rule content_pop [OF c(4) ring_inj [OF ring] assms(2-7) _ assms(9)]) simp
  moreover have "ring ?P ?bs" by (rule ring_cong [OF ring]) (simp add: assms(8))
  moreover have "length (elements (f (heap P (W k)))) = BLOCK_SIZE tr" using assms(9) by (simp add: holds_def)
  then have ok: "pool_ok tr ?P" "in_use ?P = in_use P" by (simp_all add: upd_block_ok [OF c(2)] assms(10))
  moreover have "stale \<noteq> [] \<Longrightarrow> hd stale \<noteq> W k"
    using ring assms(2,3) by (cases stale) (auto simp: ring_def blocks_of_def)
  ultimately show "pcore tr stale W lo n e t (drop (e - h) xs) p ?P" using c(1,3) by (simp add: pcore_def ring_ok_def)
  show "frame_step (set ?bs) P (set ?bs) ?P"
    using sub ok mem by (intro frame_step_own) (auto simp: same_blocks_def)
qed

lemma ep_rep_pcore:
  "ep_rep tr stale W lo xs p P \<Longrightarrow> pcore tr stale W lo (started tr (tailIndex p)) (headIndex p) (tailIndex p) xs p P"
  by (simp add: ep_rep_def pcore_def)

lemma window_number:
  assumes "pcore tr stale W lo n h t xs p P" and "n = started tr t" and "h < t"
  shows "lo \<le> h div BLOCK_SIZE tr" and "h div BLOCK_SIZE tr < n"
proof -
  have B: "BLOCK_SIZE tr > 0" "lo * BLOCK_SIZE tr \<le> h" using assms(1) by (simp_all add: pcore_def content_def)
  then show "lo \<le> h div BLOCK_SIZE tr" by (simp add: less_eq_div_iff_mult_less_eq)
  show "h div BLOCK_SIZE tr < n" unfolding assms(2) by (rule below_started [OF B(1) assms(3)])
qed

lemma pcore_holds:
  assumes "pcore tr stale W lo n h t xs p P" and "n = started tr t" and "h < t"
  shows "holds tr explicit_context h t xs (h div BLOCK_SIZE tr) (heap P (W (h div BLOCK_SIZE tr)))"
    and "BLOCK_SIZE tr > 0" and "length xs = t - h"
  using assms(1) window_number [OF assms] by (simp_all add: pcore_def content_def)

lemma pcore_single:
  assumes "pcore tr stale W lo n h t xs p P" and "n = started tr t" and "h < t"
  defines "k \<equiv> h div BLOCK_SIZE tr"
  defines "P' \<equiv> upd_block (W k) (\<lambda>b. fst (set_empty tr explicit_context h (destroy_at tr h b))) P"
  shows "block_at tr (heap P (W k)) h = Some (hd xs)"
    and "pcore tr stale W lo n (Suc h) t (tl xs) p P'"
    and "frame_step (set (blocks_of stale W lo n)) P (set (blocks_of stale W lo n)) P'"
proof -
  note w = window_number [OF assms(1-3), folded k_def] and ph = pcore_holds [OF assms(1-3), folded k_def]
  have k: "h div BLOCK_SIZE tr = k" by (simp add: k_def)
  note mark = holds_mark_one [OF ph(1,2) k assms(3) ph(3)] and ib = in_block [OF ph(2) k]
  show "block_at tr (heap P (W k)) h = Some (hd xs)" by (rule mark(2))
  show "pcore tr stale W lo n (Suc h) t (tl xs) p P'" "frame_step (set (blocks_of stale W lo n)) P (set (blocks_of stale W lo n)) P'"
    unfolding P'_def using assms(3) mark(1)
      pcore_pop [OF assms(1) w ib(1) _ ib(2), where f = "\<lambda>b. fst (set_empty tr explicit_context h (destroy_at tr h b))"]
    by (simp_all add: destroy_at_def drop_Suc)
qed

lemma explicit_dequeue_ok:
  assumes "ep_queue tr c own xs p P" and "length xs < 2 ^ 63" and "explicit_dequeue tr p P = (r, p', P')"
  shows "r = (if xs = [] then (False, None) else (True, Some (hd xs)))"
    and "ep_queue tr c own (tl xs) p' P'" and "frame_step own P own P'"
proof -
  obtain stale W lo where rep: "ep_rep tr stale W lo xs p P" and own: "own = set (blocks_of stale W lo (started tr (tailIndex p)))"
    and tidy: "tidy c stale lo (started tr (tailIndex p)) p"
    using assms(1) unfolding ep_queue_def by blast
  have e: "BLOCK_SIZE tr > 0" "index_ok tr W lo (started tr (tailIndex p)) p"
    "dequeueOptimisticCount p = headIndex p + dequeueOvercommit p" "headIndex p \<le> tailIndex p" "length xs = tailIndex p - headIndex p"
    using rep by (simp_all add: ep_rep_def content_def)
  have sub: "own \<subseteq> in_use P" using ep_rep_in_use [OF rep] own by simp
  have "r = (if xs = [] then (False, None) else (True, Some (hd xs))) \<and> ep_queue tr c own (tl xs) p' P' \<and> frame_step own P own P'"
  proof (cases "xs = []")
    case True
    then have "\<not> index_less (dequeueOptimisticCount p - dequeueOvercommit p) (tailIndex p)"
      using e by (simp add: index_less_def)
    then show ?thesis using True assms(1,3) frame_step_refl [OF sub] by (simp add: explicit_dequeue_def Let_def)
  next
    case False
    then have lt: "headIndex p < tailIndex p" using e(5) by (cases xs) simp_all
    then have il: "index_less (dequeueOptimisticCount p - dequeueOvercommit p) (tailIndex p)"
      using e assms(2) by (simp add: index_less_def)
    note s = pcore_single [OF ep_rep_pcore [OF rep] refl lt] and w = window_number [OF ep_rep_pcore [OF rep] refl lt]
    let ?k = "headIndex p div BLOCK_SIZE tr" and ?p = "p\<lparr>dequeueOptimisticCount := dequeueOptimisticCount p + 1\<rparr>"
    let ?P = "upd_block (W ?k) (\<lambda>b. fst (set_empty tr explicit_context (headIndex p) (destroy_at tr (headIndex p) b))) P"
    have slot: "idx_entries p ! index_slot tr ?p (headIndex p) = (?k * BLOCK_SIZE tr, W ?k)"
      using index_slot_ok(2) [OF e(2,1) w] by (simp add: index_slot_def)
    have r: "r = (True, block_at tr (heap P (W ?k)) (headIndex p))" "p' = ?p\<lparr>headIndex := headIndex p + 1\<rparr>" "P' = ?P"
      using assms(3) il slot by (simp_all add: explicit_dequeue_def Let_def)
    have "ep_rep tr stale W lo (tl xs) p' P'"
      using s(2) e unfolding r by (simp add: ep_rep_def pcore_def ring_ok_def index_ok_def)
    then have "ep_queue tr c own (tl xs) p' P'" using own r(2) tidy by (intro ep_queueI) (auto simp: tidy_def)
    then show ?thesis using False r(1,3) s(1,3) own by simp
  qed
  then show "r = (if xs = [] then (False, None) else (True, Some (hd xs)))"
    and "ep_queue tr c own (tl xs) p' P'" and "frame_step own P own P'" by simp_all
qed

section \<open>Bulk dequeue\<close>

lemma pcore_many:
  assumes "pcore tr stale W lo n h t xs p P" and "n = started tr t" and "h < e" and "e \<le> t"
  defines "k \<equiv> h div BLOCK_SIZE tr"
  defines "P' \<equiv> upd_block (W k) (\<lambda>b. fst (set_many_empty tr explicit_context h (e - h) (fold (destroy_at tr) [h..<e] b))) P"
  assumes "e \<le> Suc k * BLOCK_SIZE tr"
  shows "map (block_at tr (heap P (W k))) [h..<e] = map Some (take (e - h) xs)"
    and "pcore tr stale W lo n e t (drop (e - h) xs) p P'"
    and "frame_step (set (blocks_of stale W lo n)) P (set (blocks_of stale W lo n)) P'"
proof -
  have lt: "h < t" using assms(3,4) by simp
  note w = window_number [OF assms(1,2) lt, folded k_def] and ph = pcore_holds [OF assms(1,2) lt, folded k_def]
  have k: "h div BLOCK_SIZE tr = k" by (simp add: k_def)
  note mark = holds_mark_many [OF ph(1,2) k assms(3,4,7) ph(3)] and ib = in_block [OF ph(2) k]
  show "map (block_at tr (heap P (W k))) [h..<e] = map Some (take (e - h) xs)" by (rule mark(2))
  show "pcore tr stale W lo n e t (drop (e - h) xs) p P'" "frame_step (set (blocks_of stale W lo n)) P (set (blocks_of stale W lo n)) P'"
    unfolding P'_def using assms(3) mark(1) pcore_pop [OF assms(1) w ib(1) _ assms(7,4),
        where f = "\<lambda>b. fst (set_many_empty tr explicit_context h (e - h) (fold (destroy_at tr) [h..<e] b))"]
      fold_destroy [of tr "[h..<e]" "heap P (W k)" explicit_context "{}"] by simp_all
qed

lemma bulk_blocks_ok:
  assumes "index_ok tr W lo n p" and "n = started tr t" and "stop \<le> t" and "BLOCK_SIZE tr < 2 ^ 63"
  shows "pcore tr stale W lo n index t xs p P \<Longrightarrow> index < stop \<Longrightarrow> stop - index \<le> rounds \<Longrightarrow>
    slot = slot_of (pr_blockIndexSize p) (pr_blockIndexFront p) n (index div BLOCK_SIZE tr) \<Longrightarrow>
    \<exists>P'. bulk_blocks rounds tr p stop index slot P = (map Some (take (stop - index) xs), P')
      \<and> pcore tr stale W lo n stop t (drop (stop - index) xs) p P'
      \<and> frame_step (set (blocks_of stale W lo n)) P (set (blocks_of stale W lo n)) P'"
proof (induction rounds arbitrary: index slot xs P)
  case (Suc rounds)
  let ?k = "index div BLOCK_SIZE tr" and ?B = "BLOCK_SIZE tr" and ?S = "pr_blockIndexSize p"
  define e where "e = (if stop < Suc ?k * ?B then stop else Suc ?k * ?B)"
  let ?P = "upd_block (W ?k) (\<lambda>b. fst (set_many_empty tr explicit_context index (e - index) (fold (destroy_at tr) [index..<e] b))) P"
  have B: "?B > 0" using Suc.prems(1) by (simp add: pcore_def)
  note ib = in_block [OF B refl, of index]
  have lt: "index < t" using Suc.prems(2) assms(3) by simp
  note w = window_number [OF Suc.prems(1) assms(2) lt]
  have ix: "0 < ?S" "n - lo \<le> ?S" "idx_entries p ! slot = (?k * ?B, W ?k)"
    using assms(1) w Suc.prems(4) by (auto simp: index_ok_def)
  have e: "index < e" "e \<le> t" "e \<le> Suc ?k * ?B" "e \<le> stop" using ib(2) Suc.prems(2) assms(3) by (simp_all add: e_def split: if_split)
  note m = pcore_many [OF Suc.prems(1) assms(2) e(1-3)]
  have base: "block_base tr index + ?B = Suc ?k * ?B" by (simp add: block_base_def minus_mod_eq_div_mult)
  have "Suc ?k * ?B - stop < 2 ^ 63" if "stop < Suc ?k * ?B"
    using ib(1) Suc.prems(2) assms(4) unfolding mult_Suc by linarith
  then have "(if index_less stop (Suc ?k * ?B) then stop else Suc ?k * ?B) = e" by (auto simp: index_less_def e_def)
  then have unfold: "bulk_blocks (Suc rounds) tr p stop index slot P =
      (if e = stop then (map Some (take (e - index) xs), ?P)
       else case bulk_blocks rounds tr p stop e ((slot + 1) mod ?S) ?P of (rest, P'') \<Rightarrow> (map Some (take (e - index) xs) @ rest, P''))"
    using m(1) by (simp only: bulk_blocks.simps Let_def base ix(3) snd_conv)
  show ?case
  proof (cases "e = stop")
    case True
    then show ?thesis using unfold m(2,3) by (simp del: bulk_blocks.simps)
  next
    case False
    then have e': "e = Suc ?k * ?B" "e < stop" using e(4) by (simp_all add: e_def split: if_splits)
    have num: "e div ?B = Suc ?k" unfolding e'(1) using B by simp
    have "Suc ?k < n" unfolding num [symmetric] assms(2) using e'(2) assms(3) by (intro below_started [OF B]) simp
    then have slot': "(slot + 1) mod ?S = slot_of ?S (pr_blockIndexFront p) n (e div ?B)"
      unfolding Suc.prems(4) num using ix(1,2) w by (intro slot_of_Suc) auto
    have "stop - e \<le> rounds" using Suc.prems(3) e(1) e'(2) by simp
    from Suc.IH [OF m(2) e'(2) this slot'] obtain P' where
      rest: "bulk_blocks rounds tr p stop e ((slot + 1) mod ?S) ?P = (map Some (take (stop - e) (drop (e - index) xs)), P')"
      and core: "pcore tr stale W lo n stop t (drop (stop - e) (drop (e - index) xs)) p P'"
      and frame: "frame_step (set (blocks_of stale W lo n)) ?P (set (blocks_of stale W lo n)) P'" by blast
    have split: "stop - index = (e - index) + (stop - e)" using e(1) e'(2) by simp
    have "bulk_blocks (Suc rounds) tr p stop index slot P = (map Some (take (stop - index) xs), P')"
      unfolding unfold rest using False by (simp only: split take_add map_append if_False prod.case)
    moreover have "drop (stop - e) (drop (e - index) xs) = drop (stop - index) xs" unfolding split by (simp only: drop_drop add.commute)
    ultimately show ?thesis using core frame_step_trans [OF m(3) frame] by (simp only:) blast
  qed
qed simp

lemma bulk_blocks_none:
  assumes "BLOCK_SIZE tr > 0" and "BLOCK_SIZE tr < 2 ^ 63"
  shows "bulk_blocks (Suc r) tr p i i slot P = ([], P)"
proof -
  have "i mod BLOCK_SIZE tr < BLOCK_SIZE tr" using assms(1) by simp
  moreover have "i mod BLOCK_SIZE tr \<le> i" by simp
  ultimately have "i < block_base tr i + BLOCK_SIZE tr" "block_base tr i + BLOCK_SIZE tr - i < 2 ^ 63"
    using assms unfolding block_base_def by linarith+
  then have "index_less i (block_base tr i + BLOCK_SIZE tr)" by (simp only: index_less_def)
  moreover have "upd_block b (\<lambda>b. b) P = P" for b by (simp add: upd_block_def)
  ultimately show ?thesis by (simp add: set_many_empty_zero)
qed

lemma explicit_dequeue_bulk_ok:
  assumes "ep_queue tr c own xs p P" and "length xs < 2 ^ 63" and "BLOCK_SIZE tr < 2 ^ 63"
    and "explicit_dequeue_bulk tr mx p P = (items, p', P')"
  shows "items = map Some (take mx xs)" and "ep_queue tr c own (drop mx xs) p' P'" and "frame_step own P own P'"
proof -
  obtain stale W lo where rep: "ep_rep tr stale W lo xs p P" and own: "own = set (blocks_of stale W lo (started tr (tailIndex p)))"
    and tidy: "tidy c stale lo (started tr (tailIndex p)) p"
    using assms(1) unfolding ep_queue_def by blast
  let ?n = "started tr (tailIndex p)" and ?c = "min (length xs) mx"
  have e: "BLOCK_SIZE tr > 0" "index_ok tr W lo ?n p"
    "dequeueOptimisticCount p = headIndex p + dequeueOvercommit p" "headIndex p \<le> tailIndex p" "length xs = tailIndex p - headIndex p"
    using rep by (simp_all add: ep_rep_def content_def)
  have sub: "own \<subseteq> in_use P" using ep_rep_in_use [OF rep] own by simp
  let ?p = "p\<lparr>dequeueOptimisticCount := dequeueOptimisticCount p + ?c, headIndex := headIndex p + ?c\<rparr>"
  have "items = map Some (take mx xs) \<and> ep_queue tr c own (drop mx xs) p' P' \<and> frame_step own P own P'"
  proof (cases "xs = []")
    case True
    then show ?thesis using assms(1,4) e frame_step_refl [OF sub]
      by (simp add: explicit_dequeue_bulk_def index_less_def Let_def)
  next
    case False
    then have il: "index_less 0 (length xs)" using assms(2) by (simp add: index_less_def)
    have bulk: "explicit_dequeue_bulk tr mx p P = (case bulk_blocks (Suc ?c) tr ?p (headIndex p + ?c) (headIndex p) (index_slot tr ?p (headIndex p)) P of
        (items, P) \<Rightarrow> (items, ?p, P))"
    proof -
      have d: "tailIndex p - (dequeueOptimisticCount p - dequeueOvercommit p) = length xs" using e by simp
      have c: "min ?c (length xs) = ?c" by simp
      show ?thesis using il unfolding explicit_dequeue_bulk_def Let_def
        by (simp del: bulk_blocks.simps add: d c)
    qed
    show ?thesis
    proof (cases "mx = 0")
      case True
      then have "?c = 0" by simp
      then have "explicit_dequeue_bulk tr mx p P = ([], p, P)"
        unfolding bulk by (simp del: bulk_blocks.simps add: bulk_blocks_none [OF e(1) assms(3)])
      then show ?thesis using assms True frame_step_refl [OF sub] by simp
    next
      case False
      then have c: "headIndex p < headIndex p + ?c" "headIndex p + ?c \<le> tailIndex p" "?c \<le> Suc ?c" using \<open>xs \<noteq> []\<close> e
        by (cases xs; auto simp: min_def)+
      have lt: "headIndex p < tailIndex p" using c(1,2) by linarith
      have core: "pcore tr stale W lo ?n (headIndex p) (tailIndex p) xs ?p P"
        using ep_rep_pcore [OF rep] by (simp add: pcore_def ring_ok_def)
      have ix: "index_ok tr W lo ?n ?p" using e(2) by (simp add: index_ok_def)
      note w = window_number [OF core refl lt]
      obtain P'' where b: "bulk_blocks (Suc ?c) tr ?p (headIndex p + ?c) (headIndex p) (index_slot tr ?p (headIndex p)) P = (map Some (take ?c xs), P'')"
          "pcore tr stale W lo ?n (headIndex p + ?c) (tailIndex p) (drop ?c xs) ?p P''"
          "frame_step own P own P''"
        using bulk_blocks_ok [OF ix refl c(2) assms(3) core c(1) _ index_slot_ok(1) [OF ix e(1) w], of "Suc ?c"] own by auto
      have res: "items = map Some (take ?c xs)" "p' = ?p" "P' = P''" using assms(4) bulk b(1) by (simp_all del: bulk_blocks.simps)
      have "ep_rep tr stale W lo (drop ?c xs) ?p P''" using b(2) ix e by (simp add: ep_rep_def pcore_def)
      then have "ep_queue tr c own (drop ?c xs) ?p P''" using own tidy by (intro ep_queueI) (auto simp: tidy_def)
      moreover have "take ?c xs = take mx xs" "drop ?c xs = drop mx xs" by (simp_all add: min_def)
      ultimately show ?thesis using res b(3) by simp
    qed
  qed
  then show "items = map Some (take mx xs)" and "ep_queue tr c own (drop mx xs) p' P'" and "frame_step own P own P'" by simp_all
qed

section \<open>A new producer\<close>

lemma ExplicitProducer_ok:
  assumes "pool_ok tr P" and "traits_ok tr" and "ExplicitProducer mo tr P = (p, P')"
  shows "ep_queue tr c {} [] p P'" and "frame_step {} P {} P'"
proof -
  have B: "BLOCK_SIZE tr > 0" "EXPLICIT_INITIAL_INDEX_SIZE tr div 2 > 0" using assms(2) by (simp_all add: traits_ok_def)
  define half where "half = EXPLICIT_INITIAL_INDEX_SIZE tr div 2"
  define pool_based where "pool_based = unat (ceil_to_pow_2 (of_nat (initialBlockPoolSize P))) div 2"
  define q :: eproducer where "q = \<lparr>tailIndex = 0, headIndex = 0, dequeueOptimisticCount = 0, dequeueOvercommit = 0,
     tailBlock = None, idx_raw = False, idx_entries = [], idx_front = 0, pr_blockIndexSlotsUsed = 0,
     pr_blockIndexSize = (if pool_based > half then pool_based else half), pr_blockIndexFront = 0\<rparr>"
  obtain ok where nb: "new_block_index mo (pr_blockIndexSlotsUsed q) q P = (ok, p, P')"
    using assms(3) unfolding ExplicitProducer_def Let_def half_def [symmetric] pool_based_def [symmetric] q_def [symmetric]
    by (auto simp: q_def split: prod.splits)
  have st: "started tr 0 = 0" using started_times [OF B(1), of 0] by simp
  have rep: "ep_rep tr [] (\<lambda>_. 0) 0 [] q P"
    using B assms(1) by (simp add: ep_rep_def q_def st index_ok_def ring_ok_def content_def blocks_of_def ring_def half_def)
  note n = ep_rep_new_index [OF rep nb]
  have "tailIndex p = 0" using n(3) by (simp add: q_def)
  moreover have "tidy c [] 0 0 p" using n(4) by (simp add: tidy_def q_def)
  ultimately show "ep_queue tr c {} [] p P'" using n(1) st by (intro ep_queueI) (auto simp: blocks_of_def)
  have "index_ok tr (\<lambda>_. 0) 0 (started tr (tailIndex q)) q" using rep by (simp add: ep_rep_def)
  then have "P' = P\<lparr>mallocs := mallocs P + 1\<rparr>" by (rule new_block_index_ok(4) [OF _ nb])
  then show "frame_step {} P {} P'" by (intro frame_step_own) (simp_all add: mallocs_frame)
qed

section \<open>The contract of a sub-queue\<close>

text \<open>The explicit producer, for every parameter of the queue.\<close>

definition explicit_rep :: "traits \<Rightarrow> nat set \<Rightarrow> 'a list \<Rightarrow> eproducer \<Rightarrow> 'a pool \<Rightarrow> bool" where
  "explicit_rep tr own xs p P \<longleftrightarrow> BLOCK_SIZE tr < 2 ^ 63 \<and> ep_queue tr (noexcept_ctor tr) own xs p P"

lemma ep_queue_in_use: "ep_queue tr c own xs p P \<Longrightarrow> own \<subseteq> in_use P"
  unfolding ep_queue_def using ep_rep_in_use by blast

interpretation explicit_sub: sub_queue "explicit_rep tr" "explicit_enqueue mo tr m" "explicit_dequeue tr" "explicit_dequeue_bulk tr"
  for tr mo m
proof
  fix own xs and p :: eproducer and P P' :: "'a pool" and th x r p'
  assume rep: "explicit_rep tr own xs p P"
  then have q: "BLOCK_SIZE tr < 2 ^ 63" "ep_queue tr (noexcept_ctor tr) own xs p P" by (simp_all add: explicit_rep_def)
  show "own \<subseteq> in_use P" by (rule ep_queue_in_use [OF q(2)])
  assume "explicit_enqueue mo tr m th x p P = (r, p', P')"
  moreover have "(noexcept_ctor tr \<and> raised tr th = None) = noexcept_ctor tr" by (simp add: raised_def)
  ultimately show "\<exists>own'. frame_step own P own' P' \<and> explicit_rep tr own' (if r = Inr True then xs @ [x] else xs) p' P'"
    using explicit_enqueue_ok [OF q(2), of mo m th x r p' P'] q(1) by (simp add: explicit_rep_def)
next
  fix own xs and p :: eproducer and P P' :: "'a pool" and r p'
  assume "explicit_rep tr own xs p P" "length xs < 2 ^ 63" "explicit_dequeue tr p P = (r, p', P')"
  then show "r = (if xs = [] then (False, None) else (True, Some (hd xs)))
      \<and> (\<exists>own'. frame_step own P own' P' \<and> explicit_rep tr own' (tl xs) p' P')"
    using explicit_dequeue_ok [of tr "noexcept_ctor tr" own xs p P r p' P'] unfolding explicit_rep_def by blast
next
  fix own xs and p :: eproducer and P P' :: "'a pool" and mx items p'
  assume "explicit_rep tr own xs p P" "length xs < 2 ^ 63" "explicit_dequeue_bulk tr mx p P = (items, p', P')"
  then show "items = map Some (take mx xs) \<and> (\<exists>own'. frame_step own P own' P' \<and> explicit_rep tr own' (drop mx xs) p' P')"
    using explicit_dequeue_bulk_ok [of tr "noexcept_ctor tr" own xs p P mx items p' P'] unfolding explicit_rep_def by blast
qed

section \<open>Properties\<close>

text \<open>
  (C13) First in, first out: whatever sequence of enqueues (failing and throwing ones included), dequeues and bulk
  dequeues a new explicit producer serves, the elements handed out are exactly the elements
  accepted, in the order they were accepted, up to those still in the queue; blocks of other producers are untouched.
\<close>

theorem explicit_producer_fifo:
  assumes "pool_ok tr P" and "traits_ok tr" and "BLOCK_SIZE tr < 2 ^ 63" and "length ops < 2 ^ 63"
    and "ExplicitProducer mo tr P = (p, P1)"
    and "sub_run (explicit_enqueue mo tr m) (explicit_dequeue tr) (explicit_dequeue_bulk tr) ops p P1 = (acc, out, p', P')"
  shows "\<exists>own' ys zs. out = map Some zs \<and> acc = zs @ ys \<and> explicit_rep tr own' ys p' P' \<and> frame_step {} P own' P'"
proof -
  note e = ExplicitProducer_ok [OF assms(1,2,5)]
  have "explicit_rep tr {} [] p P1" using e(1) [of "noexcept_ctor tr"] assms(3) by (simp add: explicit_rep_def)
  from explicit_sub.run_fifo [OF this _ assms(6)] assms(4) obtain own' ys zs where
    "frame_step {} P1 own' P'" "explicit_rep tr own' ys p' P'" "out = map Some zs" "acc = zs @ ys" by auto
  then show ?thesis using frame_step_trans [OF e(2)] by blast
qed

definition small_traits :: traits where
  "small_traits = default_traits\<lparr>BLOCK_SIZE := 2, EXPLICIT_INITIAL_INDEX_SIZE := 2\<rparr>"

lemma small_traits_ok:
  "pool_ok small_traits (empty_pool small_traits)" "traits_ok small_traits" "BLOCK_SIZE small_traits < 2 ^ 63"
  using pow2_exp [of 1] pow2_exp [of 5]
  by (simp_all add: pool_ok_def empty_pool_def available_def Block_def small_traits_def default_traits_def traits_ok_def)

theorem explicit_producer_fifo_witness:
  "\<exists>p P1 acc out p' P' own' ys zs. ExplicitProducer (\<lambda>_. True) small_traits (empty_pool small_traits :: nat pool) = (p, P1)
     \<and> sub_run (explicit_enqueue (\<lambda>_. True) small_traits CanAlloc) (explicit_dequeue small_traits)
         (explicit_dequeue_bulk small_traits) [SubEnq None 7, SubDeq] p P1 = (acc, out, p', P')
     \<and> out = map Some zs \<and> acc = zs @ ys \<and> explicit_rep small_traits own' ys p' P'"
proof -
  obtain p P1 where p: "ExplicitProducer (\<lambda>_. True) small_traits (empty_pool small_traits :: nat pool) = (p, P1)"
    by (metis prod.exhaust)
  obtain acc out p' P' where r: "sub_run (explicit_enqueue (\<lambda>_. True) small_traits CanAlloc) (explicit_dequeue small_traits)
      (explicit_dequeue_bulk small_traits) [SubEnq None 7, SubDeq] p P1 = (acc, out, p', P')"
    by (metis prod_cases4)
  have "length [SubEnq None 7, SubDeq :: nat sub_op] < 2 ^ 63" by simp
  from explicit_producer_fifo [OF small_traits_ok this p r] show ?thesis using p r by blast
qed

text \<open>
  When the constructor of the first element of a block throws, the block that was prepared is left in the
  ring with its flags reset: the block ahead of the tail does not count as empty, so it is not
  available for the next enqueue, which has to requisition another block.
\<close>

theorem throw_leaves_block_unusable:
  assumes "ep_queue tr c own xs p P" and "block_offset tr (tailIndex p) = 0"
    and "explicit_enqueue mo tr m (Some e) x p P = (Inl e', p', P')"
  shows "\<exists>t. tailBlock p' = Some t \<and> \<not> is_empty tr explicit_context (heap P' (next_of P' t))"
proof -
  obtain stale W lo where rep: "ep_rep tr stale W lo xs p P" and tidy: "tidy c stale lo (started tr (tailIndex p)) p"
    using assms(1) unfolding ep_queue_def by blast
  obtain ok p1 P1 where sb: "start_block mo tr m p P = (ok, p1, P1)" by (metis prod_cases3)
  define q where "q = p1\<lparr>pr_blockIndexSlotsUsed := pr_blockIndexSlotsUsed p,
                         tailBlock := (if tailBlock p = None then tailBlock p1 else tailBlock p)\<rparr>"
  have ok and p': "p' = q" "P' = P1" using assms(2,3) sb by (auto simp: explicit_enqueue_def q_def split: if_splits option.splits)
  then have "starts tr c xs (set (blocks_of stale W lo (started tr (tailIndex p)))) P p p1 P1"
    using start_block_ok [OF rep tidy assms(2) sb] by simp
  then obtain stale' W' lo' n b where *: "about_to tr stale' W' lo' n b xs p1 P1"
      "n - lo' \<le> pr_blockIndexSlotsUsed p" "pr_blockIndexSlotsUsed p \<le> pr_blockIndexSize p1"
      "(if tailBlock p = None then tailBlock p1 else tailBlock p) = Some (last (b # blocks_of stale' W' lo' n))"
    unfolding starts_def by blast
  have "ep_rep tr (b # stale') W' lo' xs q P1" unfolding q_def by (rule about_to_revert [OF *])
  moreover have "tailBlock q = Some (last (b # blocks_of stale' W' lo' n))" using *(4) by (simp add: q_def)
  ultimately show ?thesis using empty_ahead(1) unfolding p' by blast
qed

theorem throw_leaves_block_unusable_witness:
  "\<exists>p P p' P' t. ExplicitProducer (\<lambda>_. True) small_traits (empty_pool small_traits :: nat pool) = (p, P)
     \<and> explicit_enqueue (\<lambda>_. True) small_traits CanAlloc (Some bad_alloc) 7 p P = (Inl bad_alloc, p', P')
     \<and> tailBlock p' = Some t \<and> \<not> is_empty small_traits explicit_context (heap P' (next_of P' t))"
proof -
  obtain p P where p: "ExplicitProducer (\<lambda>_. True) small_traits (empty_pool small_traits :: nat pool) = (p, P)"
    by (metis prod.exhaust)
  then have fields: "tailIndex p = 0" "headIndex p = 0" "tailBlock p = None" "idx_raw p" "pr_blockIndexSlotsUsed p = 0"
      "0 < pr_blockIndexSize p" "initialBlockPoolSize P = 0" "freeList P = []"
    by (auto simp: ExplicitProducer_def new_block_index_def malloc_def Let_def small_traits_def default_traits_def
        empty_pool_def)
  obtain p' P' where e: "explicit_enqueue (\<lambda>_. True) small_traits CanAlloc (Some bad_alloc) 7 p P = (Inl bad_alloc, p', P')"
    using fields by (auto simp: explicit_enqueue_def start_block_def fresh_block_def no_room_def index_less_def
        small_traits_def default_traits_def block_offset_def MAX_SUBQUEUE_SIZE_def size_max_def Let_def
        requisition_block_def try_get_block_from_initial_pool_def try_get_block_from_free_list_def create_block_def
        malloc_def ring_insert_def split: prod.splits)
  have "ep_queue small_traits True {} [] p P" by (rule ExplicitProducer_ok(1) [OF small_traits_ok(1,2) p])
  moreover have "block_offset small_traits (tailIndex p) = 0" using fields by (simp add: block_offset_def)
  ultimately show ?thesis using throw_leaves_block_unusable [OF _ _ e] p e by blast
qed

end
