(* ===== verification/CQ_Implicit.thy ===== *)
theory CQ_Implicit
  imports CQ_Explicit
begin

text \<open>
  \<open>ImplicitProducer\<close> of \<open>concurrentqueue.h\<close>, one operation at a time: the sub-queue of a thread that
  enqueues without a token.  Its blocks are not kept: a block is requisitioned when the tail reaches it and
  given back to the pool when its last element has been dequeued.  The circular index holds, for every started
  block, its base as key and the block as value, null once the block has been given back.
\<close>

section \<open>State\<close>

definition INVALID_BLOCK_BASE :: nat where
  "INVALID_BLOCK_BASE = 1"

text \<open>
  \<open>ip_index\<close> and \<open>ip_tail\<close> are the \<open>index\<close> (of \<open>capacity\<close> entries) and the \<open>tail\<close> of the current
  \<open>BlockIndexHeader\<close>; \<open>ip_raw\<close> says that one has been allocated.
\<close>

record iproducer = producer +
  ip_raw :: bool
  ip_index :: "(nat \<times> nat option) list"
  ip_tail :: nat
  nextBlockIndexCapacity :: nat

definition capacity :: "iproducer \<Rightarrow> nat" where
  "capacity p = length (ip_index p)"

section \<open>The block index\<close>

text \<open>The loop of \<open>new_block_index\<close> that copies all entries of the old index, from the one after its tail.\<close>

primrec copy_entries :: "nat \<Rightarrow> 'e list \<Rightarrow> nat \<Rightarrow> nat \<Rightarrow> 'e list" where
  "copy_entries 0 index prevTail prevPos = []"
| "copy_entries (Suc rounds) index prevTail prevPos =
     (let prevPos' = (prevPos + 1) mod length index
      in index ! prevPos' # (if prevPos' = prevTail then [] else copy_entries rounds index prevTail prevPos'))"

definition implicit_new_block_index :: "(nat \<Rightarrow> bool) \<Rightarrow> iproducer \<Rightarrow> 'a pool \<Rightarrow> bool \<times> iproducer \<times> 'a pool" where
  "implicit_new_block_index malloc_ok p P =
     (let prevCapacity = (if ip_raw p then capacity p else 0);
          entryCount = (if ip_raw p then prevCapacity else nextBlockIndexCapacity p) in
      case malloc malloc_ok P of (ok, P) \<Rightarrow>
        if \<not> ok then (False, p, P)
        else (True,
              p\<lparr>ip_raw := True,
                ip_index := (if ip_raw p then copy_entries prevCapacity (ip_index p) (ip_tail p) (ip_tail p) else [])
                            @ replicate entryCount (INVALID_BLOCK_BASE, None),
                ip_tail := (prevCapacity + nextBlockIndexCapacity p - 1) mod nextBlockIndexCapacity p,
                nextBlockIndexCapacity := 2 * nextBlockIndexCapacity p\<rparr>,
              P))"

definition ImplicitProducer :: "(nat \<Rightarrow> bool) \<Rightarrow> traits \<Rightarrow> 'a pool \<Rightarrow> iproducer \<times> 'a pool" where
  "ImplicitProducer malloc_ok tr P =
     (let p = \<lparr>tailIndex = 0, headIndex = 0, dequeueOptimisticCount = 0, dequeueOvercommit = 0, tailBlock = None,
               ip_raw = False, ip_index = [], ip_tail = 0, nextBlockIndexCapacity = IMPLICIT_INITIAL_INDEX_SIZE tr\<rparr>
      in case implicit_new_block_index malloc_ok p P of (_, p, P) \<Rightarrow> (p, P))"

text \<open>Claim the entry after the tail for a block; the slot of the entry is returned.\<close>

definition claim_entry :: "nat \<Rightarrow> iproducer \<Rightarrow> nat \<times> iproducer" where
  "claim_entry blockStartIndex p =
     (let newTail = (ip_tail p + 1) mod capacity p
      in (newTail, p\<lparr>ip_index := (ip_index p)[newTail := (blockStartIndex, snd (ip_index p ! newTail))], ip_tail := newTail\<rparr>))"

definition insert_block_index_entry ::
  "(nat \<Rightarrow> bool) \<Rightarrow> AllocationMode \<Rightarrow> nat \<Rightarrow> iproducer \<Rightarrow> 'a pool \<Rightarrow> nat option \<times> iproducer \<times> 'a pool" where
  "insert_block_index_entry malloc_ok allocMode blockStartIndex p P =
     (if \<not> ip_raw p then (None, p, P)
      else
        let (key, val) = ip_index p ! ((ip_tail p + 1) mod capacity p) in
        if key = INVALID_BLOCK_BASE \<or> val = None then
          case claim_entry blockStartIndex p of (slot, p) \<Rightarrow> (Some slot, p, P)
        else if allocMode = CannotAlloc then (None, p, P)
        else case implicit_new_block_index malloc_ok p P of (ok, p, P) \<Rightarrow>
          if \<not> ok then (None, p, P)
          else case claim_entry blockStartIndex p of (slot, p) \<Rightarrow> (Some slot, p, P))"

definition set_entry_value :: "nat \<Rightarrow> nat option \<Rightarrow> iproducer \<Rightarrow> iproducer" where
  "set_entry_value slot val p = p\<lparr>ip_index := (ip_index p)[slot := (fst (ip_index p ! slot), val)]\<rparr>"

definition rewind_block_index_tail :: "iproducer \<Rightarrow> iproducer" where
  "rewind_block_index_tail p = p\<lparr>ip_tail := (ip_tail p + capacity p - 1) mod capacity p\<rparr>"

definition get_block_index_index_for_index :: "traits \<Rightarrow> nat \<Rightarrow> iproducer \<Rightarrow> nat" where
  "get_block_index_index_for_index tr index p =
     (let tailBase = fst (ip_index p ! ip_tail p);
          offset = (int (block_base tr index) - int tailBase) div int (BLOCK_SIZE tr)
      in nat ((int (ip_tail p) + offset) mod int (capacity p)))"

section \<open>Operations\<close>

definition implicit_enqueue ::
  "(nat \<Rightarrow> bool) \<Rightarrow> traits \<Rightarrow> AllocationMode \<Rightarrow> exn option \<Rightarrow> 'a \<Rightarrow> iproducer \<Rightarrow> 'a pool \<Rightarrow> (exn + bool) \<times> iproducer \<times> 'a pool" where
  "implicit_enqueue malloc_ok tr allocMode throws element p P =
     (if block_offset tr (tailIndex p) = 0 then
        if no_room tr (headIndex p) (tailIndex p) then (Inr False, p, P)
        else
          (case insert_block_index_entry malloc_ok allocMode (tailIndex p) p P of
             (None, p, P) \<Rightarrow> (Inr False, p, P)
           | (Some slot, p, P) \<Rightarrow>
               (case requisition_block malloc_ok tr allocMode P of
                  (None, P) \<Rightarrow> (Inr False, set_entry_value slot None (rewind_block_index_tail p), P)
                | (Some newBlock, P) \<Rightarrow>
                    let P = upd_block newBlock (reset_empty tr implicit_context) P in
                    (case raised tr throws of
                       Some e \<Rightarrow>
                         (Inl e, set_entry_value slot None (rewind_block_index_tail p), add_block_to_free_list tr newBlock P)
                     | None \<Rightarrow>
                         (Inr True,
                          (set_entry_value slot (Some newBlock) p)\<lparr>tailBlock := Some newBlock, tailIndex := tailIndex p + 1\<rparr>,
                          upd_block newBlock (construct_at tr (tailIndex p) element) P))))
      else case raised tr throws of
        Some e \<Rightarrow> (Inl e, p, P)
      | None \<Rightarrow>
          (Inr True,
           p\<lparr>tailIndex := tailIndex p + 1\<rparr>,
           upd_block (the (tailBlock p)) (construct_at tr (tailIndex p) element) P))"

text \<open>Give a block back when the operation that marked elements of it as dequeued reports it empty.\<close>

definition release_if :: "traits \<Rightarrow> bool \<Rightarrow> nat \<Rightarrow> nat \<Rightarrow> iproducer \<Rightarrow> 'a pool \<Rightarrow> iproducer \<times> 'a pool" where
  "release_if tr nowEmpty slot b p P =
     (if nowEmpty then (set_entry_value slot None p, add_block_to_free_list tr b P) else (p, P))"

definition implicit_dequeue :: "traits \<Rightarrow> iproducer \<Rightarrow> 'a pool \<Rightarrow> (bool \<times> 'a option) \<times> iproducer \<times> 'a pool" where
  "implicit_dequeue tr p P =
     (let tail = tailIndex p; overcommit = dequeueOvercommit p in
      if index_less (dequeueOptimisticCount p - overcommit) tail then
        let myDequeueCount = dequeueOptimisticCount p;
            p = p\<lparr>dequeueOptimisticCount := dequeueOptimisticCount p + 1\<rparr> in
        if index_less (myDequeueCount - overcommit) tail then
          let index = headIndex p;
              p = p\<lparr>headIndex := index + 1\<rparr>;
              slot = get_block_index_index_for_index tr index p;
              b = the (snd (ip_index p ! slot));
              el = block_at tr (heap P b) index
          in case set_empty tr implicit_context index (destroy_at tr index (heap P b)) of (blk, nowEmpty) \<Rightarrow>
               ((True, el), release_if tr nowEmpty slot b p (upd_block b (\<lambda>_. blk) P))
        else ((False, None), p\<lparr>dequeueOvercommit := dequeueOvercommit p + 1\<rparr>, P)
      else ((False, None), p, P))"

text \<open>The block loop of \<open>dequeue_bulk\<close>, with the rounds bounded as for the explicit producer.\<close>

primrec implicit_bulk_blocks ::
  "nat \<Rightarrow> traits \<Rightarrow> nat \<Rightarrow> nat \<Rightarrow> nat \<Rightarrow> iproducer \<Rightarrow> 'a pool \<Rightarrow> 'a option list \<times> iproducer \<times> 'a pool" where
  "implicit_bulk_blocks 0 tr stop index slot p P = ([], p, P)"
| "implicit_bulk_blocks (Suc rounds) tr stop index slot p P =
     (let blockEnd = block_base tr index + BLOCK_SIZE tr;
          endIndex = (if index_less stop blockEnd then stop else blockEnd);
          b = the (snd (ip_index p ! slot));
          items = map (block_at tr (heap P b)) [index..<endIndex]
      in case set_many_empty tr implicit_context index (endIndex - index)
                (fold (destroy_at tr) [index..<endIndex] (heap P b)) of (blk, nowEmpty) \<Rightarrow>
         case release_if tr nowEmpty slot b p (upd_block b (\<lambda>_. blk) P) of (p, P) \<Rightarrow>
           if endIndex = stop then (items, p, P)
           else case implicit_bulk_blocks rounds tr stop endIndex ((slot + 1) mod capacity p) p P of
                  (rest, p, P) \<Rightarrow> (items @ rest, p, P))"

definition implicit_dequeue_bulk :: "traits \<Rightarrow> nat \<Rightarrow> iproducer \<Rightarrow> 'a pool \<Rightarrow> 'a option list \<times> iproducer \<times> 'a pool" where
  "implicit_dequeue_bulk tr mx p P =
     (let tail = tailIndex p; overcommit = dequeueOvercommit p;
          desired = tail - (dequeueOptimisticCount p - overcommit) in
      if index_less 0 desired then
        let desiredCount = min desired mx;
            myDequeueCount = dequeueOptimisticCount p;
            p = p\<lparr>dequeueOptimisticCount := myDequeueCount + desiredCount\<rparr>;
            actual = tail - (myDequeueCount - overcommit) in
        if index_less 0 actual then
          let actualCount = min desiredCount actual;
              p = (if actualCount < desiredCount
                   then p\<lparr>dequeueOvercommit := dequeueOvercommit p + (desiredCount - actualCount)\<rparr> else p);
              firstIndex = headIndex p;
              p = p\<lparr>headIndex := firstIndex + actualCount\<rparr>
          in implicit_bulk_blocks (Suc actualCount) tr (firstIndex + actualCount) firstIndex
               (get_block_index_index_for_index tr firstIndex p) p P
        else ([], p\<lparr>dequeueOvercommit := dequeueOvercommit p + desiredCount\<rparr>, P)
      else ([], p, P))"

section \<open>Bulk enqueue\<close>

text \<open>
  The loop of \<open>enqueue_bulk\<close> that enters the blocks it needs in the index and links them behind the tail block, except that the
  first one is not linked to a tail block that may have been given back.  A failure undoes the entry it was about to make.
\<close>

primrec take_blocks ::
  "nat \<Rightarrow> (nat \<Rightarrow> bool) \<Rightarrow> traits \<Rightarrow> AllocationMode \<Rightarrow> nat \<Rightarrow> nat option \<Rightarrow> nat \<Rightarrow> iproducer \<Rightarrow> 'a pool
   \<Rightarrow> bool \<times> nat option \<times> iproducer \<times> 'a pool" where
  "take_blocks 0 malloc_ok tr allocMode startTailIndex firstAllocatedBlock currentTailIndex p P = (True, firstAllocatedBlock, p, P)"
| "take_blocks (Suc blocks) malloc_ok tr allocMode startTailIndex firstAllocatedBlock currentTailIndex p P =
     (if no_room tr (headIndex p) currentTailIndex then (False, firstAllocatedBlock, p, P)
      else case insert_block_index_entry malloc_ok allocMode currentTailIndex p P of
        (None, p, P) \<Rightarrow> (False, firstAllocatedBlock, p, P)
      | (Some slot, p, P) \<Rightarrow>
          (case requisition_block malloc_ok tr allocMode P of
             (None, P) \<Rightarrow> (False, firstAllocatedBlock, set_entry_value slot None (rewind_block_index_tail p), P)
           | (Some newBlock, P) \<Rightarrow>
               let P = upd_block newBlock (\<lambda>b. (reset_empty tr implicit_context b)\<lparr>next_block := None\<rparr>) P;
                   p = set_entry_value slot (Some newBlock) p;
                   P = (if block_offset tr startTailIndex \<noteq> 0 \<or> firstAllocatedBlock \<noteq> None
                        then upd_block (the (tailBlock p)) (\<lambda>b. b\<lparr>next_block := Some newBlock\<rparr>) P else P)
               in take_blocks blocks malloc_ok tr allocMode startTailIndex (first_allocated firstAllocatedBlock newBlock)
                    (currentTailIndex + BLOCK_SIZE tr) (p\<lparr>tailBlock := Some newBlock\<rparr>) P))"

text \<open>The loops that take the entries of the new blocks back and give the blocks to the pool; there are at most \<open>blocks\<close> of them.\<close>

primrec undo_entries :: "nat \<Rightarrow> traits \<Rightarrow> nat option \<Rightarrow> nat \<Rightarrow> 'a pool \<Rightarrow> iproducer \<Rightarrow> iproducer" where
  "undo_entries 0 tr b currentTailIndex P p = p"
| "undo_entries (Suc blocks) tr b currentTailIndex P p =
     (case b of
        None \<Rightarrow> p
      | Some b \<Rightarrow>
          undo_entries blocks tr (next_block (heap P b)) (currentTailIndex + BLOCK_SIZE tr) P
            (rewind_block_index_tail (set_entry_value (get_block_index_index_for_index tr currentTailIndex p) None p)))"

primrec add_blocks_to_free_list :: "nat \<Rightarrow> traits \<Rightarrow> nat option \<Rightarrow> 'a pool \<Rightarrow> 'a pool" where
  "add_blocks_to_free_list 0 tr b P = P"
| "add_blocks_to_free_list (Suc blocks) tr b P =
     (case b of
        None \<Rightarrow> P
      | Some b \<Rightarrow> add_blocks_to_free_list blocks tr (next_block (heap P b)) (add_block_to_free_list tr b P))"

definition implicit_enqueue_bulk ::
  "(nat \<Rightarrow> bool) \<Rightarrow> traits \<Rightarrow> AllocationMode \<Rightarrow> (exn option \<times> 'a) list \<Rightarrow> iproducer \<Rightarrow> 'a pool
   \<Rightarrow> (exn + bool) \<times> iproducer \<times> 'a pool" where
  "implicit_enqueue_bulk malloc_ok tr allocMode items p P =
     (let startTailIndex = tailIndex p; startBlock = tailBlock p;
          blocks = new_blocks tr startTailIndex (length items);
          base = first_new_base tr startTailIndex
      in
      case take_blocks blocks malloc_ok tr allocMode startTailIndex None base p P of (ok, firstAllocatedBlock, p', P) \<Rightarrow>
        if \<not> ok then
          (Inr False, (undo_entries blocks tr firstAllocatedBlock base P p')\<lparr>tailBlock := startBlock\<rparr>,
           add_blocks_to_free_list blocks tr firstAllocatedBlock P)
        else
          let newTailIndex = startTailIndex + length items;
              first = (if block_offset tr startTailIndex = 0 \<and> firstAllocatedBlock \<noteq> None then firstAllocatedBlock else startBlock)
          in
          case fill_blocks (Suc blocks) tr newTailIndex (tailBlock p') first startTailIndex items P of
            (thrown, currentTailIndex, b, P) \<Rightarrow>
            (case thrown of
               Some e \<Rightarrow>
                 let P = destroy_blocks (Suc blocks) tr currentTailIndex b
                           (if block_offset tr startTailIndex = 0 then firstAllocatedBlock else startBlock) startTailIndex P
                 in (Inl e, (undo_entries blocks tr firstAllocatedBlock base P p')\<lparr>tailBlock := startBlock\<rparr>,
                     add_blocks_to_free_list blocks tr firstAllocatedBlock P)
             | None \<Rightarrow> (Inr True, p'\<lparr>tailBlock := b, tailIndex := newTailIndex\<rparr>, P)))"

end
