(* ===== verification/CQ_BulkFill.thy ===== *)
theory CQ_BulkFill
  imports CQ_ExplicitFifo CQ_Implicit
begin

text \<open>
  What the bulk enqueues of both kinds of producers share: how many blocks an operation needs, and the loops that construct
  the elements in linked blocks and, when a constructor throws, destroy them again.
\<close>

section \<open>How many blocks\<close>

lemma started_int: "BLOCK_SIZE tr > 0 \<Longrightarrow> int (started tr t) = (int t - 1) div int (BLOCK_SIZE tr) + 1"
proof -
  assume B: "BLOCK_SIZE tr > 0"
  then have "int (t + BLOCK_SIZE tr - 1) = int t - 1 + int (BLOCK_SIZE tr)" by simp
  then have "int (started tr t) = (int t - 1 + int (BLOCK_SIZE tr)) div int (BLOCK_SIZE tr)" unfolding started_def zdiv_int by simp
  also have "\<dots> = (int t - 1) div int (BLOCK_SIZE tr) + 1" using B by (intro div_add_self2) simp
  finally show ?thesis .
qed

lemma new_blocks_started:
  assumes "BLOCK_SIZE tr > 0"
  shows "new_blocks tr t c = started tr (t + c) - started tr t" and "first_new_base tr t = started tr t * BLOCK_SIZE tr"
proof -
  have 1: "(int t - 1) div int (BLOCK_SIZE tr) = int (started tr t) - 1" using started_int [OF assms, of t] by simp
  have 2: "(int t + int c - 1) div int (BLOCK_SIZE tr) = int (started tr (t + c)) - 1" using started_int [OF assms, of "t + c"] by simp
  show "new_blocks tr t c = started tr (t + c) - started tr t" unfolding new_blocks_def 1 2 by simp
  have "(int (started tr t) - 1) * int (BLOCK_SIZE tr) + int (BLOCK_SIZE tr) = int (started tr t * BLOCK_SIZE tr)" by (simp add: algebra_simps)
  then show "first_new_base tr t = started tr t * BLOCK_SIZE tr" unfolding first_new_base_def 1 by (simp only: nat_int)
qed

lemma started_mono: "t \<le> t' \<Longrightarrow> started tr t \<le> started tr t'"
  unfolding started_def by (intro div_le_mono) simp

lemma tail_block_number:
  assumes "BLOCK_SIZE tr > 0"
  shows "block_offset tr t = 0 \<Longrightarrow> t div BLOCK_SIZE tr = started tr t" and "block_offset tr t \<noteq> 0 \<Longrightarrow> started tr t = Suc (t div BLOCK_SIZE tr)"
proof -
  show "block_offset tr t \<noteq> 0 \<Longrightarrow> started tr t = Suc (t div BLOCK_SIZE tr)" using started_inside(1) [OF assms] by (simp add: block_offset_def)
  assume "block_offset tr t = 0"
  then have "started tr t * BLOCK_SIZE tr = t" using started_boundary [OF assms] by (simp add: block_offset_def)
  then show "t div BLOCK_SIZE tr = started tr t" using assms by (metis nonzero_mult_div_cancel_right not_gr_zero)
qed

lemma below_last_started: "BLOCK_SIZE tr > 0 \<Longrightarrow> t > 0 \<Longrightarrow> (started tr t - 1) * BLOCK_SIZE tr < t \<and> t \<le> started tr t * BLOCK_SIZE tr"
proof -
  assume B: "BLOCK_SIZE tr > 0" and t: "t > 0"
  define q r where "q = (t - 1) div BLOCK_SIZE tr" and "r = (t - 1) mod BLOCK_SIZE tr"
  have tq: "t = q * BLOCK_SIZE tr + r + 1" "r < BLOCK_SIZE tr" using B t by (simp_all add: q_def r_def)
  then have "started tr t = Suc q" by (intro started_eq [of r]) simp_all
  then show ?thesis using tq by simp
qed

section \<open>The storage of the new elements\<close>

text \<open>
  What constructing and destroying elements from index \<open>t\<close> on does to the pool: nothing but to the storage of these
  elements, which is in the blocks numbered \<open>k\<close> to \<open>m\<close>.
\<close>

definition touched :: "traits \<Rightarrow> (nat \<Rightarrow> nat) \<Rightarrow> nat \<Rightarrow> nat \<Rightarrow> nat \<Rightarrow> 'a pool \<Rightarrow> 'a pool \<Rightarrow> bool" where
  "touched tr W k m t P P' \<longleftrightarrow>
     P' = P\<lparr>heap := heap P'\<rparr> \<and> (\<forall>c. c \<notin> W ` {k..<m} \<longrightarrow> heap P' c = heap P c)
     \<and> (\<forall>c. heap P' c = (heap P c)\<lparr>elements := elements (heap P' c)\<rparr> \<and> length (elements (heap P' c)) = length (elements (heap P c)))
     \<and> (\<forall>i j. k \<le> i \<and> i < m \<and> j < BLOCK_SIZE tr \<and> i * BLOCK_SIZE tr + j < t \<longrightarrow>
          elements (heap P' (W i)) ! j = elements (heap P (W i)) ! j)"

lemma touched_refl: "touched tr W k m t P P"
  by (simp add: touched_def)

lemma touched_trans:
  assumes "touched tr W k m t P P'" and "touched tr W k m t P' P''"
  shows "touched tr W k m t P P''"
proof -
  note 1 = assms(1) [unfolded touched_def] and 2 = assms(2) [unfolded touched_def]
  have "P'' = P\<lparr>heap := heap P''\<rparr>" using 1 2 by (metis pool.surjective pool.update_convs(1))
  moreover have "heap P'' c = (heap P c)\<lparr>elements := elements (heap P'' c)\<rparr>" for c using 1 2 by (metis block.surjective block.update_convs(1))
  ultimately show ?thesis using 1 2 unfolding touched_def by simp
qed

lemma touched_next: "touched tr W k m t P P' \<Longrightarrow> next_block (heap P' c) = next_block (heap P c)"
  unfolding touched_def by (metis block.select_convs(2) block.surjective block.update_convs(1))

lemma touched_emptied: "touched tr W k m t P P' \<Longrightarrow> emptied tr ctx (heap P' c) js = emptied tr ctx (heap P c) js"
proof (rule emptied_cong)
  assume "touched tr W k m t P P'"
  then have "heap P' c = (heap P c)\<lparr>elements := elements (heap P' c)\<rparr>" unfolding touched_def by blast
  then show "emptyFlags (heap P' c) = emptyFlags (heap P c)" "elementsCompletelyDequeued (heap P' c) = elementsCompletelyDequeued (heap P c)"
    by (metis block.select_convs block.surjective block.update_convs(1))+
qed

lemma touched_pool:
  assumes "touched tr W k m t P P'"
  shows "pool_ok tr P' = pool_ok tr P" and "in_use P' = in_use P" and "c \<notin> W ` {k..<m} \<Longrightarrow> heap P' c = heap P c"
proof -
  have P': "P' = P\<lparr>heap := heap P'\<rparr>" and len: "\<And>c. length (elements (heap P' c)) = length (elements (heap P c))"
    using assms by (simp_all add: touched_def)
  have dyn: "dynamicallyAllocated (heap P' c) = dynamicallyAllocated (heap P c)" for c
    using assms unfolding touched_def by (metis block.select_convs(5) block.surjective block.update_convs(1))
  have "available P' = available P" "destroyed P' = destroyed P" "fresh P' = fresh P" "initialBlockPoolSize P' = initialBlockPoolSize P"
    by (subst P', simp add: available_def)+
  then show "pool_ok tr P' = pool_ok tr P" "in_use P' = in_use P" using len dyn by (simp_all add: pool_ok_def in_use_def)
  show "c \<notin> W ` {k..<m} \<Longrightarrow> heap P' c = heap P c" using assms by (simp add: touched_def)
qed

text \<open>Elements before \<open>t\<close> are not affected.\<close>

lemma touched_content:
  assumes "touched tr W k m t P P'" and "content tr ctx W lo n h t xs P" and "inj_on W {lo..<m}" and "n \<le> m" and "lo \<le> k"
  shows "content tr ctx W lo n h t xs P'"
proof -
  have "holds tr ctx h t xs i (heap P' (W i))" if i: "lo \<le> i" "i < n" for i
  proof -
    have h: "holds tr ctx h t xs i (heap P (W i))" using assms(2) i by (simp add: content_def)
    have "length (elements (heap P' (W i))) = length (elements (heap P (W i)))" using assms(1) by (simp add: touched_def)
    moreover have "elements (heap P' (W i)) ! j = elements (heap P (W i)) ! j" if j: "j < BLOCK_SIZE tr" "i * BLOCK_SIZE tr + j < t" for j
    proof (cases "W i \<in> W ` {k..<m}")
      case True
      then obtain i' where "W i = W i'" "k \<le> i'" "i' < m" by auto
      then have "k \<le> i" using inj_onD [OF assms(3), of i i'] i assms(4,5) by simp
      then show ?thesis using assms(1,4) i j unfolding touched_def by simp
    next
      case False
      then show ?thesis using touched_pool(3) [OF assms(1)] by simp
    qed
    ultimately show ?thesis using h touched_emptied [OF assms(1)] by (simp add: holds_def)
  qed
  then show ?thesis using assms(2) by (simp add: content_def)
qed

lemma touched_upd:
  assumes "k \<le> i" and "i < m" and "inj_on W {k..<m}" and "f (heap P (W i)) = (heap P (W i))\<lparr>elements := es\<rparr>"
    and "length es = length (elements (heap P (W i)))"
    and "\<And>j. j < BLOCK_SIZE tr \<Longrightarrow> i * BLOCK_SIZE tr + j < t \<Longrightarrow> es ! j = elements (heap P (W i)) ! j"
  shows "touched tr W k m t P (upd_block (W i) f P)"
proof -
  have "elements (heap (upd_block (W i) f P) (W i')) ! j = elements (heap P (W i')) ! j"
    if "k \<le> i'" "i' < m" "j < BLOCK_SIZE tr" "i' * BLOCK_SIZE tr + j < t" for i' j
  proof (cases "i' = i")
    case True
    then show ?thesis using assms(4,6) that by simp
  next
    case False
    then have "W i' \<noteq> W i" using that(1,2) assms(1-3) by (auto dest: inj_onD)
    then show ?thesis by simp
  qed
  then show ?thesis using assms(1,2,4,5) by (auto simp: touched_def upd_block_def)
qed

lemma offset_in_block:
  assumes "k * BLOCK_SIZE tr \<le> i" and "i < Suc k * BLOCK_SIZE tr"
  shows "i div BLOCK_SIZE tr = k" and "k * BLOCK_SIZE tr + block_offset tr i = i" and "block_offset tr i < BLOCK_SIZE tr"
proof -
  show k: "i div BLOCK_SIZE tr = k" using assms by (intro div_nat_eqI) (simp_all add: mult.commute)
  show "k * BLOCK_SIZE tr + block_offset tr i = i" unfolding block_offset_def k [symmetric] by (rule div_mult_mod_eq)
  show "block_offset tr i < BLOCK_SIZE tr" using assms by (cases "BLOCK_SIZE tr") (simp_all add: block_offset_def)
qed

lemma touched_construct:
  assumes "k \<le> b" and "b < m" and "inj_on W {k..<m}" and "t \<le> i" and "b * BLOCK_SIZE tr \<le> i" and "i < Suc b * BLOCK_SIZE tr"
  shows "touched tr W k m t P (upd_block (W b) (construct_at tr i x) P)"
proof (rule touched_upd [OF assms(1-3)])
  show "construct_at tr i x (heap P (W b)) = (heap P (W b))\<lparr>elements := (elements (heap P (W b)))[block_offset tr i := Some x]\<rparr>"
    by (simp add: construct_at_def)
  fix j assume "j < BLOCK_SIZE tr" "b * BLOCK_SIZE tr + j < t"
  then have "j \<noteq> block_offset tr i" using offset_in_block(2) [OF assms(5,6)] assms(4) by auto
  then show "(elements (heap P (W b)))[block_offset tr i := Some x] ! j = elements (heap P (W b)) ! j" by simp
qed simp

lemma touched_destroy:
  assumes "k \<le> b" and "b < m" and "inj_on W {k..<m}" and "t \<le> i" and "b * BLOCK_SIZE tr \<le> i" and "e \<le> Suc b * BLOCK_SIZE tr"
  shows "touched tr W k m t P (upd_block (W b) (fold (destroy_at tr) [i..<e]) P)"
proof -
  have "\<exists>es. fold (destroy_at tr) is blk = blk\<lparr>elements := es\<rparr> \<and> length es = length (elements blk)
      \<and> (\<forall>j. j \<notin> block_offset tr ` set is \<longrightarrow> es ! j = elements blk ! j)" for "is" and blk :: "'a block"
  proof (induction "is" arbitrary: blk)
    case Nil
    show ?case by (rule exI [of _ "elements blk"]) simp
  next
    case (Cons a "is")
    obtain es where "fold (destroy_at tr) is (destroy_at tr a blk) = (destroy_at tr a blk)\<lparr>elements := es\<rparr>"
      "length es = length (elements (destroy_at tr a blk))" "\<forall>j. j \<notin> block_offset tr ` set is \<longrightarrow> es ! j = elements (destroy_at tr a blk) ! j"
      using Cons by blast
    moreover have "(destroy_at tr a blk)\<lparr>elements := es\<rparr> = blk\<lparr>elements := es\<rparr>" by (simp add: destroy_at_def)
    ultimately have "fold (destroy_at tr) (a # is) blk = blk\<lparr>elements := es\<rparr>" "length es = length (elements blk)"
      "\<forall>j. j \<notin> block_offset tr ` set (a # is) \<longrightarrow> es ! j = elements blk ! j" by (simp_all add: destroy_at_def [of tr a blk])
    then show ?case by blast
  qed
  then obtain es where es: "fold (destroy_at tr) [i..<e] (heap P (W b)) = (heap P (W b))\<lparr>elements := es\<rparr>" "length es = length (elements (heap P (W b)))"
    "\<forall>j. j \<notin> block_offset tr ` set [i..<e] \<longrightarrow> es ! j = elements (heap P (W b)) ! j" by blast
  show ?thesis
  proof (rule touched_upd [where f = "fold (destroy_at tr) [i..<e]" and i = b and es = es, OF assms(1-3) es(1,2)])
    fix j assume j: "j < BLOCK_SIZE tr" "b * BLOCK_SIZE tr + j < t"
    have "j \<noteq> block_offset tr a" if "a \<in> {i..<e}" for a
    proof -
      have "b * BLOCK_SIZE tr + block_offset tr a = a" using that assms(5,6) by (intro offset_in_block(2)) simp_all
      then show ?thesis using j(2) that assms(4) by auto
    qed
    then have "j \<notin> block_offset tr ` set [i..<e]" unfolding set_upt by blast
    then show "es ! j = elements (heap P (W b)) ! j" using es(3) by blast
  qed
qed


section \<open>Filling and emptying again\<close>

text \<open>The blocks from \<open>k\<close> on are linked, in this order.\<close>

definition linked :: "(nat \<Rightarrow> nat) \<Rightarrow> nat \<Rightarrow> nat \<Rightarrow> 'a pool \<Rightarrow> bool" where
  "linked W k m P \<longleftrightarrow> (\<forall>i. k \<le> i \<and> Suc i < m \<longrightarrow> next_block (heap P (W i)) = Some (W (Suc i)))"

lemma linked_touched: "touched tr W k m t P P' \<Longrightarrow> linked W k' m' P' = linked W k' m' P"
  by (simp add: linked_def touched_next)

lemma construct_items_ok:
  assumes "k \<le> b" and "b < m" and "inj_on W {k..<m}" and "BLOCK_SIZE tr > 0"
  shows "construct_items tr (Some (W b)) i items P = (th, i', P') \<Longrightarrow> t \<le> i \<Longrightarrow> b * BLOCK_SIZE tr \<le> i \<Longrightarrow>
    i + length items \<le> Suc b * BLOCK_SIZE tr \<Longrightarrow>
    touched tr W k m t P P' \<and> i \<le> i' \<and> (if th = None then i' = i + length items else i' < i + length items)
    \<and> (\<forall>ctx lo h xs. th = None \<and> lo \<le> k \<and> inj_on W {lo..<m} \<and> content tr ctx W lo m h i xs P \<longrightarrow>
         content tr ctx W lo m h i' (xs @ map snd items) P')"
proof (induction items arbitrary: i P)
  case (Cons item items)
  show ?case
  proof (cases "raised tr (fst item)")
    case None
    let ?P = "upd_block (W b) (construct_at tr i (snd item)) P"
    have rec: "construct_items tr (Some (W b)) (Suc i) items ?P = (th, i', P')" using Cons.prems(1) None by simp
    have i: "i < Suc b * BLOCK_SIZE tr" using Cons.prems(4) by simp
    have t: "touched tr W k m t P ?P" by (rule touched_construct [OF assms(1-3) Cons.prems(2,3) i])
    have ih: "touched tr W k m t ?P P' \<and> Suc i \<le> i' \<and> (if th = None then i' = Suc i + length items else i' < Suc i + length items)
      \<and> (\<forall>ctx lo h xs. th = None \<and> lo \<le> k \<and> inj_on W {lo..<m} \<and> content tr ctx W lo m h (Suc i) xs ?P \<longrightarrow>
           content tr ctx W lo m h i' (xs @ map snd items) P')"
      using Cons.prems(2-4) by (intro Cons.IH [OF rec]) simp_all
    have "content tr ctx W lo m h i' (xs @ map snd (item # items)) P'"
      if c: "th = None \<and> lo \<le> k \<and> inj_on W {lo..<m} \<and> content tr ctx W lo m h i xs P" for ctx lo h xs
    proof -
      have "content tr ctx W lo m h (Suc i) (xs @ [snd item]) ?P"
        using c assms(1,2) offset_in_block(1) [OF Cons.prems(3) i] by (intro content_push [OF _ assms(4)]) simp_all
      then have "content tr ctx W lo m h i' ((xs @ [snd item]) @ map snd items) P'" using c ih by blast
      then show ?thesis by simp
    qed
    moreover have "if th = None then i' = i + length (item # items) else i' < i + length (item # items)" "i \<le> i'" using ih by (auto split: if_splits)
    moreover note touched_trans [OF t conjunct1 [OF ih]]
    ultimately show ?thesis by (intro conjI allI impI) assumption+
  next
    case (Some e)
    then have "th = Some e" "i' = i" "P' = P" using Cons.prems(1) by simp_all
    then show ?thesis using touched_refl by simp
  qed
qed (simp add: touched_refl)

lemma stop_index_ok:
  assumes "BLOCK_SIZE tr < 2 ^ 63" and "i \<le> limit" and "k * BLOCK_SIZE tr \<le> i" and "i < Suc k * BLOCK_SIZE tr"
  shows "stop_index tr limit i = min limit (Suc k * BLOCK_SIZE tr)"
proof -
  have "block_base tr i = k * BLOCK_SIZE tr" using offset_in_block(1) [OF assms(3,4)] by (auto simp: block_base_def minus_mod_eq_div_mult)
  then show ?thesis using assms by (auto simp: stop_index_def index_less_def Let_def)
qed

lemma fill_blocks_ok:
  assumes "BLOCK_SIZE tr < 2 ^ 63" and "BLOCK_SIZE tr > 0" and "newT \<le> m * BLOCK_SIZE tr" and "(m - 1) * BLOCK_SIZE tr < newT"
    and "inj_on W {k..<m}"
  shows "fill_blocks rounds tr newT (Some (W (m - 1))) (Some (W b)) i items P = (th, i', b', P') \<Longrightarrow> linked W k m P \<Longrightarrow>
    k \<le> b \<Longrightarrow> b < m \<Longrightarrow> b * BLOCK_SIZE tr \<le> i \<Longrightarrow> i < Suc b * BLOCK_SIZE tr \<Longrightarrow> t \<le> i \<Longrightarrow> i + length items = newT \<Longrightarrow> m - b \<le> rounds \<Longrightarrow>
    touched tr W k m t P P' \<and> (\<exists>c. b \<le> c \<and> c < m \<and> b' = Some (W c) \<and> c * BLOCK_SIZE tr \<le> i' \<and> i' \<le> Suc c * BLOCK_SIZE tr \<and> i \<le> i'
       \<and> (th = None \<longrightarrow> c = m - 1 \<and> i' = newT))
    \<and> (\<forall>ctx lo h xs. th = None \<and> lo \<le> k \<and> inj_on W {lo..<m} \<and> content tr ctx W lo m h i xs P \<longrightarrow>
         content tr ctx W lo m h newT (xs @ map snd items) P')"
proof (induction rounds arbitrary: b i items P)
  case (Suc rounds)
  let ?n = "stop_index tr newT i - i"
  have stop: "stop_index tr newT i = min newT (Suc b * BLOCK_SIZE tr)"
    using Suc.prems(5,6,8) by (intro stop_index_ok [OF assms(1)]) simp_all
  obtain th1 i1 P1 where c: "construct_items tr (Some (W b)) i (take ?n items) P = (th1, i1, P1)" by (metis prod_cases3)
  have len: "length (take ?n items) = ?n" using Suc.prems(8) stop by simp
  have fits: "i + length (take ?n items) \<le> Suc b * BLOCK_SIZE tr" unfolding len stop using Suc.prems(6,8) by simp
  note ci = construct_items_ok [OF Suc.prems(3,4) assms(5,2) c Suc.prems(7,5) fits]
  show ?case
  proof (cases th1)
    case (Some e)
    then have "(th, i', b', P') = (Some e, i1, Some (W b), P1)" using Suc.prems(1) c by (simp add: Let_def)
    moreover have "i1 \<le> Suc b * BLOCK_SIZE tr" "b * BLOCK_SIZE tr \<le> i1" using ci Some fits Suc.prems(5) by (simp_all split: if_splits)
    ultimately show ?thesis using ci Suc.prems(4) by auto
  next
    case None
    have i1: "i1 = min newT (Suc b * BLOCK_SIZE tr)" using ci None Suc.prems(6,8) unfolding len stop by simp
    show ?thesis
    proof (cases "b = m - 1")
      case True
      then have "Suc b * BLOCK_SIZE tr = m * BLOCK_SIZE tr" using Suc.prems(4) by simp
      then have i1': "i1 = newT" and n: "?n = length items" using i1 stop assms(3) Suc.prems(8) by simp_all
      have "(th, i', b', P') = (None, i1, Some (W b), P1)" using Suc.prems(1) c None True by (simp add: Let_def)
      then have r: "th = None" "i' = newT" "b' = Some (W b)" "P' = P1" using i1' by simp_all
      have le: "b * BLOCK_SIZE tr \<le> newT" "newT \<le> Suc b * BLOCK_SIZE tr" "i \<le> newT"
        using Suc.prems(5,8) assms(3) \<open>Suc b * BLOCK_SIZE tr = m * BLOCK_SIZE tr\<close> by simp_all
      have tk: "take ?n items = items" using n by simp
      show ?thesis using ci le Suc.prems(4) True unfolding r tk i1' None by blast
    next
      case False
      then have b: "Suc b < m" using Suc.prems(4) by simp
      have le: "Suc b * BLOCK_SIZE tr \<le> (m - 1) * BLOCK_SIZE tr" using b by (intro mult_le_mono1) simp
      then have i1': "i1 = Suc b * BLOCK_SIZE tr" and n: "?n = Suc b * BLOCK_SIZE tr - i" using i1 stop assms(4) by simp_all
      have neq: "W b \<noteq> W (m - 1)" using inj_onD [OF assms(5), of b "m - 1"] Suc.prems(3) b False by fastforce
      have t1: "touched tr W k m t P P1" using ci by blast
      have "next_block (heap P1 (W b)) = Some (W (Suc b))" using touched_next [OF t1] Suc.prems(2,3) b by (simp add: linked_def)
      then have rec: "fill_blocks rounds tr newT (Some (W (m - 1))) (Some (W (Suc b))) i1 (drop ?n items) P1 = (th, i', b', P')"
        using Suc.prems(1) c None neq by (simp add: Let_def)
      have "i1 + length (drop ?n items) = newT" using le assms(4) i1' n Suc.prems(6,8) by simp
      then have ih: "touched tr W k m t P1 P' \<and> (\<exists>c. Suc b \<le> c \<and> c < m \<and> b' = Some (W c) \<and> c * BLOCK_SIZE tr \<le> i' \<and> i' \<le> Suc c * BLOCK_SIZE tr \<and> i1 \<le> i'
           \<and> (th = None \<longrightarrow> c = m - 1 \<and> i' = newT))
        \<and> (\<forall>ctx lo h xs. th = None \<and> lo \<le> k \<and> inj_on W {lo..<m} \<and> content tr ctx W lo m h i1 xs P1 \<longrightarrow>
             content tr ctx W lo m h newT (xs @ map snd (drop ?n items)) P')"
        using Suc.prems(2,3,6,7,9) b i1' assms(2) by (intro Suc.IH [OF rec]) (simp_all add: linked_touched [OF t1])
      have "content tr ctx W lo m h newT (xs @ map snd items) P'"
        if c: "th = None \<and> lo \<le> k \<and> inj_on W {lo..<m} \<and> content tr ctx W lo m h i xs P" for ctx lo h xs
      proof -
        have "content tr ctx W lo m h i1 (xs @ map snd (take ?n items)) P1" using ci None c by blast
        then have "content tr ctx W lo m h newT ((xs @ map snd (take ?n items)) @ map snd (drop ?n items)) P'" using ih c by blast
        moreover have "map snd (take ?n items) @ map snd (drop ?n items) = map snd items" unfolding map_append [symmetric] by simp
        ultimately show ?thesis by (simp only: append_assoc)
      qed
      moreover obtain d where "Suc b \<le> d" "d < m" "b' = Some (W d)" "d * BLOCK_SIZE tr \<le> i'" "i' \<le> Suc d * BLOCK_SIZE tr" "i1 \<le> i'"
        "th = None \<longrightarrow> d = m - 1 \<and> i' = newT" using ih by blast
      moreover from this have "b \<le> d" "i \<le> i'" using i1' Suc.prems(6) by simp_all
      moreover note touched_trans [OF t1 conjunct1 [OF ih]]
      ultimately show ?thesis by (intro conjI allI impI exI [of _ d]) (assumption | blast)+
    qed
  qed
qed simp

lemma destroy_blocks_ok:
  assumes "BLOCK_SIZE tr < 2 ^ 63" and "inj_on W {k..<m}" and "c < m" and "c * BLOCK_SIZE tr \<le> stop" and "stop \<le> Suc c * BLOCK_SIZE tr"
  shows "k \<le> b \<Longrightarrow> b \<le> c \<Longrightarrow> linked W k m P \<Longrightarrow> b * BLOCK_SIZE tr \<le> i \<Longrightarrow> i < Suc b * BLOCK_SIZE tr \<Longrightarrow> t \<le> i \<Longrightarrow> i \<le> stop \<Longrightarrow>
    touched tr W k m t P (destroy_blocks rounds tr stop (Some (W c)) (Some (W b)) i P)"
proof (induction rounds arbitrary: b i P)
  case (Suc rounds)
  have B: "BLOCK_SIZE tr > 0" using Suc.prems(5,4) by (cases "BLOCK_SIZE tr") simp_all
  let ?e = "stop_index tr stop i" and ?P = "upd_block (W b) (fold (destroy_at tr) [i..<stop_index tr stop i]) P"
  have e: "?e = min stop (Suc b * BLOCK_SIZE tr)" by (rule stop_index_ok [OF assms(1) Suc.prems(7,4,5)])
  have t: "touched tr W k m t P ?P"
    using Suc.prems assms(3) e by (intro touched_destroy [OF _ _ assms(2)]) simp_all
  show ?case
  proof (cases "b = c")
    case True
    then show ?thesis using t by (simp add: Let_def del: upd_block_heap)
  next
    case False
    then have b: "Suc b \<le> c" using Suc.prems(2) by simp
    then have "Suc b * BLOCK_SIZE tr \<le> c * BLOCK_SIZE tr" by (intro mult_le_mono1)
    then have e': "?e = Suc b * BLOCK_SIZE tr" using e assms(4) by simp
    have "next_block (heap P (W b)) = Some (W (Suc b))" using Suc.prems(1,3) b assms(3) by (simp add: linked_def)
    then have nx: "next_block (heap ?P (W b)) = Some (W (Suc b))" using touched_next [OF t] by (simp only:)
    have neq: "W b \<noteq> W c" using inj_onD [OF assms(2), of b c] Suc.prems(1) b assms(3) by auto
    have "destroy_blocks (Suc rounds) tr stop (Some (W c)) (Some (W b)) i P
        = destroy_blocks rounds tr stop (Some (W c)) (Some (W (Suc b))) ?e ?P"
      using neq nx by (simp add: Let_def del: upd_block_heap)
    moreover have "touched tr W k m t ?P (destroy_blocks rounds tr stop (Some (W c)) (Some (W (Suc b))) ?e ?P)"
      using Suc.prems(1,5,6) b e' B assms(4) \<open>Suc b * BLOCK_SIZE tr \<le> c * BLOCK_SIZE tr\<close>
      by (intro Suc.IH linked_touched [OF t, THEN iffD2, OF Suc.prems(3)]) simp_all
    ultimately show ?thesis using touched_trans [OF t] by simp
  qed
qed (simp add: touched_refl)

end
