(* ===== verification/CQ_ExplicitBulk.thy ===== *)
theory CQ_ExplicitBulk
  imports CQ_BulkFill
begin

text \<open>
  \<open>enqueue_bulk\<close> of an explicit producer: when it succeeds its elements are at the end of the queue, in order, whatever blocks it took from
  ahead in the ring or from the pool and however often it had to grow the index.  When it fails it may leave the
  producer with blocks it does not count, and a later enqueue then loses elements.
\<close>

section \<open>The index while blocks are entered\<close>

text \<open>What \<open>index_ok\<close> says without the front, which moves only when everything has been constructed.\<close>

definition entries_ok :: "traits \<Rightarrow> (nat \<Rightarrow> nat) \<Rightarrow> nat \<Rightarrow> nat \<Rightarrow> eproducer \<Rightarrow> bool" where
  "entries_ok tr W lo n p \<longleftrightarrow>
     index_ok tr W lo n (p\<lparr>idx_front := slot_of (pr_blockIndexSize p) (pr_blockIndexFront p) n (n - 1)\<rparr>)"

lemma index_entries: "index_ok tr W lo n p \<Longrightarrow> entries_ok tr W lo n p"
  by (simp add: entries_ok_def index_ok_def)

lemma entries_index:
  assumes "entries_ok tr W lo n p" and "n > 0"
  shows "index_ok tr W lo n (p\<lparr>idx_front := (pr_blockIndexFront p + pr_blockIndexSize p - 1) mod pr_blockIndexSize p\<rparr>)"
proof -
  have "n - (n - 1) = 1" using assms(2) by simp
  then have "slot_of (pr_blockIndexSize p) (pr_blockIndexFront p) n (n - 1) = (pr_blockIndexFront p + pr_blockIndexSize p - 1) mod pr_blockIndexSize p"
    unfolding slot_of_def by (simp only:)
  then show ?thesis using assms(1) by (simp add: entries_ok_def)
qed

lemma entries_fields [simp]:
  "entries_ok tr W lo n (p\<lparr>tailBlock := b\<rparr>) = entries_ok tr W lo n p" "entries_ok tr W lo n (p\<lparr>idx_front := f\<rparr>) = entries_ok tr W lo n p"
  "entries_ok tr W lo n (p\<lparr>tailIndex := t\<rparr>) = entries_ok tr W lo n p"
  by (simp_all add: entries_ok_def index_ok_def)

lemma enter_block_fields [simp]:
  "tailIndex (enter_block i p) = tailIndex p" "headIndex (enter_block i p) = headIndex p" "tailBlock (enter_block i p) = tailBlock p"
  "dequeueOptimisticCount (enter_block i p) = dequeueOptimisticCount p" "dequeueOvercommit (enter_block i p) = dequeueOvercommit p"
  "idx_raw (enter_block i p) = idx_raw p" "pr_blockIndexSlotsUsed (enter_block i p) = pr_blockIndexSlotsUsed p"
  "pr_blockIndexSize (enter_block i p) = pr_blockIndexSize p"
  by (simp_all add: enter_block_def)

lemma tidy_enter [simp]: "tidy c stale lo n (enter_block i p) = tidy c stale lo n p"
  by (rule tidy_cong) simp

lemma enter_block_entries:
  assumes "entries_ok tr W lo n p" and "idx_raw p" and "Suc n - lo \<le> pr_blockIndexSlotsUsed p" and "tailBlock p = Some b"
  shows "entries_ok tr (W(n := b)) lo (Suc n) (enter_block (n * BLOCK_SIZE tr) p)"
proof -
  let ?q = "p\<lparr>idx_front := slot_of (pr_blockIndexSize p) (pr_blockIndexFront p) n (n - 1), tailIndex := n * BLOCK_SIZE tr\<rparr>"
  have "index_ok tr W lo n ?q" using assms(1) by (auto simp: entries_ok_def index_ok_def)
  then have "index_ok tr (W(n := b)) lo (Suc n) ((publish_block ?q)\<lparr>tailIndex := tailIndex p\<rparr>)"
    using assms(2-4) by (intro publish_index) simp_all
  then have "entries_ok tr (W(n := b)) lo (Suc n) ((publish_block ?q)\<lparr>tailIndex := tailIndex p\<rparr>)" by (rule index_entries)
  then have "entries_ok tr (W(n := b)) lo (Suc n) ((publish_block ?q)\<lparr>tailIndex := tailIndex p, idx_front := idx_front p\<rparr>)" by simp
  moreover have "(publish_block ?q)\<lparr>tailIndex := tailIndex p, idx_front := idx_front p\<rparr> = enter_block (n * BLOCK_SIZE tr) p"
    by (cases p) (simp add: publish_block_def enter_block_def)
  ultimately show ?thesis by (simp only:)
qed

lemma new_index_entries:
  assumes "entries_ok tr W lo n p" and "new_block_index mo u p P = (ok, q, P')"
  shows "entries_ok tr W lo n q" and "ok \<Longrightarrow> idx_raw q \<and> pr_blockIndexSlotsUsed q < pr_blockIndexSize q"
    and "\<exists>r e s f g. q = p\<lparr>idx_raw := r, idx_entries := e, pr_blockIndexSize := s, idx_front := f, pr_blockIndexFront := g\<rparr>"
    and "P' = P\<lparr>mallocs := mallocs P + 1\<rparr>"
proof -
  let ?p = "p\<lparr>idx_front := slot_of (pr_blockIndexSize p) (pr_blockIndexFront p) n (n - 1)\<rparr>"
  obtain f where f: "new_block_index mo (pr_blockIndexSlotsUsed ?p) ?p P = (ok, q\<lparr>idx_front := f\<rparr>, P')"
  proof (cases "mo (mallocs P)")
    case True
    then have "new_block_index mo (pr_blockIndexSlotsUsed ?p) ?p P = (ok, q\<lparr>idx_front := if pr_blockIndexSlotsUsed p = 0 then size_max else pr_blockIndexSlotsUsed p - 1\<rparr>, P')"
      using assms(2) by (auto simp: new_block_index_def Let_def malloc_def)
    then show ?thesis by (rule that)
  next
    case False
    then have "new_block_index mo (pr_blockIndexSlotsUsed ?p) ?p P = (ok, q\<lparr>idx_front := idx_front ?p\<rparr>, P')"
      using assms(2) by (auto simp: new_block_index_def Let_def malloc_def)
    then show ?thesis by (rule that)
  qed
  have "index_ok tr W lo n ?p" using assms(1) by (simp add: entries_ok_def)
  note nb = new_block_index_ok [OF this f]
  show "entries_ok tr W lo n q" using index_entries [OF nb(1)] by simp
  show "ok \<Longrightarrow> idx_raw q \<and> pr_blockIndexSlotsUsed q < pr_blockIndexSize q" using nb(2) by simp
  obtain r e s f' g where "q\<lparr>idx_front := f\<rparr> = ?p\<lparr>idx_raw := r, idx_entries := e, pr_blockIndexSize := s, idx_front := f', pr_blockIndexFront := g\<rparr>"
    using nb(3) by blast
  then have "q = p\<lparr>idx_raw := r, idx_entries := e, pr_blockIndexSize := s, idx_front := idx_front q, pr_blockIndexFront := g\<rparr>"
    by (cases q; cases p) simp
  then show "\<exists>r e s f g. q = p\<lparr>idx_raw := r, idx_entries := e, pr_blockIndexSize := s, idx_front := f, pr_blockIndexFront := g\<rparr>" by blast
  show "P' = P\<lparr>mallocs := mallocs P + 1\<rparr>" by (rule nb(4))
qed

section \<open>Taking blocks\<close>

text \<open>
  While blocks are taken: the sub-queue holds \<open>xs\<close> in the blocks numbered \<open>lo\<close> to \<open>n\<close>, and blocks \<open>n\<close> to \<open>m\<close> have been
  added to the ring and the index.
\<close>

definition reserving ::
  "traits \<Rightarrow> bool \<Rightarrow> nat list \<Rightarrow> (nat \<Rightarrow> nat) \<Rightarrow> nat \<Rightarrow> nat \<Rightarrow> nat \<Rightarrow> 'a list \<Rightarrow> nat option \<Rightarrow> eproducer \<Rightarrow> 'a pool \<Rightarrow> bool" where
  "reserving tr c stale W lo n m xs first p P \<longleftrightarrow>
     BLOCK_SIZE tr > 0 \<and> pool_ok tr P \<and> n = started tr (tailIndex p) \<and> lo \<le> n \<and> n \<le> m
     \<and> dequeueOptimisticCount p = headIndex p + dequeueOvercommit p
     \<and> entries_ok tr W lo m p \<and> ring_ok tr stale W lo m p P
     \<and> content tr explicit_context W lo n (headIndex p) (tailIndex p) xs P
     \<and> first = (if n < m then Some (W n) else None) \<and> tidy c stale lo m p"

lemma ep_rep_reserving:
  assumes "ep_rep tr stale W lo xs p P" and "tidy c stale lo (started tr (tailIndex p)) p"
  shows "reserving tr c stale W lo (started tr (tailIndex p)) (started tr (tailIndex p)) xs None p P"
proof -
  have "index_ok tr W lo (started tr (tailIndex p)) p" using assms by (simp add: ep_rep_def)
  then show ?thesis using assms index_entries by (simp add: reserving_def ep_rep_def) (simp add: index_ok_def)
qed

lemma entries_simps:
  assumes "entries_ok tr W lo n p"
  shows "lo \<le> n" "n - lo \<le> pr_blockIndexSlotsUsed p" "pr_blockIndexSlotsUsed p \<le> pr_blockIndexSize p" "lo < n \<Longrightarrow> idx_raw p"
  using assms by (auto simp: entries_ok_def index_ok_def split: if_splits)

lemma reserving_ahead:
  assumes "reserving tr c stale W lo n m xs first p P" and "tailBlock p = Some t"
    and "next_block (heap P t) \<noteq> first" and "is_empty tr explicit_context (heap P (next_of P t))"
  defines "b \<equiv> next_of P t"
  shows "stale = [] \<and> b = W lo \<and> lo < n
    \<and> reserving tr c [] (W(m := b)) (Suc lo) n (Suc m) xs (first_allocated first b)
         (enter_block (m * BLOCK_SIZE tr) (p\<lparr>tailBlock := Some b\<rparr>)) P
    \<and> set (blocks_of [] (W(m := b)) (Suc lo) (Suc m)) = set (blocks_of stale W lo m)"
proof -
  let ?bs = "blocks_of stale W lo m"
  have r: "BLOCK_SIZE tr > 0" "entries_ok tr W lo m p" "n \<le> m" "lo \<le> n"
    "ring P ?bs" "set ?bs \<subseteq> in_use P" "tailBlock p = (if ?bs = [] then None else Some (last ?bs))"
    "stale \<noteq> [] \<Longrightarrow> emptied tr explicit_context (heap P (hd stale)) {}"
    "content tr explicit_context W lo n (headIndex p) (tailIndex p) xs P" "first = (if n < m then Some (W n) else None)"
    using assms(1) [unfolded reserving_def ring_ok_def] by blast+
  have ne: "?bs \<noteq> []" and t: "t = last ?bs" using r(7) assms(2) by (auto split: if_splits)
  have nx: "next_block (heap P t) = Some (hd ?bs)" using ring_next_last [OF r(5) ne] t by simp
  then have hd: "b = hd ?bs" by (simp add: b_def next_of_def)
  have st: "stale = []"
  proof (rule ccontr)
    assume s: "stale \<noteq> []"
    then have "b = hd stale" using hd by (simp add: blocks_of_def)
    then have "({} :: nat set) = {..<BLOCK_SIZE tr}" using emptied_is_empty [OF r(8) [OF s]] assms(4) by (simp add: b_def)
    then show False using r(1) by auto
  qed
  have lm: "lo < m" using ne st by (simp add: blocks_of_def)
  then have b: "b = W lo" using hd st by (simp add: blocks_of_def upt_conv_Cons)
  have ln: "lo < n"
  proof (rule ccontr)
    assume "\<not> lo < n"
    then have "first = Some (W lo)" using r(4,10) lm by simp
    then show False using assms(3) nx hd b by simp
  qed
  have "emptied tr explicit_context (heap P (W lo)) {j. j < BLOCK_SIZE tr \<and> lo * BLOCK_SIZE tr + j < headIndex p}"
    using r(9) ln by (simp add: content_def holds_def)
  from emptied_is_empty [OF this] have "{j. j < BLOCK_SIZE tr \<and> lo * BLOCK_SIZE tr + j < headIndex p} = {..<BLOCK_SIZE tr}"
    using assms(4) b by (simp add: b_def)
  moreover have "BLOCK_SIZE tr - 1 \<in> {..<BLOCK_SIZE tr}" using r(1) by simp
  ultimately have "lo * BLOCK_SIZE tr + (BLOCK_SIZE tr - 1) < headIndex p" by blast
  then have head: "Suc lo * BLOCK_SIZE tr \<le> headIndex p" using r(1) by simp
  have bs: "?bs = b # map W [Suc lo..<m]" using st lm b by (simp add: blocks_of_def upt_conv_Cons)
  have bs': "blocks_of [] (W(m := b)) (Suc lo) (Suc m) = map W [Suc lo..<m] @ [b]"
    using lm by (simp add: blocks_of_def)
  have ring: "ring P (map W [Suc lo..<m] @ [b])" using r(5) by (simp only: bs ring_rotate)
  let ?p = "p\<lparr>tailBlock := Some b\<rparr>"
  have "entries_ok tr W (Suc lo) m ?p" using r(2) lm by (auto simp: entries_ok_def index_ok_def)
  then have "entries_ok tr (W(m := b)) (Suc lo) (Suc m) (enter_block (m * BLOCK_SIZE tr) ?p)"
    using entries_simps [OF r(2)] lm by (intro enter_block_entries) simp_all
  moreover have "content tr explicit_context (W(m := b)) (Suc lo) n (headIndex p) (tailIndex p) xs P"
    using r(3,9) head by (simp add: content_def)
  moreover have "ring_ok tr [] (W(m := b)) (Suc lo) (Suc m) (enter_block (m * BLOCK_SIZE tr) ?p) P"
    using ring r(6) bs by (simp add: ring_ok_def bs') 
  moreover have "first_allocated first b = Some ((W(m := b)) n)" using r(3,10) by (auto simp: first_allocated_def)
  moreover have "tidy c [] (Suc lo) (Suc m) p" using assms(1) st by (auto simp: reserving_def tidy_def)
  ultimately show ?thesis using assms(1) st b ln bs bs' r(3) by (simp add: reserving_def)
qed

text \<open>What the loops leave alone.\<close>

definition same_ends :: "eproducer \<Rightarrow> eproducer \<Rightarrow> bool" where
  "same_ends p p' \<longleftrightarrow> tailIndex p' = tailIndex p \<and> headIndex p' = headIndex p"

lemma take_ahead_ok:
  "reserving tr c stale W lo n m xs first p P \<Longrightarrow> take_ahead blocks tr first (m * BLOCK_SIZE tr) p P = (missing, first', i, p') \<Longrightarrow>
   \<exists>stale' W' lo' m'. reserving tr c stale' W' lo' n m' xs first' p' P \<and> i = m' * BLOCK_SIZE tr \<and> m' + missing = m + blocks
     \<and> same_ends p p' \<and> set (blocks_of stale' W' lo' m') = set (blocks_of stale W lo m) \<and> (\<forall>k<m. W' k = W k)"
proof (induction blocks arbitrary: stale W lo m first p)
  case 0
  then show ?case by (auto simp: same_ends_def)
next
  case (Suc blocks)
  show ?case
  proof (cases "\<exists>t. tailBlock p = Some t \<and> next_block (heap P t) \<noteq> first \<and> is_empty tr explicit_context (heap P (next_of P t))")
    case True
    then obtain t where t: "tailBlock p = Some t" "next_block (heap P t) \<noteq> first" "is_empty tr explicit_context (heap P (next_of P t))" by blast
    let ?b = "next_of P t"
    note ra = reserving_ahead [OF Suc.prems(1) t]
    have rec: "take_ahead blocks tr (first_allocated first ?b) (Suc m * BLOCK_SIZE tr)
        (enter_block (m * BLOCK_SIZE tr) (p\<lparr>tailBlock := Some ?b\<rparr>)) P = (missing, first', i, p')"
      using Suc.prems(2) t by (simp add: add.commute)
    obtain stale' W' lo' m' where *: "reserving tr c stale' W' lo' n m' xs first' p' P" "i = m' * BLOCK_SIZE tr" "m' + missing = Suc m + blocks"
      "same_ends (enter_block (m * BLOCK_SIZE tr) (p\<lparr>tailBlock := Some ?b\<rparr>)) p'"
      "set (blocks_of stale' W' lo' m') = set (blocks_of [] (W(m := ?b)) (Suc lo) (Suc m))" "\<forall>k<Suc m. W' k = (W(m := ?b)) k"
      using Suc.IH [OF _ rec] ra by blast
    have "set (blocks_of stale' W' lo' m') = set (blocks_of stale W lo m)" using *(5) ra by (elim conjE) (simp only:)
    then show ?thesis using *(1-4,6) by (intro exI [of _ stale'] exI [of _ W'] exI [of _ lo'] exI [of _ m']) (simp add: same_ends_def)
  next
    case False
    then have "(missing, first', i, p') = (Suc blocks, first, m * BLOCK_SIZE tr, p)"
      using Suc.prems(2) by (auto split: option.splits if_splits)
    then show ?thesis using Suc.prems(1) by (auto simp: same_ends_def)
  qed
qed

section \<open>Blocks from the pool\<close>

lemma set_all_empty_simps [simp]:
  "next_block (set_all_empty tr ctx b) = next_block b" "elements (set_all_empty tr ctx b) = elements b"
  by (simp_all add: set_all_empty_def)

lemma reserving_new:
  assumes "reserving tr c stale W lo n m xs first p P" and "idx_raw p" and "pr_blockIndexSlotsUsed p < pr_blockIndexSize p"
    and "requisition_block mo tr md P = (Some b, P1)"
    and "ring_insert b p (upd_block b (set_all_empty tr explicit_context) P1) = (p', P')"
  shows "reserving tr c stale (W(m := b)) lo n (Suc m) xs (first_allocated first b)
      (enter_block (m * BLOCK_SIZE tr) (p'\<lparr>pr_blockIndexSlotsUsed := pr_blockIndexSlotsUsed p' + 1\<rparr>)) P'"
    and "frame_step (set (blocks_of stale W lo m)) P (set (blocks_of stale (W(m := b)) lo (Suc m))) P'"
    and "p' = p\<lparr>tailBlock := Some b\<rparr>"
proof -
  let ?bs = "blocks_of stale W lo m" and ?P2 = "upd_block b (set_all_empty tr explicit_context) P1"
  have r: "BLOCK_SIZE tr > 0" "pool_ok tr P" "entries_ok tr W lo m p" "n \<le> m" "lo \<le> n"
    "ring P ?bs" "set ?bs \<subseteq> in_use P" "tailBlock p = (if ?bs = [] then None else Some (last ?bs))"
    "stale \<noteq> [] \<Longrightarrow> emptied tr explicit_context (heap P (hd stale)) {}"
    "content tr explicit_context W lo n (headIndex p) (tailIndex p) xs P" "first = (if n < m then Some (W n) else None)"
    using assms(1) [unfolded reserving_def ring_ok_def] by blast+
  note rq = requisition_ok [OF r(2) assms(4)]
  have b: "b \<notin> in_use P" "in_use P1 = insert b (in_use P)" using rq(4) by simp_all
  have bn: "b \<notin> set ?bs" using r(7) b(1) by auto
  have ok2: "pool_ok tr ?P2" "in_use ?P2 = in_use P1"
    using upd_block_ok [OF rq(1), of "set_all_empty tr explicit_context" b] pool_block_length [OF rq(1)] by simp_all
  have same: "same_blocks (set ?bs) P ?P2" using rq(2) r(7) bn by (auto simp: same_blocks_def)
  have ring2: "ring ?P2 ?bs" by (rule ring_frame [OF r(6) _ same]) simp
  have ri: "ring P' (?bs @ [b])" "p' = p\<lparr>tailBlock := Some b\<rparr>"
      "\<And>c. heap P' c = (heap ?P2 c)\<lparr>next_block := next_block (heap P' c)\<rparr>" "in_use P' = in_use ?P2" "pool_ok tr P'"
      "\<And>c. c \<notin> set (?bs @ [b]) \<Longrightarrow> heap P' c = heap ?P2 c"
    using ring_insert_ring [OF ring2 bn r(8) assms(5), of tr] ok2(1) by auto
  show p': "p' = p\<lparr>tailBlock := Some b\<rparr>" by (rule ri(2))
  let ?q = "p'\<lparr>pr_blockIndexSlotsUsed := pr_blockIndexSlotsUsed p' + 1\<rparr>"
  have lm: "lo \<le> m" using r(4,5) by simp
  have bs': "blocks_of stale (W(m := b)) lo (Suc m) = ?bs @ [b]" by (rule blocks_of_snoc [OF lm])
  have hold: "holds tr explicit_context h t xs k (heap P' c) = holds tr explicit_context h t xs k (heap ?P2 c)" for h t k c
    by (subst ri(3)) (rule holds_next)
  have em: "emptied tr explicit_context (heap P' c) js = emptied tr explicit_context (heap ?P2 c) js" for c js
    by (subst ri(3)) (rule emptied_next)
  have P2: "heap ?P2 (W k) = heap P (W k)" if "lo \<le> k" "k < m" for k
    using same blocks_of_mem [OF that, of W stale] by (auto simp: same_blocks_def)
  have "content tr explicit_context (W(m := b)) lo n (headIndex p) (tailIndex p) xs P'"
    using r(4,10) hold P2 by (simp add: content_def)
  moreover have "entries_ok tr W lo m ?q"
    using r(3) assms(2,3) by (auto simp: entries_ok_def index_ok_def p')
  then have "entries_ok tr (W(m := b)) lo (Suc m) (enter_block (m * BLOCK_SIZE tr) ?q)"
    using assms(2) entries_simps [OF r(3)] lm by (intro enter_block_entries) (simp_all add: p' Suc_diff_le)
  moreover have "emptied tr explicit_context (heap P' (hd stale)) {}" if "stale \<noteq> []"
    using r(9) [OF that] same that by (cases stale) (auto simp: em same_blocks_def blocks_of_def)
  then have "ring_ok tr stale (W(m := b)) lo (Suc m) (enter_block (m * BLOCK_SIZE tr) ?q) P'"
    using ri(1) r(7) b(2) ok2(2) ri(4) by (auto simp: ring_ok_def bs' p')
  moreover have "first_allocated first b = Some ((W(m := b)) n)" using r(4,11) by (auto simp: first_allocated_def)
  ultimately show "reserving tr c stale (W(m := b)) lo n (Suc m) xs (first_allocated first b) (enter_block (m * BLOCK_SIZE tr) ?q) P'"
    using assms(1) ri(5) r(4) tidy_Suc [of c stale lo m "p\<lparr>tailBlock := Some b\<rparr>"] by (simp add: reserving_def p')
  have "heap P' c = heap P c" if "c \<in> in_use P - set ?bs" for c
    using that b(1) rq(2) ri(6) [of c] by (auto simp: same_blocks_def)
  then show "frame_step (set ?bs) P (set (blocks_of stale (W(m := b)) lo (Suc m))) P'"
    unfolding bs' using b bn r(7) ri(4) ok2(2) by (auto simp: frame_step_def same_blocks_def)
qed

lemma reserving_grown:
  assumes "reserving tr c stale W lo n m xs first p P" and "new_block_index mo u p P = (True, p', P')"
  shows "reserving tr c stale W lo n m xs first p' P'" and "frame_step (set (blocks_of stale W lo m)) P (set (blocks_of stale W lo m)) P'"
    and "same_ends p p'" and "idx_raw p'" and "pr_blockIndexSlotsUsed p' < pr_blockIndexSize p'"
proof -
  have e: "entries_ok tr W lo m p" and use: "set (blocks_of stale W lo m) \<subseteq> in_use P" and ok: "pool_ok tr P"
    using assms(1) by (simp_all add: reserving_def ring_ok_def)
  note ni = new_index_entries [OF e assms(2)]
  obtain r e s f g where p': "p' = p\<lparr>idx_raw := r, idx_entries := e, pr_blockIndexSize := s, idx_front := f, pr_blockIndexFront := g\<rparr>"
    using ni(3) by blast
  have P': "heap P' = heap P" "in_use P' = in_use P" "pool_ok tr P'" by (simp_all add: ni(4) mallocs_frame ok)
  have "ring P' = ring P" by (rule ext) (simp add: ring_def P'(1))
  then show "reserving tr c stale W lo n m xs first p' P'"
    using assms(1) ni(1) P' by (simp add: reserving_def ring_ok_def content_def p' tidy_def)
  show "frame_step (set (blocks_of stale W lo m)) P (set (blocks_of stale W lo m)) P'"
    using use P' by (intro frame_step_own) (simp_all add: same_blocks_def)
  show "same_ends p p'" by (simp add: same_ends_def p')
  show "idx_raw p'" "pr_blockIndexSlotsUsed p' < pr_blockIndexSize p'" using ni(2) by simp_all
qed

lemma take_from_pool_ok:
  "reserving tr c stale W lo n m xs first p P \<Longrightarrow>
   take_from_pool blocks mo tr md u f first (m * BLOCK_SIZE tr) p P = (True, f', first', p', P') \<Longrightarrow>
   \<exists>W'. reserving tr c stale W' lo n (m + blocks) xs first' p' P' \<and> same_ends p p'
     \<and> frame_step (set (blocks_of stale W lo m)) P (set (blocks_of stale W' lo (m + blocks))) P' \<and> (\<forall>k<m. W' k = W k)"
proof (induction blocks arbitrary: W m f first p P)
  case 0
  have "set (blocks_of stale W lo m) \<subseteq> in_use P" using "0.prems"(1) by (simp add: reserving_def ring_ok_def)
  then show ?case using "0.prems" frame_step_refl by (auto simp: same_ends_def)
next
  case (Suc blocks)
  let ?i = "m * BLOCK_SIZE tr"
  define full where "full = no_room tr (headIndex p) ?i"
  define grow where "grow = (\<not> idx_raw p \<or> pr_blockIndexSlotsUsed p = pr_blockIndexSize p \<or> full)"
  obtain ok p1 P1 where g: "(if grow then new_block_index mo u p P else (True, p, P)) = (ok, p1, P1)" by (metis prod_cases3)
  obtain r P2 where rq: "requisition_block mo tr md P1 = (r, P2)" by (metis prod.exhaust)
  have step: "(if grow \<and> (md = CannotAlloc \<or> full) then (False, f, first, p, P)
      else if \<not> ok then (False, f, first, p1, P1)
      else case requisition_block mo tr md P1 of
          (None, P) \<Rightarrow> (False, if grow then u else f, first, p1, P)
        | (Some newBlock, P) \<Rightarrow>
            (case ring_insert newBlock p1 (upd_block newBlock (set_all_empty tr explicit_context) P) of (p, P) \<Rightarrow>
               take_from_pool blocks mo tr md u (if grow then u else f) (first_allocated first newBlock) (?i + BLOCK_SIZE tr)
                 (enter_block ?i (p\<lparr>pr_blockIndexSlotsUsed := pr_blockIndexSlotsUsed p + 1\<rparr>)) P)) = (True, f', first', p', P')"
    using Suc.prems(2) unfolding take_from_pool.simps Let_def full_def [symmetric] grow_def [symmetric] g prod.case by (simp only:)
  have nofail: "\<not> (grow \<and> (md = CannotAlloc \<or> full))" using step by (cases "grow \<and> (md = CannotAlloc \<or> full)") simp_all
  note step = step [unfolded if_not_P [OF nofail] rq prod.case]
  have go: "ok" "r \<noteq> None" using step by (cases ok; cases r; simp)+
  then obtain b where b: "r = Some b" by blast
  obtain p2 P3 where ri: "ring_insert b p1 (upd_block b (set_all_empty tr explicit_context) P2) = (p2, P3)" by (metis prod.exhaust)
  have rec: "take_from_pool blocks mo tr md u (if grow then u else f) (first_allocated first b) (Suc m * BLOCK_SIZE tr)
      (enter_block ?i (p2\<lparr>pr_blockIndexSlotsUsed := pr_blockIndexSlotsUsed p2 + 1\<rparr>)) P3 = (True, f', first', p', P')"
    using step go(1) unfolding b by (simp add: ri add.commute)
  have 1: "reserving tr c stale W lo n m xs first p1 P1 \<and> frame_step (set (blocks_of stale W lo m)) P (set (blocks_of stale W lo m)) P1
      \<and> same_ends p p1 \<and> idx_raw p1 \<and> pr_blockIndexSlotsUsed p1 < pr_blockIndexSize p1"
  proof (cases grow)
    case True
    then show ?thesis using reserving_grown [OF Suc.prems(1)] g go(1) by simp
  next
    case False
    have "entries_ok tr W lo m p" "set (blocks_of stale W lo m) \<subseteq> in_use P" using Suc.prems(1) by (simp_all add: reserving_def ring_ok_def)
    then show ?thesis using False Suc.prems(1) g entries_simps(3) [of tr W lo m p] frame_step_refl by (auto simp: grow_def same_ends_def)
  qed
  have rq': "requisition_block mo tr md P1 = (Some b, P2)" using rq b by simp
  note rn = reserving_new [OF conjunct1 [OF 1] _ _ rq' ri]
  obtain W' where W': "reserving tr c stale W' lo n (Suc m + blocks) xs first' p' P'"
    "same_ends (enter_block ?i (p2\<lparr>pr_blockIndexSlotsUsed := pr_blockIndexSlotsUsed p2 + 1\<rparr>)) p'"
    "frame_step (set (blocks_of stale (W(m := b)) lo (Suc m))) P3 (set (blocks_of stale W' lo (Suc m + blocks))) P'"
    "\<forall>k<Suc m. W' k = (W(m := b)) k"
    using Suc.IH [OF rn(1) rec] 1 by blast
  have "frame_step (set (blocks_of stale W lo m)) P (set (blocks_of stale W' lo (Suc m + blocks))) P'"
    using 1 frame_step_trans [OF _ frame_step_trans [OF rn(2) W'(3)]] by blast
  then show ?case using W'(1,2,4) 1 rn(3) by (intro exI [of _ W']) (simp add: same_ends_def)
qed

section \<open>Filling blocks\<close>

lemma ring_chain:
  assumes "ring P (blocks_of stale W lo m)" and "lo \<le> k" and "Suc k < m"
  shows "next_block (heap P (W k)) = Some (W (Suc k))"
proof -
  let ?bs = "blocks_of stale W lo m" and ?i = "length stale + (k - lo)"
  have i: "Suc ?i < length ?bs" using assms(2,3) by (simp add: blocks_of_def)
  then have "next_block (heap P (?bs ! ?i)) = Some (?bs ! Suc ?i)" using assms(1) by (simp add: ring_def)
  moreover have "?bs ! (length stale + j) = W (lo + j)" if "lo + j < m" for j
    using that by (simp add: blocks_of_def nth_append)
  from this [of "k - lo"] this [of "Suc (k - lo)"] have "?bs ! ?i = W k" "?bs ! Suc ?i = W (Suc k)" using assms(2,3) by simp_all
  ultimately show ?thesis by simp
qed

lemma reset_chain_eq:
  assumes "ring P (blocks_of stale W lo m)" and "lo \<le> k" and "k < m" and "m - k \<le> blocks"
  shows "reset_chain blocks tr (W k) (Some (W (m - 1))) P
    = P\<lparr>heap := \<lambda>c. if c \<in> W ` {k..<m} then reset_empty tr explicit_context (heap P c) else heap P c\<rparr>"
  using assms
proof (induction blocks arbitrary: k P)
  case (Suc blocks)
  let ?P = "upd_block (W k) (reset_empty tr explicit_context) P"
  have inj: "inj_on W {lo..<m}" by (rule ring_inj [OF Suc.prems(1)])
  show ?case
  proof (cases "Suc k = m")
    case True
    then have "{k..<m} = {k}" by auto
    then show ?thesis using True by (auto simp: upd_block_def fun_eq_iff)
  next
    case False
    then have k: "Suc k < m" using Suc.prems(3) by simp
    then have ne: "W k \<noteq> W (m - 1)" using inj Suc.prems(2) by (auto dest!: inj_onD)
    have ring: "ring ?P (blocks_of stale W lo m)" by (rule ring_cong [OF Suc.prems(1)]) simp
    have "next_of ?P (W k) = W (Suc k)" using ring_chain [OF ring Suc.prems(2) k] by (simp add: next_of_def)
    moreover have "reset_chain blocks tr (W (Suc k)) (Some (W (m - 1))) ?P
      = ?P\<lparr>heap := \<lambda>c. if c \<in> W ` {Suc k..<m} then reset_empty tr explicit_context (heap ?P c) else heap ?P c\<rparr>"
      using Suc.prems k by (intro Suc.IH [OF ring]) simp_all
    moreover have "W k \<notin> W ` {Suc k..<m}" using inj Suc.prems(2,3) by (auto dest!: inj_onD)
    moreover have "{k..<m} = insert k {Suc k..<m}" using Suc.prems(3) by auto
    ultimately show ?thesis using ne by (auto simp: upd_block_def fun_eq_iff)
  qed
qed simp

text \<open>When all blocks are taken and reset they count as blocks of the sub-queue.\<close>

lemma reserved_pcore:
  assumes "reserving tr c stale W lo n m xs (Some f) p P" and "m - n \<le> blocks"
  defines "P' \<equiv> reset_chain blocks tr f (tailBlock p) P"
  shows "pcore tr stale W lo m (headIndex p) (tailIndex p) xs p P'"
    and "frame_step (set (blocks_of stale W lo m)) P (set (blocks_of stale W lo m)) P'"
proof -
  have r: "BLOCK_SIZE tr > 0" "pool_ok tr P" "n = started tr (tailIndex p)" "lo \<le> n" "n < m" "f = W n" 
    "ring_ok tr stale W lo m p P" "content tr explicit_context W lo n (headIndex p) (tailIndex p) xs P"
    using assms(1) by (auto simp: reserving_def split: if_splits)
  have rg: "ring P (blocks_of stale W lo m)" "set (blocks_of stale W lo m) \<subseteq> in_use P"
    "tailBlock p = (if blocks_of stale W lo m = [] then None else Some (last (blocks_of stale W lo m)))"
    using r(7) by (simp_all add: ring_ok_def)
  have bs: "blocks_of stale W lo m = stale @ map W [lo..<m - 1] @ [W (m - 1)]"
    using r(4,5) upt_Suc_append [of lo "m - 1"] by (simp add: blocks_of_def)
  then have tb: "tailBlock p = Some (W (m - 1))" using rg(3) by simp
  have P': "P' = P\<lparr>heap := \<lambda>c. if c \<in> W ` {n..<m} then reset_empty tr explicit_context (heap P c) else heap P c\<rparr>"
    unfolding P'_def tb r(6) using r(4,5) assms(2) by (intro reset_chain_eq [OF rg(1)]) simp_all
  have ok: "pool_ok tr P'" "in_use P' = in_use P" using r(2) by (auto simp: P' pool_ok_def in_use_def available_def)
  have dist: "distinct (stale @ map W [lo..<m])" using rg(1) by (simp add: ring_def blocks_of_def)
  then have inj: "inj_on W {lo..<m}" by (simp add: distinct_map)
  have "holds tr explicit_context (headIndex p) (tailIndex p) xs k (heap P' (W k))" if k: "lo \<le> k" "k < m" for k
  proof (cases "k < n")
    case True
    then have "W k \<notin> W ` {n..<m}" using inj k r(4) by (auto dest!: inj_onD)
    then show ?thesis using r(8) k True by (simp add: P' content_def)
  next
    case False
    then have kn: "n \<le> k" by simp
    have "tailIndex p \<le> n * BLOCK_SIZE tr"
    proof -
      have "\<not> started tr (tailIndex p) * BLOCK_SIZE tr < tailIndex p"
        using below_started [OF r(1), of "started tr (tailIndex p) * BLOCK_SIZE tr" "tailIndex p"] r(1) by auto
      then show ?thesis using r(3) by simp
    qed
    also have "\<dots> \<le> k * BLOCK_SIZE tr" using kn by simp
    finally have "tailIndex p \<le> k * BLOCK_SIZE tr" .
    moreover have "headIndex p \<le> tailIndex p" using r(8) by (simp add: content_def)
    ultimately show ?thesis using k kn pool_block_length [OF r(2)] by (auto simp: holds_def P' emptied_reset)
  qed
  then have cont: "content tr explicit_context W lo m (headIndex p) (tailIndex p) xs P'" using r(8) by (simp add: content_def)
  have ring': "ring P' (blocks_of stale W lo m)" by (rule ring_cong [OF rg(1)]) (simp add: P')
  have "emptied tr explicit_context (heap P' (hd stale)) {}" if "stale \<noteq> []"
  proof -
    have "hd stale \<notin> W ` {n..<m}" using that dist r(4) by (cases stale) auto
    then show ?thesis using r(7) that by (simp add: P' ring_ok_def)
  qed
  then show "pcore tr stale W lo m (headIndex p) (tailIndex p) xs p P'"
    using r(1,7) ok cont ring' by (simp add: pcore_def ring_ok_def)
  have "heap P' c = heap P c" if "c \<in> in_use P - set (blocks_of stale W lo m)" for c
    using that r(4) blocks_of_mem [of lo _ m W stale] by (auto simp: P')
  then show "frame_step (set (blocks_of stale W lo m)) P (set (blocks_of stale W lo m)) P'"
    using rg(2) ok by (intro frame_step_own) (auto simp: same_blocks_def)
qed

section \<open>Filling the blocks\<close>

text \<open>A new block is beyond the one the tail is in.\<close>

lemma reserved_below:
  assumes "reserving tr c stale W lo n m xs first p P" and "n < m"
  shows "tailIndex p div BLOCK_SIZE tr < m"
proof -
  have r: "BLOCK_SIZE tr > 0" "n = started tr (tailIndex p)" using assms(1) unfolding reserving_def by blast+
  show ?thesis using tail_block_number [OF r(1), of "tailIndex p"] r(2) assms(2) by (cases "block_offset tr (tailIndex p) = 0") simp_all
qed

lemma fill_pcore:
  assumes "pcore tr stale W lo m h t xs p P" and "BLOCK_SIZE tr < 2 ^ 63" and "newT \<le> m * BLOCK_SIZE tr" and "(m - 1) * BLOCK_SIZE tr < newT"
    and "lo \<le> k" and "k < m" and "t div BLOCK_SIZE tr = k" and "t + length items = newT" and "m - k \<le> rounds"
    and "fill_blocks rounds tr newT (Some (W (m - 1))) (Some (W k)) t items P = (None, t', b, P')"
  shows "b = Some (W (m - 1)) \<and> pcore tr stale W lo m h newT (xs @ map snd items) p P'
    \<and> frame_step (set (blocks_of stale W lo m)) P (set (blocks_of stale W lo m)) P'"
proof -
  let ?bs = "blocks_of stale W lo m"
  have e: "BLOCK_SIZE tr > 0" "pool_ok tr P" "ring P ?bs" "set ?bs \<subseteq> in_use P"
    "content tr explicit_context W lo m h t xs P" using assms(1) by (simp_all add: pcore_def ring_ok_def)
  have inj: "inj_on W {lo..<m}" by (rule ring_inj [OF e(3)])
  then have injk: "inj_on W {k..<m}" by (rule inj_on_subset) (use assms(5) in auto)
  have link: "linked W k m P" using ring_chain [OF e(3)] assms(5) by (simp add: linked_def)
  have kt: "k * BLOCK_SIZE tr \<le> t" "t < Suc k * BLOCK_SIZE tr"
    using assms(7) e(1) by (auto simp: div_times_less_eq_dividend dividend_less_div_times mult.commute) (metis dividend_less_div_times mult.commute)
  note fo = fill_blocks_ok [OF assms(2) e(1) assms(3,4) injk assms(10) link order_refl assms(6) kt order_refl assms(8,9)]
  have t: "touched tr W k m t P P'" and b: "b = Some (W (m - 1))" using fo by auto
  have cont: "content tr explicit_context W lo m h newT (xs @ map snd items) P'" using fo assms(5) inj e(5) by blast
  have ring: "ring P' ?bs" by (rule ring_cong [OF e(3)]) (simp add: touched_next [OF t])
  have "pcore tr stale W lo m h newT (xs @ map snd items) p P'"
    using assms(1) cont ring by (simp add: pcore_def ring_ok_def touched_pool(1,2) [OF t] touched_emptied [OF t])
  moreover have "heap P' c = heap P c" if "c \<in> in_use P - set ?bs" for c
    using that assms(5) blocks_of_mem [of lo _ m W stale] by (intro touched_pool(3) [OF t]) auto
  then have "frame_step (set ?bs) P (set ?bs) P'" using e(4) touched_pool(2) [OF t] by (intro frame_step_own) (auto simp: same_blocks_def)
  ultimately show ?thesis using b by blast
qed

text \<open>All blocks taken and filled.\<close>

lemma filled_rep:
  assumes "pcore tr stale W lo m h t xs p P" and "BLOCK_SIZE tr > 0" and "index_ok tr W lo m p" and "started tr t = m"
    and "dequeueOptimisticCount p = h + dequeueOvercommit p" and "headIndex p = h" and "tidy c stale lo m p"
  shows "ep_queue tr c (set (blocks_of stale W lo m)) xs (p\<lparr>tailIndex := t\<rparr>) P"
proof -
  have "index_ok tr W lo m (p\<lparr>tailIndex := t\<rparr>)" using assms(3) by (simp add: index_ok_def)
  then have "ep_rep tr stale W lo xs (p\<lparr>tailIndex := t\<rparr>) P" using assms by (simp add: ep_rep_def pcore_def ring_ok_def)
  then show ?thesis by (rule ep_queueI) (simp_all add: assms(4,7))
qed

text \<open>What the two loops that take blocks lead to.\<close>

lemma bulk_reserved:
  assumes "ep_rep tr stale0 W0 lo0 xs p P" and "m = started tr (tailIndex p + length items)"
    and "tidy c stale0 lo0 (started tr (tailIndex p)) p"
    and "take_ahead (new_blocks tr (tailIndex p) (length items)) tr None (first_new_base tr (tailIndex p)) p P = (missing, first0, i, p1)"
    and "take_from_pool missing mo tr md (pr_blockIndexSlotsUsed p) (pr_blockIndexFront p) first0 i p1 P = (True, f', first, p2, P2)"
  obtains stale W lo where "reserving tr c stale W lo (started tr (tailIndex p)) m xs first p2 P2"
    "tailIndex p2 = tailIndex p" "headIndex p2 = headIndex p" "\<And>k. k < started tr (tailIndex p) \<Longrightarrow> W k = W0 k"
    "frame_step (set (blocks_of stale0 W0 lo0 (started tr (tailIndex p)))) P (set (blocks_of stale W lo m)) P2"
proof -
  let ?n = "started tr (tailIndex p)"
  have B: "BLOCK_SIZE tr > 0" using assms(1) by (simp add: ep_rep_def)
  note nb = new_blocks_started(1) [OF B, of "tailIndex p" "length items"] new_blocks_started(2) [OF B, of "tailIndex p"]
  have nm: "?n \<le> m" unfolding assms(2) by (rule started_mono) simp
  obtain stale W lo m1 where 1: "reserving tr c stale W lo ?n m1 xs first0 p1 P" "i = m1 * BLOCK_SIZE tr" "m1 + missing = ?n + (m - ?n)"
    "same_ends p p1" "set (blocks_of stale W lo m1) = set (blocks_of stale0 W0 lo0 ?n)" "\<forall>k<?n. W k = W0 k"
    using take_ahead_ok [OF ep_rep_reserving [OF assms(1,3)] assms(4) [unfolded nb]] assms(2) by auto
  obtain W2 where 2: "reserving tr c stale W2 lo ?n (m1 + missing) xs first p2 P2" "same_ends p1 p2"
    "frame_step (set (blocks_of stale W lo m1)) P (set (blocks_of stale W2 lo (m1 + missing))) P2" "\<forall>k<m1. W2 k = W k"
    using take_from_pool_ok [OF 1(1) assms(5) [unfolded 1(2)]] by blast
  have m: "m1 + missing = m" using 1(3) nm by simp
  have "?n \<le> m1" using 1(1) by (simp add: reserving_def)
  then have "W2 k = W0 k" if "k < ?n" for k using 1(6) 2(4) that by simp
  with 1(4) 2 show thesis unfolding m 1(5) by (intro that) (simp_all add: same_ends_def)
qed

text \<open>The block the construction begins with.\<close>

lemma first_filled:
  assumes "ep_rep tr stale0 W0 lo0 xs p P" and "reserving tr c stale W lo (started tr (tailIndex p)) m xs first p2 P2"
    and "tailIndex p2 = tailIndex p" and "\<And>k. k < started tr (tailIndex p) \<Longrightarrow> W k = W0 k" and "tailIndex p div BLOCK_SIZE tr < m"
  shows "(if block_offset tr (tailIndex p) = 0 \<and> first \<noteq> None then first else tailBlock p) = Some (W (tailIndex p div BLOCK_SIZE tr))"
    and "lo \<le> tailIndex p div BLOCK_SIZE tr"
proof -
  let ?n = "started tr (tailIndex p)" and ?k = "tailIndex p div BLOCK_SIZE tr"
  have B: "BLOCK_SIZE tr > 0" using assms(1) by (simp add: ep_rep_def)
  have r: "content tr explicit_context W lo ?n (headIndex p2) (tailIndex p2) xs P2" "first = (if ?n < m then Some (W ?n) else None)"
    using assms(2) unfolding reserving_def by blast+
  have le: "\<And>ctx W lo n h xs P. content tr ctx W lo n h (tailIndex p) xs P \<Longrightarrow> lo \<le> ?k"
    using B by (auto simp: content_def less_eq_div_iff_mult_less_eq)
  show "lo \<le> ?k" using r(1) le assms(3) by simp
  show "(if block_offset tr (tailIndex p) = 0 \<and> first \<noteq> None then first else tailBlock p) = Some (W ?k)"
  proof (cases "block_offset tr (tailIndex p) = 0")
    case True
    then have "?n * BLOCK_SIZE tr = tailIndex p" using started_boundary [OF B] by (simp add: block_offset_def)
    then have "?k = ?n" using B by (metis nonzero_mult_div_cancel_right not_gr_zero)
    then show ?thesis using True r(2) assms(5) by simp
  next
    case False
    then have n: "?n = Suc ?k" using started_inside(1) [OF B] by (simp add: block_offset_def)
    have "content tr explicit_context W0 lo0 ?n (headIndex p) (tailIndex p) xs P" "ring_ok tr stale0 W0 lo0 ?n p P"
      using assms(1) by (simp_all add: ep_rep_def)
    moreover from this(1) have "lo0 \<le> ?k" by (rule le)
    ultimately have "tailBlock p = Some (W0 ?k)" using n last_block [of lo0 ?k stale0 W0] by (simp add: ring_ok_def)
    then show ?thesis using assms(4) False n by simp
  qed
qed

text \<open>The elements go to new blocks, or all fit in the tail block.\<close>

lemma bulk_fills_new:
  assumes "reserving tr c stale W lo n m xs first p P" and "BLOCK_SIZE tr < 2 ^ 63" and "n < m" and "m = started tr T" and "T = tailIndex p + length items"
    and "lo \<le> k" and "k = tailIndex p div BLOCK_SIZE tr" and "m - n \<le> blocks" and "n \<le> Suc k"
    and "fill_blocks (Suc blocks) tr T (tailBlock p) (Some (W k)) (tailIndex p) items (reset_chain blocks tr (W n) (tailBlock p) P) = (None, t', b, P')"
  shows "frame_step (set (blocks_of stale W lo m)) P (set (blocks_of stale W lo m)) P'"
    and "ep_queue tr c (set (blocks_of stale W lo m)) (xs @ map snd items)
      (p\<lparr>tailBlock := b, tailIndex := T, idx_front := (pr_blockIndexFront p + pr_blockIndexSize p - 1) mod pr_blockIndexSize p\<rparr>) P'"
proof -
  have B: "BLOCK_SIZE tr > 0" and r: "lo \<le> n" "entries_ok tr W lo m p" "ring_ok tr stale W lo m p P" "first = Some (W n)"
    "dequeueOptimisticCount p = headIndex p + dequeueOvercommit p" and tidy: "tidy c stale lo m p"
    using assms(1,3) unfolding reserving_def by simp_all
  have tb: "tailBlock p = Some (W (m - 1))"
    using r(1,3) assms(3) last_block [of lo "m - 1" stale W] by (simp add: ring_ok_def)
  have "T > 0" using assms(3,4) B by (cases T) (auto simp: started_def)
  then have T: "(m - 1) * BLOCK_SIZE tr < T \<and> T \<le> m * BLOCK_SIZE tr" unfolding assms(4) by (rule below_last_started [OF B])
  note rp = reserved_pcore [OF assms(1) [unfolded r(4)] assms(8)]
  have "k < m" "m - k \<le> Suc blocks" using assms(3,8,9) reserved_below [OF assms(1,3)] assms(7) by simp_all
  note fo = fill_pcore [OF rp(1) [unfolded tb] assms(2) conjunct2 [OF T] conjunct1 [OF T] assms(6) this(1) assms(7) [symmetric] assms(5) [symmetric] this(2)
      assms(10) [unfolded tb]]
  let ?q = "p\<lparr>idx_front := (pr_blockIndexFront p + pr_blockIndexSize p - 1) mod pr_blockIndexSize p\<rparr>"
  have ix: "index_ok tr W lo m ?q" using assms(3) by (intro entries_index [OF r(2)]) simp
  have pc: "pcore tr stale W lo m (headIndex p) T (xs @ map snd items) ?q P'" using fo tb by (simp add: pcore_def ring_ok_def)
  have "ep_queue tr c (set (blocks_of stale W lo m)) (xs @ map snd items) (?q\<lparr>tailIndex := T\<rparr>) P'"
    by (rule filled_rep [OF pc B ix assms(4) [symmetric]]) (simp_all add: r(5) tidy)
  moreover have "?q\<lparr>tailIndex := T\<rparr> = p\<lparr>tailBlock := b, tailIndex := T, idx_front := (pr_blockIndexFront p + pr_blockIndexSize p - 1) mod pr_blockIndexSize p\<rparr>"
    using fo tb by (cases p) simp
  ultimately show "ep_queue tr c (set (blocks_of stale W lo m)) (xs @ map snd items)
      (p\<lparr>tailBlock := b, tailIndex := T, idx_front := (pr_blockIndexFront p + pr_blockIndexSize p - 1) mod pr_blockIndexSize p\<rparr>) P'" by simp
  show "frame_step (set (blocks_of stale W lo m)) P (set (blocks_of stale W lo m)) P'"
    using frame_step_trans [OF rp(2)] fo tb by simp
qed

lemma bulk_fits:
  assumes "ep_rep tr stale W lo xs p P" and "BLOCK_SIZE tr < 2 ^ 63" and "started tr (tailIndex p) = started tr T" and "T = tailIndex p + length items"
    and "tailIndex p div BLOCK_SIZE tr < started tr T"
    and "fill_blocks (Suc 0) tr T (tailBlock p) (tailBlock p) (tailIndex p) items P = (None, t', b, P')"
    and "tidy c stale lo (started tr (tailIndex p)) p"
  shows "frame_step (set (blocks_of stale W lo (started tr T))) P (set (blocks_of stale W lo (started tr T))) P'"
    and "ep_queue tr c (set (blocks_of stale W lo (started tr T))) (xs @ map snd items) (p\<lparr>tailBlock := b, tailIndex := T\<rparr>) P'"
proof -
  let ?n = "started tr T" and ?k = "tailIndex p div BLOCK_SIZE tr"
  have r: "BLOCK_SIZE tr > 0" "content tr explicit_context W lo ?n (headIndex p) (tailIndex p) xs P" "ring_ok tr stale W lo ?n p P" "pool_ok tr P"
    "index_ok tr W lo ?n p" "dequeueOptimisticCount p = headIndex p + dequeueOvercommit p"
    using assms(1,3) by (simp_all add: ep_rep_def)
  have n: "?n = Suc ?k" using assms(3,5) started_inside(1) [OF r(1)] tail_block_number(1) [OF r(1)] by (metis block_offset_def less_irrefl)
  have lo: "lo \<le> ?k" using r(1,2) by (auto simp: content_def less_eq_div_iff_mult_less_eq)
  have tb: "tailBlock p = Some (W (?n - 1))" using r(3) n lo last_block [of lo ?k stale W] by (simp add: ring_ok_def)
  have pc: "pcore tr stale W lo ?n (headIndex p) (tailIndex p) xs p P" using r by (simp add: pcore_def)
  have "T > 0" using n r(1) by (cases T) (auto simp: started_def)
  then have T: "(?n - 1) * BLOCK_SIZE tr < T \<and> T \<le> ?n * BLOCK_SIZE tr" by (rule below_last_started [OF r(1)])
  have "fill_blocks (Suc 0) tr T (Some (W (?n - 1))) (Some (W ?k)) (tailIndex p) items P = (None, t', b, P')" using assms(6) tb n by simp
  note fo = fill_pcore [OF pc assms(2) conjunct2 [OF T] conjunct1 [OF T] lo assms(5) refl assms(4) [symmetric] _ this]
  show "frame_step (set (blocks_of stale W lo ?n)) P (set (blocks_of stale W lo ?n)) P'" using fo n by simp
  have "pcore tr stale W lo ?n (headIndex p) T (xs @ map snd items) p P'" using fo n by simp
  from filled_rep [OF this r(1,5) refl r(6) refl assms(7) [unfolded assms(3)]]
  have "ep_queue tr c (set (blocks_of stale W lo ?n)) (xs @ map snd items) (p\<lparr>tailIndex := T\<rparr>) P'" .
  moreover have "p\<lparr>tailIndex := T\<rparr> = p\<lparr>tailBlock := b, tailIndex := T\<rparr>" using fo n tb by (cases p) simp
  ultimately show "ep_queue tr c (set (blocks_of stale W lo ?n)) (xs @ map snd items) (p\<lparr>tailBlock := b, tailIndex := T\<rparr>) P'" by simp
qed

lemma bulk_cases:
  assumes "BLOCK_SIZE tr > 0" and "\<not> t div BLOCK_SIZE tr < started tr (t + length items)"
  shows "items = [] \<and> block_offset tr t = 0"
proof -
  note tbn = tail_block_number [OF assms(1), of t]
  have le: "started tr t \<le> started tr (t + length items)" by (rule started_mono) simp
  then have off: "block_offset tr t = 0" using assms(2) tbn(2) by (cases "block_offset tr t = 0") simp_all
  have "items = []"
  proof (rule ccontr)
    assume "items \<noteq> []"
    then have "started tr (Suc t) \<le> started tr (t + length items)" by (intro started_mono) (cases items; simp)
    moreover have "started tr (Suc t) = Suc (started tr t)" using started_Suc_boundary [OF assms(1)] off by (simp add: block_offset_def)
    ultimately show False using assms(2) tbn(1) off by simp
  qed
  with off show ?thesis by simp
qed

lemma explicit_enqueue_bulk_ok:
  assumes "ep_queue tr c own xs p P" and "BLOCK_SIZE tr < 2 ^ 63"
    and "explicit_enqueue_bulk mo tr md items p P = (Inr True, p', P')"
  shows "\<exists>own'. frame_step own P own' P' \<and> ep_queue tr c own' (xs @ map snd items) p' P'"
proof -
  obtain stale0 W0 lo0 where rep: "ep_rep tr stale0 W0 lo0 xs p P" and own: "own = set (blocks_of stale0 W0 lo0 (started tr (tailIndex p)))"
    and tidy: "tidy c stale0 lo0 (started tr (tailIndex p)) p"
    using assms(1) unfolding ep_queue_def by blast
  let ?t = "tailIndex p" and ?n = "started tr (tailIndex p)" and ?T = "tailIndex p + length items" and ?k = "tailIndex p div BLOCK_SIZE tr"
  let ?m = "started tr (tailIndex p + length items)" and ?blocks = "new_blocks tr (tailIndex p) (length items)"
  have B: "BLOCK_SIZE tr > 0" using rep by (simp add: ep_rep_def)
  have blocks: "?blocks = ?m - ?n" by (rule new_blocks_started [OF B])
  note tbn = tail_block_number [OF B, of ?t]
  have nk: "?n \<le> Suc ?k" using tbn by (cases "block_offset tr ?t = 0") simp_all
  obtain missing first0 i p1 where ta: "take_ahead ?blocks tr None (first_new_base tr ?t) p P = (missing, first0, i, p1)" by (metis prod_cases4)
  obtain ok f' first p2 P2 where tp: "take_from_pool missing mo tr md (pr_blockIndexSlotsUsed p) (pr_blockIndexFront p) first0 i p1 P = (ok, f', first, p2, P2)"
    by (metis prod_cases5)
  define P3 where "P3 = (case first of None \<Rightarrow> P2 | Some f \<Rightarrow> reset_chain ?blocks tr f (tailBlock p2) P2)"
  define b0 where "b0 = (if block_offset tr ?t = 0 \<and> first \<noteq> None then first else tailBlock p)"
  obtain th t' b P4 where fb: "fill_blocks (Suc ?blocks) tr ?T (tailBlock p2) b0 ?t items P3 = (th, t', b, P4)" by (metis prod_cases4)
  note res = assms(3) [unfolded explicit_enqueue_bulk_def Let_def ta tp prod.case]
  have ok: ok using res by (cases ok) simp_all
  have res: "th = None" "p' = p2\<lparr>tailBlock := b, tailIndex := ?T, idx_front := (if first \<noteq> None
      then (pr_blockIndexFront p2 + pr_blockIndexSize p2 - 1) mod pr_blockIndexSize p2 else idx_front p2)\<rparr>" "P' = P4"
    using res ok unfolding P3_def [symmetric] b0_def [symmetric] fb prod.case by (cases th; simp)+
  obtain stale W lo where r: "reserving tr c stale W lo ?n ?m xs first p2 P2" "tailIndex p2 = ?t" "headIndex p2 = headIndex p"
    "\<And>k. k < ?n \<Longrightarrow> W k = W0 k" "frame_step own P (set (blocks_of stale W lo ?m)) P2"
    using bulk_reserved [OF rep refl tidy ta tp [unfolded eqTrueI [OF ok]]] own by metis
  have first: "first = (if ?n < ?m then Some (W ?n) else None)" using r(1) unfolding reserving_def by blast
  show ?thesis
  proof (cases "?n < ?m")
    case True
    then have k: "?k < ?m" using tbn by (cases "block_offset tr ?t = 0") simp_all
    note ff = first_filled [OF rep r(1,2,4) k, folded b0_def]
    have "P3 = reset_chain ?blocks tr (W ?n) (tailBlock p2) P2" using first True by (simp add: P3_def)
    then have fb: "fill_blocks (Suc ?blocks) tr ?T (tailBlock p2) (Some (W ?k)) (tailIndex p2) items (reset_chain ?blocks tr (W ?n) (tailBlock p2) P2)
        = (None, t', b, P4)" using fb ff(1) r(2) res(1) by simp
    note fn = bulk_fills_new [OF r(1) assms(2) True refl _ ff(2) _ _ nk fb]
    then show ?thesis using frame_step_trans [OF r(5)] fn res(2,3) first True r(2) blocks by auto
  next
    case False
    then have bl0: "?blocks = 0" using blocks by simp
    then have p2: "p2 = p" "P2 = P" "first = None" "P3 = P" using ta tp by (auto simp: P3_def)
    have b0: "b0 = tailBlock p" by (simp add: b0_def p2)
    have mn: "?n = ?m" using False started_mono [of ?t ?T tr] by simp
    have p': "p' = p\<lparr>tailBlock := b, tailIndex := ?T\<rparr>" using res(2) p2 by simp
    show ?thesis
    proof (cases "?k < ?m")
      case True
      note fits = bulk_fits [OF rep assms(2) mn refl True fb [unfolded bl0 p2 b0 res(1)] tidy]
      then show ?thesis using p' res(3) own mn by auto
    next
      case False
      then have "items = []" using bulk_cases [OF B] by blast
      then have "b = tailBlock p" "P4 = P" using fb bl0 unfolding b0 p2 by (simp_all add: Let_def)
      then have "p' = p" "P' = P" using p' res(3) \<open>items = []\<close> by simp_all
      then show ?thesis using \<open>items = []\<close> assms(1) frame_step_refl ep_rep_in_use [OF rep] own by auto
    qed
  qed
qed

interpretation explicit_bulk: bulk_sub_queue "explicit_rep tr" "explicit_enqueue mo tr m" "explicit_dequeue tr" "explicit_dequeue_bulk tr"
    "explicit_enqueue_bulk mo tr m" "\<lambda>p r. r = Inr True"
  for tr mo m
proof
  fix own xs and p :: eproducer and P P' :: "'a pool" and items r p'
  assume "explicit_rep tr own xs p P" "explicit_enqueue_bulk mo tr m items p P = (r, p', P')" "r = Inr True"
  then show "\<exists>own'. frame_step own P own' P' \<and> explicit_rep tr own' (if r = Inr True then xs @ map snd items else xs) p' P'"
    using explicit_enqueue_bulk_ok [of tr "noexcept_ctor tr" own xs p P mo m items p' P'] by (auto simp: explicit_rep_def)
qed

section \<open>A failed bulk enqueue\<close>

lemmas bulk_numeral =
  take_ahead.simps(2) [of "pred_numeral v" for v, folded numeral_eq_Suc] take_from_pool.simps(2) [of "pred_numeral v" for v, folded numeral_eq_Suc]
  reset_chain.simps(2) [of "pred_numeral v" for v, folded numeral_eq_Suc] fill_blocks.simps(2) [of "pred_numeral v" for v, folded numeral_eq_Suc]

lemma two: "replicate 2 x = [x, x]" "[0..<2] = [0, 1]"
  by (simp_all add: numeral_2_eq_2)

lemmas small_defs = small_traits_def default_traits_def Block_def uses_flags_def index_less_def block_offset_def block_base_def no_room_def
  MAX_SUBQUEUE_SIZE_def size_max_def malloc_def upd_block_def is_empty_def set_all_empty_def reset_empty_def

lemmas bulk_defs = explicit_enqueue_bulk_def new_blocks_def first_new_base_def undo_bulk_def enter_block_def first_allocated_def next_of_def
  ring_insert_def requisition_block_def try_get_block_from_initial_pool_def try_get_block_from_free_list_def create_block_def
  stop_index_def construct_at_def Let_def

lemma upt_numeral: "[4..<5] = [4 :: nat]" "[Suc (Suc (Suc (Suc 0)))..<5] = [4 :: nat]" "[2..<4] = [2, 3 :: nat]" "[Suc (Suc 0)..<4] = [2, 3 :: nat]"
  by (simp_all add: upt_rec numeral_eq_Suc)

lemmas bulk_blocks_numeral =
  bulk_blocks.simps(2) [of "pred_numeral v" for v, folded numeral_eq_Suc]

text \<open>
  What goes wrong when a bulk enqueue fails, on a new producer with two elements to a block and two blocks in the pool.  It keeps
  the blocks it has put into the ring but takes back \<open>pr_blockIndexSlotsUsed\<close>, so that blocks used later are not counted and
  an index that is full is not made larger but overwritten: \<open>try_enqueue_bulk\<close> of five elements fails, \<open>enqueue_bulk\<close> of five
  elements then succeeds, and a bulk dequeue finds the fifth where the first should be.
\<close>

lemma failed_bulk_explicit:
  assumes new: "ExplicitProducer (\<lambda>_. True) small_traits
     ((populate_initial_block_list (\<lambda>_. True) small_traits 2 (empty_pool small_traits))\<lparr>mallocs := k\<rparr>) = (p, P)"
    and "items = [(None, a), (None, b), (None, c), (None, d), (None, e)]"
  shows "\<exists>p1 P1 p2 P2. explicit_enqueue_bulk (\<lambda>_. True) small_traits CannotAlloc items p P = (Inr False, p1, P1)
     \<and> explicit_enqueue_bulk (\<lambda>_. True) small_traits CanAlloc items p1 P1 = (Inr True, p2, P2)
     \<and> fst (explicit_dequeue_bulk small_traits 5 p2 P2) = [Some e, None, Some c, Some d, None]"
proof -
  let ?B = "\<lambda>es n fs dyn. \<lparr>elements = es, next_block = n, elementsCompletelyDequeued = 0, emptyFlags = fs, dynamicallyAllocated = dyn\<rparr> :: 'a block"
  let ?mo = "\<lambda>_ :: nat. True"
  have ceil: "ceil_to_pow_2 2 = 2" by (simp add: ceil_to_pow_2_def)
  have p: "p = \<lparr>tailIndex = 0, headIndex = 0, dequeueOptimisticCount = 0, dequeueOvercommit = 0, tailBlock = None,
      idx_raw = True, idx_entries = [(0, 0), (0, 0)], idx_front = size_max, pr_blockIndexSlotsUsed = 0, pr_blockIndexSize = 2, pr_blockIndexFront = 0\<rparr>"
    and P: "P = \<lparr>heap = (\<lambda>b. if b < 2 then ?B [None, None] None [False, False] False else ?B [None, None] None [False, False] True),
      fresh = 2, mallocs = k + 1, initialBlockPoolSize = 2, initialBlockPoolIndex = 0, freeList = [], destroyed = []\<rparr>"
    using new by (auto simp: ExplicitProducer_def new_block_index_def populate_initial_block_list_def empty_pool_def small_defs ceil two Let_def)
  let ?p1 = "\<lparr>tailIndex = 0, headIndex = 0, dequeueOptimisticCount = 0, dequeueOvercommit = 0, tailBlock = Some 0,
      idx_raw = True, idx_entries = [(0, 0), (2, 1)], idx_front = size_max, pr_blockIndexSlotsUsed = 0, pr_blockIndexSize = 2, pr_blockIndexFront = 0\<rparr>"
  let ?P1 = "P\<lparr>heap := (heap P)(1 := ?B [None, None] (Some 0) [True, True] False, 0 := ?B [None, None] (Some 1) [True, True] False),
      initialBlockPoolIndex := 2\<rparr>"
  have 1: "explicit_enqueue_bulk ?mo small_traits CannotAlloc items p P = (Inr False, ?p1, ?P1)"
    by (simp add: p P assms(2) bulk_defs small_defs bulk_numeral two)
  let ?p2 = "\<lparr>tailIndex = 5, headIndex = 0, dequeueOptimisticCount = 0, dequeueOvercommit = 0, tailBlock = Some 2,
      idx_raw = True, idx_entries = [(4, 2), (2, 0)], idx_front = 0, pr_blockIndexSlotsUsed = 1, pr_blockIndexSize = 2, pr_blockIndexFront = 1\<rparr>"
  let ?P2 = "P\<lparr>heap := (heap P)(1 := ?B [Some a, Some b] (Some 0) [False, False] False, 0 := ?B [Some c, Some d] (Some 2) [False, False] False,
      2 := ?B [Some e, None] (Some 1) [False, False] True), initialBlockPoolIndex := 2, mallocs := k + 2, fresh := 3\<rparr>"
  have 2: "explicit_enqueue_bulk ?mo small_traits CanAlloc items ?p1 ?P1 = (Inr True, ?p2, ?P2)"
    by (simp add: P assms(2) bulk_defs small_defs bulk_numeral two)
  have 3: "fst (explicit_dequeue_bulk small_traits 5 ?p2 ?P2) = [Some e, None, Some c, Some d, None]"
    by (simp add: P explicit_dequeue_bulk_def bulk_blocks_numeral index_slot_def block_at_def set_many_empty_def destroy_at_def upt_numeral small_defs Let_def)
  show ?thesis using 1 2 3 by blast
qed

end
