(* ===== verification/CQ_ImplicitFifo.thy ===== *)
theory CQ_ImplicitFifo
  imports CQ_Implicit CQ_ExplicitFifo
begin

text \<open>
  Correctness of the sub-queue of an implicit producer (theory \<open>CQ_Implicit\<close>): the circular index knows exactly
  the blocks from the one that holds the head to the last started, every block before has been given back
  to the pool, and every operation acts on the elements as on a first-in first-out list.  The contract
  \<open>sub_queue\<close> is interpreted on the implicit producer.
\<close>

section \<open>The invariant\<close>

text \<open>The index of an implicit producer knows the blocks numbered \<open>lo\<close> to \<open>n\<close>.\<close>

definition iindex_ok :: "traits \<Rightarrow> (nat \<Rightarrow> nat) \<Rightarrow> nat \<Rightarrow> nat \<Rightarrow> iproducer \<Rightarrow> bool" where
  "iindex_ok tr W lo n p \<longleftrightarrow>
     lo \<le> n \<and> 0 < nextBlockIndexCapacity p
     \<and> (if ip_raw p
        then nextBlockIndexCapacity p = 2 * capacity p \<and> n - lo \<le> capacity p \<and> ip_tail p < capacity p
          \<and> (\<forall>k. lo \<le> k \<and> k < n \<longrightarrow>
               ip_index p ! slot_of (capacity p) (Suc (ip_tail p) mod capacity p) n k = (k * BLOCK_SIZE tr, Some (W k)))
        else n = lo)"

text \<open>
  The sub-queue holds \<open>xs\<close>.  Its blocks are those from the one that holds the head to the last started; the
  blocks before have been given back.
\<close>

definition ip_core :: "traits \<Rightarrow> (nat \<Rightarrow> nat) \<Rightarrow> nat \<Rightarrow> nat \<Rightarrow> 'a list \<Rightarrow> iproducer \<Rightarrow> 'a pool \<Rightarrow> bool" where
  "ip_core tr W h t xs p P \<longleftrightarrow>
     BLOCK_SIZE tr > 1 \<and> pool_ok tr P
     \<and> iindex_ok tr W (h div BLOCK_SIZE tr) (started tr t) p
     \<and> inj_on W {h div BLOCK_SIZE tr..<started tr t} \<and> W ` {h div BLOCK_SIZE tr..<started tr t} \<subseteq> in_use P
     \<and> content tr implicit_context W (h div BLOCK_SIZE tr) (started tr t) h t xs P"

text \<open>When the tail block is full and the queue is not empty, the tail block is still the one in use.\<close>

definition tail_full :: "traits \<Rightarrow> (nat \<Rightarrow> nat) \<Rightarrow> nat \<Rightarrow> nat \<Rightarrow> nat option \<Rightarrow> bool" where
  "tail_full tr W h t b \<longleftrightarrow> (block_offset tr t = 0 \<and> h \<noteq> t \<longrightarrow> b = Some (W (t div BLOCK_SIZE tr - 1)))"

definition ip_rep :: "traits \<Rightarrow> (nat \<Rightarrow> nat) \<Rightarrow> 'a list \<Rightarrow> iproducer \<Rightarrow> 'a pool \<Rightarrow> bool" where
  "ip_rep tr W xs p P \<longleftrightarrow>
     ip_core tr W (headIndex p) (tailIndex p) xs p P
     \<and> dequeueOptimisticCount p = headIndex p + dequeueOvercommit p
     \<and> (block_offset tr (tailIndex p) \<noteq> 0 \<longrightarrow> tailBlock p = Some (W (tailIndex p div BLOCK_SIZE tr)))
     \<and> tail_full tr W (headIndex p) (tailIndex p) (tailBlock p)"

definition ip_own :: "traits \<Rightarrow> (nat \<Rightarrow> nat) \<Rightarrow> nat \<Rightarrow> nat \<Rightarrow> nat set" where
  "ip_own tr W h t = W ` {h div BLOCK_SIZE tr..<started tr t}"

definition implicit_rep :: "traits \<Rightarrow> nat set \<Rightarrow> 'a list \<Rightarrow> iproducer \<Rightarrow> 'a pool \<Rightarrow> bool" where
  "implicit_rep tr own xs p P \<longleftrightarrow> BLOCK_SIZE tr < 2 ^ 63 \<and>
     (\<exists>W. ip_rep tr W xs p P \<and> own = ip_own tr W (headIndex p) (tailIndex p))"

section \<open>The block index\<close>

lemma mod_shift_neq:
  assumes "a < C" and "0 < d" and "d < C"
  shows "(a + d) mod C \<noteq> (a :: nat)"
proof (cases "a + d < C")
  case False
  then have "(a + d) mod C = a + d - C" using assms by (simp add: mod_if)
  then show ?thesis using assms False by simp
qed (use assms in simp)

lemma copy_entries_eq:
  assumes "pos < length ix" and "e < length ix" and "0 < c" and "c \<le> rounds" and "c \<le> length ix" and "(pos + c) mod length ix = e"
  shows "copy_entries rounds ix e pos = map (\<lambda>j. ix ! ((pos + 1 + j) mod length ix)) [0..<c]"
  using assms
proof (induction rounds arbitrary: pos c)
  case (Suc rounds)
  let ?C = "length ix" and ?p = "(pos + 1) mod length ix"
  have C: "0 < ?C" using Suc.prems(1) by linarith
  have p: "?p < ?C" using C by simp
  show ?case
  proof (cases "c = 1")
    case True
    then show ?thesis using Suc.prems by simp
  next
    case False
    then have c: "0 < c - 1" "c - 1 < ?C" "c - 1 \<le> rounds" using Suc.prems by auto
    have "pos + 1 + (c - 1) = pos + c" using c by simp
    then have end': "(?p + (c - 1)) mod ?C = e" using Suc.prems(6) by (simp only: mod_add_left_eq)
    then have "?p \<noteq> e" using mod_shift_neq [OF p c(1,2)] by auto
    moreover have "copy_entries rounds ix e ?p = map (\<lambda>j. ix ! ((?p + 1 + j) mod ?C)) [0..<c - 1]"
      using c p end' Suc.prems(2) by (intro Suc.IH) auto
    moreover have "(?p + 1 + j) mod ?C = (pos + 1 + Suc j) mod ?C" for j
    proof -
      have "(?p + (1 + j)) mod ?C = (pos + 1 + (1 + j)) mod ?C" by (rule mod_add_left_eq)
      then show ?thesis by (simp add: add.assoc)
    qed
    moreover have "[0..<c] = 0 # map Suc [0..<c - 1]" using Suc.prems by (simp add: map_Suc_upt upt_conv_Cons)
    ultimately show ?thesis by (simp add: o_def)
  qed
qed simp

lemma slot_of_mod_front: "slot_of S (f mod S) n k = (f mod S + S - (n - k)) mod S"
  by (simp add: slot_of_def)

lemma slot_of_mod:
  assumes "n - k \<le> S"
  shows "slot_of S (f mod S) n k = slot_of S f n k"
proof -
  have "f mod S + S - (n - k) = f mod S + (S - (n - k))" "f + S - (n - k) = f + (S - (n - k))" using assms by simp_all
  then show ?thesis unfolding slot_of_def by (simp only: mod_add_left_eq)
qed

lemma implicit_new_index_ok:
  assumes "iindex_ok tr W lo n p" and "implicit_new_block_index mo p P = (ok, p', P')"
  shows "iindex_ok tr W lo n p'" and "P' = P\<lparr>mallocs := mallocs P + 1\<rparr>"
    and "\<exists>r e t c. p' = p\<lparr>ip_raw := r, ip_index := e, ip_tail := t, nextBlockIndexCapacity := c\<rparr>"
    and "ok \<Longrightarrow> ip_raw p' \<and> n - lo < capacity p'"
proof -
  have "iindex_ok tr W lo n p' \<and> P' = P\<lparr>mallocs := mallocs P + 1\<rparr>
    \<and> (\<exists>r e t c. p' = p\<lparr>ip_raw := r, ip_index := e, ip_tail := t, nextBlockIndexCapacity := c\<rparr>)
    \<and> (ok \<longrightarrow> ip_raw p' \<and> n - lo < capacity p')"
  proof (cases "mo (mallocs P)")
    case False
    then show ?thesis using assms by (cases p) (auto simp: implicit_new_block_index_def malloc_def Let_def)
  next
    case ok: True
    show ?thesis
    proof (cases "ip_raw p")
      case False
      then show ?thesis using ok assms
        by (cases p) (auto simp: implicit_new_block_index_def malloc_def Let_def iindex_ok_def capacity_def)
    next
      case True
      let ?C = "capacity p"
      have ix: "0 < ?C" "nextBlockIndexCapacity p = 2 * ?C" "n - lo \<le> ?C" "ip_tail p < ?C" "lo \<le> n"
        "\<And>k. lo \<le> k \<Longrightarrow> k < n \<Longrightarrow> ip_index p ! slot_of ?C (Suc (ip_tail p) mod ?C) n k = (k * BLOCK_SIZE tr, Some (W k))"
        using assms(1) True by (auto simp: iindex_ok_def)
      let ?copied = "map (\<lambda>j. ip_index p ! ((ip_tail p + 1 + j) mod ?C)) [0..<?C]"
      have copied: "copy_entries ?C (ip_index p) (ip_tail p) (ip_tail p) = ?copied"
        using copy_entries_eq [of "ip_tail p" "ip_index p" "ip_tail p" ?C ?C] ix by (simp add: capacity_def)
      have p': "p' = p\<lparr>ip_raw := True, ip_index := ?copied @ replicate ?C (INVALID_BLOCK_BASE, None), ip_tail := ?C - 1,
          nextBlockIndexCapacity := 4 * ?C\<rparr>" "P' = P\<lparr>mallocs := mallocs P + 1\<rparr>" "ok"
        using assms(2) ok True copied ix(1,2) by (auto simp: implicit_new_block_index_def malloc_def Let_def mod_if)
      have prefix_nth: "(?copied @ replicate ?C (INVALID_BLOCK_BASE, None)) ! d = ip_index p ! ((ip_tail p + 1 + d) mod ?C)"
        if "d < ?C" for d using that by (simp add: nth_append)
      have cap: "capacity p' = 2 * ?C" by (simp add: p' capacity_def)
      have "ip_index p' ! slot_of (2 * ?C) (Suc (?C - 1) mod (2 * ?C)) n k = (k * BLOCK_SIZE tr, Some (W k))"
        if k: "lo \<le> k" "k < n" for k
      proof -
        have nk: "0 < n - k" "n - k \<le> ?C" using k ix(3) by auto
        then have "slot_of (2 * ?C) (Suc (?C - 1) mod (2 * ?C)) n k = ?C - (n - k)"
          using ix(1) unfolding slot_of_def by (subst circ_sub) auto
        moreover have "?C - (n - k) < ?C" using nk by simp
        then have "(?copied @ replicate ?C (INVALID_BLOCK_BASE, None)) ! (?C - (n - k)) = ip_index p ! ((ip_tail p + 1 + (?C - (n - k))) mod ?C)"
          by (rule prefix_nth)
        moreover have "(ip_tail p + 1 + (?C - (n - k))) mod ?C = slot_of ?C (Suc (ip_tail p) mod ?C) n k"
        proof -
          have "Suc (ip_tail p) + ?C - (n - k) = ip_tail p + 1 + (?C - (n - k))" using nk by linarith
          then show ?thesis unfolding slot_of_mod [OF nk(2)] unfolding slot_of_def by (simp only:)
        qed
        ultimately show ?thesis using ix(6) [OF k] by (simp add: p')
      qed
      moreover have "ip_raw p'" "ip_tail p' = ?C - 1" "nextBlockIndexCapacity p' = 4 * ?C" by (simp_all add: p')
      ultimately have "iindex_ok tr W lo n p'" unfolding iindex_ok_def cap using ix by auto
      moreover have "\<exists>r e t c. p' = p\<lparr>ip_raw := r, ip_index := e, ip_tail := t, nextBlockIndexCapacity := c\<rparr>"
        unfolding p'(1) by blast
      ultimately show ?thesis using p' cap ix by (simp add: capacity_def)
    qed
  qed
  then show "iindex_ok tr W lo n p'" and "P' = P\<lparr>mallocs := mallocs P + 1\<rparr>"
    and "\<exists>r e t c. p' = p\<lparr>ip_raw := r, ip_index := e, ip_tail := t, nextBlockIndexCapacity := c\<rparr>"
    and "ok \<Longrightarrow> ip_raw p' \<and> n - lo < capacity p'" by simp_all
qed

text \<open>What the producer may do with an entry it has claimed for block number \<open>n\<close>.\<close>

definition claimed :: "traits \<Rightarrow> (nat \<Rightarrow> nat) \<Rightarrow> nat \<Rightarrow> nat \<Rightarrow> nat \<Rightarrow> iproducer \<Rightarrow> bool" where
  "claimed tr W lo n slot p \<longleftrightarrow>
     (\<forall>b. iindex_ok tr (W(n := b)) lo (Suc n) (set_entry_value slot (Some b) p))
     \<and> iindex_ok tr W lo n (set_entry_value slot None (rewind_block_index_tail p))"

definition same_counters :: "iproducer \<Rightarrow> iproducer \<Rightarrow> bool" where
  "same_counters p p' \<longleftrightarrow> (\<exists>r e t c. p' = p\<lparr>ip_raw := r, ip_index := e, ip_tail := t, nextBlockIndexCapacity := c\<rparr>)"

lemma same_counters_simps:
  assumes "same_counters p p'"
  shows "tailIndex p' = tailIndex p" "headIndex p' = headIndex p" "tailBlock p' = tailBlock p"
    "dequeueOptimisticCount p' = dequeueOptimisticCount p" "dequeueOvercommit p' = dequeueOvercommit p"
  using assms by (auto simp: same_counters_def)

lemma same_counters_refl: "same_counters p p"
  unfolding same_counters_def by (rule exI [of _ "ip_raw p"], rule exI [of _ "ip_index p"], rule exI [of _ "ip_tail p"],
      rule exI [of _ "nextBlockIndexCapacity p"]) simp

lemma claim_entry_ok:
  assumes "iindex_ok tr W lo n q" and "ip_raw q" and "n - lo < capacity q" and "claim_entry (n * BLOCK_SIZE tr) q = (slot, p)"
  shows "claimed tr W lo n slot p" and "same_counters q p"
proof -
  let ?C = "capacity q" and ?f = "Suc (ip_tail q) mod capacity q"
  have ix: "nextBlockIndexCapacity q = 2 * ?C" "ip_tail q < ?C" "lo \<le> n" "0 < ?C"
    "\<And>k. lo \<le> k \<Longrightarrow> k < n \<Longrightarrow> ip_index q ! slot_of ?C ?f n k = (k * BLOCK_SIZE tr, Some (W k))"
    using assms(1-3) by (auto simp: iindex_ok_def)
  have slot: "slot = ?f" "p = q\<lparr>ip_index := (ip_index q)[?f := (n * BLOCK_SIZE tr, snd (ip_index q ! ?f))], ip_tail := ?f\<rparr>"
    using assms(4) by (auto simp: claim_entry_def Let_def)
  have f: "?f < ?C" "?f < length (ip_index q)" using ix(4) by (simp_all add: capacity_def)
  have live: "(ip_index q)[?f := v] ! slot_of ?C ?f n k = (k * BLOCK_SIZE tr, Some (W k))" if k: "lo \<le> k" "k < n" for k v
  proof -
    have "slot_of ?C ?f n k \<noteq> ?f" using k assms(3) f by (intro slot_of_neq_front) auto
    then show ?thesis using ix(5) [OF k] by simp
  qed
  have "(ip_index q)[?f := (n * BLOCK_SIZE tr, Some b)] ! slot_of ?C (Suc ?f mod ?C) (Suc n) k = (k * BLOCK_SIZE tr, Some ((W(n := b)) k))"
    if k: "lo \<le> k" "k < Suc n" for k b
  proof -
    have adv: "slot_of ?C (Suc ?f mod ?C) (Suc n) k = slot_of ?C ?f n k" using k assms(3) f by (intro slot_of_advance) auto
    show ?thesis using k adv live [of k] slot_of_front [OF f(1)] f(2) by (cases "k = n") auto
  qed
  then have "iindex_ok tr (W(n := b)) lo (Suc n) (set_entry_value slot (Some b) p)" for b
    using ix assms(2,3) f by (simp add: iindex_ok_def set_entry_value_def slot capacity_def)
  moreover have "(?f + ?C - 1) mod ?C = ip_tail q"
  proof (cases "Suc (ip_tail q) = ?C")
    case True
    then show ?thesis by auto
  next
    case False
    then show ?thesis using ix(2) by simp
  qed
  then have "iindex_ok tr W lo n (set_entry_value slot None (rewind_block_index_tail p))"
    using ix assms(2,3) f live by (simp add: iindex_ok_def set_entry_value_def rewind_block_index_tail_def slot capacity_def)
  ultimately show "claimed tr W lo n slot p" by (simp add: claimed_def)
  show "same_counters q p" unfolding same_counters_def slot(2) by (cases q) auto
qed

lemma insert_entry_ok:
  assumes "iindex_ok tr W lo n p" and "BLOCK_SIZE tr > 1" and "insert_block_index_entry mo m (n * BLOCK_SIZE tr) p P = (r, p', P')"
  shows "case r of None \<Rightarrow> iindex_ok tr W lo n p' | Some slot \<Rightarrow> claimed tr W lo n slot p'"
    and "same_counters p p'" and "P' = P \<or> P' = P\<lparr>mallocs := mallocs P + 1\<rparr>"
proof -
  let ?C = "capacity p" and ?f = "Suc (ip_tail p) mod capacity p"
  have "(case r of None \<Rightarrow> iindex_ok tr W lo n p' | Some slot \<Rightarrow> claimed tr W lo n slot p') \<and> same_counters p p'
     \<and> (P' = P \<or> P' = P\<lparr>mallocs := mallocs P + 1\<rparr>)"
  proof (cases "ip_raw p")
    case False
    then show ?thesis using assms same_counters_refl by (auto simp: insert_block_index_entry_def)
  next
    case raw: True
    obtain key val where kv: "ip_index p ! ?f = (key, val)" by (metis prod.exhaust)
    show ?thesis
    proof (cases "key = INVALID_BLOCK_BASE \<or> val = None")
      case True
      have "n - lo < ?C"
      proof (rule ccontr)
        assume "\<not> n - lo < ?C"
        then have full: "n - lo = ?C" "ip_tail p < ?C" "lo \<le> n" using assms(1) raw by (auto simp: iindex_ok_def)
        then have "lo < n" by simp
        moreover have "slot_of ?C ?f n lo = ?f" using full by (simp add: slot_of_def)
        ultimately have "ip_index p ! ?f = (lo * BLOCK_SIZE tr, Some (W lo))" using assms(1) raw by (metis iindex_ok_def order_refl)
        then have "lo * BLOCK_SIZE tr = 1" using True kv by (simp add: INVALID_BLOCK_BASE_def)
        then show False using assms(2) by simp
      qed
      moreover obtain slot q where "claim_entry (n * BLOCK_SIZE tr) p = (slot, q)" by (metis prod.exhaust)
      ultimately show ?thesis using claim_entry_ok [OF assms(1) raw] raw kv True assms(3)
        by (auto simp: insert_block_index_entry_def)
    next
      case False
      obtain ok q P1 where nb: "implicit_new_block_index mo p P = (ok, q, P1)" by (metis prod_cases3)
      note g = implicit_new_index_ok [OF assms(1) nb]
      have sc: "same_counters p q" using g(3) by (simp add: same_counters_def)
      obtain slot q' where ce: "claim_entry (n * BLOCK_SIZE tr) q = (slot, q')" by (metis prod.exhaust)
      have "claimed tr W lo n slot q' \<and> same_counters q q'" if ok using claim_entry_ok [OF g(1) _ _ ce] g(4) that by simp
      moreover have "same_counters p q'" if "same_counters q q'" using sc that by (cases p) (auto simp: same_counters_def)
      ultimately show ?thesis using raw kv False assms(1,3) nb ce g(1,2) sc same_counters_refl
        by (auto simp: insert_block_index_entry_def split: if_splits)
    qed
  qed
  then show "case r of None \<Rightarrow> iindex_ok tr W lo n p' | Some slot \<Rightarrow> claimed tr W lo n slot p'"
    and "same_counters p p'" and "P' = P \<or> P' = P\<lparr>mallocs := mallocs P + 1\<rparr>" by simp_all
qed

section \<open>Enqueue\<close>

lemma content_cong:
  "content tr ctx W lo n h t xs P \<Longrightarrow> (\<And>k. lo \<le> k \<Longrightarrow> k < n \<Longrightarrow> heap P' (W k) = heap P (W k)) \<Longrightarrow> content tr ctx W lo n h t xs P'"
  by (simp add: content_def)

lemma ip_core_index: "ip_core tr W h t xs p P \<Longrightarrow> iindex_ok tr W (h div BLOCK_SIZE tr) (started tr t) p' \<Longrightarrow> ip_core tr W h t xs p' P"
  by (simp add: ip_core_def)

lemma ip_core_own: "ip_core tr W h t xs p P \<Longrightarrow> ip_own tr W h t \<subseteq> in_use P"
  by (simp add: ip_core_def ip_own_def)

lemma ip_core_frame:
  assumes "ip_core tr W h t xs p P" and "same_blocks (ip_own tr W h t) P P'" and "pool_ok tr P'" and "ip_own tr W h t \<subseteq> in_use P'"
  shows "ip_core tr W h t xs p P'"
proof -
  have "content tr implicit_context W (h div BLOCK_SIZE tr) (started tr t) h t xs P'"
    using assms(1,2) by (intro content_cong [where P = P and P' = P']) (auto simp: ip_core_def same_blocks_def ip_own_def)
  then show ?thesis using assms by (simp add: ip_core_def ip_own_def)
qed

lemma insert_pool_ok:
  assumes "P' = P \<or> P' = P\<lparr>mallocs := mallocs P + 1\<rparr>"
  shows "same_blocks B P P'" "in_use P' = in_use P" "pool_ok tr P \<Longrightarrow> pool_ok tr P'"
  using assms by (auto simp: mallocs_frame same_blocks_def)

lemma fold_release_ok:
  fixes ctx :: InnerQueueContext
  assumes "pool_ok tr P" and "b \<notin> in_use P" and "requisition_block mo tr m P = (Some b, P1)"
  defines "P2 \<equiv> add_block_to_free_list tr b (upd_block b (reset_empty tr ctx) P1)"
  shows "pool_ok tr P2" and "in_use P2 = in_use P" and "same_blocks (in_use P) P P2"
proof -
  note rq = requisition_ok [OF assms(1,3)]
  have 1: "pool_ok tr (upd_block b (reset_empty tr ctx) P1)" "in_use (upd_block b (reset_empty tr ctx) P1) = insert b (in_use P)"
    using reset_block_ok [OF rq(1)] rq(4) by simp_all
  note a = add_block_ok [OF 1(1), of b]
  show "pool_ok tr P2" "in_use P2 = in_use P" using a 1(2) assms(2) by (auto simp: P2_def)
  show "same_blocks (in_use P) P P2" using rq(2) a(3) 1(2) assms(2) by (auto simp: P2_def same_blocks_def)
qed

lemma ip_push_new:
  fixes x :: "'a"
  assumes "ip_core tr W h t xs p P" and "block_offset tr t = 0" and "requisition_block mo tr m P = (Some b, P1)"
    and "iindex_ok tr (W(started tr t := b)) (h div BLOCK_SIZE tr) (Suc (started tr t)) p'"
  defines "P2 \<equiv> upd_block b (construct_at tr t x) (upd_block b (reset_empty tr implicit_context) P1)"
  shows "ip_core tr (W(started tr t := b)) h (Suc t) (xs @ [x]) p' P2"
    and "frame_step (ip_own tr W h t) P (ip_own tr (W(started tr t := b)) h (Suc t)) P2"
proof -
  let ?n = "started tr t" and ?lo = "h div BLOCK_SIZE tr" and ?W = "W(started tr t := b)"
  let ?P1 = "upd_block b (reset_empty tr implicit_context) P1"
  have c: "BLOCK_SIZE tr > 1" "pool_ok tr P" "inj_on W {?lo..<?n}" "W ` {?lo..<?n} \<subseteq> in_use P"
    "content tr implicit_context W ?lo ?n h t xs P" "iindex_ok tr W ?lo ?n p" using assms(1) by (simp_all add: ip_core_def)
  have B: "BLOCK_SIZE tr > 0" using c(1) by simp
  note rq = requisition_ok [OF c(2) assms(3)]
  have b: "b \<notin> in_use P" "in_use P1 = insert b (in_use P)" using rq(4) by simp_all
  have m0: "t mod BLOCK_SIZE tr = 0" using assms(2) by (simp add: block_offset_def)
  have t: "?n * BLOCK_SIZE tr = t" and n': "started tr (Suc t) = Suc ?n"
    using started_boundary [OF B m0] started_Suc_boundary [OF B m0] by simp_all
  have k: "t div BLOCK_SIZE tr = ?n" using nonzero_mult_div_cancel_right [of "BLOCK_SIZE tr" ?n] B t by simp
  have lo: "?lo \<le> ?n" using c(6) by (simp add: iindex_ok_def)
  have old: "W k' \<noteq> b" if "?lo \<le> k'" "k' < ?n" for k'
    using that c(4) b(1) by (auto simp: image_subset_iff)
  have inj: "inj_on ?W {?lo..<Suc ?n}"
  proof (rule inj_onI)
    fix i j assume "i \<in> {?lo..<Suc ?n}" "j \<in> {?lo..<Suc ?n}" "?W i = ?W j"
    then show "i = j" using old [of i] old [of j] inj_onD [OF c(3), of i j] by (simp add: less_Suc_eq split: if_splits)
  qed
  have ok1: "pool_ok tr ?P1" "in_use ?P1 = in_use P1" using reset_block_ok [OF rq(1)] by simp_all
  have "holds tr implicit_context h t xs ?n (heap ?P1 b)"
    using c(5) t pool_block_length [OF ok1(1), of b] by (auto simp: holds_def content_def emptied_reset)
  moreover have "heap ?P1 (W k') = heap P (W k')" if "?lo \<le> k'" "k' < ?n" for k'
    using that c(4) rq(2) old [OF that] by (auto simp: same_blocks_def image_subset_iff)
  ultimately have "holds tr implicit_context h t xs k' (heap ?P1 (?W k'))" if "?lo \<le> k'" "k' < Suc ?n" for k'
    using that c(5) by (cases "k' = ?n") (simp_all add: content_def del: upd_block_heap)
  then have "content tr implicit_context ?W ?lo (Suc ?n) h t xs ?P1" using c(5) by (simp add: content_def del: upd_block_heap)
  then have "content tr implicit_context ?W ?lo (Suc ?n) h (Suc t) (xs @ [x]) P2"
    using B lo inj k by (intro content_push [where P = ?P1]) (simp_all add: P2_def)
  moreover have ok2: "pool_ok tr P2" "in_use P2 = in_use P1" unfolding P2_def using upd_elements_ok [OF ok1(1)] ok1(2) by simp_all
  moreover have own: "?W ` {?lo..<Suc ?n} = insert b (W ` {?lo..<?n})" using lo by (auto simp: less_Suc_eq image_iff)
  ultimately show "ip_core tr ?W h (Suc t) (xs @ [x]) p' P2"
    using c(1,4) assms(4) inj b by (simp add: ip_core_def n') blast
  have "same_blocks (in_use P - W ` {?lo..<?n}) P P2" using rq(2) b(1) by (auto simp: P2_def same_blocks_def)
  then show "frame_step (ip_own tr W h t) P (ip_own tr ?W h (Suc t)) P2"
    unfolding frame_step_def ip_own_def n' own using c(4) b ok2(2) by auto
qed

text \<open>One operation of an implicit producer, seen from the pool: the frame, and the list it holds afterwards.\<close>

definition implicit_step :: "traits \<Rightarrow> nat set \<Rightarrow> 'a pool \<Rightarrow> 'a list \<Rightarrow> iproducer \<Rightarrow> 'a pool \<Rightarrow> bool" where
  "implicit_step tr own P ys p' P' \<longleftrightarrow> (\<exists>own'. frame_step own P own' P' \<and> implicit_rep tr own' ys p' P')"

lemma implicit_stepI:
  "frame_step own P (ip_own tr W (headIndex p') (tailIndex p')) P' \<Longrightarrow> BLOCK_SIZE tr < 2 ^ 63 \<Longrightarrow> ip_rep tr W ys p' P' \<Longrightarrow>
   implicit_step tr own P ys p' P'"
  unfolding implicit_step_def implicit_rep_def by blast

lemma ip_rep_stutter:
  assumes "ip_rep tr W xs p P" and "same_counters p p'" and "iindex_ok tr W (headIndex p div BLOCK_SIZE tr) (started tr (tailIndex p)) p'"
    and "pool_ok tr P'" and "in_use P' = in_use P" and "same_blocks (in_use P) P P'" and "BLOCK_SIZE tr < 2 ^ 63"
  shows "implicit_step tr (ip_own tr W (headIndex p) (tailIndex p)) P xs p' P'"
proof (rule implicit_stepI [OF _ assms(7)])
  note sc = same_counters_simps [OF assms(2)]
  have c: "ip_core tr W (headIndex p) (tailIndex p) xs p P" using assms(1) by (simp add: ip_rep_def)
  note own = ip_core_own [OF c]
  show "ip_rep tr W xs p' P'" unfolding ip_rep_def sc
    using assms(1) ip_core_frame [OF ip_core_index [OF c assms(3)] _ assms(4)] own assms(5,6)
    by (auto simp: ip_rep_def same_blocks_def)
  show "frame_step (ip_own tr W (headIndex p) (tailIndex p)) P (ip_own tr W (headIndex p') (tailIndex p')) P'"
    unfolding sc using own assms(5,6) by (intro frame_step_own) (auto simp: same_blocks_def)
qed

lemma iindex_counters [simp]:
  "iindex_ok tr W lo n (p\<lparr>tailIndex := a\<rparr>) = iindex_ok tr W lo n p" "iindex_ok tr W lo n (p\<lparr>headIndex := a\<rparr>) = iindex_ok tr W lo n p"
  "iindex_ok tr W lo n (p\<lparr>dequeueOptimisticCount := a\<rparr>) = iindex_ok tr W lo n p"
  "iindex_ok tr W lo n (p\<lparr>dequeueOvercommit := a\<rparr>) = iindex_ok tr W lo n p"
  "iindex_ok tr W lo n (p\<lparr>tailBlock := b\<rparr>) = iindex_ok tr W lo n p"
  by (simp_all add: iindex_ok_def capacity_def)

lemma ip_core_cong_index:
  "(\<And>lo n. iindex_ok tr W lo n p' = iindex_ok tr W lo n p) \<Longrightarrow> ip_core tr W h t xs p' P = ip_core tr W h t xs p P"
  by (simp add: ip_core_def)

lemma set_entry_counters [simp]:
  "tailIndex (set_entry_value s v p) = tailIndex p" "headIndex (set_entry_value s v p) = headIndex p"
  "dequeueOptimisticCount (set_entry_value s v p) = dequeueOptimisticCount p"
  "dequeueOvercommit (set_entry_value s v p) = dequeueOvercommit p" "tailBlock (set_entry_value s v p) = tailBlock p"
  by (simp_all add: set_entry_value_def)

lemma same_counters_undo: "same_counters p q \<Longrightarrow> same_counters p (set_entry_value s v (rewind_block_index_tail q))"
  by (cases p) (auto simp: same_counters_def set_entry_value_def rewind_block_index_tail_def)

lemma implicit_enqueue_new_block:
  assumes "ip_rep tr W xs p P" and "BLOCK_SIZE tr < 2 ^ 63" and "block_offset tr (tailIndex p) = 0"
    and "implicit_enqueue mo tr m th x p P = (r, p', P')"
  shows "implicit_step tr (ip_own tr W (headIndex p) (tailIndex p)) P (if r = Inr True then xs @ [x] else xs) p' P'"
proof -
  let ?h = "headIndex p" and ?t = "tailIndex p" and ?lo = "headIndex p div BLOCK_SIZE tr" and ?n = "started tr (tailIndex p)"
  let ?own = "ip_own tr W ?h ?t"
  have c: "ip_core tr W ?h ?t xs p P" using assms(1) by (simp add: ip_rep_def)
  then have B: "BLOCK_SIZE tr > 1" "pool_ok tr P" "iindex_ok tr W ?lo ?n p" by (simp_all add: ip_core_def)
  have t: "?n * BLOCK_SIZE tr = ?t" using started_boundary [of tr ?t] B(1) assms(3) by (simp add: block_offset_def)
  show ?thesis
  proof (cases "no_room tr ?h ?t")
    case True
    then show ?thesis using assms(3,4) ip_rep_stutter [OF assms(1) same_counters_refl B(3,2) refl _ assms(2)]
      by (auto simp: implicit_enqueue_def same_blocks_def)
  next
    case room: False
    obtain s q P1 where i: "insert_block_index_entry mo m ?t p P = (s, q, P1)" by (metis prod_cases3)
    then have "insert_block_index_entry mo m (?n * BLOCK_SIZE tr) p P = (s, q, P1)" by (simp only: t)
    note io = insert_entry_ok [OF B(3,1) this]
    note sc = same_counters_simps [OF io(2)]
    note ip = insert_pool_ok [OF io(3)]
    have P1: "pool_ok tr P1" "in_use P1 = in_use P" "same_blocks (in_use P) P P1" using ip B(2) by auto
    show ?thesis
    proof (cases s)
      case None
      then show ?thesis using room i assms(3,4) io(1) ip_rep_stutter [OF assms(1) io(2) _ P1 assms(2)]
        by (auto simp: implicit_enqueue_def)
    next
      case (Some slot)
      have cl: "\<And>b. iindex_ok tr (W(?n := b)) ?lo (Suc ?n) (set_entry_value slot (Some b) q)"
        "iindex_ok tr W ?lo ?n (set_entry_value slot None (rewind_block_index_tail q))"
        using io(1) Some by (simp_all add: claimed_def)
      obtain rb P2 where rb: "requisition_block mo tr m P1 = (rb, P2)" by (metis prod.exhaust)
      note rq = requisition_ok [OF P1(1) rb]
      note undo = same_counters_undo [OF io(2), of slot None]
      show ?thesis
      proof (cases rb)
        case None
        have "pool_ok tr P2" "in_use P2 = in_use P" "same_blocks (in_use P) P P2"
          using rq None P1 by (auto simp: same_blocks_def)
        then show ?thesis using room i Some rb None assms(3,4) ip_rep_stutter [OF assms(1) undo cl(2) _ _ _ assms(2)]
          by (auto simp: implicit_enqueue_def)
      next
        case b: (Some b)
        have bn: "b \<notin> in_use P1" using rq(4) b by simp
        show ?thesis
        proof (cases "raised tr th")
          case (Some e)
          note fr = fold_release_ok [OF P1(1) bn rb [unfolded b], of implicit_context]
          have "same_blocks (in_use P) P (add_block_to_free_list tr b (upd_block b (reset_empty tr implicit_context) P2))"
            using fr(3) P1 by (auto simp: same_blocks_def)
          then show ?thesis using room i \<open>s = Some slot\<close> rb b Some assms(3,4) fr(1,2) P1(2)
              ip_rep_stutter [OF assms(1) undo cl(2) _ _ _ assms(2)]
            by (auto simp: implicit_enqueue_def Let_def)
        next
          case None
          let ?q = "(set_entry_value slot (Some b) q)\<lparr>tailBlock := Some b, tailIndex := Suc ?t\<rparr>"
          let ?P = "upd_block b (construct_at tr ?t x) (upd_block b (reset_empty tr implicit_context) P2)"
          have c1: "ip_core tr W ?h ?t xs p P1"
            using ip_core_own [OF c] by (intro ip_core_frame [OF c ip(1) P1(1)]) (simp add: P1(2))
          have new: "iindex_ok tr (W(?n := b)) ?lo (Suc ?n) ?q" using cl(1) by simp
          note pn = ip_push_new [OF c1 assms(3) rb [unfolded b] new, of x]
          have k: "?t div BLOCK_SIZE tr = ?n" using nonzero_mult_div_cancel_right [of "BLOCK_SIZE tr" ?n] B(1) t by simp
          have "ip_rep tr (W(?n := b)) (xs @ [x]) ?q ?P"
            using pn(1) assms(1,3) B(1) k by (simp add: ip_rep_def sc tail_full_def block_offset_def mod_Suc div_Suc)
          moreover have "frame_step ?own P (ip_own tr (W(?n := b)) (headIndex ?q) (tailIndex ?q)) ?P"
            using frame_step_trans [OF frame_step_own [OF ip_core_own [OF c] ip(2,1)] pn(2)] by (simp add: sc)
          moreover have "r = Inr True" "p' = ?q" "P' = ?P"
            using room i \<open>s = Some slot\<close> rb b None assms(3,4) sc by (simp_all add: implicit_enqueue_def Let_def)
          ultimately show ?thesis using assms(2) by (simp add: implicit_stepI del: upd_block_heap)
        qed
      qed
    qed
  qed
qed

lemma implicit_enqueue_ok:
  assumes "implicit_rep tr own xs p P" and "implicit_enqueue mo tr m th x p P = (r, p', P')"
  shows "implicit_step tr own P (if r = Inr True then xs @ [x] else xs) p' P'"
proof -
  obtain W where W: "ip_rep tr W xs p P" "own = ip_own tr W (headIndex p) (tailIndex p)" "BLOCK_SIZE tr < 2 ^ 63"
    using assms(1) by (auto simp: implicit_rep_def)
  let ?h = "headIndex p" and ?t = "tailIndex p" and ?lo = "headIndex p div BLOCK_SIZE tr" and ?n = "started tr (tailIndex p)"
  have c: "ip_core tr W ?h ?t xs p P" using W(1) by (simp add: ip_rep_def)
  then have B: "BLOCK_SIZE tr > 1" "pool_ok tr P" "iindex_ok tr W ?lo ?n p" "content tr implicit_context W ?lo ?n ?h ?t xs P"
    "inj_on W {?lo..<?n}" by (simp_all add: ip_core_def)
  show ?thesis
  proof (cases "block_offset tr ?t = 0")
    case True
    then show ?thesis using implicit_enqueue_new_block [OF W(1,3) True assms(2)] W(2) by simp
  next
    case False
    show ?thesis
    proof (cases "raised tr th")
      case (Some e)
      then show ?thesis using False assms(2) ip_rep_stutter [OF W(1) same_counters_refl B(3,2) refl _ W(3)] W(2)
        by (auto simp: implicit_enqueue_def same_blocks_def)
    next
      case None
      let ?q = "p\<lparr>tailIndex := Suc ?t\<rparr>" and ?k = "?t div BLOCK_SIZE tr"
      let ?P = "upd_block (W ?k) (construct_at tr ?t x) P"
      have n: "?n = Suc ?k" "started tr (Suc ?t) = ?n" using started_inside [of tr ?t] B(1) False by (simp_all add: block_offset_def)
      have lo: "?lo \<le> ?k" using B(4) by (simp add: content_def div_le_mono)
      have "tailBlock p = Some (W ?k)" using W(1) False by (simp add: ip_rep_def)
      then have res: "r = Inr True" "p' = ?q" "P' = ?P" using False None assms(2) by (simp_all add: implicit_enqueue_def)
      have "content tr implicit_context W ?lo ?n ?h (Suc ?t) (xs @ [x]) ?P"
        using B lo n by (intro content_push [OF B(4)]) simp_all
      then have "ip_core tr W ?h (Suc ?t) (xs @ [x]) ?q ?P"
        using c n upd_elements_ok [OF B(2)] by (simp add: ip_core_def del: upd_block_heap)
      then have "ip_rep tr W (xs @ [x]) ?q ?P"
        using W(1) False \<open>tailBlock p = Some (W ?k)\<close> by (auto simp: ip_rep_def tail_full_def block_offset_def div_Suc simp del: upd_block_heap)
      moreover have "same_blocks (in_use P - own) P ?P" using n lo by (auto simp: W(2) ip_own_def same_blocks_def)
      then have "frame_step own P own ?P"
        using ip_core_own [OF c] upd_elements_ok(2) [OF B(2)] W(2) by (intro frame_step_own) simp_all
      then have "frame_step own P (ip_own tr W (headIndex ?q) (tailIndex ?q)) ?P" using n(2) W(2) by (simp add: ip_own_def)
      ultimately show ?thesis using W(3) res by (simp add: implicit_stepI del: upd_block_heap)
    qed
  qed
qed

section \<open>Dequeue\<close>

lemma slot_of_neq:
  assumes "f < S" and "k < k'" and "k' < n" and "n - k \<le> S"
  shows "slot_of S f n k \<noteq> slot_of S f n k'"
  unfolding slot_of_def using assms by (subst (1 2) circ_sub) auto

lemma iindex_release:
  assumes "iindex_ok tr W lo n p" and "lo \<le> k" and "k < n" and "slot = slot_of (capacity p) (Suc (ip_tail p) mod capacity p) n k"
  shows "iindex_ok tr W (Suc k) n (set_entry_value slot None p)"
proof -
  let ?C = "capacity p" and ?f = "Suc (ip_tail p) mod capacity p"
  have raw: "ip_raw p" using assms(1-3) by (auto simp: iindex_ok_def split: if_splits)
  have ix: "n - lo \<le> ?C" "ip_tail p < ?C" "\<And>j. lo \<le> j \<Longrightarrow> j < n \<Longrightarrow> ip_index p ! slot_of ?C ?f n j = (j * BLOCK_SIZE tr, Some (W j))"
    using assms(1) raw by (simp_all add: iindex_ok_def)
  have "(ip_index p)[slot := v] ! slot_of ?C ?f n j = (j * BLOCK_SIZE tr, Some (W j))" if "Suc k \<le> j" "j < n" for j v
  proof -
    have "slot \<noteq> slot_of ?C ?f n j" unfolding assms(4) using that ix(1,2) assms(2) by (intro slot_of_neq) auto
    then show ?thesis using ix(3) [of j] that assms(2) by simp
  qed
  then show ?thesis using assms(1-3) raw by (auto simp: iindex_ok_def set_entry_value_def capacity_def)
qed

lemma slot_of_last: "t < C \<Longrightarrow> 0 < n \<Longrightarrow> slot_of C (Suc t mod C) n (n - 1) = t"
  unfolding slot_of_def by (cases "Suc t = C") auto

lemma get_slot_ok:
  assumes "iindex_ok tr W lo n p" and "BLOCK_SIZE tr > 0" and "lo \<le> h div BLOCK_SIZE tr" and "h div BLOCK_SIZE tr < n"
  shows "get_block_index_index_for_index tr h p = slot_of (capacity p) (Suc (ip_tail p) mod capacity p) n (h div BLOCK_SIZE tr)"
proof -
  let ?C = "capacity p" and ?f = "Suc (ip_tail p) mod capacity p" and ?k = "h div BLOCK_SIZE tr"
  have raw: "ip_raw p" using assms(1,3,4) by (auto simp: iindex_ok_def split: if_splits)
  have ix: "n - lo \<le> ?C" "ip_tail p < ?C" "\<And>j. lo \<le> j \<Longrightarrow> j < n \<Longrightarrow> ip_index p ! slot_of ?C ?f n j = (j * BLOCK_SIZE tr, Some (W j))"
    using assms(1) raw by (simp_all add: iindex_ok_def)
  have last: "slot_of ?C ?f n (n - 1) = ip_tail p" using ix(2) assms(4) by (intro slot_of_last) simp_all
  then have "fst (ip_index p ! ip_tail p) = (n - 1) * BLOCK_SIZE tr" using ix(3) [of "n - 1"] assms(3,4) by simp
  moreover have "(int (?k * BLOCK_SIZE tr) - int ((n - 1) * BLOCK_SIZE tr)) div int (BLOCK_SIZE tr) = int ?k - int (n - 1)"
    using assms(2) by (simp add: left_diff_distrib [symmetric])
  moreover have "block_base tr h = ?k * BLOCK_SIZE tr" by (simp add: block_base_def minus_mod_eq_div_mult)
  ultimately show ?thesis using slot_of_offset [of ?C ?k n ?f] ix(1,2) assms(3,4) last
    by (simp add: get_block_index_index_for_index_def Let_def)
qed

lemma holds_is_empty:
  assumes "holds tr ctx e t xs k b" and "BLOCK_SIZE tr > 0"
  shows "is_empty tr ctx b \<longleftrightarrow> Suc k * BLOCK_SIZE tr \<le> e"
proof -
  have "{j. j < BLOCK_SIZE tr \<and> k * BLOCK_SIZE tr + j < e} = {..<BLOCK_SIZE tr} \<longleftrightarrow> Suc k * BLOCK_SIZE tr \<le> e"
  proof
    assume "{j. j < BLOCK_SIZE tr \<and> k * BLOCK_SIZE tr + j < e} = {..<BLOCK_SIZE tr}"
    then have "BLOCK_SIZE tr - 1 \<in> {j. j < BLOCK_SIZE tr \<and> k * BLOCK_SIZE tr + j < e}" using assms(2) by simp
    then show "Suc k * BLOCK_SIZE tr \<le> e" by auto
  qed auto
  moreover have "emptied tr ctx b {j. j < BLOCK_SIZE tr \<and> k * BLOCK_SIZE tr + j < e}" using assms(1) by (simp add: holds_def)
  ultimately show ?thesis by (simp only: emptied_is_empty)
qed

lemma implicit_now_empty:
  "BLOCK_SIZE tr > 0 \<Longrightarrow> snd (set_empty tr implicit_context i b) = is_empty tr implicit_context (fst (set_empty tr implicit_context i b))"
  "snd (set_many_empty tr implicit_context i c b) = is_empty tr implicit_context (fst (set_many_empty tr implicit_context i c b))"
  by (auto simp: set_empty_def set_many_empty_def is_empty_def uses_flags_def)

lemma release_sets:
  assumes "own = insert b A" and "b \<notin> A" and "own \<subseteq> U" and "U' = U - {b}"
  shows "A \<subseteq> U'" and "U' = (U - own) \<union> A" and "A \<inter> (U - own) = {}"
  using assms by auto

text \<open>The elements from \<open>h\<close> to \<open>e\<close> of the first block leave it; the block is given back when they are its last.\<close>

lemma ip_consume:
  assumes "ip_core tr W h t xs p P" and "k = h div BLOCK_SIZE tr" and "h < e" and "e \<le> t" and "e \<le> Suc k * BLOCK_SIZE tr"
    and "holds tr implicit_context e t (drop (e - h) xs) k blk"
    and "slot = slot_of (capacity p) (Suc (ip_tail p) mod capacity p) (started tr t) k"
    and "release_if tr (is_empty tr implicit_context blk) slot (W k) p (upd_block (W k) (\<lambda>_. blk) P) = (p', P')"
    and "dynamicallyAllocated blk = dynamicallyAllocated (heap P (W k))"
  shows "ip_core tr W e t (drop (e - h) xs) p' P'" and "frame_step (ip_own tr W h t) P (ip_own tr W e t) P'"
    and "p' = p \<or> p' = set_entry_value slot None p"
proof -
  let ?n = "started tr t" and ?P = "upd_block (W k) (\<lambda>_. blk) P"
  have c: "BLOCK_SIZE tr > 1" "pool_ok tr P" "inj_on W {k..<?n}" "W ` {k..<?n} \<subseteq> in_use P"
    "content tr implicit_context W k ?n h t xs P" "iindex_ok tr W k ?n p" using assms(1,2) by (simp_all add: ip_core_def)
  have B: "BLOCK_SIZE tr > 0" using c(1) by simp
  have k: "k < ?n" using below_started [OF B, of h t] assms(2-4) by simp
  have kb: "k * BLOCK_SIZE tr \<le> h" using in_block(1) [OF B] assms(2) by simp
  have blen: "length (elements blk) = BLOCK_SIZE tr" using assms(6) by (simp add: holds_def)
  have ok: "pool_ok tr ?P" "in_use ?P = in_use P" using upd_block_ok [OF c(2), of "\<lambda>_. blk" "W k"] blen assms(9) by simp_all
  have con: "content tr implicit_context W k ?n e t (drop (e - h) xs) ?P"
    using assms(3-6) k kb by (intro content_pop [OF c(5,3)]) auto
  have wk: "W k \<in> in_use P" using c(4) k by auto
  have em: "is_empty tr implicit_context blk \<longleftrightarrow> e = Suc k * BLOCK_SIZE tr"
    using holds_is_empty [OF assms(6) B] assms(5) by auto
  have "ip_core tr W e t (drop (e - h) xs) p' P' \<and> frame_step (ip_own tr W h t) P (ip_own tr W e t) P'
      \<and> (p' = p \<or> p' = set_entry_value slot None p)"
  proof (cases "e = Suc k * BLOCK_SIZE tr")
    case True
    then have r: "p' = set_entry_value slot None p" "P' = add_block_to_free_list tr (W k) ?P"
      using assms(8) em by (simp_all add: release_if_def)
    note a = add_block_ok [OF ok(1), of "W k", unfolded ok(2), OF wk, folded r]
    have lo: "e div BLOCK_SIZE tr = Suc k" using True B by simp
    have "{k..<?n} = insert k {Suc k..<?n}" using k by auto
    then have split: "W ` {k..<?n} = insert (W k) (W ` {Suc k..<?n})" by simp
    have fresh: "W k \<notin> W ` {Suc k..<?n}" using inj_onD [OF c(3), of k] k by fastforce
    have "content tr implicit_context W (Suc k) ?n e t (drop (e - h) xs) P'" using con True a(3) by (simp add: content_def)
    moreover have "inj_on W {Suc k..<?n}" using c(3) by (rule inj_on_subset) auto
    moreover have "W ` {Suc k..<?n} \<subseteq> in_use P'" using release_sets(1) [OF split fresh c(4) a(2)] .
    moreover have "iindex_ok tr W (Suc k) ?n p'" unfolding r using iindex_release [OF c(6) _ k assms(7)] by simp
    moreover have "frame_step (W ` {k..<?n}) P (W ` {Suc k..<?n}) P'"
      using release_sets [OF split fresh c(4) a(2)] c(4) a(3) split by (auto simp: frame_step_def same_blocks_def)
    ultimately show ?thesis using c(1) a(1) r(1) lo assms(2) by (simp add: ip_core_def ip_own_def)
  next
    case False
    then have r: "p' = p" "P' = ?P" using assms(8) em by (simp_all add: release_if_def)
    have lo: "e div BLOCK_SIZE tr = k"
      using False assms(3,5) kb by (intro block_number(1) [of "e - k * BLOCK_SIZE tr"]) auto
    have "frame_step (W ` {k..<?n}) P (W ` {k..<?n}) ?P"
      using c(4) ok(2) k by (intro frame_step_own) (auto simp: same_blocks_def)
    then show ?thesis using c ok con r lo assms(2) by (simp add: ip_core_def ip_own_def del: upd_block_heap)
  qed
  then show "ip_core tr W e t (drop (e - h) xs) p' P'" and "frame_step (ip_own tr W h t) P (ip_own tr W e t) P'"
    and "p' = p \<or> p' = set_entry_value slot None p" by simp_all
qed

lemma ip_core_counters [simp]:
  "ip_core tr W h t xs (p\<lparr>headIndex := a\<rparr>) P = ip_core tr W h t xs p P"
  "ip_core tr W h t xs (p\<lparr>dequeueOptimisticCount := a\<rparr>) P = ip_core tr W h t xs p P"
  by (simp_all add: ip_core_def)

lemma capacity_simps [simp]:
  "capacity (p\<lparr>headIndex := a\<rparr>) = capacity p" "capacity (p\<lparr>dequeueOptimisticCount := a\<rparr>) = capacity p"
  "capacity (set_entry_value s v p) = capacity p" "ip_tail (set_entry_value s v p) = ip_tail p"
  by (simp_all add: capacity_def set_entry_value_def)

text \<open>The block of the head: its slot in the index, its number and what it holds.\<close>

lemma ip_head_block:
  assumes "ip_core tr W h t xs p P" and "h < t"
  defines "k \<equiv> h div BLOCK_SIZE tr"
  defines "slot \<equiv> slot_of (capacity p) (Suc (ip_tail p) mod capacity p) (started tr t) k"
  shows "get_block_index_index_for_index tr h p = slot" and "snd (ip_index p ! slot) = Some (W k)"
    and "holds tr implicit_context h t xs k (heap P (W k))" and "BLOCK_SIZE tr > 0" and "length xs = t - h"
    and "0 < capacity p" and "started tr t - k \<le> capacity p" and "k < started tr t"
proof -
  have c: "BLOCK_SIZE tr > 1" "iindex_ok tr W k (started tr t) p" "content tr implicit_context W k (started tr t) h t xs P"
    using assms(1) by (simp_all add: ip_core_def k_def)
  show B: "BLOCK_SIZE tr > 0" using c(1) by simp
  show k: "k < started tr t" unfolding k_def using below_started [OF B assms(2)] .
  show "get_block_index_index_for_index tr h p = slot" unfolding slot_def k_def
    using get_slot_ok [OF c(2) B] k by (simp add: k_def)
  show "snd (ip_index p ! slot) = Some (W k)" "started tr t - k \<le> capacity p" "0 < capacity p"
    using c(2) k by (auto simp: iindex_ok_def slot_def split: if_splits)
  show "holds tr implicit_context h t xs k (heap P (W k))" "length xs = t - h" using c(3) k by (simp_all add: content_def)
qed

lemma implicit_dequeue_ok:
  assumes "implicit_rep tr own xs p P" and "length xs < 2 ^ 63" and "implicit_dequeue tr p P = (r, p', P')"
  shows "r = (if xs = [] then (False, None) else (True, Some (hd xs)))" and "implicit_step tr own P (tl xs) p' P'"
proof -
  obtain W where W: "ip_rep tr W xs p P" "own = ip_own tr W (headIndex p) (tailIndex p)" "BLOCK_SIZE tr < 2 ^ 63"
    using assms(1) by (auto simp: implicit_rep_def)
  let ?h = "headIndex p" and ?t = "tailIndex p"
  have c: "ip_core tr W ?h ?t xs p P" and d: "dequeueOptimisticCount p = ?h + dequeueOvercommit p" using W(1) by (simp_all add: ip_rep_def)
  have len: "?h \<le> ?t" "length xs = ?t - ?h" using c by (simp_all add: ip_core_def content_def)
  have "r = (if xs = [] then (False, None) else (True, Some (hd xs))) \<and> implicit_step tr own P (tl xs) p' P'"
  proof (cases "xs = []")
    case True
    then have "\<not> index_less (dequeueOptimisticCount p - dequeueOvercommit p) ?t" using len d by (simp add: index_less_def)
    moreover have "frame_step own P own P" using frame_step_refl ip_core_own [OF c] W(2) by simp
    ultimately show ?thesis using True assms(1,3) by (auto simp: implicit_dequeue_def Let_def implicit_step_def)
  next
    case False
    then have lt: "?h < ?t" using len by (cases xs) simp_all
    then have il: "index_less (dequeueOptimisticCount p - dequeueOvercommit p) ?t"
      using len d assms(2) by (simp add: index_less_def)
    let ?p = "p\<lparr>dequeueOptimisticCount := dequeueOptimisticCount p + 1, headIndex := ?h + 1\<rparr>" and ?k = "?h div BLOCK_SIZE tr"
    have c': "ip_core tr W ?h ?t xs ?p P" using c by simp
    note hb = ip_head_block [OF c' lt]
    define slot where "slot = slot_of (capacity ?p) (Suc (ip_tail ?p) mod capacity ?p) (started tr ?t) ?k"
    define blk where "blk = fst (set_empty tr implicit_context ?h (destroy_at tr ?h (heap P (W ?k))))"
    note mark = holds_mark_one [OF hb(3,4) refl lt hb(5)]
    have ne: "snd (set_empty tr implicit_context ?h (destroy_at tr ?h (heap P (W ?k)))) = is_empty tr implicit_context blk"
      unfolding blk_def by (rule implicit_now_empty(1) [OF hb(4)])
    have res: "r = (True, block_at tr (heap P (W ?k)) ?h)"
       "release_if tr (is_empty tr implicit_context blk) slot (W ?k) ?p (upd_block (W ?k) (\<lambda>_. blk) P) = (p', P')"
      using assms(3) il hb(1,2) ne by (auto simp: implicit_dequeue_def Let_def slot_def blk_def split: prod.splits)
    have e: "Suc ?h \<le> ?t" "Suc ?h \<le> Suc ?k * BLOCK_SIZE tr" using lt in_block(2) [OF hb(4) refl] by simp_all
    have dyn: "dynamicallyAllocated blk = dynamicallyAllocated (heap P (W ?k))" by (simp add: blk_def)
    note con = ip_consume [OF c' refl _ e mark(1) [folded blk_def] _ res(2) dyn, OF _ slot_def, simplified]
    have "headIndex p' = Suc ?h" "tailIndex p' = ?t" "tailBlock p' = tailBlock p"
       "dequeueOptimisticCount p' = Suc (dequeueOptimisticCount p)" "dequeueOvercommit p' = dequeueOvercommit p"
      using con(3) by auto
    then have "ip_rep tr W (tl xs) p' P'" "frame_step own P (ip_own tr W (headIndex p') (tailIndex p')) P'"
      using con(1,2) W(1,2) d lt by (simp_all add: ip_rep_def tail_full_def drop_Suc)
    then show ?thesis using False res(1) mark(2) W(3) implicit_stepI by auto
  qed
  then show "r = (if xs = [] then (False, None) else (True, Some (hd xs)))" and "implicit_step tr own P (tl xs) p' P'" by simp_all
qed

section \<open>Bulk dequeue\<close>

text \<open>What the block loop changes of the producer: entries of the index lose their blocks.\<close>

definition same_but_values :: "iproducer \<Rightarrow> iproducer \<Rightarrow> bool" where
  "same_but_values p p' \<longleftrightarrow> (\<exists>e. length e = capacity p \<and> p' = p\<lparr>ip_index := e\<rparr>)"

lemma same_but_values_refl: "same_but_values p p"
  by (cases p) (auto simp: same_but_values_def capacity_def)

lemma same_but_values_release: "p' = p \<or> p' = set_entry_value s v p \<Longrightarrow> same_but_values p p'"
proof (elim disjE)
  assume "p' = set_entry_value s v p"
  then have "p' = p\<lparr>ip_index := (ip_index p)[s := (fst (ip_index p ! s), v)]\<rparr>" by (simp add: set_entry_value_def)
  moreover have "length ((ip_index p)[s := (fst (ip_index p ! s), v)]) = capacity p" by (simp add: capacity_def)
  ultimately show "same_but_values p p'" unfolding same_but_values_def by blast
qed (simp add: same_but_values_refl)

lemma same_but_values_trans: "same_but_values p p' \<Longrightarrow> same_but_values p' p'' \<Longrightarrow> same_but_values p p''"
  by (auto simp: same_but_values_def capacity_def)

lemma same_but_values_simps:
  assumes "same_but_values p p'"
  shows "capacity p' = capacity p" "ip_tail p' = ip_tail p" "headIndex p' = headIndex p" "tailIndex p' = tailIndex p"
    "tailBlock p' = tailBlock p" "dequeueOptimisticCount p' = dequeueOptimisticCount p" "dequeueOvercommit p' = dequeueOvercommit p"
  using assms by (auto simp: same_but_values_def capacity_def)

definition bulk_ok :: "traits \<Rightarrow> (nat \<Rightarrow> nat) \<Rightarrow> nat \<Rightarrow> nat \<Rightarrow> nat \<Rightarrow> 'a list \<Rightarrow> iproducer \<Rightarrow> 'a pool \<Rightarrow> 'a option list \<times> iproducer \<times> 'a pool \<Rightarrow> bool" where
  "bulk_ok tr W index stop t xs p P res \<longleftrightarrow>
     (case res of (items, p', P') \<Rightarrow>
        items = map Some (take (stop - index) xs) \<and> ip_core tr W stop t (drop (stop - index) xs) p' P'
        \<and> frame_step (ip_own tr W index t) P (ip_own tr W stop t) P' \<and> same_but_values p p')"

lemma implicit_bulk_blocks_ok:
  assumes "stop \<le> t" and "BLOCK_SIZE tr < 2 ^ 63"
  shows "ip_core tr W index t xs p P \<Longrightarrow> index < stop \<Longrightarrow> stop - index \<le> rounds \<Longrightarrow>
    slot = slot_of (capacity p) (Suc (ip_tail p) mod capacity p) (started tr t) (index div BLOCK_SIZE tr) \<Longrightarrow>
    bulk_ok tr W index stop t xs p P (implicit_bulk_blocks rounds tr stop index slot p P)"
proof (induction rounds arbitrary: index slot xs p P)
  case (Suc rounds)
  let ?k = "index div BLOCK_SIZE tr" and ?B = "BLOCK_SIZE tr"
  define e where "e = (if stop < Suc ?k * ?B then stop else Suc ?k * ?B)"
  have lt: "index < t" using Suc.prems(2) assms(1) by simp
  note hb = ip_head_block [OF Suc.prems(1) lt, folded Suc.prems(4)]
  note ib = in_block [OF hb(4) refl, of index]
  have e: "index < e" "e \<le> t" "e \<le> Suc ?k * ?B" "e \<le> stop" using ib(2) Suc.prems(2) assms(1) by (simp_all add: e_def split: if_split)
  define blk now where "blk = fst (set_many_empty tr implicit_context index (e - index) (fold (destroy_at tr) [index..<e] (heap P (W ?k))))"
    and "now = is_empty tr implicit_context blk"
  note mark = holds_mark_many [OF hb(3,4) refl e(1,2,3) hb(5), folded blk_def]
  obtain p1 P1 where rel: "release_if tr now slot (W ?k) p (upd_block (W ?k) (\<lambda>_. blk) P) = (p1, P1)" by (metis prod.exhaust)
  have dyn: "dynamicallyAllocated blk = dynamicallyAllocated (heap P (W ?k))" by (simp add: blk_def)
  note con = ip_consume [OF Suc.prems(1) refl e(1-3) mark(1) Suc.prems(4) rel [unfolded now_def] dyn]
  note same = same_but_values_release [OF con(3)] and sv = same_but_values_simps [OF same_but_values_release [OF con(3)]]
  have many: "set_many_empty tr implicit_context index (e - index) (fold (destroy_at tr) [index..<e] (heap P (W ?k))) = (blk, now)"
    unfolding now_def blk_def by (rule prod_eqI) (simp_all add: implicit_now_empty(2))
  have base: "block_base tr index + ?B = Suc ?k * ?B" by (simp add: block_base_def minus_mod_eq_div_mult)
  have "Suc ?k * ?B - stop < 2 ^ 63" if "stop < Suc ?k * ?B"
    using ib(1) Suc.prems(2) assms(2) unfolding mult_Suc by linarith
  then have end_eq: "(if index_less stop (Suc ?k * ?B) then stop else Suc ?k * ?B) = e" by (auto simp: index_less_def e_def)
  have unfold: "implicit_bulk_blocks (Suc rounds) tr stop index slot p P =
      (if e = stop then (map Some (take (e - index) xs), p1, P1)
       else case implicit_bulk_blocks rounds tr stop e ((slot + 1) mod capacity p1) p1 P1 of
              (rest, p, P) \<Rightarrow> (map Some (take (e - index) xs) @ rest, p, P))"
    by (simp only: implicit_bulk_blocks.simps Let_def base end_eq hb(2) option.sel many prod.case rel mark(2))
  show ?case
  proof (cases "e = stop")
    case True
    then show ?thesis using unfold con(1,2) same by (simp del: implicit_bulk_blocks.simps add: bulk_ok_def)
  next
    case False
    then have e': "e = Suc ?k * ?B" "e < stop" using e(4) by (simp_all add: e_def split: if_splits)
    have num: "e div ?B = Suc ?k" unfolding e'(1) using hb(4) by simp
    have "(slot + 1) mod capacity p1 = slot_of (capacity p1) (Suc (ip_tail p1) mod capacity p1) (started tr t) (e div ?B)"
      unfolding Suc.prems(4) num sv using hb(6-8) by (intro slot_of_Suc) auto
    moreover have "stop - e \<le> rounds" using Suc.prems(3) e(1) e'(2) by simp
    ultimately have "bulk_ok tr W e stop t (drop (e - index) xs) p1 P1 (implicit_bulk_blocks rounds tr stop e ((slot + 1) mod capacity p1) p1 P1)"
      by (intro Suc.IH con(1) e'(2))
    then obtain p2 P2 where
      rest: "implicit_bulk_blocks rounds tr stop e ((slot + 1) mod capacity p1) p1 P1 = (map Some (take (stop - e) (drop (e - index) xs)), p2, P2)"
      and r: "ip_core tr W stop t (drop (stop - e) (drop (e - index) xs)) p2 P2" "frame_step (ip_own tr W e t) P1 (ip_own tr W stop t) P2"
        "same_but_values p1 p2"
      unfolding bulk_ok_def by (auto split: prod.splits)
    have split: "stop - index = (e - index) + (stop - e)" using e(1) e'(2) by simp
    have "implicit_bulk_blocks (Suc rounds) tr stop index slot p P = (map Some (take (stop - index) xs), p2, P2)"
      unfolding unfold rest using False by (simp only: split take_add map_append if_False prod.case)
    moreover have "drop (stop - e) (drop (e - index) xs) = drop (stop - index) xs" unfolding split by (simp only: drop_drop add.commute)
    ultimately show ?thesis
      using r frame_step_trans [OF con(2) r(2)] same_but_values_trans [OF same r(3)] by (simp only: bulk_ok_def prod.case simp_thms)
  qed
qed simp


lemma implicit_bulk_blocks_none:
  assumes "ip_core tr W i t xs p P" and "i < t" and "BLOCK_SIZE tr < 2 ^ 63"
    and "slot = slot_of (capacity p) (Suc (ip_tail p) mod capacity p) (started tr t) (i div BLOCK_SIZE tr)"
  shows "implicit_bulk_blocks (Suc r) tr i i slot p P = ([], p, P)"
proof -
  note hb = ip_head_block [OF assms(1,2), folded assms(4)]
  have "i mod BLOCK_SIZE tr < BLOCK_SIZE tr" using hb(4) by simp
  moreover have "i mod BLOCK_SIZE tr \<le> i" by simp
  ultimately have "i < block_base tr i + BLOCK_SIZE tr" "block_base tr i + BLOCK_SIZE tr - i < 2 ^ 63"
    using assms(3) unfolding block_base_def by linarith+
  then have il: "index_less i (block_base tr i + BLOCK_SIZE tr)" by (simp only: index_less_def)
  have "\<not> is_empty tr implicit_context (heap P (W (i div BLOCK_SIZE tr)))"
    using holds_is_empty [OF hb(3,4)] in_block(2) [OF hb(4) refl, of i] by simp
  then have "set_many_empty tr implicit_context i 0 (heap P (W (i div BLOCK_SIZE tr))) = (heap P (W (i div BLOCK_SIZE tr)), False)"
    by (simp add: set_many_empty_def uses_flags_def is_empty_def)
  moreover have "upd_block b (\<lambda>_. heap P b) P = P" for b by (simp add: upd_block_def)
  ultimately show ?thesis using il hb(2) by (simp add: release_if_def)
qed

lemma implicit_dequeue_bulk_ok:
  assumes "implicit_rep tr own xs p P" and "length xs < 2 ^ 63" and "implicit_dequeue_bulk tr mx p P = (items, p', P')"
  shows "items = map Some (take mx xs)" and "implicit_step tr own P (drop mx xs) p' P'"
proof -
  obtain W where W: "ip_rep tr W xs p P" "own = ip_own tr W (headIndex p) (tailIndex p)" "BLOCK_SIZE tr < 2 ^ 63"
    using assms(1) by (auto simp: implicit_rep_def)
  let ?h = "headIndex p" and ?t = "tailIndex p" and ?c = "min (length xs) mx"
  have c: "ip_core tr W ?h ?t xs p P" and d: "dequeueOptimisticCount p = ?h + dequeueOvercommit p" using W(1) by (simp_all add: ip_rep_def)
  have len: "?h \<le> ?t" "length xs = ?t - ?h" using c by (simp_all add: ip_core_def content_def)
  let ?p = "p\<lparr>dequeueOptimisticCount := dequeueOptimisticCount p + ?c, headIndex := ?h + ?c\<rparr>"
  have refl_frame: "frame_step own P own P" using frame_step_refl ip_core_own [OF c] W(2) by simp
  have "items = map Some (take mx xs) \<and> implicit_step tr own P (drop mx xs) p' P'"
  proof (cases "xs = []")
    case True
    then show ?thesis using assms(1,3) len d refl_frame
      by (auto simp: implicit_dequeue_bulk_def index_less_def Let_def implicit_step_def)
  next
    case False
    then have lt: "?h < ?t" using len by (cases xs) simp_all
    have il: "index_less 0 (length xs)" using False assms(2) by (simp add: index_less_def)
    have c': "ip_core tr W ?h ?t xs ?p P" using c by simp
    note hb = ip_head_block [OF c' lt]
    have bulk: "implicit_dequeue_bulk tr mx p P
        = implicit_bulk_blocks (Suc ?c) tr (?h + ?c) ?h (get_block_index_index_for_index tr ?h ?p) ?p P"
    proof -
      have eq: "?t - (dequeueOptimisticCount p - dequeueOvercommit p) = length xs" using len d by simp
      have "min ?c (length xs) = ?c" by simp
      then show ?thesis using il unfolding implicit_dequeue_bulk_def Let_def
        by (simp del: implicit_bulk_blocks.simps add: eq)
    qed
    show ?thesis
    proof (cases "mx = 0")
      case True
      then have "implicit_dequeue_bulk tr mx p P = ([], p, P)"
        unfolding bulk hb(1) using implicit_bulk_blocks_none [OF c' lt W(3) refl] by (simp del: implicit_bulk_blocks.simps)
      then show ?thesis using assms(1,3) True refl_frame by (auto simp: implicit_step_def)
    next
      case False
      then have cc: "?h < ?h + ?c" "?h + ?c \<le> ?t" "?h + ?c - ?h \<le> Suc ?c" using \<open>xs \<noteq> []\<close> len by (cases xs; auto simp: min_def)+
      have ok: "bulk_ok tr W ?h (?h + ?c) ?t xs ?p P (items, p', P')"
        using implicit_bulk_blocks_ok [OF cc(2) W(3) c' cc(1,3) refl] assms(3) unfolding bulk hb(1) by (simp only:)
      then have b: "items = map Some (take ?c xs)" "ip_core tr W (?h + ?c) ?t (drop ?c xs) p' P'"
        "frame_step own P (ip_own tr W (?h + ?c) ?t) P'" "same_but_values ?p p'" by (simp_all add: bulk_ok_def W(2))
      note sv = same_but_values_simps [OF b(4)]
      have "take ?c xs = take mx xs" "drop ?c xs = drop mx xs" by (simp_all add: min_def)
      moreover have "ip_rep tr W (drop ?c xs) p' P'" using b(2) W(1) d sv cc(1,2) by (simp add: ip_rep_def tail_full_def)
      ultimately show ?thesis using b(1,3) W(3) sv by (auto intro!: implicit_stepI [where W = W])
    qed
  qed
  then show "items = map Some (take mx xs)" and "implicit_step tr own P (drop mx xs) p' P'" by simp_all
qed

section \<open>A new producer and the contract\<close>

lemma ImplicitProducer_ok:
  assumes "pool_ok tr P" and "traits_ok tr" and "BLOCK_SIZE tr < 2 ^ 63" and "ImplicitProducer mo tr P = (p, P')"
  shows "implicit_rep tr {} [] p P'" and "frame_step {} P {} P'"
proof -
  define q :: iproducer where "q = \<lparr>tailIndex = 0, headIndex = 0, dequeueOptimisticCount = 0, dequeueOvercommit = 0, tailBlock = None,
     ip_raw = False, ip_index = [], ip_tail = 0, nextBlockIndexCapacity = IMPLICIT_INITIAL_INDEX_SIZE tr\<rparr>"
  have B: "BLOCK_SIZE tr > 1" "IMPLICIT_INITIAL_INDEX_SIZE tr > 0" using assms(2) by (simp_all add: traits_ok_def)
  have st: "started tr 0 = 0" using started_times [of tr 0] B(1) by simp
  obtain ok where nb: "implicit_new_block_index mo q P = (ok, p, P')"
    using assms(4) unfolding ImplicitProducer_def Let_def q_def [symmetric] by (auto split: prod.splits)
  have ix: "iindex_ok tr (\<lambda>_. 0) 0 0 q" using B by (simp add: iindex_ok_def q_def)
  note n = implicit_new_index_ok [OF ix nb]
  have pool: "pool_ok tr P'" using mallocs_frame(3) [OF assms(1)] n(2) by simp
  have f: "tailIndex p = 0" "headIndex p = 0" "dequeueOptimisticCount p = 0" "dequeueOvercommit p = 0" using n(3) by (auto simp: q_def)
  then have "ip_rep tr (\<lambda>_. 0) [] p P'"
    using n(1) pool B st by (simp add: ip_rep_def tail_full_def ip_core_def content_def block_offset_def)
  then show "implicit_rep tr {} [] p P'" using assms(3) f st unfolding implicit_rep_def ip_own_def by (intro conjI exI [of _ "\<lambda>_. 0"]) simp_all
  show "frame_step {} P {} P'" using n(2) by (intro frame_step_own) (simp_all add: mallocs_frame)
qed

lemma implicit_rep_in_use: "implicit_rep tr own xs p P \<Longrightarrow> own \<subseteq> in_use P"
  unfolding implicit_rep_def ip_rep_def using ip_core_own by blast

lemma implicit_drained:
  assumes "implicit_rep tr own [] p P"
  shows "own \<subseteq> set_option (tailBlock p)"
proof -
  obtain W where W: "ip_rep tr W [] p P" "own = ip_own tr W (headIndex p) (tailIndex p)" using assms by (auto simp: implicit_rep_def)
  let ?t = "tailIndex p"
  have h: "headIndex p = ?t" and B: "BLOCK_SIZE tr > 0" using W(1) by (auto simp: ip_rep_def ip_core_def content_def)
  show ?thesis
  proof (cases "block_offset tr ?t = 0")
    case True
    then have "started tr ?t * BLOCK_SIZE tr = ?t" using started_boundary [OF B] by (simp add: block_offset_def)
    then have "?t div BLOCK_SIZE tr = started tr ?t" using B by (metis nonzero_mult_div_cancel_right less_not_refl)
    then show ?thesis using W(2) h by (simp add: ip_own_def)
  next
    case False
    then have "started tr ?t = Suc (?t div BLOCK_SIZE tr)" using started_inside(1) [OF B] by (simp add: block_offset_def)
    then show ?thesis using W h False by (auto simp: ip_own_def ip_rep_def)
  qed
qed

interpretation implicit_sub: sub_queue "implicit_rep tr" "implicit_enqueue mo tr m" "implicit_dequeue tr" "implicit_dequeue_bulk tr"
  for tr mo m
proof
  fix own xs and p :: iproducer and P P' :: "'a pool" and th x r p'
  assume rep: "implicit_rep tr own xs p P"
  then show "own \<subseteq> in_use P" by (rule implicit_rep_in_use)
  assume "implicit_enqueue mo tr m th x p P = (r, p', P')"
  from implicit_enqueue_ok [OF rep this]
  show "\<exists>own'. frame_step own P own' P' \<and> implicit_rep tr own' (if r = Inr True then xs @ [x] else xs) p' P'"
    by (simp only: implicit_step_def)
next
  fix own xs and p :: iproducer and P P' :: "'a pool" and r p'
  assume "implicit_rep tr own xs p P" "length xs < 2 ^ 63" "implicit_dequeue tr p P = (r, p', P')"
  from implicit_dequeue_ok [OF this]
  show "r = (if xs = [] then (False, None) else (True, Some (hd xs)))
      \<and> (\<exists>own'. frame_step own P own' P' \<and> implicit_rep tr own' (tl xs) p' P')" by (simp only: implicit_step_def simp_thms)
next
  fix own xs and p :: iproducer and P P' :: "'a pool" and mx items p'
  assume "implicit_rep tr own xs p P" "length xs < 2 ^ 63" "implicit_dequeue_bulk tr mx p P = (items, p', P')"
  from implicit_dequeue_bulk_ok [OF this]
  show "items = map Some (take mx xs) \<and> (\<exists>own'. frame_step own P own' P' \<and> implicit_rep tr own' (drop mx xs) p' P')"
    by (simp only: implicit_step_def simp_thms)
qed

section \<open>Properties\<close>

text \<open>
  First in, first out, for the sub-queue of a thread that enqueues without a token: the elements handed out are
  exactly the elements accepted, in order, whatever allocations fail and constructors throw; and when the
  queue is drained no full block is kept: the producer owns no block but the one its tail is in.
\<close>

theorem implicit_producer_fifo:
  assumes "pool_ok tr P" and "traits_ok tr" and "BLOCK_SIZE tr < 2 ^ 63" and "length ops < 2 ^ 63"
    and "ImplicitProducer mo tr P = (p, P1)"
    and "sub_run (implicit_enqueue mo tr m) (implicit_dequeue tr) (implicit_dequeue_bulk tr) ops p P1 = (acc, out, p', P')"
  shows "\<exists>own' ys zs. out = map Some zs \<and> acc = zs @ ys \<and> implicit_rep tr own' ys p' P' \<and> frame_step {} P own' P'
     \<and> (ys = [] \<longrightarrow> own' \<subseteq> set_option (tailBlock p'))"
proof -
  note e = ImplicitProducer_ok [OF assms(1-3,5)]
  from implicit_sub.run_fifo [OF e(1) _ assms(6)] assms(4) obtain own' ys zs where
    r: "frame_step {} P1 own' P'" "implicit_rep tr own' ys p' P'" "out = map Some zs" "acc = zs @ ys" by auto
  have "own' \<subseteq> set_option (tailBlock p')" if "ys = []" using implicit_drained r(2) that by blast
  then show ?thesis using frame_step_trans [OF e(2)] r by blast
qed


theorem implicit_producer_fifo_witness:
  "\<exists>p P1 acc out p' P' own' ys zs. ImplicitProducer (\<lambda>_. True) small_traits (empty_pool small_traits :: nat pool) = (p, P1)
     \<and> sub_run (implicit_enqueue (\<lambda>_. True) small_traits CanAlloc) (implicit_dequeue small_traits)
         (implicit_dequeue_bulk small_traits) [SubEnq None 7, SubEnq None 8, SubEnq (Some bad_alloc) 9, SubBulk 2] p P1 = (acc, out, p', P')
     \<and> out = map Some zs \<and> acc = zs @ ys \<and> implicit_rep small_traits own' ys p' P'"
proof -
  obtain p P1 where p: "ImplicitProducer (\<lambda>_. True) small_traits (empty_pool small_traits :: nat pool) = (p, P1)"
    by (metis prod.exhaust)
  obtain acc out p' P' where r: "sub_run (implicit_enqueue (\<lambda>_. True) small_traits CanAlloc) (implicit_dequeue small_traits)
      (implicit_dequeue_bulk small_traits) [SubEnq None 7, SubEnq None 8, SubEnq (Some bad_alloc) 9, SubBulk 2] p P1 = (acc, out, p', P')"
    by (metis prod_cases4)
  have "length [SubEnq None 7, SubEnq None 8, SubEnq (Some bad_alloc) 9, SubBulk 2 :: nat sub_op] < 2 ^ 63" by simp
  from implicit_producer_fifo [OF small_traits_ok this p r] show ?thesis using p r by blast
qed

end
