(* ===== verification/CQ_ImplicitBulk.thy ===== *)
theory CQ_ImplicitBulk
  imports CQ_BulkFill CQ_ImplicitFifo
begin

text \<open>
  \<open>enqueue_bulk\<close> of an implicit producer is all or nothing: when it succeeds its elements are at the end of the queue, in order; when
  memory runs out or a constructor throws, the index, the pool and the elements are as before.
\<close>

section \<open>Taking entries back\<close>

text \<open>The slot of block number \<open>k\<close> in a circular index of \<open>C\<close> slots, by the distance to a fixed origin.\<close>

definition epos :: "int \<Rightarrow> nat \<Rightarrow> nat \<Rightarrow> nat" where
  "epos origin C k = nat ((origin + int k) mod int C)"

lemma slot_epos:
  assumes "0 < C" and "k \<le> n" and "n - k \<le> C" and "int tail mod int C = (origin + int n - 1) mod int C"
  shows "slot_of C (Suc tail mod C) n k = epos origin C k"
proof -
  let ?d = "int C - (int n - int k)"
  have "int (slot_of C (Suc tail mod C) n k) = (int (Suc tail) mod int C + ?d) mod int C"
    using assms(2,3) by (simp add: slot_of_def zmod_int of_nat_diff algebra_simps)
  also have "\<dots> = (int (Suc tail) + ?d) mod int C" by (rule mod_add_left_eq)
  also have "int (Suc tail) + ?d = int tail + (1 - int n + int k) + int C" by simp
  also have "\<dots> mod int C = (int tail + (1 - int n + int k)) mod int C" by (rule mod_add_self2)
  also have "\<dots> = (int tail mod int C + (1 - int n + int k)) mod int C" by (rule mod_add_left_eq [symmetric])
  also have "\<dots> = (origin + int n - 1 + (1 - int n + int k)) mod int C" unfolding assms(4) by (rule mod_add_left_eq)
  also have "origin + int n - 1 + (1 - int n + int k) = origin + int k" by simp
  finally have "int (slot_of C (Suc tail mod C) n k) = (origin + int k) mod int C" .
  then show ?thesis unfolding epos_def by (metis nat_int)
qed

lemma epos_less: "0 < C \<Longrightarrow> epos origin C k < C"
  by (simp add: epos_def nat_less_iff)

lemma epos_inj:
  assumes "0 < C" and "i < j" and "j - i < C"
  shows "epos origin C i \<noteq> epos origin C j"
proof
  assume "epos origin C i = epos origin C j"
  then have "(origin + int i) mod int C = (origin + int j) mod int C" using assms(1) by (simp add: epos_def eq_nat_nat_iff)
  then have "int C dvd (origin + int j) - (origin + int i)" by (metis mod_eq_dvd_iff)
  then have "int C dvd int (j - i)" using assms(2) by (simp add: of_nat_diff)
  then have "C dvd j - i" by (simp only: int_dvd_int_iff)
  then show False using assms(2,3) by (auto dest: dvd_imp_le)
qed

text \<open>The index when the entries of the first \<open>i\<close> of the blocks numbered \<open>n\<close> to \<open>m\<close> have been taken back.\<close>

definition undoing :: "traits \<Rightarrow> (nat \<Rightarrow> nat) \<Rightarrow> nat \<Rightarrow> nat \<Rightarrow> nat \<Rightarrow> int \<Rightarrow> nat \<Rightarrow> iproducer \<Rightarrow> bool" where
  "undoing tr W lo n m origin i p \<longleftrightarrow>
     ip_raw p \<and> nextBlockIndexCapacity p = 2 * capacity p \<and> 0 < capacity p \<and> m - lo \<le> capacity p \<and> lo \<le> n \<and> n + i \<le> m
     \<and> int (ip_tail p) = (origin + int m - 1 - int i) mod int (capacity p)
     \<and> (\<forall>k. lo \<le> k \<and> k < m \<longrightarrow> ip_index p ! epos origin (capacity p) k = (k * BLOCK_SIZE tr, if n \<le> k \<and> k < n + i then None else Some (W k)))"

lemma undoing_start:
  assumes "iindex_ok tr W lo m p" and "lo \<le> n" and "n < m"
  shows "undoing tr W lo n m (int (ip_tail p) + 1 - int m) 0 p"
proof -
  have raw: "ip_raw p" using assms by (auto simp: iindex_ok_def split: if_splits)
  then have ix: "nextBlockIndexCapacity p = 2 * capacity p" "m - lo \<le> capacity p" "ip_tail p < capacity p"
    "\<And>k. lo \<le> k \<Longrightarrow> k < m \<Longrightarrow> ip_index p ! slot_of (capacity p) (Suc (ip_tail p) mod capacity p) m k = (k * BLOCK_SIZE tr, Some (W k))"
    using assms(1) by (simp_all add: iindex_ok_def)
  have "slot_of (capacity p) (Suc (ip_tail p) mod capacity p) m k = epos (int (ip_tail p) + 1 - int m) (capacity p) k" if "lo \<le> k" "k < m" for k
    using that ix(2,3) by (intro slot_epos) auto
  then show ?thesis using raw ix assms(2,3) by (auto simp: undoing_def)
qed

lemma undoing_end:
  assumes "undoing tr W lo n m origin (m - n) p" and "n \<le> m"
  shows "iindex_ok tr W lo n p"
proof -
  let ?C = "capacity p"
  have last: "origin + int m - 1 - int (m - n) = origin + int n - 1" using assms(2) by simp
  have u: "ip_raw p" "nextBlockIndexCapacity p = 2 * ?C" "0 < ?C" "m - lo \<le> ?C" "lo \<le> n"
    "int (ip_tail p) = (origin + int n - 1) mod int ?C"
    using assms(1) unfolding undoing_def last by blast+
  have entries: "ip_index p ! epos origin ?C k = (k * BLOCK_SIZE tr, Some (W k))" if "lo \<le> k" "k < n" for k
    using assms that by (simp add: undoing_def)
  have "n - lo \<le> ?C" using u(4) assms(2) by linarith
  moreover have "int (ip_tail p) < int ?C" using u(3) unfolding u(6) by simp
  then have "ip_tail p < ?C" by (simp only: of_nat_less_iff)
  moreover have "slot_of ?C (Suc (ip_tail p) mod ?C) n k = epos origin ?C k" if "lo \<le> k" "k < n" for k
    using that u(3,4,6) assms(2) by (intro slot_epos) (simp_all add: mod_simps)
  ultimately show ?thesis using u entries assms(2) by (simp add: iindex_ok_def)
qed

lemma undoing_step:
  assumes "undoing tr W lo n m origin i p" and "n + i < m" and "BLOCK_SIZE tr > 0"
  defines "q \<equiv> rewind_block_index_tail (set_entry_value (get_block_index_index_for_index tr ((n + i) * BLOCK_SIZE tr) p) None p)"
  shows "undoing tr W lo n m origin (Suc i) q"
proof -
  let ?C = "capacity p" and ?B = "BLOCK_SIZE tr" and ?l = "m - 1 - i"
  have u: "ip_raw p" "nextBlockIndexCapacity p = 2 * ?C" "0 < ?C" "m - lo \<le> ?C" "lo \<le> n"
    "int (ip_tail p) = (origin + int m - 1 - int i) mod int ?C"
    "\<And>k. lo \<le> k \<Longrightarrow> k < m \<Longrightarrow> ip_index p ! epos origin ?C k = (k * ?B, if n \<le> k \<and> k < n + i then None else Some (W k))"
    using assms(1) by (auto simp: undoing_def)
  have "origin + int m - 1 - int i = origin + int ?l" using assms(2) by linarith
  then have "ip_tail p = epos origin ?C ?l" using u(6) unfolding epos_def by (metis nat_int)
  then have key: "fst (ip_index p ! ip_tail p) = ?l * ?B" using u(5) u(7) [of ?l] assms(2) by simp
  have "block_base tr ((n + i) * ?B) = (n + i) * ?B" by (simp add: block_base_def)
  moreover have "(int ((n + i) * ?B) - int (?l * ?B)) div int ?B = int (n + i) - int ?l"
    using assms(3) by (simp add: left_diff_distrib [symmetric])
  ultimately have "get_block_index_index_for_index tr ((n + i) * ?B) p = nat ((int (ip_tail p) + (int (n + i) - int ?l)) mod int ?C)"
    by (simp only: get_block_index_index_for_index_def Let_def key)
  also have "(int (ip_tail p) + (int (n + i) - int ?l)) mod int ?C = (origin + int m - 1 - int i + (int (n + i) - int ?l)) mod int ?C"
    unfolding u(6) by (simp add: mod_simps)
  also have "origin + int m - 1 - int i + (int (n + i) - int ?l) = origin + int (n + i)" using assms(2) by simp
  finally have slot: "get_block_index_index_for_index tr ((n + i) * ?B) p = epos origin ?C (n + i)" by (simp only: epos_def)
  have entry: "ip_index p ! epos origin ?C (n + i) = ((n + i) * ?B, Some (W (n + i)))" using u(5) u(7) [of "n + i"] assms(2) by simp
  have q: "q = p\<lparr>ip_index := (ip_index p)[epos origin ?C (n + i) := ((n + i) * ?B, None)], ip_tail := (ip_tail p + ?C - 1) mod ?C\<rparr>"
    unfolding q_def slot by (simp add: set_entry_value_def rewind_block_index_tail_def entry [unfolded capacity_def] capacity_def)
  have C: "capacity q = ?C" by (simp add: q capacity_def)
  have "int ((ip_tail p + ?C - 1) mod ?C) = (int (ip_tail p) + int ?C - 1) mod int ?C" using u(3) by (simp add: zmod_int of_nat_diff)
  also have "int (ip_tail p) + int ?C - 1 = int (ip_tail p) - 1 + int ?C" by simp
  also have "\<dots> mod int ?C = (int (ip_tail p) - 1) mod int ?C" by (rule mod_add_self2)
  also have "\<dots> = (origin + int m - 1 - int i - 1) mod int ?C" unfolding u(6) by (simp add: mod_simps)
  finally have tail: "int (ip_tail q) = (origin + int m - 1 - int (Suc i)) mod int ?C" by (simp add: q algebra_simps)
  have "ip_index q ! epos origin ?C k = (k * ?B, if n \<le> k \<and> k < n + Suc i then None else Some (W k))" if k: "lo \<le> k" "k < m" for k
  proof (cases "k = n + i")
    case True
    have "epos origin ?C (n + i) < length (ip_index p)" using epos_less [OF u(3)] by (simp add: capacity_def)
    then show ?thesis using True by (simp add: q)
  next
    case False
    have "k < n + i \<Longrightarrow> n + i - k < ?C" "\<not> k < n + i \<Longrightarrow> k - (n + i) < ?C" using k u(4,5) assms(2) by linarith+
    then have "epos origin ?C k \<noteq> epos origin ?C (n + i)"
      using False epos_inj [OF u(3), of k "n + i" origin] epos_inj [OF u(3), of "n + i" k origin] k u(4,5) assms(2) by (cases "k < n + i") auto
    then show ?thesis using u(7) [OF k] False by (auto simp: q)
  qed
  then show ?thesis using u tail assms(2) unfolding undoing_def C by (simp add: q)
qed

lemma undo_same_counters: "same_counters p q \<Longrightarrow> same_counters p (rewind_block_index_tail (set_entry_value s v q))"
  by (cases p) (auto simp: same_counters_def set_entry_value_def rewind_block_index_tail_def)

lemma undo_entries_ok:
  assumes "linked W n m P" and "next_block (heap P (W (m - 1))) = None" and "BLOCK_SIZE tr > 0"
  shows "undoing tr W lo n m origin i p \<Longrightarrow> m - (n + i) \<le> rounds \<Longrightarrow>
    undoing tr W lo n m origin (m - n) (undo_entries rounds tr (if n + i < m then Some (W (n + i)) else None) ((n + i) * BLOCK_SIZE tr) P p)
    \<and> same_counters p (undo_entries rounds tr (if n + i < m then Some (W (n + i)) else None) ((n + i) * BLOCK_SIZE tr) P p)"
proof (induction rounds arbitrary: i p)
  case 0
  then have "n + i = m" by (simp add: undoing_def)
  then have "i = m - n" by simp
  then show ?case using 0 same_counters_refl by simp
next
  case (Suc rounds)
  show ?case
  proof (cases "n + i < m")
    case True
    let ?q = "rewind_block_index_tail (set_entry_value (get_block_index_index_for_index tr ((n + i) * BLOCK_SIZE tr) p) None p)"
    have nx: "next_block (heap P (W (n + i))) = (if n + Suc i < m then Some (W (n + Suc i)) else None)"
    proof (cases "n + Suc i < m")
      case True
      then show ?thesis using assms(1) by (simp add: linked_def)
    next
      case False
      then have "n + i = m - 1" using \<open>n + i < m\<close> by simp
      then show ?thesis using assms(2) False by simp
    qed
    have "undo_entries (Suc rounds) tr (if n + i < m then Some (W (n + i)) else None) ((n + i) * BLOCK_SIZE tr) P p
        = undo_entries rounds tr (if n + Suc i < m then Some (W (n + Suc i)) else None) ((n + Suc i) * BLOCK_SIZE tr) P ?q"
      using True nx by (simp add: add.commute)
    moreover have "undoing tr W lo n m origin (m - n) (undo_entries rounds tr (if n + Suc i < m then Some (W (n + Suc i)) else None) ((n + Suc i) * BLOCK_SIZE tr) P ?q)
      \<and> same_counters ?q (undo_entries rounds tr (if n + Suc i < m then Some (W (n + Suc i)) else None) ((n + Suc i) * BLOCK_SIZE tr) P ?q)"
      using Suc.prems(2) True by (intro Suc.IH undoing_step [OF Suc.prems(1) True assms(3)]) simp
    moreover have "same_counters p ?q" by (rule undo_same_counters [OF same_counters_refl])
    then have "same_counters ?q x \<Longrightarrow> same_counters p x" for x by (cases p) (auto simp: same_counters_def)
    ultimately show ?thesis by simp
  next
    case False
    moreover have "n + i \<le> m" using Suc.prems(1) by (simp add: undoing_def)
    ultimately have "i = m - n" by simp
    then show ?thesis using Suc.prems(1) False same_counters_refl by simp
  qed
qed

lemma add_blocks_ok:
  assumes "inj_on W {n..<m}"
  shows "linked W n m P \<Longrightarrow> next_block (heap P (W (m - 1))) = None \<Longrightarrow> pool_ok tr P \<Longrightarrow> W ` {n..<m} \<subseteq> in_use P \<Longrightarrow> m - n \<le> rounds \<Longrightarrow>
    pool_ok tr (add_blocks_to_free_list rounds tr (if n < m then Some (W n) else None) P)
    \<and> heap (add_blocks_to_free_list rounds tr (if n < m then Some (W n) else None) P) = heap P
    \<and> in_use (add_blocks_to_free_list rounds tr (if n < m then Some (W n) else None) P) = in_use P - W ` {n..<m}"
  using assms
proof (induction rounds arbitrary: n P)
  case (Suc rounds)
  show ?case
  proof (cases "n < m")
    case True
    let ?P = "add_block_to_free_list tr (W n) P"
    have "W n \<in> in_use P" using Suc.prems(4) True by auto
    note ab = add_block_ok [OF Suc.prems(3) this]
    have nx: "next_block (heap P (W n)) = (if Suc n < m then Some (W (Suc n)) else None)"
    proof (cases "Suc n < m")
      case True
      then show ?thesis using Suc.prems(1) by (simp add: linked_def)
    next
      case False
      then have "n = m - 1" using \<open>n < m\<close> by simp
      then show ?thesis using Suc.prems(2) False by simp
    qed
    have set: "{n..<m} = insert n {Suc n..<m}" using True by auto
    have new: "W n \<noteq> W x" if "x \<in> {Suc n..<m}" for x using inj_onD [OF Suc.prems(6), of n x] True that by auto
    have "pool_ok tr (add_blocks_to_free_list rounds tr (if Suc n < m then Some (W (Suc n)) else None) ?P)
      \<and> heap (add_blocks_to_free_list rounds tr (if Suc n < m then Some (W (Suc n)) else None) ?P) = heap ?P
      \<and> in_use (add_blocks_to_free_list rounds tr (if Suc n < m then Some (W (Suc n)) else None) ?P) = in_use ?P - W ` {Suc n..<m}"
    proof (rule Suc.IH)
      show "linked W (Suc n) m ?P" using Suc.prems(1) ab(3) by (simp add: linked_def)
      show "W ` {Suc n..<m} \<subseteq> in_use ?P" using Suc.prems(4) ab(2) new set by fastforce
      show "inj_on W {Suc n..<m}" by (rule inj_on_subset [OF Suc.prems(6)]) auto
    qed (use Suc.prems ab in simp_all)
    then show ?thesis using True nx ab set by auto
  next
    case False
    then show ?thesis using Suc.prems(3) by simp
  qed
qed simp

section \<open>Taking blocks\<close>

text \<open>
  While blocks are taken: the sub-queue holds \<open>xs\<close> in the blocks numbered \<open>lo\<close> to \<open>n\<close>, and blocks \<open>n\<close> to \<open>m\<close> have been
  entered in the index and linked one behind the other, and behind the tail block when it is not full.
\<close>

definition ireserving ::
  "traits \<Rightarrow> (nat \<Rightarrow> nat) \<Rightarrow> nat \<Rightarrow> nat \<Rightarrow> nat \<Rightarrow> 'a list \<Rightarrow> nat option \<Rightarrow> nat option \<Rightarrow> iproducer \<Rightarrow> 'a pool \<Rightarrow> bool" where
  "ireserving tr W lo n m xs startBlock first p P \<longleftrightarrow>
     BLOCK_SIZE tr > 1 \<and> pool_ok tr P \<and> n = started tr (tailIndex p) \<and> lo = headIndex p div BLOCK_SIZE tr \<and> n \<le> m
     \<and> iindex_ok tr W lo m p \<and> inj_on W {lo..<m} \<and> W ` {lo..<m} \<subseteq> in_use P
     \<and> content tr implicit_context W lo n (headIndex p) (tailIndex p) xs P
     \<and> first = (if n < m then Some (W n) else None)
     \<and> tailBlock p = (if n < m then Some (W (m - 1)) else startBlock)
     \<and> (block_offset tr (tailIndex p) \<noteq> 0 \<longrightarrow> startBlock = Some (W (tailIndex p div BLOCK_SIZE tr)))
     \<and> tail_full tr W (headIndex p) (tailIndex p) startBlock
     \<and> linked W (tailIndex p div BLOCK_SIZE tr) m P \<and> (n < m \<longrightarrow> next_block (heap P (W (m - 1))) = None)
     \<and> (\<forall>k. n \<le> k \<and> k < m \<longrightarrow> emptied tr implicit_context (heap P (W k)) {})"

lemma ip_rep_ireserving:
  assumes "ip_rep tr W xs p P"
  shows "ireserving tr W (headIndex p div BLOCK_SIZE tr) (started tr (tailIndex p)) (started tr (tailIndex p)) xs (tailBlock p) None p P"
proof -
  have B: "BLOCK_SIZE tr > 0" using assms by (simp add: ip_rep_def ip_core_def)
  have "linked W (tailIndex p div BLOCK_SIZE tr) (started tr (tailIndex p)) P"
    using tail_block_number [OF B, of "tailIndex p"] by (cases "block_offset tr (tailIndex p) = 0") (auto simp: linked_def)
  then show ?thesis using assms by (auto simp: ireserving_def ip_rep_def ip_core_def)
qed

text \<open>Bookkeeping of the index that fails leaves the rest as it is.\<close>

lemma ireserving_index:
  assumes "ireserving tr W lo n m xs sb first p P" and "same_counters p p'" and "iindex_ok tr W lo m p'"
    and "pool_ok tr P'" and "in_use P' = in_use P" and "same_blocks (in_use P) P P'"
  shows "ireserving tr W lo n m xs sb first p' P'"
proof -
  note sc = same_counters_simps [OF assms(2)]
  have "W ` {lo..<m} \<subseteq> in_use P" using assms(1) unfolding ireserving_def by blast
  then have heap: "heap P' (W k) = heap P (W k)" if "lo \<le> k" "k < m" for k
    using assms(6) that by (auto simp: same_blocks_def image_subset_iff)
  have r: "BLOCK_SIZE tr > 1" "n = started tr (tailIndex p)" "lo = headIndex p div BLOCK_SIZE tr" "n \<le> m"
    "content tr implicit_context W lo n (headIndex p) (tailIndex p) xs P" "iindex_ok tr W lo m p"
    "inj_on W {lo..<m}" "W ` {lo..<m} \<subseteq> in_use P" "first = (if n < m then Some (W n) else None)"
    "tailBlock p = (if n < m then Some (W (m - 1)) else sb)"
    "block_offset tr (tailIndex p) \<noteq> 0 \<longrightarrow> sb = Some (W (tailIndex p div BLOCK_SIZE tr))"
    "tail_full tr W (headIndex p) (tailIndex p) sb"
    using assms(1) unfolding ireserving_def by blast+
  have ht: "headIndex p \<le> tailIndex p" using r(5) by (simp add: content_def)
  then have k0: "lo \<le> tailIndex p div BLOCK_SIZE tr" unfolding r(3) by (rule div_le_mono)
  have lon: "lo \<le> n" using k0 tail_block_number [of tr "tailIndex p"] r(1,2) by (cases "block_offset tr (tailIndex p) = 0") simp_all
  have "content tr implicit_context W lo n (headIndex p) (tailIndex p) xs P'" using r(4) heap by (intro content_cong [OF r(5)]) simp
  moreover have "linked W (tailIndex p div BLOCK_SIZE tr) m P'" using assms(1) heap k0 by (simp add: ireserving_def linked_def)
  moreover have "n < m \<Longrightarrow> next_block (heap P' (W (m - 1))) = None" using assms(1) heap [of "m - 1"] lon by (simp add: ireserving_def)
  moreover have "\<forall>k. n \<le> k \<and> k < m \<longrightarrow> emptied tr implicit_context (heap P' (W k)) {}" using assms(1) heap lon by (simp add: ireserving_def)
  ultimately show ?thesis using r assms(3,4) unfolding ireserving_def sc assms(5) by blast
qed

lemma ireserving_new:
  assumes "ireserving tr W lo n m xs sb first p P" and "same_counters p q" and "claimed tr W lo m slot q"
    and "requisition_block mo tr md P = (Some b, P1)"
  defines "P2 \<equiv> upd_block b (\<lambda>b. (reset_empty tr implicit_context b)\<lparr>next_block := None\<rparr>) P1"
  defines "p' \<equiv> set_entry_value slot (Some b) q"
  defines "P3 \<equiv> if block_offset tr (tailIndex p) \<noteq> 0 \<or> first \<noteq> None then upd_block (the (tailBlock p')) (\<lambda>blk. blk\<lparr>next_block := Some b\<rparr>) P2 else P2"
  shows "ireserving tr (W(m := b)) lo n (Suc m) xs sb (first_allocated first b) (p'\<lparr>tailBlock := Some b\<rparr>) P3"
    and "frame_step (W ` {lo..<m}) P ((W(m := b)) ` {lo..<Suc m}) P3"
proof -
  let ?W = "W(m := b)" and ?k0 = "tailIndex p div BLOCK_SIZE tr"
  note sc = same_counters_simps [OF assms(2)]
  have r: "BLOCK_SIZE tr > 1" "pool_ok tr P" "n = started tr (tailIndex p)" "lo = headIndex p div BLOCK_SIZE tr" "n \<le> m"
    "inj_on W {lo..<m}" "W ` {lo..<m} \<subseteq> in_use P"
    "content tr implicit_context W lo n (headIndex p) (tailIndex p) xs P" "first = (if n < m then Some (W n) else None)"
    "tailBlock p = (if n < m then Some (W (m - 1)) else sb)"
    "block_offset tr (tailIndex p) \<noteq> 0 \<Longrightarrow> sb = Some (W ?k0)" "linked W ?k0 m P"
    "\<And>k. n \<le> k \<Longrightarrow> k < m \<Longrightarrow> emptied tr implicit_context (heap P (W k)) {}" "lo \<le> m"
    and tf: "tail_full tr W (headIndex p) (tailIndex p) sb"
    using assms(1) by (auto simp: ireserving_def iindex_ok_def)
  have B: "BLOCK_SIZE tr > 0" using r(1) by simp
  have "headIndex p \<le> tailIndex p" using r(8) by (simp add: content_def)
  then have k0: "lo \<le> ?k0" unfolding r(4) by (rule div_le_mono)
  note tbn = tail_block_number [OF B, of "tailIndex p", folded r(3)]
  have lon: "lo \<le> n" using k0 tbn by (cases "block_offset tr (tailIndex p) = 0") simp_all
  note rq = requisition_ok [OF r(2) assms(4)]
  have b: "b \<notin> in_use P" "in_use P1 = insert b (in_use P)" using rq(4) by simp_all
  have Wb: "W k \<noteq> b" if "lo \<le> k" "k < m" for k using that r(7) b(1) by (auto simp: image_subset_iff)
  have P2: "pool_ok tr P2" "in_use P2 = in_use P1"
    unfolding P2_def using upd_block_ok [OF rq(1), of "\<lambda>b. (reset_empty tr implicit_context b)\<lparr>next_block := None\<rparr>" b] pool_block_length [OF rq(1)] by simp_all
  have P3: "pool_ok tr P3" "in_use P3 = in_use P1"
    unfolding P3_def using upd_block_ok [OF P2(1), of "\<lambda>blk. blk\<lparr>next_block := Some b\<rparr>"] P2 pool_block_length [OF P2(1)] by simp_all
  have tb: "tailBlock p' = tailBlock p" by (simp add: p'_def sc)
  have k0m: "block_offset tr (tailIndex p) \<noteq> 0 \<or> first \<noteq> None \<longleftrightarrow> ?k0 < m" using tbn r(5,9) by (cases "block_offset tr (tailIndex p) = 0") auto
  have last: "the (tailBlock p) = W (m - 1)" if "?k0 < m"
  proof (cases "n < m")
    case False
    then have n: "n = m" using r(5) by simp
    then have off: "block_offset tr (tailIndex p) \<noteq> 0" using that tbn(1) by auto
    then have "m - 1 = ?k0" using tbn(2) n by simp
    then show ?thesis using r(10) r(11) [OF off] False by simp
  qed (simp add: r(10))
  have heap3: "heap P3 c = (if ?k0 < m \<and> c = W (m - 1) then (heap P2 c)\<lparr>next_block := Some b\<rparr> else heap P2 c)" for c
    using k0m last by (auto simp: P3_def tb)
  have heap2: "heap P2 (W k) = heap P (W k)" if "lo \<le> k" "k < m" for k
    using that r(7) rq(2) Wb [OF that] by (auto simp: P2_def same_blocks_def image_subset_iff)
  have b3: "heap P3 b = (reset_empty tr implicit_context (heap P1 b))\<lparr>next_block := None\<rparr>"
  proof -
    have "lo \<le> m - 1 \<and> m - 1 < m" if "?k0 < m" using that k0 by linarith
    then have "\<not> (?k0 < m \<and> b = W (m - 1))" using Wb [of "m - 1"] by blast
    then show ?thesis by (simp only: heap3 if_False) (simp add: P2_def)
  qed
  have hold: "holds tr implicit_context h t xs k (heap P3 c) = holds tr implicit_context h t xs k (heap P2 c)" for h t k c by (simp add: heap3)
  have em: "emptied tr implicit_context (heap P3 c) js = emptied tr implicit_context (heap P2 c) js" for c js by (simp add: heap3)
  have "content tr implicit_context ?W lo n (headIndex p) (tailIndex p) xs P3"
    using r(5,8) by (auto simp: content_def hold heap2)
  moreover have "linked ?W ?k0 (Suc m) P3" unfolding linked_def
  proof (intro allI impI)
    fix i assume i: "?k0 \<le> i \<and> Suc i < Suc m"
    show "next_block (heap P3 (?W i)) = Some (?W (Suc i))"
    proof (cases "Suc i = m")
      case True
      then have "i = m - 1" "?k0 < m" "i \<noteq> m" using i by simp_all
      moreover have "?W i = W (m - 1)" using calculation by simp
      ultimately show ?thesis using True by (simp only: heap3) simp
    next
      case False
      then have "W i \<noteq> W (m - 1)" using inj_onD [OF r(6), of i "m - 1"] i k0 by fastforce
      then show ?thesis using False i r(12) k0 heap2 [of i] by (simp add: heap3 linked_def)
    qed
  qed
  moreover have "inj_on ?W {lo..<Suc m}"
  proof (rule inj_onI)
    fix i j assume "i \<in> {lo..<Suc m}" "j \<in> {lo..<Suc m}" "?W i = ?W j"
    then show "i = j" using Wb [of i] Wb [of j] inj_onD [OF r(6), of i j] by (simp add: less_Suc_eq split: if_splits)
  qed
  moreover have own: "?W ` {lo..<Suc m} = insert b (W ` {lo..<m})" using r(14) by (auto simp: less_Suc_eq image_iff)
  moreover have "first_allocated first b = Some (?W n)" using r(5,9) by (auto simp: first_allocated_def)
  moreover have "emptied tr implicit_context (heap P3 (?W k)) {}" if "n \<le> k" "k < Suc m" for k
  proof (cases "k = m")
    case True
    then show ?thesis using emptied_reset [of tr implicit_context "heap P1 b"] by (simp add: b3)
  next
    case False
    then show ?thesis using that r(13) [of k] heap2 [of k] lon by (simp add: em)
  qed
  moreover have "iindex_ok tr ?W lo (Suc m) p'" using assms(3) by (simp add: claimed_def p'_def)
  moreover have "block_offset tr (tailIndex p) \<noteq> 0 \<Longrightarrow> sb = Some (?W ?k0)" using r(5,11) tbn by auto
  moreover have "tail_full tr ?W (headIndex p) (tailIndex p) sb"
  proof -
    have "?k0 - 1 \<noteq> m" if "block_offset tr (tailIndex p) = 0" "headIndex p \<noteq> tailIndex p"
      using that tbn(1) r(5) \<open>headIndex p \<le> tailIndex p\<close> B by (cases "?k0 = 0") (auto simp: block_offset_def div_eq_0_iff)
    then show ?thesis using tf by (simp add: tail_full_def)
  qed
  ultimately show "ireserving tr ?W lo n (Suc m) xs sb (first_allocated first b) (p'\<lparr>tailBlock := Some b\<rparr>) P3"
    using r(1,3,4,5,7) P3 b b3 by (auto simp: ireserving_def p'_def sc)
  have "heap P3 c = heap P c" if "c \<in> in_use P - W ` {lo..<m}" for c
  proof -
    have "c \<noteq> b" "c \<in> in_use P" using that b(1) by auto
    moreover have "lo \<le> m - 1 \<and> m - 1 < m" if "?k0 < m" using that k0 by linarith
    then have "\<not> (?k0 < m \<and> c = W (m - 1))" using \<open>c \<in> in_use P - W ` {lo..<m}\<close> by fastforce
    then have "heap P3 c = heap P2 c" by (simp only: heap3 if_False)
    ultimately show ?thesis using rq(2) by (simp add: P2_def same_blocks_def)
  qed
  then show "frame_step (W ` {lo..<m}) P (?W ` {lo..<Suc m}) P3"
    unfolding own using b r(7) P3(2) by (auto simp: frame_step_def same_blocks_def)
qed

lemma same_counters_trans: "same_counters p q \<Longrightarrow> same_counters q r \<Longrightarrow> same_counters p r"
  by (cases p) (auto simp: same_counters_def)

lemma frame_step_malloc:
  "own \<subseteq> in_use P \<Longrightarrow> in_use P' = in_use P \<Longrightarrow> same_blocks (in_use P) P P' \<Longrightarrow> frame_step own P own P'"
  by (auto simp: frame_step_def same_blocks_def)

lemma ireserving_own: "ireserving tr W lo n m xs sb first p P \<Longrightarrow> W ` {lo..<m} \<subseteq> in_use P"
  unfolding ireserving_def by blast

lemma ireserving_pool:
  assumes "ireserving tr W lo n m xs sb first p P" and "pool_ok tr P'" and "in_use P' = in_use P" and "same_blocks (in_use P) P P'"
  shows "ireserving tr W lo n m xs sb first p P'"
  by (rule ireserving_index [OF assms(1) same_counters_refl _ assms(2-4)]) (use assms(1) in \<open>unfold ireserving_def, blast\<close>)

definition taken ::
  "traits \<Rightarrow> (nat \<Rightarrow> nat) \<Rightarrow> nat \<Rightarrow> nat \<Rightarrow> nat \<Rightarrow> nat \<Rightarrow> 'a list \<Rightarrow> nat option \<Rightarrow> iproducer \<Rightarrow> 'a pool \<Rightarrow> bool
   \<Rightarrow> nat option \<Rightarrow> iproducer \<Rightarrow> 'a pool \<Rightarrow> bool" where
  "taken tr W lo n m blocks xs sb p P ok first' p' P' \<longleftrightarrow>
     (\<exists>W' m'. ireserving tr W' lo n m' xs sb first' p' P' \<and> m \<le> m' \<and> m' \<le> m + blocks \<and> (ok \<longrightarrow> m' = m + blocks)
        \<and> frame_step (W ` {lo..<m}) P (W' ` {lo..<m'}) P' \<and> (\<forall>k<m. W' k = W k)
        \<and> same_counters p (p'\<lparr>tailBlock := tailBlock p\<rparr>))"

lemma same_counters_tail: "same_counters p p' \<Longrightarrow> same_counters p (p'\<lparr>tailBlock := tailBlock p\<rparr>)"
  by (cases p) (auto simp: same_counters_def)

lemma takenI:
  "ireserving tr W lo n m xs sb first' p' P' \<Longrightarrow> frame_step (W ` {lo..<m}) P (W ` {lo..<m}) P' \<Longrightarrow> same_counters p p' \<Longrightarrow>
   (ok \<longrightarrow> blocks = 0) \<Longrightarrow> taken tr W lo n m blocks xs sb p P ok first' p' P'"
  unfolding taken_def
  by (rule exI [of _ W], rule exI [of _ m]) (auto intro: same_counters_tail)

lemma taken_Suc:
  assumes "taken tr W' lo n (Suc m) blocks xs sb p' P' ok first'' p'' P''" and "frame_step (W ` {lo..<m}) P (W' ` {lo..<Suc m}) P'"
    and "\<forall>k<m. W' k = W k" and "same_counters p (p'\<lparr>tailBlock := tailBlock p\<rparr>)"
  shows "taken tr W lo n m (Suc blocks) xs sb p P ok first'' p'' P''"
proof -
  obtain W'' m' where t: "ireserving tr W'' lo n m' xs sb first'' p'' P''" "Suc m \<le> m'" "m' \<le> Suc m + blocks" "ok \<longrightarrow> m' = Suc m + blocks"
    "frame_step (W' ` {lo..<Suc m}) P' (W'' ` {lo..<m'}) P''" "\<forall>k<Suc m. W'' k = W' k"
    "same_counters p' (p''\<lparr>tailBlock := tailBlock p'\<rparr>)" using assms(1) unfolding taken_def by blast
  have "same_counters (p'\<lparr>tailBlock := tailBlock p\<rparr>) (p''\<lparr>tailBlock := tailBlock p\<rparr>)"
    using t(7) by (cases p'; cases p'') (auto simp: same_counters_def)
  then have "same_counters p (p''\<lparr>tailBlock := tailBlock p\<rparr>)" by (rule same_counters_trans [OF assms(4)])
  moreover have "\<forall>k<m. W'' k = W k" using assms(3) t(6) by simp
  moreover have "m \<le> m'" "m' \<le> m + Suc blocks" "ok \<longrightarrow> m' = m + Suc blocks" using t(2-4) by simp_all
  ultimately show ?thesis using t(1) frame_step_trans [OF assms(2) t(5)] unfolding taken_def by blast
qed

lemma take_blocks_ok:
  "ireserving tr W lo n m xs sb first p P \<Longrightarrow>
   take_blocks blocks mo tr md (tailIndex p) first (m * BLOCK_SIZE tr) p P = (ok, first', p', P') \<Longrightarrow>
   taken tr W lo n m blocks xs sb p P ok first' p' P'"
proof (induction blocks arbitrary: W m first p P)
  case 0
  then show ?case using frame_step_refl [OF ireserving_own [OF 0(1)]] by (auto intro: takenI same_counters_refl)
next
  case (Suc blocks)
  note r = Suc.prems(1)
  have B: "BLOCK_SIZE tr > 1" "pool_ok tr P" and ix: "iindex_ok tr W lo m p" using r unfolding ireserving_def by blast+
  note own = ireserving_own [OF r]
  show ?case
  proof (cases "no_room tr (headIndex p) (m * BLOCK_SIZE tr)")
    case True
    then have "ok = False" "first' = first" "p' = p" "P' = P" using Suc.prems(2) by simp_all
    then show ?thesis using takenI [OF r frame_step_refl [OF own] same_counters_refl] by simp
  next
    case room: False
    obtain s q P1 where i: "insert_block_index_entry mo md (m * BLOCK_SIZE tr) p P = (s, q, P1)" by (metis prod_cases3)
    note io = insert_entry_ok [OF ix B(1) i]
    note ip = insert_pool_ok [OF io(3)]
    have P1: "pool_ok tr P1" "in_use P1 = in_use P" "same_blocks (in_use P) P P1" using ip B(2) by auto
    note f1 = frame_step_malloc [OF own P1(2,3)]
    show ?thesis
    proof (cases s)
      case None
      then have "ok = False" "first' = first" "p' = q" "P' = P1" using room i Suc.prems(2) by simp_all
      moreover have "iindex_ok tr W lo m q" using io(1) None by simp
      ultimately show ?thesis using takenI [OF ireserving_index [OF r io(2) _ P1] f1 io(2)] by simp
    next
      case (Some slot)
      have cl: "claimed tr W lo m slot q" using io(1) Some by simp
      note r1 = ireserving_pool [OF r P1]
      obtain rb P2 where rb: "requisition_block mo tr md P1 = (rb, P2)" by (metis prod.exhaust)
      note rq = requisition_ok [OF P1(1) rb]
      show ?thesis
      proof (cases rb)
        case None
        let ?q = "set_entry_value slot None (rewind_block_index_tail q)"
        have "ok = False" "first' = first" "p' = ?q" "P' = P2" using room i Some rb None Suc.prems(2) by simp_all
        moreover have P2: "pool_ok tr P2" "in_use P2 = in_use P1" "same_blocks (in_use P1) P1 P2" using rq None by simp_all
        moreover have "iindex_ok tr W lo m ?q" using cl by (simp add: claimed_def)
        moreover note sc = same_counters_undo [OF io(2), of slot None]
        moreover have "frame_step (W ` {lo..<m}) P1 (W ` {lo..<m}) P2" using frame_step_malloc [OF _ P2(2,3)] own P1(2) by simp
        ultimately show ?thesis using takenI [OF ireserving_index [OF r1 sc _ P2] frame_step_trans [OF f1] sc] by simp
      next
        case b: (Some b)
        let ?P = "upd_block b (\<lambda>b. (reset_empty tr implicit_context b)\<lparr>next_block := None\<rparr>) P2" and ?q = "set_entry_value slot (Some b) q"
        let ?P' = "if block_offset tr (tailIndex p) \<noteq> 0 \<or> first \<noteq> None
          then upd_block (the (tailBlock ?q)) (\<lambda>blk. blk\<lparr>next_block := Some b\<rparr>) ?P else ?P"
        note new = ireserving_new [OF r1 io(2) cl rb [unfolded b]]
        have eq: "tailIndex (?q\<lparr>tailBlock := Some b\<rparr>) = tailIndex p" "Suc m * BLOCK_SIZE tr = m * BLOCK_SIZE tr + BLOCK_SIZE tr"
          by (simp_all add: same_counters_simps [OF io(2)])
        have "take_blocks blocks mo tr md (tailIndex (?q\<lparr>tailBlock := Some b\<rparr>)) (first_allocated first b) (Suc m * BLOCK_SIZE tr) (?q\<lparr>tailBlock := Some b\<rparr>) ?P'
          = (ok, first', p', P')" unfolding eq using Suc.prems(2) room i Some rb b by (simp add: Let_def)
        then have "taken tr (W(m := b)) lo n (Suc m) blocks xs sb (?q\<lparr>tailBlock := Some b\<rparr>) ?P' ok first' p' P'"
          by (rule Suc.IH [OF new(1)])
        moreover have "same_counters p ((?q\<lparr>tailBlock := Some b\<rparr>)\<lparr>tailBlock := tailBlock p\<rparr>)"
          using io(2) by (cases p) (auto simp: same_counters_def set_entry_value_def)
        moreover have "\<forall>k<m. (W(m := b)) k = W k" by simp
        ultimately show ?thesis by (intro taken_Suc [OF _ frame_step_trans [OF f1 new(2)]])
      qed
    qed
  qed
qed

section \<open>Going back\<close>

text \<open>What the loops that undo a bulk enqueue give back: the index and the pool.\<close>

lemma undo_blocks_ok:
  fixes P' :: "'a pool"
  assumes "ireserving tr W lo n m xs sb first p P" and "touched tr W k m t P P'" and "m - n \<le> rounds" and "lo \<le> n"
  defines "q \<equiv> undo_entries rounds tr first (n * BLOCK_SIZE tr) P' p" and "R \<equiv> add_blocks_to_free_list rounds tr first P'"
  shows "iindex_ok tr W lo n q \<and> same_counters p q \<and> pool_ok tr R \<and> heap R = heap P' \<and> in_use R = in_use P - W ` {n..<m}"
proof (cases "n < m")
  case False
  then have "first = None" "n = m" and ix: "iindex_ok tr W lo m p" "pool_ok tr P" using assms(1) unfolding ireserving_def by auto
  moreover have "undo_entries rounds tr None (n * BLOCK_SIZE tr) P' p = p" "add_blocks_to_free_list rounds tr None P' = P'" by (cases rounds; simp)+
  ultimately show ?thesis unfolding q_def R_def using touched_pool [OF assms(2)] same_counters_refl by simp
next
  case True
  have r: "BLOCK_SIZE tr > 1" "pool_ok tr P" "n = started tr (tailIndex p)" "iindex_ok tr W lo m p" "inj_on W {lo..<m}" "W ` {lo..<m} \<subseteq> in_use P"
    "first = (if n < m then Some (W n) else None)" "linked W (tailIndex p div BLOCK_SIZE tr) m P" "next_block (heap P (W (m - 1))) = None"
    using assms(1) True unfolding ireserving_def by blast+
  have B: "BLOCK_SIZE tr > 0" using r(1) by simp
  have "tailIndex p div BLOCK_SIZE tr \<le> n"
    using tail_block_number [OF B, of "tailIndex p"] r(3) by (cases "block_offset tr (tailIndex p) = 0") simp_all
  then have "linked W n m P" using r(8) by (simp add: linked_def)
  then have l: "linked W n m P'" "next_block (heap P' (W (m - 1))) = None"
    using r(9) by (simp_all only: linked_touched [OF assms(2)] touched_next [OF assms(2)])
  note P' = touched_pool(1,2) [OF assms(2)]
  note us = undoing_start [OF r(4) assms(4) True]
  have "undoing tr W lo n m (int (ip_tail p) + 1 - int m) (m - n) q \<and> same_counters p q"
    using undo_entries_ok [OF l B us, of rounds] assms(3) True r(7) unfolding q_def by simp
  then have 1: "iindex_ok tr W lo n q" "same_counters p q" using undoing_end True by auto
  have "inj_on W {n..<m}" by (rule inj_on_subset [OF r(5)]) (use assms(4) in auto)
  moreover have "W ` {n..<m} \<subseteq> in_use P'" using r(6) P'(2) assms(4) by fastforce
  ultimately have "pool_ok tr R \<and> heap R = heap P' \<and> in_use R = in_use P' - W ` {n..<m}"
    using add_blocks_ok [OF _ l _ _ assms(3)] P'(1) r(2) True r(7) unfolding R_def by simp
  then show ?thesis using 1 P'(2) by simp
qed

lemma undo_frame:
  assumes "frame_step own P0 (W ` {lo..<m}) P" and "touched tr W k m t P P'" and "heap R = heap P'" and "in_use R = in_use P - W ` {n..<m}"
    and "inj_on W {lo..<m}" and "n \<le> m" and "lo \<le> k" and "lo \<le> n"
  shows "frame_step own P0 (W ` {lo..<n}) R"
proof (rule frame_step_trans [OF assms(1)])
  have sub: "W ` {lo..<m} \<subseteq> in_use P" using assms(1) by (auto simp: frame_step_def)
  have split: "W ` {lo..<m} = W ` {lo..<n} \<union> W ` {n..<m}" 
    using ivl_disj_un_two(3) [OF assms(8,6)] by (metis image_Un)
  have "W i \<noteq> W j" if "i \<in> {lo..<n}" "j \<in> {n..<m}" for i j using inj_onD [OF assms(5), of i j] that assms(6,8) by auto
  then have disj: "W ` {lo..<n} \<inter> W ` {n..<m} = {}" by blast
  have "heap R c = heap P c" if "c \<in> in_use P - W ` {lo..<m}" for c
  proof -
    have "c \<notin> W ` {k..<m}" using that assms(7) by auto
    then show ?thesis using touched_pool(3) [OF assms(2)] assms(3) by simp
  qed
  then show "frame_step (W ` {lo..<m}) P (W ` {lo..<n}) R"
    using sub split disj assms(4) by (auto simp: frame_step_def same_blocks_def)
qed

lemma undone_ok:
  fixes P' :: "'a pool"
  assumes "ip_rep tr W0 xs p0 P0" and "BLOCK_SIZE tr < 2 ^ 63"
    and "ireserving tr W (headIndex p0 div BLOCK_SIZE tr) (started tr (tailIndex p0)) m xs (tailBlock p0) first p P"
    and "same_counters p0 (p\<lparr>tailBlock := tailBlock p0\<rparr>)"
    and "frame_step (ip_own tr W0 (headIndex p0) (tailIndex p0)) P0 (W ` {headIndex p0 div BLOCK_SIZE tr..<m}) P"
    and "touched tr W (tailIndex p0 div BLOCK_SIZE tr) m (tailIndex p0) P P'" and "m - started tr (tailIndex p0) \<le> rounds"
  shows "implicit_step tr (ip_own tr W0 (headIndex p0) (tailIndex p0)) P0 xs
    ((undo_entries rounds tr first (started tr (tailIndex p0) * BLOCK_SIZE tr) P' p)\<lparr>tailBlock := tailBlock p0\<rparr>)
    (add_blocks_to_free_list rounds tr first P')"
proof -
  let ?lo = "headIndex p0 div BLOCK_SIZE tr" and ?n = "started tr (tailIndex p0)" and ?h = "headIndex p0" and ?t = "tailIndex p0"
  let ?q = "undo_entries rounds tr first (?n * BLOCK_SIZE tr) P' p" and ?R = "add_blocks_to_free_list rounds tr first P'"
  have sc0: "tailIndex p = ?t" "headIndex p = ?h" "dequeueOptimisticCount p = dequeueOptimisticCount p0" "dequeueOvercommit p = dequeueOvercommit p0"
    using same_counters_simps [OF assms(4)] by simp_all
  have r: "BLOCK_SIZE tr > 1" "?n \<le> m" "inj_on W {?lo..<m}" "content tr implicit_context W ?lo ?n (headIndex p) (tailIndex p) xs P"
    "block_offset tr (tailIndex p) \<noteq> 0 \<longrightarrow> tailBlock p0 = Some (W (tailIndex p div BLOCK_SIZE tr))"
    "tail_full tr W (headIndex p) (tailIndex p) (tailBlock p0)"
    using assms(3) unfolding ireserving_def by blast+
  have "?h \<le> ?t" using r(4) sc0 by (simp add: content_def)
  then have lo: "?lo \<le> ?t div BLOCK_SIZE tr" by (rule div_le_mono)
  then have lon: "?lo \<le> ?n" using tail_block_number [of tr ?t] r(1) by (cases "block_offset tr ?t = 0") simp_all
  note ub = undo_blocks_ok [OF assms(3,6,7) lon]
  have sc: "tailIndex ?q = ?t" "headIndex ?q = ?h" "dequeueOptimisticCount ?q = dequeueOptimisticCount p0" "dequeueOvercommit ?q = dequeueOvercommit p0"
    using same_counters_simps [OF conjunct1 [OF conjunct2 [OF ub]]] sc0 by simp_all
  have own: "frame_step (ip_own tr W0 ?h ?t) P0 (W ` {?lo..<?n}) ?R"
    using ub by (intro undo_frame [OF assms(5,6) _ _ r(3,2) lo lon]) simp_all
  have "content tr implicit_context W ?lo ?n ?h ?t xs P'"
    using touched_content [OF assms(6) _ r(3,2) lo] r(4) sc0 by simp
  then have "content tr implicit_context W ?lo ?n ?h ?t xs ?R" using ub by (simp add: content_def)
  moreover have "inj_on W {?lo..<?n}" by (rule inj_on_subset [OF r(3)]) (use r(2) in auto)
  moreover have "W ` {?lo..<?n} \<subseteq> in_use ?R" using own by (auto simp: frame_step_def)
  ultimately have "ip_core tr W ?h ?t xs ?q ?R" using ub r(1) by (simp add: ip_core_def)
  then have "ip_rep tr W xs (?q\<lparr>tailBlock := tailBlock p0\<rparr>) ?R"
    using assms(1) r(5,6) sc sc0 by (simp add: ip_rep_def ip_core_def)
  moreover have "frame_step (ip_own tr W0 ?h ?t) P0 (ip_own tr W (headIndex (?q\<lparr>tailBlock := tailBlock p0\<rparr>)) (tailIndex (?q\<lparr>tailBlock := tailBlock p0\<rparr>))) ?R"
    using own sc by (simp add: ip_own_def)
  ultimately show ?thesis by (intro implicit_stepI [OF _ assms(2)])
qed

section \<open>Filling\<close>

lemma ireserving_content:
  assumes "ireserving tr W lo n m xs sb first p P"
  shows "content tr implicit_context W lo m (headIndex p) (tailIndex p) xs P"
proof -
  have r: "BLOCK_SIZE tr > 1" "pool_ok tr P" "n = started tr (tailIndex p)" "content tr implicit_context W lo n (headIndex p) (tailIndex p) xs P"
    "\<forall>k. n \<le> k \<and> k < m \<longrightarrow> emptied tr implicit_context (heap P (W k)) {}"
    using assms unfolding ireserving_def by blast+
  have t: "tailIndex p \<le> n * BLOCK_SIZE tr" using below_last_started [of tr "tailIndex p"] r(1,3) by (cases "tailIndex p = 0") auto
  have "holds tr implicit_context (headIndex p) (tailIndex p) xs k (heap P (W k))" if "n \<le> k" "k < m" for k
  proof -
    have "tailIndex p \<le> k * BLOCK_SIZE tr" using t mult_le_mono1 [OF that(1), of "BLOCK_SIZE tr"] by linarith
    moreover from this have "headIndex p \<le> k * BLOCK_SIZE tr" using r(4) by (simp add: content_def)
    ultimately have "\<not> k * BLOCK_SIZE tr + j < headIndex p" "\<not> k * BLOCK_SIZE tr + j < tailIndex p" for j by simp_all
    then show ?thesis using r(5) that pool_block_length [OF r(2)] by (simp add: holds_def)
  qed
  then show ?thesis using r(4) unfolding content_def by (metis not_le_imp_less)
qed

lemma ireserving_bounds:
  assumes "ireserving tr W lo n m xs sb first p P" and "tailIndex p div BLOCK_SIZE tr < m"
  defines "k \<equiv> tailIndex p div BLOCK_SIZE tr"
  shows "lo \<le> k" and "(if block_offset tr (tailIndex p) = 0 \<and> first \<noteq> None then first else sb) = Some (W k)"
    and "tailBlock p = Some (W (m - 1))" and "(if block_offset tr (tailIndex p) = 0 then first else sb) = Some (W k)"
proof -
  have r: "BLOCK_SIZE tr > 1" "n = started tr (tailIndex p)" "lo = headIndex p div BLOCK_SIZE tr"  "n \<le> m"
    "content tr implicit_context W lo n (headIndex p) (tailIndex p) xs P" "first = (if n < m then Some (W n) else None)"
    "tailBlock p = (if n < m then Some (W (m - 1)) else sb)"
    "block_offset tr (tailIndex p) \<noteq> 0 \<longrightarrow> sb = Some (W (tailIndex p div BLOCK_SIZE tr))"
    using assms(1) unfolding ireserving_def by blast+
  have B: "BLOCK_SIZE tr > 0" using r(1) by simp
  show "lo \<le> k" using r(5) unfolding r(3) k_def by (intro div_le_mono) (simp add: content_def)
  note tbn = tail_block_number [OF B, of "tailIndex p", folded r(2)]
  have off0: "block_offset tr (tailIndex p) = 0 \<Longrightarrow> first = Some (W k) \<and> n < m"
    using tbn(1) assms(2) r(6) by (simp add: k_def)
  then show "(if block_offset tr (tailIndex p) = 0 \<and> first \<noteq> None then first else sb) = Some (W k)"
    "(if block_offset tr (tailIndex p) = 0 then first else sb) = Some (W k)" using r(8) by (auto simp: k_def)
  show "tailBlock p = Some (W (m - 1))"
  proof (cases "n < m")
    case False
    then have "block_offset tr (tailIndex p) \<noteq> 0" using off0 by blast
    moreover from this have "m - 1 = tailIndex p div BLOCK_SIZE tr" using tbn(2) r(4) False by simp
    ultimately show ?thesis using r(7,8) False by simp
  qed (simp add: r(7))
qed

lemma ireserving_fill:
  assumes "ireserving tr W lo n m xs sb first p P" and "BLOCK_SIZE tr < 2 ^ 63" and "k = tailIndex p div BLOCK_SIZE tr" and "k < m"
    and "m = started tr (tailIndex p + length items)" and "m \<le> n + blocks" and "n \<le> Suc k"
    and "fill_blocks (Suc blocks) tr (tailIndex p + length items) (tailBlock p) (Some (W k)) (tailIndex p) items P = (th, i', b, P')"
  shows "touched tr W k m (tailIndex p) P P'"
    and "th \<noteq> None \<Longrightarrow> touched tr W k m (tailIndex p) P (destroy_blocks rounds tr i' b (Some (W k)) (tailIndex p) P')"
    and "th = None \<Longrightarrow> b = Some (W (m - 1)) \<and> content tr implicit_context W lo m (headIndex p) (tailIndex p + length items) (xs @ map snd items) P'"
proof -
  let ?T = "tailIndex p + length items"
  have r: "BLOCK_SIZE tr > 1" "n = started tr (tailIndex p)" "inj_on W {lo..<m}" "linked W (tailIndex p div BLOCK_SIZE tr) m P"
    using assms(1) unfolding ireserving_def by blast+
  have B: "BLOCK_SIZE tr > 0" using r(1) by simp
  note rb = ireserving_bounds [OF assms(1) assms(4) [unfolded assms(3)], folded assms(3)]
  have inj: "inj_on W {k..<m}" by (rule inj_on_subset [OF r(3)]) (use rb(1) in auto)
  have "?T > 0" using assms(4,5) by (cases "?T = 0") (use B in \<open>auto simp: started_def\<close>)
  then have T: "(m - 1) * BLOCK_SIZE tr < ?T \<and> ?T \<le> m * BLOCK_SIZE tr" unfolding assms(5) by (rule below_last_started [OF B])
  have kb: "k * BLOCK_SIZE tr \<le> tailIndex p" "tailIndex p < Suc k * BLOCK_SIZE tr"
    unfolding assms(3) using dividend_less_div_times [OF B, of "tailIndex p"] by simp_all
  have rounds: "m - k \<le> Suc blocks" using assms(6,7) by simp
  note f = fill_blocks_ok [OF assms(2) B conjunct2 [OF T] conjunct1 [OF T] inj assms(8) [unfolded rb(3)] r(4) [folded assms(3)]
      order_refl assms(4) kb order_refl refl rounds]
  show t: "touched tr W k m (tailIndex p) P P'" using f by blast
  obtain c where c: "k \<le> c" "c < m" "b = Some (W c)" "c * BLOCK_SIZE tr \<le> i'" "i' \<le> Suc c * BLOCK_SIZE tr" "tailIndex p \<le> i'"
    "th = None \<longrightarrow> c = m - 1" using f by blast
  have "linked W k m P'" using r(4) by (simp only: linked_touched [OF t] assms(3))
  then have "touched tr W k m (tailIndex p) P' (destroy_blocks rounds tr i' b (Some (W k)) (tailIndex p) P')"
    unfolding c(3) by (intro destroy_blocks_ok [OF assms(2) inj c(2,4,5) order_refl c(1) _ kb order_refl c(6)])
  then show "touched tr W k m (tailIndex p) P (destroy_blocks rounds tr i' b (Some (W k)) (tailIndex p) P')" by (rule touched_trans [OF t])
  assume th: "th = None"
  have "content tr implicit_context W lo m (headIndex p) ?T (xs @ map snd items) P'"
    using f th rb(1) r(3) ireserving_content [OF assms(1)] by blast
  then show "b = Some (W (m - 1)) \<and> content tr implicit_context W lo m (headIndex p) ?T (xs @ map snd items) P'"
    using c(3,7) th by simp
qed

lemma filled_ok:
  assumes "ireserving tr W lo n m xs sb first p P" and "BLOCK_SIZE tr < 2 ^ 63" and "m = started tr T"
    and "tailIndex p div BLOCK_SIZE tr < m" and "touched tr W (tailIndex p div BLOCK_SIZE tr) m (tailIndex p) P P'"
    and "content tr implicit_context W lo m (headIndex p) T ys P'" and "frame_step own P0 (W ` {lo..<m}) P"
    and "dequeueOptimisticCount p = headIndex p + dequeueOvercommit p"
  shows "implicit_step tr own P0 ys (p\<lparr>tailBlock := Some (W (m - 1)), tailIndex := T\<rparr>) P'"
proof (rule implicit_stepI [OF _ assms(2)])
  let ?p = "p\<lparr>tailBlock := Some (W (m - 1)), tailIndex := T\<rparr>"
  have r: "BLOCK_SIZE tr > 1" "pool_ok tr P" "lo = headIndex p div BLOCK_SIZE tr" "inj_on W {lo..<m}" "W ` {lo..<m} \<subseteq> in_use P" "iindex_ok tr W lo m p"
    using assms(1) unfolding ireserving_def by blast+
  have B: "BLOCK_SIZE tr > 0" using r(1) by simp
  note P' = touched_pool [OF assms(5)]
  have "iindex_ok tr W lo m ?p" using r(6) by simp
  then have "ip_core tr W (headIndex p) T ys ?p P'"
    using r(1,2,4,5) assms(6) P'(1,2) unfolding ip_core_def r(3) [symmetric] assms(3) [symmetric] by simp
  moreover have "block_offset tr T \<noteq> 0 \<Longrightarrow> m - 1 = T div BLOCK_SIZE tr" using tail_block_number(2) [OF B, of T] assms(3) by simp
  moreover have "block_offset tr T = 0 \<Longrightarrow> m - 1 = T div BLOCK_SIZE tr - 1" using tail_block_number(1) [OF B, of T] assms(3) by simp
  ultimately show "ip_rep tr W ys ?p P'" using assms(8) by (simp add: ip_rep_def tail_full_def)
  have "lo \<le> tailIndex p div BLOCK_SIZE tr" by (rule ireserving_bounds(1) [OF assms(1,4)])
  then have "W ` {tailIndex p div BLOCK_SIZE tr..<m} \<subseteq> W ` {lo..<m}" by auto
  then have "same_blocks (in_use P - W ` {lo..<m}) P P'" using P'(3) unfolding same_blocks_def by blast
  then have "frame_step (W ` {lo..<m}) P (W ` {lo..<m}) P'" using r(5) P'(2) by (intro frame_step_own) simp_all
  then show "frame_step own P0 (ip_own tr W (headIndex ?p) (tailIndex ?p)) P'"
    using frame_step_trans [OF assms(7)] assms(3) r(3) by (simp add: ip_own_def)
qed

section \<open>The contract of bulk enqueue\<close>

lemma implicit_enqueue_bulk_nothing:
  assumes "implicit_enqueue_bulk mo tr md [] p P = (r, p', P')"
    and "new_blocks tr (tailIndex p) 0 = 0"
  shows "r = Inr True \<and> p' = p \<and> P' = P"
  using assms by (cases p) (auto simp: implicit_enqueue_bulk_def Let_def)

lemma implicit_enqueue_bulk_ok:
  fixes P :: "'a pool"
  assumes "implicit_rep tr own xs p P" and "implicit_enqueue_bulk mo tr md items p P = (r, p', P')"
  shows "implicit_step tr own P (if r = Inr True then xs @ map snd items else xs) p' P'"
proof -
  obtain W0 where W0: "ip_rep tr W0 xs p P" "own = ip_own tr W0 (headIndex p) (tailIndex p)" "BLOCK_SIZE tr < 2 ^ 63"
    using assms(1) by (auto simp: implicit_rep_def)
  let ?t = "tailIndex p" and ?lo = "headIndex p div BLOCK_SIZE tr" and ?n = "started tr (tailIndex p)" and ?T = "tailIndex p + length items"
  let ?blocks = "new_blocks tr (tailIndex p) (length items)" and ?k = "tailIndex p div BLOCK_SIZE tr"
  have B: "BLOCK_SIZE tr > 0" and cnt: "dequeueOptimisticCount p = headIndex p + dequeueOvercommit p"
    using W0(1) by (simp_all add: ip_rep_def ip_core_def)
  have blocks: "?blocks = started tr ?T - ?n" and base: "first_new_base tr ?t = ?n * BLOCK_SIZE tr" by (rule new_blocks_started [OF B])+
  have mono: "?n \<le> started tr ?T" by (rule started_mono) simp
  note r0 = ip_rep_ireserving [OF W0(1)]
  obtain ok first q P1 where tb: "take_blocks ?blocks mo tr md ?t None (?n * BLOCK_SIZE tr) p P = (ok, first, q, P1)" by (metis prod_cases4)
  obtain W m where w: "ireserving tr W ?lo ?n m xs (tailBlock p) first q P1" "?n \<le> m" "m \<le> ?n + ?blocks" "ok \<longrightarrow> m = ?n + ?blocks"
    "frame_step own P (W ` {?lo..<m}) P1" "same_counters p (q\<lparr>tailBlock := tailBlock p\<rparr>)"
    using take_blocks_ok [OF r0 tb] unfolding taken_def W0(2) ip_own_def by blast
  have sc: "tailIndex q = ?t" "headIndex q = headIndex p" "dequeueOptimisticCount q = headIndex q + dequeueOvercommit q"
    using same_counters_simps [OF w(6)] cnt by simp_all
  have rounds: "m - ?n \<le> ?blocks" using w(3) by simp
  note undo = undone_ok [OF W0(1,3) w(1,6) w(5) [unfolded W0(2)] _ rounds, folded W0(2)]
  show ?thesis
  proof (cases ok)
    case False
    then have "r = Inr False" "p' = (undo_entries ?blocks tr first (?n * BLOCK_SIZE tr) P1 q)\<lparr>tailBlock := tailBlock p\<rparr>"
      "P' = add_blocks_to_free_list ?blocks tr first P1"
      using assms(2) by (simp_all add: implicit_enqueue_bulk_def Let_def base tb)
    then show ?thesis using undo [OF touched_refl] by simp
  next
    case True
    then have m: "m = started tr ?T" "m \<le> ?n + ?blocks" using w(4) blocks mono by simp_all
    define b0 where "b0 = (if block_offset tr ?t = 0 \<and> first \<noteq> None then first else tailBlock p)"
    obtain th t' b P2 where fb: "fill_blocks (Suc ?blocks) tr ?T (tailBlock q) b0 ?t items P1 = (th, t', b, P2)" by (metis prod_cases4)
    note res = assms(2) [unfolded implicit_enqueue_bulk_def Let_def base tb prod.case, folded b0_def, unfolded fb prod.case]
    note tbn = tail_block_number [OF B, of ?t]
    have nk: "?n \<le> Suc ?k" using tbn by (cases "block_offset tr ?t = 0") simp_all
    show ?thesis
    proof (cases "?k < m")
      case k: True
      note bounds = ireserving_bounds [OF w(1) k [folded sc(1)], unfolded sc(1), folded b0_def]
      note fill = ireserving_fill [OF w(1) W0(3) refl, unfolded sc, OF k m nk fb [unfolded bounds(2)]]
      show ?thesis
      proof (cases th)
        case None
        then have "r = Inr True" "p' = q\<lparr>tailBlock := Some (W (m - 1)), tailIndex := ?T\<rparr>" "P' = P2" using res True fill(3) by simp_all
        moreover have "content tr implicit_context W ?lo m (headIndex q) ?T (xs @ map snd items) P2" using fill(3) None sc by simp
        ultimately show ?thesis
          using filled_ok [OF w(1) W0(3) m(1) _ _ _ w(5) sc(3)] k fill(1) sc by simp
      next
        case (Some e)
        let ?P = "destroy_blocks (Suc ?blocks) tr t' b (Some (W ?k)) ?t P2"
        have "r = Inl e" "p' = (undo_entries ?blocks tr first (?n * BLOCK_SIZE tr) ?P q)\<lparr>tailBlock := tailBlock p\<rparr>"
          "P' = add_blocks_to_free_list ?blocks tr first ?P"
          using res True Some by (simp_all add: bounds(4) del: destroy_blocks.simps)
        moreover have "implicit_step tr own P xs ((undo_entries ?blocks tr first (?n * BLOCK_SIZE tr) ?P q)\<lparr>tailBlock := tailBlock p\<rparr>)
          (add_blocks_to_free_list ?blocks tr first ?P)" by (rule undo [OF fill(2)]) (simp add: Some)
        ultimately show ?thesis by (simp only: Inl_Inr_False if_False sum.distinct)
      qed
    next
      case False
      have "block_offset tr ?t = 0" using False tbn(2) w(2) by (cases "block_offset tr ?t = 0") auto
      then have k: "?k = ?n" using tbn(1) by simp
      have "items = []"
      proof (rule ccontr)
        assume "items \<noteq> []"
        then have "started tr (Suc ?t) \<le> started tr ?T" by (intro started_mono) (cases items; simp)
        moreover have "started tr (Suc ?t) = Suc ?n" using started_Suc_boundary [OF B] \<open>block_offset tr ?t = 0\<close> by (simp add: block_offset_def)
        ultimately show False using False k m(1) by simp
      qed
      moreover from this have "new_blocks tr ?t 0 = 0" using blocks by simp
      ultimately have "r = Inr True" "p' = p" "P' = P" using implicit_enqueue_bulk_nothing assms(2) by blast+
      moreover have "own \<subseteq> in_use P" by (rule implicit_rep_in_use [OF assms(1)])
      ultimately show ?thesis using assms(1) frame_step_refl [of own P] \<open>items = []\<close> unfolding implicit_step_def by auto
    qed
  qed
qed

interpretation implicit_bulk: bulk_sub_queue "implicit_rep tr" "implicit_enqueue mo tr m" "implicit_dequeue tr" "implicit_dequeue_bulk tr"
    "implicit_enqueue_bulk mo tr m" "\<lambda>p r. True"
  for tr mo m
proof
  fix own xs and p :: iproducer and P P' :: "'a pool" and items r p'
  assume "implicit_rep tr own xs p P" "implicit_enqueue_bulk mo tr m items p P = (r, p', P')"
  from implicit_enqueue_bulk_ok [OF this]
  show "\<exists>own'. frame_step own P own' P' \<and> implicit_rep tr own' (if r = Inr True then xs @ map snd items else xs) p' P'"
    by (simp only: implicit_step_def)
qed

text \<open>
  \<open>enqueue_bulk\<close> of a thread without a token is all or nothing, wherever it comes in a sequence of operations: when
  it succeeds all its elements are handed out in order after those accepted before and before those accepted later; when an
  allocation fails, the queue is full or a constructor throws, none is, and the operations before and after it go on as if it had not been called.
\<close>

theorem implicit_bulk_all_or_nothing:
  assumes "pool_ok tr P" and "traits_ok tr" and "BLOCK_SIZE tr < 2 ^ 63" and "length ops + length items + length ops' < 2 ^ 63"
    and "ImplicitProducer mo tr P = (p, P0)"
    and "sub_run (implicit_enqueue mo tr m) (implicit_dequeue tr) (implicit_dequeue_bulk tr) ops p P0 = (acc, out, p1, P1)"
    and "implicit_enqueue_bulk mo tr m items p1 P1 = (r, p2, P2)"
    and "sub_run (implicit_enqueue mo tr m) (implicit_dequeue tr) (implicit_dequeue_bulk tr) ops' p2 P2 = (acc', out', p', P')"
  shows "\<exists>own' ys zs. out @ out' = map Some zs \<and> acc @ (if r = Inr True then map snd items else []) @ acc' = zs @ ys
     \<and> implicit_rep tr own' ys p' P' \<and> frame_step {} P own' P'"
proof -
  note e = ImplicitProducer_ok [OF assms(1-3,5)]
  have "length ([] :: 'a list) + length ops + length items + length ops' < 2 ^ 63" using assms(4) by simp
  from implicit_bulk.run_bulk_fifo [OF e(1) assms(6,7) TrueI assms(8) this sub_run_accepted [OF assms(6)]] obtain own' ys zs where
    "frame_step {} P0 own' P'" "implicit_rep tr own' ys p' P'" "out @ out' = map Some zs"
    "acc @ (if r = Inr True then map snd items else []) @ acc' = zs @ ys" by auto
  then show ?thesis using frame_step_trans [OF e(2)] by blast
qed

theorem implicit_bulk_all_or_nothing_witness:
  "\<exists>p P0 acc out p1 P1 r p2 P2 acc' out' p' P' ys zs. ImplicitProducer (\<lambda>_. True) small_traits (empty_pool small_traits :: nat pool) = (p, P0)
     \<and> sub_run (implicit_enqueue (\<lambda>_. True) small_traits CanAlloc) (implicit_dequeue small_traits)
         (implicit_dequeue_bulk small_traits) [SubEnq None 7] p P0 = (acc, out, p1, P1)
     \<and> implicit_enqueue_bulk (\<lambda>_. True) small_traits CanAlloc [(None, 8), (None, 9), (Some bad_alloc, 10)] p1 P1 = (r, p2, P2)
     \<and> sub_run (implicit_enqueue (\<lambda>_. True) small_traits CanAlloc) (implicit_dequeue small_traits)
         (implicit_dequeue_bulk small_traits) [SubBulk 3] p2 P2 = (acc', out', p', P')
     \<and> out @ out' = map Some zs \<and> acc @ (if r = Inr True then [8, 9, 10] else []) @ acc' = zs @ ys"
proof -
  obtain p P0 where p: "ImplicitProducer (\<lambda>_. True) small_traits (empty_pool small_traits :: nat pool) = (p, P0)" by (metis prod.exhaust)
  obtain acc out p1 P1 where r1: "sub_run (implicit_enqueue (\<lambda>_. True) small_traits CanAlloc) (implicit_dequeue small_traits)
      (implicit_dequeue_bulk small_traits) [SubEnq None 7] p P0 = (acc, out, p1, P1)" by (metis prod_cases4)
  obtain r p2 P2 where b: "implicit_enqueue_bulk (\<lambda>_. True) small_traits CanAlloc [(None, 8), (None, 9), (Some bad_alloc, 10)] p1 P1 = (r, p2, P2)"
    by (metis prod_cases3)
  obtain acc' out' p' P' where r2: "sub_run (implicit_enqueue (\<lambda>_. True) small_traits CanAlloc) (implicit_dequeue small_traits)
      (implicit_dequeue_bulk small_traits) [SubBulk 3] p2 P2 = (acc', out', p', P')" by (metis prod_cases4)
  have "length [SubEnq None 7 :: nat sub_op] + length [(None, 8), (None, 9), (Some bad_alloc, 10 :: nat)] + length [SubBulk 3 :: nat sub_op] < 2 ^ 63"
    by simp
  from implicit_bulk_all_or_nothing [OF small_traits_ok this p r1 b r2] show ?thesis using p r1 b r2 by auto
qed

end
