(* ===== verification/CQ_ProducerHash.thy ===== *)
theory CQ_ProducerHash
  imports CQ_Details
begin

text \<open>
  The hash that maps thread ids to implicit producers in \<open>ConcurrentQueue\<close>: a chain of open-addressing
  tables, the current one first.  A full probe of a table that has no free slot would never end: the searches
  are bounded by the capacity, and running out of rounds stands for not returning.
\<close>

section \<open>Tables\<close>

type_synonym thread_id = "64 word"

text \<open>A table is the array of its \<open>ImplicitProducerKVP\<close> entries; its capacity is the length.\<close>

type_synonym table = "(thread_id \<times> nat option) list"

definition invalid_thread_id :: thread_id where
  "invalid_thread_id = 0"

definition invalid_thread_id2 :: thread_id where
  "invalid_thread_id2 = 1"

definition hash_thread_id :: "thread_id \<Rightarrow> nat" where
  "hash_thread_id tid = unat (hash64 tid)"

definition empty_table :: "nat \<Rightarrow> table" where
  "empty_table capacity = replicate capacity (invalid_thread_id, None)"

datatype probe_result = Found nat | Absent | Stuck

text \<open>The search for a thread id in one table.\<close>

primrec probe :: "nat \<Rightarrow> table \<Rightarrow> thread_id \<Rightarrow> nat \<Rightarrow> probe_result" where
  "probe 0 entries tid index = Stuck"
| "probe (Suc rounds) entries tid index =
     (let index = index mod length entries; probedKey = fst (entries ! index) in
      if probedKey = tid then Found index
      else if probedKey = invalid_thread_id then Absent
      else probe rounds entries tid (index + 1))"

text \<open>The search for a slot whose key one of the two exchanges replaces.\<close>

primrec free_slot :: "nat \<Rightarrow> table \<Rightarrow> nat \<Rightarrow> nat option" where
  "free_slot 0 entries index = None"
| "free_slot (Suc rounds) entries index =
     (let index = index mod length entries; key = fst (entries ! index) in
      if key = invalid_thread_id \<or> key = invalid_thread_id2 then Some index
      else free_slot rounds entries (index + 1))"

section \<open>The chain\<close>

record phash =
  tables :: "table list"
  implicitProducerHashCount :: nat

definition populate_initial_implicit_producer_hash :: "nat \<Rightarrow> phash" where
  "populate_initial_implicit_producer_hash n =
     \<lparr>tables = (if n = 0 then [] else [empty_table n]), implicitProducerHashCount = 0\<rparr>"

text \<open>The loop over the chain: the depth of the table that has the id, and the value it has there.\<close>

datatype search_result = Hit nat "nat option" | Miss | Never

primrec search :: "nat \<Rightarrow> table list \<Rightarrow> thread_id \<Rightarrow> search_result" where
  "search depth [] tid = Miss"
| "search depth (entries # prev) tid =
     (case probe (length entries) entries tid (hash_thread_id tid) of
        Found index \<Rightarrow> Hit depth (snd (entries ! index))
      | Absent \<Rightarrow> search (depth + 1) prev tid
      | Stuck \<Rightarrow> Never)"

text \<open>Claim a slot of the main table; \<open>True\<close> when the slot is one a thread that exited has left.\<close>

definition claim_slot :: "thread_id \<Rightarrow> nat option \<Rightarrow> table \<Rightarrow> (bool \<times> table) option" where
  "claim_slot tid value entries =
     (case free_slot (length entries) entries (hash_thread_id tid) of
        None \<Rightarrow> None
      | Some index \<Rightarrow> Some (fst (entries ! index) = invalid_thread_id2, entries[index := (tid, value)]))"

text \<open>The first part of \<open>get_or_add_implicit_producer\<close>: an id found in an older table is added to the main one.\<close>

definition find_producer :: "thread_id \<Rightarrow> phash \<Rightarrow> (nat option option \<times> phash) option" where
  "find_producer tid h =
     (case search 0 (tables h) tid of
        Never \<Rightarrow> None
      | Miss \<Rightarrow> Some (None, h)
      | Hit depth value \<Rightarrow>
          if depth = 0 then Some (Some value, h)
          else (case claim_slot tid value (hd (tables h)) of
                  None \<Rightarrow> None
                | Some (_, main) \<Rightarrow> Some (Some value, h\<lparr>tables := main # tl (tables h)\<rparr>)))"

text \<open>The loop that doubles the capacity of the next table.  It ends when twice the count fits.\<close>

function grow_capacity :: "nat \<Rightarrow> nat \<Rightarrow> nat" where
  "grow_capacity newCount newCapacity =
     (if newCount \<ge> newCapacity div 2 \<and> newCapacity > 0 then grow_capacity newCount (2 * newCapacity) else newCapacity)"
  by auto
termination
  by (relation "measure (\<lambda>(newCount, newCapacity). 2 * newCount + 2 - newCapacity)") auto

text \<open>
  Resize when the table would be half full.  Without contention the resize flag is free, and the table read again is
  the same.  \<open>malloc_ok\<close> says whether the allocation of the table succeeds.
\<close>

definition resize_if_needed :: "bool \<Rightarrow> nat \<Rightarrow> phash \<Rightarrow> phash option" where
  "resize_if_needed malloc_ok newCount h =
     (let capacity = length (hd (tables h)) in
      if newCount \<ge> capacity div 2 then
        if malloc_ok then Some (h\<lparr>tables := empty_table (grow_capacity newCount (2 * capacity)) # tables h\<rparr>) else None
      else Some h)"

text \<open>The end of \<open>get_or_add_implicit_producer\<close>: put the id with its new producer into the main table.\<close>

definition insert_producer :: "thread_id \<Rightarrow> nat option \<Rightarrow> phash \<Rightarrow> phash option" where
  "insert_producer tid producer h =
     (case claim_slot tid producer (hd (tables h)) of
        None \<Rightarrow> None
      | Some (reused, main) \<Rightarrow>
          Some (h\<lparr>tables := main # tl (tables h),
                 implicitProducerHashCount := (if reused then implicitProducerHashCount h - 1 else implicitProducerHashCount h)\<rparr>))"

text \<open>\<open>implicit_producer_thread_exited\<close>: the id is replaced in every table that has it.\<close>

definition forget :: "thread_id \<Rightarrow> table \<Rightarrow> table option" where
  "forget tid entries =
     (case probe (length entries) entries tid (hash_thread_id tid) of
        Found index \<Rightarrow> Some (entries[index := (invalid_thread_id2, snd (entries ! index))])
      | Absent \<Rightarrow> Some entries
      | Stuck \<Rightarrow> None)"

primrec forget_all :: "thread_id \<Rightarrow> table list \<Rightarrow> table list option" where
  "forget_all tid [] = Some []"
| "forget_all tid (entries # prev) =
     (case forget tid entries of None \<Rightarrow> None
      | Some entries' \<Rightarrow> map_option (\<lambda>prev'. entries' # prev') (forget_all tid prev))"

definition implicit_producer_thread_exited :: "thread_id \<Rightarrow> phash \<Rightarrow> phash option" where
  "implicit_producer_thread_exited tid h = map_option (\<lambda>ts. h\<lparr>tables := ts\<rparr>) (forget_all tid (tables h))"

section \<open>Probing\<close>

definition slot_at :: "table \<Rightarrow> nat \<Rightarrow> nat \<Rightarrow> nat" where
  "slot_at entries index d = (index + d) mod length entries"

lemma slot_at_Suc: "slot_at entries (index mod length entries + 1) d = slot_at entries index (Suc d)"
  unfolding slot_at_def by (metis add_Suc_right add.commute mod_add_left_eq plus_1_eq_Suc)

lemma upt_Suc_map: "[0..<Suc r] = 0 # map Suc [0..<r]"
  by (simp add: map_Suc_upt upt_conv_Cons)

lemma find_map_Suc: "find P (map Suc xs) = map_option Suc (find (\<lambda>d. P (Suc d)) xs)"
  by (induction xs) auto

lemma probe_find:
  "probe r entries tid index =
     (case find (\<lambda>d. fst (entries ! slot_at entries index d) \<in> {tid, invalid_thread_id}) [0..<r] of
        None \<Rightarrow> Stuck
      | Some d \<Rightarrow> if fst (entries ! slot_at entries index d) = tid then Found (slot_at entries index d) else Absent)"
proof (induction r arbitrary: index)
  case (Suc r)
  have 0: "slot_at entries index 0 = index mod length entries" by (simp add: slot_at_def)
  show ?case unfolding upt_Suc_map probe.simps Let_def Suc.IH slot_at_Suc
    by (auto simp: find_map_Suc 0 split: option.splits)
qed simp

lemma free_slot_find:
  "free_slot r entries index =
     map_option (slot_at entries index)
       (find (\<lambda>d. fst (entries ! slot_at entries index d) \<in> {invalid_thread_id, invalid_thread_id2}) [0..<r])"
proof (induction r arbitrary: index)
  case (Suc r)
  have 0: "slot_at entries index 0 = index mod length entries" by (simp add: slot_at_def)
  show ?case unfolding upt_Suc_map free_slot.simps Let_def Suc.IH slot_at_Suc
    by (auto simp: find_map_Suc 0 option.map_comp o_def slot_at_Suc)
qed simp

lemma find_first:
  assumes "\<exists>d<r. P d"
  obtains d where "find P [0..<r] = Some d" "d < r" "P d" "\<forall>e<d. \<not> P e"
proof -
  obtain d where "find P [0..<r] = Some d" using assms by (cases "find P [0..<r]") (auto simp: find_None_iff)
  moreover from this have "d < r" "P d" "\<forall>e<d. \<not> P e" by (auto simp: find_Some_iff)
  ultimately show thesis by (rule that)
qed

lemma slot_at_less: "entries \<noteq> [] \<Longrightarrow> slot_at entries index d < length entries"
  by (simp add: slot_at_def)

lemma slot_at_covers:
  assumes "j < length entries"
  shows "\<exists>d<length entries. slot_at entries index d = j"
proof -
  let ?n = "length entries"
  have "(index + (j + ?n - index mod ?n) mod ?n) mod ?n = (index mod ?n + (j + ?n - index mod ?n)) mod ?n"
    by (metis mod_add_eq mod_mod_trivial)
  also have "index mod ?n + (j + ?n - index mod ?n) = j + ?n" using assms mod_less_divisor [of ?n index] by linarith
  finally have "slot_at entries index ((j + ?n - index mod ?n) mod ?n) = j" using assms by (simp add: slot_at_def)
  moreover have "(j + ?n - index mod ?n) mod ?n < ?n" using assms by (intro mod_less_divisor) linarith
  ultimately show ?thesis by blast
qed

section \<open>Well-formed tables\<close>

definition live :: "thread_id \<Rightarrow> bool" where
  "live tid \<longleftrightarrow> tid \<noteq> invalid_thread_id \<and> tid \<noteq> invalid_thread_id2"

definition used :: "table \<Rightarrow> nat" where
  "used entries = length (filter (\<lambda>e. fst e \<noteq> invalid_thread_id) entries)"

text \<open>Keys of live threads are at distinct slots, each reachable by probing from the hash of the key.\<close>

definition reachable :: "table \<Rightarrow> nat \<Rightarrow> bool" where
  "reachable entries i \<longleftrightarrow>
     (\<exists>d<length entries. slot_at entries (hash_thread_id (fst (entries ! i))) d = i
        \<and> (\<forall>e<d. fst (entries ! slot_at entries (hash_thread_id (fst (entries ! i))) e) \<noteq> invalid_thread_id))"

definition table_ok :: "table \<Rightarrow> bool" where
  "table_ok entries \<longleftrightarrow>
     used entries < length entries
     \<and> (\<forall>i<length entries. live (fst (entries ! i)) \<longrightarrow> reachable entries i)
     \<and> (\<forall>i<length entries. \<forall>j<length entries. live (fst (entries ! i)) \<and> fst (entries ! i) = fst (entries ! j) \<longrightarrow> i = j)"

definition keys :: "table \<Rightarrow> thread_id set" where
  "keys entries = {k \<in> fst ` set entries. live k}"

lemma used_free: "used entries < length entries \<Longrightarrow> \<exists>i<length entries. fst (entries ! i) = invalid_thread_id"
proof (rule ccontr)
  assume "used entries < length entries" and "\<not> (\<exists>i<length entries. fst (entries ! i) = invalid_thread_id)"
  moreover from this have "filter (\<lambda>e. fst e \<noteq> invalid_thread_id) entries = entries"
    by (intro filter_True) (metis in_set_conv_nth)
  ultimately show False by (simp add: used_def)
qed

text \<open>Probing a well-formed table ends, and finds the id exactly when the table has it.\<close>

lemma probe_ok:
  assumes "table_ok entries" and "live tid"
  shows "case probe (length entries) entries tid (hash_thread_id tid) of
      Found i \<Rightarrow> i < length entries \<and> fst (entries ! i) = tid | Absent \<Rightarrow> tid \<notin> keys entries | Stuck \<Rightarrow> False"
proof -
  let ?s = "slot_at entries (hash_thread_id tid)" and ?n = "length entries"
  let ?P = "\<lambda>d. fst (entries ! ?s d) \<in> {tid, invalid_thread_id}"
  have ne: "entries \<noteq> []" using assms(1) by (auto simp: table_ok_def)
  obtain j where "j < ?n" "fst (entries ! j) = invalid_thread_id" using assms(1) used_free unfolding table_ok_def by blast
  then have "\<exists>d<?n. ?P d" using slot_at_covers [of j entries "hash_thread_id tid"] by auto
  then obtain d where d: "find ?P [0..<?n] = Some d" "d < ?n" "?P d" "\<forall>e<d. \<not> ?P e" by (rule find_first)
  have "tid \<notin> keys entries" if absent: "fst (entries ! ?s d) \<noteq> tid"
  proof
    assume "tid \<in> keys entries"
    then obtain i where i: "i < ?n" "fst (entries ! i) = tid" by (auto simp: keys_def in_set_conv_nth)
    then obtain d' where d': "?s d' = i" "\<forall>e<d'. fst (entries ! ?s e) \<noteq> invalid_thread_id"
      using assms by (auto simp: table_ok_def reachable_def)
    then have "\<not> d < d'" using d(3) absent by auto
    moreover have "d' \<noteq> d" using d' i absent by auto
    ultimately show False using d(4) d'(1) i(2) by auto
  qed
  then show ?thesis unfolding probe_find d(1) using slot_at_less [OF ne] by simp
qed

text \<open>Claiming a slot of a table that keeps a free one adds the key and nothing else.\<close>

definition claims :: "thread_id \<Rightarrow> nat option \<Rightarrow> table \<Rightarrow> nat \<Rightarrow> bool" where
  "claims tid v entries i \<longleftrightarrow>
     i < length entries \<and> fst (entries ! i) \<in> {invalid_thread_id, invalid_thread_id2}
     \<and> claim_slot tid v entries = Some (fst (entries ! i) = invalid_thread_id2, entries[i := (tid, v)])
     \<and> (\<exists>d<length entries. slot_at entries (hash_thread_id tid) d = i
          \<and> (\<forall>e<d. fst (entries ! slot_at entries (hash_thread_id tid) e) \<noteq> invalid_thread_id))"

lemma claim_slot_ok:
  assumes "used entries < length entries"
  obtains i where "claims tid v entries i"
proof -
  let ?s = "slot_at entries (hash_thread_id tid)" and ?n = "length entries"
  let ?P = "\<lambda>d. fst (entries ! ?s d) \<in> {invalid_thread_id, invalid_thread_id2}"
  have ne: "entries \<noteq> []" using assms by auto
  obtain j where "j < ?n" "fst (entries ! j) = invalid_thread_id" using used_free [OF assms] by blast
  then have "\<exists>d<?n. ?P d" using slot_at_covers [of j entries "hash_thread_id tid"] by auto
  then obtain d where d: "find ?P [0..<?n] = Some d" "d < ?n" "?P d" "\<forall>e<d. \<not> ?P e" by (rule find_first)
  have "claims tid v entries (?s d)" unfolding claims_def claim_slot_def free_slot_find d(1)
    using d slot_at_less [OF ne] by auto
  then show thesis by (rule that)
qed

section \<open>Updating a slot\<close>

lemma table_okI:
  assumes "used es < length es" and "\<And>i. i < length es \<Longrightarrow> live (fst (es ! i)) \<Longrightarrow> reachable es i"
    and "\<And>i j. i < length es \<Longrightarrow> j < length es \<Longrightarrow> live (fst (es ! i)) \<Longrightarrow> fst (es ! i) = fst (es ! j) \<Longrightarrow> i = j"
  shows "table_ok es"
  using assms unfolding table_ok_def by blast

lemma keys_nth: "keys es = {k. live k \<and> (\<exists>j<length es. fst (es ! j) = k)}"
  unfolding keys_def set_conv_nth by force

lemma used_update:
  "i < length es \<Longrightarrow> used (es[i := x]) + (if fst (es ! i) \<noteq> invalid_thread_id then 1 else 0)
     = used es + (if fst x \<noteq> invalid_thread_id then 1 else 0)"
proof (induction es arbitrary: i)
  case (Cons e es)
  show ?case
  proof (cases i)
    case (Suc j)
    then show ?thesis using Cons.IH [of j] Cons.prems by (simp add: used_def split: if_splits)
  qed (simp add: used_def)
qed simp

lemma map_of_update_other: "k \<noteq> fst x \<Longrightarrow> k \<noteq> fst (es ! i) \<Longrightarrow> map_of (es[i := x]) k = map_of es k"
  by (induction es arbitrary: i) (auto split: nat.splits)

lemma map_of_update_new: "i < length es \<Longrightarrow> k \<notin> fst ` set es \<Longrightarrow> map_of (es[i := (k, v)]) k = Some v"
  by (induction es arbitrary: i) (auto split: nat.splits)

lemma map_of_live_none: "live k \<Longrightarrow> map_of es k = None \<longleftrightarrow> k \<notin> keys es"
  by (auto simp: map_of_eq_None_iff keys_def)

lemma map_of_at:
  assumes "table_ok es" and "live k" and "i < length es" and "fst (es ! i) = k"
  shows "map_of es k = Some (snd (es ! i))"
proof -
  have "k \<in> fst ` set es" using assms(3,4) by (metis image_eqI nth_mem)
  then obtain v where v: "map_of es k = Some v" by (metis map_of_eq_None_iff not_None_eq)
  then obtain j where "j < length es" "es ! j = (k, v)" by (metis map_of_SomeD in_set_conv_nth)
  moreover from this have "j = i" using assms unfolding table_ok_def by (metis fst_conv)
  ultimately show ?thesis using v by simp
qed

lemma slot_at_update [simp]: "slot_at (es[i := x]) index d = slot_at es index d"
  by (simp add: slot_at_def)

lemma live_invalid [simp]: "\<not> live invalid_thread_id" "\<not> live invalid_thread_id2"
  "invalid_thread_id2 \<noteq> invalid_thread_id"
  by (simp_all add: live_def invalid_thread_id_def invalid_thread_id2_def)

text \<open>Slots in use stay in use, so what was reachable stays reachable.\<close>

lemma reachable_update:
  assumes "reachable es j" and "j \<noteq> i" and "i < length es" and "fst x \<noteq> invalid_thread_id"
  shows "reachable (es[i := x]) j"
proof -
  let ?h = "hash_thread_id (fst (es ! j))"
  obtain d where "d < length es" "slot_at es ?h d = j" "\<forall>e<d. fst (es ! slot_at es ?h e) \<noteq> invalid_thread_id"
    using assms(1) by (auto simp: reachable_def)
  moreover have "fst (es[i := x] ! s) \<noteq> invalid_thread_id" if "fst (es ! s) \<noteq> invalid_thread_id" for s
    using that assms(3,4) by (cases "s = i") simp_all
  ultimately show ?thesis using assms(2) unfolding reachable_def by auto
qed

lemma keys_update_new:
  assumes "i < length es" and "\<not> live (fst (es ! i))" and "live k"
  shows "keys (es[i := (k, v)]) = insert k (keys es)"
proof
  have "set (es[i := (k, v)]) \<subseteq> insert (k, v) (set es)" by (rule set_update_subset_insert)
  then show "keys (es[i := (k, v)]) \<subseteq> insert k (keys es)" by (force simp: keys_def)
  have "fst (es ! j) \<in> fst ` set (es[i := (k, v)])" if "j < length es" "live (fst (es ! j))" for j
  proof -
    have "j \<noteq> i" using that assms(2) by auto
    then have "es[i := (k, v)] ! j = es ! j" by simp
    then show ?thesis using that(1) by (metis image_eqI length_list_update nth_mem)
  qed
  moreover have "k \<in> fst ` set (es[i := (k, v)])" using assms(1) set_update_memI by force
  ultimately show "insert k (keys es) \<subseteq> keys (es[i := (k, v)])" using assms(3) unfolding keys_def
    by (smt (verit) imageE in_set_conv_nth insertE mem_Collect_eq subsetI)
qed

lemma claims_ok:
  assumes "table_ok es" and "live k" and "k \<notin> keys es" and "claims k v es i"
    and "fst (es ! i) = invalid_thread_id2 \<or> Suc (used es) < length es"
  defines "es' \<equiv> es[i := (k, v)]"
  shows "table_ok es'" and "keys es' = insert k (keys es)" and "\<forall>j. live j \<longrightarrow> map_of es' j = ((map_of es)(k \<mapsto> v)) j"
    and "used es' = (if fst (es ! i) = invalid_thread_id2 then used es else Suc (used es))"
proof -
  have i: "i < length es" "fst (es ! i) \<in> {invalid_thread_id, invalid_thread_id2}" using assms(4) by (simp_all add: claims_def)
  have kz: "k \<noteq> invalid_thread_id" using assms(2) by auto
  show u: "used es' = (if fst (es ! i) = invalid_thread_id2 then used es else Suc (used es))"
    unfolding es'_def using used_update [OF i(1), of "(k, v)"] i(2) kz by auto
  show "keys es' = insert k (keys es)" unfolding es'_def using i assms(2) by (intro keys_update_new) auto
  have nk: "k \<notin> fst ` set es" using assms(2,3) by (simp add: keys_def)
  show "\<forall>j. live j \<longrightarrow> map_of es' j = ((map_of es)(k \<mapsto> v)) j"
  proof (intro allI impI)
    fix j assume "live j"
    then have "j \<noteq> fst (es ! i)" using i(2) by auto
    then show "map_of es' j = ((map_of es)(k \<mapsto> v)) j"
      unfolding es'_def using map_of_update_new [OF i(1) nk] map_of_update_other [of j "(k, v)" es i] by (cases "j = k") simp_all
  qed
  have fresh: "fst (es ! j) \<noteq> k" if "j < length es" for j using nk that by (metis image_eqI nth_mem)
  have "reachable es' j" if "j < length es" "live (fst (es' ! j))" for j
  proof (cases "j = i")
    case True
    obtain d where "d < length es" "slot_at es (hash_thread_id k) d = i"
        "\<forall>e<d. fst (es ! slot_at es (hash_thread_id k) e) \<noteq> invalid_thread_id" using assms(4) by (auto simp: claims_def)
    moreover have "fst (es' ! s) \<noteq> invalid_thread_id" if "fst (es ! s) \<noteq> invalid_thread_id" for s
      using that i(1) kz unfolding es'_def by (cases "s = i") simp_all
    ultimately show ?thesis using True i(1) unfolding reachable_def es'_def by auto
  next
    case False
    then have "reachable es j" using that assms(1) by (auto simp: table_ok_def es'_def)
    then show ?thesis unfolding es'_def using False i(1) kz by (intro reachable_update) auto
  qed
  moreover have "i1 = i2" if "i1 < length es" "i2 < length es" "live (fst (es' ! i1))" "fst (es' ! i1) = fst (es' ! i2)" for i1 i2
    using that assms(1) fresh [of i1] fresh [of i2] i(1) unfolding es'_def table_ok_def
    by (cases "i1 = i"; cases "i2 = i") auto
  moreover have "used es' < length es'" using u assms(1,5) by (auto simp: es'_def table_ok_def split: if_splits)
  ultimately show "table_ok es'" by (intro table_okI) (simp_all add: es'_def)
qed


text \<open>A key replaced by the mark of an exited thread.\<close>

lemma forget_ok:
  assumes "table_ok es" and "live k"
  obtains es' where "forget k es = Some es'" "table_ok es'" "keys es' = keys es - {k}" "used es' = used es"
    "length es' = length es" "\<And>j. live j \<Longrightarrow> map_of es' j = ((map_of es)(k := None)) j"
proof (cases "probe (length es) es k (hash_thread_id k)")
  case (Found i)
  let ?es = "es[i := (invalid_thread_id2, snd (es ! i))]"
  have i: "i < length es" "fst (es ! i) = k" using probe_ok [OF assms] Found by simp_all
  have uniq: "j = i" if "j < length es" "fst (es ! j) = k" for j
    using that i assms unfolding table_ok_def by metis
  have key: "fst (?es ! j) = (if j = i then invalid_thread_id2 else fst (es ! j))" if "j < length es" for j using that i(1) by simp
  have "keys ?es = keys es - {k}"
  proof (rule set_eqI)
    fix x
    have "x \<in> keys ?es \<longleftrightarrow> live x \<and> (\<exists>j<length es. j \<noteq> i \<and> fst (es ! j) = x)"
    proof
      assume "x \<in> keys ?es"
      then obtain j where "j < length es" "fst (?es ! j) = x" "live x" by (auto simp: keys_nth)
      then show "live x \<and> (\<exists>j<length es. j \<noteq> i \<and> fst (es ! j) = x)" using key [of j] by (auto split: if_splits)
    next
      assume "live x \<and> (\<exists>j<length es. j \<noteq> i \<and> fst (es ! j) = x)"
      then show "x \<in> keys ?es" using key by (auto simp: keys_nth)
    qed
    also have "\<dots> \<longleftrightarrow> x \<in> keys es - {k}" unfolding keys_nth using uniq i(2) by blast
    finally show "x \<in> keys ?es \<longleftrightarrow> x \<in> keys es - {k}" .
  qed
  moreover have u: "used ?es = used es"
    using used_update [OF i(1), of "(invalid_thread_id2, snd (es ! i))"] i(2) assms(2) by (auto simp: live_def)
  moreover have "table_ok ?es"
  proof (rule table_okI)
    show "used ?es < length ?es" using u assms(1) by (simp add: table_ok_def)
    show "reachable ?es j" if "j < length ?es" "live (fst (?es ! j))" for j
      using that key [of j] i(1) assms(1) by (intro reachable_update) (auto simp: table_ok_def split: if_splits)
    show "j1 = j2" if "j1 < length ?es" "j2 < length ?es" "live (fst (?es ! j1))" "fst (?es ! j1) = fst (?es ! j2)" for j1 j2
      using that key [of j1] key [of j2] assms(1) unfolding table_ok_def by (auto split: if_splits)
  qed
  moreover have "map_of ?es j = ((map_of es)(k := None)) j" if j: "live j" for j
  proof (cases "j = k")
    case True
    have "k \<notin> keys ?es" using calculation(1) by simp
    then show ?thesis using True map_of_live_none [OF assms(2)] by simp
  next
    case False
    then show ?thesis using j i(2) map_of_update_other [of j "(invalid_thread_id2, snd (es ! i))" es i] by (auto simp: live_def)
  qed
  moreover have "forget k es = Some ?es" using Found by (simp add: forget_def)
  ultimately show thesis using that [of ?es] by (simp add: length_list_update)
next
  case Absent
  then have nk: "k \<notin> keys es" using probe_ok [OF assms] by simp
  then have "map_of es k = None" using map_of_live_none [OF assms(2)] by blast
  then have "map_of es j = ((map_of es)(k := None)) j" for j by simp
  then show thesis using that [of es] Absent nk assms(1) by (simp add: forget_def)
next
  case Stuck
  then show thesis using probe_ok [OF assms] by simp
qed

section \<open>The invariant of the chain\<close>

text \<open>The producer of a thread, as the chain records it.\<close>

definition assoc :: "table list \<Rightarrow> thread_id \<Rightarrow> nat option option" where
  "assoc ts tid = map_of (concat ts) tid"

text \<open>
  \<open>waiting\<close> are the ids of older tables that the main table does not have yet: it keeps room for them, because
  the count covers them too.
\<close>

definition waiting :: "table list \<Rightarrow> thread_id set" where
  "waiting ts = \<Union> (keys ` set (tl ts)) - keys (hd ts)"

definition chain_ok :: "table list \<Rightarrow> nat \<Rightarrow> bool" where
  "chain_ok ts count \<longleftrightarrow> ts \<noteq> [] \<and> (\<forall>t\<in>set ts. table_ok t) \<and> used (hd ts) + card (waiting ts) \<le> count"

definition hash_ok :: "phash \<Rightarrow> bool" where
  "hash_ok h \<longleftrightarrow> chain_ok (tables h) (implicitProducerHashCount h) \<and> implicitProducerHashCount h < length (hd (tables h))"

lemma assoc_Cons: "assoc (t # ts) k = (case map_of t k of Some v \<Rightarrow> Some v | None \<Rightarrow> assoc ts k)"
  by (simp add: assoc_def map_add_def split: option.split)

lemma finite_keys [simp]: "finite (keys t)"
  by (simp add: keys_def)

lemma finite_waiting [simp]: "finite (waiting ts)"
  by (simp add: waiting_def)

lemma assoc_keys: "live k \<Longrightarrow> assoc ts k \<noteq> None \<longleftrightarrow> k \<in> \<Union> (keys ` set ts)"
proof (induction ts)
  case (Cons t ts)
  then show ?case using map_of_live_none [of k t] by (auto simp: assoc_Cons split: option.splits)
qed (simp add: assoc_def)

lemma search_ok:
  assumes "\<forall>t\<in>set ts. table_ok t" and "live k"
  shows "search depth ts k = Miss \<and> assoc ts k = None
    \<or> (\<exists>d v. search depth ts k = Hit (depth + d) v \<and> assoc ts k = Some v \<and> (d = 0 \<longleftrightarrow> k \<in> keys (hd ts)))"
  using assms(1)
proof (induction ts arbitrary: depth)
  case (Cons t ts)
  have t: "table_ok t" using Cons.prems by simp
  show ?case
  proof (cases "probe (length t) t k (hash_thread_id k)")
    case (Found i)
    then have i: "i < length t" "fst (t ! i) = k" using probe_ok [OF t assms(2)] by simp_all
    then have "map_of t k = Some (snd (t ! i))" using map_of_at [OF t assms(2)] by simp
    moreover from this have "k \<in> keys t" using map_of_live_none [OF assms(2), of t] by auto
    ultimately show ?thesis using Found by (auto simp: assoc_Cons intro!: exI [of _ "0 :: nat"])
  next
    case Absent
    then have nk: "k \<notin> keys t" "map_of t k = None" using probe_ok [OF t assms(2)] map_of_live_none [OF assms(2)] by auto
    have "\<forall>t\<in>set ts. table_ok t" using Cons.prems by simp
    from Cons.IH [OF this, of "depth + 1"] show ?thesis
    proof (elim disjE exE conjE)
      fix d v assume "search (depth + 1) ts k = Hit (depth + 1 + d) v" "assoc ts k = Some v"
      then show ?thesis using Absent nk by (auto simp: assoc_Cons intro!: exI [of _ "Suc d"])
    qed (use Absent nk in \<open>simp add: assoc_Cons\<close>)
  next
    case Stuck
    then show ?thesis using probe_ok [OF t assms(2)] by simp
  qed
qed (simp add: assoc_def)

text \<open>Adding a key to the main table.\<close>

lemma chain_claim:
  assumes "chain_ok (t # ts) count" and "live k" and "k \<notin> keys t" and "Suc (used t) < length t"
  obtains r t' where "claim_slot k v t = Some (r, t')" "table_ok t'" "length t' = length t"
    "\<And>j. live j \<Longrightarrow> assoc (t' # ts) j = ((assoc (t # ts))(k := Some v)) j"
    "used t' = (if r then used t else Suc (used t))" "waiting (t' # ts) = waiting (t # ts) - {k}"
proof -
  have t: "table_ok t" using assms(1) by (simp add: chain_ok_def)
  then have "used t < length t" by (simp add: table_ok_def)
  then obtain i where i: "claims k v t i" by (rule claim_slot_ok)
  note c = claims_ok [OF t assms(2,3) i] assms(4)
  have m: "map_of (t[i := (k, v)]) j = ((map_of t)(k \<mapsto> v)) j" if "live j" for j using c(3) assms(4) that by simp
  have "assoc (t[i := (k, v)] # ts) j = ((assoc (t # ts))(k := Some v)) j" if "live j" for j
    using m [OF that] by (simp add: assoc_Cons)
  moreover have "waiting (t[i := (k, v)] # ts) = waiting (t # ts) - {k}" using c(2) assms(4) by (auto simp: waiting_def)
  ultimately show thesis using that [of "fst (t ! i) = invalid_thread_id2" "t[i := (k, v)]"] i c assms(4) by (auto simp: claims_def)
qed

lemma find_producer_ok:
  assumes "hash_ok h" and "live k"
  obtains h' where "find_producer k h = Some (assoc (tables h) k, h')" "hash_ok h'"
    "implicitProducerHashCount h' = implicitProducerHashCount h" "\<And>j. live j \<Longrightarrow> assoc (tables h') j = assoc (tables h) j"
proof -
  obtain t ts where h: "tables h = t # ts" using assms(1) by (cases "tables h") (auto simp: hash_ok_def chain_ok_def)
  have ok: "chain_ok (t # ts) (implicitProducerHashCount h)" "implicitProducerHashCount h < length t"
    using assms(1) h by (simp_all add: hash_ok_def)
  then have all: "\<forall>t\<in>set (t # ts). table_ok t" by (simp add: chain_ok_def)
  from search_ok [OF all assms(2), of 0] show thesis
  proof (elim disjE exE conjE)
    assume "search 0 (t # ts) k = Miss" "assoc (t # ts) k = None"
    then show thesis using that [of h] assms(1) h by (simp add: find_producer_def)
  next
    fix d v assume s: "search 0 (t # ts) k = Hit (0 + d) v" "assoc (t # ts) k = Some v" "d = 0 \<longleftrightarrow> k \<in> keys (hd (t # ts))"
    show thesis
    proof (cases "d = 0")
      case True
      then show thesis using that [of h] assms(1) h s by (simp add: find_producer_def)
    next
      case False
      then have nk: "k \<notin> keys t" using s(3) by simp
      have "k \<in> waiting (t # ts)" using assoc_keys [OF assms(2), of "t # ts"] s(2) nk by (auto simp: waiting_def)
      then have "card (waiting (t # ts) - {k}) < card (waiting (t # ts))" by (intro card_Diff1_less) simp
      then have room: "Suc (used t) + card (waiting (t # ts) - {k}) \<le> implicitProducerHashCount h" using ok(1) by (simp add: chain_ok_def)
      then have "Suc (used t) < length t" using ok(2) by linarith
      from chain_claim [OF ok(1) assms(2) nk this, of v] obtain r t' where c:
        "claim_slot k v t = Some (r, t')" "table_ok t'" "length t' = length t"
        "\<And>j. live j \<Longrightarrow> assoc (t' # ts) j = ((assoc (t # ts))(k := Some v)) j"
        "used t' = (if r then used t else Suc (used t))" "waiting (t' # ts) = waiting (t # ts) - {k}" by metis
      let ?h = "h\<lparr>tables := t' # ts\<rparr>"
      have "find_producer k h = Some (assoc (tables h) k, ?h)" using s False h c(1) by (simp add: find_producer_def)
      moreover have "hash_ok ?h" using c ok room by (auto simp: hash_ok_def chain_ok_def split: if_splits)
      moreover have "assoc (tables ?h) j = assoc (tables h) j" if "live j" for j using c(4) [OF that] s(2) h by (auto simp: fun_upd_def)
      ultimately show thesis using that [of ?h] by simp
    qed
  qed
qed

lemma empty_table_ok: "0 < n \<Longrightarrow> table_ok (empty_table n)" "keys (empty_table n) = {}" "used (empty_table n) = 0"
  "length (empty_table n) = n" "live k \<Longrightarrow> map_of (empty_table n) k = None"
proof -
  show u: "used (empty_table n) = 0" by (simp add: used_def empty_table_def)
  show k: "keys (empty_table n) = {}" by (auto simp: keys_def empty_table_def)
  show l: "length (empty_table n) = n" by (simp add: empty_table_def)
  show "0 < n \<Longrightarrow> table_ok (empty_table n)" using u l by (intro table_okI) (simp_all add: empty_table_def)
  show "live k \<Longrightarrow> map_of (empty_table n) k = None" using map_of_live_none [of k "empty_table n"] k by blast
qed

lemma grow_capacity_enough: "0 < n \<Longrightarrow> c < grow_capacity c n div 2 \<and> n \<le> grow_capacity c n"
proof (induction c n rule: grow_capacity.induct)
  case (1 c n)
  show ?case
  proof (cases "c \<ge> n div 2")
    case True
    then have "grow_capacity c n = grow_capacity c (2 * n)" using 1 by (simp only: grow_capacity.simps [of c n] simp_thms if_True)
    then show ?thesis using 1 True by (simp del: grow_capacity.simps)
  qed simp
qed

lemma card_keys_used: "card (keys t) \<le> used t"
proof -
  have "keys t \<subseteq> fst ` set (filter (\<lambda>e. fst e \<noteq> invalid_thread_id) t)" by (force simp: keys_def live_def)
  then have "card (keys t) \<le> card (fst ` set (filter (\<lambda>e. fst e \<noteq> invalid_thread_id) t))" by (intro card_mono) simp_all
  also have "\<dots> \<le> card (set (filter (\<lambda>e. fst e \<noteq> invalid_thread_id) t))" by (rule card_image_le) simp
  also have "\<dots> \<le> used t" unfolding used_def by (rule card_length)
  finally show ?thesis .
qed

lemma resize_ok:
  assumes "chain_ok (tables h) count" and "count < length (hd (tables h))" and "resize_if_needed mo newCount h = Some h'"
  shows "chain_ok (tables h') count" and "newCount < length (hd (tables h')) div 2"
    and "implicitProducerHashCount h' = implicitProducerHashCount h" and "\<And>j. live j \<Longrightarrow> assoc (tables h') j = assoc (tables h) j"
proof -
  obtain t ts where h: "tables h = t # ts" using assms(1) by (cases "tables h") (auto simp: chain_ok_def)
  let ?n = "grow_capacity newCount (2 * length t)"
  have t: "0 < length t" "used t + card (waiting (t # ts)) \<le> count" "\<forall>t\<in>set (t # ts). table_ok t" using assms(1,2) h by (auto simp: chain_ok_def)
  have n: "newCount < ?n div 2" "0 < ?n" using grow_capacity_enough [of "2 * length t" newCount] t(1) by linarith+
  have "chain_ok (tables h') count \<and> newCount < length (hd (tables h')) div 2
    \<and> implicitProducerHashCount h' = implicitProducerHashCount h \<and> (\<forall>j. live j \<longrightarrow> assoc (tables h') j = assoc (tables h) j)"
  proof (cases "newCount \<ge> length t div 2")
    case True
    then have h': "h' = h\<lparr>tables := empty_table ?n # tables h\<rparr>" using assms(3) h
      by (simp add: resize_if_needed_def Let_def del: grow_capacity.simps split: if_splits)
    have "waiting (empty_table ?n # t # ts) \<subseteq> keys t \<union> waiting (t # ts)" by (auto simp: waiting_def)
    then have "card (waiting (empty_table ?n # t # ts)) \<le> card (keys t \<union> waiting (t # ts))" by (intro card_mono) simp_all
    also have "\<dots> \<le> card (keys t) + card (waiting (t # ts))" by (rule card_Un_le)
    also have "\<dots> \<le> count" using card_keys_used [of t] t(2) by linarith
    finally show ?thesis using h' h t(3) n empty_table_ok(1) [OF n(2)] empty_table_ok(3-5) [where n = ?n]
      by (simp add: chain_ok_def assoc_Cons del: grow_capacity.simps)
  next
    case False
    then show ?thesis using assms h by (simp add: resize_if_needed_def Let_def del: grow_capacity.simps)
  qed
  then show "chain_ok (tables h') count" and "newCount < length (hd (tables h')) div 2"
    and "implicitProducerHashCount h' = implicitProducerHashCount h" and "\<And>j. live j \<Longrightarrow> assoc (tables h') j = assoc (tables h) j" by simp_all
qed

lemma insert_producer_ok:
  assumes "chain_ok (tables h) count" and "implicitProducerHashCount h = Suc count" and "Suc count < length (hd (tables h))"
    and "live k" and "assoc (tables h) k = None"
  obtains h' where "insert_producer k v h = Some h'" "hash_ok h'"
    "\<And>j. live j \<Longrightarrow> assoc (tables h') j = ((assoc (tables h))(k := Some v)) j"
proof -
  obtain t ts where h: "tables h = t # ts" using assms(1) by (cases "tables h") (auto simp: chain_ok_def)
  have ok: "chain_ok (t # ts) count" "Suc count < length t" using assms(1,3) h by simp_all
  have nk: "k \<notin> keys t" "k \<notin> waiting (t # ts)" using assoc_keys [OF assms(4), of "t # ts"] assms(5) h by (auto simp: waiting_def)
  have "Suc (used t) < length t" using ok by (simp add: chain_ok_def)
  from chain_claim [OF ok(1) assms(4) nk(1) this, of v] obtain r t' where c:
    "claim_slot k v t = Some (r, t')" "table_ok t'" "length t' = length t"
    "\<And>j. live j \<Longrightarrow> assoc (t' # ts) j = ((assoc (t # ts))(k := Some v)) j"
    "used t' = (if r then used t else Suc (used t))" "waiting (t' # ts) = waiting (t # ts) - {k}" by metis
  let ?h = "h\<lparr>tables := t' # ts, implicitProducerHashCount := (if r then count else Suc count)\<rparr>"
  have "insert_producer k v h = Some ?h" using h c(1) assms(2) by (simp add: insert_producer_def)
  moreover have "hash_ok ?h" using ok c nk(2) by (auto simp: hash_ok_def chain_ok_def)
  ultimately show thesis using that [of ?h] c(4) h by simp
qed

lemma forget_all_ok:
  assumes "\<forall>t\<in>set ts. table_ok t" and "live k"
  obtains ts' where "forget_all k ts = Some ts'" "\<forall>t\<in>set ts'. table_ok t" "length ts' = length ts"
    "\<Union> (keys ` set ts') = \<Union> (keys ` set ts) - {k}" "\<And>j. live j \<Longrightarrow> assoc ts' j = ((assoc ts)(k := None)) j"
    "map (\<lambda>t. (used t, length t)) ts' = map (\<lambda>t. (used t, length t)) ts" "map keys ts' = map (\<lambda>t. keys t - {k}) ts"
  using assms(1)
proof (induction ts arbitrary: thesis)
  case Nil
  then show ?case by (simp add: assoc_def)
next
  case (Cons t ts)
  obtain t' where t: "forget k t = Some t'" "table_ok t'" "keys t' = keys t - {k}" "used t' = used t" "length t' = length t"
    "\<And>j. live j \<Longrightarrow> map_of t' j = ((map_of t)(k := None)) j" using forget_ok [of t k] Cons.prems(2) assms(2) by auto
  obtain ts' where ts: "forget_all k ts = Some ts'" "\<forall>t\<in>set ts'. table_ok t" "length ts' = length ts"
    "\<Union> (keys ` set ts') = \<Union> (keys ` set ts) - {k}" "\<And>j. live j \<Longrightarrow> assoc ts' j = ((assoc ts)(k := None)) j"
    "map (\<lambda>t. (used t, length t)) ts' = map (\<lambda>t. (used t, length t)) ts" "map keys ts' = map (\<lambda>t. keys t - {k}) ts"
    using Cons.IH Cons.prems(2) by auto
  show ?case
  proof (rule Cons.prems(1))
    show "forget_all k (t # ts) = Some (t' # ts')" using t(1) ts(1) by simp
    show "\<Union> (keys ` set (t' # ts')) = \<Union> (keys ` set (t # ts)) - {k}" using t(3) ts(4) by auto
    show "assoc (t' # ts') j = ((assoc (t # ts))(k := None)) j" if "live j" for j
      using t(6) [OF that] ts(5) [OF that] by (auto simp: assoc_Cons split: option.splits)
  qed (use t ts in simp_all)
qed

lemma thread_exited_ok:
  assumes "hash_ok h" and "live k"
  obtains h' where "implicit_producer_thread_exited k h = Some h'" "hash_ok h'"
    "\<And>j. live j \<Longrightarrow> assoc (tables h') j = ((assoc (tables h))(k := None)) j"
proof -
  obtain t ts where h: "tables h = t # ts" using assms(1) by (cases "tables h") (auto simp: hash_ok_def chain_ok_def)
  have "\<forall>t\<in>set (tables h). table_ok t" using assms(1) by (simp add: hash_ok_def chain_ok_def)
  then obtain us where us: "forget_all k (tables h) = Some us" "\<forall>t\<in>set us. table_ok t" "length us = length (tables h)"
    "\<Union> (keys ` set us) = \<Union> (keys ` set (tables h)) - {k}" "\<And>j. live j \<Longrightarrow> assoc us j = ((assoc (tables h))(k := None)) j"
    "map (\<lambda>t. (used t, length t)) us = map (\<lambda>t. (used t, length t)) (tables h)" "map keys us = map (\<lambda>t. keys t - {k}) (tables h)"
    using forget_all_ok [OF _ assms(2), of "tables h"] by blast
  obtain u us' where u: "us = u # us'" using us(6) h by (cases us) auto
  have f: "used u = used t" "length u = length t" "keys u = keys t - {k}" "map keys us' = map (\<lambda>t. keys t - {k}) ts" using us(6,7) u h by simp_all
  have "\<Union> (keys ` set us') = \<Union> (set (map keys us'))" by simp
  also have "\<dots> = \<Union> (keys ` set ts) - {k}" unfolding f(4) by auto
  finally have "waiting (u # us') \<subseteq> waiting (t # ts)" using f(3) by (auto simp: waiting_def)
  then have "card (waiting (u # us')) \<le> card (waiting (t # ts))" by (intro card_mono) simp_all
  then have "hash_ok (h\<lparr>tables := us\<rparr>)" using assms(1) us(2) f h u by (auto simp: hash_ok_def chain_ok_def)
  then show thesis using that [of "h\<lparr>tables := us\<rparr>"] us(1,5) by (simp add: implicit_producer_thread_exited_def)
qed

lemma initial_hash_ok: "0 < n \<Longrightarrow> hash_ok (populate_initial_implicit_producer_hash n)"
  "live j \<Longrightarrow> assoc (tables (populate_initial_implicit_producer_hash n)) j = None"
  using empty_table_ok [where n = n] by (auto simp: hash_ok_def chain_ok_def populate_initial_implicit_producer_hash_def waiting_def assoc_def)

end
