(* ===== verification/ConcurrentQueue.thy ===== *)
theory ConcurrentQueue
  imports CQ_ExplicitBulk CQ_ImplicitBulk CQ_ProducerHash
begin

text \<open>
  \<open>ConcurrentQueue\<close> itself, one operation at a time: the list of producers that share one block pool, the
  tokens, the hash of implicit producers and the operations that choose a producer to enqueue to or dequeue from.
  Producers are numbered in the order in which \<open>add_producer\<close> put them at the front of the list, so that the list
  headed by \<open>producerListTail\<close> is \<open>n - 1, ..., 1, 0\<close>.  The operations run without interference;
  a retry loop that can only be ended by another thread gives \<open>None\<close>, not returning.
\<close>

section \<open>State\<close>

datatype subqueue = Explicit eproducer | Implicit iproducer

record producer_node =
  sub :: subqueue
  inactive :: bool
  token :: "nat option"

record 'a cqueue =
  cq_pool :: "'a pool"
  producers :: "producer_node list"
  producerCount :: u32
  cq_hash :: phash
  nextExplicitConsumerId :: u32
  globalExplicitConsumerOffset :: u32

primrec isExplicit :: "subqueue \<Rightarrow> bool" where
  "isExplicit (Explicit p) = True"
| "isExplicit (Implicit p) = False"

text \<open>The dispatch of \<open>ProducerBase\<close> to the two kinds of producers.\<close>

fun sub_enqueue ::
  "(nat \<Rightarrow> bool) \<Rightarrow> traits \<Rightarrow> AllocationMode \<Rightarrow> exn option \<Rightarrow> 'a \<Rightarrow> subqueue \<Rightarrow> 'a pool \<Rightarrow> (exn + bool) \<times> subqueue \<times> 'a pool" where
  "sub_enqueue malloc_ok tr m throws x (Explicit p) P =
     (case explicit_enqueue malloc_ok tr m throws x p P of (r, p, P) \<Rightarrow> (r, Explicit p, P))"
| "sub_enqueue malloc_ok tr m throws x (Implicit p) P =
     (case implicit_enqueue malloc_ok tr m throws x p P of (r, p, P) \<Rightarrow> (r, Implicit p, P))"

fun sub_enqueue_bulk ::
  "(nat \<Rightarrow> bool) \<Rightarrow> traits \<Rightarrow> AllocationMode \<Rightarrow> (exn option \<times> 'a) list \<Rightarrow> subqueue \<Rightarrow> 'a pool \<Rightarrow> (exn + bool) \<times> subqueue \<times> 'a pool" where
  "sub_enqueue_bulk malloc_ok tr m items (Explicit p) P =
     (case explicit_enqueue_bulk malloc_ok tr m items p P of (r, p, P) \<Rightarrow> (r, Explicit p, P))"
| "sub_enqueue_bulk malloc_ok tr m items (Implicit p) P =
     (case implicit_enqueue_bulk malloc_ok tr m items p P of (r, p, P) \<Rightarrow> (r, Implicit p, P))"

fun sub_dequeue :: "traits \<Rightarrow> subqueue \<Rightarrow> 'a pool \<Rightarrow> (bool \<times> 'a option) \<times> subqueue \<times> 'a pool" where
  "sub_dequeue tr (Explicit p) P = (case explicit_dequeue tr p P of (r, p, P) \<Rightarrow> (r, Explicit p, P))"
| "sub_dequeue tr (Implicit p) P = (case implicit_dequeue tr p P of (r, p, P) \<Rightarrow> (r, Implicit p, P))"

fun sub_dequeue_bulk :: "traits \<Rightarrow> nat \<Rightarrow> subqueue \<Rightarrow> 'a pool \<Rightarrow> 'a option list \<times> subqueue \<times> 'a pool" where
  "sub_dequeue_bulk tr mx (Explicit p) P = (case explicit_dequeue_bulk tr mx p P of (r, p, P) \<Rightarrow> (r, Explicit p, P))"
| "sub_dequeue_bulk tr mx (Implicit p) P = (case implicit_dequeue_bulk tr mx p P of (r, p, P) \<Rightarrow> (r, Implicit p, P))"

primrec sub_size_approx :: "subqueue \<Rightarrow> nat" where
  "sub_size_approx (Explicit p) = producer_size_approx p"
| "sub_size_approx (Implicit p) = producer_size_approx p"

section \<open>Construction and producers\<close>

definition new_queue :: "(nat \<Rightarrow> bool) \<Rightarrow> traits \<Rightarrow> nat \<Rightarrow> 'a cqueue" where
  "new_queue malloc_ok tr blocks =
     \<lparr>cq_pool = populate_initial_block_list malloc_ok tr blocks (empty_pool tr), producers = [], producerCount = 0,
      cq_hash = populate_initial_implicit_producer_hash (INITIAL_IMPLICIT_PRODUCER_HASH_SIZE tr),
      nextExplicitConsumerId = 0, globalExplicitConsumerOffset = 0\<rparr>"

definition ConcurrentQueue :: "(nat \<Rightarrow> bool) \<Rightarrow> traits \<Rightarrow> nat \<Rightarrow> 'a cqueue" where
  "ConcurrentQueue malloc_ok tr cap =
     new_queue malloc_ok tr (cap div BLOCK_SIZE tr + (if block_offset tr cap = 0 then 0 else 1))"

text \<open>The constructor that computes the number of blocks, in the arithmetic of \<open>size_t\<close>.\<close>

definition ConcurrentQueue_sized :: "(nat \<Rightarrow> bool) \<Rightarrow> traits \<Rightarrow> size_t \<Rightarrow> size_t \<Rightarrow> size_t \<Rightarrow> 'a cqueue" where
  "ConcurrentQueue_sized malloc_ok tr minCapacity maxExplicitProducers maxImplicitProducers =
     new_queue malloc_ok tr
       (unat (((minCapacity + of_nat (BLOCK_SIZE tr) - 1) div of_nat (BLOCK_SIZE tr) - 1) * (maxExplicitProducers + 1)
              + 2 * (maxExplicitProducers + maxImplicitProducers)))"

definition create_producer :: "(nat \<Rightarrow> bool) \<Rightarrow> traits \<Rightarrow> bool \<Rightarrow> 'a pool \<Rightarrow> subqueue option \<times> 'a pool" where
  "create_producer malloc_ok tr isExpl P =
     (case malloc malloc_ok P of (ok, P) \<Rightarrow>
        if \<not> ok then (None, P)
        else if isExpl then (case ExplicitProducer malloc_ok tr P of (p, P) \<Rightarrow> (Some (Explicit p), P))
        else (case ImplicitProducer malloc_ok tr P of (p, P) \<Rightarrow> (Some (Implicit p), P)))"

definition add_producer :: "subqueue option \<Rightarrow> 'a cqueue \<Rightarrow> nat option \<times> 'a cqueue" where
  "add_producer p q =
     (case p of None \<Rightarrow> (None, q)
      | Some s \<Rightarrow> (Some (length (producers q)),
          q\<lparr>producerCount := producerCount q + 1,
            producers := producers q @ [\<lparr>sub = s, inactive = False, token = None\<rparr>]\<rparr>))"

text \<open>The producers from \<open>producerListTail\<close> on.\<close>

definition producer_list :: "'a cqueue \<Rightarrow> nat list" where
  "producer_list q = rev [0..<length (producers q)]"

definition upd_node :: "nat \<Rightarrow> (producer_node \<Rightarrow> producer_node) \<Rightarrow> 'a cqueue \<Rightarrow> 'a cqueue" where
  "upd_node i f q = q\<lparr>producers := (producers q)[i := f (producers q ! i)]\<rparr>"

definition recycle_or_create_producer :: "(nat \<Rightarrow> bool) \<Rightarrow> traits \<Rightarrow> bool \<Rightarrow> 'a cqueue \<Rightarrow> nat option \<times> 'a cqueue" where
  "recycle_or_create_producer malloc_ok tr isExpl q =
     (case find (\<lambda>i. inactive (producers q ! i) \<and> isExplicit (sub (producers q ! i)) = isExpl) (producer_list q) of
        Some i \<Rightarrow> (Some i, upd_node i (\<lambda>p. p\<lparr>inactive := False\<rparr>) q)
      | None \<Rightarrow> (case create_producer malloc_ok tr isExpl (cq_pool q) of (p, P) \<Rightarrow> add_producer p (q\<lparr>cq_pool := P\<rparr>)))"

section \<open>Tokens\<close>

text \<open>A producer token is the producer it refers to, if any; \<open>addr\<close> is the address of the token object.\<close>

definition set_token :: "nat option \<Rightarrow> nat option \<Rightarrow> 'a cqueue \<Rightarrow> 'a cqueue" where
  "set_token producer t q = (case producer of None \<Rightarrow> q | Some i \<Rightarrow> upd_node i (\<lambda>p. p\<lparr>token := t\<rparr>) q)"

definition ProducerToken :: "(nat \<Rightarrow> bool) \<Rightarrow> traits \<Rightarrow> nat \<Rightarrow> 'a cqueue \<Rightarrow> nat option \<times> 'a cqueue" where
  "ProducerToken malloc_ok tr addr q =
     (case recycle_or_create_producer malloc_ok tr True q of (producer, q) \<Rightarrow> (producer, set_token producer (Some addr) q))"

text \<open>The move constructor: the new token, what is left of the old one.\<close>

definition ProducerToken_move :: "nat \<Rightarrow> nat option \<Rightarrow> 'a cqueue \<Rightarrow> nat option \<times> nat option \<times> 'a cqueue" where
  "ProducerToken_move addr other q = (other, None, set_token other (Some addr) q)"

definition ProducerToken_swap :: "nat \<Rightarrow> nat option \<Rightarrow> nat \<Rightarrow> nat option \<Rightarrow> 'a cqueue \<Rightarrow> nat option \<times> nat option \<times> 'a cqueue" where
  "ProducerToken_swap addr this addr' other q = (other, this, set_token this (Some addr') (set_token other (Some addr) q))"

definition token_valid :: "nat option \<Rightarrow> bool" where
  "token_valid producer \<longleftrightarrow> producer \<noteq> None"

definition destroy_ProducerToken :: "nat option \<Rightarrow> 'a cqueue \<Rightarrow> 'a cqueue" where
  "destroy_ProducerToken producer q =
     (case producer of None \<Rightarrow> q | Some i \<Rightarrow> upd_node i (\<lambda>p. p\<lparr>token := None, inactive := True\<rparr>) q)"

record ctoken =
  initialOffset :: u32
  lastKnownGlobalOffset :: u32
  itemsConsumedFromCurrent :: u32
  currentProducer :: "nat option"
  desiredProducer :: "nat option"

definition ConsumerToken :: "'a cqueue \<Rightarrow> ctoken \<times> 'a cqueue" where
  "ConsumerToken q =
     (\<lparr>initialOffset = nextExplicitConsumerId q, lastKnownGlobalOffset = - 1, itemsConsumedFromCurrent = 0,
       currentProducer = None, desiredProducer = None\<rparr>,
      q\<lparr>nextExplicitConsumerId := nextExplicitConsumerId q + 1\<rparr>)"

section \<open>Implicit producers\<close>

text \<open>
  \<open>get_or_add_implicit_producer\<close> for the thread \<open>tid\<close>.  A table too full to add to although it was not resized is
  the case in which the code waits for another thread to finish resizing.
\<close>

definition get_or_add_implicit_producer ::
  "(nat \<Rightarrow> bool) \<Rightarrow> traits \<Rightarrow> thread_id \<Rightarrow> 'a cqueue \<Rightarrow> (nat option \<times> 'a cqueue) option" where
  "get_or_add_implicit_producer malloc_ok tr tid q =
     (case find_producer tid (cq_hash q) of
        None \<Rightarrow> None
      | Some (Some value, h) \<Rightarrow> Some (value, q\<lparr>cq_hash := h\<rparr>)
      | Some (None, h) \<Rightarrow>
          let newCount = 1 + implicitProducerHashCount h;
              h = h\<lparr>implicitProducerHashCount := newCount\<rparr>;
              (ok, P) = (if newCount \<ge> length (hd (tables h)) div 2 then malloc malloc_ok (cq_pool q) else (True, cq_pool q));
              q = q\<lparr>cq_pool := P\<rparr>
          in case resize_if_needed ok newCount h of
               None \<Rightarrow> Some (None, q\<lparr>cq_hash := h\<lparr>implicitProducerHashCount := newCount - 1\<rparr>\<rparr>)
             | Some h \<Rightarrow>
                 let mainCapacity = length (hd (tables h)) in
                 if newCount < mainCapacity div 2 + mainCapacity div 4 then
                   (case recycle_or_create_producer malloc_ok tr False q of
                      (None, q) \<Rightarrow> Some (None, q\<lparr>cq_hash := h\<lparr>implicitProducerHashCount := newCount - 1\<rparr>\<rparr>)
                    | (Some producer, q) \<Rightarrow>
                        map_option (\<lambda>h. (Some producer, q\<lparr>cq_hash := h\<rparr>)) (insert_producer tid (Some producer) h))
                 else None)"

text \<open>The thread \<open>tid\<close>, whose producer is \<open>i\<close>, exits.\<close>

definition thread_exited :: "thread_id \<Rightarrow> nat \<Rightarrow> 'a cqueue \<Rightarrow> 'a cqueue option" where
  "thread_exited tid i q =
     map_option (\<lambda>h. upd_node i (\<lambda>p. p\<lparr>inactive := True\<rparr>) (q\<lparr>cq_hash := h\<rparr>)) (implicit_producer_thread_exited tid (cq_hash q))"

section \<open>Enqueue\<close>

definition enqueue_at ::
  "(nat \<Rightarrow> bool) \<Rightarrow> traits \<Rightarrow> AllocationMode \<Rightarrow> exn option \<Rightarrow> 'a \<Rightarrow> nat \<Rightarrow> 'a cqueue \<Rightarrow> (exn + bool) \<times> 'a cqueue" where
  "enqueue_at malloc_ok tr m throws x i q =
     (case sub_enqueue malloc_ok tr m throws x (sub (producers q ! i)) (cq_pool q) of (r, s, P) \<Rightarrow>
        (r, (upd_node i (\<lambda>p. p\<lparr>sub := s\<rparr>) q)\<lparr>cq_pool := P\<rparr>))"

text \<open>\<open>enqueue\<close> (\<open>CanAlloc\<close>) and \<open>try_enqueue\<close> (\<open>CannotAlloc\<close>) of thread \<open>tid\<close>, and with a token for producer \<open>i\<close>.\<close>

definition enqueue ::
  "(nat \<Rightarrow> bool) \<Rightarrow> traits \<Rightarrow> AllocationMode \<Rightarrow> exn option \<Rightarrow> thread_id \<Rightarrow> 'a \<Rightarrow> 'a cqueue \<Rightarrow> ((exn + bool) \<times> 'a cqueue) option" where
  "enqueue malloc_ok tr m throws tid x q =
     (if INITIAL_IMPLICIT_PRODUCER_HASH_SIZE tr = 0 then Some (Inr False, q)
      else (case get_or_add_implicit_producer malloc_ok tr tid q of
              None \<Rightarrow> None
            | Some (None, q) \<Rightarrow> Some (Inr False, q)
            | Some (Some i, q) \<Rightarrow> Some (enqueue_at malloc_ok tr m throws x i q)))"

definition enqueue_token ::
  "(nat \<Rightarrow> bool) \<Rightarrow> traits \<Rightarrow> AllocationMode \<Rightarrow> exn option \<Rightarrow> nat \<Rightarrow> 'a \<Rightarrow> 'a cqueue \<Rightarrow> (exn + bool) \<times> 'a cqueue" where
  "enqueue_token malloc_ok tr m throws i x q = enqueue_at malloc_ok tr m throws x i q"

text \<open>\<open>enqueue_bulk\<close> and \<open>try_enqueue_bulk\<close>; each element comes with the exception its constructor throws, if it does.\<close>

definition enqueue_bulk_at ::
  "(nat \<Rightarrow> bool) \<Rightarrow> traits \<Rightarrow> AllocationMode \<Rightarrow> (exn option \<times> 'a) list \<Rightarrow> nat \<Rightarrow> 'a cqueue \<Rightarrow> (exn + bool) \<times> 'a cqueue" where
  "enqueue_bulk_at malloc_ok tr m items i q =
     (case sub_enqueue_bulk malloc_ok tr m items (sub (producers q ! i)) (cq_pool q) of (r, s, P) \<Rightarrow>
        (r, (upd_node i (\<lambda>p. p\<lparr>sub := s\<rparr>) q)\<lparr>cq_pool := P\<rparr>))"

definition enqueue_bulk ::
  "(nat \<Rightarrow> bool) \<Rightarrow> traits \<Rightarrow> AllocationMode \<Rightarrow> thread_id \<Rightarrow> (exn option \<times> 'a) list \<Rightarrow> 'a cqueue \<Rightarrow> ((exn + bool) \<times> 'a cqueue) option" where
  "enqueue_bulk malloc_ok tr m tid items q =
     (if INITIAL_IMPLICIT_PRODUCER_HASH_SIZE tr = 0 then Some (Inr False, q)
      else (case get_or_add_implicit_producer malloc_ok tr tid q of
              None \<Rightarrow> None
            | Some (None, q) \<Rightarrow> Some (Inr False, q)
            | Some (Some i, q) \<Rightarrow> Some (enqueue_bulk_at malloc_ok tr m items i q)))"

definition enqueue_bulk_token ::
  "(nat \<Rightarrow> bool) \<Rightarrow> traits \<Rightarrow> AllocationMode \<Rightarrow> nat \<Rightarrow> (exn option \<times> 'a) list \<Rightarrow> 'a cqueue \<Rightarrow> (exn + bool) \<times> 'a cqueue" where
  "enqueue_bulk_token malloc_ok tr m i items q = enqueue_bulk_at malloc_ok tr m items i q"

section \<open>Dequeue\<close>

definition dequeue_at :: "traits \<Rightarrow> nat \<Rightarrow> 'a cqueue \<Rightarrow> (bool \<times> 'a option) \<times> 'a cqueue" where
  "dequeue_at tr i q =
     (case sub_dequeue tr (sub (producers q ! i)) (cq_pool q) of (r, s, P) \<Rightarrow>
        (r, (upd_node i (\<lambda>p. p\<lparr>sub := s\<rparr>) q)\<lparr>cq_pool := P\<rparr>))"

definition dequeue_bulk_at :: "traits \<Rightarrow> nat \<Rightarrow> nat \<Rightarrow> 'a cqueue \<Rightarrow> 'a option list \<times> 'a cqueue" where
  "dequeue_bulk_at tr mx i q =
     (case sub_dequeue_bulk tr mx (sub (producers q ! i)) (cq_pool q) of (r, s, P) \<Rightarrow>
        (r, (upd_node i (\<lambda>p. p\<lparr>sub := s\<rparr>) q)\<lparr>cq_pool := P\<rparr>))"

text \<open>The scoring loop of \<open>try_dequeue\<close>: it looks at producers until it has seen three that are not empty.\<close>

fun score :: "'a cqueue \<Rightarrow> nat list \<Rightarrow> nat \<Rightarrow> nat option \<Rightarrow> nat \<Rightarrow> nat \<times> nat option" where
  "score q [] nonEmptyCount best bestSize = (nonEmptyCount, best)"
| "score q (i # is) nonEmptyCount best bestSize =
     (if nonEmptyCount < 3 then
        let n = sub_size_approx (sub (producers q ! i)) in
        if n > 0 then
          if n > bestSize then score q is (nonEmptyCount + 1) (Some i) n
          else score q is (nonEmptyCount + 1) best bestSize
        else score q is nonEmptyCount best bestSize
      else (nonEmptyCount, best))"

text \<open>Try producers in order until one has an element.\<close>

primrec dequeue_first :: "traits \<Rightarrow> nat list \<Rightarrow> 'a cqueue \<Rightarrow> (bool \<times> 'a option) \<times> 'a cqueue" where
  "dequeue_first tr [] q = ((False, None), q)"
| "dequeue_first tr (i # is) q =
     (case dequeue_at tr i q of ((got, x), q) \<Rightarrow> if got then ((True, x), q) else dequeue_first tr is q)"

definition try_dequeue :: "traits \<Rightarrow> 'a cqueue \<Rightarrow> (bool \<times> 'a option) \<times> 'a cqueue" where
  "try_dequeue tr q =
     (case score q (producer_list q) 0 None 0 of (nonEmptyCount, best) \<Rightarrow>
        if nonEmptyCount > 0 then
          case dequeue_at tr (the best) q of ((got, x), q) \<Rightarrow>
            if got then ((True, x), q) else dequeue_first tr (filter (\<lambda>i. i \<noteq> the best) (producer_list q)) q
        else ((False, None), q))"

definition try_dequeue_non_interleaved :: "traits \<Rightarrow> 'a cqueue \<Rightarrow> (bool \<times> 'a option) \<times> 'a cqueue" where
  "try_dequeue_non_interleaved tr q = dequeue_first tr (producer_list q) q"

definition try_dequeue_from_producer :: "traits \<Rightarrow> nat \<Rightarrow> 'a cqueue \<Rightarrow> (bool \<times> 'a option) \<times> 'a cqueue" where
  "try_dequeue_from_producer tr i q = dequeue_at tr i q"

definition try_dequeue_bulk_from_producer :: "traits \<Rightarrow> nat \<Rightarrow> nat \<Rightarrow> 'a cqueue \<Rightarrow> 'a option list \<times> 'a cqueue" where
  "try_dequeue_bulk_from_producer tr i mx q = dequeue_bulk_at tr mx i q"

primrec bulk_first :: "traits \<Rightarrow> nat list \<Rightarrow> nat \<Rightarrow> 'a cqueue \<Rightarrow> 'a option list \<times> 'a cqueue" where
  "bulk_first tr [] mx q = ([], q)"
| "bulk_first tr (i # is) mx q =
     (case dequeue_bulk_at tr mx i q of (items, q) \<Rightarrow>
        if length items = mx then (items, q)
        else case bulk_first tr is (mx - length items) q of (rest, q) \<Rightarrow> (items @ rest, q))"

definition try_dequeue_bulk :: "traits \<Rightarrow> nat \<Rightarrow> 'a cqueue \<Rightarrow> 'a option list \<times> 'a cqueue" where
  "try_dequeue_bulk tr mx q = bulk_first tr (producer_list q) mx q"

definition size_approx :: "'a cqueue \<Rightarrow> nat" where
  "size_approx q = sum_list (map (\<lambda>i. sub_size_approx (sub (producers q ! i))) (producer_list q))"

section \<open>Dequeue with a token\<close>

text \<open>The producer after \<open>i\<close>, starting over at \<open>producerListTail\<close> after the last.\<close>

definition next_producer :: "'a cqueue \<Rightarrow> nat \<Rightarrow> nat" where
  "next_producer q i = (if i = 0 then length (producers q) - 1 else i - 1)"

definition update_current_producer_after_rotation :: "'a cqueue \<Rightarrow> ctoken \<Rightarrow> bool \<times> ctoken" where
  "update_current_producer_after_rotation q tok =
     (if desiredProducer tok = None \<and> producers q = [] then (False, tok)
      else
        let prodCount = producerCount q;
            globalOffset = globalExplicitConsumerOffset q;
            desired =
              (case desiredProducer tok of
                 None \<Rightarrow>
                   (let offset = prodCount - 1 - initialOffset tok mod prodCount
                    in (next_producer q ^^ unat offset) (length (producers q) - 1))
               | Some i \<Rightarrow> i);
            delta = globalOffset - lastKnownGlobalOffset tok;
            delta = (if delta \<ge> prodCount then delta mod prodCount else delta);
            desired = (next_producer q ^^ unat delta) desired
        in (True, tok\<lparr>desiredProducer := Some desired, lastKnownGlobalOffset := globalOffset,
                      currentProducer := Some desired, itemsConsumedFromCurrent := 0\<rparr>))"

text \<open>The check both token operations begin with.\<close>

definition rotate :: "'a cqueue \<Rightarrow> ctoken \<Rightarrow> bool \<times> ctoken" where
  "rotate q tok =
     (if desiredProducer tok = None \<or> lastKnownGlobalOffset tok \<noteq> globalExplicitConsumerOffset q
      then update_current_producer_after_rotation q tok else (True, tok))"

text \<open>The loops over the other producers.  Running out of rounds is not returning.\<close>

primrec dequeue_others ::
  "nat \<Rightarrow> traits \<Rightarrow> nat \<Rightarrow> ctoken \<Rightarrow> 'a cqueue \<Rightarrow> ((bool \<times> 'a option) \<times> ctoken \<times> 'a cqueue) option" where
  "dequeue_others 0 tr ptr tok q = None"
| "dequeue_others (Suc rounds) tr ptr tok q =
     (if Some ptr = currentProducer tok then Some ((False, None), tok, q)
      else case dequeue_at tr ptr q of ((got, x), q) \<Rightarrow>
        if got then Some ((True, x), tok\<lparr>currentProducer := Some ptr, itemsConsumedFromCurrent := 1\<rparr>, q)
        else dequeue_others rounds tr (next_producer q ptr) tok q)"

definition try_dequeue_token :: "traits \<Rightarrow> ctoken \<Rightarrow> 'a cqueue \<Rightarrow> ((bool \<times> 'a option) \<times> ctoken \<times> 'a cqueue) option" where
  "try_dequeue_token tr tok q =
     (case rotate q tok of (ok, tok) \<Rightarrow>
        if \<not> ok then Some ((False, None), tok, q)
        else case dequeue_at tr (the (currentProducer tok)) q of ((got, x), q) \<Rightarrow>
          if got then
            let tok = tok\<lparr>itemsConsumedFromCurrent := itemsConsumedFromCurrent tok + 1\<rparr>
            in Some ((True, x), tok,
                 if itemsConsumedFromCurrent tok = of_nat (EXPLICIT_CONSUMER_CONSUMPTION_QUOTA_BEFORE_ROTATE tr)
                 then q\<lparr>globalExplicitConsumerOffset := globalExplicitConsumerOffset q + 1\<rparr> else q)
          else dequeue_others (length (producers q)) tr (next_producer q (the (currentProducer tok))) tok q)"

primrec bulk_others ::
  "nat \<Rightarrow> traits \<Rightarrow> nat \<Rightarrow> nat \<Rightarrow> ctoken \<Rightarrow> 'a cqueue \<Rightarrow> ('a option list \<times> ctoken \<times> 'a cqueue) option" where
  "bulk_others 0 tr mx ptr tok q = None"
| "bulk_others (Suc rounds) tr mx ptr tok q =
     (if Some ptr = currentProducer tok then Some ([], tok, q)
      else case dequeue_bulk_at tr mx ptr q of (items, q) \<Rightarrow>
        let tok = (if items \<noteq> [] then tok\<lparr>currentProducer := Some ptr, itemsConsumedFromCurrent := of_nat (length items)\<rparr> else tok)
        in if length items = mx then Some (items, tok, q)
           else map_option (\<lambda>(rest, tok, q). (items @ rest, tok, q))
                  (bulk_others rounds tr (mx - length items) (next_producer q ptr) tok q))"

definition try_dequeue_bulk_token :: "traits \<Rightarrow> ctoken \<Rightarrow> nat \<Rightarrow> 'a cqueue \<Rightarrow> ('a option list \<times> ctoken \<times> 'a cqueue) option" where
  "try_dequeue_bulk_token tr tok mx q =
     (case rotate q tok of (ok, tok) \<Rightarrow>
        if \<not> ok then Some ([], tok, q)
        else case dequeue_bulk_at tr mx (the (currentProducer tok)) q of (items, q) \<Rightarrow>
          if length items = mx then
            let tok = tok\<lparr>itemsConsumedFromCurrent := itemsConsumedFromCurrent tok + of_nat mx\<rparr>
            in Some (items, tok,
                 if itemsConsumedFromCurrent tok \<ge> of_nat (EXPLICIT_CONSUMER_CONSUMPTION_QUOTA_BEFORE_ROTATE tr)
                 then q\<lparr>globalExplicitConsumerOffset := globalExplicitConsumerOffset q + 1\<rparr> else q)
          else
            let tok = tok\<lparr>itemsConsumedFromCurrent := itemsConsumedFromCurrent tok + of_nat (length items)\<rparr>
            in map_option (\<lambda>(rest, tok, q). (items @ rest, tok, q))
                 (bulk_others (Suc mx * length (producers q)) tr (mx - length items)
                    (next_producer q (the (currentProducer tok))) tok q))"

end
