(* ===== verification/ConcurrentQueueFifo.thy ===== *)
theory ConcurrentQueueFifo
  imports ConcurrentQueue
begin

text \<open>
  Correctness of \<open>ConcurrentQueue\<close> (theory \<open>ConcurrentQueue\<close>): the sub-queues of all producers share the pool
  without touching each other's blocks, so the queue holds one list of elements per producer; every operation is
  explained by elements put at the end of such a list and elements taken from the front of one.
\<close>

section \<open>Sub-queues side by side\<close>

lemma ring_same_blocks: "ring P bs \<Longrightarrow> same_blocks (set bs) P P' \<Longrightarrow> ring P' bs"
  by (auto intro!: ring_cong [of P] simp: same_blocks_def)

lemma explicit_frame:
  assumes "explicit_rep tr own xs p P" and "same_blocks own P P'" and "pool_ok tr P'" and "own \<subseteq> in_use P'"
  shows "explicit_rep tr own xs p P'"
proof -
  obtain stale W lo where rep: "ep_rep tr stale W lo xs p P" and own: "own = set (blocks_of stale W lo (started tr (tailIndex p)))"
    and B: "BLOCK_SIZE tr < 2 ^ 63" and tidy: "tidy (noexcept_ctor tr) stale lo (started tr (tailIndex p)) p"
    using assms(1) by (auto simp: explicit_rep_def ep_queue_def)
  let ?n = "started tr (tailIndex p)"
  have heap: "heap P' b = heap P b" if "b \<in> own" for b using assms(2) that by (simp add: same_blocks_def)
  have "stale \<noteq> [] \<Longrightarrow> hd stale \<in> own" unfolding own by (simp add: blocks_of_def)
  then have "ring_ok tr stale W lo ?n p P'"
    using rep assms(4) heap ring_same_blocks [OF _ assms(2) [unfolded own]] unfolding ep_rep_def ring_ok_def own by auto
  moreover have "content tr explicit_context W lo ?n (headIndex p) (tailIndex p) xs P'"
    using rep by (intro content_cong [where P = P and P' = P'] heap) (auto simp: ep_rep_def own blocks_of_def)
  ultimately have "ep_rep tr stale W lo xs p P'" using rep assms(3) by (simp add: ep_rep_def)
  then show ?thesis using own B tidy unfolding explicit_rep_def ep_queue_def by blast
qed

lemma implicit_frame:
  assumes "implicit_rep tr own xs p P" and "same_blocks own P P'" and "pool_ok tr P'" and "own \<subseteq> in_use P'"
  shows "implicit_rep tr own xs p P'"
  using assms ip_core_frame unfolding implicit_rep_def ip_rep_def by blast

text \<open>A sub-queue that does not notice what others do with their blocks.\<close>

locale framed_sub_queue = sub_queue +
  fixes ok :: "'a pool \<Rightarrow> bool"
  assumes rep_ok: "rep own xs p P \<Longrightarrow> ok P"
    and frame: "rep own xs p P \<Longrightarrow> same_blocks own P P' \<Longrightarrow> ok P' \<Longrightarrow> own \<subseteq> in_use P' \<Longrightarrow> rep own xs p P'"

text \<open>
  \<open>n\<close> sub-queues that own disjoint sets of blocks, together all that are in use; \<open>f i\<close> is what sub-queue \<open>i\<close> holds.
\<close>

definition family ::
  "(nat set \<Rightarrow> 'a list \<Rightarrow> 's \<Rightarrow> 'a pool \<Rightarrow> bool) \<Rightarrow> (nat \<Rightarrow> nat set) \<Rightarrow> (nat \<Rightarrow> 'a list) \<Rightarrow> 's list \<Rightarrow> 'a pool \<Rightarrow> bool" where
  "family rep owns f ss P \<longleftrightarrow>
     (\<forall>i<length ss. rep (owns i) (f i) (ss ! i) P)
     \<and> (\<forall>i<length ss. \<forall>j<length ss. i \<noteq> j \<longrightarrow> owns i \<inter> owns j = {})
     \<and> in_use P = (\<Union>i<length ss. owns i)"

context framed_sub_queue begin

lemma family_step:
  assumes "family rep owns f ss P" and "i < length ss" and "frame_step (owns i) P own' P'" and "rep own' ys s' P'"
  shows "family rep (owns(i := own')) (f(i := ys)) (ss[i := s']) P'"
proof -
  have fs: "same_blocks (in_use P - owns i) P P'" "in_use P' = (in_use P - owns i) \<union> own'" "own' \<inter> (in_use P - owns i) = {}"
    using assms(3) by (simp_all add: frame_step_def)
  have other: "owns j \<subseteq> in_use P - owns i" if "j < length ss" "j \<noteq> i" for j
  proof -
    have "owns j \<subseteq> in_use P" using assms(1) that owns unfolding family_def by blast
    moreover have "owns j \<inter> owns i = {}" using assms(1,2) that unfolding family_def by blast
    ultimately show ?thesis by blast
  qed
  have "rep (owns j) (f j) (ss ! j) P'" if j: "j < length ss" "j \<noteq> i" for j
  proof (rule frame [OF _ _ rep_ok [OF assms(4)]])
    show "rep (owns j) (f j) (ss ! j) P" using assms(1) j by (simp add: family_def)
    show "same_blocks (owns j) P P'" using fs(1) other [OF j] by (auto simp: same_blocks_def)
    show "owns j \<subseteq> in_use P'" using fs(2) other [OF j] by blast
  qed
  moreover have "own' \<inter> owns j = {}" if j: "j < length ss" "j \<noteq> i" for j using fs(3) other [OF j] by blast
  moreover have "in_use P' = (\<Union>j<length (ss[i := s']). (owns(i := own')) j)"
  proof -
    have "in_use P = (\<Union>j<length ss. owns j)" using assms(1) by (simp add: family_def)
    then have "in_use P - owns i = (\<Union>j\<in>{..<length ss} - {i}. owns j)" using assms(1,2) unfolding family_def by blast
    moreover have "{..<length (ss[i := s'])} = insert i ({..<length ss} - {i})" using assms(2) by auto
    ultimately show ?thesis using fs(2) by auto
  qed
  ultimately show ?thesis using assms(1,2,4) unfolding family_def by (auto simp: nth_list_update)
qed

lemma family_add:
  assumes "family rep owns f ss P" and "frame_step {} P {} P'" and "rep {} [] s' P'"
  shows "family rep (owns(length ss := {})) (f(length ss := [])) (ss @ [s']) P'"
proof -
  have fs: "same_blocks (in_use P) P P'" "in_use P' = in_use P" using assms(2) by (simp_all add: frame_step_def)
  have "rep (owns j) (f j) (ss ! j) P'" if j: "j < length ss" for j
  proof (rule frame [OF _ _ rep_ok [OF assms(3)]])
    show r: "rep (owns j) (f j) (ss ! j) P" using assms(1) j by (simp add: family_def)
    show "same_blocks (owns j) P P'" "owns j \<subseteq> in_use P'" using fs owns [OF r] by (auto simp: same_blocks_def)
  qed
  moreover have "in_use P' = (\<Union>j<length (ss @ [s']). (owns(length ss := {})) j)"
    using assms(1) fs(2) by (auto simp: family_def less_Suc_eq split: if_splits)
  ultimately show ?thesis using assms(1,3) unfolding family_def by (auto simp: nth_append less_Suc_eq)
qed

lemma family_pool:
  assumes "family rep owns f ss P" and "frame_step {} P {} P'" and "ok P'"
  shows "family rep owns f ss P'"
proof -
  have fs: "same_blocks (in_use P) P P'" "in_use P' = in_use P" using assms(2) by (simp_all add: frame_step_def)
  have "rep (owns j) (f j) (ss ! j) P'" if j: "j < length ss" for j
  proof (rule frame [OF _ _ assms(3)])
    show r: "rep (owns j) (f j) (ss ! j) P" using assms(1) j by (simp add: family_def)
    show "same_blocks (owns j) P P'" "owns j \<subseteq> in_use P'" using fs owns [OF r] by (auto simp: same_blocks_def)
  qed
  then show ?thesis using assms(1) fs(2) unfolding family_def by simp
qed

end

text \<open>Both kinds of producers, behind the dispatch of \<open>ProducerBase\<close>.\<close>

primrec sub_rep :: "traits \<Rightarrow> nat set \<Rightarrow> 'a list \<Rightarrow> subqueue \<Rightarrow> 'a pool \<Rightarrow> bool" where
  "sub_rep tr own xs (Explicit p) P = explicit_rep tr own xs p P"
| "sub_rep tr own xs (Implicit p) P = implicit_rep tr own xs p P"

lemma sub_rep_pool_ok: "sub_rep tr own xs s P \<Longrightarrow> pool_ok tr P"
  by (cases s) (auto simp: explicit_rep_def ep_queue_def ep_rep_def implicit_rep_def ip_rep_def ip_core_def)

interpretation any_sub: framed_sub_queue "sub_rep tr" "sub_enqueue mo tr m" "sub_dequeue tr" "sub_dequeue_bulk tr" "pool_ok tr"
  for tr mo m
proof
  fix own xs and s :: subqueue and P :: "'a pool"
  assume "sub_rep tr own xs s P"
  then show "own \<subseteq> in_use P" by (cases s) (auto dest: explicit_sub.owns implicit_sub.owns)
next
  fix own xs and s :: subqueue and P :: "'a pool" and th x r s' P'
  assume rep: "sub_rep tr own xs s P" and e: "sub_enqueue mo tr m th x s P = (r, s', P')"
  show "\<exists>own'. frame_step own P own' P' \<and> sub_rep tr own' (if r = Inr True then xs @ [x] else xs) s' P'"
  proof (cases s)
    case (Explicit p)
    then obtain p' where "explicit_enqueue mo tr m th x p P = (r, p', P')" "s' = Explicit p'" using e by (auto split: prod.splits)
    then show ?thesis using explicit_sub.enq_law [of tr own xs p P mo m th x r p' P'] rep Explicit by (simp cong: if_cong)
  next
    case (Implicit p)
    then obtain p' where "implicit_enqueue mo tr m th x p P = (r, p', P')" "s' = Implicit p'" using e by (auto split: prod.splits)
    then show ?thesis using implicit_sub.enq_law [of tr own xs p P mo m th x r p' P'] rep Implicit by (simp cong: if_cong)
  qed
next
  fix own xs and s :: subqueue and P :: "'a pool" and r s' P'
  assume rep: "sub_rep tr own xs s P" and len: "length xs < 2 ^ 63" and e: "sub_dequeue tr s P = (r, s', P')"
  show "r = (if xs = [] then (False, None) else (True, Some (hd xs)))
      \<and> (\<exists>own'. frame_step own P own' P' \<and> sub_rep tr own' (tl xs) s' P')"
  proof (cases s)
    case (Explicit p)
    then obtain p' where "explicit_dequeue tr p P = (r, p', P')" "s' = Explicit p'" using e by (auto split: prod.splits)
    then show ?thesis using explicit_sub.deq_law [of tr own xs p P r p' P'] rep len Explicit by simp
  next
    case (Implicit p)
    then obtain p' where "implicit_dequeue tr p P = (r, p', P')" "s' = Implicit p'" using e by (auto split: prod.splits)
    then show ?thesis using implicit_sub.deq_law [of tr own xs p P r p' P'] rep len Implicit by simp
  qed
next
  fix own xs and s :: subqueue and P :: "'a pool" and mx items s' P'
  assume rep: "sub_rep tr own xs s P" and len: "length xs < 2 ^ 63" and e: "sub_dequeue_bulk tr mx s P = (items, s', P')"
  show "items = map Some (take mx xs) \<and> (\<exists>own'. frame_step own P own' P' \<and> sub_rep tr own' (drop mx xs) s' P')"
  proof (cases s)
    case (Explicit p)
    then obtain p' where "explicit_dequeue_bulk tr mx p P = (items, p', P')" "s' = Explicit p'" using e by (auto split: prod.splits)
    then show ?thesis using explicit_sub.bulk_law [of tr own xs p P mx items p' P'] rep len Explicit by simp
  next
    case (Implicit p)
    then obtain p' where "implicit_dequeue_bulk tr mx p P = (items, p', P')" "s' = Implicit p'" using e by (auto split: prod.splits)
    then show ?thesis using implicit_sub.bulk_law [of tr own xs p P mx items p' P'] rep len Implicit by simp
  qed
next
  fix own xs and s :: subqueue and P P' :: "'a pool"
  assume "sub_rep tr own xs s P"
  then show "pool_ok tr P" by (rule sub_rep_pool_ok)
next
  fix own xs and s :: subqueue and P P' :: "'a pool"
  assume "sub_rep tr own xs s P" "same_blocks own P P'" "pool_ok tr P'" "own \<subseteq> in_use P'"
  then show "sub_rep tr own xs s P'" by (cases s) (auto intro: explicit_frame implicit_frame)
qed

text \<open>A bulk enqueue with a token is only sure to be all or nothing when it succeeds.\<close>

definition sub_sure :: "subqueue \<Rightarrow> exn + bool \<Rightarrow> bool" where
  "sub_sure s r \<longleftrightarrow> isExplicit s \<longrightarrow> r = Inr True"

interpretation any_bulk: bulk_sub_queue "sub_rep tr" "sub_enqueue mo tr m" "sub_dequeue tr" "sub_dequeue_bulk tr" "sub_enqueue_bulk mo tr m" sub_sure
  for tr mo m
proof
  fix own xs and s :: subqueue and P P' :: "'a pool" and items r s'
  assume rep: "sub_rep tr own xs s P" and e: "sub_enqueue_bulk mo tr m items s P = (r, s', P')" and sure: "sub_sure s r"
  show "\<exists>own'. frame_step own P own' P' \<and> sub_rep tr own' (if r = Inr True then xs @ map snd items else xs) s' P'"
  proof (cases s)
    case (Explicit p)
    then obtain p' where "explicit_enqueue_bulk mo tr m items p P = (r, p', P')" "s' = Explicit p'" using e by (auto split: prod.splits)
    then show ?thesis using explicit_bulk.enqb_law [of tr own xs p P mo m items r p' P'] rep sure Explicit by (simp add: sub_sure_def cong: if_cong)
  next
    case (Implicit p)
    then obtain p' where "implicit_enqueue_bulk mo tr m items p P = (r, p', P')" "s' = Implicit p'" using e by (auto split: prod.splits)
    then show ?thesis using implicit_bulk.enqb_law [of tr own xs p P mo m items r p' P'] rep Implicit by (simp cong: if_cong)
  qed
qed

section \<open>What the queue holds\<close>

text \<open>
  The queue holds the list \<open>f i\<close> for each producer \<open>i\<close>.
\<close>

definition cq_rep :: "traits \<Rightarrow> 'a cqueue \<Rightarrow> (nat \<Rightarrow> 'a list) \<Rightarrow> bool" where
  "cq_rep tr q f \<longleftrightarrow>
     traits_ok tr \<and> BLOCK_SIZE tr < 2 ^ 63 \<and> pool_ok tr (cq_pool q)
     \<and> producerCount q = of_nat (length (producers q))
     \<and> (\<forall>i\<ge>length (producers q). f i = [])
     \<and> (\<exists>owns. family (sub_rep tr) owns f (map sub (producers q)) (cq_pool q))"

text \<open>The elements in the queue, all producers together, are few enough for the comparison of wrapping indices.\<close>

definition total :: "'a cqueue \<Rightarrow> (nat \<Rightarrow> 'a list) \<Rightarrow> nat" where
  "total q f = (\<Sum>i<length (producers q). length (f i))"

text \<open>What a dequeue leaves alone: the producers but for their sub-queues, and the hash.\<close>

definition same_nodes :: "'a cqueue \<Rightarrow> 'a cqueue \<Rightarrow> bool" where
  "same_nodes q q' \<longleftrightarrow>
     map (\<lambda>p. (inactive p, token p, isExplicit (sub p))) (producers q') = map (\<lambda>p. (inactive p, token p, isExplicit (sub p))) (producers q)
     \<and> cq_hash q' = cq_hash q"

lemma same_nodes_length: "same_nodes q q' \<Longrightarrow> length (producers q') = length (producers q)"
  unfolding same_nodes_def by (elim conjE) (drule arg_cong [of _ _ length], simp)

lemma same_nodes_refl: "same_nodes q q"
  by (simp add: same_nodes_def)

lemma same_nodes_trans: "same_nodes q q' \<Longrightarrow> same_nodes q' q'' \<Longrightarrow> same_nodes q q''"
  by (simp add: same_nodes_def)

lemma same_nodes_upd:
  assumes "i < length (producers q)" and "isExplicit s = isExplicit (sub (producers q ! i))"
  shows "same_nodes q ((upd_node i (\<lambda>p. p\<lparr>sub := s\<rparr>) q)\<lparr>cq_pool := P\<rparr>)"
proof -
  have "map (\<lambda>p. (inactive p, token p, isExplicit (sub p))) ((producers q)[i := (producers q ! i)\<lparr>sub := s\<rparr>])
      = (map (\<lambda>p. (inactive p, token p, isExplicit (sub p))) (producers q))[i := (\<lambda>p. (inactive p, token p, isExplicit (sub p))) (producers q ! i)]"
    using assms(2) by (simp add: map_update)
  also have "\<dots> = map (\<lambda>p. (inactive p, token p, isExplicit (sub p))) (producers q)"
    using assms(1) by (metis (no_types, lifting) list_update_id map_update)
  finally show ?thesis by (simp add: same_nodes_def upd_node_def)
qed

lemma length_total: "i < length (producers q) \<Longrightarrow> length (f i) \<le> total q f"
  unfolding total_def by (rule member_le_sum [of i "{..<length (producers q)}" "\<lambda>i. length (f i)", simplified]) 

lemma sub_kind:
  "sub_dequeue tr s P = (r, s', P') \<Longrightarrow> isExplicit s' = isExplicit s"
  "sub_dequeue_bulk tr mx s P = (items, s', P') \<Longrightarrow> isExplicit s' = isExplicit s"
  "sub_enqueue mo tr m th x s P = (d, s', P') \<Longrightarrow> isExplicit s' = isExplicit s"
  "sub_enqueue_bulk mo tr m its s P = (d, s', P') \<Longrightarrow> isExplicit s' = isExplicit s"
  by (cases s; auto split: prod.splits)+

text \<open>An operation on one producer, given what it does to the sub-queue.\<close>

lemma cq_rep_step:
  assumes "cq_rep tr q f" and "i < length (producers q)"
    and "\<And>own. sub_rep tr own (f i) (sub (producers q ! i)) (cq_pool q) \<Longrightarrow>
           \<exists>own'. frame_step own (cq_pool q) own' P' \<and> sub_rep tr own' ys s' P'"
  shows "cq_rep tr ((upd_node i (\<lambda>p. p\<lparr>sub := s'\<rparr>) q)\<lparr>cq_pool := P'\<rparr>) (f(i := ys))"
proof -
  obtain owns where fam: "family (sub_rep tr) owns f (map sub (producers q)) (cq_pool q)" using assms(1) by (auto simp: cq_rep_def)
  then have "sub_rep tr (owns i) (f i) (sub (producers q ! i)) (cq_pool q)" using assms(2) by (simp add: family_def)
  from assms(3) [OF this] obtain own' where own': "frame_step (owns i) (cq_pool q) own' P'" "sub_rep tr own' ys s' P'" by blast
  have "family (sub_rep tr) (owns(i := own')) (f(i := ys)) ((map sub (producers q))[i := s']) P'"
    using assms(2) by (intro any_sub.family_step [OF fam _ own']) simp
  moreover have "(map sub (producers q))[i := s'] = map sub ((producers q)[i := (producers q ! i)\<lparr>sub := s'\<rparr>])" by (simp add: map_update)
  ultimately show ?thesis using assms(1,2) sub_rep_pool_ok [OF own'(2)] by (auto simp: cq_rep_def upd_node_def)
qed

lemma dequeue_at_ok:
  assumes "cq_rep tr q f" and "i < length (producers q)" and "total q f < 2 ^ 63" and "dequeue_at tr i q = (r, q')"
  shows "r = (if f i = [] then (False, None) else (True, Some (hd (f i))))"
    and "cq_rep tr q' (f(i := tl (f i)))" and "same_nodes q q'"
proof -
  obtain s' P' where d: "sub_dequeue tr (sub (producers q ! i)) (cq_pool q) = (r, s', P')"
      "q' = (upd_node i (\<lambda>p. p\<lparr>sub := s'\<rparr>) q)\<lparr>cq_pool := P'\<rparr>"
    using assms(4) by (auto simp: dequeue_at_def split: prod.splits)
  have len: "length (f i) < 2 ^ 63" using length_total [OF assms(2), of f] assms(3) by simp
  note law = any_sub.deq_law [OF _ len d(1)]
  obtain own where "sub_rep tr own (f i) (sub (producers q ! i)) (cq_pool q)"
    using assms(1,2) by (auto simp: cq_rep_def family_def)
  from law [OF this] show "r = (if f i = [] then (False, None) else (True, Some (hd (f i))))" by blast
  show "cq_rep tr q' (f(i := tl (f i)))" unfolding d(2) using law by (intro cq_rep_step [OF assms(1,2)]) blast
  show "same_nodes q q'" unfolding d(2) by (rule same_nodes_upd [OF assms(2) sub_kind(1) [OF d(1)]])
qed

lemma dequeue_bulk_at_ok:
  assumes "cq_rep tr q f" and "i < length (producers q)" and "total q f < 2 ^ 63" and "dequeue_bulk_at tr mx i q = (items, q')"
  shows "items = map Some (take mx (f i))" and "cq_rep tr q' (f(i := drop mx (f i)))" and "same_nodes q q'"
proof -
  obtain s' P' where d: "sub_dequeue_bulk tr mx (sub (producers q ! i)) (cq_pool q) = (items, s', P')"
      "q' = (upd_node i (\<lambda>p. p\<lparr>sub := s'\<rparr>) q)\<lparr>cq_pool := P'\<rparr>"
    using assms(4) by (auto simp: dequeue_bulk_at_def split: prod.splits)
  have len: "length (f i) < 2 ^ 63" using length_total [OF assms(2), of f] assms(3) by simp
  note law = any_sub.bulk_law [OF _ len d(1)]
  obtain own where "sub_rep tr own (f i) (sub (producers q ! i)) (cq_pool q)"
    using assms(1,2) by (auto simp: cq_rep_def family_def)
  from law [OF this] show "items = map Some (take mx (f i))" by blast
  show "cq_rep tr q' (f(i := drop mx (f i)))" unfolding d(2) using law by (intro cq_rep_step [OF assms(1,2)]) blast
  show "same_nodes q q'" unfolding d(2) by (rule same_nodes_upd [OF assms(2) sub_kind(2) [OF d(1)]])
qed

lemma enqueue_at_ok:
  assumes "cq_rep tr q f" and "i < length (producers q)" and "enqueue_at mo tr m th x i q = (r, q')"
  shows "cq_rep tr q' (f(i := if r = Inr True then f i @ [x] else f i))" and "same_nodes q q'"
proof -
  obtain s' P' where d: "sub_enqueue mo tr m th x (sub (producers q ! i)) (cq_pool q) = (r, s', P')"
      "q' = (upd_node i (\<lambda>p. p\<lparr>sub := s'\<rparr>) q)\<lparr>cq_pool := P'\<rparr>"
    using assms(3) by (auto simp: enqueue_at_def split: prod.splits)
  show "cq_rep tr q' (f(i := if r = Inr True then f i @ [x] else f i))" unfolding d(2)
    using any_sub.enq_law [OF _ d(1)] by (intro cq_rep_step [OF assms(1,2)]) blast
  show "same_nodes q q'" unfolding d(2) by (rule same_nodes_upd [OF assms(2) sub_kind(3) [OF d(1)]])
qed

lemma enqueue_bulk_at_ok:
  assumes "cq_rep tr q f" and "i < length (producers q)" and "enqueue_bulk_at mo tr m items i q = (r, q')"
    and "sub_sure (sub (producers q ! i)) r"
  shows "cq_rep tr q' (f(i := if r = Inr True then f i @ map snd items else f i))" and "same_nodes q q'"
proof -
  obtain s' P' where d: "sub_enqueue_bulk mo tr m items (sub (producers q ! i)) (cq_pool q) = (r, s', P')"
      "q' = (upd_node i (\<lambda>p. p\<lparr>sub := s'\<rparr>) q)\<lparr>cq_pool := P'\<rparr>"
    using assms(3) by (auto simp: enqueue_bulk_at_def split: prod.splits)
  show "cq_rep tr q' (f(i := if r = Inr True then f i @ map snd items else f i))" unfolding d(2)
    using any_bulk.enqb_law [OF _ d(1) assms(4)] by (intro cq_rep_step [OF assms(1,2)]) blast
  show "same_nodes q q'" unfolding d(2) by (rule same_nodes_upd [OF assms(2) sub_kind(4) [OF d(1)]])
qed

lemma sub_rep_size:
  assumes "sub_rep tr own xs s P" and "length xs < 2 ^ 63"
  shows "sub_size_approx s = length xs"
proof (cases s)
  case (Explicit p)
  then have "headIndex p \<le> tailIndex p" "length xs = tailIndex p - headIndex p"
    using assms(1) by (auto simp: explicit_rep_def ep_queue_def ep_rep_def content_def)
  then show ?thesis using Explicit assms(2) by (auto simp: producer_size_approx_def index_less_def)
next
  case (Implicit p)
  then have "headIndex p \<le> tailIndex p" "length xs = tailIndex p - headIndex p"
    using assms(1) by (auto simp: implicit_rep_def ip_rep_def ip_core_def content_def)
  then show ?thesis using Implicit assms(2) by (auto simp: producer_size_approx_def index_less_def)
qed

lemma cq_rep_size:
  assumes "cq_rep tr q f" and "i < length (producers q)" and "total q f < 2 ^ 63"
  shows "sub_size_approx (sub (producers q ! i)) = length (f i)"
proof -
  obtain own where "sub_rep tr own (f i) (sub (producers q ! i)) (cq_pool q)" using assms(1,2) by (auto simp: cq_rep_def family_def)
  then show ?thesis using sub_rep_size length_total [OF assms(2), of f] assms(3) by fastforce
qed

section \<open>Histories\<close>

text \<open>What happened to the elements: put at the end of the list of a producer, taken from its front.\<close>

datatype 'a event = Put nat 'a | Got nat 'a

fun replay :: "'a event list \<Rightarrow> (nat \<Rightarrow> 'a list) \<Rightarrow> (nat \<Rightarrow> 'a list) option" where
  "replay [] f = Some f"
| "replay (Put i x # ev) f = replay ev (f(i := f i @ [x]))"
| "replay (Got i x # ev) f =
     (case f i of [] \<Rightarrow> None | y # ys \<Rightarrow> if x = y then replay ev (f(i := ys)) else None)"

primrec put :: "nat \<Rightarrow> 'a event \<Rightarrow> 'a list" where
  "put i (Put j x) = (if j = i then [x] else [])"
| "put i (Got j x) = []"

primrec got :: "nat \<Rightarrow> 'a event \<Rightarrow> 'a list" where
  "got i (Put j x) = []"
| "got i (Got j x) = (if j = i then [x] else [])"

primrec put_any :: "'a event \<Rightarrow> 'a list" where
  "put_any (Put j x) = [x]"
| "put_any (Got j x) = []"

primrec got_any :: "'a event \<Rightarrow> 'a list" where
  "got_any (Put j x) = []"
| "got_any (Got j x) = [x]"

text \<open>First in, first out for every producer.\<close>

lemma replay_Got:
  "replay (Got i x # ev) f = Some g \<longleftrightarrow> (\<exists>ys. f i = x # ys \<and> replay ev (f(i := ys)) = Some g)"
  by (cases "f i") auto

lemma replay_fifo: "replay ev f = Some g \<Longrightarrow> f i @ concat (map (put i) ev) = concat (map (got i) ev) @ g i"
proof (induction ev arbitrary: f)
  case (Cons e ev)
  show ?case
  proof (cases e)
    case (Put j x)
    then have "replay ev (f(j := f j @ [x])) = Some g" using Cons.prems by simp
    from Cons.IH [OF this] show ?thesis using Put by (cases "j = i") simp_all
  next
    case (Got j x)
    then obtain ys where "f j = x # ys" "replay ev (f(j := ys)) = Some g" using Cons.prems replay_Got by metis
    from Cons.IH [OF this(2)] this(1) show ?thesis using Got by (cases "j = i") simp_all
  qed
qed simp

lemma replay_append: "replay ev f = Some g \<Longrightarrow> replay (ev @ ev') f = replay ev' g"
proof (induction ev arbitrary: f)
  case (Cons e ev)
  show ?case
  proof (cases e)
    case (Got j x)
    then obtain ys where "f j = x # ys" "replay ev (f(j := ys)) = Some g" using Cons.prems replay_Got by metis
    then show ?thesis using Cons.IH Got by simp
  qed (use Cons in simp)
qed simp

lemma replay_got: "f i = xs @ ys \<Longrightarrow> replay (map (Got i) xs) f = Some (f(i := ys))"
  by (induction xs arbitrary: f) (auto simp: fun_upd_idem)

section \<open>Dequeue\<close>

text \<open>
  The outcome of an operation that takes one element if there is one: it reports failure exactly when the queue is
  empty, and otherwise hands out the oldest element of some producer.
\<close>

definition takes_one :: "traits \<Rightarrow> 'a cqueue \<Rightarrow> (nat \<Rightarrow> 'a list) \<Rightarrow> bool \<times> 'a option \<Rightarrow> 'a cqueue \<Rightarrow> bool" where
  "takes_one tr q f r q' \<longleftrightarrow>
     same_nodes q q' \<and>
     (if \<forall>i. f i = [] then r = (False, None) \<and> cq_rep tr q' f
      else \<exists>i x g. i < length (producers q) \<and> r = (True, Some x) \<and> replay [Got i x] f = Some g \<and> cq_rep tr q' g)"

lemma dequeue_at_takes:
  assumes "cq_rep tr q f" and "i < length (producers q)" and "total q f < 2 ^ 63" and "dequeue_at tr i q = (r, q')"
    and "f i \<noteq> []"
  shows "takes_one tr q f r q'" and "r = (True, Some (hd (f i)))"
proof -
  note d = dequeue_at_ok [OF assms(1-4)]
  show r: "r = (True, Some (hd (f i)))" using d(1) assms(5) by simp
  have "replay [Got i (hd (f i))] f = Some (f(i := tl (f i)))" using assms(5) by (cases "f i") simp_all
  then show "takes_one tr q f r q'" unfolding takes_one_def using assms(2,5) r d(2,3) by auto
qed

lemma dequeue_at_empty:
  assumes "cq_rep tr q f" and "i < length (producers q)" and "total q f < 2 ^ 63" and "dequeue_at tr i q = (r, q')"
    and "f i = []"
  shows "r = (False, None)" and "cq_rep tr q' f" and "same_nodes q q'" and "total q' f = total q f"
proof -
  note d = dequeue_at_ok [OF assms(1-4)]
  have "f(i := []) = f" using assms(5) by auto
  then show "r = (False, None)" "cq_rep tr q' f" using d assms(5) by simp_all
  show "same_nodes q q'" by (rule d(3))
  show "total q' f = total q f" using same_nodes_length [OF d(3)] by (simp add: total_def)
qed

lemma takes_one_same: "takes_one tr q' f r q'' \<Longrightarrow> same_nodes q q' \<Longrightarrow> takes_one tr q f r q''"
  unfolding takes_one_def by (simp only: same_nodes_length) (blast intro: same_nodes_trans)

lemma dequeue_first_ok:
  "cq_rep tr q f \<Longrightarrow> total q f < 2 ^ 63 \<Longrightarrow> set is \<subseteq> {..<length (producers q)} \<Longrightarrow>
   (\<forall>i. i \<notin> set is \<longrightarrow> f i = []) \<Longrightarrow> dequeue_first tr is q = (r, q') \<Longrightarrow> takes_one tr q f r q'"
proof (induction "is" arbitrary: q)
  case Nil
  then show ?case by (simp add: takes_one_def same_nodes_refl)
next
  case (Cons i "is")
  have i: "i < length (producers q)" using Cons.prems(3) by simp
  obtain got x q1 where d: "dequeue_at tr i q = ((got, x), q1)" by (metis prod.exhaust)
  show ?case
  proof (cases "f i = []")
    case True
    note e = dequeue_at_empty [OF Cons.prems(1) i Cons.prems(2) d True]
    have "takes_one tr q1 f r q'"
      using Cons.prems d e True same_nodes_length [OF e(3)] by (intro Cons.IH) (auto simp: total_def)
    then show ?thesis by (rule takes_one_same [OF _ e(3)])
  next
    case False
    note t = dequeue_at_takes [OF Cons.prems(1) i Cons.prems(2) d False]
    then show ?thesis using Cons.prems(5) d by simp
  qed
qed

lemma cq_rep_outside: "cq_rep tr q f \<Longrightarrow> i \<notin> {..<length (producers q)} \<Longrightarrow> f i = []"
  by (simp add: cq_rep_def)

lemma set_producer_list [simp]: "set (producer_list q) = {..<length (producers q)}"
  by (auto simp: producer_list_def)

text \<open>The scoring finds a producer that is not empty, if there is one.\<close>

lemma score_mono: "score q is n best bestSize = (n', best') \<Longrightarrow> n \<le> n'"
proof (induction "is" arbitrary: n best bestSize)
  case (Cons i "is")
  let ?k = "sub_size_approx (sub (producers q ! i))"
  consider "\<not> n < 3" | "n < 3" "\<not> ?k > 0" | "n < 3" "?k > 0" "?k > bestSize" | "n < 3" "?k > 0" "\<not> ?k > bestSize" by blast
  then show ?case
  proof cases
    case 3
    then have "score q is (n + 1) (Some i) ?k = (n', best')" using Cons.prems by simp
    from Cons.IH [OF this] show ?thesis by simp
  next
    case 4
    then have "score q is (n + 1) best bestSize = (n', best')" using Cons.prems by simp
    from Cons.IH [OF this] show ?thesis by simp
  qed (use Cons in simp_all)
qed simp

lemma s_positive: "score q is (n + 1) best bestSize = (n', best') \<Longrightarrow> n' \<noteq> 0"
  using score_mono by fastforce

definition scored :: "(nat \<Rightarrow> 'a list) \<Rightarrow> nat set \<Rightarrow> nat \<Rightarrow> nat option \<Rightarrow> bool" where
  "scored f A n best \<longleftrightarrow> (n > 0 \<longrightarrow> (\<exists>b\<in>A. best = Some b \<and> f b \<noteq> []))"

lemma score_ok:
  "scored f A n best \<Longrightarrow> (n = 0 \<longrightarrow> bestSize = 0) \<Longrightarrow> set is \<subseteq> A \<Longrightarrow>
   (\<forall>i\<in>set is. sub_size_approx (sub (producers q ! i)) = length (f i)) \<Longrightarrow>
   score q is n best bestSize = (n', best') \<Longrightarrow> scored f A n' best' \<and> (n' = 0 \<longrightarrow> (\<forall>i\<in>set is. f i = []))"
proof (induction "is" arbitrary: n best bestSize)
  case (Cons i "is")
  have i: "i \<in> A" "sub_size_approx (sub (producers q ! i)) = length (f i)" "set is \<subseteq> A"
    "\<forall>i\<in>set is. sub_size_approx (sub (producers q ! i)) = length (f i)" using Cons.prems(3,4) by simp_all
  consider "\<not> n < 3" | "n < 3" "f i = []" | "n < 3" "f i \<noteq> []" "length (f i) > bestSize"
    | "n < 3" "f i \<noteq> []" "\<not> length (f i) > bestSize" by blast
  then show ?case
  proof cases
    case 1
    then show ?thesis using Cons.prems(1,5) by simp
  next
    case 2
    then have "score q is n best bestSize = (n', best')" using Cons.prems(5) i(2) by simp
    from Cons.IH [OF Cons.prems(1,2) i(3,4) this] 2 show ?thesis by simp
  next
    case 3
    then have s: "score q is (n + 1) (Some i) (length (f i)) = (n', best')" using Cons.prems(5) i(2) by simp
    have "scored f A (n + 1) (Some i)" using 3 i(1) by (simp add: scored_def)
    from Cons.IH [OF this _ i(3,4) s] show ?thesis using s_positive [OF s] by simp
  next
    case 4
    then have s: "score q is (n + 1) best bestSize = (n', best')" using Cons.prems(5) i(2) by simp
    have "n > 0" using 4 Cons.prems(2) by auto
    then have "scored f A (n + 1) best" using Cons.prems(1) by (simp add: scored_def)
    from Cons.IH [OF this _ i(3,4) s] show ?thesis using s_positive [OF s] by simp
  qed
qed simp

lemma try_dequeue_ok:
  assumes "cq_rep tr q f" and "total q f < 2 ^ 63" and "try_dequeue tr q = (r, q')"
  shows "takes_one tr q f r q'"
proof -
  obtain n best where s: "score q (producer_list q) 0 None 0 = (n, best)" by (metis prod.exhaust)
  have sizes: "sub_size_approx (sub (producers q ! i)) = length (f i)" if "i \<in> set (producer_list q)" for i
    using that cq_rep_size [OF assms(1) _ assms(2)] by simp
  have sc: "scored f {..<length (producers q)} n best \<and> (n = 0 \<longrightarrow> (\<forall>i\<in>set (producer_list q). f i = []))"
    by (rule score_ok [OF _ _ _ _ s]) (use sizes in \<open>simp_all add: scored_def\<close>)
  show ?thesis
  proof (cases "n = 0")
    case True
    then have "f i = []" for i using sc cq_rep_outside [OF assms(1), of i] by (cases "i < length (producers q)") auto
    then show ?thesis using True s assms(1,3) by (simp add: try_dequeue_def takes_one_def same_nodes_refl)
  next
    case False
    then have b: "f (the best) \<noteq> []" "the best < length (producers q)" using sc by (auto simp: scored_def)
    obtain got x q1 where d: "dequeue_at tr (the best) q = ((got, x), q1)" by (metis prod.exhaust)
    note t = dequeue_at_takes [OF assms(1) b(2) assms(2) d b(1)]
    then have "r = (got, x)" "q' = q1" using assms(3) s d False by (simp_all add: try_dequeue_def)
    then show ?thesis using t by simp
  qed
qed

section \<open>Bulk dequeue\<close>

text \<open>
  The outcome of an operation that takes up to \<open>mx\<close> elements: it takes as many as there are, each the oldest of some
  producer; \<open>ps\<close> says from which.
\<close>

abbreviation gots :: "(nat \<times> 'a) list \<Rightarrow> 'a event list" where
  "gots ps \<equiv> map (\<lambda>(i, x). Got i x) ps"

definition takes_many :: "traits \<Rightarrow> nat \<Rightarrow> 'a cqueue \<Rightarrow> (nat \<Rightarrow> 'a list) \<Rightarrow> 'a option list \<Rightarrow> 'a cqueue \<Rightarrow> bool" where
  "takes_many tr mx q f items q' \<longleftrightarrow>
     same_nodes q q' \<and> length items = min mx (total q f)
     \<and> (\<exists>ps g. replay (gots ps) f = Some g \<and> items = map (\<lambda>(i, x). Some x) ps \<and> fst ` set ps \<subseteq> {..<length (producers q)}
          \<and> cq_rep tr q' g)"

lemma sum_update:
  fixes g :: "nat \<Rightarrow> 'b list"
  shows "finite A \<Longrightarrow> i \<in> A \<Longrightarrow> (\<Sum>j\<in>A. length ((g(i := xs)) j)) + length (g i) = (\<Sum>j\<in>A. length (g j)) + length xs"
  by (simp add: sum.remove [of A i])

lemma total_update:
  "i < length (producers q) \<Longrightarrow> total q (g(i := xs)) + length (g i) = total q g + length xs"
  unfolding total_def using sum_update [of "{..<length (producers q)}" i g xs] by simp

lemma total_same: "same_nodes q q' \<Longrightarrow> total q' f = total q f"
  by (simp add: total_def same_nodes_length)

text \<open>One bulk dequeue from producer \<open>i\<close>, followed by more.\<close>

lemma takes_many_step:
  assumes "cq_rep tr q f" and "i < length (producers q)" and "total q f < 2 ^ 63" and "dequeue_bulk_at tr mx i q = (items, q1)"
  shows "same_nodes q q1" and "cq_rep tr q1 (f(i := drop mx (f i)))" and "length items = min mx (length (f i))"
    and "total q1 (f(i := drop mx (f i))) = total q f - length items" and "total q1 (f(i := drop mx (f i))) < 2 ^ 63"
    and "length items \<le> total q f"
    and "takes_many tr (mx - length items) q1 (f(i := drop mx (f i))) rest q' \<Longrightarrow> takes_many tr mx q f (items @ rest) q'"
proof -
  note b = dequeue_bulk_at_ok [OF assms]
  let ?g = "f(i := drop mx (f i))"
  show sn: "same_nodes q q1" and "cq_rep tr q1 ?g" by (rule b(3), rule b(2))
  show len: "length items = min mx (length (f i))" using b(1) by simp
  show le: "length items \<le> total q f" using len length_total [OF assms(2), of f] by simp
  have "total q1 ?g + length (f i) = total q f + length (drop mx (f i))"
    unfolding total_same [OF sn] by (rule total_update [OF assms(2)])
  then show t: "total q1 ?g = total q f - length items" using len by simp
  then show "total q1 ?g < 2 ^ 63" using assms(3) by simp
  assume rest: "takes_many tr (mx - length items) q1 ?g rest q'"
  then obtain ps h where ps: "replay (gots ps) ?g = Some h" "rest = map (\<lambda>(i, x). Some x) ps"
    "fst ` set ps \<subseteq> {..<length (producers q)}" "cq_rep tr q' h" "same_nodes q1 q'" "length rest = min (mx - length items) (total q1 ?g)"
    using same_nodes_length [OF sn] by (auto simp: takes_many_def)
  let ?ps = "map (Pair i) (take mx (f i)) @ ps"
  have "replay (map (Got i) (take mx (f i))) f = Some ?g" by (rule replay_got) simp
  then have "replay (map (Got i) (take mx (f i)) @ gots ps) f = replay (gots ps) ?g" by (rule replay_append)
  moreover have "gots ?ps = map (Got i) (take mx (f i)) @ gots ps" by (simp add: o_def)
  ultimately have "replay (gots ?ps) f = Some h" using ps(1) by (simp only:)
  moreover have "items @ rest = map (\<lambda>(i, x). Some x) ?ps" using b(1) ps(2) by simp
  moreover have "length (items @ rest) = min mx (total q f)" 
  proof -
    have "length items \<le> mx" using len by simp
    then show ?thesis using ps(6) t le by (simp add: min_def split: if_splits; linarith)
  qed
  moreover have "fst ` set ?ps \<subseteq> {..<length (producers q)}" using ps(3) assms(2) by auto
  ultimately show "takes_many tr mx q f (items @ rest) q'"
    using ps(4,5) same_nodes_trans [OF sn] unfolding takes_many_def by blast
qed

lemma takes_many_none:
  assumes "cq_rep tr q f" and "mx = 0 \<or> total q f = 0"
  shows "takes_many tr mx q f [] q"
proof -
  have "replay (gots []) f = Some f" by simp
  then show ?thesis using assms same_nodes_refl unfolding takes_many_def by (intro conjI exI [of _ "[]"] exI [of _ f]) auto
qed

lemma total_zero: "cq_rep tr q f \<Longrightarrow> total q f = 0 \<longleftrightarrow> (\<forall>i. f i = [])"
  using cq_rep_outside [of tr q f] by (auto simp: total_def)

lemma bulk_first_ok:
  "cq_rep tr q f \<Longrightarrow> total q f < 2 ^ 63 \<Longrightarrow> set is \<subseteq> {..<length (producers q)} \<Longrightarrow>
   (\<forall>i. i \<notin> set is \<longrightarrow> f i = []) \<Longrightarrow> bulk_first tr is mx q = (items, q') \<Longrightarrow> takes_many tr mx q f items q'"
proof (induction "is" arbitrary: q f mx items)
  case Nil
  have "\<forall>i. f i = []" using Nil.prems(4) by simp
  with total_zero [OF Nil.prems(1)] have "total q f = 0" by (rule iffD2)
  then have "takes_many tr mx q f [] q" using Nil.prems(1) by (intro takes_many_none) simp_all
  then show ?case using Nil.prems(5) by simp
next
  case (Cons i "is")
  have i: "i < length (producers q)" using Cons.prems(3) by simp
  obtain its q1 where d: "dequeue_bulk_at tr mx i q = (its, q1)" by (metis prod.exhaust)
  note s = takes_many_step [OF Cons.prems(1) i Cons.prems(2) d]
  show ?case
  proof (cases "length its = mx")
    case True
    then have "takes_many tr (mx - length its) q1 (f(i := drop mx (f i))) [] q1" using s(2) by (intro takes_many_none) simp_all
    from s(7) [OF this] show ?thesis using Cons.prems(5) d True by simp
  next
    case False
    then have "length (f i) < mx" using s(3) by auto
    then have g: "f(i := drop mx (f i)) = f(i := [])" by simp
    obtain rest where r: "bulk_first tr is (mx - length its) q1 = (rest, q')" "items = its @ rest"
      using Cons.prems(5) d False by (auto split: prod.splits)
    have "takes_many tr (mx - length its) q1 (f(i := drop mx (f i))) rest q'"
      using Cons.prems(3,4) same_nodes_length [OF s(1)] g by (intro Cons.IH [OF s(2,5) _ _ r(1)]) auto
    from s(7) [OF this] show ?thesis using r(2) by simp
  qed
qed

lemma try_dequeue_bulk_ok:
  "cq_rep tr q f \<Longrightarrow> total q f < 2 ^ 63 \<Longrightarrow> try_dequeue_bulk tr mx q = (items, q') \<Longrightarrow> takes_many tr mx q f items q'"
  unfolding try_dequeue_bulk_def using cq_rep_outside by (intro bulk_first_ok) auto

section \<open>Consumer tokens\<close>

definition token_ok :: "'a cqueue \<Rightarrow> ctoken \<Rightarrow> bool" where
  "token_ok q tok \<longleftrightarrow>
     (case desiredProducer tok of
        None \<Rightarrow> True
      | Some d \<Rightarrow> d < length (producers q) \<and> (\<exists>c<length (producers q). currentProducer tok = Some c))"

lemma next_producer_less: "i < length (producers q) \<Longrightarrow> next_producer q i < length (producers q)"
  by (auto simp: next_producer_def)

lemma next_producer_power: "i < length (producers q) \<Longrightarrow> (next_producer q ^^ k) i < length (producers q)"
  by (induction k) (simp_all add: next_producer_less)

text \<open>A token that may go on refers to a producer; one that may not belongs to a queue without producers.\<close>

lemma rotate_ok:
  assumes "token_ok q tok" and "rotate q tok = (ok, tok')"
  shows "if ok then token_ok q tok' \<and> (\<exists>c<length (producers q). currentProducer tok' = Some c) else producers q = [] \<and> tok' = tok"
proof (cases "desiredProducer tok = None \<or> lastKnownGlobalOffset tok \<noteq> globalExplicitConsumerOffset q")
  case True
  show ?thesis
  proof (cases "desiredProducer tok = None \<and> producers q = []")
    case False
    then have n: "0 < length (producers q)" using assms(1) by (cases "producers q") (auto simp: token_ok_def split: option.splits)
    define k where "k = unat (producerCount q - 1 - initialOffset tok mod producerCount q)"
    define d where "d = (case desiredProducer tok of None \<Rightarrow> (next_producer q ^^ k) (length (producers q) - 1) | Some i \<Rightarrow> i)"
    have "d < length (producers q)"
      using assms(1) n by (auto simp: d_def token_ok_def next_producer_power split: option.split)
    then have less: "(next_producer q ^^ m) d < length (producers q)" for m by (rule next_producer_power)
    have "\<exists>m. rotate q tok = (True, tok\<lparr>desiredProducer := Some ((next_producer q ^^ m) d), lastKnownGlobalOffset := globalExplicitConsumerOffset q,
        currentProducer := Some ((next_producer q ^^ m) d), itemsConsumedFromCurrent := 0\<rparr>)"
      using True False unfolding rotate_def update_current_producer_after_rotation_def Let_def k_def [symmetric] d_def [symmetric]
      by (simp only: if_True if_False) blast
    then obtain m where "ok" "tok' = tok\<lparr>desiredProducer := Some ((next_producer q ^^ m) d), lastKnownGlobalOffset := globalExplicitConsumerOffset q,
        currentProducer := Some ((next_producer q ^^ m) d), itemsConsumedFromCurrent := 0\<rparr>" using assms(2) by auto
    then have "desiredProducer tok' = Some ((next_producer q ^^ m) d)" "currentProducer tok' = Some ((next_producer q ^^ m) d)" ok by simp_all
    with less [of m]
    show ?thesis by (simp add: token_ok_def)
  qed (use True assms(2) in \<open>simp add: rotate_def update_current_producer_after_rotation_def\<close>)
next
  case False
  then show ?thesis using assms by (auto simp: rotate_def token_ok_def split: option.splits)
qed

text \<open>How far along the list producer \<open>c\<close> is from producer \<open>i\<close>.\<close>

definition distance :: "nat \<Rightarrow> nat \<Rightarrow> nat \<Rightarrow> nat" where
  "distance n i c = (if c \<le> i then i - c else i + n - c)"

lemma distance_zero: "c < n \<Longrightarrow> distance n i c = 0 \<longleftrightarrow> i = c"
  by (auto simp: distance_def)

lemma distance_less: "i < n \<Longrightarrow> c < n \<Longrightarrow> distance n i c < n"
  by (auto simp: distance_def)

lemma distance_inj: "i < n \<Longrightarrow> j < n \<Longrightarrow> c < n \<Longrightarrow> distance n i c = distance n j c \<Longrightarrow> i = j"
  by (auto simp: distance_def split: if_splits)

lemma distance_next:
  "i < length (producers q) \<Longrightarrow> c < length (producers q) \<Longrightarrow> i \<noteq> c \<Longrightarrow>
   Suc (distance (length (producers q)) (next_producer q i) c) = distance (length (producers q)) i c"
  by (auto simp: distance_def next_producer_def)

text \<open>While the loop is at \<open>ptr\<close>, only producers from \<open>ptr\<close> to before \<open>c\<close> can have elements.\<close>

definition ahead :: "'a cqueue \<Rightarrow> nat \<Rightarrow> nat \<Rightarrow> (nat \<Rightarrow> 'a list) \<Rightarrow> bool" where
  "ahead q ptr c f \<longleftrightarrow>
     (\<forall>i. f i \<noteq> [] \<longrightarrow> i < length (producers q) \<and> 0 < distance (length (producers q)) i c
        \<and> distance (length (producers q)) i c \<le> distance (length (producers q)) ptr c)"

lemma ahead_end: "c < length (producers q) \<Longrightarrow> ahead q c c f \<Longrightarrow> f i = []"
  using distance_zero [of c "length (producers q)" c] unfolding ahead_def by fastforce

lemma ahead_start: "cq_rep tr q f \<Longrightarrow> c < length (producers q) \<Longrightarrow> f c = [] \<Longrightarrow> ahead q (next_producer q c) c f"
  unfolding ahead_def
proof (intro allI impI)
  fix i assume "cq_rep tr q f" "c < length (producers q)" "f c = []" "f i \<noteq> []"
  moreover from this have "i < length (producers q)" using cq_rep_outside [of tr q f i] by auto
  ultimately show "i < length (producers q) \<and> 0 < distance (length (producers q)) i c
        \<and> distance (length (producers q)) i c \<le> distance (length (producers q)) (next_producer q c) c"
    by (cases "i = c") (auto simp: distance_def next_producer_def)
qed

lemma ahead_next:
  assumes "ahead q ptr c f" and "ptr < length (producers q)" and "c < length (producers q)" and "ptr \<noteq> c" and "f ptr = []"
  shows "ahead q (next_producer q ptr) c f"
  unfolding ahead_def
proof (intro allI impI)
  let ?n = "length (producers q)"
  fix i assume i: "f i \<noteq> []"
  then have a: "i < ?n" "0 < distance ?n i c" "distance ?n i c \<le> distance ?n ptr c" using assms(1) by (simp_all add: ahead_def)
  then have "distance ?n i c \<noteq> distance ?n ptr c" using distance_inj [OF a(1) assms(2,3)] i assms(5) by auto
  then show "i < ?n \<and> 0 < distance ?n i c \<and> distance ?n i c \<le> distance ?n (next_producer q ptr) c"
    using a distance_next [OF assms(2-4)] by simp
qed

lemma ahead_same: "same_nodes q q' \<Longrightarrow> ahead q' ptr c f = ahead q ptr c f"
  by (simp add: ahead_def same_nodes_length)

lemma next_producer_same: "same_nodes q q' \<Longrightarrow> next_producer q' i = next_producer q i"
  by (simp add: next_producer_def same_nodes_length)

lemma token_ok_same: "same_nodes q q' \<Longrightarrow> token_ok q' tok = token_ok q tok"
  by (simp add: token_ok_def same_nodes_length split: option.split)

lemma takes_one_none:
  assumes "cq_rep tr q f" and "\<forall>i. f i = []"
  shows "takes_one tr q f (False, None) q"
proof -
  have "f = (\<lambda>_. [])" using assms(2) by auto
  then show ?thesis using assms(1) by (simp add: takes_one_def same_nodes_refl)
qed

text \<open>The loop over the other producers returns within one turn.\<close>

lemma dequeue_others_ok:
  "cq_rep tr q f \<Longrightarrow> total q f < 2 ^ 63 \<Longrightarrow> token_ok q tok \<Longrightarrow> currentProducer tok = Some c \<Longrightarrow> desiredProducer tok \<noteq> None \<Longrightarrow>
   c < length (producers q) \<Longrightarrow> ptr < length (producers q) \<Longrightarrow> ahead q ptr c f \<Longrightarrow> distance (length (producers q)) ptr c < rounds \<Longrightarrow>
   \<exists>r tok' q'. dequeue_others rounds tr ptr tok q = Some (r, tok', q') \<and> takes_one tr q f r q' \<and> token_ok q tok'"
proof (induction rounds arbitrary: ptr q)
  case (Suc rounds)
  let ?n = "length (producers q)"
  show ?case
  proof (cases "ptr = c")
    case True
    then have "\<forall>i. f i = []" using ahead_end [OF Suc.prems(6)] Suc.prems(8) by simp
    then have "takes_one tr q f (False, None) q" by (rule takes_one_none [OF Suc.prems(1)])
    then show ?thesis using True Suc.prems(3,4) by simp
  next
    case False
    obtain got x q1 where d: "dequeue_at tr ptr q = ((got, x), q1)" by (metis prod.exhaust)
    show ?thesis
    proof (cases "f ptr = []")
      case True
      note e = dequeue_at_empty [OF Suc.prems(1,7,2) d True]
      have n: "length (producers q1) = ?n" by (rule same_nodes_length [OF e(3)])
      have a: "ahead q1 (next_producer q ptr) c f"
        unfolding ahead_same [OF e(3)] by (rule ahead_next [OF Suc.prems(8,7,6) False True])
      have t: "total q1 f < 2 ^ 63" using Suc.prems(2) e(4) by simp
      have dist: "distance ?n (next_producer q ptr) c < rounds" using distance_next [OF Suc.prems(7,6) False] Suc.prems(9) by simp
      have "\<exists>r tok' q'. dequeue_others rounds tr (next_producer q ptr) tok q1 = Some (r, tok', q') \<and> takes_one tr q1 f r q' \<and> token_ok q1 tok'"
        using Suc.prems(3-7) token_ok_same [OF e(3)] n a dist next_producer_less
        by (intro Suc.IH [OF e(2) t]) simp_all
      then obtain r tok' q' where r: "dequeue_others rounds tr (next_producer q ptr) tok q1 = Some (r, tok', q')"
        "takes_one tr q1 f r q'" "token_ok q1 tok'" by blast
      have "dequeue_others (Suc rounds) tr ptr tok q = Some (r, tok', q')"
        using False Suc.prems(4) d e(1) r(1) next_producer_same [OF e(3)] by simp
      then show ?thesis using takes_one_same [OF r(2) e(3)] r(3) token_ok_same [OF e(3)] by blast
    next
      case False
      note t = dequeue_at_takes [OF Suc.prems(1,7,2) d False]
      let ?tok = "tok\<lparr>currentProducer := Some ptr, itemsConsumedFromCurrent := 1\<rparr>"
      have "dequeue_others (Suc rounds) tr ptr tok q = Some ((True, x), ?tok, q1)"
        using \<open>ptr \<noteq> c\<close> Suc.prems(4) d t(2) by simp
      moreover have "token_ok q ?tok" using Suc.prems(3,5,7) by (auto simp: token_ok_def)
      moreover have "takes_one tr q f (True, x) q1" using t by simp
      ultimately show ?thesis by blast
    qed
  qed
qed simp

lemma cq_rep_offset [simp]: "cq_rep tr (q\<lparr>globalExplicitConsumerOffset := a\<rparr>) f = cq_rep tr q f"
  by (simp add: cq_rep_def)

lemma same_nodes_offset [simp]: "same_nodes q (q'\<lparr>globalExplicitConsumerOffset := a\<rparr>) = same_nodes q q'"
  by (simp add: same_nodes_def)

lemma takes_offset [simp]:
  "takes_one tr q f r (q'\<lparr>globalExplicitConsumerOffset := a\<rparr>) = takes_one tr q f r q'"
  "takes_many tr mx q f items (q'\<lparr>globalExplicitConsumerOffset := a\<rparr>) = takes_many tr mx q f items q'"
  unfolding takes_one_def takes_many_def by (simp_all only: cq_rep_offset same_nodes_offset)

lemma token_ok_consumed [simp]: "token_ok q (tok\<lparr>itemsConsumedFromCurrent := n\<rparr>) = token_ok q tok"
  by (simp add: token_ok_def split: option.split)

lemma rotate_desired: "rotate q tok = (True, tok') \<Longrightarrow> desiredProducer tok' \<noteq> None"
  by (auto simp: rotate_def update_current_producer_after_rotation_def Let_def split: if_splits)

lemma try_dequeue_token_ok:
  assumes "cq_rep tr q f" and "total q f < 2 ^ 63" and "token_ok q tok"
  obtains r tok' q' where "try_dequeue_token tr tok q = Some (r, tok', q')" "takes_one tr q f r q'" "token_ok q tok'"
proof -
  obtain ok tok1 where r: "rotate q tok = (ok, tok1)" by (metis prod.exhaust)
  note ro = rotate_ok [OF assms(3) r]
  show thesis
  proof (cases ok)
    case False
    then have "f i = []" for i using ro cq_rep_outside [OF assms(1)] by simp
    then have "takes_one tr q f (False, None) q" using takes_one_none [OF assms(1)] by simp
    moreover have "try_dequeue_token tr tok q = Some ((False, None), tok1, q)" using r False by (simp add: try_dequeue_token_def)
    ultimately show thesis using that ro False assms(3) by simp
  next
    case True
    then obtain c where c: "token_ok q tok1" "c < length (producers q)" "currentProducer tok1 = Some c" using ro by auto
    obtain got x q1 where d: "dequeue_at tr c q = ((got, x), q1)" by (metis prod.exhaust)
    show thesis
    proof (cases "f c = []")
      case empty: True
      note e = dequeue_at_empty [OF assms(1) c(2) assms(2) d empty]
      have n: "length (producers q1) = length (producers q)" by (rule same_nodes_length [OF e(3)])
      have a: "ahead q1 (next_producer q c) c f" unfolding ahead_same [OF e(3)] by (rule ahead_start [OF assms(1) c(2) empty])
      have l: "next_producer q c < length (producers q1)" using next_producer_less [OF c(2)] n by simp
      have "\<exists>r tok' q'. dequeue_others (length (producers q1)) tr (next_producer q c) tok1 q1 = Some (r, tok', q')
          \<and> takes_one tr q1 f r q' \<and> token_ok q1 tok'"
        using c assms(2) e(4) rotate_desired r True token_ok_same [OF e(3)] n a l distance_less [OF l]
        by (intro dequeue_others_ok [OF e(2), where c = c]) simp_all
      then obtain r' tok' q' where o: "dequeue_others (length (producers q1)) tr (next_producer q c) tok1 q1 = Some (r', tok', q')"
        "takes_one tr q1 f r' q'" "token_ok q1 tok'" by blast
      have "try_dequeue_token tr tok q = Some (r', tok', q')"
        using r True c(3) d e(1) o(1) next_producer_same [OF e(3)] by (simp add: try_dequeue_token_def)
      then show thesis using that takes_one_same [OF o(2) e(3)] o(3) token_ok_same [OF e(3)] by blast
    next
      case False
      note t = dequeue_at_takes [OF assms(1) c(2) assms(2) d False]
      then have "got" by simp
      then show thesis using r True c d that t by (simp add: try_dequeue_token_def Let_def)
    qed
  qed
qed

text \<open>
  The bulk loop may go round more than once: it starts over from the last producer that had elements, but only after
  that producer has been emptied and \<open>max\<close> has become smaller.
\<close>

lemma bulk_others_ok:
  "cq_rep tr q f \<Longrightarrow> total q f < 2 ^ 63 \<Longrightarrow> token_ok q tok \<Longrightarrow> currentProducer tok = Some c \<Longrightarrow> desiredProducer tok \<noteq> None \<Longrightarrow>
   c < length (producers q) \<Longrightarrow> ptr < length (producers q) \<Longrightarrow> ahead q ptr c f \<Longrightarrow>
   mx * length (producers q) + distance (length (producers q)) ptr c < rounds \<Longrightarrow>
   \<exists>items tok' q'. bulk_others rounds tr mx ptr tok q = Some (items, tok', q') \<and> takes_many tr mx q f items q' \<and> token_ok q tok'"
proof (induction rounds arbitrary: ptr q f mx tok c)
  case (Suc rounds)
  let ?n = "length (producers q)"
  show ?case
  proof (cases "ptr = c")
    case True
    then have "\<forall>i. f i = []" using ahead_end [OF Suc.prems(6)] Suc.prems(8) by simp
    with total_zero [OF Suc.prems(1)] have "total q f = 0" by (rule iffD2)
    then have "takes_many tr mx q f [] q" using Suc.prems(1) by (intro takes_many_none) simp_all
    then show ?thesis using True Suc.prems(3,4) by simp
  next
    case False
    obtain items q1 where d: "dequeue_bulk_at tr mx ptr q = (items, q1)" by (metis prod.exhaust)
    note s = takes_many_step [OF Suc.prems(1,7,2) d]
    have n: "length (producers q1) = ?n" by (rule same_nodes_length [OF s(1)])
    let ?tok = "if items \<noteq> [] then tok\<lparr>currentProducer := Some ptr, itemsConsumedFromCurrent := of_nat (length items)\<rparr> else tok"
    let ?c = "if items \<noteq> [] then ptr else c" and ?g = "f(ptr := drop mx (f ptr))"
    have tok: "token_ok q ?tok" "currentProducer ?tok = Some ?c" "desiredProducer ?tok \<noteq> None"
      using Suc.prems(3-5,7) by (auto simp: token_ok_def split: option.splits)
    show ?thesis
    proof (cases "length items = mx")
      case True
      then have "takes_many tr (mx - length items) q1 ?g [] q1" using s(2) by (intro takes_many_none) simp_all
      then have "takes_many tr mx q f items q1" using s(7) [where rest = "[]" and q' = q1] by simp
      moreover have "bulk_others (Suc rounds) tr mx ptr tok q = Some (items, ?tok, q1)"
        using False True Suc.prems(4) d by simp
      ultimately show ?thesis using tok(1) by blast
    next
      case more: False
      then have drained: "length (f ptr) < mx" "length items = length (f ptr)" using s(3) by auto
      then have g: "?g ptr = []" by simp
      have a: "ahead q1 (next_producer q ptr) ?c ?g"
      proof (cases "items = []")
        case True
        then have "?g = f" using drained by auto
        then show ?thesis using True ahead_next [OF Suc.prems(8,7,6) False] drained unfolding ahead_same [OF s(1)] by simp
      next
        case False
        have "ptr < length (producers q1)" using n Suc.prems(7) by simp
        then have "ahead q1 (next_producer q1 ptr) ptr ?g" by (rule ahead_start [OF s(2) _ g])
        then show ?thesis using False by (simp only: next_producer_same [OF s(1)] simp_thms if_True)
      qed
      have rounds: "(mx - length items) * ?n + distance ?n (next_producer q ptr) ?c < rounds"
      proof (cases "items = []")
        case True
        then show ?thesis using distance_next [OF Suc.prems(7,6) False] Suc.prems(9) by simp
      next
        case ne: False
        have "distance ?n (next_producer q ptr) ptr < ?n" using distance_less next_producer_less Suc.prems(7) by metis
        moreover have "(mx - length items) * ?n + ?n \<le> mx * ?n"
        proof -
          have "Suc (mx - length items) \<le> mx" using ne drained by (cases items) auto
          then have "Suc (mx - length items) * ?n \<le> mx * ?n" by (rule mult_le_mono1)
          then show ?thesis by simp
        qed
        moreover have "0 < distance ?n ptr c" using distance_zero [OF Suc.prems(6), of ptr] False by (cases "distance ?n ptr c") simp_all
        ultimately show ?thesis using ne Suc.prems(9) by simp
      qed
      have "\<exists>rest tok' q'. bulk_others rounds tr (mx - length items) (next_producer q ptr) ?tok q1 = Some (rest, tok', q')
          \<and> takes_many tr (mx - length items) q1 ?g rest q' \<and> token_ok q1 tok'"
      proof (rule Suc.IH [OF s(2,5) _ tok(2,3) _ _ a])
        show "token_ok q1 ?tok" using tok(1) token_ok_same [OF s(1)] by simp
        show "?c < length (producers q1)" "next_producer q ptr < length (producers q1)"
          using n Suc.prems(6,7) next_producer_less by simp_all
        show "(mx - length items) * length (producers q1) + distance (length (producers q1)) (next_producer q ptr) ?c < rounds"
          using rounds n by simp
      qed
      then obtain rest tok' q' where r: "bulk_others rounds tr (mx - length items) (next_producer q ptr) ?tok q1 = Some (rest, tok', q')"
        "takes_many tr (mx - length items) q1 ?g rest q'" "token_ok q1 tok'" by blast
      have "bulk_others (Suc rounds) tr mx ptr tok q = Some (items @ rest, tok', q')"
        using False more Suc.prems(4) d r(1) next_producer_same [OF s(1)] by (simp add: Let_def)
      then show ?thesis using s(7) [OF r(2)] r(3) token_ok_same [OF s(1)] by blast
    qed
  qed
qed simp

lemma try_dequeue_bulk_token_ok:
  assumes "cq_rep tr q f" and "total q f < 2 ^ 63" and "token_ok q tok"
  obtains items tok' q' where "try_dequeue_bulk_token tr tok mx q = Some (items, tok', q')" "takes_many tr mx q f items q'" "token_ok q tok'"
proof -
  obtain ok tok1 where r: "rotate q tok = (ok, tok1)" by (metis prod.exhaust)
  note ro = rotate_ok [OF assms(3) r]
  show thesis
  proof (cases ok)
    case False
    then have "total q f = 0" using ro by (simp add: total_def)
    then have "takes_many tr mx q f [] q" using assms(1) by (intro takes_many_none) simp_all
    moreover have "try_dequeue_bulk_token tr tok mx q = Some ([], tok1, q)" using r False by (simp add: try_dequeue_bulk_token_def)
    ultimately show thesis using that ro False assms(3) by simp
  next
    case True
    then obtain c where c: "token_ok q tok1" "c < length (producers q)" "currentProducer tok1 = Some c" using ro by auto
    have desired: "desiredProducer tok1 \<noteq> None" using rotate_desired r True by simp
    obtain items q1 where d: "dequeue_bulk_at tr mx c q = (items, q1)" by (metis prod.exhaust)
    note s = takes_many_step [OF assms(1) c(2) assms(2) d]
    have n: "length (producers q1) = length (producers q)" by (rule same_nodes_length [OF s(1)])
    show thesis
    proof (cases "length items = mx")
      case full: True
      then have "takes_many tr (mx - length items) q1 (f(c := drop mx (f c))) [] q1" using s(2) by (intro takes_many_none) simp_all
      then have "takes_many tr mx q f items q1" using s(7) [where rest = "[]" and q' = q1] by simp
      then show thesis using that r True c full d by (simp add: try_dequeue_bulk_token_def Let_def)
    next
      case False
      then have drained: "length (f c) < mx" "length items = length (f c)" using s(3) by auto
      let ?tok = "tok1\<lparr>itemsConsumedFromCurrent := itemsConsumedFromCurrent tok1 + of_nat (length items)\<rparr>"
      let ?g = "f(c := drop mx (f c))"
      have c1: "c < length (producers q1)" "next_producer q c < length (producers q1)" using c(2) n next_producer_less by simp_all
      have a: "ahead q1 (next_producer q c) c ?g"
        using ahead_start [OF s(2) c1(1)] drained next_producer_same [OF s(1)] by simp
      have rounds: "(mx - length items) * length (producers q1) + distance (length (producers q1)) (next_producer q c) c
          < Suc mx * length (producers q1)"
        using distance_less [OF c1(2,1)] mult_le_mono1 [of "mx - length items" mx "length (producers q1)"] unfolding mult_Suc by linarith
      have "\<exists>rest tok' q'. bulk_others (Suc mx * length (producers q1)) tr (mx - length items) (next_producer q c) ?tok q1 = Some (rest, tok', q')
          \<and> takes_many tr (mx - length items) q1 ?g rest q' \<and> token_ok q1 tok'"
        using c token_ok_same [OF s(1)] desired
        by (intro bulk_others_ok [OF s(2,5) _ _ _ c1(1,2) a rounds]) simp_all
      then obtain rest tok' q' where o: "bulk_others (Suc mx * length (producers q1)) tr (mx - length items) (next_producer q c) ?tok q1 = Some (rest, tok', q')"
        "takes_many tr (mx - length items) q1 ?g rest q'" "token_ok q1 tok'" by blast
      have "try_dequeue_bulk_token tr tok mx q = Some (items @ rest, tok', q')"
        using r True c(3) d False o(1) n next_producer_same [OF s(1)] by (simp add: try_dequeue_bulk_token_def Let_def del: mult_Suc)
      then show thesis using that s(7) [OF o(2)] o(3) token_ok_same [OF s(1)] by blast
    qed
  qed
qed

lemma size_approx_ok:
  assumes "cq_rep tr q f" and "total q f < 2 ^ 63"
  shows "size_approx q = total q f"
proof -
  have "size_approx q = sum_list (map (\<lambda>i. length (f i)) (producer_list q))"
    unfolding size_approx_def using cq_rep_size [OF assms(1) _ assms(2)] by (intro arg_cong [of _ _ sum_list] map_cong) simp_all
  also have "\<dots> = (\<Sum>i\<in>set (producer_list q). length (f i))" by (rule sum_list_distinct_conv_sum_set) (simp add: producer_list_def)
  finally show ?thesis by (simp add: total_def)
qed

end
