(* ===== verification/ConcurrentQueueClients.thy ===== *)
theory ConcurrentQueueClients
  imports ConcurrentQueueFifo
begin

text \<open>
  \<open>ConcurrentQueue\<close> with the clients that come and go: tokens and threads take producers into use and give them
  back.  Any sequence of operations on a new queue keeps the state well formed, and what the clients see of the
  elements is explained by one first-in first-out list per producer.
\<close>

section \<open>Producers come and go\<close>

lemma cq_rep_node: "(\<And>p. sub (g p) = sub p) \<Longrightarrow> cq_rep tr (upd_node i g q) f = cq_rep tr q f"
proof -
  assume "\<And>p. sub (g p) = sub p"
  then have "map sub ((producers q)[i := g (producers q ! i)]) = (map sub (producers q))[i := sub (producers q ! i)]" by (simp add: map_update)
  also have "\<dots> = map sub (producers q)" by (cases "i < length (producers q)") (simp_all add: list_update_same_conv list_update_beyond)
  finally show ?thesis by (simp add: cq_rep_def upd_node_def)
qed

lemma cq_rep_hash [simp]: "cq_rep tr (q\<lparr>cq_hash := h\<rparr>) f = cq_rep tr q f"
  by (simp add: cq_rep_def)

lemma cq_rep_pool:
  assumes "cq_rep tr q f" and "frame_step {} (cq_pool q) {} P" and "pool_ok tr P"
  shows "cq_rep tr (q\<lparr>cq_pool := P\<rparr>) f"
  using assms any_sub.family_pool unfolding cq_rep_def by fastforce

lemma malloc_frame: "malloc mo P = (ok, P') \<Longrightarrow> frame_step {} P {} P' \<and> (pool_ok tr P \<longrightarrow> pool_ok tr P')"
  by (auto simp: malloc_def mallocs_frame intro!: frame_step_own)

lemma create_producer_ok:
  assumes "pool_ok tr P" and "traits_ok tr" and "BLOCK_SIZE tr < 2 ^ 63" and "create_producer mo tr isExpl P = (r, P')"
  shows "frame_step {} P {} P'" and "pool_ok tr P'" and "\<And>s. r = Some s \<Longrightarrow> isExplicit s = isExpl \<and> sub_rep tr {} [] s P'"
proof -
  obtain ok P1 where m: "malloc mo P = (ok, P1)" by (metis prod.exhaust)
  have P1: "frame_step {} P {} P1" "pool_ok tr P1" using malloc_frame [OF m, of tr] assms(1) by simp_all
  have "frame_step {} P {} P' \<and> pool_ok tr P' \<and> (\<forall>s. r = Some s \<longrightarrow> isExplicit s = isExpl \<and> sub_rep tr {} [] s P')"
  proof (cases ok)
    case False
    then show ?thesis using assms(4) m P1 by (auto simp: create_producer_def)
  next
    case ok: True
    show ?thesis
    proof (cases isExpl)
      case True
      obtain p where p: "ExplicitProducer mo tr P1 = (p, P')" "r = Some (Explicit p)"
        using assms(4) m ok True by (auto simp: create_producer_def split: prod.splits)
      note e = ExplicitProducer_ok [OF P1(2) assms(2) p(1)]
      then have "sub_rep tr {} [] (Explicit p) P'" using assms(3) by (simp add: explicit_rep_def)
      moreover note sub_rep_pool_ok [OF this]
      ultimately show ?thesis using True p(2) frame_step_trans [OF P1(1) e(2)] by auto
    next
      case False
      obtain p where p: "ImplicitProducer mo tr P1 = (p, P')" "r = Some (Implicit p)"
        using assms(4) m ok False by (auto simp: create_producer_def split: prod.splits)
      note e = ImplicitProducer_ok [OF P1(2) assms(2,3) p(1)]
      then have "sub_rep tr {} [] (Implicit p) P'" by simp
      moreover note sub_rep_pool_ok [OF this]
      ultimately show ?thesis using False p(2) frame_step_trans [OF P1(1) e(2)] by auto
    qed
  qed
  then show "frame_step {} P {} P'" and "pool_ok tr P'" and "\<And>s. r = Some s \<Longrightarrow> isExplicit s = isExpl \<and> sub_rep tr {} [] s P'" by auto
qed

text \<open>
  What a new or recycled producer means for the others: it was not in use, and they stay as they are.
\<close>

definition joins :: "'a cqueue \<Rightarrow> nat \<Rightarrow> bool \<Rightarrow> 'a cqueue \<Rightarrow> bool" where
  "joins q i isExpl q' \<longleftrightarrow>
     i < length (producers q') \<and> isExplicit (sub (producers q' ! i)) = isExpl \<and> \<not> inactive (producers q' ! i)
     \<and> (i < length (producers q) \<longrightarrow> inactive (producers q ! i)) \<and> length (producers q) \<le> length (producers q')
     \<and> (\<forall>j<length (producers q). j \<noteq> i \<longrightarrow> producers q' ! j = producers q ! j)"

lemma add_producer_ok:
  assumes "cq_rep tr q f" and "sub_rep tr {} [] s P" and "frame_step {} (cq_pool q) {} P"
  shows "cq_rep tr (snd (add_producer (Some s) (q\<lparr>cq_pool := P\<rparr>))) f"
proof -
  obtain owns where fam: "family (sub_rep tr) owns f (map sub (producers q)) (cq_pool q)" using assms(1) by (auto simp: cq_rep_def)
  have "family (sub_rep tr) (owns(length (producers q) := {})) (f(length (producers q) := [])) (map sub (producers q) @ [s]) P"
    using any_sub.family_add [OF fam assms(3,2)] by simp
  moreover have "f(length (producers q) := []) = f" using cq_rep_outside [OF assms(1)] by auto
  ultimately show ?thesis using assms(1) sub_rep_pool_ok [OF assms(2)] by (auto simp: cq_rep_def add_producer_def)
qed

lemma recycle_or_create_ok:
  assumes "cq_rep tr q f" and "recycle_or_create_producer mo tr isExpl q = (r, q')"
  shows "cq_rep tr q' f" and "cq_hash q' = cq_hash q" and "case r of None \<Rightarrow> same_nodes q q' | Some i \<Rightarrow> joins q i isExpl q'"
proof -
  let ?Q = "\<lambda>i. inactive (producers q ! i) \<and> isExplicit (sub (producers q ! i)) = isExpl"
  have "cq_rep tr q' f \<and> cq_hash q' = cq_hash q \<and> (case r of None \<Rightarrow> same_nodes q q' | Some i \<Rightarrow> joins q i isExpl q')"
  proof (cases "find ?Q (producer_list q)")
    case (Some i)
    then have i: "i < length (producers q)" "?Q i" by (auto simp: find_Some_iff producer_list_def rev_nth)
    have q': "r = Some i" "q' = upd_node i (\<lambda>p. p\<lparr>inactive := False\<rparr>) q"
      using assms(2) Some by (simp_all add: recycle_or_create_producer_def)
    moreover have "cq_rep tr q' f" unfolding q'(2) using assms(1) by (subst cq_rep_node) simp_all
    ultimately show ?thesis using i by (auto simp: joins_def upd_node_def)
  next
    case None
    obtain p P where c: "create_producer mo tr isExpl (cq_pool q) = (p, P)" by (metis prod.exhaust)
    have tr: "pool_ok tr (cq_pool q)" "traits_ok tr" "BLOCK_SIZE tr < 2 ^ 63" using assms(1) by (simp_all add: cq_rep_def)
    note cp = create_producer_ok [OF tr c]
    have q': "(r, q') = add_producer p (q\<lparr>cq_pool := P\<rparr>)" using assms(2) None c by (simp add: recycle_or_create_producer_def)
    show ?thesis
    proof (cases p)
      case None
      then show ?thesis using q' cq_rep_pool [OF assms(1) cp(1,2)] by (simp add: add_producer_def same_nodes_def)
    next
      case (Some s)
      have "cq_rep tr q' f" using add_producer_ok [OF assms(1) _ cp(1)] cp(3) [OF Some] q' Some by (metis snd_conv)
      then show ?thesis using q' Some cp(3) [OF Some] by (auto simp: add_producer_def joins_def nth_append)
    qed
  qed
  then show "cq_rep tr q' f" and "cq_hash q' = cq_hash q" and "case r of None \<Rightarrow> same_nodes q q' | Some i \<Rightarrow> joins q i isExpl q'"
    by simp_all
qed

section \<open>The hash of implicit producers\<close>

definition producer_of :: "'a cqueue \<Rightarrow> thread_id \<Rightarrow> nat option option" where
  "producer_of q tid = assoc (tables (cq_hash q)) tid"

text \<open>Every thread the hash knows has an implicit producer in use, which it shares with no other thread.\<close>

definition known_ok :: "(nat \<Rightarrow> bool) \<Rightarrow> (thread_id \<Rightarrow> nat option option) \<Rightarrow> bool" where
  "known_ok usable a \<longleftrightarrow>
     (\<forall>k. live k \<longrightarrow> (\<forall>v. a k = Some v \<longrightarrow> (\<exists>i. v = Some i \<and> usable i)))
     \<and> (\<forall>k. live k \<longrightarrow> (\<forall>k'. live k' \<longrightarrow> (\<forall>v. a k = Some v \<longrightarrow> a k' = Some v \<longrightarrow> k = k')))"

definition usable :: "'a cqueue \<Rightarrow> nat \<Rightarrow> bool" where
  "usable q i \<longleftrightarrow> i < length (producers q) \<and> \<not> isExplicit (sub (producers q ! i)) \<and> \<not> inactive (producers q ! i)"

definition hash_rep :: "traits \<Rightarrow> 'a cqueue \<Rightarrow> bool" where
  "hash_rep tr q \<longleftrightarrow>
     (INITIAL_IMPLICIT_PRODUCER_HASH_SIZE tr \<noteq> 0 \<longrightarrow> hash_ok (cq_hash q) \<and> known_ok (usable q) (producer_of q))"

lemma known_ok_cong: "(\<And>k. live k \<Longrightarrow> a k = b k) \<Longrightarrow> known_ok u a = known_ok u b"
  unfolding known_ok_def by (simp cong: imp_cong)

lemma known_ok_mono: "known_ok u a \<Longrightarrow> (\<And>k i. live k \<Longrightarrow> a k = Some (Some i) \<Longrightarrow> u i \<Longrightarrow> u' i) \<Longrightarrow> known_ok u' a"
  unfolding known_ok_def by blast

lemma known_ok_new:
  assumes "known_ok u a" and "\<not> u i" and "u' i" and "\<And>j. j \<noteq> i \<Longrightarrow> u j \<Longrightarrow> u' j"
  shows "known_ok u' (a(tid := Some (Some i)))"
proof -
  have notin: "a k \<noteq> Some (Some i)" if "live k" for k using assms(1,2) that unfolding known_ok_def by auto
  have "\<exists>j. v = Some j \<and> u' j" if "live k" "(a(tid := Some (Some i))) k = Some v" for k v
  proof (cases "k = tid")
    case False
    then have "a k = Some v" using that(2) by simp
    have "\<exists>j. v = Some j \<and> u j" using assms(1) that(1) \<open>a k = Some v\<close> unfolding known_ok_def by blast
    then obtain j where "v = Some j" "u j" by blast
    then show ?thesis using assms(3,4) by (cases "j = i") auto
  qed (use that assms(3) in auto)
  moreover have "k = k'" if "live k" "live k'" "(a(tid := Some (Some i))) k = Some v" "(a(tid := Some (Some i))) k' = Some v" for k k' v
  proof (cases "k = tid \<or> k' = tid")
    case True
    then show ?thesis using that notin [OF that(1)] notin [OF that(2)] by (auto split: if_splits)
  next
    case False
    then have "a k = Some v" "a k' = Some v" using that(3,4) by auto
    then show ?thesis using assms(1) that(1,2) unfolding known_ok_def by blast
  qed
  ultimately show ?thesis unfolding known_ok_def by blast
qed

lemma known_ok_gone:
  assumes "known_ok u a" and "live tid" and "a tid = Some (Some i)" and "\<And>j. j \<noteq> i \<Longrightarrow> u j \<Longrightarrow> u' j"
  shows "known_ok u' (a(tid := None))"
proof -
  have "\<exists>j. v = Some j \<and> u' j" if k: "live k" "(a(tid := None)) k = Some v" for k v
  proof -
    have a: "k \<noteq> tid" "a k = Some v" using k(2) by (auto split: if_splits)
    then obtain j where j: "v = Some j" "u j" using assms(1) k(1) unfolding known_ok_def by blast
    have "j \<noteq> i" using a j(1) assms(1-3) k(1) unfolding known_ok_def by blast
    then show ?thesis using j assms(4) by blast
  qed
  moreover have "k = k'" if "live k" "live k'" "(a(tid := None)) k = Some v" "(a(tid := None)) k' = Some v" for k k' v
  proof -
    have "a k = Some v" "a k' = Some v" using that(3,4) by (auto split: if_splits)
    then show ?thesis using assms(1) that(1,2) unfolding known_ok_def by blast
  qed
  ultimately show ?thesis unfolding known_ok_def by blast
qed

lemma same_nodes_nth:
  assumes "same_nodes q q'" and "i < length (producers q)"
  shows "inactive (producers q' ! i) = inactive (producers q ! i)" "isExplicit (sub (producers q' ! i)) = isExplicit (sub (producers q ! i))"
proof -
  let ?v = "\<lambda>p. (inactive p, token p, isExplicit (sub p))"
  have "map ?v (producers q') ! i = map ?v (producers q) ! i" using assms(1) by (simp add: same_nodes_def)
  then show "inactive (producers q' ! i) = inactive (producers q ! i)" "isExplicit (sub (producers q' ! i)) = isExplicit (sub (producers q ! i))"
    using assms(2) same_nodes_length [OF assms(1)] by simp_all
qed

lemma usable_same: "same_nodes q q' \<Longrightarrow> usable q' = usable q"
  by (rule ext) (auto simp: usable_def same_nodes_length same_nodes_nth)

lemma hash_rep_same: "hash_rep tr q \<Longrightarrow> same_nodes q q' \<Longrightarrow> hash_rep tr q'"
  using usable_same [of q q'] by (simp add: hash_rep_def producer_of_def [abs_def] same_nodes_def)

lemma usable_joins: "joins q i False q' \<Longrightarrow> \<not> usable q i \<and> usable q' i \<and> (\<forall>j. j \<noteq> i \<longrightarrow> usable q j \<longrightarrow> usable q' j)"
  by (auto simp: joins_def usable_def)

text \<open>What \<open>get_or_add_implicit_producer\<close> gives thread \<open>tid\<close>: the producer it has, or one that was not in use.\<close>

definition gives :: "'a cqueue \<Rightarrow> thread_id \<Rightarrow> nat option \<Rightarrow> 'a cqueue \<Rightarrow> bool" where
  "gives q tid r q' \<longleftrightarrow>
     (case r of
        None \<Rightarrow> producer_of q tid = None \<and> producers q' = producers q \<and> (\<forall>k. live k \<longrightarrow> producer_of q' k = producer_of q k)
      | Some i \<Rightarrow> usable q' i \<and> producer_of q' tid = Some (Some i)
          \<and> (if producer_of q tid = None then joins q i False q' else producer_of q tid = Some (Some i) \<and> producers q' = producers q)
          \<and> (\<forall>k. live k \<longrightarrow> k \<noteq> tid \<longrightarrow> producer_of q' k = producer_of q k))"

lemma hash_rep_hash:
  assumes "known_ok (usable q) a" and "hash_ok h" and "producers q' = producers q"
    and "\<And>k. live k \<Longrightarrow> assoc (tables h) k = a k"
  shows "hash_rep tr (q'\<lparr>cq_hash := h\<rparr>)"
proof -
  have "usable (q'\<lparr>cq_hash := h\<rparr>) = usable q" using assms(3) by (auto simp: usable_def)
  moreover have "known_ok (usable q) (assoc (tables h))" using assms(1,4) known_ok_cong by metis
  ultimately show ?thesis using assms(2) by (simp add: hash_rep_def producer_of_def [abs_def])
qed

lemma get_or_add_ok:
  assumes "cq_rep tr q f" and "hash_rep tr q" and "INITIAL_IMPLICIT_PRODUCER_HASH_SIZE tr \<noteq> 0" and "live tid"
  obtains r q' where "get_or_add_implicit_producer mo tr tid q = Some (r, q')" "cq_rep tr q' f" "hash_rep tr q'" "gives q tid r q'"
proof -
  have ok: "hash_ok (cq_hash q)" and known: "known_ok (usable q) (producer_of q)" using assms(2,3) by (simp_all add: hash_rep_def)
  obtain h where h: "find_producer tid (cq_hash q) = Some (producer_of q tid, h)" "hash_ok h"
    "implicitProducerHashCount h = implicitProducerHashCount (cq_hash q)" "\<And>j. live j \<Longrightarrow> assoc (tables h) j = producer_of q j"
    using find_producer_ok [OF ok assms(4)] unfolding producer_of_def by metis
  note result = that
  show thesis
  proof (cases "producer_of q tid")
    case (Some v)
    then obtain i where i: "v = Some i" "usable q i" using known assms(4) unfolding known_ok_def by blast
    let ?q = "q\<lparr>cq_hash := h\<rparr>"
    have "get_or_add_implicit_producer mo tr tid q = Some (Some i, ?q)" using h(1) Some i(1) by (simp add: get_or_add_implicit_producer_def)
    moreover have "hash_rep tr ?q" using known h(2,4) by (intro hash_rep_hash) simp_all
    moreover have "gives q tid (Some i) ?q" using i Some h(4) assms(4) by (simp add: gives_def usable_def producer_of_def)
    ultimately show thesis using that assms(1) by simp
  next
    case None
    define c where "c = implicitProducerHashCount h"
    define h1 where "h1 = h\<lparr>implicitProducerHashCount := 1 + c\<rparr>"
    have chain: "chain_ok (tables h1) c" "c < length (hd (tables h1))" using h(2) by (simp_all add: hash_ok_def h1_def c_def)
    obtain aok P where m: "(if 1 + c \<ge> length (hd (tables h1)) div 2 then malloc mo (cq_pool q) else (True, cq_pool q)) = (aok, P)"
      by (metis prod.exhaust)
    have "pool_ok tr (cq_pool q)" using assms(1) by (simp add: cq_rep_def)
    then have "frame_step {} (cq_pool q) {} P \<and> pool_ok tr P"
      using m malloc_frame [of mo "cq_pool q" aok P tr] by (auto simp: frame_step_def same_blocks_def split: if_splits)
    then have rep: "cq_rep tr (q\<lparr>cq_pool := P\<rparr>) f" using cq_rep_pool [OF assms(1)] by blast
    have start: "get_or_add_implicit_producer mo tr tid q = (case resize_if_needed aok (1 + c) h1 of
          None \<Rightarrow> Some (None, q\<lparr>cq_pool := P\<rparr>\<lparr>cq_hash := h1\<lparr>implicitProducerHashCount := c\<rparr>\<rparr>)
        | Some h2 \<Rightarrow>
            if 1 + c < length (hd (tables h2)) div 2 + length (hd (tables h2)) div 4 then
              (case recycle_or_create_producer mo tr False (q\<lparr>cq_pool := P\<rparr>) of
                 (None, q) \<Rightarrow> Some (None, q\<lparr>cq_hash := h2\<lparr>implicitProducerHashCount := c\<rparr>\<rparr>)
               | (Some producer, q) \<Rightarrow> map_option (\<lambda>h. (Some producer, q\<lparr>cq_hash := h\<rparr>)) (insert_producer tid (Some producer) h2))
            else None)"
      unfolding get_or_add_implicit_producer_def
      by (simp only: h(1) None option.case prod.case Let_def c_def [symmetric] h1_def [symmetric] m add_diff_cancel_left' phash.simps)
    have none: thesis if r: "get_or_add_implicit_producer mo tr tid q = Some (None, q1\<lparr>cq_hash := h3\<lparr>implicitProducerHashCount := c\<rparr>\<rparr>)"
      and q1: "cq_rep tr q1 f" "producers q1 = producers q" and h3: "chain_ok (tables h3) c" "c < length (hd (tables h3))"
        "\<And>j. live j \<Longrightarrow> assoc (tables h3) j = producer_of q j" for q1 h3
    proof (rule result [OF r])
      show "cq_rep tr (q1\<lparr>cq_hash := h3\<lparr>implicitProducerHashCount := c\<rparr>\<rparr>) f" using q1(1) by simp
      show "hash_rep tr (q1\<lparr>cq_hash := h3\<lparr>implicitProducerHashCount := c\<rparr>\<rparr>)"
        using known q1(2) h3 by (intro hash_rep_hash) (simp_all add: hash_ok_def)
      show "gives q tid None (q1\<lparr>cq_hash := h3\<lparr>implicitProducerHashCount := c\<rparr>\<rparr>)"
        using None q1(2) h3(3) by (simp add: gives_def producer_of_def)
    qed
    show thesis
    proof (cases "resize_if_needed aok (1 + c) h1")
      case None
      then show thesis using start rep chain h(4) by (intro none [where ?q1.0 = "q\<lparr>cq_pool := P\<rparr>" and ?h3.0 = h1]) (simp_all add: h1_def)
    next
      case (Some h2)
      note re = resize_ok [OF chain Some]
      have h2: "c < length (hd (tables h2))" "implicitProducerHashCount h2 = Suc c" "Suc c < length (hd (tables h2))"
        "\<And>j. live j \<Longrightarrow> assoc (tables h2) j = producer_of q j"
        using re(2,3,4) h(4) by (simp_all add: h1_def)
      obtain r q1 where rc: "recycle_or_create_producer mo tr False (q\<lparr>cq_pool := P\<rparr>) = (r, q1)" by (metis prod.exhaust)
      note roc = recycle_or_create_ok [OF rep rc]
      have go: "get_or_add_implicit_producer mo tr tid q =
          (case r of None \<Rightarrow> Some (None, q1\<lparr>cq_hash := h2\<lparr>implicitProducerHashCount := c\<rparr>\<rparr>)
           | Some producer \<Rightarrow> map_option (\<lambda>h. (Some producer, q1\<lparr>cq_hash := h\<rparr>)) (insert_producer tid (Some producer) h2))"
        using start Some rc re(2) by (simp split: option.split)
      show thesis
      proof (cases r)
        case None
        have "producers q1 = producers q" using rc None
          by (auto simp: recycle_or_create_producer_def add_producer_def split: option.splits prod.splits)
        then show thesis using none [where ?q1.0 = q1 and ?h3.0 = h2] go None roc(1) re(1) h2 by simp
      next
        case (Some i)
        have j: "joins q i False q1" using roc(3) Some by (simp add: joins_def)
        obtain h3 where h3: "insert_producer tid (Some i) h2 = Some h3" "hash_ok h3"
          "\<And>j. live j \<Longrightarrow> assoc (tables h3) j = ((assoc (tables h2))(tid := Some (Some i))) j"
          using insert_producer_ok [OF re(1) h2(2,3) assms(4)] h2(4) [OF assms(4)] \<open>producer_of q tid = None\<close> by metis
        let ?q = "q1\<lparr>cq_hash := h3\<rparr>"
        have "known_ok (usable q1) ((producer_of q)(tid := Some (Some i)))"
          using usable_joins [OF j] by (intro known_ok_new [OF known]) blast+
        then have "hash_rep tr ?q" by (rule hash_rep_hash) (use h3(2,3) h2(4) in simp_all)
        moreover have "gives q tid (Some i) ?q"
          using \<open>producer_of q tid = None\<close> j usable_joins [OF j] h3(3) h2(4) assms(4)
          by (simp add: gives_def usable_def producer_of_def joins_def)
        moreover have "get_or_add_implicit_producer mo tr tid q = Some (Some i, ?q)" using go Some h3(1) by simp
        ultimately show thesis using that roc(1) by simp
      qed
    qed
  qed
qed

lemma thread_exited_rep:
  assumes "cq_rep tr q f" and "hash_rep tr q" and "INITIAL_IMPLICIT_PRODUCER_HASH_SIZE tr \<noteq> 0" and "live tid"
    and "producer_of q tid = Some (Some i)"
  obtains q' where "thread_exited tid i q = Some q'" "cq_rep tr q' f" "hash_rep tr q'"
    "producers q' = (producers q)[i := (producers q ! i)\<lparr>inactive := True\<rparr>]" "usable q i" "producer_of q' tid = None"
proof -
  have ok: "hash_ok (cq_hash q)" and known: "known_ok (usable q) (producer_of q)" using assms(2,3) by (simp_all add: hash_rep_def)
  then have u: "usable q i" using assms(4,5) unfolding known_ok_def by blast
  obtain h where h: "implicit_producer_thread_exited tid (cq_hash q) = Some h" "hash_ok h"
    "\<And>j. live j \<Longrightarrow> assoc (tables h) j = ((producer_of q)(tid := None)) j"
    using thread_exited_ok [OF ok assms(4)] unfolding producer_of_def by metis
  let ?q = "upd_node i (\<lambda>p. p\<lparr>inactive := True\<rparr>) (q\<lparr>cq_hash := h\<rparr>)"
  have "usable q j \<Longrightarrow> usable ?q j" if "j \<noteq> i" for j using that by (simp add: usable_def upd_node_def)
  then have "known_ok (usable ?q) ((producer_of q)(tid := None))"
    by (rule known_ok_gone [where u' = "usable ?q", OF known assms(4,5)])
  moreover have "known_ok (usable ?q) ((producer_of q)(tid := None)) = known_ok (usable ?q) (assoc (tables h))"
    by (rule known_ok_cong) (simp only: h(3))
  moreover have "cq_hash ?q = h" by (simp add: upd_node_def)
  ultimately have "hash_rep tr ?q" using h(2) by (simp add: hash_rep_def producer_of_def [abs_def])
  moreover have "cq_rep tr ?q f" using assms(1) by (subst cq_rep_node) simp_all
  moreover have "producer_of ?q tid = None" using h(3) assms(4) by (simp add: producer_of_def upd_node_def)
  ultimately show thesis using h(1) u by (intro that [of ?q]) (simp_all add: thread_exited_def upd_node_def)
qed

lemma new_queue_ok:
  assumes "traits_ok tr" and "BLOCK_SIZE tr < 2 ^ 63"
  shows "cq_rep tr (new_queue mo tr n) (\<lambda>_. [])" and "hash_rep tr (new_queue mo tr n)" and "producers (new_queue mo tr n) = []"
proof -
  show "cq_rep tr (new_queue mo tr n) (\<lambda>_. [])"
    using assms populate_ok populate_in_use [of mo tr n] by (auto simp: cq_rep_def new_queue_def family_def)
  show "hash_rep tr (new_queue mo tr n)"
    using initial_hash_ok [where n = "INITIAL_IMPLICIT_PRODUCER_HASH_SIZE tr"]
    by (auto simp: hash_rep_def new_queue_def known_ok_def producer_of_def assoc_def populate_initial_implicit_producer_hash_def
          empty_table_def map_of_eq_None_iff live_def dest!: map_of_SomeD)
qed (simp add: new_queue_def)

section \<open>Producer tokens\<close>

text \<open>
  The token objects there are, by address.  A producer in use by a token refers back to it, so that no two tokens have
  the same producer.
\<close>

definition tokens_ok :: "'a cqueue \<Rightarrow> (nat \<rightharpoonup> nat option) \<Rightarrow> bool" where
  "tokens_ok q ptoks \<longleftrightarrow>
     (\<forall>a i. ptoks a = Some (Some i) \<longrightarrow>
        i < length (producers q) \<and> isExplicit (sub (producers q ! i)) \<and> \<not> inactive (producers q ! i) \<and> token (producers q ! i) = Some a)"

lemma tokens_ok_inj: "tokens_ok q ptoks \<Longrightarrow> ptoks a = Some (Some i) \<Longrightarrow> ptoks a' = Some (Some i) \<Longrightarrow> a = a'"
  unfolding tokens_ok_def by (metis option.inject)

lemma tokens_ok_mono:
  assumes "tokens_ok q ptoks" and "\<And>i. i < length (producers q) \<Longrightarrow> isExplicit (sub (producers q ! i)) \<Longrightarrow> \<not> inactive (producers q ! i) \<Longrightarrow>
       i < length (producers q') \<and> isExplicit (sub (producers q' ! i)) \<and> inactive (producers q' ! i) = inactive (producers q ! i)
       \<and> token (producers q' ! i) = token (producers q ! i)"
  shows "tokens_ok q' ptoks"
  using assms unfolding tokens_ok_def by metis

lemma same_nodes_token:
  assumes "same_nodes q q'" and "i < length (producers q)"
  shows "token (producers q' ! i) = token (producers q ! i)"
proof -
  let ?v = "\<lambda>p. (inactive p, token p, isExplicit (sub p))"
  have "map ?v (producers q') ! i = map ?v (producers q) ! i" using assms(1) by (simp add: same_nodes_def)
  then show ?thesis using assms(2) same_nodes_length [OF assms(1)] by simp
qed

lemma tokens_ok_same: "tokens_ok q ptoks \<Longrightarrow> same_nodes q q' \<Longrightarrow> tokens_ok q' ptoks"
  by (erule tokens_ok_mono) (simp add: same_nodes_length same_nodes_nth same_nodes_token)

lemma tokens_ok_joins: "tokens_ok q ptoks \<Longrightarrow> joins q i e q' \<Longrightarrow> tokens_ok q' ptoks"
  by (erule tokens_ok_mono) (metis joins_def order_less_le_trans)

lemma tokens_ok_producers: "producers q' = producers q \<Longrightarrow> tokens_ok q' ptoks = tokens_ok q ptoks"
  by (simp add: tokens_ok_def)

lemma ProducerToken_ok:
  assumes "cq_rep tr q f" and "hash_rep tr q" and "tokens_ok q ptoks" and "ptoks a = None" and "ProducerToken mo tr a q = (p, q')"
  shows "cq_rep tr q' f" and "hash_rep tr q'" and "tokens_ok q' (ptoks(a \<mapsto> p))" and "length (producers q) \<le> length (producers q')"
proof -
  obtain q1 where r: "recycle_or_create_producer mo tr True q = (p, q1)" and q': "q' = set_token p (Some a) q1"
    using assms(5) by (auto simp: ProducerToken_def split: prod.splits)
  note ok = recycle_or_create_ok [OF assms(1) r]
  show "cq_rep tr q' f" unfolding q' set_token_def using ok(1) by (cases p) (simp_all add: cq_rep_node)
  show "length (producers q) \<le> length (producers q')"
    using ok(3) same_nodes_length [of q q1] by (cases p) (auto simp: q' set_token_def joins_def upd_node_def)
  have "tokens_ok q' (ptoks(a \<mapsto> p)) \<and> hash_rep tr q'"
  proof (cases p)
    case None
    then have "same_nodes q q'" using ok(3) q' by (simp add: set_token_def)
    then show ?thesis using assms(2,3) None tokens_ok_same [of q ptoks q'] hash_rep_same by (auto simp: tokens_ok_def)
  next
    case (Some i)
    then have j: "joins q i True q1" using ok(3) by simp
    have q'i: "producers q' = (producers q1)[i := (producers q1 ! i)\<lparr>token := Some a\<rparr>]" "cq_hash q' = cq_hash q"
      using ok(2) Some q' by (simp_all add: set_token_def upd_node_def)
    have notin: "ptoks b \<noteq> Some (Some i)" for b using assms(3) j by (auto simp: tokens_ok_def joins_def)
    have "usable q k \<Longrightarrow> usable q' k" for k using j q'i(1) by (cases "k = i") (auto simp: usable_def joins_def)
    then have "known_ok (usable q) b \<Longrightarrow> known_ok (usable q') b" for b
      using known_ok_mono [where u = "usable q" and u' = "usable q'" and a = b] by blast
    then have "hash_rep tr q'" using assms(2) q'i(2) by (auto simp: hash_rep_def producer_of_def [abs_def])
    moreover have "tokens_ok q1 ptoks" using tokens_ok_joins [OF assms(3) j] .
    ultimately show ?thesis using j q'i notin Some by (auto simp: tokens_ok_def joins_def nth_list_update)
  qed
  then show "hash_rep tr q'" and "tokens_ok q' (ptoks(a \<mapsto> p))" by simp_all
qed

text \<open>What a token does to its own producer is not seen by threads and other tokens.\<close>

lemma upd_explicit_ok:
  assumes "hash_rep tr q" and "cq_rep tr q f" and "isExplicit (sub (producers q ! i))" and "\<And>p. sub (g p) = sub p"
  shows "hash_rep tr (upd_node i g q)" and "cq_rep tr (upd_node i g q) f"
proof -
  have "usable (upd_node i g q) k = usable q k" for k
    using assms(3,4) by (cases "k = i") (auto simp: usable_def upd_node_def nth_list_update)
  then have "usable (upd_node i g q) = usable q" by (rule ext)
  then show "hash_rep tr (upd_node i g q)" using assms(1) by (simp add: hash_rep_def producer_of_def [abs_def] upd_node_def)
  show "cq_rep tr (upd_node i g q) f" using assms(2,4) by (simp add: cq_rep_node)
qed

lemma set_token_ok:
  assumes "hash_rep tr q" and "cq_rep tr q f" and "\<And>i. p = Some i \<Longrightarrow> isExplicit (sub (producers q ! i))"
  shows "hash_rep tr (set_token p t q)" and "cq_rep tr (set_token p t q) f" and "length (producers (set_token p t q)) = length (producers q)"
proof -
  show "length (producers (set_token p t q)) = length (producers q)" by (cases p) (simp_all add: set_token_def upd_node_def)
  show "hash_rep tr (set_token p t q)" "cq_rep tr (set_token p t q) f"
    using assms upd_explicit_ok [OF assms(1,2)] by (cases p; simp add: set_token_def)+
qed

lemma set_token_nth:
  "i < length (producers q) \<Longrightarrow>
   producers (set_token p t q) ! i = (if p = Some i then (producers q ! i)\<lparr>token := t\<rparr> else producers q ! i)"
  by (cases p) (auto simp: set_token_def upd_node_def nth_list_update)

lemma ProducerToken_move_ok:
  assumes "tokens_ok q ptoks" and "hash_rep tr q" and "cq_rep tr q f" and "ptoks b = Some p" and "ptoks a = None"
    and "ProducerToken_move a p q = (this, other, q')"
  shows "cq_rep tr q' f" and "hash_rep tr q'" and "tokens_ok q' (ptoks(a \<mapsto> this, b \<mapsto> other))"
    and "length (producers q') = length (producers q)"
proof -
  have r: "this = p" "other = None" "q' = set_token p (Some a) q" using assms(6) by (auto simp: ProducerToken_move_def)
  have expl: "isExplicit (sub (producers q ! i))" if "p = Some i" for i using that assms(1,4) unfolding tokens_ok_def by blast
  note s = set_token_ok [OF assms(2,3) expl]
  show "cq_rep tr q' f" "hash_rep tr q'" "length (producers q') = length (producers q)" using s r by simp_all
  have "(ptoks(a \<mapsto> this, b \<mapsto> other)) c = Some (Some i) \<Longrightarrow>
      i < length (producers q') \<and> isExplicit (sub (producers q' ! i)) \<and> \<not> inactive (producers q' ! i) \<and> token (producers q' ! i) = Some c" for c i
    using assms(1,4) tokens_ok_inj [OF assms(1), of b i c]
    by (auto simp: r s(3) set_token_nth tokens_ok_def split: if_splits)
  then show "tokens_ok q' (ptoks(a \<mapsto> this, b \<mapsto> other))" unfolding tokens_ok_def by blast
qed

lemma ProducerToken_swap_ok:
  assumes "tokens_ok q ptoks" and "hash_rep tr q" and "cq_rep tr q f" and "ptoks a = Some p" and "ptoks b = Some p'" and "a \<noteq> b"
    and "ProducerToken_swap a p b p' q = (this, other, q')"
  shows "cq_rep tr q' f" and "hash_rep tr q'" and "tokens_ok q' (ptoks(a \<mapsto> this, b \<mapsto> other))"
    and "length (producers q') = length (producers q)"
proof -
  let ?q = "set_token p' (Some a) q"
  have r: "this = p'" "other = p" "q' = set_token p (Some b) ?q" using assms(7) by (auto simp: ProducerToken_swap_def)
  have tok: "i < length (producers q) \<and> isExplicit (sub (producers q ! i))" if "p = Some i \<or> p' = Some i" for i
    using that assms(1,4,5) unfolding tokens_ok_def by blast
  then have s1: "hash_rep tr ?q" "cq_rep tr ?q f" "length (producers ?q) = length (producers q)"
    using set_token_ok [OF assms(2,3)] by blast+
  have "isExplicit (sub (producers ?q ! i))" if "p = Some i" for i using tok that by (auto simp: set_token_nth)
  note s2 = set_token_ok [OF s1(1,2) this]
  show "cq_rep tr q' f" "hash_rep tr q'" "length (producers q') = length (producers q)" using s2 s1 r by simp_all
  have "i < length (producers q') \<and> isExplicit (sub (producers q' ! i)) \<and> \<not> inactive (producers q' ! i) \<and> token (producers q' ! i) = Some c"
    if c: "(ptoks(a \<mapsto> this, b \<mapsto> other)) c = Some (Some i)" for c i
  proof -
    define d where "d = (if c = a then b else if c = b then a else c)"
    have d: "ptoks d = Some (Some i)" using c assms(4-6) r by (auto simp: d_def split: if_splits)
    have old: "i < length (producers q)" "isExplicit (sub (producers q ! i))" "\<not> inactive (producers q ! i)" "token (producers q ! i) = Some d"
      using assms(1) d unfolding tokens_ok_def by blast+
    have "p = Some i \<longleftrightarrow> d = a" "p' = Some i \<longleftrightarrow> d = b"
      using tokens_ok_inj [OF assms(1) d, of a] tokens_ok_inj [OF assms(1) d, of b] assms(4,5) d by auto
    then show ?thesis using old assms(6) by (simp add: r(3) s2(3) s1(3) set_token_nth) (auto simp: d_def split: if_splits)
  qed
  then show "tokens_ok q' (ptoks(a \<mapsto> this, b \<mapsto> other))" unfolding tokens_ok_def by blast
qed

lemma destroy_ProducerToken_ok:
  assumes "tokens_ok q ptoks" and "hash_rep tr q" and "cq_rep tr q f" and "ptoks a = Some p"
  shows "cq_rep tr (destroy_ProducerToken p q) f" and "hash_rep tr (destroy_ProducerToken p q)"
    and "tokens_ok (destroy_ProducerToken p q) (ptoks(a := None))"
    and "length (producers (destroy_ProducerToken p q)) = length (producers q)"
proof -
  let ?q = "destroy_ProducerToken p q"
  have "cq_rep tr ?q f \<and> hash_rep tr ?q \<and> tokens_ok ?q (ptoks(a := None)) \<and> length (producers ?q) = length (producers q)"
  proof (cases p)
    case None
    then show ?thesis using assms by (auto simp: destroy_ProducerToken_def tokens_ok_def)
  next
    case (Some i)
    then have i: "isExplicit (sub (producers q ! i))" using assms(1,4) unfolding tokens_ok_def by blast
    have ne: "k \<noteq> i" if "c \<noteq> a" "ptoks c = Some (Some k)" for c k using tokens_ok_inj [OF assms(1) that(2), of a] that(1) assms(4) Some by auto
    have "tokens_ok ?q (ptoks(a := None))"
      unfolding tokens_ok_def
    proof (intro allI impI)
      fix c k assume c: "(ptoks(a := None)) c = Some (Some k)"
      then have "c \<noteq> a" "ptoks c = Some (Some k)" by (auto split: if_splits)
      then show "k < length (producers ?q) \<and> isExplicit (sub (producers ?q ! k)) \<and> \<not> inactive (producers ?q ! k) \<and> token (producers ?q ! k) = Some c"
        using ne assms(1) Some by (fastforce simp: tokens_ok_def destroy_ProducerToken_def upd_node_def)
    qed
    then show ?thesis
      using upd_explicit_ok [OF assms(2,3) i, of "\<lambda>p. p\<lparr>token := None, inactive := True\<rparr>"] Some by (simp add: destroy_ProducerToken_def upd_node_def)
  qed
  then show "cq_rep tr ?q f" and "hash_rep tr ?q" and "tokens_ok ?q (ptoks(a := None))" and "length (producers ?q) = length (producers q)"
    by simp_all
qed

section \<open>Clients\<close>

text \<open>What the clients see: an element accepted into the list of a producer, an element handed out.\<close>

datatype 'a act = Sent nat 'a | Received "'a option"

primrec seen :: "'a event \<Rightarrow> 'a act" where
  "seen (Put i x) = Sent i x"
| "seen (Got i x) = Received (Some x)"

text \<open>
  A trace is first-in first-out for every producer when each element received can be attributed to a producer of which
  it is the oldest element not yet received; \<open>f\<close> is what is left.
\<close>

definition fifo :: "'a act list \<Rightarrow> (nat \<Rightarrow> 'a list) \<Rightarrow> bool" where
  "fifo trace f \<longleftrightarrow> (\<exists>ev. trace = map seen ev \<and> replay ev (\<lambda>_. []) = Some f)"

primrec is_sent :: "'a act \<Rightarrow> bool" where
  "is_sent (Sent i x) = True"
| "is_sent (Received v) = False"

definition in_flight :: "'a act list \<Rightarrow> nat" where
  "in_flight trace = length (filter is_sent trace) - length (filter (Not \<circ> is_sent) trace)"

text \<open>
  Any sequence of operations of clients on a queue made by \<open>ConcurrentQueue\<close>: \<open>ptoks\<close> and \<open>ctoks\<close> are the producer and
  consumer tokens there are, by address.  Threads and tokens are used as the code asks for: a token is valid when it is
  used to enqueue, and the thread ids are none of the two that mark free slots.  The last argument counts the bulk enqueues
  through a producer token that failed or threw: after one of them the queue need not be first-in first-out any more, nor
  hand out every element (\<open>failed_bulk_breaks_fifo\<close>).
\<close>

inductive cq_history ::
  "(nat \<Rightarrow> bool) \<Rightarrow> traits \<Rightarrow> 'a cqueue \<Rightarrow> (nat \<rightharpoonup> nat option) \<Rightarrow> (nat \<rightharpoonup> ctoken) \<Rightarrow> 'a act list \<Rightarrow> nat \<Rightarrow> bool"
  for mo tr where
  start: "cq_history mo tr (ConcurrentQueue mo tr cap) Map.empty Map.empty [] 0"
| start_sized: "cq_history mo tr (ConcurrentQueue_sized mo tr cap ne ni) Map.empty Map.empty [] 0"
| token: "cq_history mo tr q ptoks ctoks trace n \<Longrightarrow> ptoks a = None \<Longrightarrow> ProducerToken mo tr a q = (p, q') \<Longrightarrow>
    cq_history mo tr q' (ptoks(a \<mapsto> p)) ctoks trace n"
| token_move: "cq_history mo tr q ptoks ctoks trace n \<Longrightarrow> ptoks b = Some p \<Longrightarrow> ptoks a = None \<Longrightarrow>
    ProducerToken_move a p q = (this, other, q') \<Longrightarrow> cq_history mo tr q' (ptoks(a \<mapsto> this, b \<mapsto> other)) ctoks trace n"
| token_swap: "cq_history mo tr q ptoks ctoks trace n \<Longrightarrow> ptoks a = Some p \<Longrightarrow> ptoks b = Some p' \<Longrightarrow> a \<noteq> b \<Longrightarrow>
    ProducerToken_swap a p b p' q = (this, other, q') \<Longrightarrow> cq_history mo tr q' (ptoks(a \<mapsto> this, b \<mapsto> other)) ctoks trace n"
| token_destroy: "cq_history mo tr q ptoks ctoks trace n \<Longrightarrow> ptoks a = Some p \<Longrightarrow>
    cq_history mo tr (destroy_ProducerToken p q) (ptoks(a := None)) ctoks trace n"
| consumer: "cq_history mo tr q ptoks ctoks trace n \<Longrightarrow> ConsumerToken q = (t, q') \<Longrightarrow> cq_history mo tr q' ptoks (ctoks(a \<mapsto> t)) trace n"
| enqueue: "cq_history mo tr q ptoks ctoks trace n \<Longrightarrow> live tid \<Longrightarrow> enqueue mo tr m th tid x q = Some (r, q') \<Longrightarrow>
    cq_history mo tr q' ptoks ctoks (if r = Inr True then trace @ [Sent (the (the (producer_of q' tid))) x] else trace) n"
| enqueue_token: "cq_history mo tr q ptoks ctoks trace n \<Longrightarrow> ptoks a = Some (Some i) \<Longrightarrow> enqueue_token mo tr m th i x q = (r, q') \<Longrightarrow>
    cq_history mo tr q' ptoks ctoks (if r = Inr True then trace @ [Sent i x] else trace) n"
| enqueue_bulk: "cq_history mo tr q ptoks ctoks trace n \<Longrightarrow> live tid \<Longrightarrow> enqueue_bulk mo tr m tid items q = Some (r, q') \<Longrightarrow>
    cq_history mo tr q' ptoks ctoks
      (if r = Inr True then trace @ map (Sent (the (the (producer_of q' tid)))) (map snd items) else trace) n"
| enqueue_bulk_token: "cq_history mo tr q ptoks ctoks trace n \<Longrightarrow> ptoks a = Some (Some i) \<Longrightarrow>
    enqueue_bulk_token mo tr m i items q = (Inr True, q') \<Longrightarrow> cq_history mo tr q' ptoks ctoks (trace @ map (Sent i) (map snd items)) n"
| bulk_token_failed: "cq_history mo tr q ptoks ctoks trace n \<Longrightarrow> ptoks a = Some (Some i) \<Longrightarrow>
    enqueue_bulk_token mo tr m i items q = (r, q') \<Longrightarrow> r \<noteq> Inr True \<Longrightarrow> cq_history mo tr q' ptoks ctoks trace (Suc n)"
| thread_exit: "cq_history mo tr q ptoks ctoks trace n \<Longrightarrow> live tid \<Longrightarrow> INITIAL_IMPLICIT_PRODUCER_HASH_SIZE tr \<noteq> 0 \<Longrightarrow>
    producer_of q tid = Some (Some i) \<Longrightarrow> thread_exited tid i q = Some q' \<Longrightarrow> cq_history mo tr q' ptoks ctoks trace n"
| dequeue: "cq_history mo tr q ptoks ctoks trace n \<Longrightarrow> try_dequeue tr q = ((ok, v), q') \<Longrightarrow>
    cq_history mo tr q' ptoks ctoks (if ok then trace @ [Received v] else trace) n"
| dequeue_non_interleaved: "cq_history mo tr q ptoks ctoks trace n \<Longrightarrow> try_dequeue_non_interleaved tr q = ((ok, v), q') \<Longrightarrow>
    cq_history mo tr q' ptoks ctoks (if ok then trace @ [Received v] else trace) n"
| dequeue_from: "cq_history mo tr q ptoks ctoks trace n \<Longrightarrow> ptoks a = Some (Some i) \<Longrightarrow> try_dequeue_from_producer tr i q = ((ok, v), q') \<Longrightarrow>
    cq_history mo tr q' ptoks ctoks (if ok then trace @ [Received v] else trace) n"
| dequeue_token: "cq_history mo tr q ptoks ctoks trace n \<Longrightarrow> ctoks a = Some t \<Longrightarrow> try_dequeue_token tr t q = Some ((ok, v), t', q') \<Longrightarrow>
    cq_history mo tr q' ptoks (ctoks(a \<mapsto> t')) (if ok then trace @ [Received v] else trace) n"
| bulk: "cq_history mo tr q ptoks ctoks trace n \<Longrightarrow> try_dequeue_bulk tr mx q = (items, q') \<Longrightarrow>
    cq_history mo tr q' ptoks ctoks (trace @ map Received items) n"
| bulk_from: "cq_history mo tr q ptoks ctoks trace n \<Longrightarrow> ptoks a = Some (Some i) \<Longrightarrow>
    try_dequeue_bulk_from_producer tr i mx q = (items, q') \<Longrightarrow> cq_history mo tr q' ptoks ctoks (trace @ map Received items) n"
| bulk_token: "cq_history mo tr q ptoks ctoks trace n \<Longrightarrow> ctoks a = Some t \<Longrightarrow> try_dequeue_bulk_token tr t mx q = Some (items, t', q') \<Longrightarrow>
    cq_history mo tr q' ptoks (ctoks(a \<mapsto> t')) (trace @ map Received items) n"

text \<open>The histories in which every bulk enqueue through a producer token succeeded.\<close>

abbreviation cq_run ::
  "(nat \<Rightarrow> bool) \<Rightarrow> traits \<Rightarrow> 'a cqueue \<Rightarrow> (nat \<rightharpoonup> nat option) \<Rightarrow> (nat \<rightharpoonup> ctoken) \<Rightarrow> 'a act list \<Rightarrow> bool" where
  "cq_run mo tr q ptoks ctoks trace \<equiv> cq_history mo tr q ptoks ctoks trace 0"

lemma fifo_sent: "fifo trace f \<Longrightarrow> fifo (trace @ [Sent i x]) (f(i := f i @ [x]))"
  unfolding fifo_def by (metis map_append list.map(1,2) replay.simps(1,2) replay_append seen.simps(1))

lemma fifo_replay: "fifo trace f \<Longrightarrow> replay ev f = Some g \<Longrightarrow> fifo (trace @ map seen ev) g"
  unfolding fifo_def by (metis map_append replay_append)

lemma replay_put: "replay (map (Put i) xs) f = Some (f(i := f i @ xs))"
  by (induction xs arbitrary: f) simp_all

lemma fifo_sent_all: "fifo trace f \<Longrightarrow> fifo (trace @ map (Sent i) xs) (f(i := f i @ xs))"
  using fifo_replay [OF _ replay_put, of trace f i xs] by (simp add: o_def)

definition index :: "'a event \<Rightarrow> nat" where
  "index e = (case e of Put i x \<Rightarrow> i | Got i x \<Rightarrow> i)"

lemma replay_count:
  assumes "finite A"
  shows "replay ev f = Some g \<Longrightarrow> index ` set ev \<subseteq> A \<Longrightarrow>
    (\<Sum>i\<in>A. length (g i)) + length (filter (Not \<circ> is_sent) (map seen ev)) = (\<Sum>i\<in>A. length (f i)) + length (filter is_sent (map seen ev))"
proof (induction ev arbitrary: f)
  case (Cons e ev)
  show ?case
  proof (cases e)
    case (Put i x)
    then have "i \<in> A" using Cons.prems(2) by (simp add: index_def)
    then show ?thesis using Cons Put sum_update [OF assms, of i f "f i @ [x]"] by simp
  next
    case (Got i x)
    then obtain ys where ys: "f i = x # ys" "replay ev (f(i := ys)) = Some g" using Cons.prems(1) replay_Got by metis
    have "i \<in> A" using Got Cons.prems(2) by (simp add: index_def)
    then show ?thesis using Cons.IH [OF ys(2)] Cons.prems(2) Got ys(1) sum_update [OF assms, of i f ys] by simp
  qed
qed simp

lemma fifo_total:
  assumes "fifo trace f" and "cq_rep tr q f"
  shows "total q f = in_flight trace" and "total q f \<le> length trace"
proof -
  obtain ev where ev: "trace = map seen ev" "replay ev (\<lambda>_. []) = Some f" using assms(1) by (auto simp: fifo_def)
  let ?A = "{..<length (producers q)} \<union> index ` set ev"
  have "total q f = (\<Sum>i\<in>?A. length (f i))"
    unfolding total_def using cq_rep_outside [OF assms(2)] by (intro sum.mono_neutral_left) auto
  then have "total q f + length (filter (Not \<circ> is_sent) trace) = length (filter is_sent trace)"
    using replay_count [of ?A ev "\<lambda>_. []" f] ev by simp
  moreover have "length (filter is_sent trace) \<le> length trace" by simp
  ultimately show "total q f = in_flight trace" "total q f \<le> length trace" unfolding in_flight_def by linarith+
qed

text \<open>The invariant of a run.\<close>

definition cq_inv ::
  "traits \<Rightarrow> 'a cqueue \<Rightarrow> (nat \<rightharpoonup> nat option) \<Rightarrow> (nat \<rightharpoonup> ctoken) \<Rightarrow> 'a act list \<Rightarrow> (nat \<Rightarrow> 'a list) \<Rightarrow> bool" where
  "cq_inv tr q ptoks ctoks trace f \<longleftrightarrow>
     cq_rep tr q f \<and> hash_rep tr q \<and> tokens_ok q ptoks \<and> (\<forall>a t. ctoks a = Some t \<longrightarrow> token_ok q t) \<and> fifo trace f"

lemma token_ok_mono: "token_ok q t \<Longrightarrow> length (producers q) \<le> length (producers q') \<Longrightarrow> token_ok q' t"
  by (auto simp: token_ok_def split: option.splits)

lemma cq_inv_total: "cq_inv tr q ptoks ctoks trace f \<Longrightarrow> length trace < 2 ^ 63 \<Longrightarrow> total q f < 2 ^ 63"
  unfolding cq_inv_def using fifo_total by fastforce

lemma cq_inv_same:
  assumes "cq_inv tr q ptoks ctoks trace f" and "same_nodes q q'" and "cq_rep tr q' g" and "fifo trace' g"
  shows "cq_inv tr q' ptoks ctoks trace' g"
  using assms hash_rep_same tokens_ok_same token_ok_same unfolding cq_inv_def by metis

lemma cq_inv_takes_one:
  assumes "cq_inv tr q ptoks ctoks trace f" and "takes_one tr q f (ok, v) q'"
  shows "\<exists>g. cq_inv tr q' ptoks ctoks (if ok then trace @ [Received v] else trace) g"
proof (cases "\<forall>i. f i = []")
  case True
  then show ?thesis using assms cq_inv_same [OF assms(1), of q' f trace] by (auto simp: takes_one_def cq_inv_def)
next
  case False
  then obtain i x g where g: "ok" "v = Some x" "replay [Got i x] f = Some g" "cq_rep tr q' g" "same_nodes q q'"
    using assms(2) unfolding takes_one_def by (metis (no_types) False prod.inject)
  have "fifo (trace @ [Received v]) g" using fifo_replay [OF _ g(3), of trace] assms(1) g(2) by (simp add: cq_inv_def)
  then show ?thesis using cq_inv_same [OF assms(1) g(5,4)] g(1) by auto
qed

lemma cq_inv_takes_many:
  assumes "cq_inv tr q ptoks ctoks trace f" and "takes_many tr mx q f items q'"
  shows "\<exists>g. cq_inv tr q' ptoks ctoks (trace @ map Received items) g"
proof -
  obtain ps g where g: "replay (gots ps) f = Some g" "items = map (\<lambda>(i, x). Some x) ps" "cq_rep tr q' g" "same_nodes q q'"
    using assms(2) by (auto simp: takes_many_def)
  have "map seen (gots ps) = map Received items" using g(2) by (simp add: case_prod_beta o_def)
  then have "fifo (trace @ map Received items) g" using fifo_replay [OF _ g(1), of trace] assms(1) by (simp add: cq_inv_def)
  then show ?thesis using cq_inv_same [OF assms(1) g(4,3)] by blast
qed

lemma cq_inv_ctoken: "cq_inv tr q ptoks ctoks trace f \<Longrightarrow> token_ok q t \<Longrightarrow> cq_inv tr q ptoks (ctoks(a \<mapsto> t)) trace f"
  by (auto simp: cq_inv_def)

lemma cq_inv_tokens:
  assumes "cq_inv tr q ptoks ctoks trace f" and "cq_rep tr q' f" and "hash_rep tr q'" and "tokens_ok q' ptoks'"
    and "length (producers q) \<le> length (producers q')"
  shows "cq_inv tr q' ptoks' ctoks trace f"
  using assms token_ok_mono unfolding cq_inv_def by blast

lemma gives_tokens:
  assumes "gives q tid r q'" and "tokens_ok q ptoks"
  shows "tokens_ok q' ptoks" and "length (producers q) \<le> length (producers q')"
proof -
  have "producers q' = producers q \<or> (\<exists>i. joins q i False q')" using assms(1) by (auto simp: gives_def split: option.splits if_splits)
  then show "tokens_ok q' ptoks" "length (producers q) \<le> length (producers q')"
    using tokens_ok_joins [OF assms(2)] tokens_ok_producers [of q' q ptoks] assms(2) by (auto simp: joins_def)
qed

lemma enqueue_at_inv:
  assumes "cq_inv tr q ptoks ctoks trace f" and "i < length (producers q)" and "enqueue_at mo tr m th x i q = (r, q')"
  shows "\<exists>g. cq_inv tr q' ptoks ctoks (if r = Inr True then trace @ [Sent i x] else trace) g" and "same_nodes q q'"
proof -
  have rep: "cq_rep tr q f" using assms(1) by (simp add: cq_inv_def)
  note e = enqueue_at_ok [OF rep assms(2,3)]
  show "same_nodes q q'" by (rule e(2))
  show "\<exists>g. cq_inv tr q' ptoks ctoks (if r = Inr True then trace @ [Sent i x] else trace) g"
  proof (cases "r = Inr True")
    case True
    then show ?thesis using cq_inv_same [OF assms(1) e(2)] e(1) fifo_sent assms(1) unfolding cq_inv_def by fastforce
  next
    case False
    then show ?thesis using cq_inv_same [OF assms(1) e(2)] e(1) assms(1) unfolding cq_inv_def by fastforce
  qed
qed

lemma enqueue_bulk_at_inv:
  assumes "cq_inv tr q ptoks ctoks trace f" and "i < length (producers q)" and "enqueue_bulk_at mo tr m items i q = (r, q')"
    and "sub_sure (sub (producers q ! i)) r"
  shows "\<exists>g. cq_inv tr q' ptoks ctoks (if r = Inr True then trace @ map (Sent i) (map snd items) else trace) g" and "same_nodes q q'"
proof -
  have rep: "cq_rep tr q f" and fi: "fifo trace f" using assms(1) by (simp_all add: cq_inv_def)
  note e = enqueue_bulk_at_ok [OF rep assms(2-4)]
  show "same_nodes q q'" by (rule e(2))
  show "\<exists>g. cq_inv tr q' ptoks ctoks (if r = Inr True then trace @ map (Sent i) (map snd items) else trace) g"
    using cq_inv_same [OF assms(1) e(2,1)] fi fifo_sent_all [OF fi, of i "map snd items"] by (cases "r = Inr True") auto
qed

text \<open>
  An operation of thread \<open>tid\<close> on the producer the hash gives it: either there is none, or the operation acts on an implicit producer of its own.
\<close>

lemma thread_producer_inv:
  assumes "cq_inv tr q ptoks ctoks trace f" and "live tid" and "INITIAL_IMPLICIT_PRODUCER_HASH_SIZE tr \<noteq> 0"
  obtains p q1 where "get_or_add_implicit_producer mo tr tid q = Some (p, q1)" "cq_inv tr q1 ptoks ctoks trace f"
    "\<And>k. live k \<Longrightarrow> producer_of q k \<noteq> None \<Longrightarrow> producer_of q1 k = producer_of q k"
    "\<And>i. p = Some i \<Longrightarrow> i < length (producers q1) \<and> \<not> isExplicit (sub (producers q1 ! i)) \<and> producer_of q1 tid = Some (Some i)"
proof -
  have inv: "cq_rep tr q f" "hash_rep tr q" "tokens_ok q ptoks" using assms(1) by (simp_all add: cq_inv_def)
  obtain p q1 where g: "get_or_add_implicit_producer mo tr tid q = Some (p, q1)" "cq_rep tr q1 f" "hash_rep tr q1" "gives q tid p q1"
    using get_or_add_ok [OF inv(1,2) assms(3,2)] by blast
  have "cq_inv tr q1 ptoks ctoks trace f" using gives_tokens [OF g(4) inv(3)] by (intro cq_inv_tokens [OF assms(1) g(2,3)])
  moreover have "producer_of q1 k = producer_of q k" if "live k" "producer_of q k \<noteq> None" for k
    using g(4) that by (cases "k = tid") (auto simp: gives_def split: option.splits if_splits)
  moreover have "i < length (producers q1) \<and> \<not> isExplicit (sub (producers q1 ! i)) \<and> producer_of q1 tid = Some (Some i)" if "p = Some i" for i
    using g(4) that by (simp add: gives_def usable_def)
  ultimately show thesis using that g(1) by blast
qed

lemma producer_of_same: "same_nodes q q' \<Longrightarrow> producer_of q' = producer_of q"
  by (rule ext) (simp add: same_nodes_def producer_of_def)

lemma enqueue_inv:
  assumes "cq_inv tr q ptoks ctoks trace f" and "live tid"
  obtains r q' g where "enqueue mo tr m th tid x q = Some (r, q')"
    "cq_inv tr q' ptoks ctoks (if r = Inr True then trace @ [Sent (the (the (producer_of q' tid))) x] else trace) g"
    "\<And>k. live k \<Longrightarrow> producer_of q k \<noteq> None \<Longrightarrow> producer_of q' k = producer_of q k"
    "r = Inr True \<Longrightarrow> \<exists>i. producer_of q' tid = Some (Some i)"
proof (cases "INITIAL_IMPLICIT_PRODUCER_HASH_SIZE tr = 0")
  case True
  then show thesis using that [of "Inr False" q f] assms(1) by (simp add: enqueue_def)
next
  case False
  obtain p q1 where g: "get_or_add_implicit_producer mo tr tid q = Some (p, q1)" "cq_inv tr q1 ptoks ctoks trace f"
    "\<And>k. live k \<Longrightarrow> producer_of q k \<noteq> None \<Longrightarrow> producer_of q1 k = producer_of q k"
    "\<And>i. p = Some i \<Longrightarrow> i < length (producers q1) \<and> \<not> isExplicit (sub (producers q1 ! i)) \<and> producer_of q1 tid = Some (Some i)"
    by (rule thread_producer_inv [OF assms False, where mo = mo]) blast
  show thesis
  proof (cases p)
    case None
    then show thesis using that [of "Inr False" q1 f] g(1-3) False by (simp add: enqueue_def)
  next
    case (Some i)
    obtain r q' where e: "enqueue_at mo tr m th x i q1 = (r, q')" by (metis prod.exhaust)
    note ei = enqueue_at_inv [OF g(2) conjunct1 [OF g(4) [OF Some]] e]
    obtain h where "cq_inv tr q' ptoks ctoks (if r = Inr True then trace @ [Sent i x] else trace) h" using ei(1) by blast
    then show thesis using that [of r q' h] g(1,3,4) Some e False producer_of_same [OF ei(2)] by (simp add: enqueue_def cong: if_cong)
  qed
qed

lemma enqueue_bulk_inv:
  assumes "cq_inv tr q ptoks ctoks trace f" and "live tid"
  obtains r q' g where "enqueue_bulk mo tr m tid items q = Some (r, q')"
    "cq_inv tr q' ptoks ctoks (if r = Inr True then trace @ map (Sent (the (the (producer_of q' tid)))) (map snd items) else trace) g"
proof (cases "INITIAL_IMPLICIT_PRODUCER_HASH_SIZE tr = 0")
  case True
  then show thesis using that [of "Inr False" q f] assms(1) by (simp add: enqueue_bulk_def)
next
  case False
  obtain p q1 where g: "get_or_add_implicit_producer mo tr tid q = Some (p, q1)" "cq_inv tr q1 ptoks ctoks trace f"
    "\<And>i. p = Some i \<Longrightarrow> i < length (producers q1) \<and> \<not> isExplicit (sub (producers q1 ! i)) \<and> producer_of q1 tid = Some (Some i)"
    by (rule thread_producer_inv [OF assms False, where mo = mo]) blast
  show thesis
  proof (cases p)
    case None
    then show thesis using that [of "Inr False" q1 f] g(1,2) False by (simp add: enqueue_bulk_def)
  next
    case (Some i)
    obtain r q' where e: "enqueue_bulk_at mo tr m items i q1 = (r, q')" by (metis prod.exhaust)
    have "sub_sure (sub (producers q1 ! i)) r" using g(3) [OF Some] by (simp add: sub_sure_def)
    note ei = enqueue_bulk_at_inv [OF g(2) conjunct1 [OF g(3) [OF Some]] e this]
    obtain h where "cq_inv tr q' ptoks ctoks (if r = Inr True then trace @ map (Sent i) (map snd items) else trace) h" using ei(1) by blast
    then show thesis using that [of r q' h] g(1,3) Some e False producer_of_same [OF ei(2)] by (simp add: enqueue_bulk_def cong: if_cong)
  qed
qed

lemma thread_exited_inv:
  assumes "cq_inv tr q ptoks ctoks trace f" and "live tid" and "INITIAL_IMPLICIT_PRODUCER_HASH_SIZE tr \<noteq> 0"
    and "producer_of q tid = Some (Some i)"
  obtains q' where "thread_exited tid i q = Some q'" "cq_inv tr q' ptoks ctoks trace f"
proof -
  have inv: "cq_rep tr q f" "hash_rep tr q" "tokens_ok q ptoks" using assms(1) by (simp_all add: cq_inv_def)
  obtain q' where q': "thread_exited tid i q = Some q'" "cq_rep tr q' f" "hash_rep tr q'"
    "producers q' = (producers q)[i := (producers q ! i)\<lparr>inactive := True\<rparr>]" "usable q i"
    using thread_exited_rep [OF inv(1,2) assms(3,2,4)] by blast
  have "tokens_ok q' ptoks"
    using inv(3) by (rule tokens_ok_mono) (use q'(4,5) in \<open>auto simp: usable_def nth_list_update\<close>)
  then have "cq_inv tr q' ptoks ctoks trace f" using q'(4) by (intro cq_inv_tokens [OF assms(1) q'(2,3)]) simp_all
  then show thesis using that q'(1) by blast
qed

lemma consumer_inv:
  assumes "cq_inv tr q ptoks ctoks trace f" and "ConsumerToken q = (t, q')"
  shows "cq_inv tr q' ptoks (ctoks(a \<mapsto> t)) trace f"
proof -
  have q': "q' = q\<lparr>nextExplicitConsumerId := nextExplicitConsumerId q + 1\<rparr>" "token_ok q' t"
    using assms(2) by (auto simp: ConsumerToken_def token_ok_def)
  have "same_nodes q q'" "cq_rep tr q' f" using assms(1) q'(1) by (simp_all add: same_nodes_def cq_rep_def cq_inv_def)
  then have "cq_inv tr q' ptoks ctoks trace f" using assms(1) by (intro cq_inv_same [OF assms(1)]) (simp_all add: cq_inv_def)
  then show ?thesis using q'(2) by (rule cq_inv_ctoken)
qed

lemma dequeue_from_inv:
  assumes "cq_inv tr q ptoks ctoks trace f" and "total q f < 2 ^ 63" and "i < length (producers q)" and "dequeue_at tr i q = ((ok, v), q')"
  shows "\<exists>g. cq_inv tr q' ptoks ctoks (if ok then trace @ [Received v] else trace) g"
proof (cases "f i = []")
  case True
  have rep: "cq_rep tr q f" using assms(1) by (simp add: cq_inv_def)
  note d = dequeue_at_empty [OF rep assms(3,2,4) True]
  then show ?thesis using cq_inv_same [OF assms(1) d(3,2), of trace] assms(1) by (auto simp: cq_inv_def)
next
  case False
  have rep: "cq_rep tr q f" using assms(1) by (simp add: cq_inv_def)
  show ?thesis using cq_inv_takes_one [OF assms(1) dequeue_at_takes(1) [OF rep assms(3,2,4) False]] .
qed

lemma bulk_from_inv:
  assumes "cq_inv tr q ptoks ctoks trace f" and "total q f < 2 ^ 63" and "i < length (producers q)" and "dequeue_bulk_at tr mx i q = (items, q')"
  shows "\<exists>g. cq_inv tr q' ptoks ctoks (trace @ map Received items) g"
proof -
  have rep: "cq_rep tr q f" using assms(1) by (simp add: cq_inv_def)
  note d = dequeue_bulk_at_ok [OF rep assms(3,2,4)]
  have "replay (map (Got i) (take mx (f i))) f = Some (f(i := drop mx (f i)))" by (rule replay_got) simp
  from fifo_replay [OF _ this, of trace] have "fifo (trace @ map Received items) (f(i := drop mx (f i)))"
    using assms(1) d(1) by (simp add: cq_inv_def o_def)
  then show ?thesis using cq_inv_same [OF assms(1) d(3,2)] by blast
qed

lemma dequeue_non_interleaved_ok:
  assumes "cq_rep tr q f" and "total q f < 2 ^ 63" and "try_dequeue_non_interleaved tr q = (r, q')"
  shows "takes_one tr q f r q'"
  using assms cq_rep_outside [OF assms(1)] unfolding try_dequeue_non_interleaved_def by (intro dequeue_first_ok) auto

text \<open>The invariant holds after any sequence of operations.\<close>

lemma cq_history_inv:
  assumes "traits_ok tr" and "BLOCK_SIZE tr < 2 ^ 63"
  shows "cq_history mo tr q ptoks ctoks trace n \<Longrightarrow> n = 0 \<Longrightarrow> length trace < 2 ^ 63 \<Longrightarrow> \<exists>f. cq_inv tr q ptoks ctoks trace f"
proof (induction rule: cq_history.induct)
  case (start cap)
  show ?case using new_queue_ok [OF assms] by (intro exI [of _ "\<lambda>_. []"]) (auto simp: ConcurrentQueue_def cq_inv_def tokens_ok_def fifo_def)
next
  case (start_sized cap ne ni)
  show ?case using new_queue_ok [OF assms] by (intro exI [of _ "\<lambda>_. []"]) (auto simp: ConcurrentQueue_sized_def cq_inv_def tokens_ok_def fifo_def)
next
  case (token q ptoks ctoks trace n a p q')
  then obtain f where inv: "cq_inv tr q ptoks ctoks trace f" by blast
  then have "cq_rep tr q f" "hash_rep tr q" "tokens_ok q ptoks" by (simp_all add: cq_inv_def)
  from ProducerToken_ok [OF this token.hyps(2,3)] show ?case using cq_inv_tokens [OF inv] by blast
next
  case (token_move q ptoks ctoks trace n b p a this other q')
  then obtain f where inv: "cq_inv tr q ptoks ctoks trace f" by blast
  then have "tokens_ok q ptoks" "hash_rep tr q" "cq_rep tr q f" by (simp_all add: cq_inv_def)
  from ProducerToken_move_ok [OF this token_move.hyps(2,3,4)] show ?case using cq_inv_tokens [OF inv] by (metis order_refl)
next
  case (token_swap q ptoks ctoks trace n a p b p' this other q')
  then obtain f where inv: "cq_inv tr q ptoks ctoks trace f" by blast
  then have "tokens_ok q ptoks" "hash_rep tr q" "cq_rep tr q f" by (simp_all add: cq_inv_def)
  from ProducerToken_swap_ok [OF this token_swap.hyps(2-5)] show ?case using cq_inv_tokens [OF inv] by (metis order_refl)
next
  case (token_destroy q ptoks ctoks trace n a p)
  then obtain f where inv: "cq_inv tr q ptoks ctoks trace f" by blast
  then have "tokens_ok q ptoks" "hash_rep tr q" "cq_rep tr q f" by (simp_all add: cq_inv_def)
  from destroy_ProducerToken_ok [OF this token_destroy.hyps(2)] show ?case using cq_inv_tokens [OF inv] by (metis order_refl)
next
  case (consumer q ptoks ctoks trace n t q' a)
  then show ?case using consumer_inv by blast
next
  case (enqueue q ptoks ctoks trace n tid m th x r q')
  then have "length trace < 2 ^ 63" by (auto split: if_splits)
  then obtain f where inv: "cq_inv tr q ptoks ctoks trace f" using enqueue by blast
  show ?case
  proof (rule enqueue_inv [OF inv enqueue.hyps(2), where mo = mo and m = m and th = th and x = x])
    fix r1 q1 g
    assume "enqueue mo tr m th tid x q = Some (r1, q1)"
      and "cq_inv tr q1 ptoks ctoks (if r1 = Inr True then trace @ [Sent (the (the (producer_of q1 tid))) x] else trace) g"
    then show ?case using enqueue.hyps(3) by auto
  qed
next
  case (enqueue_token q ptoks ctoks trace n a i m th x r q')
  then have "length trace < 2 ^ 63" by (auto split: if_splits)
  then obtain f where inv: "cq_inv tr q ptoks ctoks trace f" using enqueue_token by blast
  then have "i < length (producers q)" using enqueue_token.hyps(2) by (auto simp: cq_inv_def tokens_ok_def)
  then show ?case using enqueue_at_inv(1) [OF inv] enqueue_token.hyps(3) unfolding enqueue_token_def by blast
next
  case (enqueue_bulk q ptoks ctoks trace n tid m items r q')
  then have "length trace < 2 ^ 63" by (auto split: if_splits)
  then obtain f where inv: "cq_inv tr q ptoks ctoks trace f" using enqueue_bulk by blast
  show ?case
  proof (rule enqueue_bulk_inv [OF inv enqueue_bulk.hyps(2), where mo = mo and m = m and items = items])
    fix r1 q1 g
    assume "ConcurrentQueue.enqueue_bulk mo tr m tid items q = Some (r1, q1)" and "cq_inv tr q1 ptoks ctoks
      (if r1 = Inr True then trace @ map (Sent (the (the (producer_of q1 tid)))) (map snd items) else trace) g"
    then show ?case using enqueue_bulk.hyps(3) by auto
  qed
next
  case (enqueue_bulk_token q ptoks ctoks trace n a i m items q')
  then obtain f where inv: "cq_inv tr q ptoks ctoks trace f" by auto
  then have "i < length (producers q)" using enqueue_bulk_token.hyps(2) by (auto simp: cq_inv_def tokens_ok_def)
  from enqueue_bulk_at_inv(1) [OF inv this, of mo m items "Inr True" q'] show ?case
    using enqueue_bulk_token.hyps(3) unfolding enqueue_bulk_token_def sub_sure_def by simp
next
  case (thread_exit q ptoks ctoks trace n tid i q')
  then obtain f where inv: "cq_inv tr q ptoks ctoks trace f" by blast
  from thread_exited_inv [OF inv thread_exit.hyps(2-4)] thread_exit.hyps(5) show ?case by auto
next
  case (dequeue q ptoks ctoks trace n ok v q')
  then have len: "length trace < 2 ^ 63" by (auto split: if_splits)
  then obtain f where inv: "cq_inv tr q ptoks ctoks trace f" using dequeue by blast
  have "cq_rep tr q f" using inv by (simp add: cq_inv_def)
  from cq_inv_takes_one [OF inv try_dequeue_ok [OF this cq_inv_total [OF inv len] dequeue.hyps(2)]] show ?case .
next
  case (dequeue_non_interleaved q ptoks ctoks trace n ok v q')
  then have len: "length trace < 2 ^ 63" by (auto split: if_splits)
  then obtain f where inv: "cq_inv tr q ptoks ctoks trace f" using dequeue_non_interleaved by blast
  have "cq_rep tr q f" using inv by (simp add: cq_inv_def)
  from cq_inv_takes_one [OF inv dequeue_non_interleaved_ok [OF this cq_inv_total [OF inv len] dequeue_non_interleaved.hyps(2)]]
  show ?case .
next
  case (dequeue_from q ptoks ctoks trace n a i ok v q')
  then have len: "length trace < 2 ^ 63" by (auto split: if_splits)
  then obtain f where inv: "cq_inv tr q ptoks ctoks trace f" using dequeue_from by blast
  then have "i < length (producers q)" using dequeue_from.hyps(2) by (auto simp: cq_inv_def tokens_ok_def)
  then show ?case using dequeue_from_inv [OF inv cq_inv_total [OF inv len]] dequeue_from.hyps(3) unfolding try_dequeue_from_producer_def by blast
next
  case (dequeue_token q ptoks ctoks trace n a t ok v t' q')
  then have len: "length trace < 2 ^ 63" by (auto split: if_splits)
  then obtain f where inv: "cq_inv tr q ptoks ctoks trace f" using dequeue_token by blast
  then have "cq_rep tr q f" "token_ok q t" using dequeue_token.hyps(2) by (auto simp: cq_inv_def)
  from try_dequeue_token_ok [OF this(1) cq_inv_total [OF inv len] this(2)]
  have "takes_one tr q f (ok, v) q'" "token_ok q t'" using dequeue_token.hyps(3) by auto
  moreover from this have "token_ok q' t'" using token_ok_same by (auto simp: takes_one_def)
  ultimately show ?case using cq_inv_takes_one [OF inv] cq_inv_ctoken by blast
next
  case (bulk q ptoks ctoks trace n mx items q')
  then have len: "length trace < 2 ^ 63" by simp
  then obtain f where inv: "cq_inv tr q ptoks ctoks trace f" using bulk by blast
  have "cq_rep tr q f" using inv by (simp add: cq_inv_def)
  from cq_inv_takes_many [OF inv try_dequeue_bulk_ok [OF this cq_inv_total [OF inv len] bulk.hyps(2)]] show ?case .
next
  case (bulk_from q ptoks ctoks trace n a i mx items q')
  then have len: "length trace < 2 ^ 63" by simp
  then obtain f where inv: "cq_inv tr q ptoks ctoks trace f" using bulk_from by blast
  then have "i < length (producers q)" using bulk_from.hyps(2) by (auto simp: cq_inv_def tokens_ok_def)
  then show ?case using bulk_from_inv [OF inv cq_inv_total [OF inv len]] bulk_from.hyps(3) unfolding try_dequeue_bulk_from_producer_def by blast
next
  case (bulk_token q ptoks ctoks trace n a t mx items t' q')
  then have len: "length trace < 2 ^ 63" by simp
  then obtain f where inv: "cq_inv tr q ptoks ctoks trace f" using bulk_token by blast
  then have "cq_rep tr q f" "token_ok q t" using bulk_token.hyps(2) by (auto simp: cq_inv_def)
  from try_dequeue_bulk_token_ok [OF this(1) cq_inv_total [OF inv len] this(2), of mx]
  have "takes_many tr mx q f items q'" "token_ok q t'" using bulk_token.hyps(3) by auto
  moreover from this have "token_ok q' t'" using token_ok_same by (auto simp: takes_many_def)
  ultimately show ?case using cq_inv_takes_many [OF inv] cq_inv_ctoken by blast
next
  case (bulk_token_failed q ptoks ctoks trace n a i m items r q')
  then show ?case by simp
qed

lemmas cq_run_inv = cq_history_inv [OF _ _ _ refl]

text \<open>A run to show that the properties below are not empty: a producer token, a consumer token and an element enqueued.\<close>

lemma demo_enqueue_with:
  assumes tr: "tr = small_traits\<lparr>noexcept_ctor := c\<rparr>"
  obtains q1 q2 where "ProducerToken (\<lambda>_. True) tr 100 (ConcurrentQueue (\<lambda>_. True) tr 0) = (Some 0, q1)"
    "enqueue_token (\<lambda>_. True) tr CanAlloc None 0 (7 :: nat) q1 = (Inr True, q2)"
proof -
  let ?mo = "\<lambda>_ :: nat. True" and ?q = "ConcurrentQueue (\<lambda>_. True) tr 0 :: nat cqueue"
  note defs = ConcurrentQueue_def new_queue_def populate_initial_block_list_def empty_pool_def malloc_def small_traits_def tr
    default_traits_def block_offset_def Let_def
  obtain p P where p: "ExplicitProducer ?mo tr (cq_pool ?q\<lparr>mallocs := mallocs (cq_pool ?q) + 1\<rparr>) = (p, P)"
    by (metis prod.exhaust)
  then have fields: "tailIndex p = 0" "headIndex p = 0" "tailBlock p = None" "idx_raw p" "pr_blockIndexSlotsUsed p = 0"
      "0 < pr_blockIndexSize p" "initialBlockPoolSize P = 0" "freeList P = []"
    by (auto simp: ExplicitProducer_def new_block_index_def defs)
  obtain q1 where q1: "ProducerToken ?mo tr 100 ?q = (Some 0, q1)" "sub (producers q1 ! 0) = Explicit p" "cq_pool q1 = P"
    using p by (simp add: ProducerToken_def recycle_or_create_producer_def producer_list_def create_producer_def
        add_producer_def set_token_def upd_node_def malloc_def ConcurrentQueue_def new_queue_def populate_initial_block_list_def empty_pool_def)
  obtain q2 where q2: "enqueue_token ?mo tr CanAlloc None 0 7 q1 = (Inr True, q2)"
    using fields q1 by (auto simp: enqueue_token_def enqueue_at_def explicit_enqueue_def start_block_def fresh_block_def no_room_def
        index_less_def MAX_SUBQUEUE_SIZE_def size_max_def requisition_block_def try_get_block_from_initial_pool_def
        try_get_block_from_free_list_def create_block_def ring_insert_def defs split: prod.splits)
  show thesis by (rule that [OF q1(1) q2])
qed

lemma demo_run_with:
  assumes tr: "tr = small_traits\<lparr>noexcept_ctor := c\<rparr>"
  obtains q t where "cq_run (\<lambda>_. True) tr q [100 \<mapsto> Some 0] [200 \<mapsto> t] [Sent 0 (7 :: nat)]"
proof -
  let ?mo = "\<lambda>_ :: nat. True"
  obtain q1 q2 where q: "ProducerToken ?mo tr 100 (ConcurrentQueue ?mo tr 0) = (Some 0, q1)"
    "enqueue_token ?mo tr CanAlloc None 0 (7 :: nat) q1 = (Inr True, q2)" by (rule demo_enqueue_with [OF tr])
  obtain t q3 where q3: "ConsumerToken q2 = (t, q3)" by (metis prod.exhaust)
  have "cq_run ?mo tr q1 [100 \<mapsto> Some 0] Map.empty []" by (rule cq_history.token [OF cq_history.start _ q(1)]) simp
  from cq_history.enqueue_token [OF this _ q(2)] have "cq_run ?mo tr q2 [100 \<mapsto> Some 0] Map.empty [Sent 0 7]" by simp
  from cq_history.consumer [OF this q3] show thesis by (rule that)
qed

lemma small_traits_throwing: "small_traits = small_traits\<lparr>noexcept_ctor := False\<rparr>"
  by (simp add: small_traits_def default_traits_def)

lemmas demo_enqueue = demo_enqueue_with [OF small_traits_throwing]

lemmas demo_run = demo_run_with [OF small_traits_throwing]

section \<open>Properties\<close>

text \<open>
  (C1) First in, first out, and nothing lost, for the whole queue, as long as every bulk enqueue through a producer token has
  succeeded: the last argument of \<open>cq_history\<close>, which counts those that failed or threw, is 0, and \<open>failed_bulk_breaks_fifo\<close>
  shows that this condition is needed.  All other operations may fail, throw or find nothing.  After any such sequence of operations of
  producers, consumers, tokens and exiting threads there is a way to attribute every element handed out to a producer such that,
  for each producer, the elements accepted for it are, in order, those handed out followed by those it still holds;
  an element is handed out only after it was accepted, and never memory without an element.  The blocks the producers
  share, the hash of threads and the tokens stay well formed.
\<close>

theorem concurrent_queue_fifo:
  assumes "traits_ok tr" and "BLOCK_SIZE tr < 2 ^ 63" and "cq_history mo tr q ptoks ctoks trace 0" and "length trace < 2 ^ 63"
  shows "\<exists>ev f. trace = map seen ev \<and> replay ev (\<lambda>_. []) = Some f
    \<and> (\<forall>i. concat (map (put i) ev) = concat (map (got i) ev) @ f i) \<and> cq_rep tr q f \<and> hash_rep tr q"
proof -
  obtain f where "cq_inv tr q ptoks ctoks trace f" using cq_run_inv [OF assms] by blast
  then obtain ev where "trace = map seen ev" "replay ev (\<lambda>_. []) = Some f" "cq_rep tr q f" "hash_rep tr q" by (auto simp: cq_inv_def fifo_def)
  moreover have "concat (map (put i) ev) = concat (map (got i) ev) @ f i" for i using replay_fifo [OF calculation(2), of i] by simp
  ultimately show ?thesis by blast
qed

theorem concurrent_queue_fifo_witness:
  "\<exists>q t ev f. cq_run (\<lambda>_. True) small_traits q [100 \<mapsto> Some 0] [200 \<mapsto> t] [Sent 0 (7 :: nat)]
     \<and> [Sent 0 7] = map seen ev \<and> replay ev (\<lambda>_. []) = Some f \<and> cq_rep small_traits q f"
proof -
  obtain q t where r: "cq_run (\<lambda>_. True) small_traits q [100 \<mapsto> Some 0] [200 \<mapsto> t] [Sent 0 (7 :: nat)]" by (rule demo_run)
  have "length [Sent 0 (7 :: nat)] < 2 ^ 63" by simp
  from concurrent_queue_fifo [OF small_traits_ok(2,3) r this] obtain ev f
    where "[Sent 0 (7 :: nat)] = map seen ev" "replay ev (\<lambda>_. []) = Some f" "cq_rep small_traits q f" by (elim exE conjE) (rule that)
  with r show ?thesis by (intro exI [of _ q] exI [of _ t] exI [of _ ev] exI [of _ f]) simp
qed

text \<open>
  (C20) No dequeue misses an element, when no other operation interferes: \<open>try_dequeue\<close>,
  \<open>try_dequeue_non_interleaved\<close> and \<open>try_dequeue\<close> with a consumer token, which returns, succeed exactly when elements
  are in the queue.
\<close>

theorem dequeue_complete:
  assumes "traits_ok tr" and "BLOCK_SIZE tr < 2 ^ 63" and "cq_run mo tr q ptoks ctoks trace" and "length trace < 2 ^ 63"
  shows "fst (fst (try_dequeue tr q)) = (in_flight trace > 0) \<and> fst (fst (try_dequeue_non_interleaved tr q)) = (in_flight trace > 0)
    \<and> (\<forall>a t. ctoks a = Some t \<longrightarrow> (\<exists>v t' q'. try_dequeue_token tr t q = Some ((in_flight trace > 0, v), t', q')))"
proof -
  obtain f where inv: "cq_inv tr q ptoks ctoks trace f" using cq_run_inv [OF assms] by blast
  have rep: "cq_rep tr q f" and tot: "total q f < 2 ^ 63" using inv cq_inv_total [OF inv assms(4)] by (simp_all add: cq_inv_def)
  have n: "in_flight trace > 0 \<longleftrightarrow> \<not> (\<forall>i. f i = [])"
    using fifo_total(1) [OF _ rep, of trace] total_zero [OF rep] inv by (auto simp: cq_inv_def)
  have one: "fst r = (in_flight trace > 0)" if "takes_one tr q f r q'" for r q' using that n by (auto simp: takes_one_def split: if_splits)
  have "\<exists>v t' q'. try_dequeue_token tr t q = Some ((in_flight trace > 0, v), t', q')" if "ctoks a = Some t" for a t
  proof -
    have "token_ok q t" using inv that by (auto simp: cq_inv_def)
    then obtain r t' q' where r: "try_dequeue_token tr t q = Some (r, t', q')" "takes_one tr q f r q'"
      using try_dequeue_token_ok [OF rep tot] by blast
    then show ?thesis using one [OF r(2)] by (cases r) simp
  qed
  moreover have "takes_one tr q f (fst (try_dequeue tr q)) (snd (try_dequeue tr q))" by (rule try_dequeue_ok [OF rep tot]) simp
  moreover have "takes_one tr q f (fst (try_dequeue_non_interleaved tr q)) (snd (try_dequeue_non_interleaved tr q))"
    by (rule dequeue_non_interleaved_ok [OF rep tot]) simp
  ultimately show ?thesis using one by blast
qed

theorem dequeue_complete_witness:
  "\<exists>q t v t' q'. cq_run (\<lambda>_. True) small_traits q [100 \<mapsto> Some 0] [200 \<mapsto> t] [Sent 0 (7 :: nat)]
     \<and> fst (fst (try_dequeue small_traits q)) \<and> try_dequeue_token small_traits t q = Some ((True, v), t', q')"
proof -
  obtain q t where r: "cq_run (\<lambda>_. True) small_traits q [100 \<mapsto> Some 0] [200 \<mapsto> t] [Sent 0 (7 :: nat)]" by (rule demo_run)
  have "length [Sent 0 (7 :: nat)] < 2 ^ 63" "in_flight [Sent 0 (7 :: nat)] > 0" by (simp_all add: in_flight_def)
  with dequeue_complete [OF small_traits_ok(2,3) r this(1)] r show ?thesis by (metis fun_upd_same)
qed

text \<open>
  (C21) The bulk dequeues hand out as many elements as asked for or as there are, whichever is less, and the one with a
  consumer token returns although its loop over the other producers restarts the count of the elements it still wants.
\<close>

theorem bulk_dequeue_complete:
  assumes "traits_ok tr" and "BLOCK_SIZE tr < 2 ^ 63" and "cq_run mo tr q ptoks ctoks trace" and "length trace < 2 ^ 63"
  shows "length (fst (try_dequeue_bulk tr mx q)) = min mx (in_flight trace)
    \<and> (\<forall>a t. ctoks a = Some t \<longrightarrow>
         (\<exists>items t' q'. try_dequeue_bulk_token tr t mx q = Some (items, t', q') \<and> length items = min mx (in_flight trace)))"
proof -
  obtain f where inv: "cq_inv tr q ptoks ctoks trace f" using cq_run_inv [OF assms] by blast
  have rep: "cq_rep tr q f" and tot: "total q f < 2 ^ 63" using inv cq_inv_total [OF inv assms(4)] by (simp_all add: cq_inv_def)
  have n: "total q f = in_flight trace" using fifo_total(1) [OF _ rep, of trace] inv by (auto simp: cq_inv_def)
  have "\<exists>items t' q'. try_dequeue_bulk_token tr t mx q = Some (items, t', q') \<and> length items = min mx (in_flight trace)"
    if "ctoks a = Some t" for a t
  proof -
    have "token_ok q t" using inv that by (auto simp: cq_inv_def)
    then obtain items t' q' where "try_dequeue_bulk_token tr t mx q = Some (items, t', q')" "takes_many tr mx q f items q'"
      using try_dequeue_bulk_token_ok [OF rep tot] by blast
    then show ?thesis using n by (simp add: takes_many_def)
  qed
  moreover have "takes_many tr mx q f (fst (try_dequeue_bulk tr mx q)) (snd (try_dequeue_bulk tr mx q))"
    by (rule try_dequeue_bulk_ok [OF rep tot]) simp
  ultimately show ?thesis using n by (auto simp: takes_many_def)
qed

theorem bulk_dequeue_complete_witness:
  "\<exists>q t items t' q'. cq_run (\<lambda>_. True) small_traits q [100 \<mapsto> Some 0] [200 \<mapsto> t] [Sent 0 (7 :: nat)]
     \<and> length (fst (try_dequeue_bulk small_traits 5 q)) = 1
     \<and> try_dequeue_bulk_token small_traits t 5 q = Some (items, t', q') \<and> length items = 1"
proof -
  obtain q t where r: "cq_run (\<lambda>_. True) small_traits q [100 \<mapsto> Some 0] [200 \<mapsto> t] [Sent 0 (7 :: nat)]" by (rule demo_run)
  have "length [Sent 0 (7 :: nat)] < 2 ^ 63" "min 5 (in_flight [Sent 0 (7 :: nat)]) = 1" by (simp_all add: in_flight_def)
  with bulk_dequeue_complete [OF small_traits_ok(2,3) r this(1), of 5] r show ?thesis by (metis fun_upd_same)
qed

text \<open>
  Without interference \<open>size_approx\<close> is exact: the number of elements accepted less the number handed out.
\<close>

theorem size_approx_exact:
  assumes "traits_ok tr" and "BLOCK_SIZE tr < 2 ^ 63" and "cq_run mo tr q ptoks ctoks trace" and "length trace < 2 ^ 63"
  shows "size_approx q = in_flight trace"
proof -
  obtain f where inv: "cq_inv tr q ptoks ctoks trace f" using cq_run_inv [OF assms] by blast
  then have "cq_rep tr q f" "fifo trace f" by (simp_all add: cq_inv_def)
  then show ?thesis using size_approx_ok [OF _ cq_inv_total [OF inv assms(4)]] fifo_total(1) by fastforce
qed

theorem size_approx_exact_witness:
  "\<exists>q t. cq_run (\<lambda>_. True) small_traits q [100 \<mapsto> Some 0] [200 \<mapsto> t] [Sent 0 (7 :: nat)] \<and> size_approx q = 1"
proof -
  obtain q t where r: "cq_run (\<lambda>_. True) small_traits q [100 \<mapsto> Some 0] [200 \<mapsto> t] [Sent 0 (7 :: nat)]" by (rule demo_run)
  have "length [Sent 0 (7 :: nat)] < 2 ^ 63" "in_flight [Sent 0 (7 :: nat)] = 1" by (simp_all add: in_flight_def)
  with size_approx_exact [OF small_traits_ok(2,3) r this(1)] r show ?thesis by metis
qed

text \<open>
  (C19) The search for the implicit producer of a thread always ends, through every state of the hash that adding
  threads, resizing and exiting threads leads to: \<open>enqueue\<close> returns, whether allocations fail or not, and a thread
  that exits gives its producer back.  A thread keeps its producer whichever thread enqueues.
\<close>

theorem enqueue_returns:
  assumes "traits_ok tr" and "BLOCK_SIZE tr < 2 ^ 63" and "cq_run mo tr q ptoks ctoks trace" and "length trace < 2 ^ 63" and "live tid"
  shows "(\<exists>r q'. enqueue mo tr m th tid x q = Some (r, q') \<and> (\<forall>k. live k \<and> producer_of q k \<noteq> None \<longrightarrow> producer_of q' k = producer_of q k))
    \<and> (INITIAL_IMPLICIT_PRODUCER_HASH_SIZE tr \<noteq> 0 \<and> producer_of q tid = Some (Some i) \<longrightarrow>
      (\<exists>q'. thread_exited tid i q = Some q' \<and> producer_of q' tid = None \<and> inactive (producers q' ! i)))"
proof -
  obtain f where inv: "cq_inv tr q ptoks ctoks trace f" using cq_run_inv [OF assms(1-4)] by blast
  have ret: "\<exists>r q'. enqueue mo tr m th tid x q = Some (r, q') \<and> (\<forall>k. live k \<and> producer_of q k \<noteq> None \<longrightarrow> producer_of q' k = producer_of q k)"
    by (rule enqueue_inv [OF inv assms(5), where mo = mo and m = m and th = th and x = x]) blast
  have rep: "cq_rep tr q f" "hash_rep tr q" using inv by (simp_all add: cq_inv_def)
  have "\<exists>q'. thread_exited tid i q = Some q' \<and> producer_of q' tid = None \<and> inactive (producers q' ! i)"
    if "INITIAL_IMPLICIT_PRODUCER_HASH_SIZE tr \<noteq> 0" "producer_of q tid = Some (Some i)"
    by (rule thread_exited_rep [OF rep that(1) assms(5) that(2)]) (auto simp: usable_def)
  with ret show ?thesis by blast
qed

theorem enqueue_returns_witness:
  "\<exists>q t r q'. cq_run (\<lambda>_. True) small_traits q [100 \<mapsto> Some 0] [200 \<mapsto> t] [Sent 0 (7 :: nat)]
     \<and> enqueue (\<lambda>_. True) small_traits CanAlloc None 5 8 q = Some (r, q')"
proof -
  obtain q t where r: "cq_run (\<lambda>_. True) small_traits q [100 \<mapsto> Some 0] [200 \<mapsto> t] [Sent 0 (7 :: nat)]" by (rule demo_run)
  have "length [Sent 0 (7 :: nat)] < 2 ^ 63" "live 5" by (simp_all add: live_def invalid_thread_id_def invalid_thread_id2_def)
  with enqueue_returns [OF small_traits_ok(2,3) r this] r show ?thesis by metis
qed

text \<open>
  (C17) No two users of the queue enqueue to the same producer: the producers of live threads are implicit, those of
  producer tokens explicit, all are in use, and two threads, or two tokens, with the same producer are the same.
\<close>

theorem producers_not_shared:
  assumes "traits_ok tr" and "BLOCK_SIZE tr < 2 ^ 63" and "INITIAL_IMPLICIT_PRODUCER_HASH_SIZE tr \<noteq> 0"
    and "cq_run mo tr q ptoks ctoks trace" and "length trace < 2 ^ 63"
  shows "(\<forall>k k' i. live k \<and> live k' \<and> producer_of q k = Some (Some i) \<longrightarrow>
        \<not> inactive (producers q ! i) \<and> \<not> isExplicit (sub (producers q ! i)) \<and> (producer_of q k' = Some (Some i) \<longrightarrow> k = k'))
    \<and> (\<forall>a a' i. ptoks a = Some (Some i) \<longrightarrow>
        \<not> inactive (producers q ! i) \<and> isExplicit (sub (producers q ! i)) \<and> (ptoks a' = Some (Some i) \<longrightarrow> a = a'))"
proof -
  obtain f where inv: "cq_inv tr q ptoks ctoks trace f" using cq_run_inv [OF assms(1,2,4,5)] by blast
  then have known: "known_ok (usable q) (producer_of q)" and toks: "tokens_ok q ptoks" using assms(3) by (simp_all add: cq_inv_def hash_rep_def)
  have "usable q i" if "live k" "producer_of q k = Some (Some i)" for k i using known that unfolding known_ok_def by blast
  moreover have "k = k'" if "live k" "live k'" "producer_of q k = Some (Some i)" "producer_of q k' = Some (Some i)" for k k' i
    using known that unfolding known_ok_def by blast
  moreover have "a = a'" if "ptoks a = Some (Some i)" "ptoks a' = Some (Some i)" for a a' i using tokens_ok_inj [OF toks that] .
  ultimately show ?thesis using toks unfolding tokens_ok_def usable_def by blast
qed

theorem producers_not_shared_witness:
  "\<exists>q t. cq_run (\<lambda>_. True) small_traits q [100 \<mapsto> Some 0] [200 \<mapsto> t] [Sent 0 (7 :: nat)]
     \<and> \<not> inactive (producers q ! 0) \<and> isExplicit (sub (producers q ! 0))"
proof -
  obtain q t where r: "cq_run (\<lambda>_. True) small_traits q [100 \<mapsto> Some 0] [200 \<mapsto> t] [Sent 0 (7 :: nat)]" by (rule demo_run)
  have "length [Sent 0 (7 :: nat)] < 2 ^ 63" "INITIAL_IMPLICIT_PRODUCER_HASH_SIZE small_traits \<noteq> 0"
    by (simp_all add: small_traits_def default_traits_def)
  from producers_not_shared [OF small_traits_ok(2,3) this(2) r this(1)] r show ?thesis by (metis fun_upd_same)
qed

text \<open>
  (C18) Well-formed states: after any history in which every bulk enqueue through a producer token has succeeded (the last argument of
  \<open>cq_history\<close> is 0; see \<open>failed_bulk_breaks_fifo\<close> for what one that fails does) no block is on two lists or in the free list while it is in use, the number of producers
  is right, the tables of the hash have room, producer tokens refer to explicit producers in the list and consumer tokens to
  producers in the list; and whatever is handed out is an element, one that was accepted before.
\<close>

theorem queue_well_formed:
  assumes "traits_ok tr" and "BLOCK_SIZE tr < 2 ^ 63" and "cq_history mo tr q ptoks ctoks trace 0" and "length trace < 2 ^ 63"
  shows "pool_ok tr (cq_pool q) \<and> producerCount q = of_nat (length (producers q))
    \<and> (INITIAL_IMPLICIT_PRODUCER_HASH_SIZE tr \<noteq> 0 \<longrightarrow> hash_ok (cq_hash q))
    \<and> (\<forall>a i. ptoks a = Some (Some i) \<longrightarrow> i < length (producers q) \<and> isExplicit (sub (producers q ! i)))
    \<and> (\<forall>a t. ctoks a = Some t \<longrightarrow> token_ok q t)
    \<and> (\<forall>v. Received v \<in> set trace \<longrightarrow> (\<exists>i x. v = Some x \<and> Sent i x \<in> set trace))"
proof -
  obtain f where inv: "cq_inv tr q ptoks ctoks trace f" using cq_run_inv [OF assms] by blast
  then obtain ev where ev: "trace = map seen ev" "replay ev (\<lambda>_. []) = Some f" by (auto simp: cq_inv_def fifo_def)
  have "\<exists>i x. v = Some x \<and> Sent i x \<in> set trace" if v: "Received v \<in> set trace" for v
  proof -
    obtain e where e: "e \<in> set ev" "seen e = Received v" using v ev(1) by auto
    obtain i x where x: "e = Got i x" "v = Some x" using e(2) by (cases e) simp_all
    then have "x \<in> set (concat (map (got i) ev))" using e(1) by force
    then have "x \<in> set (concat (map (put i) ev))" using replay_fifo [OF ev(2), of i] by simp
    then obtain e' where e': "e' \<in> set ev" "x \<in> set (put i e')" by auto
    have "e' = Put i x" using e'(2) by (cases e') (simp_all split: if_splits)
    then have "Put i x \<in> set ev" using e'(1) by simp
    then show ?thesis using x(2) ev(1) by force
  qed
  then show ?thesis using inv by (auto simp: cq_inv_def cq_rep_def hash_rep_def tokens_ok_def)
qed

theorem queue_well_formed_witness:
  "\<exists>q t. cq_run (\<lambda>_. True) small_traits q [100 \<mapsto> Some 0] [200 \<mapsto> t] [Sent 0 (7 :: nat)]
     \<and> pool_ok small_traits (cq_pool q) \<and> isExplicit (sub (producers q ! 0)) \<and> token_ok q t"
proof -
  obtain q t where r: "cq_run (\<lambda>_. True) small_traits q [100 \<mapsto> Some 0] [200 \<mapsto> t] [Sent 0 (7 :: nat)]" by (rule demo_run)
  have "length [Sent 0 (7 :: nat)] < 2 ^ 63" by simp
  with queue_well_formed [OF small_traits_ok(2,3) r this] r show ?thesis by (metis fun_upd_same)
qed

lemma demo_bulk_failed:
  obtains q q' :: "nat cqueue" where "cq_history (\<lambda>_. True) small_traits q [100 \<mapsto> Some 0] Map.empty (map (Sent 0) [1, 2, 3, 4, 5]) 1"
    "try_dequeue_bulk_from_producer small_traits 0 5 q = ([Some 5, None, Some 3, Some 4, None], q')"
proof -
  let ?mo = "\<lambda>_ :: nat. True" and ?q = "ConcurrentQueue (\<lambda>_. True) small_traits 4 :: nat cqueue"
  let ?items = "[(None, 1), (None, 2), (None, 3), (None, 4), (None, 5)] :: (exn option \<times> nat) list"
  have pool: "cq_pool ?q = populate_initial_block_list ?mo small_traits 2 (empty_pool small_traits)" "producers ?q = []"
    by (simp_all add: ConcurrentQueue_def new_queue_def block_offset_def small_traits_def default_traits_def)
  obtain p P where p: "ExplicitProducer ?mo small_traits (cq_pool ?q\<lparr>mallocs := mallocs (cq_pool ?q) + 1\<rparr>) = (p, P)"
    by (metis prod.exhaust)
  then obtain q1 where q1: "ProducerToken ?mo small_traits 100 ?q = (Some 0, q1)" "cq_pool q1 = P" "map sub (producers q1) = [Explicit p]"
    using pool by (simp add: ProducerToken_def recycle_or_create_producer_def producer_list_def create_producer_def
        add_producer_def set_token_def upd_node_def malloc_def)
  obtain p1 P1 p2 P2 where e: "explicit_enqueue_bulk ?mo small_traits CannotAlloc ?items p P = (Inr False, p1, P1)"
    "explicit_enqueue_bulk ?mo small_traits CanAlloc ?items p1 P1 = (Inr True, p2, P2)"
    "fst (explicit_dequeue_bulk small_traits 5 p2 P2) = [Some 5, None, Some 3, Some 4, None]"
    using failed_bulk_explicit [OF p [unfolded pool(1)] refl] by blast
  obtain q2 where q2: "enqueue_bulk_token ?mo small_traits CannotAlloc 0 ?items q1 = (Inr False, q2)" "cq_pool q2 = P1" "map sub (producers q2) = [Explicit p1]"
    using q1(2,3) e(1) by (auto simp: enqueue_bulk_token_def enqueue_bulk_at_def upd_node_def)
  obtain q3 where q3: "enqueue_bulk_token ?mo small_traits CanAlloc 0 ?items q2 = (Inr True, q3)" "cq_pool q3 = P2" "map sub (producers q3) = [Explicit p2]"
    using q2(2,3) e(2) by (auto simp: enqueue_bulk_token_def enqueue_bulk_at_def upd_node_def)
  obtain q4 where q4: "try_dequeue_bulk_from_producer small_traits 0 5 q3 = ([Some 5, None, Some 3, Some 4, None], q4)"
    using q3(2,3) e(3) by (cases "explicit_dequeue_bulk small_traits 5 p2 P2") (auto simp: try_dequeue_bulk_from_producer_def dequeue_bulk_at_def)
  have "cq_history ?mo small_traits q1 [100 \<mapsto> Some 0] Map.empty [] 0" by (rule cq_history.token [OF cq_history.start _ q1(1)]) simp
  from cq_history.bulk_token_failed [OF this _ q2(1)] have "cq_history ?mo small_traits q2 [100 \<mapsto> Some 0] Map.empty [] 1" by simp
  from cq_history.enqueue_bulk_token [OF this _ q3(1)]
  have "cq_history ?mo small_traits q3 [100 \<mapsto> Some 0] Map.empty (map (Sent 0) [1, 2, 3, 4, 5]) 1" by simp
  then show thesis using that q4 by blast
qed

lemma fifo_no_empty: "fifo trace f \<Longrightarrow> Received None \<notin> set trace"
proof
  assume "fifo trace f" and "Received None \<in> set trace"
  then obtain ev e where "trace = map seen ev" "e \<in> set ev" "seen e = Received None" by (auto simp: fifo_def)
  then show False by (cases e) simp_all
qed

text \<open>
  (C37) The side condition of the properties of the whole queue, that no bulk enqueue through a producer token failed, is needed.
  There is a history with a single failure, a \<open>try_enqueue_bulk\<close> of five elements on a new queue with two blocks of two elements
  to spare, after which an \<open>enqueue_bulk\<close> of the five elements succeeds and a bulk dequeue hands out the fifth,
  then memory without an element, the third, the fourth, and again memory without an element: the order is lost, and so are the first two elements.
\<close>

theorem failed_bulk_breaks_fifo:
  "\<exists>q ptoks trace. cq_history (\<lambda>_. True) small_traits q ptoks Map.empty trace 1
     \<and> trace = map (Sent 0) [1 :: nat, 2, 3, 4, 5] @ map Received [Some 5, None, Some 3, Some 4, None]
     \<and> (\<nexists>f. fifo trace f)"
proof -
  obtain q q' :: "nat cqueue" where q: "cq_history (\<lambda>_. True) small_traits q [100 \<mapsto> Some 0] Map.empty (map (Sent 0) [1, 2, 3, 4, 5]) 1"
    "try_dequeue_bulk_from_producer small_traits 0 5 q = ([Some 5, None, Some 3, Some 4, None], q')" by (rule demo_bulk_failed)
  from cq_history.bulk_from [OF q(1) _ q(2), of 100]
  have "cq_history (\<lambda>_. True) small_traits q' [100 \<mapsto> Some 0] Map.empty
    (map (Sent 0) [1, 2, 3, 4, 5] @ map Received [Some 5, None, Some 3, Some 4, None]) 1" by simp
  moreover have "\<nexists>f. fifo (map (Sent 0) [1 :: nat, 2, 3, 4, 5] @ map Received [Some 5, None, Some 3, Some 4, None]) f"
    using fifo_no_empty by fastforce
  ultimately show ?thesis by blast
qed

end
