(* ===== verification/ConcurrentQueueInvariants.thy ===== *)
theory ConcurrentQueueInvariants
  imports ConcurrentQueueClients
begin

text \<open>
  What every operation of a producer keeps holds for all producers of a queue after any run: the locale
  \<open>sub_invariant\<close> states the first as laws of the sub-queues and proves the second once.  It is interpreted here on how far
  the tail of a producer can have moved, and in \<open>ConcurrentQueueProgress\<close> on what holds when memory never runs out.
\<close>

section \<open>Invariants of the producers\<close>

text \<open>\<open>good n s\<close> is to hold for a sub-queue after \<open>n\<close> elements have been accepted by the queue.\<close>

definition all_good :: "(nat \<Rightarrow> subqueue \<Rightarrow> bool) \<Rightarrow> nat \<Rightarrow> 'a cqueue \<Rightarrow> bool" where
  "all_good good n q \<longleftrightarrow> (\<forall>p\<in>set (producers q). good n (sub p))"

lemma all_good_fields [simp]:
  "all_good good n (q\<lparr>cq_pool := P\<rparr>) = all_good good n q" "all_good good n (q\<lparr>cq_hash := h\<rparr>) = all_good good n q"
  "all_good good n (q\<lparr>globalExplicitConsumerOffset := v\<rparr>) = all_good good n q"
  "all_good good n (q\<lparr>nextExplicitConsumerId := v\<rparr>) = all_good good n q"
  by (simp_all add: all_good_def)

lemma all_good_node:
  "all_good good n q \<Longrightarrow> (\<And>p. good n (sub p) \<Longrightarrow> good n (sub (g p))) \<Longrightarrow> all_good good n (upd_node i g q)"
  unfolding all_good_def upd_node_def
  by (cases "i < length (producers q)") (auto simp: list_update_beyond dest!: subsetD [OF set_update_subset_insert])

lemma all_good_put:
  assumes "all_good good n q" and "\<And>s. good n s \<Longrightarrow> good m s" and "good n (sub (producers q ! i)) \<Longrightarrow> good m s"
  shows "all_good good m ((upd_node i (\<lambda>p. p\<lparr>sub := s\<rparr>) q)\<lparr>cq_pool := P\<rparr>)"
  using assms unfolding all_good_def upd_node_def
  by (cases "i < length (producers q)") (auto simp: list_update_beyond dest!: subsetD [OF set_update_subset_insert])

locale sub_invariant =
  fixes malloc_ok :: "nat \<Rightarrow> bool" and tr :: traits and good :: "nat \<Rightarrow> subqueue \<Rightarrow> bool" and pool_type :: "'a pool itself"
  assumes new_good: "create_producer malloc_ok tr ex (P :: 'a pool) = (Some s, P') \<Longrightarrow> good 0 s"
    and more: "good n s \<Longrightarrow> n \<le> m \<Longrightarrow> good m s"
    and enq_good: "good n s \<Longrightarrow> sub_enqueue malloc_ok tr md th x s (P :: 'a pool) = (r, s', P') \<Longrightarrow>
      good (if r = Inr True then Suc n else n) s'"
    and enqb_good: "good n s \<Longrightarrow> sub_enqueue_bulk malloc_ok tr md items s (P :: 'a pool) = (r, s', P') \<Longrightarrow>
      good (if r = Inr True then n + length items else n) s'"
    and deq_good: "good n s \<Longrightarrow> sub_dequeue tr s (P :: 'a pool) = (rd, s', P') \<Longrightarrow> good n s'"
    and bulk_good: "good n s \<Longrightarrow> sub_dequeue_bulk tr mx s (P :: 'a pool) = (rb, s', P') \<Longrightarrow> good n s'"
begin

lemma enqueue_at_good:
  fixes q :: "'a cqueue"
  assumes "all_good good n q" and "enqueue_at malloc_ok tr md th x i q = (r, q')"
  shows "all_good good (if r = Inr True then Suc n else n) q'"
proof -
  obtain s P where s: "sub_enqueue malloc_ok tr md th x (sub (producers q ! i)) (cq_pool q) = (r, s, P)"
    using assms(2) by (auto simp: enqueue_at_def split: prod.splits)
  have q': "q' = (upd_node i (\<lambda>p. p\<lparr>sub := s\<rparr>) q)\<lparr>cq_pool := P\<rparr>" using assms(2) s by (simp add: enqueue_at_def)
  show ?thesis unfolding q' by (rule all_good_put [OF assms(1) _ enq_good [OF _ s]]) (auto elim: more)
qed

lemma enqueue_bulk_at_good:
  fixes q :: "'a cqueue"
  assumes "all_good good n q" and "enqueue_bulk_at malloc_ok tr md items i q = (r, q')"
  shows "all_good good (if r = Inr True then n + length items else n) q'"
proof -
  obtain s P where s: "sub_enqueue_bulk malloc_ok tr md items (sub (producers q ! i)) (cq_pool q) = (r, s, P)"
    using assms(2) by (auto simp: enqueue_bulk_at_def split: prod.splits)
  have q': "q' = (upd_node i (\<lambda>p. p\<lparr>sub := s\<rparr>) q)\<lparr>cq_pool := P\<rparr>" using assms(2) s by (simp add: enqueue_bulk_at_def)
  show ?thesis unfolding q' by (rule all_good_put [OF assms(1) _ enqb_good [OF _ s]]) (auto elim: more)
qed

lemma dequeue_at_good: "all_good good n (q :: 'a cqueue) \<Longrightarrow> dequeue_at tr i q = (rd, q') \<Longrightarrow> all_good good n q'"
  unfolding dequeue_at_def by (auto split: prod.splits intro!: all_good_put dest: deq_good)

lemma bulk_at_good: "all_good good n (q :: 'a cqueue) \<Longrightarrow> dequeue_bulk_at tr mx i q = (rb, q') \<Longrightarrow> all_good good n q'"
  unfolding dequeue_bulk_at_def by (auto split: prod.splits intro!: all_good_put dest: bulk_good)

lemma dequeue_first_good: "all_good good n (q :: 'a cqueue) \<Longrightarrow> dequeue_first tr is q = (r, q') \<Longrightarrow> all_good good n q'"
  by (induction "is" arbitrary: q) (auto split: prod.splits if_splits dest: dequeue_at_good)

lemma bulk_first_good: "all_good good n (q :: 'a cqueue) \<Longrightarrow> bulk_first tr is mx q = (r, q') \<Longrightarrow> all_good good n q'"
  by (induction "is" arbitrary: q mx r) (auto split: prod.splits if_splits dest: bulk_at_good)

lemma dequeue_others_good: "all_good good n (q :: 'a cqueue) \<Longrightarrow> dequeue_others rounds tr i tok q = Some (r, tok', q') \<Longrightarrow> all_good good n q'"
  by (induction rounds arbitrary: i tok q) (auto split: prod.splits if_splits dest: dequeue_at_good)

lemma bulk_others_good: "all_good good n (q :: 'a cqueue) \<Longrightarrow> bulk_others rounds tr mx i tok q = Some (r, tok', q') \<Longrightarrow> all_good good n q'"
  by (induction rounds arbitrary: mx i tok q r tok') (auto simp: Let_def split: prod.splits if_splits dest: bulk_at_good)

lemma dequeues_good:
  fixes q :: "'a cqueue"
  assumes "all_good good n q"
  shows "try_dequeue tr q = (r, q') \<Longrightarrow> all_good good n q'"
    and "try_dequeue_token tr tok q = Some (r, tok', q') \<Longrightarrow> all_good good n q'"
    and "try_dequeue_bulk_token tr tok mx q = Some (rb, tok', q') \<Longrightarrow> all_good good n q'"
proof -
  show "try_dequeue tr q = (r, q') \<Longrightarrow> all_good good n q'"
    using assms by (auto simp: try_dequeue_def split: prod.splits if_splits dest: dequeue_at_good dequeue_first_good)
  show "try_dequeue_token tr tok q = Some (r, tok', q') \<Longrightarrow> all_good good n q'"
    using assms by (auto simp: try_dequeue_token_def Let_def split: prod.splits if_splits dest: dequeue_at_good dequeue_others_good)
  show "try_dequeue_bulk_token tr tok mx q = Some (rb, tok', q') \<Longrightarrow> all_good good n q'"
    using assms by (auto simp: try_dequeue_bulk_token_def Let_def simp del: bulk_others.simps
        split: prod.splits if_splits dest: bulk_at_good bulk_others_good)
qed

lemma recycle_good:
  fixes q :: "'a cqueue"
  assumes "all_good good n q" and "recycle_or_create_producer malloc_ok tr ex q = (r, q')"
  shows "all_good good n q'"
proof (cases "find (\<lambda>i. inactive (producers q ! i) \<and> isExplicit (sub (producers q ! i)) = ex) (producer_list q)")
  case (Some i)
  then show ?thesis using assms all_good_node [OF assms(1), of "\<lambda>p. p\<lparr>inactive := False\<rparr>" i] by (simp add: recycle_or_create_producer_def)
next
  case None
  obtain s P where c: "create_producer malloc_ok tr ex (cq_pool q) = (s, P)" by (metis prod.exhaust)
  then have "good n s'" if "s = Some s'" for s' using new_good more that by blast
  then show ?thesis using assms None c by (cases s) (auto simp: recycle_or_create_producer_def add_producer_def all_good_def)
qed

lemma get_or_add_good:
  fixes q :: "'a cqueue"
  assumes "all_good good n q" and "get_or_add_implicit_producer malloc_ok tr tid q = Some (r, q')"
  shows "all_good good n q'"
proof -
  obtain v h where f: "find_producer tid (cq_hash q) = Some (v, h)" using assms(2) by (auto simp: get_or_add_implicit_producer_def split: option.splits)
  show ?thesis
  proof (cases v)
    case (Some v)
    then show ?thesis using assms f by (auto simp: get_or_add_implicit_producer_def)
  next
    case None
    let ?n = "1 + implicitProducerHashCount h" and ?h = "h\<lparr>implicitProducerHashCount := 1 + implicitProducerHashCount h\<rparr>"
    obtain ok P where P: "(if ?n \<ge> length (hd (tables ?h)) div 2 then malloc malloc_ok (cq_pool q) else (True, cq_pool q)) = (ok, P)"
      by (metis prod.exhaust)
    obtain r1 q1 where rc: "recycle_or_create_producer malloc_ok tr False (q\<lparr>cq_pool := P\<rparr>) = (r1, q1)" by (metis prod.exhaust)
    have q1: "all_good good n q1" by (rule recycle_good [OF _ rc]) (simp add: assms(1))
    note result = assms(2) [unfolded get_or_add_implicit_producer_def Let_def f None option.case prod.case P rc]
    show ?thesis using result q1 assms(1) by (auto split: option.splits if_splits)
  qed
qed

lemma enqueue_good:
  fixes q :: "'a cqueue"
  assumes "all_good good n q"
  shows "ConcurrentQueue.enqueue malloc_ok tr md th tid x q = Some (r, q') \<Longrightarrow> all_good good (if r = Inr True then Suc n else n) q'"
    and "ConcurrentQueue.enqueue_bulk malloc_ok tr md tid items q = Some (rb, q') \<Longrightarrow> all_good good (if rb = Inr True then n + length items else n) q'"
proof -
  show "all_good good (if r = Inr True then Suc n else n) q'" if e: "ConcurrentQueue.enqueue malloc_ok tr md th tid x q = Some (r, q')"
  proof (cases "INITIAL_IMPLICIT_PRODUCER_HASH_SIZE tr = 0 \<or> get_or_add_implicit_producer malloc_ok tr tid q = None")
    case False
    then obtain i q1 where g: "get_or_add_implicit_producer malloc_ok tr tid q = Some (i, q1)" by auto
    show ?thesis using e False g enqueue_at_good [OF get_or_add_good [OF assms g]] get_or_add_good [OF assms g]
      by (cases i) (auto simp: ConcurrentQueue.enqueue_def)
  qed (use e assms in \<open>auto simp: ConcurrentQueue.enqueue_def split: if_splits\<close>)
  show "all_good good (if rb = Inr True then n + length items else n) q'" if e: "ConcurrentQueue.enqueue_bulk malloc_ok tr md tid items q = Some (rb, q')"
  proof (cases "INITIAL_IMPLICIT_PRODUCER_HASH_SIZE tr = 0 \<or> get_or_add_implicit_producer malloc_ok tr tid q = None")
    case False
    then obtain i q1 where g: "get_or_add_implicit_producer malloc_ok tr tid q = Some (i, q1)" by auto
    show ?thesis using e False g enqueue_bulk_at_good [OF get_or_add_good [OF assms g]] get_or_add_good [OF assms g]
      by (cases i) (auto simp: ConcurrentQueue.enqueue_bulk_def)
  qed (use e assms in \<open>auto simp: ConcurrentQueue.enqueue_bulk_def split: if_splits\<close>)
qed

text \<open>After any history, with as many elements accepted as the trace says.\<close>

lemma run_good: "cq_history malloc_ok tr (q :: 'a cqueue) ptoks ctoks trace n \<Longrightarrow> all_good good (length (filter is_sent trace)) q"
proof (induction rule: cq_history.induct)
  case (start cap)
  show ?case by (simp add: all_good_def ConcurrentQueue_def new_queue_def)
next
  case (start_sized cap ne ni)
  show ?case by (simp add: all_good_def ConcurrentQueue_sized_def new_queue_def)
next
  case (token q ptoks ctoks trace n a p q')
  obtain r q1 where r: "recycle_or_create_producer malloc_ok tr True q = (r, q1)" by (metis prod.exhaust)
  then show ?case using token recycle_good [OF token.IH r] by (auto simp: ProducerToken_def set_token_def intro!: all_good_node split: option.splits)
next
  case (token_move q ptoks ctoks trace n b p a this other q')
  then show ?case by (auto simp: ProducerToken_move_def set_token_def all_good_node split: option.splits)
next
  case (token_swap q ptoks ctoks trace n a p b p' this other q')
  then show ?case by (auto simp: ProducerToken_swap_def set_token_def all_good_node split: option.splits)
next
  case (token_destroy q ptoks ctoks trace n a p)
  then show ?case by (auto simp: destroy_ProducerToken_def all_good_node split: option.splits)
next
  case (consumer q ptoks ctoks trace n t q' a)
  then show ?case by (auto simp: ConsumerToken_def)
next
  case (enqueue q ptoks ctoks trace n tid m th x r q')
  show ?case using enqueue_good(1) [OF enqueue.IH enqueue.hyps(3)] by (auto split: if_splits)
next
  case (enqueue_token q ptoks ctoks trace n a i m th x r q')
  show ?case using enqueue_at_good [OF enqueue_token.IH enqueue_token.hyps(3) [unfolded ConcurrentQueue.enqueue_token_def]]
    by (auto split: if_splits)
next
  case (enqueue_bulk q ptoks ctoks trace n tid m items r q')
  show ?case using enqueue_good(2) [OF enqueue_bulk.IH enqueue_bulk.hyps(3)] by (auto simp: o_def split: if_splits)
next
  case (enqueue_bulk_token q ptoks ctoks trace n a i m items q')
  show ?case using enqueue_bulk_at_good [OF enqueue_bulk_token.IH enqueue_bulk_token.hyps(3) [unfolded ConcurrentQueue.enqueue_bulk_token_def]]
    by (simp add: o_def)
next
  case (thread_exit q ptoks ctoks trace n tid i q')
  then show ?case by (auto simp: thread_exited_def intro!: all_good_node)
next
  case (dequeue q ptoks ctoks trace n ok v q')
  then show ?case by (auto split: if_splits dest: dequeues_good(1))
next
  case (dequeue_non_interleaved q ptoks ctoks trace n ok v q')
  then show ?case by (auto simp: try_dequeue_non_interleaved_def split: if_splits dest: dequeue_first_good)
next
  case (dequeue_from q ptoks ctoks trace n a i ok v q')
  then show ?case by (auto simp: try_dequeue_from_producer_def split: if_splits dest: dequeue_at_good)
next
  case (dequeue_token q ptoks ctoks trace n a t ok v t' q')
  then show ?case by (auto split: if_splits dest: dequeues_good(2))
next
  case (bulk q ptoks ctoks trace n mx items q')
  then show ?case by (auto simp: try_dequeue_bulk_def o_def dest: bulk_first_good)
next
  case (bulk_from q ptoks ctoks trace n a i mx items q')
  then show ?case by (auto simp: try_dequeue_bulk_from_producer_def o_def dest: bulk_at_good)
next
  case (bulk_token q ptoks ctoks trace n a t mx items t' q')
  then show ?case by (auto simp: o_def dest: dequeues_good(3))
next
  case (bulk_token_failed q ptoks ctoks trace n a i m items r q')
  show ?case using enqueue_bulk_at_good [OF bulk_token_failed.IH bulk_token_failed.hyps(3) [unfolded ConcurrentQueue.enqueue_bulk_token_def]]
      bulk_token_failed.hyps(4) by simp
qed

end

section \<open>How far a tail can have moved\<close>

lemma index_tail: "new_block_index mo k p P = (ok, p', P') \<Longrightarrow> tailIndex p' = tailIndex p"
  by (auto simp: new_block_index_def Let_def split: prod.splits if_splits)

lemma ring_insert_tail: "ring_insert b p P = (p', P') \<Longrightarrow> tailIndex p' = tailIndex p"
  by (auto simp: ring_insert_def split: option.splits)

lemma start_block_tail: "start_block mo tr m p P = (ok, p', P') \<Longrightarrow> tailIndex p' = tailIndex p"
  by (auto simp: start_block_def fresh_block_def Let_def split: option.splits prod.splits if_splits dest!: index_tail ring_insert_tail)

lemma publish_tail [simp]: "tailIndex (publish_block p) = tailIndex p" "tailIndex (enter_block i p) = tailIndex p"
  "tailIndex (undo_bulk f u s b p) = tailIndex p"
  by (simp_all add: publish_block_def enter_block_def undo_bulk_def)

lemma take_ahead_tail: "take_ahead n tr f i p P = (missing, f', i', p') \<Longrightarrow> tailIndex p' = tailIndex p"
  by (induction n arbitrary: f i p) (auto split: option.splits if_splits)

lemma take_from_pool_tail: "take_from_pool n mo tr m u f first i p P = (ok, f', first', p', P') \<Longrightarrow> tailIndex p' = tailIndex p"
proof (induction n arbitrary: f first i p P)
  case (Suc n)
  then show ?case
    by (auto simp: Let_def split: prod.splits option.splits if_splits dest!: Suc.IH index_tail ring_insert_tail)
qed simp

lemma explicit_tails:
  shows "ExplicitProducer mo tr P = (p', P') \<Longrightarrow> tailIndex p' = 0"
    and "explicit_enqueue mo tr m th x p P = (r, p', P') \<Longrightarrow> tailIndex p' = (if r = Inr True then Suc (tailIndex p) else tailIndex p)"
    and "explicit_enqueue_bulk mo tr m items p P = (r, p', P') \<Longrightarrow>
      tailIndex p' = (if r = Inr True then tailIndex p + length items else tailIndex p)"
    and "explicit_dequeue tr p P = (rd, p', P') \<Longrightarrow> tailIndex p' = tailIndex p"
    and "explicit_dequeue_bulk tr mx p P = (rb, p', P') \<Longrightarrow> tailIndex p' = tailIndex p"
proof -
  show "ExplicitProducer mo tr P = (p', P') \<Longrightarrow> tailIndex p' = 0"
    by (auto simp: ExplicitProducer_def Let_def split: prod.splits dest!: index_tail)
  show "explicit_enqueue mo tr m th x p P = (r, p', P') \<Longrightarrow> tailIndex p' = (if r = Inr True then Suc (tailIndex p) else tailIndex p)"
    by (auto simp: explicit_enqueue_def split: prod.splits option.splits if_splits dest!: start_block_tail)
  show "explicit_enqueue_bulk mo tr m items p P = (r, p', P') \<Longrightarrow>
      tailIndex p' = (if r = Inr True then tailIndex p + length items else tailIndex p)"
    by (auto simp: explicit_enqueue_bulk_def Let_def simp del: fill_blocks.simps destroy_blocks.simps
        split: prod.splits option.splits if_splits dest!: take_ahead_tail take_from_pool_tail)
  show "explicit_dequeue tr p P = (rd, p', P') \<Longrightarrow> tailIndex p' = tailIndex p"
    by (auto simp: explicit_dequeue_def Let_def split: if_splits)
  show "explicit_dequeue_bulk tr mx p P = (rb, p', P') \<Longrightarrow> tailIndex p' = tailIndex p"
    by (auto simp: explicit_dequeue_bulk_def Let_def simp del: bulk_blocks.simps split: if_splits prod.splits)
qed

text \<open>The tail of an explicit producer is at most the number of elements the queue has accepted.\<close>

primrec tail_le :: "nat \<Rightarrow> subqueue \<Rightarrow> bool" where
  "tail_le n (Explicit p) \<longleftrightarrow> tailIndex p \<le> n"
| "tail_le n (Implicit p) \<longleftrightarrow> True"

interpretation tail_inv: sub_invariant malloc_ok tr tail_le "TYPE('a pool)"
proof
  fix ex :: bool and P P' :: "'a pool" and s
  show "create_producer malloc_ok tr ex P = (Some s, P') \<Longrightarrow> tail_le 0 s"
    by (auto simp: create_producer_def split: prod.splits if_splits dest: explicit_tails(1))
next
  fix n m s
  show "tail_le n s \<Longrightarrow> n \<le> m \<Longrightarrow> tail_le m s" by (cases s) auto
next
  fix n s md th x r s' and P P' :: "'a pool"
  show "tail_le n s \<Longrightarrow> sub_enqueue malloc_ok tr md th x s P = (r, s', P') \<Longrightarrow> tail_le (if r = Inr True then Suc n else n) s'"
    by (cases s) (auto split: prod.splits if_splits dest!: explicit_tails(2))
next
  fix n s md items r s' and P P' :: "'a pool"
  show "tail_le n s \<Longrightarrow> sub_enqueue_bulk malloc_ok tr md items s P = (r, s', P') \<Longrightarrow> tail_le (if r = Inr True then n + length items else n) s'"
    by (cases s) (auto split: prod.splits if_splits dest!: explicit_tails(3))
next
  fix n s rd s' and P P' :: "'a pool"
  show "tail_le n s \<Longrightarrow> sub_dequeue tr s P = (rd, s', P') \<Longrightarrow> tail_le n s'"
    by (cases s) (auto split: prod.splits dest!: explicit_tails(4))
next
  fix n s mx rb s' and P P' :: "'a pool"
  show "tail_le n s \<Longrightarrow> sub_dequeue_bulk tr mx s P = (rb, s', P') \<Longrightarrow> tail_le n s'"
    by (cases s) (auto split: prod.splits dest!: explicit_tails(5))
qed

end
