(* ===== verification/ConcurrentQueueProgress.thy ===== *)
theory ConcurrentQueueProgress
  imports ConcurrentQueueInvariants
begin

text \<open>
  The queue accepts what it is given when nothing stands in the way: each enqueue and bulk enqueue of both kinds of producers
  succeeds when there is memory and room and no constructor throws, in every state a run of the queue leads to.
\<close>

section \<open>Explicit producers\<close>

text \<open>Nothing throws when no constructor does.\<close>

lemma construct_items_none:
  "\<forall>item\<in>set items. fst item = None \<Longrightarrow> fst (construct_items tr b i items P) = None"
  by (induction items arbitrary: i P) simp_all

lemma fill_blocks_none:
  "\<forall>item\<in>set items. fst item = None \<Longrightarrow> fst (fill_blocks rounds tr newT e b i items P) = None"
proof (induction rounds arbitrary: b i items P)
  case (Suc rounds)
  let ?n = "stop_index tr newT i - i"
  have s: "set (take ?n items) \<subseteq> set items" "set (drop ?n items) \<subseteq> set items" by (rule set_take_subset, rule set_drop_subset)
  obtain th i1 P1 where c: "construct_items tr b i (take ?n items) P = (th, i1, P1)" by (metis prod_cases3)
  have "th = None" using construct_items_none [of "take ?n items" tr b i P] c s(1) Suc.prems by auto
  moreover have "\<forall>item\<in>set (drop ?n items). fst item = None" using s(2) Suc.prems by blast
  ultimately show ?case using c Suc.IH by (simp add: Let_def)
qed simp

lemma requisition_can:
  assumes "\<And>n. mo n"
  obtains b P' where "requisition_block mo tr CanAlloc P = (Some b, P')"
proof -
  have "fst (requisition_block mo tr CanAlloc P) \<noteq> None"
    using assms by (auto simp: requisition_block_def create_block_def malloc_def split: prod.split option.split)
  then show thesis using that by (cases "requisition_block mo tr CanAlloc P") auto
qed

text \<open>With memory and room, the loop that takes blocks from the pool gets all it needs.\<close>

lemma new_block_index_can:
  assumes "\<And>n. mo n"
  obtains p' P' where "new_block_index mo k p P = (True, p', P')" "headIndex p' = headIndex p"
proof -
  have "fst (new_block_index mo k p P) \<and> headIndex (fst (snd (new_block_index mo k p P))) = headIndex p"
    using assms by (simp add: new_block_index_def malloc_def Let_def)
  then show thesis using that by (cases "new_block_index mo k p P") auto
qed

lemma ring_insert_head: "ring_insert b p P = (p', P') \<Longrightarrow> headIndex p' = headIndex p"
  by (auto simp: ring_insert_def split: option.splits)

lemma take_from_pool_succeeds:
  assumes "\<And>n. mo n"
  shows "(\<And>k. k < blocks \<Longrightarrow> \<not> no_room tr (headIndex p) (i + k * BLOCK_SIZE tr)) \<Longrightarrow> fst (take_from_pool blocks mo tr CanAlloc u f first i p P)"
proof (induction blocks arbitrary: f first i p P)
  case (Suc blocks)
  let ?grow = "\<not> idx_raw p \<or> pr_blockIndexSlotsUsed p = pr_blockIndexSize p \<or> no_room tr (headIndex p) i"
  have room: "\<not> no_room tr (headIndex p) i" using Suc.prems [of 0] by simp
  obtain p1 P1 where g: "(if ?grow then new_block_index mo u p P else (True, p, P)) = (True, p1, P1)" "headIndex p1 = headIndex p"
    by (rule new_block_index_can [OF assms, where k = u and p = p and P = P]) (cases ?grow; simp)
  obtain b P2 where b: "requisition_block mo tr CanAlloc P1 = (Some b, P2)" using requisition_can [OF assms] .
  obtain p3 P3 where r: "ring_insert b p1 (upd_block b (set_all_empty tr explicit_context) P2) = (p3, P3)" by (metis prod.exhaust)
  let ?p = "enter_block i (p3\<lparr>pr_blockIndexSlotsUsed := pr_blockIndexSlotsUsed p3 + 1\<rparr>)"
  have h: "headIndex ?p = headIndex p" using ring_insert_head [OF r] g(2) by simp
  have "\<not> no_room tr (headIndex ?p) (i + BLOCK_SIZE tr + k * BLOCK_SIZE tr)" if "k < blocks" for k
    using Suc.prems [of "Suc k"] that h by (simp add: algebra_simps)
  note ih = Suc.IH [OF this]
  show ?case unfolding take_from_pool.simps Let_def using g(1) room b r ih by simp
qed simp

lemma new_blocks_eq:
  assumes "BLOCK_SIZE tr > 0"
  shows "started tr t + new_blocks tr t n = started tr (t + n)"
  using new_blocks_started(1) [OF assms, of t n] started_mono [of t "t + n" tr] by simp

text \<open>There is room for the new blocks when the elements of the queue and those to come are few enough.\<close>

lemma bulk_room:
  assumes B: "BLOCK_SIZE tr > 0" and "head \<le> t" and "t - head + n + 2 * BLOCK_SIZE tr < 2 ^ 63"
    and "started tr t + blocks = started tr (t + n)" and "MAX_SUBQUEUE_SIZE tr = size_max" and "k < blocks"
  shows "\<not> no_room tr head (started tr t * BLOCK_SIZE tr + k * BLOCK_SIZE tr)"
proof -
  let ?n = "started tr t" and ?i = "started tr t * BLOCK_SIZE tr + k * BLOCK_SIZE tr"
  have "started tr (t + n) > 0" using assms(4,6) by simp
  then have "t + n > 0" using B by (cases "t + n") (auto simp: started_def)
  from below_last_started [OF B this] have last: "(started tr (t + n) - 1) * BLOCK_SIZE tr < t + n" by blast
  have "?i = (?n + k) * BLOCK_SIZE tr" by (simp add: algebra_simps)
  also have "\<dots> \<le> (started tr (t + n) - 1) * BLOCK_SIZE tr" using assms(4,6) by (intro mult_le_mono1) simp
  finally have upper: "?i < t + n" using last by simp
  have "t \<le> ?n * BLOCK_SIZE tr" using below_last_started [OF B, of t] by (cases "t = 0") auto
  then have "head < ?i + BLOCK_SIZE tr" using assms(2) B by simp
  moreover have "?i + BLOCK_SIZE tr - head < 2 ^ 63" using upper assms(2,3) by simp
  ultimately show ?thesis using assms(5) by (simp add: no_room_def index_less_def)
qed

lemma explicit_bulk_succeeds:
  assumes "explicit_rep tr own xs p P" and "\<And>n. mo n" and "\<forall>item\<in>set items. fst item = None"
    and "MAX_SUBQUEUE_SIZE tr = size_max" and "length xs + length items + 2 * BLOCK_SIZE tr < 2 ^ 63"
  shows "fst (explicit_enqueue_bulk mo tr CanAlloc items p P) = Inr True"
proof -
  obtain stale W lo where rep: "ep_rep tr stale W lo xs p P"
    using assms(1) unfolding explicit_rep_def ep_queue_def by blast
  let ?t = "tailIndex p" and ?blocks = "new_blocks tr (tailIndex p) (length items)" and ?n = "started tr (tailIndex p)"
  have tidy: "tidy False stale lo ?n p" by (simp add: tidy_def)
  have B: "BLOCK_SIZE tr > 0" and c: "headIndex p \<le> ?t" "length xs = ?t - headIndex p" using rep by (simp_all add: ep_rep_def content_def)
  obtain missing first0 i p1 where ta: "take_ahead ?blocks tr None (first_new_base tr ?t) p P = (missing, first0, i, p1)" by (metis prod_cases4)
  obtain stale1 W1 lo1 m1 where
    "reserving tr False stale1 W1 lo1 ?n m1 xs first0 p1 P \<and> i = m1 * BLOCK_SIZE tr \<and> m1 + missing = ?n + ?blocks
     \<and> same_ends p p1 \<and> set (blocks_of stale1 W1 lo1 m1) = set (blocks_of stale W lo ?n) \<and> (\<forall>k<?n. W1 k = W k)"
    using take_ahead_ok [OF ep_rep_reserving [OF rep tidy] ta [unfolded new_blocks_started(2) [OF B]]] by blast
  then have m1: "i = m1 * BLOCK_SIZE tr" "m1 + missing = ?n + ?blocks" "headIndex p1 = headIndex p" "?n \<le> m1"
    unfolding same_ends_def reserving_def by blast+
  have "\<not> no_room tr (headIndex p1) (i + k * BLOCK_SIZE tr)" if "k < missing" for k
  proof -
    have i: "i + k * BLOCK_SIZE tr = ?n * BLOCK_SIZE tr + (m1 - ?n + k) * BLOCK_SIZE tr"
      using m1(1,4) by (simp flip: add_mult_distrib)
    have "m1 - ?n + k < ?blocks" using m1(2,4) that by simp
    moreover have "?t - headIndex p + length items + 2 * BLOCK_SIZE tr < 2 ^ 63" using c(2) assms(5) by simp
    ultimately show ?thesis using bulk_room [OF B c(1) _ new_blocks_eq [OF B] assms(4)] i m1(3) by simp
  qed
  from take_from_pool_succeeds [OF assms(2) this] have ok: "fst (take_from_pool missing mo tr CanAlloc (pr_blockIndexSlotsUsed p) (pr_blockIndexFront p) first0 i p1 P)" .
  obtain f' first p2 P2 where tp: "take_from_pool missing mo tr CanAlloc (pr_blockIndexSlotsUsed p) (pr_blockIndexFront p) first0 i p1 P = (True, f', first, p2, P2)"
    using ok by (cases "take_from_pool missing mo tr CanAlloc (pr_blockIndexSlotsUsed p) (pr_blockIndexFront p) first0 i p1 P") auto
  show ?thesis using fill_blocks_none [OF assms(3)] unfolding explicit_enqueue_bulk_def Let_def ta tp prod.case
    by (auto simp del: fill_blocks.simps split: prod.split option.split) (metis fst_conv option.distinct(1))+
qed


lemma head_last_room:
  assumes "headIndex p \<le> tailIndex p" and "tailIndex p - headIndex p + 2 * BLOCK_SIZE tr < 2 ^ 63" and "BLOCK_SIZE tr > 0"
    and "MAX_SUBQUEUE_SIZE tr = size_max"
  shows "\<not> no_room tr (headIndex p) (tailIndex p)"
  using assms by (simp add: no_room_def index_less_def)

lemma explicit_succeeds:
  assumes "explicit_rep tr own xs p P" and "\<And>n. mo n" and "MAX_SUBQUEUE_SIZE tr = size_max" and "length xs + 2 * BLOCK_SIZE tr < 2 ^ 63"
  shows "fst (explicit_enqueue mo tr CanAlloc None x p P) = Inr True"
proof -
  obtain stale W lo where rep: "ep_rep tr stale W lo xs p P"
    using assms(1) unfolding explicit_rep_def ep_queue_def by blast
  have B: "BLOCK_SIZE tr > 0" and c: "headIndex p \<le> tailIndex p" "length xs = tailIndex p - headIndex p"
    using rep by (simp_all add: ep_rep_def content_def)
  have room: "\<not> no_room tr (headIndex p) (tailIndex p)" using head_last_room c assms(3,4) B by metis
  have fresh: "fst (fresh_block mo tr CanAlloc p P)"
  proof -
    let ?grow = "\<not> idx_raw p \<or> pr_blockIndexSlotsUsed p = pr_blockIndexSize p"
    obtain p1 P1 where g: "(if ?grow then new_block_index mo (pr_blockIndexSlotsUsed p) p P else (True, p, P)) = (True, p1, P1)"
      by (rule new_block_index_can [OF assms(2), where k = "pr_blockIndexSlotsUsed p" and p = p and P = P]) (cases ?grow; simp)
    obtain b P2 where b: "requisition_block mo tr CanAlloc P1 = (Some b, P2)" using requisition_can [OF assms(2)] .
    obtain p3 P3 where r: "ring_insert b p1 (upd_block b (reset_empty tr explicit_context) P2) = (p3, P3)" by (metis prod.exhaust)
    show ?thesis unfolding fresh_block_def Let_def using room g b r by simp
  qed
  then have "fst (start_block mo tr CanAlloc p P)" by (simp add: start_block_def split: option.split)
  then show ?thesis by (cases "start_block mo tr CanAlloc p P") (simp add: explicit_enqueue_def)
qed

section \<open>Implicit producers\<close>

text \<open>An implicit producer whose first index was allocated never is without one.\<close>

lemma implicit_new_block_index_can:
  assumes "\<And>n. mo n"
  obtains p' P' where "implicit_new_block_index mo p P = (True, p', P')" "headIndex p' = headIndex p" "ip_raw p'"
  using assms that by (auto simp: implicit_new_block_index_def malloc_def Let_def)

lemma insert_entry_can:
  assumes "\<And>n. mo n" and "ip_raw p"
  obtains slot p' P' where "insert_block_index_entry mo CanAlloc i p P = (Some slot, p', P')" "headIndex p' = headIndex p"
proof -
  obtain p1 P1 where n: "implicit_new_block_index mo p P = (True, p1, P1)" "headIndex p1 = headIndex p"
    by (rule implicit_new_block_index_can [OF assms(1), where p = p and P = P])
  obtain key val where kv: "ip_index p ! ((ip_tail p + 1) mod capacity p) = (key, val)" by (metis prod.exhaust)
  have head: "headIndex (snd (claim_entry i r)) = headIndex r" for r by (simp add: claim_entry_def Let_def)
  let ?r = "if key = INVALID_BLOCK_BASE \<or> val = None then p else p1"
  obtain slot p2 where c: "claim_entry i ?r = (slot, p2)" by (metis prod.exhaust)
  have "\<exists>P'. insert_block_index_entry mo CanAlloc i p P = (Some slot, p2, P')"
    using c assms(2) kv n(1) by (auto simp: insert_block_index_entry_def split: if_splits)
  then show thesis using that head [of ?r] c n(2) by auto
qed

lemma raw_claim: "ip_raw (snd (claim_entry i p)) = ip_raw p"
  by (simp add: claim_entry_def Let_def)

lemma raw_set: "ip_raw (set_entry_value slot v p) = ip_raw p"
  by (simp add: set_entry_value_def)

lemma raw_rewind: "ip_raw (rewind_block_index_tail p) = ip_raw p"
  by (simp add: rewind_block_index_tail_def)

lemma raw_insert: "insert_block_index_entry mo m i p P = (r, p', P') \<Longrightarrow> ip_raw p \<Longrightarrow> ip_raw p'"
  by (auto simp: insert_block_index_entry_def implicit_new_block_index_def claim_entry_def Let_def split: prod.splits if_splits)

lemma raw_enqueue:
  assumes "implicit_enqueue mo tr m th x p P = (r, p', P')" and "ip_raw p"
  shows "ip_raw p'"
proof (cases "block_offset tr (tailIndex p) = 0 \<and> \<not> no_room tr (headIndex p) (tailIndex p)")
  case True
  obtain s p1 P1 where ins: "insert_block_index_entry mo m (tailIndex p) p P = (s, p1, P1)" by (metis prod_cases3)
  have raw: "ip_raw p1" using raw_insert [OF ins assms(2)] .
  obtain b P2 where b: "requisition_block mo tr m P1 = (b, P2)" by (metis prod.exhaust)
  show ?thesis using assms(1) True ins raw b
    by (cases s; cases b; cases "raised tr th") (auto simp: implicit_enqueue_def raw_set raw_rewind)
next
  case False
  then show ?thesis using assms by (cases "raised tr th") (auto simp: implicit_enqueue_def split: if_splits)
qed

lemma raw_release: "release_if tr e slot b p P = (p', P') \<Longrightarrow> ip_raw p' = ip_raw p"
  by (auto simp: release_if_def raw_set split: if_splits)

lemma raw_dequeue: "implicit_dequeue tr p P = (r, p', P') \<Longrightarrow> ip_raw p' = ip_raw p"
  by (auto simp: implicit_dequeue_def Let_def split: prod.splits if_splits dest!: raw_release)

lemma raw_bulk_blocks: "implicit_bulk_blocks rounds tr stop i slot p P = (r, p', P') \<Longrightarrow> ip_raw p' = ip_raw p"
proof (induction rounds arbitrary: i slot p P r)
  case (Suc rounds)
  then show ?case by (auto simp: Let_def split: prod.splits if_splits dest!: raw_release)
qed simp

lemma raw_dequeue_bulk: "implicit_dequeue_bulk tr mx p P = (r, p', P') \<Longrightarrow> ip_raw p' = ip_raw p"
  by (auto simp: implicit_dequeue_bulk_def Let_def simp del: implicit_bulk_blocks.simps split: prod.splits if_splits dest!: raw_bulk_blocks)

lemma raw_take_blocks: "take_blocks blocks mo tr m s first i p P = (ok, first', p', P') \<Longrightarrow> ip_raw p \<Longrightarrow> ip_raw p'"
proof (induction blocks arbitrary: first i p P)
  case (Suc blocks)
  obtain r p1 P1 where ins: "insert_block_index_entry mo m i p P = (r, p1, P1)" by (metis prod_cases3)
  have raw: "ip_raw p1" using raw_insert [OF ins Suc.prems(2)] .
  show ?case
  proof (cases "no_room tr (headIndex p) i \<or> r = None")
    case True
    then show ?thesis using Suc.prems ins raw by (cases r) (simp_all split: if_splits)
  next
    case False
    then obtain slot where r: "r = Some slot" "\<not> no_room tr (headIndex p) i" by blast
    obtain b P2 where b: "requisition_block mo tr m P1 = (b, P2)" by (metis prod.exhaust)
    show ?thesis
    proof (cases b)
      case None
      then show ?thesis using Suc.prems ins raw r b by (auto simp: raw_set raw_rewind)
    next
      case (Some nb)
      have "ip_raw ((set_entry_value slot (Some nb) p1)\<lparr>tailBlock := Some nb\<rparr>)" using raw by (simp add: raw_set)
      from Suc.IH [OF _ this] show ?thesis using Suc.prems(1) ins r b Some by (simp add: Let_def)
    qed
  qed
qed simp

lemma raw_undo_entries: "ip_raw (undo_entries blocks tr b i P p) = ip_raw p"
  by (induction blocks arbitrary: b i p) (simp_all add: raw_set raw_rewind split: option.split)

lemma raw_enqueue_bulk: "implicit_enqueue_bulk mo tr m items p P = (r, p', P') \<Longrightarrow> ip_raw p \<Longrightarrow> ip_raw p'"
  unfolding implicit_enqueue_bulk_def Let_def
  by (auto simp: raw_undo_entries simp del: fill_blocks.simps destroy_blocks.simps split: prod.splits if_splits option.splits dest!: raw_take_blocks)

lemma implicit_succeeds:
  assumes "implicit_rep tr own xs p P" and "\<And>n. mo n" and "ip_raw p" and "MAX_SUBQUEUE_SIZE tr = size_max"
    and "length xs + 2 * BLOCK_SIZE tr < 2 ^ 63"
  shows "fst (implicit_enqueue mo tr CanAlloc None x p P) = Inr True"
proof -
  obtain W where rep: "ip_core tr W (headIndex p) (tailIndex p) xs p P" using assms(1) unfolding implicit_rep_def ip_rep_def by blast
  have B: "BLOCK_SIZE tr > 0" and c: "headIndex p \<le> tailIndex p" "length xs = tailIndex p - headIndex p"
    using rep by (simp_all add: ip_core_def content_def)
  have room: "\<not> no_room tr (headIndex p) (tailIndex p)" using head_last_room c assms(4,5) B by metis
  obtain slot p1 P1 where ins: "insert_block_index_entry mo CanAlloc (tailIndex p) p P = (Some slot, p1, P1)"
    by (rule insert_entry_can [OF assms(2,3), where i = "tailIndex p" and P = P])
  obtain b P2 where b: "requisition_block mo tr CanAlloc P1 = (Some b, P2)" using requisition_can [OF assms(2)] .
  show ?thesis using room ins b by (simp add: implicit_enqueue_def Let_def)
qed

lemma take_blocks_succeeds:
  assumes "\<And>n. mo n"
  shows "(\<And>k. k < blocks \<Longrightarrow> \<not> no_room tr (headIndex p) (i + k * BLOCK_SIZE tr)) \<Longrightarrow> ip_raw p \<Longrightarrow>
    fst (take_blocks blocks mo tr CanAlloc s first i p P)"
proof (induction blocks arbitrary: first i p P)
  case (Suc blocks)
  have room: "\<not> no_room tr (headIndex p) i" using Suc.prems(1) [of 0] by simp
  obtain slot p1 P1 where ins: "insert_block_index_entry mo CanAlloc i p P = (Some slot, p1, P1)" "headIndex p1 = headIndex p"
    by (rule insert_entry_can [OF assms Suc.prems(2), where i = i and P = P])
  obtain b P2 where b: "requisition_block mo tr CanAlloc P1 = (Some b, P2)" using requisition_can [OF assms] .
  let ?p = "(set_entry_value slot (Some b) p1)\<lparr>tailBlock := Some b\<rparr>"
  have h: "headIndex ?p = headIndex p" "ip_raw ?p"
    using ins raw_insert [OF ins(1) Suc.prems(2)] by (simp_all add: set_entry_value_def)
  have "\<not> no_room tr (headIndex ?p) (i + BLOCK_SIZE tr + k * BLOCK_SIZE tr)" if "k < blocks" for k
    using Suc.prems(1) [of "Suc k"] that h by (simp add: algebra_simps)
  note ih = Suc.IH [OF this h(2)]
  show ?case unfolding take_blocks.simps Let_def using room by (simp only: if_False ins(1) prod.case option.case b ih)
qed simp


lemma implicit_bulk_succeeds:
  assumes "implicit_rep tr own xs p P" and "\<And>n. mo n" and "\<forall>item\<in>set items. fst item = None" and "ip_raw p"
    and "MAX_SUBQUEUE_SIZE tr = size_max" and "length xs + length items + 2 * BLOCK_SIZE tr < 2 ^ 63"
  shows "fst (implicit_enqueue_bulk mo tr CanAlloc items p P) = Inr True"
proof -
  obtain W where rep: "ip_core tr W (headIndex p) (tailIndex p) xs p P" using assms(1) unfolding implicit_rep_def ip_rep_def by blast
  let ?t = "tailIndex p" and ?blocks = "new_blocks tr (tailIndex p) (length items)" and ?n = "started tr (tailIndex p)"
  have B: "BLOCK_SIZE tr > 0" and c: "headIndex p \<le> ?t" "length xs = ?t - headIndex p" using rep by (simp_all add: ip_core_def content_def)
  have "?t - headIndex p + length items + 2 * BLOCK_SIZE tr < 2 ^ 63" using c(2) assms(6) by simp
  note room = bulk_room [OF B c(1) this new_blocks_eq [OF B] assms(5)]
  have "\<not> no_room tr (headIndex p) (first_new_base tr ?t + k * BLOCK_SIZE tr)" if "k < ?blocks" for k
    using room [OF that] new_blocks_started(2) [OF B, of ?t] by simp
  note ok = take_blocks_succeeds [where mo = mo and blocks = ?blocks and s = ?t and first = None and P = P, OF assms(2) this assms(4)]
  obtain first p2 P2 where tb: "take_blocks ?blocks mo tr CanAlloc ?t None (first_new_base tr ?t) p P = (True, first, p2, P2)"
    using ok by (cases "take_blocks ?blocks mo tr CanAlloc ?t None (first_new_base tr ?t) p P") auto
  show ?thesis using fill_blocks_none [OF assms(3)] unfolding implicit_enqueue_bulk_def Let_def tb prod.case
    by (auto simp del: fill_blocks.simps split: prod.split option.split) (metis fst_conv option.distinct(1))+
qed


section \<open>The whole queue\<close>

text \<open>When memory never runs out, every implicit producer has an index.\<close>

fun sub_made :: "subqueue \<Rightarrow> bool" where
  "sub_made (Explicit p) = True"
| "sub_made (Implicit p) = ip_raw p"

lemma sub_made_ops:
  "sub_enqueue mo tr m th x s P = (r, s', P') \<Longrightarrow> sub_made s \<Longrightarrow> sub_made s'"
  "sub_enqueue_bulk mo tr m items s P = (r, s', P') \<Longrightarrow> sub_made s \<Longrightarrow> sub_made s'"
  "sub_dequeue tr s P = (rd, s', P') \<Longrightarrow> sub_made s \<Longrightarrow> sub_made s'"
  "sub_dequeue_bulk tr mx s P = (rb, s', P') \<Longrightarrow> sub_made s \<Longrightarrow> sub_made s'"
  by (cases s; auto split: prod.splits dest: raw_enqueue raw_enqueue_bulk raw_dequeue raw_dequeue_bulk)+

lemma create_can:
  assumes "\<And>n. mo n"
  obtains s P' where "create_producer mo tr ex P = (Some s, P')" "sub_made s"
proof (cases ex)
  case True
  obtain p P1 where "ExplicitProducer mo tr (P\<lparr>mallocs := Suc (mallocs P)\<rparr>) = (p, P1)" by (metis prod.exhaust)
  then show thesis using that True assms by (simp add: create_producer_def malloc_def)
next
  case False
  obtain p P1 where p: "ImplicitProducer mo tr (P\<lparr>mallocs := Suc (mallocs P)\<rparr>) = (p, P1)" by (metis prod.exhaust)
  have "ip_raw (fst (ImplicitProducer mo tr P))" for P :: "'a pool"
    using assms by (simp add: ImplicitProducer_def implicit_new_block_index_def malloc_def Let_def)
  from this [of "P\<lparr>mallocs := Suc (mallocs P)\<rparr>"] have "ip_raw p" using p by simp
  then show thesis using that [of "Implicit p" P1] p False assms by (simp add: create_producer_def malloc_def)
qed

interpretation made_inv: sub_invariant "\<lambda>_. True" tr "\<lambda>_. sub_made" "TYPE('a pool)"
proof
  fix ex :: bool and P P' :: "'a pool" and s
  assume c: "create_producer (\<lambda>_. True) tr ex P = (Some s, P')"
  have "\<And>n. (\<lambda>_ :: nat. True) n" by simp
  from create_can [where mo = "\<lambda>_. True" and tr = tr and ex = ex and P = P, OF this] show "sub_made s" using c by (metis option.inject prod.inject)
qed (auto dest: sub_made_ops)

definition made :: "'a cqueue \<Rightarrow> bool" where
  "made q \<longleftrightarrow> all_good (\<lambda>_. sub_made) 0 q"

lemma made_any: "all_good (\<lambda>_. sub_made) n q = made q"
  by (simp add: made_def all_good_def)

lemma always: "(\<And>n. mo n) \<Longrightarrow> mo = (\<lambda>_. True)"
  by (rule ext) simp

lemma recycle_can:
  assumes "\<And>n. mo n"
  obtains i q' where "recycle_or_create_producer mo tr ex q = (Some i, q')"
proof (cases "find (\<lambda>i. inactive (producers q ! i) \<and> isExplicit (sub (producers q ! i)) = ex) (producer_list q)")
  case (Some i)
  then show thesis using that by (simp add: recycle_or_create_producer_def)
next
  case None
  obtain s P where "create_producer mo tr ex (cq_pool q) = (Some s, P)" by (rule create_can [where mo = mo, OF assms])
  then show thesis using that None by (simp add: recycle_or_create_producer_def add_producer_def)
qed

lemma fst_true: "fst x \<Longrightarrow> x = (True, snd x)"
  by (cases x) simp

lemma get_or_add_can:
  assumes "\<And>n. mo n" and "cq_rep tr q f" and "hash_rep tr q" and "INITIAL_IMPLICIT_PRODUCER_HASH_SIZE tr \<noteq> 0" and "live tid"
    and "get_or_add_implicit_producer mo tr tid q = Some (r, q')"
  shows "made q \<Longrightarrow> made q'" and "\<exists>i. r = Some i"
proof -
  show "made q \<Longrightarrow> made q'" using made_inv.get_or_add_good [where n = 0 and q = q and tr = tr and tid = tid and r = r and q' = q'] assms(6) by (simp add: made_any always [OF assms(1)])
  have ok: "hash_ok (cq_hash q)" and known: "known_ok (usable q) (producer_of q)" using assms(3,4) by (simp_all add: hash_rep_def)
  obtain h where h: "find_producer tid (cq_hash q) = Some (producer_of q tid, h)"
    using find_producer_ok [OF ok assms(5)] unfolding producer_of_def by metis
  show "\<exists>i. r = Some i"
  proof (cases "producer_of q tid")
    case (Some v)
    then obtain i where "v = Some i" using known assms(5) unfolding known_ok_def by blast
    then show ?thesis using assms(6) h Some by (auto simp: get_or_add_implicit_producer_def)
  next
    case None
    let ?n = "1 + implicitProducerHashCount h" and ?h = "h\<lparr>implicitProducerHashCount := 1 + implicitProducerHashCount h\<rparr>"
    define P where "P = snd (if ?n \<ge> length (hd (tables ?h)) div 2 then malloc mo (cq_pool q) else (True, cq_pool q))"
    have "fst (if ?n \<ge> length (hd (tables ?h)) div 2 then malloc mo (cq_pool q) else (True, cq_pool q))"
      using assms(1) by (simp add: malloc_def)
    then have P: "(if ?n \<ge> length (hd (tables ?h)) div 2 then malloc mo (cq_pool q) else (True, cq_pool q)) = (True, P)"
      unfolding P_def by (rule fst_true)
    have "resize_if_needed True ?n ?h \<noteq> None" by (simp add: resize_if_needed_def Let_def del: grow_capacity.simps)
    then obtain h2 where h2: "resize_if_needed True ?n ?h = Some h2" by blast
    obtain i q2 where r: "recycle_or_create_producer mo tr False (q\<lparr>cq_pool := P\<rparr>) = (Some i, q2)"
      by (rule recycle_can [where mo = mo and tr = tr and ex = False and q = "q\<lparr>cq_pool := P\<rparr>", OF assms(1)]) blast
    have "get_or_add_implicit_producer mo tr tid q =
      (if ?n < length (hd (tables h2)) div 2 + length (hd (tables h2)) div 4
       then map_option (\<lambda>h. (Some i, q2\<lparr>cq_hash := h\<rparr>)) (insert_producer tid (Some i) h2) else None)"
      unfolding get_or_add_implicit_producer_def Let_def h None option.case prod.case P h2 r(1) by (rule refl)
    then have "map_option (\<lambda>h. (Some i, q2\<lparr>cq_hash := h\<rparr>)) (insert_producer tid (Some i) h2) = Some (r, q')"
      using assms(6) by (simp split: if_splits)
    then show ?thesis by auto
  qed
qed

lemma cq_rep_length_le:
  assumes "cq_inv tr q ptoks ctoks trace f"
  shows "length (f i) \<le> length trace"
proof (cases "i < length (producers q)")
  case True
  from length_total [OF this, of f] show ?thesis using fifo_total(2) assms unfolding cq_inv_def by (meson le_trans)
next
  case False
  then show ?thesis using assms by (simp add: cq_inv_def cq_rep_def)
qed

text \<open>Enqueuing one element and enqueuing many, with what each needs of the producer.\<close>

lemma enqueue_at_succeeds:
  assumes "cq_inv tr q ptoks ctoks trace f" and "made q" and "\<And>n. mo n" and "MAX_SUBQUEUE_SIZE tr = size_max" and "i < length (producers q)"
    and "length trace + length xs + 2 * BLOCK_SIZE tr < 2 ^ 63"
  shows "fst (enqueue_at mo tr CanAlloc None x i q) = Inr True"
    and "fst (enqueue_bulk_at mo tr CanAlloc (map (Pair None) xs) i q) = Inr True"
proof -
  obtain owns where rep: "sub_rep tr (owns i) (f i) (sub (producers q ! i)) (cq_pool q)"
    using assms(1,5) by (fastforce simp: cq_inv_def cq_rep_def family_def)
  have len: "length (f i) + length (map (Pair None :: 'a \<Rightarrow> exn option \<times> 'a) xs) + 2 * BLOCK_SIZE tr < 2 ^ 63"
    using cq_rep_length_le [OF assms(1), of i] assms(6) by simp
  then have len1: "length (f i) + 2 * BLOCK_SIZE tr < 2 ^ 63" by simp
  have none: "\<forall>item\<in>set (map (Pair None) xs :: (exn option \<times> 'a) list). fst item = None" by simp
  have "sub_made (sub (producers q ! i))" using assms(2,5) by (simp add: made_def all_good_def)
  then have "fst (sub_enqueue mo tr CanAlloc None x (sub (producers q ! i)) (cq_pool q)) = Inr True
    \<and> fst (sub_enqueue_bulk mo tr CanAlloc (map (Pair None) xs) (sub (producers q ! i)) (cq_pool q)) = Inr True"
  proof (cases "sub (producers q ! i)")
    case (Explicit p)
    then have r: "explicit_rep tr (owns i) (f i) p (cq_pool q)" using rep by simp
    show ?thesis using explicit_succeeds [where mo = mo, OF r assms(3,4) len1, of x] explicit_bulk_succeeds [where mo = mo, OF r assms(3) none assms(4) len]
      by (auto simp: Explicit split: prod.splits)
  next
    case (Implicit p)
    then have r: "implicit_rep tr (owns i) (f i) p (cq_pool q)" "ip_raw p" using rep \<open>sub_made _\<close> by simp_all
    show ?thesis using implicit_succeeds [where mo = mo, OF r(1) assms(3) r(2) assms(4) len1, of x]
        implicit_bulk_succeeds [where mo = mo, OF r(1) assms(3) none r(2) assms(4) len]
      by (auto simp: Implicit split: prod.splits)
  qed
  then show "fst (enqueue_at mo tr CanAlloc None x i q) = Inr True"
    and "fst (enqueue_bulk_at mo tr CanAlloc (map (Pair None) xs) i q) = Inr True"
    by (auto simp: enqueue_at_def enqueue_bulk_at_def split: prod.splits)
qed

text \<open>
  (C23) The queue accepts what it is given: when memory does not run out, no constructor throws, sub-queues have no maximal size
  and fewer elements than half the range of the indices have been enqueued, every enqueue and bulk enqueue of a thread, and of
  a producer token, returns and reports success, in every state that any sequence of operations leads to.
\<close>

theorem enqueue_succeeds:
  assumes "traits_ok tr" and "BLOCK_SIZE tr < 2 ^ 63" and "MAX_SUBQUEUE_SIZE tr = size_max"
    and "\<And>n. mo n" and "cq_run mo tr q ptoks ctoks trace" and "length trace + length xs + 2 * BLOCK_SIZE tr < 2 ^ 63"
  shows "(\<forall>a i. ptoks a = Some (Some i) \<longrightarrow> fst (enqueue_token mo tr CanAlloc None i x q) = Inr True
      \<and> fst (enqueue_bulk_token mo tr CanAlloc i (map (Pair None) xs) q) = Inr True)
    \<and> (\<forall>tid. INITIAL_IMPLICIT_PRODUCER_HASH_SIZE tr \<noteq> 0 \<and> live tid \<longrightarrow>
      map_option fst (enqueue mo tr CanAlloc None tid x q) = Some (Inr True)
      \<and> map_option fst (enqueue_bulk mo tr CanAlloc tid (map (Pair None) xs) q) = Some (Inr True))"
proof -
  have len: "length trace < 2 ^ 63" using assms(6) by simp
  obtain f where inv: "cq_inv tr q ptoks ctoks trace f" using cq_run_inv [OF assms(1,2,5) len] by blast
  have m: "made q" using made_inv.run_good [where tr = tr and q = q and ptoks = ptoks and ctoks = ctoks and trace = trace] assms(5) by (simp add: made_any always [OF assms(4)])
  note ok = enqueue_at_succeeds [where mo = mo, OF _ _ assms(4,3) _ assms(6)]
  have "fst (enqueue_token mo tr CanAlloc None i x q) = Inr True
      \<and> fst (enqueue_bulk_token mo tr CanAlloc i (map (Pair None) xs) q) = Inr True" if "ptoks a = Some (Some i)" for a i
  proof -
    have "i < length (producers q)" using inv that by (auto simp: cq_inv_def tokens_ok_def)
    then show ?thesis using ok [OF inv m] by (simp add: enqueue_token_def enqueue_bulk_token_def)
  qed
  moreover have "map_option fst (enqueue mo tr CanAlloc None tid x q) = Some (Inr True)
      \<and> map_option fst (enqueue_bulk mo tr CanAlloc tid (map (Pair None) xs) q) = Some (Inr True)"
    if h: "INITIAL_IMPLICIT_PRODUCER_HASH_SIZE tr \<noteq> 0" and "live tid" for tid
  proof -
    have rep: "cq_rep tr q f" "hash_rep tr q" using inv by (simp_all add: cq_inv_def)
    obtain p q1 where g: "get_or_add_implicit_producer mo tr tid q = Some (p, q1)" "cq_inv tr q1 ptoks ctoks trace f"
      "\<And>i. p = Some i \<Longrightarrow> i < length (producers q1)"
      by (rule thread_producer_inv [OF inv \<open>live tid\<close> h, where mo = mo]) blast
    obtain i where i: "p = Some i" "made q1" using get_or_add_can [where mo = mo, OF assms(4) rep h \<open>live tid\<close> g(1)] m by blast
    show ?thesis using ok [OF g(2) i(2) g(3) [OF i(1)]] h g(1) i(1) by (simp add: enqueue_def enqueue_bulk_def)
  qed
  ultimately show ?thesis by blast
qed

theorem enqueue_succeeds_witness:
  "\<exists>q t. cq_run (\<lambda>_. True) small_traits q [100 \<mapsto> Some 0] [200 \<mapsto> t] [Sent 0 (7 :: nat)]
     \<and> fst (enqueue_bulk_token (\<lambda>_. True) small_traits CanAlloc 0 [(None, 8), (None, 9)] q) = Inr True
     \<and> map_option fst (enqueue (\<lambda>_. True) small_traits CanAlloc None 5 8 q) = Some (Inr True)"
proof -
  obtain q t where r: "cq_run (\<lambda>_. True) small_traits q [100 \<mapsto> Some 0] [200 \<mapsto> t] [Sent 0 (7 :: nat)]" by (rule demo_run)
  have s: "MAX_SUBQUEUE_SIZE small_traits = size_max" "BLOCK_SIZE small_traits \<le> 100" "INITIAL_IMPLICIT_PRODUCER_HASH_SIZE small_traits \<noteq> 0"
    by (simp_all add: small_traits_def default_traits_def MAX_SUBQUEUE_SIZE_def size_max_def)
  have len: "length [Sent 0 (7 :: nat)] + length [8, 9 :: nat] + 2 * BLOCK_SIZE small_traits < 2 ^ 63" using s(2) by simp
  have "live 5" by (simp add: live_def invalid_thread_id_def invalid_thread_id2_def)
  then have "fst (enqueue_bulk_token (\<lambda>_. True) small_traits CanAlloc 0 (map (Pair None) [8, 9]) q) = Inr True"
    "map_option fst (enqueue (\<lambda>_. True) small_traits CanAlloc None 5 8 q) = Some (Inr True)"
    using enqueue_succeeds [OF small_traits_ok(2,3) s(1) TrueI r len, of 8] s(3) by auto
  then show ?thesis using r by (intro exI conjI) simp_all
qed

end
