(* ===== verification/CQ_Destroy.thy ===== *)
theory CQ_Destroy
  imports CQ_ImplicitBulk CQ_ExplicitBulk
begin

text \<open>
  The destructors of the two kinds of producers, with what they do to the elements left in the queue and to the blocks: each
  element is destroyed once, in order, and every block is given back to the pool.  For an explicit producer this needs that no
  constructor has ever thrown.
\<close>

section \<open>Explicit producers\<close>

text \<open>The search for the block of the head in the index; going round the whole index without an end is not returning.\<close>

primrec find_half :: "nat \<Rightarrow> traits \<Rightarrow> eproducer \<Rightarrow> nat \<Rightarrow> nat option" where
  "find_half 0 tr p i = None"
| "find_half (Suc rounds) tr p i =
     (if index_less (fst (idx_entries p ! i) + BLOCK_SIZE tr) (headIndex p)
      then find_half rounds tr p ((i + 1) mod pr_blockIndexSize p)
      else Some (snd (idx_entries p ! i)))"

definition half_dequeued_block :: "traits \<Rightarrow> eproducer \<Rightarrow> nat option option" where
  "half_dequeued_block tr p =
     (if block_offset tr (headIndex p) = 0 then Some None
      else map_option Some (find_half (pr_blockIndexSize p) tr p
             ((pr_blockIndexFront p + pr_blockIndexSize p - pr_blockIndexSlotsUsed p) mod pr_blockIndexSize p)))"

definition last_valid_index :: "traits \<Rightarrow> eproducer \<Rightarrow> nat" where
  "last_valid_index tr p = (if block_offset tr (tailIndex p) = 0 then BLOCK_SIZE tr else block_offset tr (tailIndex p))"

text \<open>Destroy the elements of one block; what is destroyed is \<open>None\<close> where there is no element.\<close>

definition destroy_block :: "traits \<Rightarrow> eproducer \<Rightarrow> nat option \<Rightarrow> nat \<Rightarrow> 'a pool \<Rightarrow> 'a option list \<times> 'a pool" where
  "destroy_block tr p halfDequeuedBlock b P =
     (if is_empty tr explicit_context (heap P b) then ([], P)
      else
        let i = (if halfDequeuedBlock = Some b then block_offset tr (headIndex p) else 0);
            is = takeWhile (\<lambda>i. \<not> (tailBlock p = Some b \<and> i = last_valid_index tr p)) [i..<BLOCK_SIZE tr]
        in (map (block_at tr (heap P b)) is, upd_block b (fold (destroy_at tr) is) P))"

text \<open>The loop over the ring, from the block after \<open>b\<close> to the tail block.\<close>

primrec destroy_ring :: "nat \<Rightarrow> traits \<Rightarrow> eproducer \<Rightarrow> nat option \<Rightarrow> nat \<Rightarrow> 'a pool \<Rightarrow> ('a option list \<times> 'a pool) option" where
  "destroy_ring 0 tr p halfDequeuedBlock b P = None"
| "destroy_ring (Suc rounds) tr p halfDequeuedBlock b P =
     (let b = next_of P b in
      case destroy_block tr p halfDequeuedBlock b P of (items, P) \<Rightarrow>
        if tailBlock p = Some b then Some (items, P)
        else map_option (\<lambda>(rest, P). (items @ rest, P)) (destroy_ring rounds tr p halfDequeuedBlock b P))"

primrec free_ring :: "nat \<Rightarrow> traits \<Rightarrow> nat \<Rightarrow> nat \<Rightarrow> 'a pool \<Rightarrow> 'a pool option" where
  "free_ring 0 tr tail b P = None"
| "free_ring (Suc rounds) tr tail b P =
     (let nextBlock = next_of P b; P = add_block_to_free_list tr b P
      in if nextBlock = tail then Some P else free_ring rounds tr tail nextBlock P)"

text \<open>
  The destructor gives the elements it destroys, in order.  No ring is longer than the number of blocks there are, so that many rounds
  are enough.
\<close>

definition destroy_ExplicitProducer :: "traits \<Rightarrow> eproducer \<Rightarrow> 'a pool \<Rightarrow> ('a option list \<times> 'a pool) option" where
  "destroy_ExplicitProducer tr p P =
     (case tailBlock p of
        None \<Rightarrow> Some ([], P)
      | Some tail \<Rightarrow>
          (case half_dequeued_block tr p of
             None \<Rightarrow> None
           | Some halfDequeuedBlock \<Rightarrow>
               (case destroy_ring (fresh P) tr p halfDequeuedBlock tail P of
                  None \<Rightarrow> None
                | Some (items, P) \<Rightarrow> map_option (\<lambda>P. (items, P)) (free_ring (fresh P) tr tail tail P))))"

section \<open>Implicit producers\<close>

text \<open>The loop over the elements left, \<open>remaining\<close> of them; \<open>block\<close> is the block of the element before.\<close>

primrec destroy_items ::
  "nat \<Rightarrow> traits \<Rightarrow> nat \<Rightarrow> nat option \<Rightarrow> iproducer \<Rightarrow> 'a pool \<Rightarrow> 'a option list \<times> 'a pool" where
  "destroy_items 0 tr index block p P = ([], P)"
| "destroy_items (Suc remaining) tr index block p P =
     (let (block, P) =
            (if block_offset tr index = 0 \<or> block = None
             then (snd (ip_index p ! get_block_index_index_for_index tr index p),
                   case block of None \<Rightarrow> P | Some b \<Rightarrow> add_block_to_free_list tr b P)
             else (block, P));
          item = block_at tr (heap P (the block)) index
      in case destroy_items remaining tr (index + 1) block p (upd_block (the block) (destroy_at tr index) P) of
           (items, P) \<Rightarrow> (item # items, P))"

definition destroy_ImplicitProducer :: "traits \<Rightarrow> iproducer \<Rightarrow> 'a pool \<Rightarrow> 'a option list \<times> 'a pool" where
  "destroy_ImplicitProducer tr p P =
     (let tail = tailIndex p; index = headIndex p; forceFreeLastBlock = (index \<noteq> tail)
      in case destroy_items (tail - index) tr index None p P of (items, P) \<Rightarrow>
           (items,
            case tailBlock p of
              None \<Rightarrow> P
            | Some t \<Rightarrow> if forceFreeLastBlock \<or> block_offset tr tail \<noteq> 0 then add_block_to_free_list tr t P else P))"

section \<open>The search for the head\<close>

lemma block_split:
  assumes "BLOCK_SIZE tr > 0"
  shows "h div BLOCK_SIZE tr * BLOCK_SIZE tr + block_offset tr h = h" and "block_offset tr h < BLOCK_SIZE tr"
    and "h < Suc (h div BLOCK_SIZE tr) * BLOCK_SIZE tr"
proof -
  show "block_offset tr h < BLOCK_SIZE tr" using assms by (simp add: block_offset_def)
  show "h div BLOCK_SIZE tr * BLOCK_SIZE tr + block_offset tr h = h" by (simp add: block_offset_def)
  show "h < Suc (h div BLOCK_SIZE tr) * BLOCK_SIZE tr" using dividend_less_div_times [OF assms, of h] by simp
qed

lemma find_half_ok:
  assumes "index_ok tr W lo n p" and "BLOCK_SIZE tr > 0" and "block_offset tr (headIndex p) \<noteq> 0" and "headIndex p < 2 ^ 63"
    and "k0 = headIndex p div BLOCK_SIZE tr" and "k0 < n"
  shows "lo \<le> k \<Longrightarrow> k \<le> k0 \<Longrightarrow> k0 - k < rounds \<Longrightarrow>
    find_half rounds tr p (slot_of (pr_blockIndexSize p) (pr_blockIndexFront p) n k) = Some (W k0)"
proof (induction rounds arbitrary: k)
  case (Suc rounds)
  let ?B = "BLOCK_SIZE tr" and ?S = "pr_blockIndexSize p"
  have ix: "0 < ?S" "n - lo \<le> ?S" and entry: "idx_entries p ! slot_of ?S (pr_blockIndexFront p) n k = (k * ?B, W k)"
    using assms(1,6) Suc.prems by (auto simp: index_ok_def)
  have head: "k0 * ?B < headIndex p" "headIndex p < Suc k0 * ?B"
    using block_split [OF assms(2), of "headIndex p"] assms(3) unfolding assms(5) by linarith+
  show ?case
  proof (cases "k = k0")
    case True
    then have "\<not> index_less (k * ?B + ?B) (headIndex p)" using head(2) by (simp add: index_less_def)
    then show ?thesis using entry True by simp
  next
    case False
    then have "Suc k \<le> k0" using Suc.prems(2) by simp
    then have "Suc k * ?B \<le> k0 * ?B" by (rule mult_le_mono1)
    then have "index_less (k * ?B + ?B) (headIndex p)" using head(1) assms(4) by (simp add: index_less_def)
    moreover have "(slot_of ?S (pr_blockIndexFront p) n k + 1) mod ?S = slot_of ?S (pr_blockIndexFront p) n (Suc k)"
      using Suc.prems ix assms(6) by (intro slot_of_Suc) auto
    moreover have "find_half rounds tr p (slot_of ?S (pr_blockIndexFront p) n (Suc k)) = Some (W k0)"
      using Suc.prems False by (intro Suc.IH) auto
    ultimately show ?thesis using entry by simp
  qed
qed simp

lemma half_dequeued_ok:
  assumes "index_ok tr W lo n p" and "BLOCK_SIZE tr > 0" and "headIndex p < 2 ^ 63"
    and "n - lo = pr_blockIndexSlotsUsed p" and "lo \<le> headIndex p div BLOCK_SIZE tr"
    and "block_offset tr (headIndex p) \<noteq> 0 \<Longrightarrow> headIndex p div BLOCK_SIZE tr < n"
  shows "half_dequeued_block tr p
    = Some (if block_offset tr (headIndex p) = 0 then None else Some (W (headIndex p div BLOCK_SIZE tr)))"
proof (cases "block_offset tr (headIndex p) = 0")
  case False
  let ?S = "pr_blockIndexSize p"
  have "n - lo \<le> ?S" using assms(1) by (auto simp: index_ok_def)
  then have "headIndex p div BLOCK_SIZE tr - lo < ?S" using assms(5) assms(6) [OF False] by linarith
  from find_half_ok [OF assms(1,2) False assms(3) refl assms(6) [OF False] order_refl assms(5) this]
  show ?thesis using False assms(4) by (simp add: half_dequeued_block_def slot_of_def)
qed (simp add: half_dequeued_block_def)

section \<open>Destroying a ring\<close>

lemma takeWhile_upt: "a \<le> l \<Longrightarrow> l \<le> n \<Longrightarrow> takeWhile (\<lambda>i. i \<noteq> l) [a..<n] = [a..<l :: nat]"
proof -
  assume "a \<le> l" "l \<le> n"
  then have "[a..<n] = [a..<l] @ [l..<n]" by (metis le_add_diff_inverse upt_add_eq_append)
  moreover have "takeWhile (\<lambda>i. i \<noteq> l) [l..<n] = []" by (cases "l < n") (simp_all add: upt_conv_Cons)
  ultimately show ?thesis by (simp add: takeWhile_append)
qed

lemma touched_destroy_any:
  assumes "k \<le> b" and "b < m"
  shows "touched tr W k m 0 P (upd_block (W b) (fold (destroy_at tr) is) P)"
proof -
  have "fold (destroy_at tr) is c = c\<lparr>elements := elements (fold (destroy_at tr) is c)\<rparr>
      \<and> length (elements (fold (destroy_at tr) is c)) = length (elements c)" for c :: "'a block"
    by (induction "is" arbitrary: c) (simp_all add: destroy_at_def, metis block.surjective block.update_convs(1))
  then show ?thesis using assms by (auto simp: touched_def upd_block_def)
qed


text \<open>What is destroyed in block number \<open>k\<close>: the elements of the queue in it.\<close>

lemma destroy_block_ok:
  assumes "BLOCK_SIZE tr > 0" and "holds tr explicit_context (headIndex p) (tailIndex p) xs k (heap P (W k))"
    and "headIndex p \<le> tailIndex p" and "n = started tr (tailIndex p)" and "lo \<le> k" and "k < n"
    and "tailBlock p = Some (W (n - 1))" and "inj_on W {lo..<n}" and "lo * BLOCK_SIZE tr \<le> headIndex p"
    and "half = (if block_offset tr (headIndex p) = 0 then None else Some (W (headIndex p div BLOCK_SIZE tr)))"
    and "destroy_block tr p half (W k) P = (items, P')"
  shows "items = map (\<lambda>j. Some (xs ! (j - headIndex p)))
      [max (headIndex p) (k * BLOCK_SIZE tr)..<min (tailIndex p) (max (headIndex p) (Suc k * BLOCK_SIZE tr))]"
    and "touched tr W lo n 0 P P'"
proof -
  let ?h = "headIndex p" and ?t = "tailIndex p" and ?B = "BLOCK_SIZE tr"
  have "items = map (\<lambda>j. Some (xs ! (j - ?h))) [max ?h (k * ?B)..<min ?t (max ?h (Suc k * ?B))] \<and> touched tr W lo n 0 P P'"
  proof (cases "Suc k * ?B \<le> ?h")
    case True
    then have "k * ?B \<le> ?h" by simp
    moreover have "is_empty tr explicit_context (heap P (W k))" using holds_is_empty [OF assms(2,1)] True by simp
    then have "items = []" "P' = P" using assms(11) by (simp_all add: destroy_block_def)
    ultimately show ?thesis using True touched_refl by simp
  next
    case False
    define a where "a = max ?h (k * ?B) - k * ?B"
    define e where "e = min ?t (Suc k * ?B) - k * ?B"
    have kin: "k \<in> {lo..<n}" using assms(5,6) by simp
    have last: "(n - 1) * ?B < ?t" "?t \<le> n * ?B"
    proof -
      have "?t > 0" using assms(4,6,1) by (cases "?t") (simp_all add: started_def)
      from below_last_started [OF assms(1) this] show "(n - 1) * ?B < ?t" "?t \<le> n * ?B" using assms(4) by simp_all
    qed
    have kt: "k * ?B < ?t" using last(1) assms(6) mult_le_mono1 [of k "n - 1" ?B] by linarith
    have start: "(if half = Some (W k) then block_offset tr ?h else 0) = a"
    proof (cases "block_offset tr ?h = 0")
      case True
      then have h: "?h div ?B * ?B = ?h" using block_split(1) [OF assms(1), of ?h] by simp
      have "?h div ?B < Suc k" using False h assms(1) by (metis linorder_not_le mult_le_mono1)
      then have "?h \<le> k * ?B" using h mult_le_mono1 [of "?h div ?B" k ?B] by simp
      then show ?thesis using True assms(10) by (simp add: a_def max_def)
    next
      case off: False
      let ?k0 = "?h div ?B"
      have k0: "?k0 * ?B < ?h" "?h < Suc ?k0 * ?B" "?h - ?k0 * ?B = block_offset tr ?h"
        using block_split [OF assms(1), of ?h] off by linarith+
      have "?k0 < n"
      proof (cases "?h = ?t")
        case True
        then show ?thesis using started_inside(1) [OF assms(1), of ?t] off assms(4) by (simp add: block_offset_def)
      next
        case False
        then show ?thesis using below_started [OF assms(1), of ?h ?t] assms(3,4) by simp
      qed
      moreover have "lo \<le> ?k0" using assms(1,9) by (simp add: less_eq_div_iff_mult_less_eq)
      ultimately have "W k = W ?k0 \<longleftrightarrow> k = ?k0" using inj_onD [OF assms(8), of k ?k0] kin by auto
      moreover have "k \<noteq> ?k0 \<Longrightarrow> ?h \<le> k * ?B"
      proof -
        assume "k \<noteq> ?k0"
        moreover have "?k0 < Suc k"
        proof (rule ccontr)
          assume "\<not> ?k0 < Suc k"
          then have "Suc k * ?B \<le> ?k0 * ?B" by (intro mult_le_mono1) simp
          then show False using False k0(1) by simp
        qed
        ultimately have "Suc ?k0 * ?B \<le> k * ?B" by (intro mult_le_mono1) simp
        then show ?thesis using k0(2) by simp
      qed
      ultimately show ?thesis using off assms(10) k0 by (auto simp: a_def max_def)
    qed
    have "takeWhile (\<lambda>i. \<not> (tailBlock p = Some (W k) \<and> i = last_valid_index tr p)) [a..<?B] = [a..<e]"
    proof (cases "k = n - 1")
      case True
      have valid: "last_valid_index tr p = e"
      proof (cases "block_offset tr ?t = 0")
        case True
        then have "n * ?B = ?t" using started_boundary [OF assms(1)] assms(4) by (simp add: block_offset_def)
        then show ?thesis using True \<open>k = n - 1\<close> assms(6) by (cases n) (simp_all add: last_valid_index_def e_def)
      next
        case False
        then have "n = Suc (?t div ?B)" using tail_block_number(2) [OF assms(1)] assms(4) by simp
        then show ?thesis using False \<open>k = n - 1\<close> last(2) block_split(1) [OF assms(1), of ?t] by (simp add: last_valid_index_def e_def min_def)
      qed
      have "a \<le> e" "e \<le> ?B" using assms(3) kt False by (auto simp: a_def e_def max_def min_def)
      from takeWhile_upt [OF this] show ?thesis using True assms(7) valid by simp
    next
      case False
      moreover have "n - 1 \<in> {lo..<n}" using assms(5,6) by simp
      ultimately have "W k \<noteq> W (n - 1)" using inj_onD [OF assms(8), of k "n - 1"] kin by blast
      moreover have "Suc k * ?B \<le> (n - 1) * ?B" using False assms(6) by (intro mult_le_mono1) simp
      then have "e = ?B" using last(1) by (simp add: e_def)
      moreover have "takeWhile (\<lambda>_. True) is = is" for "is" :: "nat list" by (simp add: takeWhile_eq_all_conv)
      ultimately show ?thesis using assms(7) by simp
    qed
    then have res: "items = map (block_at tr (heap P (W k))) [a..<e]" "P' = upd_block (W k) (fold (destroy_at tr) [a..<e]) P"
      using assms(11) holds_is_empty [OF assms(2,1)] False start by (auto simp: destroy_block_def Let_def)
    have "items = map (\<lambda>j. Some (xs ! (k * ?B + j - ?h))) [a..<e]"
      unfolding res(1)
    proof (rule map_cong [OF refl])
      fix j assume "j \<in> set [a..<e]"
      then have "j < ?B" "?h \<le> k * ?B + j" "k * ?B + j < ?t" by (auto simp: a_def e_def)
      then show "block_at tr (heap P (W k)) j = Some (xs ! (k * ?B + j - ?h))"
        using assms(2) by (simp add: holds_def block_at_def block_offset_def)
    qed
    also have "\<dots> = map (\<lambda>j. Some (xs ! (j - ?h))) (map (\<lambda>j. j + k * ?B) [a..<e])" by (simp add: add.commute)
    also have "map (\<lambda>j. j + k * ?B) [a..<e] = [a + k * ?B..<e + k * ?B]" by (rule nth_equalityI) simp_all
    also have "a + k * ?B = max ?h (k * ?B)" by (simp add: a_def)
    also have "e + k * ?B = min ?t (max ?h (Suc k * ?B))" using False kt by (auto simp: e_def min_def max_def)
    finally show ?thesis unfolding res(2) using touched_destroy_any [OF assms(5,6)] by simp
  qed
  then show "items = map (\<lambda>j. Some (xs ! (j - ?h))) [max ?h (k * ?B)..<min ?t (max ?h (Suc k * ?B))]" and "touched tr W lo n 0 P P'" by simp_all
qed


lemma destroy_ring_ok:
  assumes "BLOCK_SIZE tr > 0" and "headIndex p \<le> tailIndex p" and "n = started tr (tailIndex p)"
    and "tailBlock p = Some (W (n - 1))" and "inj_on W {lo..<n}" and "lo * BLOCK_SIZE tr \<le> headIndex p"
    and "half = (if block_offset tr (headIndex p) = 0 then None else Some (W (headIndex p div BLOCK_SIZE tr)))"
  shows "lo \<le> k \<Longrightarrow> k < n \<Longrightarrow> n - k \<le> rounds \<Longrightarrow> next_of P b = W k \<Longrightarrow> linked W k n P \<Longrightarrow>
    (\<And>i. k \<le> i \<Longrightarrow> i < n \<Longrightarrow> holds tr explicit_context (headIndex p) (tailIndex p) xs i (heap P (W i))) \<Longrightarrow>
    \<exists>P'. destroy_ring rounds tr p half b P
        = Some (map (\<lambda>j. Some (xs ! (j - headIndex p))) [max (headIndex p) (k * BLOCK_SIZE tr)..<tailIndex p], P')
      \<and> touched tr W lo n 0 P P'"
proof (induction rounds arbitrary: k b P)
  case (Suc rounds)
  let ?h = "headIndex p" and ?t = "tailIndex p" and ?B = "BLOCK_SIZE tr" and ?item = "\<lambda>j. Some (xs ! (j - headIndex p))"
  obtain items P1 where d: "destroy_block tr p half (W k) P = (items, P1)" by (metis prod.exhaust)
  note db = destroy_block_ok [OF assms(1) Suc.prems(6) [OF order_refl Suc.prems(2)] assms(2,3) Suc.prems(1,2) assms(4-7) d]
  have "?t > 0" using assms(3,1) Suc.prems(2) by (cases "?t") (simp_all add: started_def)
  from below_last_started [OF assms(1) this] have last: "(n - 1) * ?B < ?t" "?t \<le> n * ?B" using assms(3) by simp_all
  show ?case
  proof (cases "k = n - 1")
    case True
    then have "min ?t (max ?h (Suc k * ?B)) = ?t" using last(2) Suc.prems(2) assms(2) by (cases n) (simp_all add: min_def max_def)
    then show ?thesis using True d db assms(4) Suc.prems(4) by simp
  next
    case False
    then have k: "Suc k < n" using Suc.prems(2) by simp
    then have "n - 1 \<in> {lo..<n}" "k \<in> {lo..<n}" "k \<noteq> n - 1" using Suc.prems(1) by simp_all
    then have ne: "W k \<noteq> W (n - 1)" using inj_onD [OF assms(5), of k "n - 1"] by blast
    have "next_of P (W k) = W (Suc k)" using Suc.prems(5) k by (simp add: linked_def next_of_def)
    then have nx: "next_of P1 (W k) = W (Suc k)" by (simp add: next_of_def touched_next [OF db(2)])
    have link: "linked W (Suc k) n P1" using Suc.prems(5) by (simp add: linked_touched [OF db(2)]) (simp add: linked_def)
    have same: "heap P1 (W i) = heap P (W i)" if "Suc k \<le> i" "i < n" for i
    proof -
      have "W i \<noteq> W k" using inj_onD [OF assms(5), of i k] that Suc.prems(1,2) by auto
      then show ?thesis using d by (auto simp: destroy_block_def Let_def split: if_splits)
    qed
    have "\<exists>P'. destroy_ring rounds tr p half (W k) P1 = Some (map ?item [max ?h (Suc k * ?B)..<?t], P') \<and> touched tr W lo n 0 P1 P'"
      using Suc.prems(1,3,6) k same by (intro Suc.IH [OF _ k _ nx link]) simp_all
    then obtain P' where rec: "destroy_ring rounds tr p half (W k) P1 = Some (map ?item [max ?h (Suc k * ?B)..<?t], P')" "touched tr W lo n 0 P1 P'" by blast
    have "Suc k * ?B \<le> (n - 1) * ?B" using k by (intro mult_le_mono1) simp
    then have le: "max ?h (Suc k * ?B) \<le> ?t" using last(1) assms(2) by simp
    then have "[max ?h (k * ?B)..<?t] = [max ?h (k * ?B)..<max ?h (Suc k * ?B)] @ [max ?h (Suc k * ?B)..<?t]"
      by (metis add.commute le_add2 le_add_diff_inverse max.mono mult_Suc order_refl upt_add_eq_append)
    then have "destroy_ring (Suc rounds) tr p half b P = Some (map ?item [max ?h (k * ?B)..<?t], P')"
      using Suc.prems(4) d db(1) rec(1) ne assms(4) le by (simp add: min_def)
    then show ?thesis using touched_trans [OF db(2) rec(2)] by blast
  qed
qed simp


section \<open>Giving the blocks of a ring back\<close>

lemma free_ring_ok:
  assumes "t \<notin> set (tl cs)"
  shows "cs \<noteq> [] \<Longrightarrow> length cs \<le> rounds \<Longrightarrow> distinct cs \<Longrightarrow> set cs \<subseteq> in_use P \<Longrightarrow> pool_ok tr P \<Longrightarrow> t \<notin> set (tl cs) \<Longrightarrow>
    (\<And>i. Suc i < length cs \<Longrightarrow> next_of P (cs ! i) = cs ! Suc i) \<Longrightarrow> next_of P (last cs) = t \<Longrightarrow>
    \<exists>P'. free_ring rounds tr t (hd cs) P = Some P' \<and> pool_ok tr P' \<and> heap P' = heap P \<and> in_use P' = in_use P - set cs"
proof (induction rounds arbitrary: cs P)
  case (Suc rounds)
  then obtain b bs where cs: "cs = b # bs" by (cases cs) simp_all
  let ?P = "add_block_to_free_list tr b P"
  have "b \<in> in_use P" using Suc.prems(4) cs by simp
  note ab = add_block_ok [OF Suc.prems(5) this]
  have next_eq: "next_of ?P c = next_of P c" for c by (simp add: next_of_def ab(3))
  show ?case
  proof (cases bs)
    case Nil
    then show ?thesis using Suc.prems(8) cs ab by (simp add: Let_def)
  next
    case (Cons b' bs')
    have nx: "next_of P b = b'" using Suc.prems(7) [of 0] cs Cons by simp
    then have "b' \<noteq> t" using Suc.prems(6) cs Cons by auto
    have chain: "next_of ?P (bs ! i) = bs ! Suc i" if "Suc i < length bs" for i
      using Suc.prems(7) [of "Suc i"] that cs by (simp add: next_eq)
    have "\<exists>P'. free_ring rounds tr t (hd bs) ?P = Some P' \<and> pool_ok tr P' \<and> heap P' = heap ?P \<and> in_use P' = in_use ?P - set bs"
      using Suc.prems cs Cons ab(1,2) by (intro Suc.IH chain) (auto simp: next_eq)
    then obtain P' where "free_ring rounds tr t b' ?P = Some P'" "pool_ok tr P'" "heap P' = heap P" "in_use P' = in_use P - set cs"
      using ab(2,3) cs Cons by auto
    then show ?thesis using nx \<open>b' \<noteq> t\<close> cs by (simp add: Let_def)
  qed
qed simp

lemma ring_nth_next: "ring P bs \<Longrightarrow> i < length bs \<Longrightarrow> next_of P (bs ! i) = bs ! (Suc i mod length bs)"
  by (simp add: ring_def next_of_def)

lemma free_whole_ring:
  assumes "ring P (bs @ [t])" and "set (bs @ [t]) \<subseteq> in_use P" and "pool_ok tr P"
  shows "\<exists>P'. free_ring (fresh P) tr t t P = Some P' \<and> pool_ok tr P' \<and> heap P' = heap P \<and> in_use P' = in_use P - set (bs @ [t])"
proof -
  have ring: "ring P (t # bs)" using assms(1) by (simp only: ring_rotate)
  have d: "distinct (t # bs)" using ring by (simp add: ring_def)
  have "set (t # bs) \<subseteq> {..<fresh P}" using assms(2) by (auto simp: in_use_def)
  from card_mono [OF _ this] have len: "length (t # bs) \<le> fresh P" using distinct_card [OF d] by simp
  have "next_of P ((t # bs) ! i) = (t # bs) ! Suc i" if "Suc i < length (t # bs)" for i
    using ring_nth_next [OF ring, of i] that by simp
  moreover have "next_of P (last (t # bs)) = t" using ring_next_last [OF ring] by (simp add: next_of_def)
  ultimately show ?thesis using free_ring_ok [of t "t # bs" "fresh P" P tr] d len assms(2,3) by auto
qed

section \<open>The destructor of an explicit producer\<close>

lemma linked_ring: "ring P (blocks_of stale W lo m) \<Longrightarrow> linked W lo m P"
  using ring_chain [of P stale W lo m] by (simp add: linked_def)

lemma destroy_explicit_ok:
  assumes "ep_queue tr True own xs p P" and "headIndex p < 2 ^ 63"
  shows "\<exists>P'. destroy_ExplicitProducer tr p P = Some (map Some xs, P') \<and> pool_ok tr P' \<and> frame_step own P {} P'"
proof -
  obtain W lo where rep: "ep_rep tr [] W lo xs p P" and slots: "started tr (tailIndex p) - lo = pr_blockIndexSlotsUsed p"
    and own: "own = set (blocks_of [] W lo (started tr (tailIndex p)))"
    using assms(1) unfolding ep_queue_def tidy_def by auto
  let ?n = "started tr (tailIndex p)" and ?h = "headIndex p" and ?t = "tailIndex p" and ?B = "BLOCK_SIZE tr"
  have e: "?B > 0" "pool_ok tr P" "index_ok tr W lo ?n p" "ring P (map W [lo..<?n])" "set (map W [lo..<?n]) \<subseteq> in_use P"
    "tailBlock p = (if map W [lo..<?n] = [] then None else Some (last (map W [lo..<?n])))"
    "lo * ?B \<le> ?h" "?h \<le> ?t" "length xs = ?t - ?h"
    "\<And>k. lo \<le> k \<Longrightarrow> k < ?n \<Longrightarrow> holds tr explicit_context ?h ?t xs k (heap P (W k))"
    using rep by (simp_all add: ep_rep_def ring_ok_def blocks_of_def content_def)
  have own: "own = W ` {lo..<?n}" by (simp add: own blocks_of_def)
  have lo0: "lo \<le> ?h div ?B" using e(1,7) by (simp add: less_eq_div_iff_mult_less_eq)
  show ?thesis
  proof (cases "lo < ?n")
    case False
    then have tb: "tailBlock p = None" "own = {}" using e(6) own by simp_all
    have "?t \<le> ?h"
    proof (rule ccontr)
      assume "\<not> ?t \<le> ?h"
      then have "?h div ?B < ?n" by (intro below_started [OF e(1)]) simp
      then show False using lo0 False by simp
    qed
    then have "xs = []" using e(9) by simp
    then show ?thesis using tb e(2) frame_step_refl [of "{}" P] by (simp add: destroy_ExplicitProducer_def)
  next
    case True
    then have last: "map W [lo..<?n] = map W [lo..<?n - 1] @ [W (?n - 1)]"
      using upt_Suc_append [of lo "?n - 1"] by simp
    then have tb: "tailBlock p = Some (W (?n - 1))" using e(6) by simp
    have inj: "inj_on W {lo..<?n}" using e(4) by (simp add: ring_def distinct_map)
    have hn: "?h div ?B < ?n" if "block_offset tr ?h \<noteq> 0"
    proof (cases "?h = ?t")
      case True
      then show ?thesis using tail_block_number(2) [OF e(1), of ?t] that by simp
    qed (use below_started [OF e(1), of ?h ?t] e(8) in simp)
    define half where "half = (if block_offset tr ?h = 0 then None else Some (W (?h div ?B)))"
    have half: "half_dequeued_block tr p = Some half"
      unfolding half_def by (rule half_dequeued_ok [OF e(3,1) assms(2) slots lo0 hn])
    have ne: "map W [lo..<?n] \<noteq> []" using True by simp
    have "last (map W [lo..<?n]) = W (?n - 1)" "hd (map W [lo..<?n]) = W lo" using True by (simp_all add: last_map hd_map)
    then have "next_of P (W (?n - 1)) = W lo" using ring_next_last [OF e(4) ne] by (simp add: next_of_def)
    moreover have "?n - lo \<le> fresh P"
    proof -
      have "card (W ` {lo..<?n}) \<le> card {..<fresh P}" using e(5) by (intro card_mono) (auto simp: in_use_def)
      then show ?thesis using card_image [OF inj] by simp
    qed
    moreover have "linked W lo ?n P" using linked_ring [of P "[]" W lo ?n] e(4) by (simp add: blocks_of_def)
    ultimately obtain P1 where d: "destroy_ring (fresh P) tr p half (W (?n - 1)) P
        = Some (map (\<lambda>j. Some (xs ! (j - ?h))) [max ?h (lo * ?B)..<?t], P1)" "touched tr W lo ?n 0 P P1"
      using destroy_ring_ok [OF e(1,8) refl tb inj e(7) half_def order_refl True, of "fresh P" P "W (?n - 1)" xs] e(10) by auto
    have "map (\<lambda>j. Some (xs ! (j - ?h))) [max ?h (lo * ?B)..<?t] = map Some xs"
      using e(7,9) by (auto simp: max_def list_eq_iff_nth_eq)
    note d = d(1) [unfolded this] d(2)
    note P1 = touched_pool [OF d(2)]
    have fr: "fresh P1 = fresh P" using d(2) unfolding touched_def by (metis pool.select_convs(2) pool.surjective pool.update_convs(1))
    have "ring P1 (map W [lo..<?n - 1] @ [W (?n - 1)])" unfolding last [symmetric]
      by (rule ring_cong [OF e(4)]) (simp add: touched_next [OF d(2)])
    moreover have "set (map W [lo..<?n - 1] @ [W (?n - 1)]) \<subseteq> in_use P1" unfolding last [symmetric] P1(2) by (rule e(5))
    moreover have "pool_ok tr P1" using P1(1) e(2) by simp
    ultimately obtain P2 where f: "free_ring (fresh P1) tr (W (?n - 1)) (W (?n - 1)) P1 = Some P2" "pool_ok tr P2" "heap P2 = heap P1"
        "in_use P2 = in_use P1 - set (map W [lo..<?n - 1] @ [W (?n - 1)])"
      using free_whole_ring by blast
    have "in_use P2 = in_use P - own" using f(4) P1(2) own unfolding last [symmetric] by simp
    moreover have "same_blocks (in_use P - own) P P2" using P1(3) f(3) own by (auto simp: same_blocks_def)
    moreover have "own \<subseteq> in_use P" using e(5) own by simp
    ultimately have "frame_step own P {} P2" by (simp add: frame_step_def)
    then show ?thesis using tb half d(1) f(1,2) fr by (simp add: destroy_ExplicitProducer_def)
  qed
qed


section \<open>The destructor of an implicit producer\<close>

text \<open>The block the loop is in when it gets to element \<open>i\<close>, \<open>h\<close> being the first.\<close>

definition current_block :: "traits \<Rightarrow> nat \<Rightarrow> nat \<Rightarrow> nat" where
  "current_block tr h i = (if i = h then h div BLOCK_SIZE tr else (i - 1) div BLOCK_SIZE tr)"

lemma current_Suc:
  assumes "BLOCK_SIZE tr > 0" and "h \<le> i"
  shows "current_block tr h (Suc i) = i div BLOCK_SIZE tr"
    and "i \<noteq> h \<Longrightarrow> block_offset tr i \<noteq> 0 \<Longrightarrow> current_block tr h i = i div BLOCK_SIZE tr"
    and "i \<noteq> h \<Longrightarrow> block_offset tr i = 0 \<Longrightarrow> i div BLOCK_SIZE tr = Suc (current_block tr h i)"
proof -
  show "current_block tr h (Suc i) = i div BLOCK_SIZE tr" using assms(2) by (simp add: current_block_def)
  have "i \<noteq> h \<Longrightarrow> i = Suc (i - 1)" using assms(2) by simp
  then have "i \<noteq> h \<Longrightarrow> i div BLOCK_SIZE tr = (if block_offset tr i = 0 then Suc ((i - 1) div BLOCK_SIZE tr) else (i - 1) div BLOCK_SIZE tr)"
    unfolding block_offset_def by (metis div_Suc mod_Suc nat.simps(3))
  then show "i \<noteq> h \<Longrightarrow> block_offset tr i \<noteq> 0 \<Longrightarrow> current_block tr h i = i div BLOCK_SIZE tr"
    and "i \<noteq> h \<Longrightarrow> block_offset tr i = 0 \<Longrightarrow> i div BLOCK_SIZE tr = Suc (current_block tr h i)"
    by (simp_all add: current_block_def)
qed

lemma block_at_other:
  assumes "inj_on W A" and "i div BLOCK_SIZE tr \<in> A" and "j div BLOCK_SIZE tr \<in> A" and "i \<noteq> j"
  shows "block_at tr (heap (upd_block (W (i div BLOCK_SIZE tr)) (destroy_at tr i) P) (W (j div BLOCK_SIZE tr))) j
    = block_at tr (heap P (W (j div BLOCK_SIZE tr))) j"
proof (cases "i div BLOCK_SIZE tr = j div BLOCK_SIZE tr")
  case True
  then have "block_offset tr i \<noteq> block_offset tr j" using assms(4) unfolding block_offset_def by (metis div_mult_mod_eq)
  then show ?thesis using True by (simp add: block_at_def destroy_at_def)
next
  case False
  then have "W (i div BLOCK_SIZE tr) \<noteq> W (j div BLOCK_SIZE tr)" using assms(1-3) by (auto dest: inj_onD)
  then show ?thesis by simp
qed

lemma destroy_items_ok:
  fixes P :: "'a pool"
  assumes "iindex_ok tr W lo n p" and "BLOCK_SIZE tr > 0" and "inj_on W {lo..<n}" and "lo = h div BLOCK_SIZE tr" and "n = started tr t"
    and "length xs = t - h"
  shows "h \<le> i \<Longrightarrow> i + remaining = t \<Longrightarrow> block = (if i = h then None else Some (W (current_block tr h i))) \<Longrightarrow> pool_ok tr P \<Longrightarrow>
    W ` {current_block tr h i..<n} \<subseteq> in_use P \<Longrightarrow>
    (\<And>j. i \<le> j \<Longrightarrow> j < t \<Longrightarrow> block_at tr (heap P (W (j div BLOCK_SIZE tr))) j = Some (xs ! (j - h))) \<Longrightarrow>
    \<exists>P'. destroy_items remaining tr i block p P = (map Some (drop (i - h) xs), P') \<and> pool_ok tr P'
      \<and> in_use P' = in_use P - W ` {current_block tr h i..<current_block tr h t} \<and> (\<forall>c. c \<notin> W ` {lo..<n} \<longrightarrow> heap P' c = heap P c)"
proof (induction remaining arbitrary: i block P)
  case 0
  then show ?case using assms(6) by simp
next
  case (Suc remaining)
  let ?B = "BLOCK_SIZE tr" and ?k = "i div BLOCK_SIZE tr" and ?c = "current_block tr h i"
  have it: "i < t" using Suc.prems(2) by simp
  have kn: "?k < n" unfolding assms(5) by (rule below_started [OF assms(2) it])
  have lok: "lo \<le> ?k" unfolding assms(4) using Suc.prems(1) by (rule div_le_mono)
  note cs = current_Suc [OF assms(2) Suc.prems(1)]
  have clo: "lo \<le> ?c" using Suc.prems(1) by (auto simp: current_block_def assms(4) intro: div_le_mono)
  have ck: "?c \<le> ?k" using Suc.prems(1) by (auto simp: current_block_def intro: div_le_mono)
  have kt: "?k \<le> current_block tr h t" using it Suc.prems(1) by (auto simp: current_block_def intro: div_le_mono)
  have entry: "snd (ip_index p ! get_block_index_index_for_index tr i p) = Some (W ?k)"
  proof -
    have "ip_raw p" using assms(1) lok kn by (auto simp: iindex_ok_def split: if_splits)
    then have "ip_index p ! slot_of (capacity p) (Suc (ip_tail p) mod capacity p) n ?k = (?k * ?B, Some (W ?k))"
      using assms(1) lok kn by (simp add: iindex_ok_def)
    then show ?thesis using get_slot_ok [OF assms(1,2) lok kn] by simp
  qed
  define P1 where "P1 = (if i \<noteq> h \<and> block_offset tr i = 0 then add_block_to_free_list tr (W ?c) P else P)"
  let ?P2 = "upd_block (W ?k) (destroy_at tr i) P1"
  have "W ?c \<in> in_use P" using Suc.prems(5) ck kn by auto
  note ab = add_block_ok [OF Suc.prems(4) this]
  have P1: "pool_ok tr P1" "heap P1 = heap P" using ab Suc.prems(4) by (simp_all add: P1_def)
  have use: "in_use P1 = in_use P - W ` {?c..<?k}"
  proof (cases "i \<noteq> h \<and> block_offset tr i = 0")
    case True
    then have "{?c..<?k} = {?c}" using cs(3) by auto
    then show ?thesis using True ab(2) by (simp add: P1_def)
  next
    case False
    then have "?c = ?k" using cs(2) by (auto simp: current_block_def)
    moreover from False have "P1 = P" by (auto simp: P1_def)
    ultimately show ?thesis by simp
  qed
  have P2: "pool_ok tr ?P2" "in_use ?P2 = in_use P1"
    using upd_block_ok [OF P1(1), of "destroy_at tr i" "W ?k"] pool_block_length [OF P1(1)] by (simp_all add: destroy_at_def)
  have block: "(if block_offset tr i = 0 \<or> block = None
      then (snd (ip_index p ! get_block_index_index_for_index tr i p), case block of None \<Rightarrow> P | Some b \<Rightarrow> add_block_to_free_list tr b P)
      else (block, P)) = (Some (W ?k), P1)"
    using Suc.prems(3) entry cs(2) by (auto simp: P1_def)
  have sub: "W ` {current_block tr h (Suc i)..<n} \<subseteq> in_use ?P2"
  proof
    fix b assume "b \<in> W ` {current_block tr h (Suc i)..<n}"
    then obtain k' where k': "?k \<le> k'" "k' < n" "b = W k'" using cs(1) by auto
    then have "W k' \<in> in_use P" using Suc.prems(5) ck by auto
    moreover have "W k' \<notin> W ` {?c..<?k}"
    proof
      assume "W k' \<in> W ` {?c..<?k}"
      then obtain k'' where "?c \<le> k''" "k'' < ?k" "W k' = W k''" by auto
      then show False using inj_onD [OF assms(3), of k' k''] k' clo lok kn by simp
    qed
    ultimately show "b \<in> in_use ?P2" using P2(2) use k'(3) by simp
  qed
  have at: "block_at tr (heap ?P2 (W (j div ?B))) j = Some (xs ! (j - h))" if j: "Suc i \<le> j" "j < t" for j
  proof -
    have "j div ?B < n" unfolding assms(5) by (rule below_started [OF assms(2) j(2)])
    moreover have "?k \<le> j div ?B" using j(1) by (intro div_le_mono) simp
    ultimately have "block_at tr (heap ?P2 (W (j div ?B))) j = block_at tr (heap P1 (W (j div ?B))) j"
      using lok kn j(1) by (intro block_at_other [OF assms(3)]) simp_all
    then show ?thesis using Suc.prems(6) [of j] j P1(2) by simp
  qed
  have bl: "Some (W ?k) = (if Suc i = h then None else Some (W (current_block tr h (Suc i))))" using Suc.prems(1) cs(1) by simp
  have "\<exists>P'. destroy_items remaining tr (Suc i) (Some (W ?k)) p ?P2 = (map Some (drop (Suc i - h) xs), P') \<and> pool_ok tr P'
      \<and> in_use P' = in_use ?P2 - W ` {current_block tr h (Suc i)..<current_block tr h t} \<and> (\<forall>c. c \<notin> W ` {lo..<n} \<longrightarrow> heap P' c = heap ?P2 c)"
    by (rule Suc.IH [OF _ _ bl P2(1) sub at]) (use Suc.prems(1,2) in simp_all)
  then obtain P' where P': "destroy_items remaining tr (Suc i) (Some (W ?k)) p ?P2 = (map Some (drop (Suc i - h) xs), P')" "pool_ok tr P'"
      "in_use P' = in_use P1 - W ` {?k..<current_block tr h t}" "\<And>c. c \<notin> W ` {lo..<n} \<Longrightarrow> heap P' c = heap ?P2 c"
    using P2(2) cs(1) by auto
  have item: "block_at tr (heap P1 (W ?k)) i = Some (xs ! (i - h))" using Suc.prems(6) [OF order_refl it] P1(2) by simp
  have "drop (i - h) xs = xs ! (i - h) # drop (Suc i - h) xs"
    using Cons_nth_drop_Suc [of "i - h" xs] it Suc.prems(1) assms(6) by (simp add: Suc_diff_le)
  then have "destroy_items (Suc remaining) tr i block p P = (map Some (drop (i - h) xs), P')"
    using P'(1) item by (simp add: block Let_def)
  moreover have "{?c..<current_block tr h t} = {?c..<?k} \<union> {?k..<current_block tr h t}" using ck kt by auto
  then have "in_use P' = in_use P - W ` {?c..<current_block tr h t}" using P'(3) use by (simp add: image_Un) blast
  moreover have "heap P' c = heap P c" if "c \<notin> W ` {lo..<n}" for c
    using P'(4) [OF that] that lok kn P1(2) by auto
  ultimately show ?case using P'(2) by blast
qed

lemma destroy_implicit_ok:
  assumes "implicit_rep tr own xs p P" and "destroy_ImplicitProducer tr p P = (items, P')"
  shows "items = map Some xs" and "pool_ok tr P'" and "frame_step own P {} P'"
proof -
  let ?h = "headIndex p" and ?t = "tailIndex p" and ?B = "BLOCK_SIZE tr" and ?n = "started tr (tailIndex p)" and ?lo = "headIndex p div BLOCK_SIZE tr"
  let ?last = "current_block tr ?h ?t"
  obtain W where W: "ip_rep tr W xs p P" and own: "own = W ` {?lo..<?n}" using assms(1) by (auto simp: implicit_rep_def ip_own_def)
  have c: "?B > 0" "pool_ok tr P" "iindex_ok tr W ?lo ?n p" "inj_on W {?lo..<?n}" "W ` {?lo..<?n} \<subseteq> in_use P"
    "content tr implicit_context W ?lo ?n ?h ?t xs P"
    using W by (simp_all add: ip_rep_def ip_core_def)
  have len: "?h \<le> ?t" "length xs = ?t - ?h" using c(6) by (simp_all add: content_def)
  have at: "block_at tr (heap P (W (j div ?B))) j = Some (xs ! (j - ?h))" if j: "?h \<le> j" "j < ?t" for j
  proof -
    have "?lo \<le> j div ?B" "j div ?B < ?n" using j(1) below_started [OF c(1) j(2)] by (simp_all add: div_le_mono)
    then have "holds tr implicit_context ?h ?t xs (j div ?B) (heap P (W (j div ?B)))" using c(6) by (simp add: content_def)
    then show ?thesis using j block_split [OF c(1), of j] by (simp add: holds_def block_at_def)
  qed
  have "current_block tr ?h ?h = ?lo" by (simp add: current_block_def)
  then have "\<exists>P1. destroy_items (?t - ?h) tr ?h None p P = (map Some (drop (?h - ?h) xs), P1) \<and> pool_ok tr P1
      \<and> in_use P1 = in_use P - W ` {current_block tr ?h ?h..<?last} \<and> (\<forall>c. c \<notin> W ` {?lo..<?n} \<longrightarrow> heap P1 c = heap P c)"
    using len c(2,5) at by (intro destroy_items_ok [OF c(3,1,4) refl refl len(2)]) simp_all
  then obtain P1 where P1: "destroy_items (?t - ?h) tr ?h None p P = (map Some xs, P1)" "pool_ok tr P1" "in_use P1 = in_use P - W ` {?lo..<?last}"
      "\<And>c. c \<notin> W ` {?lo..<?n} \<Longrightarrow> heap P1 c = heap P c"
    by (auto simp: current_block_def)
  show "items = map Some xs" using assms(2) P1(1) by (auto simp: destroy_ImplicitProducer_def Let_def)
  have P': "P' = (case tailBlock p of None \<Rightarrow> P1 | Some b \<Rightarrow> if ?h \<noteq> ?t \<or> block_offset tr ?t \<noteq> 0 then add_block_to_free_list tr b P1 else P1)"
    using assms(2) P1(1) by (auto simp: destroy_ImplicitProducer_def Let_def)
  have "pool_ok tr P' \<and> in_use P' = in_use P - own \<and> (\<forall>c. c \<notin> own \<longrightarrow> heap P' c = heap P c)"
  proof (cases "?h \<noteq> ?t \<or> block_offset tr ?t \<noteq> 0")
    case True
    have last: "tailBlock p = Some (W ?last)" "?n = Suc ?last" "?lo \<le> ?last"
    proof -
      show "?lo \<le> ?last" using len(1) by (auto simp: current_block_def intro: div_le_mono)
      show "tailBlock p = Some (W ?last)" "?n = Suc ?last"
      proof -
        have tb: "block_offset tr ?t \<noteq> 0 \<Longrightarrow> tailBlock p = Some (W (?t div ?B))"
          "block_offset tr ?t = 0 \<Longrightarrow> ?h \<noteq> ?t \<Longrightarrow> tailBlock p = Some (W (?t div ?B - 1))"
          using W by (simp_all add: ip_rep_def tail_full_def)
        note cs = current_Suc(2,3) [OF c(1) len(1)] and tn = tail_block_number [OF c(1), of ?t]
        have "tailBlock p = Some (W ?last) \<and> ?n = Suc ?last"
        proof (cases "block_offset tr ?t = 0")
          case off: True
          then have "?t \<noteq> ?h" using True by simp
          from cs(2) [OF this off] have "?t div ?B = Suc ?last" .
          then show ?thesis using tb(2) [OF off] tn(1) [OF off] \<open>?t \<noteq> ?h\<close> by simp
        next
          case off: False
          have "?last = ?t div ?B"
          proof (cases "?t = ?h")
            case False
            then show ?thesis by (rule cs(1) [OF _ off])
          qed (simp add: current_block_def)
          then show ?thesis using tb(1) [OF off] tn(2) [OF off] by simp
        qed
        then show "tailBlock p = Some (W ?last)" "?n = Suc ?last" by simp_all
      qed
    qed
    have "?last \<in> {?lo..<?n}" using last(2,3) by simp
    then have "W ?last \<in> in_use P" using c(5) by auto
    moreover have "W ?last \<notin> W ` {?lo..<?last}"
    proof
      assume "W ?last \<in> W ` {?lo..<?last}"
      then obtain k where "?lo \<le> k" "k < ?last" "W ?last = W k" by auto
      then show False using inj_onD [OF c(4), of ?last k] last(2,3) by simp
    qed
    ultimately have "W ?last \<in> in_use P1" using P1(3) by simp
    note ab = add_block_ok [OF P1(2) this]
    have "{?lo..<?n} = insert ?last {?lo..<?last}" using last(2,3) by auto
    then have "in_use P - own = in_use P1 - {W ?last}" using P1(3) own by auto
    moreover have "P' = add_block_to_free_list tr (W ?last) P1" using P' last(1) True by simp
    ultimately show ?thesis using ab P1(4) own by simp
  next
    case False
    then have "?n = ?lo" "?last = ?lo" using tail_block_number(1) [OF c(1), of ?t] by (simp_all add: current_block_def)
    moreover have "P' = P1" using P' False by (cases "tailBlock p") simp_all
    ultimately show ?thesis using P1 own by simp
  qed
  then show "pool_ok tr P'" "frame_step own P {} P'" using c(5) own by (auto simp: frame_step_def same_blocks_def)
qed

end
