(* ===== verification/ConcurrentQueueDestroy.thy ===== *)
theory ConcurrentQueueDestroy
  imports ConcurrentQueueInvariants CQ_Destroy
begin

text \<open>
  The destructor of \<open>ConcurrentQueue\<close>: it destroys the producers in the order of their list, each with the elements it
  holds, then the blocks.  When no constructor of an element throws, the elements destroyed are those that were accepted and not
  handed out, each once, and every block is destroyed once; a constructor that threw can leave a producer whose destructor
  destroys elements that never were.
\<close>

section \<open>The destructor\<close>

primrec sub_destroy :: "traits \<Rightarrow> subqueue \<Rightarrow> 'a pool \<Rightarrow> ('a option list \<times> 'a pool) option" where
  "sub_destroy tr (Explicit p) P = destroy_ExplicitProducer tr p P"
| "sub_destroy tr (Implicit p) P = Some (destroy_ImplicitProducer tr p P)"

text \<open>The loop over the producers.  A token that refers to a producer is told that it is gone.\<close>

definition forget_token :: "producer_node \<Rightarrow> (nat \<rightharpoonup> nat option) \<Rightarrow> nat \<rightharpoonup> nat option" where
  "forget_token node ptoks = (case token node of None \<Rightarrow> ptoks | Some a \<Rightarrow> ptoks(a \<mapsto> None))"

primrec destroy_producers ::
  "traits \<Rightarrow> producer_node list \<Rightarrow> nat list \<Rightarrow> (nat \<rightharpoonup> nat option) \<Rightarrow> 'a pool
   \<Rightarrow> ('a option list \<times> (nat \<rightharpoonup> nat option) \<times> 'a pool) option" where
  "destroy_producers tr nodes [] ptoks P = Some ([], ptoks, P)"
| "destroy_producers tr nodes (i # is) ptoks P =
     (case sub_destroy tr (sub (nodes ! i)) P of
        None \<Rightarrow> None
      | Some (items, P) \<Rightarrow>
          map_option (\<lambda>(rest, ptoks, P). (items @ rest, ptoks, P)) (destroy_producers tr nodes is (forget_token (nodes ! i) ptoks) P))"

text \<open>The tables of the hash that are freed: the last one is part of the queue.\<close>

primrec destroy_tables :: "table list \<Rightarrow> table list" where
  "destroy_tables [] = []"
| "destroy_tables (hash # prev) = (if prev \<noteq> [] then hash # destroy_tables prev else destroy_tables prev)"

definition destroy_free_list :: "'a pool \<Rightarrow> 'a pool" where
  "destroy_free_list P = fold (\<lambda>b P. if dynamicallyAllocated (heap P b) then P\<lparr>destroyed := b # destroyed P\<rparr> else P) (freeList P) P"

definition destroy_initial_blocks :: "'a pool \<Rightarrow> 'a pool" where
  "destroy_initial_blocks P = fold (\<lambda>b P. P\<lparr>destroyed := b # destroyed P\<rparr>) (rev [0..<initialBlockPoolSize P]) P"

text \<open>The elements destroyed, in order, the tables freed, the tokens and the pool afterwards.\<close>

definition destroy_ConcurrentQueue ::
  "traits \<Rightarrow> 'a cqueue \<Rightarrow> (nat \<rightharpoonup> nat option) \<Rightarrow> ('a option list \<times> table list \<times> (nat \<rightharpoonup> nat option) \<times> 'a pool) option" where
  "destroy_ConcurrentQueue tr q ptoks =
     map_option (\<lambda>(items, ptoks, P).
         (items, if INITIAL_IMPLICIT_PRODUCER_HASH_SIZE tr \<noteq> 0 then destroy_tables (tables (cq_hash q)) else [],
          ptoks, destroy_initial_blocks (destroy_free_list P)))
       (destroy_producers tr (producers q) (producer_list q) ptoks (cq_pool q))"

section \<open>What it destroys\<close>

lemma sub_destroy_ok:
  assumes "sub_rep tr own xs s P" and "noexcept_ctor tr" and "tail_le n s" and "n < 2 ^ 63"
  shows "\<exists>P'. sub_destroy tr s P = Some (map Some xs, P') \<and> pool_ok tr P' \<and> frame_step own P {} P'"
proof (cases s)
  case (Explicit p)
  then have q: "ep_queue tr True own xs p P" using assms(1,2) by (simp add: explicit_rep_def)
  then have "headIndex p \<le> tailIndex p" by (auto simp: ep_queue_def ep_rep_def content_def)
  then have "headIndex p < 2 ^ 63" using assms(3,4) Explicit by simp
  from destroy_explicit_ok [OF q this] show ?thesis using Explicit by simp
next
  case (Implicit p)
  then have q: "implicit_rep tr own xs p P" using assms(1) by simp
  obtain items P' where d: "destroy_ImplicitProducer tr p P = (items, P')" by (metis prod.exhaust)
  from destroy_implicit_ok [OF q d] show ?thesis using Implicit d by simp
qed

lemma forget_token_same: "ptoks a = Some None \<Longrightarrow> forget_token node ptoks a = Some None"
  by (auto simp: forget_token_def split: option.splits)

lemma destroy_producers_ok:
  fixes P :: "'a pool"
  assumes "noexcept_ctor tr" and "n < 2 ^ 63"
  shows "distinct is \<Longrightarrow> pool_ok tr P \<Longrightarrow> \<forall>i\<in>set is. sub_rep tr (owns i) (f i) (sub (nodes ! i)) P \<and> tail_le n (sub (nodes ! i)) \<Longrightarrow>
      \<forall>i\<in>set is. \<forall>j\<in>set is. i \<noteq> j \<longrightarrow> owns i \<inter> owns j = {} \<Longrightarrow>
    \<exists>ptoks' P'. destroy_producers tr nodes is ptoks P = Some (map Some (concat (map f is)), ptoks', P') \<and> pool_ok tr P'
      \<and> in_use P' = in_use P - (\<Union>i\<in>set is. owns i)
      \<and> (\<forall>a. ptoks' a = (if a \<in> {a. \<exists>i\<in>set is. token (nodes ! i) = Some a} then Some None else ptoks a))"
proof (induction "is" arbitrary: ptoks P)
  case (Cons i "is")
  have rep: "sub_rep tr (owns i) (f i) (sub (nodes ! i)) P" and tail: "tail_le n (sub (nodes ! i))" using Cons.prems(3) by simp_all
  obtain P1 where d: "sub_destroy tr (sub (nodes ! i)) P = Some (map Some (f i), P1)" "pool_ok tr P1" "frame_step (owns i) P {} P1"
    using sub_destroy_ok [OF rep assms(1) tail assms(2)] by blast
  have use: "in_use P1 = in_use P - owns i" "same_blocks (in_use P - owns i) P P1" using d(3) by (simp_all add: frame_step_def)
  have rest: "sub_rep tr (owns j) (f j) (sub (nodes ! j)) P1" if j: "j \<in> set is" for j
  proof -
    have r: "sub_rep tr (owns j) (f j) (sub (nodes ! j)) P" using Cons.prems(3) j by simp
    have "owns j \<subseteq> in_use P" using any_sub.owns [OF r] .
    moreover have "owns j \<inter> owns i = {}" using Cons.prems(1,4) j by auto
    ultimately have sub: "owns j \<subseteq> in_use P - owns i" by blast
    then have "same_blocks (owns j) P P1" "owns j \<subseteq> in_use P1" using use by (auto simp: same_blocks_def)
    from any_sub.frame [OF r this(1) d(2) this(2)] show ?thesis .
  qed
  have "\<exists>ptoks' P'. destroy_producers tr nodes is (forget_token (nodes ! i) ptoks) P1 = Some (map Some (concat (map f is)), ptoks', P')
      \<and> pool_ok tr P' \<and> in_use P' = in_use P1 - (\<Union>i\<in>set is. owns i)
      \<and> (\<forall>a. ptoks' a = (if a \<in> {a. \<exists>i\<in>set is. token (nodes ! i) = Some a} then Some None else forget_token (nodes ! i) ptoks a))"
    using Cons.prems rest by (intro Cons.IH d(2)) auto
  then obtain ptoks' P' where ih: "destroy_producers tr nodes is (forget_token (nodes ! i) ptoks) P1 = Some (map Some (concat (map f is)), ptoks', P')"
    "pool_ok tr P'" "in_use P' = in_use P1 - (\<Union>i\<in>set is. owns i)"
    "\<And>a. ptoks' a = (if a \<in> {a. \<exists>i\<in>set is. token (nodes ! i) = Some a} then Some None else forget_token (nodes ! i) ptoks a)" by blast
  have "destroy_producers tr nodes (i # is) ptoks P = Some (map Some (concat (map f (i # is))), ptoks', P')" using d(1) ih(1) by simp
  moreover have "in_use P' = in_use P - (\<Union>j\<in>set (i # is). owns j)" using ih(3) use(1) by auto
  moreover have "ptoks' a = (if a \<in> {a. \<exists>j\<in>set (i # is). token (nodes ! j) = Some a} then Some None else ptoks a)" for a
    unfolding ih(4) by (auto simp: forget_token_def split: option.split)
  ultimately show ?case using ih(2) by blast
qed simp

lemma destroy_tables_eq: "destroy_tables ts = butlast ts"
  by (induction ts) simp_all

lemma destroy_list_eq:
  "fold (\<lambda>b P. if dynamicallyAllocated (heap P b) then P\<lparr>destroyed := b # destroyed P\<rparr> else P) bs P
     = P\<lparr>destroyed := rev (filter (\<lambda>b. dynamicallyAllocated (heap P b)) bs) @ destroyed P\<rparr>"
  by (induction bs arbitrary: P) simp_all

lemma destroy_all_eq: "fold (\<lambda>b P. P\<lparr>destroyed := b # destroyed P\<rparr>) bs P = P\<lparr>destroyed := rev bs @ destroyed P\<rparr>"
  by (induction bs arbitrary: P) simp_all

text \<open>Once no producer has a block, the destructor destroys all of them, each once.\<close>

lemma destroy_blocks_all:
  fixes P :: "'a pool"
  assumes "pool_ok tr P" and "in_use P = {}"
  shows "distinct (destroyed (destroy_initial_blocks (destroy_free_list P)))"
    and "set (destroyed (destroy_initial_blocks (destroy_free_list P))) = {..<fresh P}"
    and "fresh (destroy_initial_blocks (destroy_free_list P)) = fresh P"
proof -
  let ?dyn = "filter (\<lambda>b. dynamicallyAllocated (heap P b)) (freeList P)" and ?n = "initialBlockPoolSize P"
  have ds: "destroyed (destroy_initial_blocks (destroy_free_list P)) = [0..<?n] @ rev ?dyn @ destroyed P"
    and "fresh (destroy_initial_blocks (destroy_free_list P)) = fresh P"
    by (simp_all add: destroy_initial_blocks_def destroy_free_list_def destroy_list_eq destroy_all_eq)
  then show "fresh (destroy_initial_blocks (destroy_free_list P)) = fresh P" by simp
  have ok: "distinct (freeList P @ destroyed P)" "set (freeList P) \<subseteq> {..<fresh P}" "set (destroyed P) \<subseteq> {..<fresh P}" "?n \<le> fresh P"
    "set (destroyed P) \<subseteq> {?n..}" "\<And>b. b < fresh P \<Longrightarrow> dynamicallyAllocated (heap P b) = (?n \<le> b)"
    using assms(1) by (auto simp: pool_ok_def available_def)
  have dyn: "set ?dyn = set (freeList P) \<inter> {?n..}" using ok(2,6) by auto
  show "distinct (destroyed (destroy_initial_blocks (destroy_free_list P)))" unfolding ds using ok dyn by auto
  have "{..<fresh P} \<subseteq> {..<?n} \<union> set (freeList P) \<union> set (destroyed P)" using assms(2) by (auto simp: in_use_def available_def)
  then show "set (destroyed (destroy_initial_blocks (destroy_free_list P))) = {..<fresh P}"
    unfolding ds using ok(2,3,4) dyn by auto
qed

lemmas next_fold = fold_destroy [THEN conjunct1]

lemma first_block:
  assumes "fresh_block mo tr m p P = (True, p1, P2)" and "tailIndex p = 0" and "headIndex p = 0" and "tailBlock p = None" and "pool_ok tr P"
  obtains p0 P0 b P3 p3 where "pool_ok tr P0" "tailIndex p0 = 0" "headIndex p0 = 0" "tailBlock p0 = None"
    "requisition_block mo tr m P0 = (Some b, P3)"
    "ring_insert b p0 (upd_block b (reset_empty tr explicit_context) P3) = (p3, P2)" "p1 = p3\<lparr>pr_blockIndexSlotsUsed := pr_blockIndexSlotsUsed p3 + 1\<rparr>"
proof -
  let ?grow = "\<not> idx_raw p \<or> pr_blockIndexSlotsUsed p = pr_blockIndexSize p"
  obtain ok p0 P0 where g: "(if ?grow then new_block_index mo (pr_blockIndexSlotsUsed p) p P else (True, p, P)) = (ok, p0, P0)"
    by (metis prod_cases3)
  have "tailIndex p0 = 0 \<and> headIndex p0 = 0 \<and> tailBlock p0 = None \<and> pool_ok tr P0"
    using g assms(2-5) mallocs_frame(3) [OF assms(5)]
    by (auto simp: new_block_index_def malloc_def Let_def split: prod.splits if_splits)
  moreover obtain b P3 where b: "requisition_block mo tr m P0 = (Some b, P3)" and ok
    using assms(1) g by (auto simp: fresh_block_def Let_def split: prod.splits option.splits if_splits)
  moreover obtain p3 where r: "ring_insert b p0 (upd_block b (reset_empty tr explicit_context) P3) = (p3, P2)"
    "p1 = p3\<lparr>pr_blockIndexSlotsUsed := pr_blockIndexSlotsUsed p3 + 1\<rparr>"
    using assms(1) g b by (auto simp: fresh_block_def Let_def split: prod.splits option.splits if_splits)
  ultimately show thesis using that [of P0 p0 b P3 p3] by blast
qed

section \<open>Properties\<close>

text \<open>
  (C4) The destructor of the queue after any history in which every bulk enqueue through a producer token has succeeded (the last
  argument of \<open>cq_history\<close> is 0), when no constructor of an element can throw: it returns, and the elements it
  destroys are those still in the queue, each once and no others, the producers in the order of their list; together with
  the elements handed out these are all that were accepted.  It destroys every block there is exactly once, frees
  every table of the hash but the one inside the queue, and leaves no producer token that refers to a producer.
\<close>

theorem concurrent_queue_destructor:
  assumes "traits_ok tr" and "BLOCK_SIZE tr < 2 ^ 63" and "noexcept_ctor tr"
    and "cq_history mo tr q ptoks ctoks trace 0" and "length trace < 2 ^ 63"
  shows "\<exists>ev f items freed ptoks' P'. trace = map seen ev \<and> replay ev (\<lambda>_. []) = Some f
    \<and> (\<forall>i. concat (map (put i) ev) = concat (map (got i) ev) @ f i)
    \<and> destroy_ConcurrentQueue tr q ptoks = Some (items, freed, ptoks', P')
    \<and> items = map Some (concat (map f (producer_list q))) \<and> length items = in_flight trace
    \<and> distinct (destroyed P') \<and> set (destroyed P') = {..<fresh P'}
    \<and> (INITIAL_IMPLICIT_PRODUCER_HASH_SIZE tr \<noteq> 0 \<longrightarrow> (\<exists>initial. tables (cq_hash q) = freed @ [initial]))
    \<and> (\<forall>a p. ptoks' a = Some p \<longrightarrow> \<not> token_valid p)"
proof -
  obtain f where inv: "cq_inv tr q ptoks ctoks trace f" using cq_run_inv [OF assms(1,2,4,5)] by blast
  then obtain ev where ev: "trace = map seen ev" "replay ev (\<lambda>_. []) = Some f" and rep: "cq_rep tr q f" and toks: "tokens_ok q ptoks"
    and fifo: "fifo trace f" by (auto simp: cq_inv_def fifo_def)
  obtain owns where fam: "family (sub_rep tr) owns f (map sub (producers q)) (cq_pool q)" and ok: "pool_ok tr (cq_pool q)"
    using rep by (auto simp: cq_rep_def)
  let ?is = "producer_list q" and ?n = "length (filter is_sent trace)"
  have set: "set ?is = {..<length (producers q)}" and dist: "distinct ?is" by (auto simp: producer_list_def)
  have "all_good tail_le ?n q" using tail_inv.run_good [OF assms(4)] .
  then have each: "\<forall>i\<in>set ?is. sub_rep tr (owns i) (f i) (sub (producers q ! i)) (cq_pool q) \<and> tail_le ?n (sub (producers q ! i))"
    using fam set by (simp add: family_def all_good_def)
  have disj: "\<forall>i\<in>set ?is. \<forall>j\<in>set ?is. i \<noteq> j \<longrightarrow> owns i \<inter> owns j = {}" using fam set by (simp add: family_def)
  have "?n < 2 ^ 63" using le_less_trans [OF length_filter_le assms(5)] .
  from destroy_producers_ok [OF assms(3) this dist ok each disj, of ptoks] obtain ptoks' P'
    where d: "destroy_producers tr (producers q) ?is ptoks (cq_pool q) = Some (map Some (concat (map f ?is)), ptoks', P')"
      "pool_ok tr P'" "in_use P' = in_use (cq_pool q) - (\<Union>i\<in>set ?is. owns i)"
      "\<And>a. ptoks' a = (if a \<in> {a. \<exists>i\<in>set ?is. token (producers q ! i) = Some a} then Some None else ptoks a)" by blast
  have "in_use P' = {}" using d(3) fam set by (simp add: family_def)
  note blocks = destroy_blocks_all [OF d(2) this]
  have gone: "\<not> token_valid p" if "ptoks' a = Some p" for a p
    using that d(4) [of a] toks set by (cases p) (auto simp: token_valid_def tokens_ok_def split: if_splits)
  have "length (concat (map f ?is)) = total q f"
    by (simp add: length_concat total_def producer_list_def rev_map [symmetric] sum_list_rev o_def interv_sum_list_conv_sum_set_nat
        atLeast0LessThan)
  then have "length (map Some (concat (map f ?is))) = in_flight trace" using fifo_total(1) [OF fifo rep] by simp
  moreover define freed where "freed = (if INITIAL_IMPLICIT_PRODUCER_HASH_SIZE tr \<noteq> 0 then destroy_tables (tables (cq_hash q)) else [])"
  moreover from this have "destroy_ConcurrentQueue tr q ptoks
      = Some (map Some (concat (map f ?is)), freed, ptoks', destroy_initial_blocks (destroy_free_list P'))"
    using d(1) by (simp add: destroy_ConcurrentQueue_def)
  moreover have "INITIAL_IMPLICIT_PRODUCER_HASH_SIZE tr \<noteq> 0 \<longrightarrow> tables (cq_hash q) = freed @ [last (tables (cq_hash q))]"
    using inv unfolding freed_def by (auto simp: cq_inv_def hash_rep_def hash_ok_def chain_ok_def destroy_tables_eq)
  moreover have "\<forall>i. concat (map (put i) ev) = concat (map (got i) ev) @ f i" using replay_fifo [OF ev(2)] by simp
  ultimately show ?thesis using ev blocks gone by metis
qed

text \<open>A run with elements that cannot throw.\<close>

definition safe_traits :: traits where
  "safe_traits = small_traits\<lparr>noexcept_ctor := True\<rparr>"

lemma safe_traits_ok: "traits_ok safe_traits" "BLOCK_SIZE safe_traits < 2 ^ 63" "noexcept_ctor safe_traits"
  using small_traits_ok(2,3) by (simp_all add: safe_traits_def traits_ok_def)

theorem concurrent_queue_destructor_witness:
  "\<exists>q t items freed ptoks' P'. cq_run (\<lambda>_. True) safe_traits q [100 \<mapsto> Some 0] [200 \<mapsto> t] [Sent 0 (7 :: nat)]
     \<and> destroy_ConcurrentQueue safe_traits q [100 \<mapsto> Some 0] = Some (items, freed, ptoks', P') \<and> length items = 1"
proof -
  obtain q t where r: "cq_run (\<lambda>_. True) safe_traits q [100 \<mapsto> Some 0] [200 \<mapsto> t] [Sent 0 (7 :: nat)]"
    by (rule demo_run_with [OF safe_traits_def])
  have "length [Sent 0 (7 :: nat)] < 2 ^ 63" "in_flight [Sent 0 (7 :: nat)] = 1" by (simp_all add: in_flight_def)
  with concurrent_queue_destructor [OF safe_traits_ok r this(1)] r show ?thesis by metis
qed

text \<open>
  (C38) A constructor that throws can break the destructor: when the first element given to a new producer throws, the producer keeps
  the block it got as its tail block, not emptied, and its destructor destroys a whole block of elements although none was ever
  constructed.
\<close>

theorem throw_then_destroy:
  assumes "traits_ok tr" and "pool_ok tr P" and "ExplicitProducer mo tr P = (p, P1)" and "explicit_enqueue mo tr m th x p P1 = (Inl e, p', P2)"
  shows "tailIndex p' = 0 \<and> (\<exists>items P'. destroy_ExplicitProducer tr p' P2 = Some (items, P') \<and> length items = BLOCK_SIZE tr)"
proof -
  have B: "BLOCK_SIZE tr > 1" using assms(1) by (simp add: traits_ok_def)
  have p: "tailIndex p = 0" "headIndex p = 0" "tailBlock p = None"
    using assms(3) by (auto simp: ExplicitProducer_def new_block_index_def Let_def split: prod.splits if_splits)
  have ok1: "pool_ok tr P1" using ExplicitProducer_ok(1) [OF assms(2,1,3), of False] by (auto simp: ep_queue_def ep_rep_def)
  obtain p1 where s: "fresh_block mo tr m p P1 = (True, p1, P2)" "p' = p1\<lparr>pr_blockIndexSlotsUsed := pr_blockIndexSlotsUsed p\<rparr>"
    using assms(4) p by (auto simp: explicit_enqueue_def start_block_def block_offset_def split: prod.splits option.splits if_splits)
  obtain p0 P0 b P3 p3 where "pool_ok tr P0" and p0: "tailIndex p0 = 0" "headIndex p0 = 0" "tailBlock p0 = None"
    and b: "requisition_block mo tr m P0 = (Some b, P3)"
    and ins: "ring_insert b p0 (upd_block b (reset_empty tr explicit_context) P3) = (p3, P2)"
      "p1 = p3\<lparr>pr_blockIndexSlotsUsed := pr_blockIndexSlotsUsed p3 + 1\<rparr>"
    using first_block [OF s(1) p ok1] .
  define c where "c = (reset_empty tr explicit_context (heap P3 b))\<lparr>next_block := Some b\<rparr>"
  have P2: "P2 = P3\<lparr>heap := (heap P3)(b := c)\<rparr>" and p1: "tailBlock p1 = Some b" "tailIndex p1 = 0" "headIndex p1 = 0"
    using ins p0 by (auto simp: ring_insert_def upd_block_def c_def)
  have "b < fresh P3" using requisition_ok(4) [OF \<open>pool_ok tr P0\<close> b, of b] by (auto simp: in_use_def)
  then obtain rounds where rounds: "fresh P2 = Suc rounds" by (cases "fresh P2") (simp_all add: P2)
  have "\<not> is_empty tr explicit_context c" using B unfolding c_def is_empty_def reset_empty_def by (auto simp: list_all_iff)
  moreover have tw: "takeWhile (\<lambda>i. i \<noteq> BLOCK_SIZE tr) [0..<BLOCK_SIZE tr] = [0..<BLOCK_SIZE tr]" by simp
  ultimately have ring: "destroy_ring (fresh P2) tr p' None b P2
      = Some (map (block_at tr c) [0..<BLOCK_SIZE tr], upd_block b (fold (destroy_at tr) [0..<BLOCK_SIZE tr]) P2)"
    using p1 s(2) rounds
    by (simp add: next_of_def destroy_block_def last_valid_index_def block_offset_def Let_def P2 c_def tw)
  let ?P = "upd_block b (fold (destroy_at tr) [0..<BLOCK_SIZE tr]) P2"
  have "next_of ?P b = b" by (simp add: next_of_def upd_block_def P2 c_def next_fold)
  then have free: "free_ring (fresh P2) tr b b ?P = Some (add_block_to_free_list tr b ?P)" unfolding rounds by simp
  have "destroy_ExplicitProducer tr p' P2 = Some (map (block_at tr c) [0..<BLOCK_SIZE tr], add_block_to_free_list tr b ?P)"
    using ring free p1 s(2) by (simp add: destroy_ExplicitProducer_def half_dequeued_block_def block_offset_def upd_block_def)
  then show ?thesis using p1 s(2) by simp
qed

theorem throw_then_destroy_witness:
  "\<exists>p P1 p' P2 items P'. ExplicitProducer (\<lambda>_. True) small_traits (empty_pool small_traits :: nat pool) = (p, P1)
     \<and> explicit_enqueue (\<lambda>_. True) small_traits CanAlloc (Some bad_alloc) 7 p P1 = (Inl bad_alloc, p', P2)
     \<and> destroy_ExplicitProducer small_traits p' P2 = Some (items, P') \<and> length items = 2"
proof -
  obtain p P1 where p: "ExplicitProducer (\<lambda>_. True) small_traits (empty_pool small_traits :: nat pool) = (p, P1)" by (metis prod.exhaust)
  then have fields: "tailIndex p = 0" "headIndex p = 0" "tailBlock p = None" "idx_raw p" "pr_blockIndexSlotsUsed p = 0"
      "0 < pr_blockIndexSize p" "initialBlockPoolSize P1 = 0" "freeList P1 = []"
    by (auto simp: ExplicitProducer_def new_block_index_def malloc_def empty_pool_def small_traits_def default_traits_def Let_def)
  obtain p' P2 where e: "explicit_enqueue (\<lambda>_. True) small_traits CanAlloc (Some bad_alloc) 7 p P1 = (Inl bad_alloc, p', P2)"
    using fields by (auto simp: explicit_enqueue_def start_block_def fresh_block_def no_room_def index_less_def MAX_SUBQUEUE_SIZE_def
        size_max_def requisition_block_def try_get_block_from_initial_pool_def try_get_block_from_free_list_def create_block_def
        ring_insert_def small_traits_def default_traits_def block_offset_def malloc_def raised_def Let_def split: prod.splits)
  have "BLOCK_SIZE small_traits = 2" by (simp add: small_traits_def)
  with throw_then_destroy [OF small_traits_ok(2,1) p e] p e show ?thesis by metis
qed

end
