(* ===== verification/ConcurrentQueueMove.thy ===== *)
theory ConcurrentQueueMove
  imports ConcurrentQueueClients
begin

text \<open>
  Moving and swapping whole queues.  Here the places of things matter: the first table of the hash is inside the queue object, the
  others are nodes on the heap that point to it, and every producer points to the queue it belongs to.  The rest of the model
  works on the contents of a queue; \<open>represents\<close> says that an object has these contents, and the theorems say that moving and
  swapping do to objects what they are meant to do to contents.
\<close>

section \<open>Objects\<close>

text \<open>A pointer to a table of the hash: the one inside the queue at an address, or a node, which has its table and \<open>prev\<close>.\<close>

datatype hash_ptr = Initial nat | Node nat

type_synonym hash_nodes = "nat \<Rightarrow> table \<times> hash_ptr"

text \<open>
  \<open>o_pool\<close> stands for the fields of the initial blocks and the free list, with the blocks these lead to; \<open>o_parents\<close> are the
  \<open>parent\<close> fields of the producers.
\<close>

record 'a queue_object =
  o_pool :: "'a pool"
  o_producers :: "producer_node list"
  o_parents :: "nat list"
  o_producerCount :: u32
  o_nextExplicitConsumerId :: u32
  o_globalExplicitConsumerOffset :: u32
  initialImplicitProducerHashEntries :: table
  implicitProducerHash :: hash_ptr
  o_hashCount :: nat

record 'a memory =
  objects :: "nat \<Rightarrow> 'a queue_object"
  hash_nodes :: hash_nodes

definition upd_object :: "nat \<Rightarrow> ('a queue_object \<Rightarrow> 'a queue_object) \<Rightarrow> 'a memory \<Rightarrow> 'a memory" where
  "upd_object a g m = m\<lparr>objects := (objects m)(a := g (objects m a))\<rparr>"

section \<open>Operations\<close>

definition reown_producers :: "nat \<Rightarrow> 'a memory \<Rightarrow> 'a memory" where
  "reown_producers this = upd_object this (\<lambda>q. q\<lparr>o_parents := map (\<lambda>_. this) (o_parents q)\<rparr>)"

definition populate_hash :: "traits \<Rightarrow> nat \<Rightarrow> 'a memory \<Rightarrow> 'a memory" where
  "populate_hash tr this m =
     (if INITIAL_IMPLICIT_PRODUCER_HASH_SIZE tr = 0 then m
      else upd_object this (\<lambda>q. q\<lparr>o_hashCount := 0,
             initialImplicitProducerHashEntries := empty_table (INITIAL_IMPLICIT_PRODUCER_HASH_SIZE tr),
             implicitProducerHash := Initial this\<rparr>) m)"

text \<open>
  The loop that looks for the node above the table \<open>old\<close> and puts the table \<open>new\<close> there.  It follows \<open>prev\<close> without a
  test for null, so running past the last table is \<open>None\<close>.
\<close>

partial_function (option) relink :: "hash_ptr \<Rightarrow> hash_ptr \<Rightarrow> hash_ptr \<Rightarrow> hash_nodes \<Rightarrow> hash_nodes option" where
  "relink hash old new nodes =
     (case hash of
        Initial a \<Rightarrow> None
      | Node n \<Rightarrow>
          if snd (nodes n) = old then Some (nodes(n := (fst (nodes n), new)))
          else relink (snd (nodes n)) old new nodes)"

text \<open>Make the chain of \<open>this\<close>, taken over from \<open>other\<close>, end in its own table.\<close>

definition adopt_hash :: "nat \<Rightarrow> nat \<Rightarrow> 'a memory \<Rightarrow> 'a memory option" where
  "adopt_hash this other m =
     (if implicitProducerHash (objects m this) = Initial other
      then Some (upd_object this (\<lambda>q. q\<lparr>implicitProducerHash := Initial this\<rparr>) m)
      else map_option (\<lambda>nodes. m\<lparr>hash_nodes := nodes\<rparr>)
             (relink (implicitProducerHash (objects m this)) (Initial other) (Initial this) (hash_nodes m)))"

definition swap_implicit_producer_hashes :: "traits \<Rightarrow> nat \<Rightarrow> nat \<Rightarrow> 'a memory \<Rightarrow> 'a memory option" where
  "swap_implicit_producer_hashes tr this other m =
     (if INITIAL_IMPLICIT_PRODUCER_HASH_SIZE tr = 0 then Some m
      else
        let q = objects m this; q' = objects m other;
            m = upd_object this (\<lambda>q. q\<lparr>initialImplicitProducerHashEntries := initialImplicitProducerHashEntries q',
                  o_hashCount := o_hashCount q', implicitProducerHash := implicitProducerHash q'\<rparr>) m;
            m = upd_object other (\<lambda>q'. q'\<lparr>initialImplicitProducerHashEntries := initialImplicitProducerHashEntries q,
                  o_hashCount := o_hashCount q, implicitProducerHash := implicitProducerHash q\<rparr>) m
        in case adopt_hash this other m of None \<Rightarrow> None | Some m \<Rightarrow> adopt_hash other this m)"

text \<open>\<open>swap\<close> and the move assignment.\<close>

definition take_fields :: "'a queue_object \<Rightarrow> 'a queue_object \<Rightarrow> 'a queue_object" where
  "take_fields q' q =
     q\<lparr>o_pool := o_pool q', o_producers := o_producers q', o_parents := o_parents q', o_producerCount := o_producerCount q',
       o_nextExplicitConsumerId := o_nextExplicitConsumerId q', o_globalExplicitConsumerOffset := o_globalExplicitConsumerOffset q'\<rparr>"

definition swap_internal :: "traits \<Rightarrow> nat \<Rightarrow> nat \<Rightarrow> 'a memory \<Rightarrow> 'a memory option" where
  "swap_internal tr this other m =
     (if this = other then Some m
      else
        let q = objects m this; q' = objects m other;
            m = upd_object other (take_fields q) (upd_object this (take_fields q') m)
        in map_option (\<lambda>m. reown_producers other (reown_producers this m)) (swap_implicit_producer_hashes tr this other m))"

text \<open>The move constructor.  What was in the memory of \<open>this\<close> before does not matter, as all fields are set.\<close>

definition move_ConcurrentQueue :: "traits \<Rightarrow> nat \<Rightarrow> nat \<Rightarrow> 'a memory \<Rightarrow> 'a memory option" where
  "move_ConcurrentQueue tr this other m =
     (let m = populate_hash tr this (upd_object this (take_fields (objects m other)) m)
      in map_option
           (\<lambda>m. reown_producers this (upd_object other (\<lambda>q. q\<lparr>o_pool := empty_pool tr, o_producers := [], o_parents := [],
                  o_producerCount := 0, o_nextExplicitConsumerId := 0, o_globalExplicitConsumerOffset := 0\<rparr>) m))
           (swap_implicit_producer_hashes tr this other m))"

section \<open>The contents of an object\<close>

text \<open>The chain of tables from \<open>p\<close> on, through the nodes \<open>ns\<close> to the table \<open>initial\<close> in the object at \<open>a\<close>.\<close>

fun hash_chain :: "hash_nodes \<Rightarrow> nat \<Rightarrow> table \<Rightarrow> hash_ptr \<Rightarrow> nat list \<Rightarrow> table list \<Rightarrow> bool" where
  "hash_chain nodes a initial p [] ts \<longleftrightarrow> p = Initial a \<and> ts = [initial]"
| "hash_chain nodes a initial p (n # ns) ts \<longleftrightarrow>
     p = Node n \<and> ts \<noteq> [] \<and> hd ts = fst (nodes n) \<and> hash_chain nodes a initial (snd (nodes n)) ns (tl ts)"

definition represents :: "traits \<Rightarrow> 'a memory \<Rightarrow> nat \<Rightarrow> nat list \<Rightarrow> 'a cqueue \<Rightarrow> bool" where
  "represents tr m a ns q \<longleftrightarrow>
     (let ob = objects m a in
      cq_pool q = o_pool ob \<and> producers q = o_producers ob \<and> o_parents ob = map (\<lambda>_. a) (o_producers ob)
      \<and> producerCount q = o_producerCount ob \<and> nextExplicitConsumerId q = o_nextExplicitConsumerId ob
      \<and> globalExplicitConsumerOffset q = o_globalExplicitConsumerOffset ob
      \<and> (if INITIAL_IMPLICIT_PRODUCER_HASH_SIZE tr = 0
         then ns = [] \<and> cq_hash q = populate_initial_implicit_producer_hash 0
         else distinct ns \<and> implicitProducerHashCount (cq_hash q) = o_hashCount ob
              \<and> hash_chain (hash_nodes m) a (initialImplicitProducerHashEntries ob) (implicitProducerHash ob) ns (tables (cq_hash q))))"

lemma upd_object_simps [simp]:
  "objects (upd_object a g m) c = (if c = a then g (objects m a) else objects m c)"
  "hash_nodes (upd_object a g m) = hash_nodes m"
  by (simp_all add: upd_object_def)

lemma take_fields_simps [simp]:
  "o_pool (take_fields q' q) = o_pool q'" "o_producers (take_fields q' q) = o_producers q'" "o_parents (take_fields q' q) = o_parents q'"
  "o_producerCount (take_fields q' q) = o_producerCount q'" "o_nextExplicitConsumerId (take_fields q' q) = o_nextExplicitConsumerId q'"
  "o_globalExplicitConsumerOffset (take_fields q' q) = o_globalExplicitConsumerOffset q'"
  "initialImplicitProducerHashEntries (take_fields q' q) = initialImplicitProducerHashEntries q"
  "implicitProducerHash (take_fields q' q) = implicitProducerHash q" "o_hashCount (take_fields q' q) = o_hashCount q"
  by (simp_all add: take_fields_def)

lemma hash_chain_cong: "(\<And>n. n \<in> set ns \<Longrightarrow> nodes' n = nodes n) \<Longrightarrow> hash_chain nodes' a i p ns ts = hash_chain nodes a i p ns ts"
  by (induction ns arbitrary: p ts) simp_all

text \<open>A chain that is to end in the table of another object, which is \<open>initial'\<close>.\<close>

lemma relink_ok:
  "hash_chain nodes b i p (n # ns) ts \<Longrightarrow> distinct (n # ns) \<Longrightarrow>
    \<exists>nodes'. relink p (Initial b) (Initial a) nodes = Some nodes' \<and> hash_chain nodes' a i p (n # ns) ts
      \<and> (\<forall>k. k \<notin> set (n # ns) \<longrightarrow> nodes' k = nodes k)"
proof (induction ns arbitrary: n p ts)
  case Nil
  then show ?case by (auto simp: relink.simps)
next
  case (Cons n' ns)
  have p: "p = Node n" "snd (nodes n) = Node n'" "ts \<noteq> []" "hd ts = fst (nodes n)" using Cons.prems(1) by simp_all
  have "hash_chain nodes b i (Node n') (n' # ns) (tl ts)" "distinct (n' # ns)" using Cons.prems p by simp_all
  from Cons.IH [OF this] obtain nodes' where r: "relink (Node n') (Initial b) (Initial a) nodes = Some nodes'"
    "hash_chain nodes' a i (Node n') (n' # ns) (tl ts)" "\<And>k. k \<notin> set (n' # ns) \<Longrightarrow> nodes' k = nodes k" by blast
  have "nodes' n = nodes n" using r(3) Cons.prems(2) by simp
  then show ?case using r p by (intro exI [of _ nodes']) (simp add: relink.simps [of "Node n"])
qed

lemma set_head_same: "implicitProducerHash q = p \<Longrightarrow> q\<lparr>implicitProducerHash := p\<rparr> = q"
  by (cases q) simp

lemma adopt_hash_ok:
  assumes "hash_chain (hash_nodes m) b i (implicitProducerHash (objects m a)) ns ts" and "distinct ns" and "a \<noteq> b"
  obtains p nodes where "adopt_hash a b m = Some (upd_object a (\<lambda>q. q\<lparr>implicitProducerHash := p\<rparr>) (m\<lparr>hash_nodes := nodes\<rparr>))"
    "hash_chain nodes a i p ns ts" "\<And>k. k \<notin> set ns \<Longrightarrow> nodes k = hash_nodes m k"
proof (cases ns)
  case Nil
  then show ?thesis using assms(1) that [of "Initial a" "hash_nodes m"] by (simp add: adopt_hash_def upd_object_def)
next
  case (Cons n ns')
  let ?p = "implicitProducerHash (objects m a)"
  from relink_ok [of "hash_nodes m" b i ?p n ns' ts a] assms(1,2) Cons
  obtain nodes where r: "relink ?p (Initial b) (Initial a) (hash_nodes m) = Some nodes"
    "hash_chain nodes a i ?p ns ts" "\<And>k. k \<notin> set ns \<Longrightarrow> nodes k = hash_nodes m k" by auto
  have "?p \<noteq> Initial b" using assms(1) Cons by simp
  then have "adopt_hash a b m = Some (m\<lparr>hash_nodes := nodes\<rparr>)" using r(1) by (simp add: adopt_hash_def)
  moreover have "upd_object a (\<lambda>q. q\<lparr>implicitProducerHash := ?p\<rparr>) (m\<lparr>hash_nodes := nodes\<rparr>) = m\<lparr>hash_nodes := nodes\<rparr>"
    by (simp add: upd_object_def set_head_same)
  ultimately show ?thesis using that [of ?p nodes] r(2,3) by simp
qed

text \<open>The pointers are swapped as the lists of tables would be.\<close>

definition has_hash :: "'a memory \<Rightarrow> nat \<Rightarrow> nat list \<Rightarrow> table list \<Rightarrow> nat \<Rightarrow> bool" where
  "has_hash m a ns ts count \<longleftrightarrow>
     distinct ns \<and> count = o_hashCount (objects m a)
     \<and> hash_chain (hash_nodes m) a (initialImplicitProducerHashEntries (objects m a)) (implicitProducerHash (objects m a)) ns ts"

definition same_but_hash :: "'a queue_object \<Rightarrow> 'a queue_object \<Rightarrow> bool" where
  "same_but_hash q q' \<longleftrightarrow>
     o_pool q' = o_pool q \<and> o_producers q' = o_producers q \<and> o_parents q' = o_parents q \<and> o_producerCount q' = o_producerCount q
     \<and> o_nextExplicitConsumerId q' = o_nextExplicitConsumerId q \<and> o_globalExplicitConsumerOffset q' = o_globalExplicitConsumerOffset q"

lemma swap_hashes_ok:
  assumes "has_hash m a ns ts c" and "has_hash m b ns' ts' c'" and "a \<noteq> b" and "set ns \<inter> set ns' = {}"
    and "INITIAL_IMPLICIT_PRODUCER_HASH_SIZE tr \<noteq> 0"
  obtains m' where "swap_implicit_producer_hashes tr a b m = Some m'" "has_hash m' a ns' ts' c'" "has_hash m' b ns ts c"
    "same_but_hash (objects m a) (objects m' a)" "same_but_hash (objects m b) (objects m' b)"
    "\<And>d. d \<noteq> a \<Longrightarrow> d \<noteq> b \<Longrightarrow> objects m' d = objects m d" "\<And>k. k \<notin> set ns \<union> set ns' \<Longrightarrow> hash_nodes m' k = hash_nodes m k"
proof -
  let ?q = "objects m a" and ?q' = "objects m b"
  let ?m1 = "upd_object a (\<lambda>q. q\<lparr>initialImplicitProducerHashEntries := initialImplicitProducerHashEntries ?q',
                  o_hashCount := o_hashCount ?q', implicitProducerHash := implicitProducerHash ?q'\<rparr>) m"
  let ?m2 = "upd_object b (\<lambda>q'. q'\<lparr>initialImplicitProducerHashEntries := initialImplicitProducerHashEntries ?q,
                  o_hashCount := o_hashCount ?q, implicitProducerHash := implicitProducerHash ?q\<rparr>) ?m1"
  let ?ia = "initialImplicitProducerHashEntries ?q" and ?ib = "initialImplicitProducerHashEntries ?q'"
  have a: "distinct ns" "c = o_hashCount ?q" "hash_chain (hash_nodes m) a ?ia (implicitProducerHash ?q) ns ts"
    and b: "distinct ns'" "c' = o_hashCount ?q'" "hash_chain (hash_nodes m) b ?ib (implicitProducerHash ?q') ns' ts'"
    using assms(1,2) by (simp_all add: has_hash_def)
  have ba: "b \<noteq> a" using assms(3) by simp
  have "hash_chain (hash_nodes ?m2) b ?ib (implicitProducerHash (objects ?m2 a)) ns' ts'" using b(3) assms(3) by simp
  from adopt_hash_ok [OF this b(1) assms(3)] obtain p nodes
    where 1: "adopt_hash a b ?m2 = Some (upd_object a (\<lambda>q. q\<lparr>implicitProducerHash := p\<rparr>) (?m2\<lparr>hash_nodes := nodes\<rparr>))"
      "hash_chain nodes a ?ib p ns' ts'" "\<And>k. k \<notin> set ns' \<Longrightarrow> nodes k = hash_nodes m k" by auto
  let ?m3 = "upd_object a (\<lambda>q. q\<lparr>implicitProducerHash := p\<rparr>) (?m2\<lparr>hash_nodes := nodes\<rparr>)"
  have ob: "objects (m\<lparr>hash_nodes := nodes\<rparr>) = objects m" for m :: "'a memory" and nodes by simp
  have "hash_chain nodes a ?ia (implicitProducerHash ?q) ns ts"
    using a(3) assms(4) 1(3) by (subst hash_chain_cong [where nodes = "hash_nodes m"]) auto
  then have "hash_chain (hash_nodes ?m3) a ?ia (implicitProducerHash (objects ?m3 b)) ns ts" using assms(3) by simp
  from adopt_hash_ok [OF this a(1) ba] obtain p' nodes'
    where 2: "adopt_hash b a ?m3 = Some (upd_object b (\<lambda>q. q\<lparr>implicitProducerHash := p'\<rparr>) (?m3\<lparr>hash_nodes := nodes'\<rparr>))"
      "hash_chain nodes' b ?ia p' ns ts" "\<And>k. k \<notin> set ns \<Longrightarrow> nodes' k = nodes k" by auto
  let ?m4 = "upd_object b (\<lambda>q. q\<lparr>implicitProducerHash := p'\<rparr>) (?m3\<lparr>hash_nodes := nodes'\<rparr>)"
  show thesis
  proof (rule that)
    show "swap_implicit_producer_hashes tr a b m = Some ?m4"
      using assms(5) unfolding swap_implicit_producer_hashes_def Let_def 1(1) by (simp only: if_False option.case 2(1))
    have "hash_chain nodes' a ?ib p ns' ts'"
      using 1(2) 2(3) assms(4) by (subst hash_chain_cong [where nodes = nodes]) auto
    then show "has_hash ?m4 a ns' ts' c'" unfolding has_hash_def using b assms(3) by simp
    show "has_hash ?m4 b ns ts c" unfolding has_hash_def using a assms(3) 2(2) by simp
    show "same_but_hash (objects m a) (objects ?m4 a)" "same_but_hash (objects m b) (objects ?m4 b)"
      using assms(3) by (simp_all add: same_but_hash_def)
    show "objects ?m4 d = objects m d" if "d \<noteq> a" "d \<noteq> b" for d using that by simp
    show "hash_nodes ?m4 k = hash_nodes m k" if "k \<notin> set ns \<union> set ns'" for k using that 1(3) 2(3) by simp
  qed
qed

lemma represents_iff:
  "represents tr m a ns q \<longleftrightarrow>
     cq_pool q = o_pool (objects m a) \<and> producers q = o_producers (objects m a)
     \<and> o_parents (objects m a) = map (\<lambda>_. a) (o_producers (objects m a))
     \<and> producerCount q = o_producerCount (objects m a) \<and> nextExplicitConsumerId q = o_nextExplicitConsumerId (objects m a)
     \<and> globalExplicitConsumerOffset q = o_globalExplicitConsumerOffset (objects m a)
     \<and> (if INITIAL_IMPLICIT_PRODUCER_HASH_SIZE tr = 0 then ns = [] \<and> cq_hash q = populate_initial_implicit_producer_hash 0
        else has_hash m a ns (tables (cq_hash q)) (implicitProducerHashCount (cq_hash q)))"
  by (simp add: represents_def has_hash_def Let_def)

text \<open>Another queue does not notice a change of the objects and nodes of two.\<close>

lemma represents_other:
  assumes "represents tr m d ns q" and "objects m' d = objects m d" and "\<And>k. k \<in> set ns \<Longrightarrow> hash_nodes m' k = hash_nodes m k"
  shows "represents tr m' d ns q"
  using assms hash_chain_cong [where ns = ns and nodes' = "hash_nodes m'" and nodes = "hash_nodes m"]
  by (simp add: represents_iff has_hash_def split: if_splits)

lemma hashes_or_none:
  assumes "INITIAL_IMPLICIT_PRODUCER_HASH_SIZE tr \<noteq> 0 \<Longrightarrow> has_hash m a ns ts c \<and> has_hash m b ns' ts' c'" and "a \<noteq> b" and "set ns \<inter> set ns' = {}"
  obtains m' where "swap_implicit_producer_hashes tr a b m = Some m'"
    "INITIAL_IMPLICIT_PRODUCER_HASH_SIZE tr \<noteq> 0 \<Longrightarrow> has_hash m' a ns' ts' c' \<and> has_hash m' b ns ts c"
    "same_but_hash (objects m a) (objects m' a)" "same_but_hash (objects m b) (objects m' b)"
    "\<And>d. d \<noteq> a \<Longrightarrow> d \<noteq> b \<Longrightarrow> objects m' d = objects m d" "\<And>k. k \<notin> set ns \<union> set ns' \<Longrightarrow> hash_nodes m' k = hash_nodes m k"
proof (cases "INITIAL_IMPLICIT_PRODUCER_HASH_SIZE tr = 0")
  case True
  then show thesis by (intro that [of m]) (simp_all add: swap_implicit_producer_hashes_def same_but_hash_def)
next
  case False
  obtain m' where "swap_implicit_producer_hashes tr a b m = Some m'" "has_hash m' a ns' ts' c'" "has_hash m' b ns ts c"
    "same_but_hash (objects m a) (objects m' a)" "same_but_hash (objects m b) (objects m' b)"
    "\<And>d. d \<noteq> a \<Longrightarrow> d \<noteq> b \<Longrightarrow> objects m' d = objects m d" "\<And>k. k \<notin> set ns \<union> set ns' \<Longrightarrow> hash_nodes m' k = hash_nodes m k"
    using swap_hashes_ok [OF _ _ assms(2,3) False] assms(1) [OF False] by blast
  then show thesis by (intro that [of m'] conjI) auto
qed

lemma has_hash_cong:
  assumes "initialImplicitProducerHashEntries (objects m' a) = initialImplicitProducerHashEntries (objects m a)"
    and "implicitProducerHash (objects m' a) = implicitProducerHash (objects m a)" and "o_hashCount (objects m' a) = o_hashCount (objects m a)"
    and "hash_nodes m' = hash_nodes m"
  shows "has_hash m' a ns ts c = has_hash m a ns ts c"
  using assms by (simp add: has_hash_def)

lemma reown_simps [simp]:
  "hash_nodes (reown_producers a m) = hash_nodes m"
  "objects (reown_producers a m) d = (if d = a then (objects m a)\<lparr>o_parents := map (\<lambda>_. a) (o_parents (objects m a))\<rparr> else objects m d)"
  by (simp_all add: reown_producers_def)

lemma has_hash_reown [simp]: "has_hash (reown_producers d m) a ns ts c = has_hash m a ns ts c"
  by (rule has_hash_cong) simp_all

lemma swap_internal_ok:
  assumes "represents tr m a ns q" and "represents tr m b ns' q'" and "a \<noteq> b" and "set ns \<inter> set ns' = {}"
  obtains m' where "swap_internal tr a b m = Some m'" "represents tr m' a ns' q'" "represents tr m' b ns q"
    "\<And>d. d \<noteq> a \<Longrightarrow> d \<noteq> b \<Longrightarrow> objects m' d = objects m d" "\<And>k. k \<notin> set ns \<union> set ns' \<Longrightarrow> hash_nodes m' k = hash_nodes m k"
proof -
  let ?m1 = "upd_object b (take_fields (objects m a)) (upd_object a (take_fields (objects m b)) m)"
  have ba: "b \<noteq> a" using assms(3) by simp
  note r = assms(1,2) [unfolded represents_iff]
  have "has_hash ?m1 a ns (tables (cq_hash q)) (implicitProducerHashCount (cq_hash q))
      \<and> has_hash ?m1 b ns' (tables (cq_hash q')) (implicitProducerHashCount (cq_hash q'))"
    if "INITIAL_IMPLICIT_PRODUCER_HASH_SIZE tr \<noteq> 0"
    using r that ba by (simp add: has_hash_def)
  from hashes_or_none [OF this assms(3,4)] obtain m2 where m2: "swap_implicit_producer_hashes tr a b ?m1 = Some m2"
    "INITIAL_IMPLICIT_PRODUCER_HASH_SIZE tr \<noteq> 0 \<Longrightarrow>
      has_hash m2 a ns' (tables (cq_hash q')) (implicitProducerHashCount (cq_hash q'))
      \<and> has_hash m2 b ns (tables (cq_hash q)) (implicitProducerHashCount (cq_hash q))"
    "same_but_hash (objects ?m1 a) (objects m2 a)" "same_but_hash (objects ?m1 b) (objects m2 b)"
    "\<And>d. d \<noteq> a \<Longrightarrow> d \<noteq> b \<Longrightarrow> objects m2 d = objects ?m1 d" "\<And>k. k \<notin> set ns \<union> set ns' \<Longrightarrow> hash_nodes m2 k = hash_nodes ?m1 k" by blast
  let ?m3 = "reown_producers b (reown_producers a m2)"
  show thesis
  proof (rule that)
    show "swap_internal tr a b m = Some ?m3" using m2(1) assms(3) by (simp add: swap_internal_def Let_def)
    show "represents tr ?m3 a ns' q'" using r m2(2,3) ba
      by (simp add: represents_iff same_but_hash_def split: if_splits)
    show "represents tr ?m3 b ns q" using r m2(2,4) ba
      by (simp add: represents_iff same_but_hash_def split: if_splits)
    show "objects ?m3 d = objects m d" if "d \<noteq> a" "d \<noteq> b" for d using that m2(5) by simp
    show "hash_nodes ?m3 k = hash_nodes m k" if "k \<notin> set ns \<union> set ns'" for k using that m2(6) by simp
  qed
qed

lemma ConcurrentQueue_0:
  "ConcurrentQueue mo tr 0 = \<lparr>cq_pool = empty_pool tr, producers = [], producerCount = 0,
     cq_hash = populate_initial_implicit_producer_hash (INITIAL_IMPLICIT_PRODUCER_HASH_SIZE tr),
     nextExplicitConsumerId = 0, globalExplicitConsumerOffset = 0\<rparr>"
  by (simp add: ConcurrentQueue_def new_queue_def populate_initial_block_list_def block_offset_def empty_pool_def)

lemma move_ok:
  assumes "represents tr m b ns q" and "a \<noteq> b"
  obtains m' where "move_ConcurrentQueue tr a b m = Some m'" "represents tr m' a ns q" "represents tr m' b [] (ConcurrentQueue mo tr 0)"
    "\<And>d. d \<noteq> a \<Longrightarrow> d \<noteq> b \<Longrightarrow> objects m' d = objects m d" "\<And>k. k \<notin> set ns \<Longrightarrow> hash_nodes m' k = hash_nodes m k"
proof -
  let ?n = "INITIAL_IMPLICIT_PRODUCER_HASH_SIZE tr"
  let ?m1 = "populate_hash tr a (upd_object a (take_fields (objects m b)) m)"
  have ba: "b \<noteq> a" using assms(2) by simp
  note r = assms(1) [unfolded represents_iff]
  have hash: "has_hash ?m1 a [] [empty_table ?n] 0 \<and> has_hash ?m1 b ns (tables (cq_hash q)) (implicitProducerHashCount (cq_hash q))"
    if "?n \<noteq> 0"
    using r that ba by (simp add: has_hash_def populate_hash_def)
  obtain m2 where m2: "swap_implicit_producer_hashes tr a b ?m1 = Some m2"
    "?n \<noteq> 0 \<Longrightarrow> has_hash m2 a ns (tables (cq_hash q)) (implicitProducerHashCount (cq_hash q)) \<and> has_hash m2 b [] [empty_table ?n] 0"
    "same_but_hash (objects ?m1 a) (objects m2 a)" "same_but_hash (objects ?m1 b) (objects m2 b)"
    "\<And>d. d \<noteq> a \<Longrightarrow> d \<noteq> b \<Longrightarrow> objects m2 d = objects ?m1 d" "\<And>k. k \<notin> set [] \<union> set ns \<Longrightarrow> hash_nodes m2 k = hash_nodes ?m1 k"
    by (rule hashes_or_none [OF hash assms(2)]) auto
  let ?clear = "\<lambda>q. q\<lparr>o_pool := empty_pool tr, o_producers := [], o_parents := [],
                  o_producerCount := 0, o_nextExplicitConsumerId := 0, o_globalExplicitConsumerOffset := 0\<rparr>"
  let ?m3 = "reown_producers a (upd_object b ?clear m2)"
  have same: "objects ?m1 b = objects m b" "\<And>d. d \<noteq> a \<Longrightarrow> objects ?m1 d = objects m d" "hash_nodes ?m1 = hash_nodes m"
    "o_pool (objects ?m1 a) = o_pool (objects m b)" "o_producers (objects ?m1 a) = o_producers (objects m b)"
    "o_parents (objects ?m1 a) = o_parents (objects m b)" "o_producerCount (objects ?m1 a) = o_producerCount (objects m b)"
    "o_nextExplicitConsumerId (objects ?m1 a) = o_nextExplicitConsumerId (objects m b)"
    "o_globalExplicitConsumerOffset (objects ?m1 a) = o_globalExplicitConsumerOffset (objects m b)"
    using ba by (simp_all add: populate_hash_def)
  have hb: "has_hash (upd_object b ?clear m2) d ks ts c = has_hash m2 d ks ts c" for d ks ts c by (rule has_hash_cong) simp_all
  show thesis
  proof (rule that)
    show "move_ConcurrentQueue tr a b m = Some ?m3" using m2(1) by (simp add: move_ConcurrentQueue_def Let_def)
    show "represents tr ?m3 a ns q" using r m2(2,3) same ba by (simp add: represents_iff same_but_hash_def hb split: if_splits)
    show "represents tr ?m3 b [] (ConcurrentQueue mo tr 0)" using m2(2) ba
      by (simp add: represents_iff hb ConcurrentQueue_0 populate_initial_implicit_producer_hash_def)
    show "objects ?m3 d = objects m d" if "d \<noteq> a" "d \<noteq> b" for d using that m2(5) same(2) by simp
    show "hash_nodes ?m3 k = hash_nodes m k" if "k \<notin> set ns" for k using that m2(6) same(3) by simp
  qed
qed

section \<open>Blocking queues\<close>

text \<open>A \<open>BlockingConcurrentQueue\<close> at an address: the inner queue there and the semaphore it has, if any.\<close>

record 'a blocking_memory =
  inner_memory :: "'a memory"
  semas :: "nat \<Rightarrow> nat option"

definition blocking_swap_internal :: "traits \<Rightarrow> nat \<Rightarrow> nat \<Rightarrow> 'a blocking_memory \<Rightarrow> 'a blocking_memory option" where
  "blocking_swap_internal tr this other m =
     (if this = other then Some m
      else map_option (\<lambda>i. m\<lparr>inner_memory := i, semas := (semas m)(this := semas m other, other := semas m this)\<rparr>)
             (swap_internal tr this other (inner_memory m)))"

definition move_BlockingConcurrentQueue :: "traits \<Rightarrow> nat \<Rightarrow> nat \<Rightarrow> 'a blocking_memory \<Rightarrow> 'a blocking_memory option" where
  "move_BlockingConcurrentQueue tr this other m =
     map_option (\<lambda>i. m\<lparr>inner_memory := i, semas := (semas m)(this := semas m other, other := None)\<rparr>)
       (move_ConcurrentQueue tr this other (inner_memory m))"

section \<open>Properties\<close>

text \<open>
  (C12) Swapping two queues exchanges their contents, producers, tokens and hash included, and moving a queue gives them to the new
  one and leaves the old one as an empty queue that was just constructed.  Every producer refers to the queue it is in, the chains of
  hash tables end inside their own queues and stay apart, and other queues notice nothing; a queue swapped with itself stays as it is.
\<close>

theorem queue_move_and_swap:
  assumes "represents tr m b ns q" and "a \<noteq> b"
  shows "(\<exists>m'. move_ConcurrentQueue tr a b m = Some m' \<and> represents tr m' a ns q \<and> represents tr m' b [] (ConcurrentQueue mo tr 0)
      \<and> (\<forall>d ks p. represents tr m d ks p \<and> d \<noteq> a \<and> d \<noteq> b \<and> set ks \<inter> set ns = {} \<longrightarrow> represents tr m' d ks p))
    \<and> (\<forall>ns' q'. represents tr m a ns' q' \<and> set ns' \<inter> set ns = {} \<longrightarrow>
        (\<exists>m'. swap_internal tr a b m = Some m' \<and> represents tr m' a ns q \<and> represents tr m' b ns' q'
          \<and> (\<forall>d ks p. represents tr m d ks p \<and> d \<noteq> a \<and> d \<noteq> b \<and> set ks \<inter> (set ns \<union> set ns') = {} \<longrightarrow> represents tr m' d ks p)))
    \<and> swap_internal tr b b m = Some m"
proof (intro conjI allI impI)
  obtain m' where m': "move_ConcurrentQueue tr a b m = Some m'" "represents tr m' a ns q" "represents tr m' b [] (ConcurrentQueue mo tr 0)"
    "\<And>d. d \<noteq> a \<Longrightarrow> d \<noteq> b \<Longrightarrow> objects m' d = objects m d" "\<And>k. k \<notin> set ns \<Longrightarrow> hash_nodes m' k = hash_nodes m k"
    by (rule move_ok [OF assms, where mo = mo]) blast
  have "represents tr m' d ks p" if "represents tr m d ks p" "d \<noteq> a" "d \<noteq> b" "set ks \<inter> set ns = {}" for d ks p
    using represents_other [OF that(1) m'(4) [OF that(2,3)]] m'(5) that(4) by blast
  with m' show "\<exists>m'. move_ConcurrentQueue tr a b m = Some m' \<and> represents tr m' a ns q \<and> represents tr m' b [] (ConcurrentQueue mo tr 0)
      \<and> (\<forall>d ks p. represents tr m d ks p \<and> d \<noteq> a \<and> d \<noteq> b \<and> set ks \<inter> set ns = {} \<longrightarrow> represents tr m' d ks p)" by blast
next
  fix ns' q' assume s: "represents tr m a ns' q' \<and> set ns' \<inter> set ns = {}"
  then have r: "represents tr m a ns' q'" "set ns' \<inter> set ns = {}" by blast+
  obtain m' where m': "swap_internal tr a b m = Some m'" "represents tr m' a ns q" "represents tr m' b ns' q'"
    "\<And>d. d \<noteq> a \<Longrightarrow> d \<noteq> b \<Longrightarrow> objects m' d = objects m d" "\<And>k. k \<notin> set ns' \<union> set ns \<Longrightarrow> hash_nodes m' k = hash_nodes m k"
    by (rule swap_internal_ok [OF r(1) assms r(2)]) blast
  have "represents tr m' d ks p" if "represents tr m d ks p" "d \<noteq> a" "d \<noteq> b" "set ks \<inter> (set ns \<union> set ns') = {}" for d ks p
    using represents_other [OF that(1) m'(4) [OF that(2,3)]] m'(5) that(4) by blast
  with m' show "\<exists>m'. swap_internal tr a b m = Some m' \<and> represents tr m' a ns q \<and> represents tr m' b ns' q'
      \<and> (\<forall>d ks p. represents tr m d ks p \<and> d \<noteq> a \<and> d \<noteq> b \<and> set ks \<inter> (set ns \<union> set ns') = {} \<longrightarrow> represents tr m' d ks p)" by blast
next
  show "swap_internal tr b b m = Some m" by (simp add: swap_internal_def)
qed

text \<open>Two queues in memory, the one at 1 with a second table of the hash on the heap.\<close>

definition demo_object :: "nat \<Rightarrow> 'a queue_object" where
  "demo_object a = \<lparr>o_pool = empty_pool small_traits, o_producers = [], o_parents = [], o_producerCount = 0, o_nextExplicitConsumerId = 0,
     o_globalExplicitConsumerOffset = 0, initialImplicitProducerHashEntries = empty_table 32,
     implicitProducerHash = (if a = 1 then Node 0 else Initial a), o_hashCount = 0\<rparr>"

definition demo_memory :: "'a memory" where
  "demo_memory = \<lparr>objects = demo_object, hash_nodes = (\<lambda>_. (empty_table 64, Initial 1))\<rparr>"

theorem queue_move_and_swap_witness:
  "\<exists>(m :: nat memory) q q' m'. represents small_traits m 1 [0] q \<and> represents small_traits m 2 [] q' \<and> length (tables (cq_hash q)) = 2
     \<and> swap_internal small_traits 2 1 m = Some m' \<and> represents small_traits m' 2 [0] q \<and> represents small_traits m' 1 [] q'"
proof -
  let ?q = "ConcurrentQueue (\<lambda>_. True) small_traits 0 :: nat cqueue"
  let ?q1 = "?q\<lparr>cq_hash := \<lparr>tables = [empty_table 64, empty_table 32], implicitProducerHashCount = 0\<rparr>\<rparr>"
  have n: "INITIAL_IMPLICIT_PRODUCER_HASH_SIZE small_traits = 32" by (simp add: small_traits_def default_traits_def)
  have r: "represents small_traits demo_memory 1 [0] ?q1" "represents small_traits demo_memory 2 [] ?q"
    by (simp_all add: represents_iff has_hash_def n demo_memory_def demo_object_def ConcurrentQueue_0 populate_initial_implicit_producer_hash_def)
  have "(2 :: nat) \<noteq> 1" by simp
  from queue_move_and_swap [where mo = "\<lambda>_. True", OF r(1) this, THEN conjunct2, THEN conjunct1, rule_format, of "[]" ?q] r(2)
  obtain m' where "swap_internal small_traits 2 1 demo_memory = Some m'" "represents small_traits m' 2 [0] ?q1" "represents small_traits m' 1 [] ?q"
    by (elim meta_impE exE conjE) auto
  then show ?thesis using r by (intro exI [of _ demo_memory] exI [of _ ?q1] exI [of _ ?q] exI [of _ m']) simp
qed

text \<open>The same for blocking queues, whose semaphore goes along; the queue moved from has none left.\<close>

lemma blocking_move_and_swap:
  assumes "represents tr (inner_memory m) b ns q" and "a \<noteq> b"
  shows "\<exists>m'. move_BlockingConcurrentQueue tr a b m = Some m' \<and> represents tr (inner_memory m') a ns q
      \<and> semas m' a = semas m b \<and> semas m' b = None"
    and "represents tr (inner_memory m) a ns' q' \<Longrightarrow> set ns' \<inter> set ns = {} \<Longrightarrow>
      \<exists>m'. blocking_swap_internal tr a b m = Some m' \<and> represents tr (inner_memory m') a ns q \<and> represents tr (inner_memory m') b ns' q'
        \<and> semas m' a = semas m b \<and> semas m' b = semas m a"
proof -
  obtain i where "move_ConcurrentQueue tr a b (inner_memory m) = Some i" "represents tr i a ns q"
    by (rule move_ok [OF assms, where mo = "\<lambda>_. True"]) blast
  then show "\<exists>m'. move_BlockingConcurrentQueue tr a b m = Some m' \<and> represents tr (inner_memory m') a ns q
      \<and> semas m' a = semas m b \<and> semas m' b = None"
    using assms(2) by (simp add: move_BlockingConcurrentQueue_def)
  assume r: "represents tr (inner_memory m) a ns' q'" "set ns' \<inter> set ns = {}"
  obtain i where "swap_internal tr a b (inner_memory m) = Some i" "represents tr i a ns q" "represents tr i b ns' q'"
    by (rule swap_internal_ok [OF r(1) assms r(2)]) blast
  then show "\<exists>m'. blocking_swap_internal tr a b m = Some m' \<and> represents tr (inner_memory m') a ns q \<and> represents tr (inner_memory m') b ns' q'
        \<and> semas m' a = semas m b \<and> semas m' b = semas m a"
    using assms(2) by (auto simp: blocking_swap_internal_def)
qed

end
