(* ===== verification/ThreadExit.thy ===== *)
theory ThreadExit
  imports Prelude
begin

text \<open>
  \<open>ThreadExitNotifier\<close>: how implicit producers learn that their thread exits.  Every thread has a notifier with a linked list of
  listeners, each inside a producer; a listener knows the notifier it is subscribed to, so that any thread can unsubscribe it.
  All operations hold one mutex and are atomic.  The links are pointers here and the loops follow them; the theorem
  says that they do what the operations on lists would.
\<close>

section \<open>State and operations\<close>

text \<open>A listener has the number of its producer, which is what its callback is called with.  A notifier has that of its thread.\<close>

record listener =
  next_listener :: "nat option"
  chain :: "nat option"

record notifiers =
  listeners :: "nat \<Rightarrow> listener"
  tails :: "nat \<Rightarrow> nat option"
  calls :: "nat list"

definition no_notifiers :: notifiers where
  "no_notifiers = \<lparr>listeners = (\<lambda>_. \<lparr>next_listener = None, chain = None\<rparr>), tails = (\<lambda>_. None), calls = []\<rparr>"

definition upd_listener :: "nat \<Rightarrow> (listener \<Rightarrow> listener) \<Rightarrow> notifiers \<Rightarrow> notifiers" where
  "upd_listener l g S = S\<lparr>listeners := (listeners S)(l := g (listeners S l))\<rparr>"

definition subscribe :: "nat \<Rightarrow> nat \<Rightarrow> notifiers \<Rightarrow> notifiers" where
  "subscribe thread l S =
     (upd_listener l (\<lambda>k. k\<lparr>next_listener := tails S thread, chain := Some thread\<rparr>) S)\<lparr>tails := (tails S)(thread := Some l)\<rparr>"

text \<open>What \<open>prev\<close> points to: the tail of a notifier or the link of a listener.\<close>

datatype link = Tail nat | Next nat

primrec set_link :: "link \<Rightarrow> nat option \<Rightarrow> notifiers \<Rightarrow> notifiers" where
  "set_link (Tail thread) p S = S\<lparr>tails := (tails S)(thread := p)\<rparr>"
| "set_link (Next l) p S = upd_listener l (\<lambda>k. k\<lparr>next_listener := p\<rparr>) S"

partial_function (option) unlink :: "nat \<Rightarrow> link \<Rightarrow> nat option \<Rightarrow> notifiers \<Rightarrow> notifiers option" where
  "unlink l prev ptr S =
     (case ptr of
        None \<Rightarrow> Some S
      | Some p \<Rightarrow>
          if p = l then Some (set_link prev (next_listener (listeners S p)) S)
          else unlink l (Next p) (next_listener (listeners S p)) S)"

definition unsubscribe :: "nat \<Rightarrow> notifiers \<Rightarrow> notifiers option" where
  "unsubscribe l S =
     (case chain (listeners S l) of
        None \<Rightarrow> Some S
      | Some thread \<Rightarrow> unlink l (Tail thread) (tails S thread) (upd_listener l (\<lambda>k. k\<lparr>chain := None\<rparr>) S))"

partial_function (option) notify :: "nat option \<Rightarrow> notifiers \<Rightarrow> notifiers option" where
  "notify ptr S =
     (case ptr of
        None \<Rightarrow> Some S
      | Some p \<Rightarrow>
          let S = (upd_listener p (\<lambda>k. k\<lparr>chain := None\<rparr>) S)\<lparr>calls := calls S @ [p]\<rparr>
          in notify (next_listener (listeners S p)) S)"

text \<open>The destructor of the notifier of a thread.  A later thread with the same number has a new one.\<close>

definition destroy_ThreadExitNotifier :: "nat \<Rightarrow> notifiers \<Rightarrow> notifiers option" where
  "destroy_ThreadExitNotifier thread S =
     map_option (\<lambda>S. S\<lparr>tails := (tails S)(thread := None)\<rparr>) (notify (tails S thread) S)"

section \<open>The lists\<close>

text \<open>The listeners from \<open>p\<close> on are \<open>xs\<close>.\<close>

fun listed :: "(nat \<Rightarrow> listener) \<Rightarrow> nat option \<Rightarrow> nat list \<Rightarrow> bool" where
  "listed ls p [] \<longleftrightarrow> p = None"
| "listed ls p (x # xs) \<longleftrightarrow> p = Some x \<and> listed ls (next_listener (ls x)) xs"

definition subscribed :: "notifiers \<Rightarrow> (nat \<Rightarrow> nat list) \<Rightarrow> bool" where
  "subscribed S A \<longleftrightarrow>
     (\<forall>t. listed (listeners S) (tails S t) (A t) \<and> distinct (A t) \<and> (\<forall>l. l \<in> set (A t) \<longleftrightarrow> chain (listeners S l) = Some t))"

lemma subscribedD:
  assumes "subscribed S A"
  shows "listed (listeners S) (tails S t) (A t)" and "distinct (A t)" and "l \<in> set (A t) \<longleftrightarrow> chain (listeners S l) = Some t"
  using assms by (simp_all add: subscribed_def)

lemma listed_cong: "(\<And>x. x \<in> set xs \<Longrightarrow> next_listener (ls' x) = next_listener (ls x)) \<Longrightarrow> listed ls' p xs = listed ls p xs"
  by (induction xs arbitrary: p) simp_all

lemma upd_listener_simps [simp]:
  "listeners (upd_listener l g S) k = (if k = l then g (listeners S l) else listeners S k)"
  "tails (upd_listener l g S) = tails S" "calls (upd_listener l g S) = calls S"
  by (simp_all add: upd_listener_def)

lemma no_notifiers_ok: "subscribed no_notifiers (\<lambda>_. [])"
  by (simp add: subscribed_def no_notifiers_def)

lemma subscribe_ok:
  assumes "subscribed S A" and "\<forall>t. l \<notin> set (A t)"
  shows "subscribed (subscribe t l S) (A(t := l # A t))"
proof -
  note s = subscribedD [OF assms(1)]
  have same: "listed (listeners (subscribe t l S)) p (A u) = listed (listeners S) p (A u)" for p u
    using assms(2) by (intro listed_cong) (auto simp: subscribe_def)
  show ?thesis unfolding subscribed_def
  proof (intro allI conjI)
    fix u k
    show "listed (listeners (subscribe t l S)) (tails (subscribe t l S) u) ((A(t := l # A t)) u)"
      using s(1) same by (simp add: subscribe_def)
    show "distinct ((A(t := l # A t)) u)" using s(2) assms(2) by simp
    show "k \<in> set ((A(t := l # A t)) u) \<longleftrightarrow> chain (listeners (subscribe t l S) k) = Some u"
      using s(3) assms(2) by (auto simp: subscribe_def)
  qed
qed

text \<open>What unlinking leaves alone.\<close>

definition unlinked :: "nat set \<Rightarrow> notifiers \<Rightarrow> notifiers \<Rightarrow> bool" where
  "unlinked xs S S' \<longleftrightarrow> calls S' = calls S \<and> (\<forall>k. chain (listeners S' k) = chain (listeners S k)) \<and> (\<forall>k. k \<notin> xs \<longrightarrow> listeners S' k = listeners S k)"

text \<open>The search behind a listener \<open>x\<close> that is not the one to go, then the search from the tail.\<close>

lemma unlink_behind:
  "listed (listeners S) (next_listener (listeners S x)) ys \<Longrightarrow> distinct (x # ys) \<Longrightarrow> x \<noteq> l \<Longrightarrow>
    \<exists>S'. unlink l (Next x) (next_listener (listeners S x)) S = Some S' \<and> listed (listeners S') (Some x) (x # remove1 l ys)
      \<and> unlinked (set (x # ys)) S S' \<and> tails S' = tails S"
proof (induction ys arbitrary: x)
  case Nil
  then show ?case by (simp add: unlink.simps unlinked_def)
next
  case (Cons y ys)
  have x: "next_listener (listeners S x) = Some y" and ys: "listed (listeners S) (next_listener (listeners S y)) ys" using Cons.prems(1) by simp_all
  show ?case
  proof (cases "y = l")
    case True
    let ?S = "set_link (Next x) (next_listener (listeners S y)) S"
    have "listed (listeners ?S) (next_listener (listeners S y)) ys = listed (listeners S) (next_listener (listeners S y)) ys"
      using Cons.prems(2) by (intro listed_cong) auto
    then show ?thesis using True x ys Cons.prems(2,3) by (simp add: unlink.simps unlinked_def)
  next
    case False
    have "distinct (y # ys)" using Cons.prems(2) by simp
    from Cons.IH [OF ys this False] obtain S' where S': "unlink l (Next y) (next_listener (listeners S y)) S = Some S'"
      "listed (listeners S') (Some y) (y # remove1 l ys)" "unlinked (set (y # ys)) S S'" "tails S' = tails S" by blast
    have "listeners S' x = listeners S x" using S'(3) Cons.prems(2) by (simp add: unlinked_def)
    then show ?thesis using S' x False by (intro exI [of _ S']) (simp add: unlink.simps [of l "Next x"] unlinked_def)
  qed
qed

lemma unlink_ok:
  assumes "listed (listeners S) (tails S t) xs" and "distinct xs"
  shows "\<exists>S'. unlink l (Tail t) (tails S t) S = Some S' \<and> listed (listeners S') (tails S' t) (remove1 l xs)
      \<and> unlinked (set xs) S S' \<and> (\<forall>u. u \<noteq> t \<longrightarrow> tails S' u = tails S u)"
proof (cases xs)
  case Nil
  then show ?thesis using assms by (simp add: unlink.simps unlinked_def)
next
  case (Cons x ys)
  have x: "tails S t = Some x" "listed (listeners S) (next_listener (listeners S x)) ys" "distinct (x # ys)" using assms Cons by simp_all
  show ?thesis
  proof (cases "x = l")
    case True
    then show ?thesis using x Cons by (simp add: unlink.simps unlinked_def)
  next
    case False
    from unlink_behind [OF x(2,3) False] show ?thesis using x(1) Cons False by (auto simp: unlink.simps [of l "Tail t"])
  qed
qed

lemma unsubscribe_ok:
  assumes "subscribed S A"
  shows "\<exists>S'. unsubscribe l S = Some S' \<and> subscribed S' (\<lambda>t. remove1 l (A t)) \<and> calls S' = calls S"
proof (cases "chain (listeners S l)")
  case None
  have "l \<notin> set (A t)" for t using subscribedD(3) [OF assms, of l t] None by simp
  then have "(\<lambda>t. remove1 l (A t)) = A" by (simp add: remove1_idem)
  then show ?thesis using assms None by (simp add: unsubscribe_def)
next
  case (Some t)
  note s = subscribedD [OF assms]
  let ?S = "upd_listener l (\<lambda>k. k\<lparr>chain := None\<rparr>) S"
  have "listed (listeners ?S) (tails ?S u) (A u)" for u using s(1) [of u] by (subst listed_cong [where ls = "listeners S"]) simp_all
  note listed = this
  from unlink_ok [OF listed [of t] s(2) [of t], of l] obtain S' where S': "unlink l (Tail t) (tails S t) ?S = Some S'"
    "listed (listeners S') (tails S' t) (remove1 l (A t))" "unlinked (set (A t)) ?S S'" "\<And>u. u \<noteq> t \<Longrightarrow> tails S' u = tails S u" by auto
  have ch: "chain (listeners S' k) = (if k = l then None else chain (listeners S k))" for k using S'(3) by (simp add: unlinked_def)
  have notin: "l \<notin> set (A u)" if "u \<noteq> t" for u using s(3) [of l u] Some that by simp
  have "listed (listeners S') (tails S' u) (remove1 l (A u))" for u
  proof (cases "u = t")
    case False
    have "listeners S' k = listeners ?S k" if "k \<in> set (A u)" for k
      using S'(3) s(3) [of k u] s(3) [of k t] that False by (auto simp: unlinked_def)
    then have "listed (listeners S') (tails S' u) (A u)"
      using listed [of u] S'(4) [OF False] by (subst listed_cong [where ls = "listeners ?S"]) simp_all
    then show ?thesis using notin [OF False] by (simp add: remove1_idem)
  qed (use S'(2) in simp)
  moreover have "k \<in> set (remove1 l (A u)) \<longleftrightarrow> chain (listeners S' k) = Some u" for k u
    using s(2,3) ch by (simp add: set_remove1_eq)
  ultimately have "subscribed S' (\<lambda>t. remove1 l (A t))" using s(2) by (simp add: subscribed_def)
  moreover have "calls S' = calls S" using S'(3) by (simp add: unlinked_def)
  ultimately show ?thesis using S'(1) Some by (simp add: unsubscribe_def)
qed

lemma notify_ok:
  "listed (listeners S) p xs \<Longrightarrow> distinct xs \<Longrightarrow>
    \<exists>S'. notify p S = Some S' \<and> calls S' = calls S @ xs \<and> tails S' = tails S
      \<and> (\<forall>k. next_listener (listeners S' k) = next_listener (listeners S k)
          \<and> chain (listeners S' k) = (if k \<in> set xs then None else chain (listeners S k)))"
proof (induction xs arbitrary: p S)
  case (Cons x xs)
  let ?S = "(upd_listener x (\<lambda>k. k\<lparr>chain := None\<rparr>) S)\<lparr>calls := calls S @ [x]\<rparr>"
  have "listed (listeners ?S) (next_listener (listeners ?S x)) xs"
    using Cons.prems by (subst listed_cong [where ls = "listeners S"]) simp_all
  from Cons.IH [OF this] Cons.prems(2) obtain S' where S': "notify (next_listener (listeners ?S x)) ?S = Some S'" "calls S' = calls ?S @ xs"
    "tails S' = tails ?S" "\<And>k. next_listener (listeners S' k) = next_listener (listeners ?S k)
          \<and> chain (listeners S' k) = (if k \<in> set xs then None else chain (listeners ?S k))" by auto
  then show ?case using Cons.prems(1) by (intro exI [of _ S']) (simp add: notify.simps [of "Some x"])
qed (simp add: notify.simps)

lemma exit_ok:
  assumes "subscribed S A"
  shows "\<exists>S'. destroy_ThreadExitNotifier t S = Some S' \<and> subscribed S' (A(t := [])) \<and> calls S' = calls S @ A t"
proof -
  note s = subscribedD [OF assms]
  from notify_ok [OF s(1,2), of t] obtain S' where S': "notify (tails S t) S = Some S'" "calls S' = calls S @ A t" "tails S' = tails S"
    "\<And>k. next_listener (listeners S' k) = next_listener (listeners S k)"
    "\<And>k. chain (listeners S' k) = (if k \<in> set (A t) then None else chain (listeners S k))" by blast
  let ?S = "S'\<lparr>tails := (tails S')(t := None)\<rparr>"
  have "listed (listeners ?S) (tails ?S u) ((A(t := [])) u)" for u
    using s(1) [of u] S'(3,4) by (cases "u = t") (simp_all, subst listed_cong [where ls = "listeners S"], simp_all)
  moreover have "k \<in> set ((A(t := [])) u) \<longleftrightarrow> chain (listeners ?S k) = Some u" for k u
    using s(3) S'(5) by auto
  ultimately have "subscribed ?S (A(t := []))" using s(2) by (simp add: subscribed_def)
  then show ?thesis using S'(1,2) by (simp add: destroy_ThreadExitNotifier_def)
qed

section \<open>Refinement\<close>

text \<open>Operations in the order in which they get the mutex, on pointers and on lists.\<close>

datatype notifier_op = Subscribe nat nat | Unsubscribe nat | Exit nat

primrec notifier_step :: "notifier_op \<Rightarrow> notifiers \<Rightarrow> notifiers option" where
  "notifier_step (Subscribe t l) S = Some (subscribe t l S)"
| "notifier_step (Unsubscribe l) S = unsubscribe l S"
| "notifier_step (Exit t) S = destroy_ThreadExitNotifier t S"

primrec notifier_run :: "notifier_op list \<Rightarrow> notifiers \<Rightarrow> notifiers option" where
  "notifier_run [] S = Some S"
| "notifier_run (x # xs) S = (case notifier_step x S of None \<Rightarrow> None | Some S \<Rightarrow> notifier_run xs S)"

primrec spec_step :: "notifier_op \<Rightarrow> (nat \<Rightarrow> nat list) \<times> nat list \<Rightarrow> (nat \<Rightarrow> nat list) \<times> nat list" where
  "spec_step (Subscribe t l) R = (case R of (A, called) \<Rightarrow> (A(t := l # A t), called))"
| "spec_step (Unsubscribe l) R = (case R of (A, called) \<Rightarrow> (\<lambda>t. remove1 l (A t), called))"
| "spec_step (Exit t) R = (case R of (A, called) \<Rightarrow> (A(t := []), called @ A t))"

text \<open>A producer subscribes when a thread takes it into use, so never while it is subscribed.\<close>

primrec fresh_subscriptions :: "notifier_op list \<Rightarrow> (nat \<Rightarrow> nat list) \<times> nat list \<Rightarrow> bool" where
  "fresh_subscriptions [] R \<longleftrightarrow> True"
| "fresh_subscriptions (x # xs) R \<longleftrightarrow>
     (case x of Subscribe t l \<Rightarrow> \<forall>u. l \<notin> set (fst R u) | _ \<Rightarrow> True) \<and> fresh_subscriptions xs (spec_step x R)"

lemma notifier_step_ok:
  assumes "subscribed S A" and "case x of Subscribe t l \<Rightarrow> \<forall>u. l \<notin> set (A u) | _ \<Rightarrow> True"
  shows "\<exists>S' A'. notifier_step x S = Some S' \<and> spec_step x (A, calls S) = (A', calls S') \<and> subscribed S' A'"
proof (cases x)
  case (Subscribe t l)
  then show ?thesis using subscribe_ok [OF assms(1), of l t] assms(2) by (simp add: subscribe_def)
next
  case (Unsubscribe l)
  then show ?thesis using unsubscribe_ok [OF assms(1), of l] by auto
next
  case (Exit t)
  then show ?thesis using exit_ok [OF assms(1), of t] by auto
qed

lemma notifier_run_ok:
  "subscribed S A \<Longrightarrow> fresh_subscriptions xs (A, calls S) \<Longrightarrow>
    \<exists>S' A'. notifier_run xs S = Some S' \<and> fold spec_step xs (A, calls S) = (A', calls S') \<and> subscribed S' A'"
proof (induction xs arbitrary: S A)
  case (Cons x xs)
  obtain S1 A1 where s: "notifier_step x S = Some S1" "spec_step x (A, calls S) = (A1, calls S1)" "subscribed S1 A1"
    using notifier_step_ok [OF Cons.prems(1), of x] Cons.prems(2) by (auto split: notifier_op.splits)
  then show ?case using Cons.IH [OF s(3)] Cons.prems(2) by simp
qed simp

text \<open>
  (C22) The linked lists of the exit notifiers do what lists per thread would, whichever threads subscribe, unsubscribe and exit in
  whatever order: every loop over the links ends, an exiting thread calls back exactly the producers subscribed with it and not
  unsubscribed since, each once and the latest first, and no listener stays linked that has been unsubscribed or called.
\<close>

theorem exit_notifier_refines:
  assumes "fresh_subscriptions xs (\<lambda>_. [], [])"
  shows "\<exists>S A. notifier_run xs no_notifiers = Some S \<and> fold spec_step xs (\<lambda>_. [], []) = (A, calls S)
    \<and> (\<forall>t. listed (listeners S) (tails S t) (A t) \<and> distinct (A t) \<and> (\<forall>l. l \<in> set (A t) \<longleftrightarrow> chain (listeners S l) = Some t))"
  using notifier_run_ok [OF no_notifiers_ok, of xs] assms by (simp add: no_notifiers_def subscribed_def)

theorem exit_notifier_refines_witness:
  "\<exists>S. notifier_run [Subscribe 1 7, Subscribe 1 8, Subscribe 2 9, Unsubscribe 7, Subscribe 1 6, Exit 1] no_notifiers = Some S
     \<and> calls S = [6, 8] \<and> tails S 1 = None \<and> tails S 2 = Some 9"
proof -
  let ?xs = "[Subscribe 1 7, Subscribe 1 8, Subscribe 2 9, Unsubscribe 7, Subscribe 1 6, Exit 1]"
  have "fresh_subscriptions ?xs (\<lambda>_. [], [])" by simp
  from exit_notifier_refines [OF this] obtain S A where S: "notifier_run ?xs no_notifiers = Some S"
    "fold spec_step ?xs (\<lambda>_. [], []) = (A, calls S)" "\<And>t. listed (listeners S) (tails S t) (A t)" by blast
  then have "calls S = [6, 8]" and A: "A 1 = []" "A 2 = [9]" by auto
  then show ?thesis using S(1) S(3) [of 1] S(3) [of 2] by simp
qed

end
