(* ===== verification/BlockingConcurrentQueue.thy ===== *)
theory BlockingConcurrentQueue
  imports ConcurrentQueueClients LightweightSemaphore
begin

text \<open>
  Model of \<open>shared/queue_internal/blockingconcurrentqueue.h\<close>: a \<open>ConcurrentQueue\<close> (theory \<open>ConcurrentQueue\<close>) with a
  \<open>LightweightSemaphore\<close> (theory \<open>LightweightSemaphore\<close>) that counts its elements.  Any number of threads run the
  operations: the steps of the semaphore are those of its own model, one atomic access or system call each, and
  they interleave with the operations on the inner queue, each of which is one step.  A consumer first takes a permit
  from the semaphore and then repeats the inner dequeue until it succeeds.
\<close>

section \<open>State\<close>

text \<open>
  Where a thread is.  \<open>B_one\<close> and \<open>B_many\<close> are inside an operation of the semaphore that takes one or several permits,
  \<open>B_again\<close> before another call of \<open>wait\<close>; \<open>B_dequeue\<close> and \<open>B_dequeue_bulk\<close> in the loop over the inner dequeue, with the
  elements still to get; \<open>B_many\<close> remembers how many permits were asked for.  The option is the address of the consumer token used, if one is.
\<close>

datatype bpc =
    B_Idle
  | B_signal nat | B_in_signal
  | B_one bool "nat option" | B_again "nat option" | B_many int "nat option"
  | B_dequeue "nat option" | B_dequeue_bulk nat "nat option"

text \<open>\<open>inner\<close> and \<open>sema\<close> are the queue, the other fields its clients; \<open>acts\<close> is a ghost, the trace of the inner queue.\<close>

record 'a bqueue =
  inner :: "'a cqueue"
  sema :: sem
  bpcs :: "nat \<Rightarrow> bpc"
  ptoks :: "nat \<rightharpoonup> nat option"
  ctoks :: "nat \<rightharpoonup> ctoken"
  acts :: "'a act list"

definition new_blocking :: "bool \<Rightarrow> nat \<Rightarrow> 'a cqueue \<Rightarrow> exn + 'a bqueue" where
  "new_blocking sema_ok maxSpins q =
     (if sema_ok
      then Inr \<lparr>inner = q, sema = LightweightSemaphore 0 maxSpins, bpcs = (\<lambda>_. B_Idle), ptoks = Map.empty, ctoks = Map.empty, acts = []\<rparr>
      else Inl bad_alloc)"

text \<open>The two constructors; \<open>sema_ok\<close> says whether the allocation of the semaphore succeeds.\<close>

definition BlockingConcurrentQueue :: "bool \<Rightarrow> nat \<Rightarrow> (nat \<Rightarrow> bool) \<Rightarrow> traits \<Rightarrow> nat \<Rightarrow> exn + 'a bqueue" where
  "BlockingConcurrentQueue sema_ok maxSpins malloc_ok tr cap = new_blocking sema_ok maxSpins (ConcurrentQueue malloc_ok tr cap)"

definition BlockingConcurrentQueue_sized ::
  "bool \<Rightarrow> nat \<Rightarrow> (nat \<Rightarrow> bool) \<Rightarrow> traits \<Rightarrow> size_t \<Rightarrow> size_t \<Rightarrow> size_t \<Rightarrow> exn + 'a bqueue" where
  "BlockingConcurrentQueue_sized sema_ok maxSpins malloc_ok tr minCapacity maxExplicit maxImplicit =
     new_blocking sema_ok maxSpins (ConcurrentQueue_sized malloc_ok tr minCapacity maxExplicit maxImplicit)"

definition goto :: "nat \<Rightarrow> bpc \<Rightarrow> 'a bqueue \<Rightarrow> 'a bqueue" where
  "goto t p s = s\<lparr>bpcs := (bpcs s)(t := p)\<rparr>"

section \<open>Enqueue\<close>

text \<open>When the inner operation has succeeded the thread goes on to signal; a failure or an exception ends the operation.\<close>

definition enqueued :: "nat \<Rightarrow> 'a act list \<Rightarrow> exn + bool \<Rightarrow> 'a cqueue \<Rightarrow> 'a bqueue \<Rightarrow> 'a bqueue" where
  "enqueued t as r q s =
     (if r = Inr True then goto t (B_signal (length as)) (s\<lparr>inner := q, acts := acts s @ as\<rparr>) else s\<lparr>inner := q\<rparr>)"

definition blocking_enqueue ::
  "(nat \<Rightarrow> bool) \<Rightarrow> traits \<Rightarrow> AllocationMode \<Rightarrow> exn option \<Rightarrow> thread_id \<Rightarrow> nat \<Rightarrow> 'a \<Rightarrow> 'a bqueue \<Rightarrow> 'a bqueue option" where
  "blocking_enqueue malloc_ok tr m throws tid t x s =
     (if bpcs s t = B_Idle then
        map_option (\<lambda>(r, q). enqueued t [Sent (the (the (producer_of q tid))) x] r q s) (enqueue malloc_ok tr m throws tid x (inner s))
      else None)"

definition blocking_enqueue_token ::
  "(nat \<Rightarrow> bool) \<Rightarrow> traits \<Rightarrow> AllocationMode \<Rightarrow> exn option \<Rightarrow> nat \<Rightarrow> nat \<Rightarrow> 'a \<Rightarrow> 'a bqueue \<Rightarrow> 'a bqueue option" where
  "blocking_enqueue_token malloc_ok tr m throws a t x s =
     (case ptoks s a of
        Some (Some i) \<Rightarrow>
          if bpcs s t = B_Idle
          then (case enqueue_token malloc_ok tr m throws i x (inner s) of (r, q) \<Rightarrow> Some (enqueued t [Sent i x] r q s))
          else None
      | _ \<Rightarrow> None)"

definition blocking_enqueue_bulk ::
  "(nat \<Rightarrow> bool) \<Rightarrow> traits \<Rightarrow> AllocationMode \<Rightarrow> thread_id \<Rightarrow> nat \<Rightarrow> (exn option \<times> 'a) list \<Rightarrow> 'a bqueue \<Rightarrow> 'a bqueue option" where
  "blocking_enqueue_bulk malloc_ok tr m tid t items s =
     (if bpcs s t = B_Idle then
        map_option (\<lambda>(r, q). enqueued t (map (Sent (the (the (producer_of q tid)))) (map snd items)) r q s)
          (enqueue_bulk malloc_ok tr m tid items (inner s))
      else None)"

definition blocking_enqueue_bulk_token ::
  "(nat \<Rightarrow> bool) \<Rightarrow> traits \<Rightarrow> AllocationMode \<Rightarrow> nat \<Rightarrow> nat \<Rightarrow> (exn option \<times> 'a) list \<Rightarrow> 'a bqueue \<Rightarrow> 'a bqueue option" where
  "blocking_enqueue_bulk_token malloc_ok tr m a t items s =
     (case ptoks s a of
        Some (Some i) \<Rightarrow>
          if bpcs s t = B_Idle
          then (case enqueue_bulk_token malloc_ok tr m i items (inner s) of
                  (r, q) \<Rightarrow> Some (enqueued t (map (Sent i) (map snd items)) r q s))
          else None
      | _ \<Rightarrow> None)"

section \<open>The semaphore\<close>

text \<open>A call of the semaphore, a step of the thread inside it, and what follows when the call returns \<open>n\<close>.\<close>

definition sema_call :: "nat \<Rightarrow> sem_call \<Rightarrow> bpc \<Rightarrow> 'a bqueue \<Rightarrow> 'a bqueue option" where
  "sema_call t c p s = map_option (\<lambda>m. goto t p (s\<lparr>sema := m\<rparr>)) (sem_call_step t (SCall c) (sema s))"

definition sema_returns :: "nat \<Rightarrow> int \<Rightarrow> 'a bqueue \<Rightarrow> 'a bqueue" where
  "sema_returns t n s =
     goto t (case bpcs s t of
         B_one again tok \<Rightarrow> if n = 0 then if again then B_again tok else B_Idle else B_dequeue tok
       | B_many mx tok \<Rightarrow> if n = 0 then B_Idle else B_dequeue_bulk (nat n) tok
       | _ \<Rightarrow> B_Idle) s"

definition in_sema :: "bpc \<Rightarrow> bool" where
  "in_sema p \<longleftrightarrow> (case p of B_in_signal \<Rightarrow> True | B_one _ _ \<Rightarrow> True | B_many _ _ \<Rightarrow> True | _ \<Rightarrow> False)"

definition sema_step :: "nat \<Rightarrow> sem_input \<Rightarrow> 'a bqueue \<Rightarrow> 'a bqueue option" where
  "sema_step t inp s =
     (if in_sema (bpcs s t)
      then map_option (\<lambda>m. let s' = s\<lparr>sema := m\<rparr> in
             if spc m t = S_Idle then sema_returns t (returned m - returned (sema s)) s' else s') (sstep t inp (sema s))
      else None)"

text \<open>\<open>sema->signal\<close> after an enqueue.\<close>

definition signal_after :: "nat \<Rightarrow> 'a bqueue \<Rightarrow> 'a bqueue option" where
  "signal_after t s = (case bpcs s t of B_signal n \<Rightarrow> sema_call t (C_signal (int n)) B_in_signal s | _ \<Rightarrow> None)"

section \<open>Dequeue\<close>

text \<open>The cast \<open>(ssize_t)\<close> of a \<open>size_t\<close>.\<close>

definition to_ssize :: "size_t \<Rightarrow> int" where
  "to_ssize n = sint n"

definition when_idle :: "nat \<Rightarrow> 'a bqueue \<Rightarrow> 'a bqueue option \<Rightarrow> 'a bqueue option" where
  "when_idle t s r = (if bpcs s t = B_Idle then r else None)"

definition blocking_try_dequeue :: "nat \<Rightarrow> nat option \<Rightarrow> 'a bqueue \<Rightarrow> 'a bqueue option" where
  "blocking_try_dequeue t tok s = when_idle t s (sema_call t C_tryWait (B_one False tok) s)"

definition blocking_try_dequeue_bulk :: "nat \<Rightarrow> nat option \<Rightarrow> size_t \<Rightarrow> 'a bqueue \<Rightarrow> 'a bqueue option" where
  "blocking_try_dequeue_bulk t tok mx s = when_idle t s (sema_call t (C_tryWaitMany (to_ssize mx)) (B_many (to_ssize mx) tok) s)"

definition wait_dequeue :: "nat \<Rightarrow> nat option \<Rightarrow> 'a bqueue \<Rightarrow> 'a bqueue option" where
  "wait_dequeue t tok s = when_idle t s (sema_call t (C_wait (-1)) (B_one True tok) s)"

definition wait_again :: "nat \<Rightarrow> 'a bqueue \<Rightarrow> 'a bqueue option" where
  "wait_again t s = (case bpcs s t of B_again tok \<Rightarrow> sema_call t (C_wait (-1)) (B_one True tok) s | _ \<Rightarrow> None)"

definition wait_dequeue_timed :: "nat \<Rightarrow> nat option \<Rightarrow> int \<Rightarrow> 'a bqueue \<Rightarrow> 'a bqueue option" where
  "wait_dequeue_timed t tok timeout_usecs s = when_idle t s (sema_call t (C_wait timeout_usecs) (B_one False tok) s)"

definition wait_dequeue_bulk :: "nat \<Rightarrow> nat option \<Rightarrow> size_t \<Rightarrow> 'a bqueue \<Rightarrow> 'a bqueue option" where
  "wait_dequeue_bulk t tok mx s = when_idle t s (sema_call t (C_waitMany (to_ssize mx) (-1)) (B_many (to_ssize mx) tok) s)"

definition wait_dequeue_bulk_timed :: "nat \<Rightarrow> nat option \<Rightarrow> size_t \<Rightarrow> int \<Rightarrow> 'a bqueue \<Rightarrow> 'a bqueue option" where
  "wait_dequeue_bulk_timed t tok mx timeout_usecs s =
     when_idle t s (sema_call t (C_waitMany (to_ssize mx) timeout_usecs) (B_many (to_ssize mx) tok) s)"

text \<open>The dequeues of the inner queue, without and with a consumer token.\<close>

definition inner_try_dequeue :: "traits \<Rightarrow> nat option \<Rightarrow> 'a bqueue \<Rightarrow> ((bool \<times> 'a option) \<times> 'a bqueue) option" where
  "inner_try_dequeue tr tok s =
     (case tok of
        None \<Rightarrow> (case try_dequeue tr (inner s) of (r, q) \<Rightarrow> Some (r, s\<lparr>inner := q\<rparr>))
      | Some a \<Rightarrow>
          (case ctoks s a of None \<Rightarrow> None
           | Some c \<Rightarrow> map_option (\<lambda>(r, c', q). (r, s\<lparr>inner := q, ctoks := (ctoks s)(a \<mapsto> c')\<rparr>)) (try_dequeue_token tr c (inner s))))"

definition inner_try_dequeue_bulk :: "traits \<Rightarrow> nat option \<Rightarrow> nat \<Rightarrow> 'a bqueue \<Rightarrow> ('a option list \<times> 'a bqueue) option" where
  "inner_try_dequeue_bulk tr tok mx s =
     (case tok of
        None \<Rightarrow> (case try_dequeue_bulk tr mx (inner s) of (items, q) \<Rightarrow> Some (items, s\<lparr>inner := q\<rparr>))
      | Some a \<Rightarrow>
          (case ctoks s a of None \<Rightarrow> None
           | Some c \<Rightarrow> map_option (\<lambda>(items, c', q). (items, s\<lparr>inner := q, ctoks := (ctoks s)(a \<mapsto> c')\<rparr>))
                         (try_dequeue_bulk_token tr c mx (inner s))))"

text \<open>One round of the loop that follows the permits: \<open>while (!inner.try_dequeue(item))\<close> and \<open>while (count != max)\<close>.\<close>

definition dequeue_round :: "traits \<Rightarrow> nat \<Rightarrow> 'a bqueue \<Rightarrow> 'a bqueue option" where
  "dequeue_round tr t s =
     (case bpcs s t of
        B_dequeue tok \<Rightarrow>
          map_option (\<lambda>((ok, v), s'). if ok then goto t B_Idle (s'\<lparr>acts := acts s' @ [Received v]\<rparr>) else s') (inner_try_dequeue tr tok s)
      | B_dequeue_bulk n tok \<Rightarrow>
          map_option (\<lambda>(items, s').
              goto t (if length items = n then B_Idle else B_dequeue_bulk (n - length items) tok)
                (s'\<lparr>acts := acts s' @ map Received items\<rparr>)) (inner_try_dequeue_bulk tr tok n s)
      | _ \<Rightarrow> None)"

definition blocking_size_approx :: "'a bqueue \<Rightarrow> int" where
  "blocking_size_approx s = availableApprox (sema s)"

end
