(* ===== verification/BlockingQueueFifo.thy ===== *)
theory BlockingQueueFifo
  imports BlockingConcurrentQueue
begin

text \<open>
  Correctness of the blocking queue: what a thread does inside the semaphore, the account of every element of the inner
  queue, and the properties that follow in any interleaving.
\<close>

section \<open>What a thread does inside the semaphore\<close>

fun one_pc :: "sem_pc \<Rightarrow> bool" where
  "one_pc (TW_load _) = True" | "one_pc (TW_cas _ n) = (n > 0)"
| "one_pc (WS_spin _ _) = True" | "one_pc (WS_cas _ n _) = (n > 0)" | "one_pc (WS_fetch _) = True" | "one_pc (WS_sleep _) = True"
| "one_pc WS_adjust = True" | "one_pc (WS_adjust_try _) = True" | "one_pc _ = False"

primrec asked :: "mcont \<Rightarrow> int \<Rightarrow> int" where
  "asked ReturnTryMany mx = mx"
| "asked (ForWaitMany timeout) mx = mx"
| "asked AfterSleep mx = mx + 1"

fun many_pc :: "int \<Rightarrow> sem_pc \<Rightarrow> bool" where
  "many_pc mx (TM_load c mx') = (mx' \<ge> 0 \<and> asked c mx' = mx)" | "many_pc mx (TM_cas c mx' n) = (mx' \<ge> 0 \<and> asked c mx' = mx \<and> n > 0)"
| "many_pc mx (MS_spin _ mx' _) = (mx' > 0 \<and> mx' = mx)" | "many_pc mx (MS_cas _ mx' n _) = (mx' > 0 \<and> mx' = mx \<and> n > 0)"
| "many_pc mx (MS_fetch mx' _) = (mx' > 0 \<and> mx' = mx)" | "many_pc mx (MS_sleep mx' _) = (mx' > 0 \<and> mx' = mx)"
| "many_pc mx (MS_adjust mx') = (mx' > 0 \<and> mx' = mx)" | "many_pc mx (MS_adjust_try mx' _) = (mx' > 0 \<and> mx' = mx)"
| "many_pc mx _ = False"

fun signal_pc :: "sem_pc \<Rightarrow> bool" where
  "signal_pc (SG_add n) = True" | "signal_pc (SG_post _) = True" | "signal_pc _ = False"

text \<open>What a thread inside \<open>signal\<close> has still to add to the counter.\<close>

fun adding :: "sem_pc \<Rightarrow> int" where
  "adding (SG_add n) = n" | "adding _ = 0"

text \<open>
  A step of thread \<open>t\<close> within an operation whose points satisfy \<open>C\<close>: it stays in the operation or returns at most
  \<open>limit\<close> permits, and adds to \<open>signalled\<close> what it had to add.
\<close>

definition op_step :: "nat \<Rightarrow> (sem_pc \<Rightarrow> bool) \<Rightarrow> int \<Rightarrow> sem \<Rightarrow> sem \<Rightarrow> bool" where
  "op_step t C limit m m' \<longleftrightarrow>
     spc m' = (spc m)(t := spc m' t) \<and> (spc m' t = S_Idle \<or> C (spc m' t))
     \<and> signalled m' = signalled m + adding (spc m t) - adding (spc m' t)
     \<and> returned m \<le> returned m' \<and> (if spc m' t = S_Idle then returned m' \<le> returned m + limit else returned m' = returned m)"

lemma one_step:
  assumes "one_pc (spc m t)" and "sstep t inp m = Some m'"
  shows "op_step t one_pc 1 m m'"
  using assms
  by (cases "spc m t"; simp add: sstep_def sem_steps split: if_splits wcont.splits nat.splits sem_input.splits option.splits)
     (auto simp: op_step_def mv_def fun_upd_idem split: if_splits wcont.splits)

lemma many_step:
  assumes "many_pc mx (spc m t)" and "sstep t inp m = Some m'"
  shows "op_step t (many_pc mx) mx m m'"
  using assms
  by (cases "spc m t"; simp add: sstep_def sem_steps split: if_splits mcont.splits nat.splits sem_input.splits option.splits)
     (auto simp: op_step_def mv_def fun_upd_idem newCount_of_def split: if_splits mcont.splits)

lemma signal_class_step:
  assumes "signal_pc (spc m t)" and "sstep t inp m = Some m'"
  shows "op_step t signal_pc 0 m m'"
  using assms
  by (cases "spc m t"; simp add: sstep_def sem_steps split: if_splits nat.splits sem_input.splits option.splits)
     (auto simp: op_step_def mv_def fun_upd_idem split: if_splits)

section \<open>Runs\<close>

text \<open>
  The states any number of threads reach in any interleaving.  The client provides what the code asks of it: tokens that
  exist, a valid producer token to enqueue with, thread ids other than the two marks of the hash.  The last argument counts the
  bulk enqueues through a producer token that failed or threw, after which the inner queue may hand out memory without an element
  (\<open>failed_bulk_breaks_fifo\<close>).
\<close>

inductive bhistory :: "(nat \<Rightarrow> bool) \<Rightarrow> traits \<Rightarrow> nat \<Rightarrow> 'a bqueue \<Rightarrow> nat \<Rightarrow> bool" for mo tr spins where
  start: "BlockingConcurrentQueue sema_ok spins mo tr cap = Inr s \<Longrightarrow> bhistory mo tr spins s 0"
| start_sized: "BlockingConcurrentQueue_sized sema_ok spins mo tr cap ne ni = Inr s \<Longrightarrow> bhistory mo tr spins s 0"
| token: "bhistory mo tr spins s n \<Longrightarrow> ptoks s a = None \<Longrightarrow> ProducerToken mo tr a (inner s) = (p, q') \<Longrightarrow>
    bhistory mo tr spins (s\<lparr>inner := q', ptoks := (ptoks s)(a \<mapsto> p)\<rparr>) n"
| token_move: "bhistory mo tr spins s n \<Longrightarrow> ptoks s b = Some p \<Longrightarrow> ptoks s a = None \<Longrightarrow>
    ProducerToken_move a p (inner s) = (this, other, q') \<Longrightarrow> bhistory mo tr spins (s\<lparr>inner := q', ptoks := (ptoks s)(a \<mapsto> this, b \<mapsto> other)\<rparr>) n"
| token_swap: "bhistory mo tr spins s n \<Longrightarrow> ptoks s a = Some p \<Longrightarrow> ptoks s b = Some p' \<Longrightarrow> a \<noteq> b \<Longrightarrow>
    ProducerToken_swap a p b p' (inner s) = (this, other, q') \<Longrightarrow> bhistory mo tr spins (s\<lparr>inner := q', ptoks := (ptoks s)(a \<mapsto> this, b \<mapsto> other)\<rparr>) n"
| token_destroy: "bhistory mo tr spins s n \<Longrightarrow> ptoks s a = Some p \<Longrightarrow>
    bhistory mo tr spins (s\<lparr>inner := destroy_ProducerToken p (inner s), ptoks := (ptoks s)(a := None)\<rparr>) n"
| consumer: "bhistory mo tr spins s n \<Longrightarrow> ConsumerToken (inner s) = (c, q') \<Longrightarrow>
    bhistory mo tr spins (s\<lparr>inner := q', ctoks := (ctoks s)(a \<mapsto> c)\<rparr>) n"
| thread_exit: "bhistory mo tr spins s n \<Longrightarrow> live tid \<Longrightarrow> INITIAL_IMPLICIT_PRODUCER_HASH_SIZE tr \<noteq> 0 \<Longrightarrow>
    producer_of (inner s) tid = Some (Some i) \<Longrightarrow> thread_exited tid i (inner s) = Some q' \<Longrightarrow> bhistory mo tr spins (s\<lparr>inner := q'\<rparr>) n"
| enqueue: "bhistory mo tr spins s n \<Longrightarrow> live tid \<Longrightarrow> blocking_enqueue mo tr m th tid t x s = Some s' \<Longrightarrow> bhistory mo tr spins s' n"
| enqueue_token: "bhistory mo tr spins s n \<Longrightarrow> blocking_enqueue_token mo tr m th a t x s = Some s' \<Longrightarrow> bhistory mo tr spins s' n"
| enqueue_bulk: "bhistory mo tr spins s n \<Longrightarrow> live tid \<Longrightarrow> blocking_enqueue_bulk mo tr m tid t items s = Some s' \<Longrightarrow> bhistory mo tr spins s' n"
| enqueue_bulk_token: "bhistory mo tr spins s n \<Longrightarrow> blocking_enqueue_bulk_token mo tr m a t items s = Some s' \<Longrightarrow>
    ptoks s a = Some (Some i) \<Longrightarrow> fst (enqueue_bulk_token mo tr m i items (inner s)) = Inr True \<Longrightarrow> bhistory mo tr spins s' n"
| bulk_token_failed: "bhistory mo tr spins s n \<Longrightarrow> blocking_enqueue_bulk_token mo tr m a t items s = Some s' \<Longrightarrow>
    ptoks s a = Some (Some i) \<Longrightarrow> fst (enqueue_bulk_token mo tr m i items (inner s)) \<noteq> Inr True \<Longrightarrow> bhistory mo tr spins s' (Suc n)"
| signal: "bhistory mo tr spins s n \<Longrightarrow> signal_after t s = Some s' \<Longrightarrow> bhistory mo tr spins s' n"
| sema: "bhistory mo tr spins s n \<Longrightarrow> sema_step t inp s = Some s' \<Longrightarrow> bhistory mo tr spins s' n"
| try_dequeue: "bhistory mo tr spins s n \<Longrightarrow> blocking_try_dequeue t tok s = Some s' \<Longrightarrow> bhistory mo tr spins s' n"
| try_dequeue_bulk: "bhistory mo tr spins s n \<Longrightarrow> blocking_try_dequeue_bulk t tok mx s = Some s' \<Longrightarrow> bhistory mo tr spins s' n"
| wait: "bhistory mo tr spins s n \<Longrightarrow> wait_dequeue t tok s = Some s' \<Longrightarrow> bhistory mo tr spins s' n"
| again: "bhistory mo tr spins s n \<Longrightarrow> wait_again t s = Some s' \<Longrightarrow> bhistory mo tr spins s' n"
| wait_timed: "bhistory mo tr spins s n \<Longrightarrow> wait_dequeue_timed t tok timeout s = Some s' \<Longrightarrow> bhistory mo tr spins s' n"
| wait_bulk: "bhistory mo tr spins s n \<Longrightarrow> wait_dequeue_bulk t tok mx s = Some s' \<Longrightarrow> bhistory mo tr spins s' n"
| wait_bulk_timed: "bhistory mo tr spins s n \<Longrightarrow> wait_dequeue_bulk_timed t tok mx timeout s = Some s' \<Longrightarrow> bhistory mo tr spins s' n"
| round: "bhistory mo tr spins s n \<Longrightarrow> dequeue_round tr t s = Some s' \<Longrightarrow> bhistory mo tr spins s' n"

text \<open>The histories in which every bulk enqueue through a producer token succeeded.\<close>

abbreviation breach :: "(nat \<Rightarrow> bool) \<Rightarrow> traits \<Rightarrow> nat \<Rightarrow> 'a bqueue \<Rightarrow> bool" where
  "breach mo tr spins s \<equiv> bhistory mo tr spins s 0"

section \<open>The invariant\<close>

text \<open>
  Every element in the inner queue is accounted for: it has been signalled and no permit for it returned, its producer
  has not signalled it yet, or a consumer holds a permit and has not taken it yet.
\<close>

fun pending :: "bpc \<Rightarrow> int" where
  "pending (B_signal n) = int n" | "pending (B_dequeue tok) = 1" | "pending (B_dequeue_bulk n tok) = int n" | "pending _ = 0"

definition thread_ok :: "bpc \<Rightarrow> sem_pc \<Rightarrow> bool" where
  "thread_ok p q \<longleftrightarrow>
     (case p of B_in_signal \<Rightarrow> signal_pc q | B_one _ _ \<Rightarrow> one_pc q | B_many mx _ \<Rightarrow> many_pc mx q | _ \<Rightarrow> q = S_Idle)
     \<and> (case p of B_many mx _ \<Rightarrow> mx \<ge> 0 | _ \<Rightarrow> True)"

primrec worth :: "'a act \<Rightarrow> int" where
  "worth (Sent i x) = 1"
| "worth (Received v) = - 1"

definition elements_left :: "'a act list \<Rightarrow> int" where
  "elements_left as = sum_list (map worth as)"

definition accounted :: "'a bqueue \<Rightarrow> bool" where
  "accounted s \<longleftrightarrow> elements_left (acts s) =
     signalled (sema s) - returned (sema s) + thread_sum B_Idle pending (bpcs s) + thread_sum S_Idle adding (spc (sema s))"

definition binv :: "(nat \<Rightarrow> bool) \<Rightarrow> traits \<Rightarrow> nat \<Rightarrow> 'a bqueue \<Rightarrow> bool" where
  "binv mo tr spins s \<longleftrightarrow>
     cq_run mo tr (inner s) (ptoks s) (ctoks s) (acts s) \<and> sreach 0 spins (sema s)
     \<and> fin_threads B_Idle (bpcs s) \<and> (\<forall>t. thread_ok (bpcs s t) (spc (sema s) t)) \<and> accounted s"

lemma elements_left_simps [simp]:
  "elements_left [] = 0" "elements_left (as @ bs) = elements_left as + elements_left bs"
  "elements_left [a] = worth a" "elements_left (map Received items) = - int (length items)"
  by (simp_all add: elements_left_def) (induction items; simp)

lemma binv_goto:
  assumes "binv mo tr spins s" and "cq_run mo tr q ptoks' ctoks' as" and "thread_ok p (spc (sema s) t)"
    and "elements_left as = elements_left (acts s) + pending p - pending (bpcs s t)"
  shows "binv mo tr spins (goto t p (s\<lparr>inner := q, ptoks := ptoks', ctoks := ctoks', acts := as\<rparr>))"
  using assms by (simp add: binv_def goto_def accounted_def thread_sum_upd)

lemma binv_stay:
  assumes "binv mo tr spins s" and "cq_run mo tr q ptoks' ctoks' (acts s)"
  shows "binv mo tr spins (s\<lparr>inner := q, ptoks := ptoks', ctoks := ctoks'\<rparr>)"
  using assms by (simp add: binv_def accounted_def)

text \<open>Calling the semaphore.\<close>

lemma binv_call:
  assumes "binv mo tr spins s" and "sema_call t c p s = Some s'" and "spc (sema s) t = S_Idle"
    and "\<And>q. call_pc c = Some q \<Longrightarrow> thread_ok p q \<and> adding q + pending p = pending (bpcs s t)"
  shows "binv mo tr spins s'"
proof -
  obtain q where q: "call_pc c = Some q" "sem_call_step t (SCall c) (sema s) = Some (at t q (sema s))"
    "s' = goto t p (s\<lparr>sema := at t q (sema s)\<rparr>)"
    using assms(2,3) by (auto simp: sema_call_def sem_call_step_def)
  have fin: "fin_threads S_Idle (spc (sema s))" using assms(1) sem_balance(4) unfolding binv_def by blast
  have "sreach 0 spins (at t q (sema s))"
    using assms(1) q(2) sreach.step [of 0 spins "sema s" t "SCall c"] by (simp add: binv_def sstep_def)
  then show ?thesis using assms(1) q(3) assms(4) [OF q(1)] fin assms(3)
    by (simp add: binv_def goto_def accounted_def thread_sum_upd at_def)
qed

lemma outside_idle: "binv mo tr spins s \<Longrightarrow> \<not> in_sema (bpcs s t) \<Longrightarrow> spc (sema s) t = S_Idle"
proof -
  assume "binv mo tr spins s" and o: "\<not> in_sema (bpcs s t)"
  then have "thread_ok (bpcs s t) (spc (sema s) t)" by (simp add: binv_def)
  then show ?thesis using o by (cases "bpcs s t") (simp_all add: thread_ok_def in_sema_def)
qed

definition op_of :: "bpc \<Rightarrow> (sem_pc \<Rightarrow> bool) \<times> int" where
  "op_of p = (case p of B_one _ _ \<Rightarrow> (one_pc, 1) | B_many mx _ \<Rightarrow> (many_pc mx, mx) | _ \<Rightarrow> (signal_pc, 0))"

lemma in_sema_op:
  assumes "binv mo tr spins s" and "in_sema (bpcs s t)" and "sstep t inp (sema s) = Some m"
  shows "op_step t (fst (op_of (bpcs s t))) (snd (op_of (bpcs s t))) (sema s) m"
proof -
  have "thread_ok (bpcs s t) (spc (sema s) t)" using assms(1) by (simp add: binv_def)
  then show ?thesis using assms(2,3)
    by (cases "bpcs s t") (auto simp: in_sema_def thread_ok_def op_of_def intro: one_step many_step signal_class_step)
qed

text \<open>What a step inside the semaphore leads to.\<close>

lemma sema_step_cases [consumes 2, case_names inside returns]:
  assumes "binv mo tr spins s" and "sema_step t inp s = Some s'"
  obtains (inside) m where "s' = s\<lparr>sema := m\<rparr>" "sstep t inp (sema s) = Some m" "fst (op_of (bpcs s t)) (spc m t)" "in_sema (bpcs s t)"
      "op_step t (fst (op_of (bpcs s t))) (snd (op_of (bpcs s t))) (sema s) m" "returned m = returned (sema s)"
    | (returns) m p where "s' = goto t p (s\<lparr>sema := m\<rparr>)" "sstep t inp (sema s) = Some m" "spc m t = S_Idle" "in_sema (bpcs s t)"
      "op_step t (fst (op_of (bpcs s t))) (snd (op_of (bpcs s t))) (sema s) m"
      "pending p = returned m - returned (sema s)" "\<not> in_sema p" "pending p \<le> snd (op_of (bpcs s t))"
      "(\<exists>tok. p = B_dequeue tok) \<or> (\<exists>n tok. p = B_dequeue_bulk n tok \<and> n > 0) \<or> p = B_Idle \<or> (\<exists>tok. p = B_again tok)"
proof -
  have sema: "in_sema (bpcs s t)" using assms(2) by (auto simp: sema_step_def split: if_splits)
  then obtain m where m: "sstep t inp (sema s) = Some m"
    "s' = (if spc m t = S_Idle then sema_returns t (returned m - returned (sema s)) (s\<lparr>sema := m\<rparr>) else s\<lparr>sema := m\<rparr>)"
    using assms(2) by (auto simp: sema_step_def Let_def)
  note op = in_sema_op [OF assms(1) sema m(1)]
  show thesis
  proof (cases "spc m t = S_Idle")
    case False
    then show thesis using inside [of m] m op sema by (auto simp: op_step_def)
  next
    case True
    then have r: "returned (sema s) \<le> returned m" "returned m \<le> returned (sema s) + snd (op_of (bpcs s t))"
      using op by (simp_all add: op_step_def)
    define p where "p = (case bpcs s t of
         B_one again tok \<Rightarrow> if returned m - returned (sema s) = 0 then if again then B_again tok else B_Idle else B_dequeue tok
       | B_many mx tok \<Rightarrow> if returned m - returned (sema s) = 0 then B_Idle else B_dequeue_bulk (nat (returned m - returned (sema s))) tok
       | _ \<Rightarrow> B_Idle)"
    have "s' = goto t p (s\<lparr>sema := m\<rparr>)" using m(2) True by (simp add: sema_returns_def p_def)
    moreover have "pending p = returned m - returned (sema s)" "\<not> in_sema p"
      using sema r by (auto simp: p_def op_of_def in_sema_def split: bpc.splits)
    moreover have "(\<exists>tok. p = B_dequeue tok) \<or> (\<exists>n tok. p = B_dequeue_bulk n tok \<and> n > 0) \<or> p = B_Idle \<or> (\<exists>tok. p = B_again tok)"
      using r by (auto simp: p_def split: bpc.splits)
    ultimately show thesis using returns [of p m] True m(1) op sema r by simp
  qed
qed

lemma accounted_sema:
  assumes "binv mo tr spins s" and "op_step t C l (sema s) m" and "elements_left (acts s) =
     signalled (sema s) - returned (sema s) + P + thread_sum S_Idle adding (spc (sema s))"
  shows "elements_left (acts s) = signalled m - returned m + (P + returned m - returned (sema s)) + thread_sum S_Idle adding (spc m)"
proof -
  have fin: "fin_threads S_Idle (spc (sema s))" using assms(1) sem_balance(4) unfolding binv_def by blast
  have "spc m = (spc (sema s))(t := spc m t)" using assms(2) by (simp add: op_step_def)
  then have "thread_sum S_Idle adding (spc m) = thread_sum S_Idle adding (spc (sema s)) + adding (spc m t) - adding (spc (sema s) t)"
    using thread_sum_upd [OF fin, of adding t "spc m t"] by simp
  then show ?thesis using assms(2,3) by (simp add: op_step_def)
qed

lemma binv_sema:
  assumes "binv mo tr spins s" and "sema_step t inp s = Some s'"
  shows "binv mo tr spins s'"
  using assms
proof (cases rule: sema_step_cases)
  case (inside m)
  have spc: "spc m u = (if u = t then spc m t else spc (sema s) u)" for u using inside(5) unfolding op_step_def by (metis fun_upd_apply)
  have "thread_ok (bpcs s t) (spc m t)" using inside(3,4) assms(1) 
    by (cases "bpcs s t") (auto simp: thread_ok_def op_of_def in_sema_def binv_def dest!: spec [of _ t])
  then have "thread_ok (bpcs s u) (spc m u)" for u using assms(1) spc [of u] by (cases "u = t") (simp_all add: binv_def)
  moreover have "sreach 0 spins m" using assms(1) inside(2) sreach.step unfolding binv_def by blast
  moreover have "accounted (s\<lparr>sema := m\<rparr>)"
    using accounted_sema [OF assms(1) inside(5)] assms(1) inside(6) by (simp add: accounted_def binv_def)
  ultimately show ?thesis using assms(1) inside(1) by (simp add: binv_def)
next
  case (returns m p)
  have spc: "spc m u = (if u = t then S_Idle else spc (sema s) u)" for u using returns(3,5) unfolding op_step_def by (metis fun_upd_apply)
  have "thread_ok p S_Idle" using returns(9) by (auto simp: thread_ok_def)
  then have "\<forall>u. thread_ok (((bpcs s)(t := p)) u) (spc m u)" using assms(1) spc by (auto simp: binv_def)
  moreover have "sreach 0 spins m" using assms(1) returns(2) sreach.step unfolding binv_def by blast
  moreover have "pending (bpcs s t) = 0" using returns(4) by (cases "bpcs s t") (simp_all add: in_sema_def)
  moreover from this have "accounted (goto t p (s\<lparr>sema := m\<rparr>))"
    using accounted_sema [OF assms(1) returns(5)] assms(1) returns(6)
    by (simp add: accounted_def binv_def goto_def thread_sum_upd)
  ultimately show ?thesis using assms(1) returns(1) by (simp add: binv_def goto_def)
qed

lemma binv_start: "new_blocking ok spins q = Inr s \<Longrightarrow> cq_run mo tr q Map.empty Map.empty [] \<Longrightarrow> binv mo tr spins s"
  by (auto simp: new_blocking_def binv_def thread_ok_def LightweightSemaphore_def accounted_def elements_left_def
      intro: sreach.start [of 0 spins, unfolded LightweightSemaphore_def, simplified] split: if_splits)

lemma binv_run: "binv mo tr spins s \<Longrightarrow> cq_run mo tr (inner s) (ptoks s) (ctoks s) (acts s)"
  by (simp add: binv_def)

lemma elements_left_sent [simp]: "elements_left (map (Sent i) xs) = int (length xs)"
  by (simp add: elements_left_def) (induction xs; simp)

lemma binv_enqueued:
  assumes "binv mo tr spins s" and "bpcs s t = B_Idle"
    and "cq_run mo tr q (ptoks s) (ctoks s) (if r = Inr True then acts s @ map (Sent i) xs else acts s)"
  shows "binv mo tr spins (enqueued t (map (Sent i) xs) r q s)"
proof -
  have idle: "spc (sema s) t = S_Idle" using outside_idle [OF assms(1), of t] assms(2) by (simp add: in_sema_def)
  show ?thesis
  proof (cases "r = Inr True")
    case True
    then show ?thesis using binv_goto [OF assms(1), of q "ptoks s" "ctoks s" "acts s @ map (Sent i) xs" "B_signal (length xs)" t] assms idle
      by (simp add: enqueued_def thread_ok_def)
  next
    case False
    then show ?thesis using binv_stay [OF assms(1), of q "ptoks s" "ctoks s"] assms(3) by (simp add: enqueued_def)
  qed
qed

lemma binv_enqueued_one:
  assumes "binv mo tr spins s" and "bpcs s t = B_Idle" and "cq_run mo tr q (ptoks s) (ctoks s) (if r = Inr True then acts s @ [Sent i x] else acts s)"
  shows "binv mo tr spins (enqueued t [Sent i x] r q s)"
  using binv_enqueued [of mo tr spins s t q r i "[x]", unfolded list.map] assms by blast

lemma binv_called:
  assumes "binv mo tr spins s" and "when_idle t s (sema_call t c p s) = Some s'" and "\<And>q. call_pc c = Some q \<Longrightarrow> thread_ok p q \<and> adding q + pending p = 0"
  shows "binv mo tr spins s'"
proof -
  have i: "bpcs s t = B_Idle" "sema_call t c p s = Some s'" using assms(2) by (auto simp: when_idle_def split: if_splits)
  then have "spc (sema s) t = S_Idle" using outside_idle [OF assms(1), of t] by (simp add: in_sema_def)
  from binv_call [OF assms(1) i(2) this] show ?thesis using assms(3) i(1) by simp
qed

lemma call_ok:
  "call_pc C_tryWait = Some q \<Longrightarrow> thread_ok (B_one again tok) q \<and> adding q + pending (B_one again tok) = 0"
  "call_pc (C_wait timeout) = Some q \<Longrightarrow> thread_ok (B_one again tok) q \<and> adding q + pending (B_one again tok) = 0"
  "call_pc (C_tryWaitMany mx) = Some q \<Longrightarrow> thread_ok (B_many mx tok) q \<and> adding q + pending (B_many mx tok) = 0"
  "call_pc (C_waitMany mx timeout) = Some q \<Longrightarrow> thread_ok (B_many mx tok) q \<and> adding q + pending (B_many mx tok) = 0"
  by (auto simp: thread_ok_def split: if_splits)

lemma inner_try_dequeue_run:
  assumes "cq_run mo tr (inner s) (ptoks s) (ctoks s) (acts s)" and "inner_try_dequeue tr tok s = Some ((ok, v), s')"
  obtains q1 cs1 where "s' = s\<lparr>inner := q1, ctoks := cs1\<rparr>" "cq_run mo tr q1 (ptoks s) cs1 (if ok then acts s @ [Received v] else acts s)"
proof (cases tok)
  case None
  then obtain q where q: "try_dequeue tr (inner s) = ((ok, v), q)" "s' = s\<lparr>inner := q\<rparr>"
    using assms(2) by (auto simp: inner_try_dequeue_def split: prod.splits)
  then show thesis using that [where ?q1.0 = q and ?cs1.0 = "ctoks s"] cq_history.dequeue [OF assms(1) q(1)] by simp
next
  case (Some a)
  then obtain c c' q where q: "ctoks s a = Some c" "try_dequeue_token tr c (inner s) = Some ((ok, v), c', q)" "s' = s\<lparr>inner := q, ctoks := (ctoks s)(a \<mapsto> c')\<rparr>"
    using assms(2) by (auto simp: inner_try_dequeue_def split: option.splits)
  then show thesis using that [where ?q1.0 = q and ?cs1.0 = "(ctoks s)(a \<mapsto> c')"] cq_history.dequeue_token [OF assms(1) q(1,2)] by simp
qed

lemma inner_try_dequeue_bulk_run:
  assumes "cq_run mo tr (inner s) (ptoks s) (ctoks s) (acts s)" and "inner_try_dequeue_bulk tr tok mx s = Some (items, s')"
  obtains q1 cs1 where "s' = s\<lparr>inner := q1, ctoks := cs1\<rparr>" "cq_run mo tr q1 (ptoks s) cs1 (acts s @ map Received items)"
proof (cases tok)
  case None
  then obtain q where q: "try_dequeue_bulk tr mx (inner s) = (items, q)" "s' = s\<lparr>inner := q\<rparr>"
    using assms(2) by (auto simp: inner_try_dequeue_bulk_def split: prod.splits)
  then show thesis using that [where ?q1.0 = q and ?cs1.0 = "ctoks s"] cq_history.bulk [OF assms(1) q(1)] by simp
next
  case (Some a)
  then obtain c c' q where q: "ctoks s a = Some c" "try_dequeue_bulk_token tr c mx (inner s) = Some (items, c', q)" "s' = s\<lparr>inner := q, ctoks := (ctoks s)(a \<mapsto> c')\<rparr>"
    using assms(2) by (auto simp: inner_try_dequeue_bulk_def split: option.splits)
  then show thesis using that [where ?q1.0 = q and ?cs1.0 = "(ctoks s)(a \<mapsto> c')"] cq_history.bulk_token [OF assms(1) q(1,2)] by simp
qed

text \<open>The number of elements in the inner queue, and how many of them consumers have permits for.\<close>

lemma elements_left_count: "elements_left as = int (length (filter is_sent as)) - int (length (filter (Not \<circ> is_sent) as))"
proof (induction as)
  case (Cons a as)
  then show ?case by (cases a) (simp_all add: elements_left_def)
qed (simp add: elements_left_def)

lemma pending_nonneg: "pending p \<ge> 0"
  by (cases p) simp_all

lemma sema_permits:
  assumes "sreach 0 spins m"
  shows "signalled m - returned m = max 0 (m_count m) + kernel m + posts m + held m" and "posts m \<ge> 0" and "held m \<ge> 0" and "kernel m \<ge> 0"
    and "thread_sum S_Idle adding (spc m) \<ge> 0"
proof -
  show "signalled m - returned m = max 0 (m_count m) + kernel m + posts m + held m" using sem_balance [OF assms] by linarith
  show "posts m \<ge> 0" "held m \<ge> 0" "kernel m \<ge> 0" using posts_nonneg held_nonneg sem_balance(1) [OF assms] by simp_all
  have "adding (spc m t) \<ge> 0" for t using inv_pc [OF sreach_inv [OF assms], of t] by (cases "spc m t") simp_all
  then show "thread_sum S_Idle adding (spc m) \<ge> 0" by (simp add: thread_sum_def sum_nonneg)
qed

lemma binv_elements:
  assumes "binv mo tr spins s"
  shows "pending (bpcs s t) \<le> int (in_flight (acts s))" and "int (in_flight (acts s)) = elements_left (acts s)"
proof -
  have r: "sreach 0 spins (sema s)" and fin: "fin_threads B_Idle (bpcs s)" and acc: "accounted s" using assms by (simp_all add: binv_def)
  have "pending (bpcs s t) \<le> thread_sum B_Idle pending (bpcs s)"
  proof (cases "bpcs s t = B_Idle")
    case True
    then show ?thesis using thread_sum_nonneg [of pending B_Idle "bpcs s"] pending_nonneg by simp
  next
    case False
    then show ?thesis using thread_sum_pos [where w = pending, OF fin pending_nonneg] by blast
  qed
  moreover have "signalled (sema s) - returned (sema s) \<ge> 0" using sema_permits [OF r] by linarith
  ultimately have "pending (bpcs s t) \<le> elements_left (acts s)" using acc sema_permits(5) [OF r] by (simp add: accounted_def)
  then show "int (in_flight (acts s)) = elements_left (acts s)"
    using pending_nonneg [of "bpcs s t"] by (simp add: in_flight_def elements_left_count)
  then show "pending (bpcs s t) \<le> int (in_flight (acts s))" using \<open>pending (bpcs s t) \<le> elements_left (acts s)\<close> by simp
qed

text \<open>The inner dequeue after a permit succeeds at once.\<close>

lemma inner_one:
  assumes "traits_ok tr" and "BLOCK_SIZE tr < 2 ^ 63" and "binv mo tr spins s" and "length (acts s) < 2 ^ 63"
    and "in_flight (acts s) > 0" and "\<And>a. tok = Some a \<Longrightarrow> ctoks s a \<noteq> None"
  obtains v s' where "inner_try_dequeue tr tok s = Some ((True, Some v), s')"
proof -
  note run = binv_run [OF assms(3)]
  obtain f where inv: "cq_inv tr (inner s) (ptoks s) (ctoks s) (acts s) f" using cq_run_inv [OF assms(1,2) run assms(4)] by blast
  have rep: "cq_rep tr (inner s) f" and tot: "total (inner s) f < 2 ^ 63" using inv cq_inv_total [OF inv assms(4)] by (simp_all add: cq_inv_def)
  have ne: "\<not> (\<forall>i. f i = [])"
    using fifo_total(1) [OF _ rep, of "acts s"] total_zero [OF rep] inv assms(5) by (auto simp: cq_inv_def)
  have one: "\<exists>v. r = (True, Some v)" if "takes_one tr (inner s) f r q'" for r q' using that ne unfolding takes_one_def by (metis (no_types))
  show thesis
  proof (cases tok)
    case None
    obtain r q' where r: "try_dequeue tr (inner s) = (r, q')" by (metis prod.exhaust)
    from one [OF try_dequeue_ok [OF rep tot r]] show thesis using that r None by (auto simp: inner_try_dequeue_def)
  next
    case (Some a)
    then obtain c where c: "ctoks s a = Some c" using assms(6) by auto
    then have "token_ok (inner s) c" using inv by (simp add: cq_inv_def)
    then obtain r c' q' where r: "try_dequeue_token tr c (inner s) = Some (r, c', q')" "takes_one tr (inner s) f r q'"
      using try_dequeue_token_ok [OF rep tot] by blast
    from one [OF r(2)] show thesis using that r(1) c Some by (auto simp: inner_try_dequeue_def)
  qed
qed

lemma inner_bulk:
  assumes "traits_ok tr" and "BLOCK_SIZE tr < 2 ^ 63" and "binv mo tr spins s" and "length (acts s) < 2 ^ 63"
    and "\<And>a. tok = Some a \<Longrightarrow> ctoks s a \<noteq> None"
  obtains xs s' where "inner_try_dequeue_bulk tr tok n s = Some (map Some xs, s')" "length xs = min n (in_flight (acts s))"
proof -
  note run = binv_run [OF assms(3)]
  obtain f where inv: "cq_inv tr (inner s) (ptoks s) (ctoks s) (acts s) f" using cq_run_inv [OF assms(1,2) run assms(4)] by blast
  have rep: "cq_rep tr (inner s) f" and tot: "total (inner s) f < 2 ^ 63" using inv cq_inv_total [OF inv assms(4)] by (simp_all add: cq_inv_def)
  have "total (inner s) f = in_flight (acts s)" using fifo_total(1) [OF _ rep, of "acts s"] inv by (simp add: cq_inv_def)
  then have many: "\<exists>xs. items = map Some xs \<and> length xs = min n (in_flight (acts s))" if tm: "takes_many tr n (inner s) f items q'" for items q'
  proof -
    obtain ps :: "(nat \<times> 'a) list" where "items = map (\<lambda>(i, x). Some x) ps" using tm unfolding takes_many_def by blast
    then have "items = map Some (map snd ps)" by (simp add: case_prod_beta o_def)
    moreover have "length items = min n (in_flight (acts s))" using that \<open>total (inner s) f = in_flight (acts s)\<close> by (simp add: takes_many_def)
    ultimately show ?thesis by (metis length_map)
  qed
  show thesis
  proof (cases tok)
    case None
    obtain r q' where r: "try_dequeue_bulk tr n (inner s) = (r, q')" by (metis prod.exhaust)
    from many [OF try_dequeue_bulk_ok [OF rep tot r]] show thesis using that r None by (auto simp: inner_try_dequeue_bulk_def)
  next
    case (Some a)
    then obtain c where c: "ctoks s a = Some c" using assms(5) by auto
    then have "token_ok (inner s) c" using inv by (simp add: cq_inv_def)
    then obtain r c' q' where r: "try_dequeue_bulk_token tr c n (inner s) = Some (r, c', q')" "takes_many tr n (inner s) f r q'"
      using try_dequeue_bulk_token_ok [OF rep tot] by blast
    from many [OF r(2)] show thesis using that r(1) c Some by (auto simp: inner_try_dequeue_bulk_def)
  qed
qed

lemma round_inv:
  assumes "traits_ok tr" and "BLOCK_SIZE tr < 2 ^ 63" and "binv mo tr spins s" and "length (acts s) < 2 ^ 63"
    and "dequeue_round tr t s = Some s'"
  shows "binv mo tr spins s'"
proof (cases "bpcs s t")
  case (B_dequeue tok)
  have idle: "spc (sema s) t = S_Idle" using outside_idle [OF assms(3), of t] B_dequeue by (simp add: in_sema_def)
  obtain ok v s1 where d: "inner_try_dequeue tr tok s = Some ((ok, v), s1)"
    "s' = (if ok then goto t B_Idle (s1\<lparr>acts := acts s1 @ [Received v]\<rparr>) else s1)"
    using assms(5) B_dequeue by (auto simp: dequeue_round_def)
  obtain q cs where q: "s1 = s\<lparr>inner := q, ctoks := cs\<rparr>" "cq_run mo tr q (ptoks s) cs (if ok then acts s @ [Received v] else acts s)"
    using inner_try_dequeue_run [OF binv_run [OF assms(3)] d(1)] by blast
  show ?thesis
  proof (cases ok)
    case True
    then show ?thesis using binv_goto [OF assms(3), of q "ptoks s" cs "acts s @ [Received v]" B_Idle t] idle q d(2) B_dequeue
      by (simp add: thread_ok_def goto_def)
  next
    case False
    then show ?thesis using binv_stay [OF assms(3), of q "ptoks s" cs] q d(2) by simp
  qed
next
  case (B_dequeue_bulk n tok)
  have idle: "spc (sema s) t = S_Idle" using outside_idle [OF assms(3), of t] B_dequeue_bulk by (simp add: in_sema_def)
  obtain items s1 where d: "inner_try_dequeue_bulk tr tok n s = Some (items, s1)"
    "s' = goto t (if length items = n then B_Idle else B_dequeue_bulk (n - length items) tok) (s1\<lparr>acts := acts s1 @ map Received items\<rparr>)"
    using assms(5) B_dequeue_bulk by (auto simp: dequeue_round_def)
  have tok: "ctoks s a \<noteq> None" if "tok = Some a" for a using d(1) that by (auto simp: inner_try_dequeue_bulk_def split: option.splits)
  have "length items \<le> n" using inner_bulk [where n = n, OF assms(1-4) tok] d(1) by (metis fst_conv length_map min.cobounded1 option.inject)
  moreover obtain q cs where q: "s1 = s\<lparr>inner := q, ctoks := cs\<rparr>" "cq_run mo tr q (ptoks s) cs (acts s @ map Received items)"
    using inner_try_dequeue_bulk_run [OF binv_run [OF assms(3)] d(1)] by blast
  ultimately show ?thesis
    using binv_goto [OF assms(3), of q "ptoks s" cs "acts s @ map Received items"
        "if length items = n then B_Idle else B_dequeue_bulk (n - length items) tok" t] idle d(2) B_dequeue_bulk
    by (simp add: thread_ok_def goto_def split: if_splits)
qed (use assms(5) in \<open>simp_all add: dequeue_round_def\<close>)

text \<open>The invariant holds in every reachable state.\<close>

lemma breach_grows:
  "blocking_enqueue mo tr m th tid t x s = Some s' \<Longrightarrow> length (acts s) \<le> length (acts s')"
  "blocking_enqueue_token mo tr m th a t x s = Some s' \<Longrightarrow> length (acts s) \<le> length (acts s')"
  "sema_call t c p s = Some s' \<Longrightarrow> acts s' = acts s"
  "sema_step t inp s = Some s' \<Longrightarrow> acts s' = acts s"
  "dequeue_round tr t s = Some s' \<Longrightarrow> length (acts s) \<le> length (acts s')"
  "blocking_enqueue_bulk mo tr m tid t items s = Some s' \<Longrightarrow> length (acts s) \<le> length (acts s')"
  "blocking_enqueue_bulk_token mo tr m a t items s = Some s' \<Longrightarrow> length (acts s) \<le> length (acts s')"
  by (auto simp: blocking_enqueue_def blocking_enqueue_token_def blocking_enqueue_bulk_def blocking_enqueue_bulk_token_def enqueued_def goto_def sema_call_def sema_step_def sema_returns_def Let_def
      dequeue_round_def inner_try_dequeue_def inner_try_dequeue_bulk_def split: if_splits option.splits prod.splits bpc.splits)

lemma binv_called_grows:
  assumes "length (acts s) < 2 ^ 63 \<Longrightarrow> binv mo tr spins s" and "when_idle t s (sema_call t c p s) = Some s'"
    and "length (acts s') < 2 ^ 63" and "\<And>q. call_pc c = Some q \<Longrightarrow> thread_ok p q \<and> adding q + pending p = 0"
  shows "binv mo tr spins s'"
proof -
  have "sema_call t c p s = Some s'" using assms(2) by (auto simp: when_idle_def split: if_splits)
  from breach_grows(3) [OF this] have "binv mo tr spins s" using assms(1,3) by simp
  from binv_called [OF this assms(2,4)] show ?thesis .
qed

lemma bhistory_inv:
  assumes "traits_ok tr" and "BLOCK_SIZE tr < 2 ^ 63"
  shows "bhistory mo tr spins s n \<Longrightarrow> n = 0 \<Longrightarrow> length (acts s) < 2 ^ 63 \<Longrightarrow> binv mo tr spins s"
proof (induction rule: bhistory.induct)
  case (start ok cap s)
  show ?case using binv_start [OF start(1) [unfolded BlockingConcurrentQueue_def] cq_history.start] .
next
  case (start_sized ok cap ne ni s)
  show ?case using binv_start [OF start_sized(1) [unfolded BlockingConcurrentQueue_sized_def] cq_history.start_sized] .
next
  case (token s n a p q')
  then have inv: "binv mo tr spins s" by simp
  from binv_stay [OF inv cq_history.token [OF binv_run [OF inv] token.hyps(2,3)]] show ?case by simp
next
  case (token_move s n b p a this other q')
  then have inv: "binv mo tr spins s" by simp
  from binv_stay [OF inv cq_history.token_move [OF binv_run [OF inv] token_move.hyps(2-4)]] show ?case by simp
next
  case (token_swap s n a p b p' this other q')
  then have inv: "binv mo tr spins s" by simp
  from binv_stay [OF inv cq_history.token_swap [OF binv_run [OF inv] token_swap.hyps(2-5)]] show ?case by simp
next
  case (token_destroy s n a p)
  then have inv: "binv mo tr spins s" by simp
  from binv_stay [OF inv cq_history.token_destroy [OF binv_run [OF inv] token_destroy.hyps(2)]] show ?case by simp
next
  case (consumer s n c q' a)
  then have inv: "binv mo tr spins s" by simp
  from binv_stay [OF inv cq_history.consumer [OF binv_run [OF inv] consumer.hyps(2)]] show ?case by simp
next
  case (thread_exit s n tid i q')
  then have inv: "binv mo tr spins s" by simp
  from binv_stay [OF inv cq_history.thread_exit [OF binv_run [OF inv] thread_exit.hyps(2-5)]] show ?case by simp
next
  case (enqueue s n tid m th t x s')
  then have inv: "binv mo tr spins s" using breach_grows(1) by fastforce
  obtain r q where e: "bpcs s t = B_Idle" "enqueue mo tr m th tid x (inner s) = Some (r, q)"
    "s' = enqueued t [Sent (the (the (producer_of q tid))) x] r q s"
    using enqueue.hyps(3) by (auto simp: blocking_enqueue_def split: if_splits)
  show ?case unfolding e(3) by (rule binv_enqueued_one [OF inv e(1) cq_history.enqueue [OF binv_run [OF inv] enqueue.hyps(2) e(2)]])
next
  case (enqueue_token s n m th a t x s')
  then have inv: "binv mo tr spins s" using breach_grows(2) by fastforce
  obtain i r q where e: "ptoks s a = Some (Some i)" "bpcs s t = B_Idle" "enqueue_token mo tr m th i x (inner s) = (r, q)"
    "s' = enqueued t [Sent i x] r q s"
    using enqueue_token.hyps(2) by (auto simp: blocking_enqueue_token_def split: if_splits option.splits prod.splits)
  show ?case unfolding e(4) by (rule binv_enqueued_one [OF inv e(2) cq_history.enqueue_token [OF binv_run [OF inv] e(1,3)]])
next
  case (enqueue_bulk s n tid m t items s')
  then have inv: "binv mo tr spins s" using breach_grows(6) by fastforce
  obtain r q where e: "bpcs s t = B_Idle" "ConcurrentQueue.enqueue_bulk mo tr m tid items (inner s) = Some (r, q)"
    "s' = enqueued t (map (Sent (the (the (producer_of q tid)))) (map snd items)) r q s"
    using enqueue_bulk.hyps(3) by (auto simp: blocking_enqueue_bulk_def split: if_splits)
  show ?case unfolding e(3) by (rule binv_enqueued [OF inv e(1) cq_history.enqueue_bulk [OF binv_run [OF inv] enqueue_bulk.hyps(2) e(2)]])
next
  case (enqueue_bulk_token s n m a t items s' i)
  then have inv: "binv mo tr spins s" using breach_grows(7) by fastforce
  obtain q where e: "bpcs s t = B_Idle" "ConcurrentQueue.enqueue_bulk_token mo tr m i items (inner s) = (Inr True, q)"
    "s' = enqueued t (map (Sent i) (map snd items)) (Inr True) q s"
    using enqueue_bulk_token.hyps(2-4) by (auto simp: blocking_enqueue_bulk_token_def split: if_splits prod.splits)
  have "cq_run mo tr q (ptoks s) (ctoks s) (if (Inr True :: exn + bool) = Inr True then acts s @ map (Sent i) (map snd items) else acts s)"
    using cq_history.enqueue_bulk_token [OF binv_run [OF inv] enqueue_bulk_token.hyps(3) e(2)] by simp
  then show ?case unfolding e(3) by (rule binv_enqueued [OF inv e(1)])
next
  case (signal s n t s')
  obtain k where k: "bpcs s t = B_signal k" "sema_call t (C_signal (int k)) B_in_signal s = Some s'"
    using signal.hyps(2) by (auto simp: signal_after_def split: bpc.splits)
  then have inv: "binv mo tr spins s" using signal breach_grows(3) [OF k(2)] by simp
  have "spc (sema s) t = S_Idle" using outside_idle [OF inv, of t] k(1) by (simp add: in_sema_def)
  from binv_call [OF inv k(2) this] show ?case using k(1) by (simp add: thread_ok_def)
next
  case (sema s n t inp s')
  then have "binv mo tr spins s" using breach_grows(4) [OF sema.hyps(2)] by simp
  then show ?case using sema.hyps(2) by (rule binv_sema)
next
  case (again s n t s')
  obtain tok where tok: "bpcs s t = B_again tok" "sema_call t (C_wait (-1)) (B_one True tok) s = Some s'"
    using again.hyps(2) by (auto simp: wait_again_def split: bpc.splits)
  then have inv: "binv mo tr spins s" using again breach_grows(3) [OF tok(2)] by simp
  have "spc (sema s) t = S_Idle" using outside_idle [OF inv, of t] tok(1) by (simp add: in_sema_def)
  from binv_call [OF inv tok(2) this] show ?case using call_ok(2) [of "-1"] tok(1) by simp
next
  case (round s n t s')
  then have len: "length (acts s) < 2 ^ 63" using breach_grows(5) [OF round.hyps(2)] by simp
  then have "binv mo tr spins s" using round by simp
  from round_inv [OF assms this len round.hyps(2)] show ?case .
next
  case (try_dequeue s n t tok s')
  show ?case by (rule binv_called_grows [OF try_dequeue.IH [OF try_dequeue.prems(1)] try_dequeue.hyps(2) [unfolded blocking_try_dequeue_def] try_dequeue.prems(2) call_ok(1)])
next
  case (try_dequeue_bulk s n t tok mx s')
  show ?case by (rule binv_called_grows [OF try_dequeue_bulk.IH [OF try_dequeue_bulk.prems(1)] try_dequeue_bulk.hyps(2) [unfolded blocking_try_dequeue_bulk_def] try_dequeue_bulk.prems(2) call_ok(3)])
next
  case (wait s n t tok s')
  show ?case by (rule binv_called_grows [OF wait.IH [OF wait.prems(1)] wait.hyps(2) [unfolded wait_dequeue_def] wait.prems(2) call_ok(2)])
next
  case (wait_timed s n t tok timeout s')
  show ?case by (rule binv_called_grows [OF wait_timed.IH [OF wait_timed.prems(1)] wait_timed.hyps(2) [unfolded wait_dequeue_timed_def] wait_timed.prems(2) call_ok(2)])
next
  case (wait_bulk s n t tok mx s')
  show ?case by (rule binv_called_grows [OF wait_bulk.IH [OF wait_bulk.prems(1)] wait_bulk.hyps(2) [unfolded wait_dequeue_bulk_def] wait_bulk.prems(2) call_ok(4)])
next
  case (wait_bulk_timed s n t tok mx timeout s')
  show ?case by (rule binv_called_grows [OF wait_bulk_timed.IH [OF wait_bulk_timed.prems(1)] wait_bulk_timed.hyps(2) [unfolded wait_dequeue_bulk_timed_def] wait_bulk_timed.prems(2) call_ok(4)])
next
  case (bulk_token_failed s n m a t items s' i)
  then show ?case by simp
qed

lemmas breach_inv = bhistory_inv [OF _ _ _ refl]

text \<open>A run to show that the properties below are not empty: thread 0 enqueues with a token and signals, thread 1 takes the permit.\<close>

lemma demo_blocking:
  obtains s s' where "breach (\<lambda>_. True) small_traits 0 s" "acts s = [Sent 0 (7 :: nat)]" "\<forall>t. bpcs s t = B_Idle"
    "breach (\<lambda>_. True) small_traits 0 s'" "acts s' = [Sent 0 (7 :: nat)]" "bpcs s' 1 = B_dequeue None"
proof -
  let ?mo = "\<lambda>_ :: nat. True" and ?reach = "breach (\<lambda>_. True) small_traits 0 :: nat bqueue \<Rightarrow> bool"
  obtain q1 q2 where q: "ProducerToken ?mo small_traits 100 (ConcurrentQueue ?mo small_traits 0) = (Some 0, q1)"
    "enqueue_token ?mo small_traits CanAlloc None 0 (7 :: nat) q1 = (Inr True, q2)" by (rule demo_enqueue)
  define s0 :: "nat bqueue" where "s0 = \<lparr>inner = ConcurrentQueue ?mo small_traits 0, sema = LightweightSemaphore 0 0, bpcs = (\<lambda>_. B_Idle),
     ptoks = Map.empty, ctoks = Map.empty, acts = []\<rparr>"
  have "?reach s0" by (rule bhistory.start [of True _ _ _ 0]) (simp add: BlockingConcurrentQueue_def new_blocking_def s0_def)
  then have s1: "?reach (s0\<lparr>inner := q1, ptoks := [100 \<mapsto> Some 0]\<rparr>)"
    using bhistory.token [of ?mo small_traits 0 s0 0 100 "Some 0" q1] q(1) by (simp add: s0_def)
  obtain s2 where s2: "blocking_enqueue_token ?mo small_traits CanAlloc None 100 0 7 (s0\<lparr>inner := q1, ptoks := [100 \<mapsto> Some 0]\<rparr>) = Some s2"
    "sema s2 = LightweightSemaphore 0 0" "bpcs s2 = (\<lambda>_. B_Idle)(0 := B_signal 1)" "acts s2 = [Sent 0 7]"
    using q(2) by (simp add: blocking_enqueue_token_def enqueued_def goto_def s0_def)
  have r2: "?reach s2" by (rule bhistory.enqueue_token [OF s1 s2(1)])
  obtain s3 where s3: "signal_after 0 s2 = Some s3" "sema s3 = (LightweightSemaphore 0 0)\<lparr>spc := (\<lambda>_. S_Idle)(0 := SG_add 1)\<rparr>"
    "bpcs s3 = (\<lambda>_. B_Idle)(0 := B_in_signal)" "acts s3 = [Sent 0 7]"
    using s2 by (simp add: signal_after_def sema_call_def sem_call_step_def at_def goto_def LightweightSemaphore_def)
  have r3: "?reach s3" by (rule bhistory.signal [OF r2 s3(1)])
  obtain s4 where s4: "sema_step 0 SGo s3 = Some s4" "sema s4 = (LightweightSemaphore 0 0)\<lparr>m_count := 1, signalled := 1\<rparr>"
    "bpcs s4 = (\<lambda>_. B_Idle)" "acts s4 = [Sent 0 7]"
    using s3 by (simp add: sema_step_def in_sema_def sstep_def sem_steps mv_def toRelease_of_def sema_returns_def goto_def fun_upd_idem LightweightSemaphore_def)
  have r4: "?reach s4" by (rule bhistory.sema [OF r3 s4(1)])
  obtain s5 where s5: "blocking_try_dequeue 1 None s4 = Some s5" "sema s5 = (sema s4)\<lparr>spc := (\<lambda>_. S_Idle)(1 := TW_load ReturnTry)\<rparr>"
    "bpcs s5 = (\<lambda>_. B_Idle)(1 := B_one False None)" "acts s5 = [Sent 0 7]"
    using s4 by (simp add: blocking_try_dequeue_def when_idle_def sema_call_def sem_call_step_def at_def goto_def LightweightSemaphore_def)
  have r5: "?reach s5" by (rule bhistory.try_dequeue [OF r4 s5(1)])
  obtain s6 where s6: "sema_step 1 SGo s5 = Some s6" "sema s6 = (sema s4)\<lparr>spc := (\<lambda>_. S_Idle)(1 := TW_cas ReturnTry 1)\<rparr>"
    "bpcs s6 = (\<lambda>_. B_Idle)(1 := B_one False None)" "acts s6 = [Sent 0 7]"
    using s5 s4(2) by (simp add: sema_step_def in_sema_def sstep_def sem_steps mv_def LightweightSemaphore_def)
  have r6: "?reach s6" by (rule bhistory.sema [OF r5 s6(1)])
  obtain s7 where s7: "sema_step 1 SGo s6 = Some s7" "bpcs s7 = (\<lambda>_. B_Idle)(1 := B_dequeue None)" "acts s7 = [Sent 0 7]"
    using s6 s4(2) by (simp add: sema_step_def in_sema_def sstep_def sem_steps mv_def sema_returns_def goto_def LightweightSemaphore_def)
  have r7: "?reach s7" by (rule bhistory.sema [OF r6 s7(1)])
  show thesis using that [OF r4 s4(4) _ r7 s7(3)] s4(3) s7(2) by simp
qed

section \<open>Properties\<close>

text \<open>
  (C14) A permit is an element: under any interleaving of any number of producers and consumers in which every bulk enqueue
  through a producer token has succeeded (the last argument of \<open>bhistory\<close>, which counts those that failed or threw, is 0: after
  one of them the inner queue may hand out memory without an element, \<open>failed_bulk_breaks_fifo\<close>), a consumer that got its
  permit from the semaphore finds an element at the first try, so that the loops around the inner dequeue never spin; a
  bulk dequeue gets all the elements it has permits for in one round.
\<close>

theorem permit_finds_element:
  assumes "traits_ok tr" and "BLOCK_SIZE tr < 2 ^ 63" and "bhistory mo tr spins s 0" and "length (acts s) < 2 ^ 63"
    and "\<forall>a. tok = Some a \<longrightarrow> ctoks s a \<noteq> None" and "bpcs s t = B_dequeue tok \<or> bpcs s t = B_dequeue_bulk n tok"
  shows "\<exists>xs s'. dequeue_round tr t s = Some s' \<and> bpcs s' t = B_Idle \<and> acts s' = acts s @ map (Received \<circ> Some) xs
    \<and> length xs = (if bpcs s t = B_dequeue tok then 1 else n)"
proof -
  have inv: "binv mo tr spins s" using breach_inv [OF assms(1,2) assms(3,4)] .
  note left = binv_elements(1) [OF inv, of t]
  show ?thesis
  proof (cases "bpcs s t = B_dequeue tok")
    case True
    then have "in_flight (acts s) > 0" using left by simp
    then obtain v s' where s': "inner_try_dequeue tr tok s = Some ((True, Some v), s')"
      using inner_one [OF assms(1,2) inv assms(4)] assms(5) by blast
    moreover from this have "acts s' = acts s"
      by (auto simp: inner_try_dequeue_def split: option.splits prod.splits)
    ultimately show ?thesis using True by (intro exI [of _ "[v]"]) (simp add: dequeue_round_def goto_def)
  next
    case False
    then have b: "bpcs s t = B_dequeue_bulk n tok" using assms(6) by simp
    then have "n \<le> in_flight (acts s)" using left by simp
    then obtain xs s' where s': "inner_try_dequeue_bulk tr tok n s = Some (map Some xs, s')" "length xs = n"
      using inner_bulk [where n = n, OF assms(1,2) inv assms(4)] assms(5) by (metis min.absorb1)
    moreover from this have "acts s' = acts s"
      by (auto simp: inner_try_dequeue_bulk_def split: option.splits prod.splits)
    ultimately show ?thesis using b by (intro exI [of _ xs]) (simp add: dequeue_round_def goto_def)
  qed
qed

theorem permit_finds_element_witness:
  "\<exists>s s' v. breach (\<lambda>_. True) small_traits 0 s \<and> acts s = [Sent 0 (7 :: nat)] \<and> bpcs s 1 = B_dequeue None
     \<and> dequeue_round small_traits 1 s = Some s' \<and> acts s' = [Sent 0 7, Received (Some v)]"
proof -
  obtain s where s: "breach (\<lambda>_. True) small_traits 0 s" "acts s = [Sent 0 (7 :: nat)]" "bpcs s 1 = B_dequeue None"
    using demo_blocking by blast
  have len: "length (acts s) < 2 ^ 63" using s(2) by simp
  have "\<forall>a. None = Some a \<longrightarrow> ctoks s a \<noteq> None" by simp
  from permit_finds_element [OF small_traits_ok(2,3) s(1) len this disjI1 [OF s(3)], of 0]
  obtain xs s' where x: "dequeue_round small_traits 1 s = Some s'" "acts s' = acts s @ map (Received \<circ> Some) xs" "length xs = 1"
    using s(3) by auto
  then obtain v where "xs = [v]" by (cases xs) auto
  then have "acts s' = [Sent 0 7, Received (Some v)]" using x(2) s(2) by simp
  then show ?thesis using s x(1) by blast
qed

text \<open>
  (C25) First in, first out: what the threads get from the blocking queue in any interleaving in which every bulk enqueue
  through a producer token has succeeded (the last argument of \<open>bhistory\<close> is 0) is explained, as for
  the inner queue, by one first-in first-out list per producer.
\<close>

theorem blocking_queue_fifo:
  assumes "traits_ok tr" and "BLOCK_SIZE tr < 2 ^ 63" and "bhistory mo tr spins s 0" and "length (acts s) < 2 ^ 63"
  shows "\<exists>ev f. acts s = map seen ev \<and> replay ev (\<lambda>_. []) = Some f \<and> (\<forall>i. concat (map (put i) ev) = concat (map (got i) ev) @ f i)"
proof -
  obtain f where "fifo (acts s) f"
    using cq_run_inv [OF assms(1,2) binv_run [OF breach_inv [OF assms]] assms(4)] by (auto simp: cq_inv_def)
  then obtain ev where "acts s = map seen ev" "replay ev (\<lambda>_. []) = Some f" by (auto simp: fifo_def)
  moreover have "concat (map (put i) ev) = concat (map (got i) ev) @ f i" for i using replay_fifo [OF calculation(2), of i] by simp
  ultimately show ?thesis by blast
qed

theorem blocking_queue_fifo_witness:
  "\<exists>s ev. breach (\<lambda>_. True) small_traits 0 s \<and> acts s = [Sent 0 (7 :: nat)] \<and> acts s = map seen ev"
proof -
  obtain s where s: "breach (\<lambda>_. True) small_traits 0 s" "acts s = [Sent 0 (7 :: nat)]" using demo_blocking by blast
  have "length (acts s) < 2 ^ 63" using s(2) by simp
  from blocking_queue_fifo [OF small_traits_ok(2,3) s(1) this] show ?thesis using s by blast
qed

text \<open>
  When no thread is inside an operation, \<open>size_approx\<close>, which asks the semaphore, agrees with the inner queue: it is
  the number of elements enqueued less the number dequeued.
\<close>

theorem blocking_size_exact:
  assumes "traits_ok tr" and "BLOCK_SIZE tr < 2 ^ 63" and "breach mo tr spins s" and "length (acts s) < 2 ^ 63"
    and "\<forall>t. bpcs s t = B_Idle"
  shows "blocking_size_approx s = int (in_flight (acts s)) \<and> size_approx (inner s) = in_flight (acts s)"
proof -
  have inv: "binv mo tr spins s" using breach_inv [OF assms(1,2) assms(3,4)] .
  have "spc (sema s) t = S_Idle" for t using outside_idle [OF inv, of t] assms(5) by (simp add: in_sema_def)
  then have idle: "spc (sema s) = (\<lambda>_. S_Idle)" "bpcs s = (\<lambda>_. B_Idle)" using assms(5) by auto
  then have s0: "posts (sema s) = 0" "held (sema s) = 0" "sleepers (sema s) = 0" by (simp_all add: posts_def held_def sleepers_def)
  have r: "sreach 0 spins (sema s)" and acc: "accounted s" using inv by (simp_all add: binv_def)
  have "kernel (sema s) = 0" "max 0 (- m_count (sema s)) = 0" using sem_balance(1,2) [OF r] s0 by linarith+
  then have "int (in_flight (acts s)) = max 0 (m_count (sema s))"
    using binv_elements(2) [OF inv] acc sema_permits(1) [OF r] s0 by (simp add: accounted_def idle)
  moreover obtain f where f: "cq_inv tr (inner s) (ptoks s) (ctoks s) (acts s) f"
    using cq_run_inv [OF assms(1,2) binv_run [OF inv] assms(4)] by blast
  moreover have rep: "cq_rep tr (inner s) f" and "fifo (acts s) f" using f by (simp_all add: cq_inv_def)
  moreover from this have "size_approx (inner s) = in_flight (acts s)"
    using size_approx_ok [OF rep cq_inv_total [OF f assms(4)]] fifo_total(1) [OF _ rep] by simp
  ultimately show ?thesis by (simp add: blocking_size_approx_def availableApprox_def)
qed

theorem blocking_size_exact_witness:
  "\<exists>s. breach (\<lambda>_. True) small_traits 0 s \<and> acts s = [Sent 0 (7 :: nat)] \<and> blocking_size_approx s = 1"
proof -
  obtain s where s: "breach (\<lambda>_. True) small_traits 0 s" "acts s = [Sent 0 (7 :: nat)]" "\<forall>t. bpcs s t = B_Idle"
    using demo_blocking by blast
  have "length (acts s) < 2 ^ 63" using s(2) by simp
  from blocking_size_exact [OF small_traits_ok(2,3) s(1) this s(3)] show ?thesis using s(1,2) by (auto simp: in_flight_def)
qed

text \<open>
  (C15) A consumer never sleeps beside an element nobody has claimed: when a thread sleeps in \<open>wait_dequeue\<close> for good, no
  post to the kernel semaphore is unused and no producer is about to signal, every element still in the queue is one
  that some consumer holds a permit for.
\<close>

theorem sleeper_leaves_no_element:
  assumes "traits_ok tr" and "BLOCK_SIZE tr < 2 ^ 63" and "breach mo tr spins s" and "length (acts s) < 2 ^ 63"
    and "spc (sema s) t = WS_sleep timeout" and "kernel (sema s) = 0" and "\<forall>u. bpcs s u \<noteq> B_in_signal"
  shows "int (in_flight (acts s)) = thread_sum B_Idle pending (bpcs s) + held (sema s)"
proof -
  have inv: "binv mo tr spins s" using breach_inv [OF assms(1,2) assms(3,4)] .
  then have r: "sreach 0 spins (sema s)" and acc: "accounted s" and ok: "\<And>u. thread_ok (bpcs s u) (spc (sema s) u)" by (simp_all add: binv_def)
  have nosig: "\<not> signal_pc (spc (sema s) u)" for u
    using ok [of u] assms(7) by (cases "bpcs s u"; cases "spc (sema s) u") (auto simp: thread_ok_def)
  have "posting (spc (sema s) u) = 0 \<and> adding (spc (sema s) u) = 0" for u using nosig [of u] by (cases "spc (sema s) u") simp_all
  then have zero: "posts (sema s) = 0" "thread_sum S_Idle adding (spc (sema s)) = 0" by (simp_all add: posts_def thread_sum_def)
  have "sleeping (spc (sema s) t) \<le> sleepers (sema s)" unfolding sleepers_def
    using sem_balance(4) [OF r] assms(5) by (intro thread_sum_pos sleeping_nonneg) simp_all
  then have "max 0 (m_count (sema s)) = 0" using sem_balance(2) [OF r] zero(1) assms(5,6) by auto
  then have "signalled (sema s) - returned (sema s) = held (sema s)" using sema_permits(1) [OF r] zero(1) assms(6) by simp
  then show ?thesis using binv_elements(2) [OF inv] acc zero(2) by (simp add: accounted_def)
qed

lemma demo_sleeping:
  obtains s where "breach (\<lambda>_. True) small_traits 0 (s :: nat bqueue)" "acts s = []" "spc (sema s) 1 = WS_sleep (-1)" "kernel (sema s) = 0"
    "\<forall>u. bpcs s u \<noteq> B_in_signal"
proof -
  let ?mo = "\<lambda>_ :: nat. True" and ?reach = "breach (\<lambda>_. True) small_traits 0 :: nat bqueue \<Rightarrow> bool"
  define s0 :: "nat bqueue" where "s0 = \<lparr>inner = ConcurrentQueue ?mo small_traits 0, sema = LightweightSemaphore 0 0, bpcs = (\<lambda>_. B_Idle),
     ptoks = Map.empty, ctoks = Map.empty, acts = []\<rparr>"
  have r0: "?reach s0" by (rule bhistory.start [of True _ _ _ 0]) (simp add: BlockingConcurrentQueue_def new_blocking_def s0_def)
  obtain s1 where s1: "wait_dequeue 1 None s0 = Some s1" "sema s1 = (LightweightSemaphore 0 0)\<lparr>spc := (\<lambda>_. S_Idle)(1 := TW_load (ForWait (-1)))\<rparr>"
    "bpcs s1 = (\<lambda>_. B_Idle)(1 := B_one True None)" "acts s1 = []"
    by (simp add: wait_dequeue_def when_idle_def sema_call_def sem_call_step_def at_def goto_def LightweightSemaphore_def s0_def)
  have r1: "?reach s1" by (rule bhistory.wait [OF r0 s1(1)])
  obtain s2 where s2: "sema_step 1 SGo s1 = Some s2" "sema s2 = (LightweightSemaphore 0 0)\<lparr>spc := (\<lambda>_. S_Idle)(1 := WS_spin 0 (-1))\<rparr>"
    "bpcs s2 = (\<lambda>_. B_Idle)(1 := B_one True None)" "acts s2 = []"
    using s1 by (simp add: sema_step_def in_sema_def sstep_def sem_steps mv_def LightweightSemaphore_def)
  have r2: "?reach s2" by (rule bhistory.sema [OF r1 s2(1)])
  obtain s3 where s3: "sema_step 1 SGo s2 = Some s3" "sema s3 = (LightweightSemaphore 0 0)\<lparr>spc := (\<lambda>_. S_Idle)(1 := WS_fetch (-1))\<rparr>"
    "bpcs s3 = (\<lambda>_. B_Idle)(1 := B_one True None)" "acts s3 = []"
    using s2 by (simp add: sema_step_def in_sema_def sstep_def sem_steps mv_def LightweightSemaphore_def)
  have r3: "?reach s3" by (rule bhistory.sema [OF r2 s3(1)])
  obtain s4 where s4: "sema_step 1 SGo s3 = Some s4" "spc (sema s4) 1 = WS_sleep (-1)" "kernel (sema s4) = 0"
    "bpcs s4 = (\<lambda>_. B_Idle)(1 := B_one True None)" "acts s4 = []"
    using s3 by (simp add: sema_step_def in_sema_def sstep_def sem_steps mv_def LightweightSemaphore_def)
  have r4: "?reach s4" by (rule bhistory.sema [OF r3 s4(1)])
  show thesis using that [OF r4 s4(5,2,3)] s4(4) by simp
qed

theorem sleeper_leaves_no_element_witness:
  "\<exists>s :: nat bqueue. breach (\<lambda>_. True) small_traits 0 s \<and> spc (sema s) 1 = WS_sleep (-1)
     \<and> int (in_flight (acts s)) = thread_sum B_Idle pending (bpcs s) + held (sema s)"
proof -
  obtain s :: "nat bqueue" where s: "breach (\<lambda>_. True) small_traits 0 s" "acts s = []" "spc (sema s) 1 = WS_sleep (-1)" "kernel (sema s) = 0"
    "\<forall>u. bpcs s u \<noteq> B_in_signal" by (rule demo_sleeping)
  have "length (acts s) < 2 ^ 63" using s(2) by simp
  from sleeper_leaves_no_element [OF small_traits_ok(2,3) s(1) this s(3-5)] show ?thesis using s by blast
qed

end
