(* ===== verification/BlockingQueueBuffer.thy ===== *)
theory BlockingQueueBuffer
  imports BlockingQueueFifo
begin

text \<open>
  The bulk dequeues of the blocking queue write into a buffer of the caller: nothing a call does may make it write more
  than the buffer holds.
\<close>

section \<open>What the bulk dequeues write\<close>

lemma blockEnd_after: "0 < BLOCK_SIZE tr \<Longrightarrow> j < block_base tr j + BLOCK_SIZE tr"
  using mod_less_divisor [of "BLOCK_SIZE tr" j] mod_less_eq_dividend [of j "BLOCK_SIZE tr"] unfolding block_base_def by linarith

text \<open>No bulk dequeue hands out more than it was asked for, whatever the state it finds.\<close>

lemma endIndex_le:
  assumes "0 < BLOCK_SIZE tr" and "BLOCK_SIZE tr < 2 ^ 63" and "j \<le> stop"
  shows "j \<le> (if index_less stop (block_base tr j + BLOCK_SIZE tr) then stop else block_base tr j + BLOCK_SIZE tr)"
    and "(if index_less stop (block_base tr j + BLOCK_SIZE tr) then stop else block_base tr j + BLOCK_SIZE tr) \<le> stop"
proof -
  have "block_base tr j \<le> j" by (simp add: block_base_def)
  then show "(if index_less stop (block_base tr j + BLOCK_SIZE tr) then stop else block_base tr j + BLOCK_SIZE tr) \<le> stop"
    using assms by (auto simp: index_less_def)
  show "j \<le> (if index_less stop (block_base tr j + BLOCK_SIZE tr) then stop else block_base tr j + BLOCK_SIZE tr)"
    using blockEnd_after [OF assms(1), of j] assms(3) by simp
qed

lemma bulk_blocks_length:
  assumes "0 < BLOCK_SIZE tr" and "BLOCK_SIZE tr < 2 ^ 63"
  shows "j \<le> stop \<Longrightarrow> length (fst (bulk_blocks rounds tr p stop j slot P)) \<le> stop - j"
proof (induction rounds arbitrary: j slot P)
  case (Suc rounds)
  define e where "e = (if index_less stop (block_base tr j + BLOCK_SIZE tr) then stop else block_base tr j + BLOCK_SIZE tr)"
  have e: "j \<le> e" "e \<le> stop" using endIndex_le [OF assms Suc.prems] by (simp_all add: e_def)
  obtain rest P1 where r: "bulk_blocks rounds tr p stop e ((slot + 1) mod pr_blockIndexSize p)
      (upd_block (snd (idx_entries p ! slot)) (\<lambda>b. fst (set_many_empty tr explicit_context j (e - j) (fold (destroy_at tr) [j..<e] b))) P) = (rest, P1)"
    by (metis prod.exhaust)
  have "length rest \<le> stop - e" using Suc.IH [OF e(2)] r by (metis fst_conv)
  then have "e + length rest - j \<le> stop - j" using e by linarith
  then show ?case using e r by (simp add: Let_def e_def [symmetric])
qed simp

lemma implicit_bulk_blocks_length:
  assumes "0 < BLOCK_SIZE tr" and "BLOCK_SIZE tr < 2 ^ 63"
  shows "j \<le> stop \<Longrightarrow> length (fst (implicit_bulk_blocks rounds tr stop j slot p P)) \<le> stop - j"
proof (induction rounds arbitrary: j slot p P)
  case (Suc rounds)
  define e where "e = (if index_less stop (block_base tr j + BLOCK_SIZE tr) then stop else block_base tr j + BLOCK_SIZE tr)"
  have e: "j \<le> e" "e \<le> stop" using endIndex_le [OF assms Suc.prems] by (simp_all add: e_def)
  define P0 where "P0 = (the (snd (ip_index p ! slot)))"
  obtain blk nowEmpty where b: "set_many_empty tr implicit_context j (e - j) (fold (destroy_at tr) [j..<e] (heap P P0)) = (blk, nowEmpty)"
    by (metis prod.exhaust)
  obtain p1 P1 where u: "release_if tr nowEmpty slot P0 p (upd_block P0 (\<lambda>_. blk) P) = (p1, P1)" by (metis prod.exhaust)
  obtain rest p2 P2 where r: "implicit_bulk_blocks rounds tr stop e ((slot + 1) mod capacity p1) p1 P1 = (rest, p2, P2)" by (metis prod.exhaust)
  have "length rest \<le> stop - e" using Suc.IH [OF e(2)] r by (metis fst_conv)
  then have "e + length rest - j \<le> stop - j" using e by linarith
  then show ?case using e b u r by (simp add: Let_def e_def [symmetric] P0_def [symmetric])
qed simp

lemma sub_dequeue_bulk_length:
  assumes "0 < BLOCK_SIZE tr" and "BLOCK_SIZE tr < 2 ^ 63"
  shows "length (fst (sub_dequeue_bulk tr mx s P)) \<le> mx"
proof -
  have e: "length (fst (bulk_blocks r tr p (h + c) h k P')) \<le> mx" if "c \<le> mx" for r p h c k and P' :: "'a pool"
    using bulk_blocks_length [OF assms, of h "h + c" r p k P'] that by simp
  have i: "length (fst (implicit_bulk_blocks r tr (h + c) h k p P')) \<le> mx" if "c \<le> mx" for r p h c k and P' :: "'a pool"
    using implicit_bulk_blocks_length [OF assms, of h "h + c" r k p P'] that by simp
  show ?thesis
  proof (cases s)
    case (Explicit p)
    then show ?thesis by (auto simp: explicit_dequeue_bulk_def Let_def case_prod_beta simp del: bulk_blocks.simps intro!: e)
  next
    case (Implicit p)
    then show ?thesis by (auto simp: implicit_dequeue_bulk_def Let_def case_prod_beta simp del: implicit_bulk_blocks.simps intro!: i)
  qed
qed

lemma dequeue_bulk_at_length:
  assumes "0 < BLOCK_SIZE tr" and "BLOCK_SIZE tr < 2 ^ 63" and "dequeue_bulk_at tr mx i q = (items, q')"
  shows "length items \<le> mx"
  using sub_dequeue_bulk_length [OF assms(1,2), of mx "sub (producers q ! i)" "cq_pool q"] assms(3)
  by (auto simp: dequeue_bulk_at_def split: prod.splits)

lemma bulk_first_length:
  assumes "0 < BLOCK_SIZE tr" and "BLOCK_SIZE tr < 2 ^ 63"
  shows "bulk_first tr is mx q = (items, q') \<Longrightarrow> length items \<le> mx"
proof (induction "is" arbitrary: mx q items q')
  case (Cons i "is")
  then show ?case using dequeue_bulk_at_length [OF assms]
    by (fastforce split: prod.splits if_splits)
qed simp

lemma bulk_others_length:
  assumes "0 < BLOCK_SIZE tr" and "BLOCK_SIZE tr < 2 ^ 63"
  shows "bulk_others rounds tr mx ptr tok q = Some (items, tok', q') \<Longrightarrow> length items \<le> mx"
proof (induction rounds arbitrary: mx ptr tok q items tok' q')
  case (Suc rounds)
  then show ?case using dequeue_bulk_at_length [OF assms]
    by (fastforce simp: Let_def split: prod.splits if_splits)
qed simp

lemma inner_bulk_length:
  assumes "0 < BLOCK_SIZE tr" and "BLOCK_SIZE tr < 2 ^ 63" and "inner_try_dequeue_bulk tr tok mx s = Some (items, s')"
  shows "length items \<le> mx"
proof (cases tok)
  case None
  then show ?thesis using assms(3) bulk_first_length [OF assms(1,2)]
    by (auto simp: inner_try_dequeue_bulk_def try_dequeue_bulk_def split: prod.splits)
next
  case (Some a)
  then obtain c c' q where t: "try_dequeue_bulk_token tr c mx (inner s) = Some (items, c', q)"
    using assms(3) by (auto simp: inner_try_dequeue_bulk_def split: option.splits)
  obtain ok c1 where r: "rotate (inner s) c = (ok, c1)" by (metis prod.exhaust)
  obtain xs q1 where d: "dequeue_bulk_at tr mx (the (currentProducer c1)) (inner s) = (xs, q1)" by (metis prod.exhaust)
  note len = dequeue_bulk_at_length [OF assms(1,2) d]
  show ?thesis
  proof (cases "ok \<and> length xs \<noteq> mx")
    case False
    then show ?thesis using t r d len by (auto simp: try_dequeue_bulk_token_def Let_def split: if_splits)
  next
    case True
    then obtain rest c2 where o: "bulk_others (Suc mx * length (producers q1)) tr (mx - length xs) (next_producer q1 (the (currentProducer c1)))
        (c1\<lparr>itemsConsumedFromCurrent := itemsConsumedFromCurrent c1 + of_nat (length xs)\<rparr>) q1 = Some (rest, c2, q)" "items = xs @ rest"
      using t r d by (auto simp: try_dequeue_bulk_token_def Let_def)
    show ?thesis using bulk_others_length [OF assms(1,2) o(1)] o(2) len by simp
  qed
qed

text \<open>
  A bulk dequeue of thread \<open>t\<close> into a buffer for \<open>mx\<close> elements that has written \<open>k\<close> of them so far.  Between the steps of the
  thread the others may bring the queue into any state; they leave only the thread where it is.
\<close>

inductive bulk_call :: "traits \<Rightarrow> nat \<Rightarrow> size_t \<Rightarrow> nat \<Rightarrow> 'a bqueue \<Rightarrow> bool" for tr t mx where
  try_dequeue: "spc (sema s) t = S_Idle \<Longrightarrow> blocking_try_dequeue_bulk t tok mx s = Some s' \<Longrightarrow> bulk_call tr t mx 0 s'"
| wait: "spc (sema s) t = S_Idle \<Longrightarrow> wait_dequeue_bulk t tok mx s = Some s' \<Longrightarrow> bulk_call tr t mx 0 s'"
| wait_timed: "spc (sema s) t = S_Idle \<Longrightarrow> wait_dequeue_bulk_timed t tok mx timeout s = Some s' \<Longrightarrow> bulk_call tr t mx 0 s'"
| others: "bulk_call tr t mx k s \<Longrightarrow> bpcs s' t = bpcs s t \<Longrightarrow> spc (sema s') t = spc (sema s) t \<Longrightarrow> bulk_call tr t mx k s'"
| sema: "bulk_call tr t mx k s \<Longrightarrow> sema_step t inp s = Some s' \<Longrightarrow> bulk_call tr t mx k s'"
| round: "bulk_call tr t mx k s \<Longrightarrow> dequeue_round tr t s = Some s' \<Longrightarrow> bulk_call tr t mx (k + (length (acts s') - length (acts s))) s'"

definition bulk_inv :: "nat \<Rightarrow> size_t \<Rightarrow> nat \<Rightarrow> 'a bqueue \<Rightarrow> bool" where
  "bulk_inv t mx k s \<longleftrightarrow> k \<le> unat mx
    \<and> (case bpcs s t of
         B_many m tok \<Rightarrow> m = int (unat mx) \<and> many_pc m (spc (sema s) t) \<and> k = 0
       | B_dequeue_bulk n tok \<Rightarrow> k + n \<le> unat mx
       | B_Idle \<Rightarrow> True
       | _ \<Rightarrow> False)"

lemma to_ssize_nonneg: "to_ssize mx \<ge> 0 \<Longrightarrow> to_ssize mx = int (unat mx)"
  using sint_lt [of mx] by (simp add: to_ssize_def uint_sint take_bit_int_eq_self)

lemma bulk_inv_call:
  assumes "spc (sema s) t = S_Idle" and "when_idle t s (sema_call t c (B_many (to_ssize mx) tok) s) = Some s'"
    and "\<And>q. call_pc c = Some q \<Longrightarrow> to_ssize mx \<ge> 0 \<and> many_pc (to_ssize mx) q"
  shows "bulk_inv t mx 0 s'"
proof -
  obtain q where q: "call_pc c = Some q" "s' = goto t (B_many (to_ssize mx) tok) (s\<lparr>sema := at t q (sema s)\<rparr>)"
    using assms(1,2) by (auto simp: when_idle_def sema_call_def sem_call_step_def split: if_splits)
  then show ?thesis using assms(3) [OF q(1)] to_ssize_nonneg [of mx] by (simp add: bulk_inv_def goto_def at_def)
qed

lemma bulk_inv_sema:
  assumes "bulk_inv t mx k s" and "sema_step t inp s = Some s'"
  shows "bulk_inv t mx k s'"
proof -
  obtain tok where b: "bpcs s t = B_many (int (unat mx)) tok" "many_pc (int (unat mx)) (spc (sema s) t)" "k = 0"
    using assms by (auto simp: bulk_inv_def sema_step_def in_sema_def split: bpc.splits if_splits)
  then obtain m where m: "sstep t inp (sema s) = Some m"
    "s' = (if spc m t = S_Idle then sema_returns t (returned m - returned (sema s)) (s\<lparr>sema := m\<rparr>) else s\<lparr>sema := m\<rparr>)"
    using assms(2) by (auto simp: sema_step_def in_sema_def Let_def)
  from many_step [OF b(2) m(1)] show ?thesis using b m(2)
    by (auto simp: bulk_inv_def op_step_def sema_returns_def goto_def nat_le_iff)
qed

lemma bulk_inv_round:
  assumes "0 < BLOCK_SIZE tr" and "BLOCK_SIZE tr < 2 ^ 63" and "bulk_inv t mx k s" and "dequeue_round tr t s = Some s'"
  shows "bulk_inv t mx (k + (length (acts s') - length (acts s))) s'"
proof -
  obtain n tok where b: "bpcs s t = B_dequeue_bulk n tok" "k + n \<le> unat mx"
    using assms(3,4) by (auto simp: bulk_inv_def dequeue_round_def split: bpc.splits)
  obtain items s1 where d: "inner_try_dequeue_bulk tr tok n s = Some (items, s1)"
    "s' = goto t (if length items = n then B_Idle else B_dequeue_bulk (n - length items) tok) (s1\<lparr>acts := acts s1 @ map Received items\<rparr>)"
    using assms(4) b(1) by (auto simp: dequeue_round_def)
  have "acts s1 = acts s" using d(1) by (auto simp: inner_try_dequeue_bulk_def split: option.splits prod.splits)
  then show ?thesis using inner_bulk_length [OF assms(1,2) d(1)] d(2) b(2) by (simp add: bulk_inv_def goto_def)
qed

text \<open>
  (C16) The bulk operations stay within the buffer of the caller: however the other threads interfere, the elements a call of
  \<open>try_dequeue_bulk\<close>, \<open>wait_dequeue_bulk\<close> or \<open>wait_dequeue_bulk_timed\<close> has written so far and those its next
  round still asks the inner queue for are together at most the \<open>max\<close> of the call.  This does not depend on the inner
  queue: it holds even when what is in it is out of order.
\<close>

theorem bulk_within_buffer:
  assumes "0 < BLOCK_SIZE tr" and "BLOCK_SIZE tr < 2 ^ 63" and "bulk_call tr t mx k s"
  shows "k \<le> unat mx \<and> (\<forall>n tok. bpcs s t = B_dequeue_bulk n tok \<longrightarrow> k + n \<le> unat mx)"
proof -
  from assms(3) have "bulk_inv t mx k s"
  proof (induction rule: bulk_call.induct)
    case (try_dequeue s tok s')
    show ?case by (rule bulk_inv_call [OF try_dequeue(1) try_dequeue(2) [unfolded blocking_try_dequeue_bulk_def]]) (auto split: if_splits)
  next
    case (wait s tok s')
    show ?case by (rule bulk_inv_call [OF wait(1) wait(2) [unfolded wait_dequeue_bulk_def]]) (auto split: if_splits)
  next
    case (wait_timed s tok timeout s')
    show ?case by (rule bulk_inv_call [OF wait_timed(1) wait_timed(2) [unfolded wait_dequeue_bulk_timed_def]]) (auto split: if_splits)
  next
    case (others k s s')
    then show ?case by (cases "bpcs s t") (simp_all add: bulk_inv_def)
  qed (auto intro: bulk_inv_sema bulk_inv_round [OF assms(1,2)])
  then show ?thesis by (auto simp: bulk_inv_def)
qed

theorem bulk_within_buffer_witness:
  "\<exists>s :: nat bqueue. bulk_call small_traits 1 5 0 s \<and> bpcs s 1 = B_dequeue_bulk 3 None \<and> (0 :: nat) + 3 \<le> unat (5 :: size_t)"
proof -
  define s0 :: "nat bqueue" where "s0 = \<lparr>inner = ConcurrentQueue (\<lambda>_. True) small_traits 0, sema = LightweightSemaphore 3 0, bpcs = (\<lambda>_. B_Idle),
     ptoks = Map.empty, ctoks = Map.empty, acts = []\<rparr>"
  obtain s1 where s1: "blocking_try_dequeue_bulk 1 None 5 s0 = Some s1" "bpcs s1 1 = B_many 5 None"
    "sema s1 = (LightweightSemaphore 3 0)\<lparr>spc := (\<lambda>_. S_Idle)(1 := TM_load ReturnTryMany 5)\<rparr>"
    by (simp add: blocking_try_dequeue_bulk_def when_idle_def sema_call_def sem_call_step_def at_def goto_def
        LightweightSemaphore_def to_ssize_def s0_def)
  have r1: "bulk_call small_traits 1 5 0 s1" by (rule bulk_call.try_dequeue [OF _ s1(1)]) (simp add: s0_def LightweightSemaphore_def)
  obtain s2 where s2: "sema_step 1 SGo s1 = Some s2" "bpcs s2 1 = B_many 5 None"
    "sema s2 = (LightweightSemaphore 3 0)\<lparr>spc := (\<lambda>_. S_Idle)(1 := TM_cas ReturnTryMany 5 3)\<rparr>"
    using s1 by (simp add: sema_step_def in_sema_def sstep_def sem_steps mv_def LightweightSemaphore_def)
  obtain s3 where s3: "sema_step 1 SGo s2 = Some s3" "bpcs s3 1 = B_dequeue_bulk 3 None"
    using s2 by (simp add: sema_step_def in_sema_def sstep_def sem_steps mv_def LightweightSemaphore_def sema_returns_def goto_def newCount_of_def)
  have r3: "bulk_call small_traits 1 5 0 s3" by (rule bulk_call.sema [OF bulk_call.sema [OF r1 s2(1)] s3(1)])
  have "0 < BLOCK_SIZE small_traits" "BLOCK_SIZE small_traits < 2 ^ 63" by (simp_all add: small_traits_def default_traits_def)
  from bulk_within_buffer [OF this r3] have "bpcs s3 1 = B_dequeue_bulk 3 None \<longrightarrow> (0 :: nat) + 3 \<le> unat (5 :: size_t)" by blast
  then have "(0 :: nat) + 3 \<le> unat (5 :: size_t)" using s3(2) by (rule mp)
  then show ?thesis using r3 s3(2) by blast
qed

end
