(* ===== verification/SocketSystem.thy ===== *)
theory SocketSystem
  imports Prelude
begin

text \<open>
  What the socket classes stand on: the system calls they make, \<open>SocketLogger.hpp\<close>/\<open>SocketLogger.cpp\<close> and the helpers of
  \<open>SocketUtil.hpp\<close>.  The operating system, the allocator, \<open>fmt\<close> and \<open>strerror\<close> are not part of the sources: they are the fields of an
  environment \<open>E\<close> that every operation takes.  The operating system answers a call as a function of the calls made
  so far; the answer also says what other threads did to the flags of the socket meanwhile.
\<close>

section \<open>The environment\<close>

record addrinfo =
  ai_family :: int
  ai_socktype :: int
  ai_protocol :: int
  ai_addr :: nat

text \<open>The system calls, with times in microseconds.  A pointer into the list \<open>getaddrinfo\<close> returns is the rest of the list.\<close>

datatype sys =
    GetAddrInfo "string option" string | FreeAddrInfo "addrinfo list"
  | NewSocket int int int | FcntlGet int | FcntlSetNonblock int
  | SetSockOpt int int int | Bind int nat | Listen int int | Accept int | Connect int nat
  | Send int "byte list" | Recv int nat | Shutdown int | Close int
  | GetPeerName int | GetNameInfo nat | InetNtop int nat | Sleep nat | Spawn string | Join string

record reply =
  ret :: int
  err :: "int option"
  received :: "byte list"
  infos :: "addrinfo list"
  address :: nat
  names :: "string \<times> string"
  stops_channel :: bool
  stops_socket :: bool

datatype fmt_arg = FStr string | FInt int

record env =
  os :: "sys list \<Rightarrow> sys \<Rightarrow> reply"
  enqueue_fails :: "sys list \<Rightarrow> nat"
  fmt :: "string \<Rightarrow> fmt_arg list \<Rightarrow> string"
  strerror :: "int \<Rightarrow> string"
  gai_strerror :: "int \<Rightarrow> string"
  malloc_ok :: "nat \<Rightarrow> bool"
  sema_ok :: bool

definition EWOULDBLOCK :: int where "EWOULDBLOCK = 11"
definition ECONNRESET :: int where "ECONNRESET = 104"

section \<open>State\<close>

datatype LoggerLevel = DEBUG_LEVEL | INFO | WARN | ERROR

primrec loggerLevelToStr :: "LoggerLevel \<Rightarrow> string" where
  "loggerLevelToStr DEBUG_LEVEL = ''DEBUG''"
| "loggerLevelToStr INFO = ''INFO''"
| "loggerLevelToStr WARN = ''WARN''"
| "loggerLevelToStr ERROR = ''ERROR''"

datatype LogTask = LogTask (task_level: LoggerLevel) (task_tag: string) (task_log: string)

text \<open>
  \<open>made\<close> are the system calls in order, \<open>logs\<close> the tasks put into \<open>logQueue\<close>, a \<open>BlockingConcurrentQueue\<close>, and not yet taken.
\<close>

record world =
  made :: "sys list"
  errno :: int
  logs :: "LogTask list"
  DebugEnabled :: bool

definition sys_call :: "env \<Rightarrow> sys \<Rightarrow> world \<Rightarrow> reply \<times> world" where
  "sys_call E c w =
     (let r = os E (made w) c
      in (r, w\<lparr>made := made w @ [c], errno := (case err r of None \<Rightarrow> errno w | Some e \<Rightarrow> e)\<rparr>))"

definition do_call :: "env \<Rightarrow> sys \<Rightarrow> world \<Rightarrow> world" where
  "do_call E c w = snd (sys_call E c w)"

section \<open>Logger\<close>

text \<open>
  \<open>queueLogInternal\<close> tries again, 10 milliseconds later, until the queue accepts the task; \<open>enqueue_fails\<close> is how often
  it does not.
\<close>

primrec retry_enqueue :: "nat \<Rightarrow> env \<Rightarrow> world \<Rightarrow> world" where
  "retry_enqueue 0 E w = w"
| "retry_enqueue (Suc n) E w = retry_enqueue n E (do_call E (Sleep 10000) w)"

definition queueLogInternal :: "env \<Rightarrow> LoggerLevel \<Rightarrow> string \<Rightarrow> string \<Rightarrow> world \<Rightarrow> world" where
  "queueLogInternal E level tag log w =
     (let w = retry_enqueue (enqueue_fails E (made w)) E w in w\<lparr>logs := logs w @ [LogTask level tag log]\<rparr>)"

definition writeLog :: "env \<Rightarrow> LoggerLevel \<Rightarrow> string \<Rightarrow> string \<Rightarrow> world \<Rightarrow> world" where
  "writeLog E lvl tag log w = (if lvl = DEBUG_LEVEL \<and> \<not> DebugEnabled w then w else queueLogInternal E lvl tag log w)"

definition fmtLog :: "env \<Rightarrow> LoggerLevel \<Rightarrow> string \<Rightarrow> string \<Rightarrow> fmt_arg list \<Rightarrow> world \<Rightarrow> world" where
  "fmtLog E lvl tag str args w = writeLog E lvl tag (fmt E str args) w"

definition fmtThrowError :: "env \<Rightarrow> (string \<Rightarrow> exn) \<Rightarrow> string \<Rightarrow> string \<Rightarrow> fmt_arg list \<Rightarrow> world \<Rightarrow> exn \<times> world" where
  "fmtThrowError E exception tag str args w = (exception (fmt E str args), fmtLog E ERROR tag str args w)"

section \<open>SocketUtil\<close>

definition getProperErrorString :: "env \<Rightarrow> bool \<Rightarrow> int \<Rightarrow> world \<Rightarrow> string" where
  "getProperErrorString E isStatusError e w = (if isStatusError then strerror E e else strerror E (errno w))"

definition logIfError :: "env \<Rightarrow> bool \<Rightarrow> LoggerLevel \<Rightarrow> int \<Rightarrow> string \<Rightarrow> string \<Rightarrow> world \<Rightarrow> world" where
  "logIfError E isStatusError lvl status tag message w =
     (if status \<noteq> 0
      then fmtLog E lvl tag ''Failed to run method: At: {} Cause: {}'' [FStr message, FStr (getProperErrorString E isStatusError status w)] w
      else w)"

definition throwIfNull :: "env \<Rightarrow> 'a list \<Rightarrow> string \<Rightarrow> world \<Rightarrow> (exn + unit) \<times> world" where
  "throwIfNull E status tag w =
     (if status = [] then (case fmtThrowError E runtime_error tag ''Failed to run method because of null'' [] w of (e, w) \<Rightarrow> (Inl e, w))
      else (Inr (), w))"

definition throwIfError :: "env \<Rightarrow> bool \<Rightarrow> int \<Rightarrow> string \<Rightarrow> world \<Rightarrow> (exn + unit) \<times> world" where
  "throwIfError E isStatusError status tag w =
     (if status \<noteq> 0
      then (case fmtThrowError E runtime_error tag ''Failed to run method: {}'' [FStr (getProperErrorString E isStatusError status w)] w of
              (e, w) \<Rightarrow> (Inl e, w))
      else (Inr (), w))"

text \<open>A system call whose status is checked by \<open>throwIfError\<close>.\<close>

definition checked_call :: "env \<Rightarrow> sys \<Rightarrow> string \<Rightarrow> world \<Rightarrow> (exn + unit) \<times> world" where
  "checked_call E c tag w = (case sys_call E c w of (r, w) \<Rightarrow> throwIfError E False (ret r) tag w)"

text \<open>
  \<open>resolveEndpoint\<close>; null is the empty list.  On failure \<open>freeaddrinfo\<close> is called on the pointer that \<open>getaddrinfo\<close> did
  not set: what it points to is \<open>garbage\<close>.
\<close>

definition resolveEndpoint :: "env \<Rightarrow> addrinfo list \<Rightarrow> string option \<Rightarrow> string \<Rightarrow> world \<Rightarrow> addrinfo list \<times> world" where
  "resolveEndpoint E garbage location port w =
     (case sys_call E (GetAddrInfo location port) w of (r, w) \<Rightarrow>
        if ret r \<noteq> 0
        then ([], do_call E (FreeAddrInfo garbage)
                    (fmtLog E ERROR ''ResolveEndpoint'' ''getaddrinfo error: {}'' [FStr (gai_strerror E (ret r))] w))
        else (infos r, w))"

definition getHostByAddress :: "env \<Rightarrow> nat \<Rightarrow> world \<Rightarrow> (exn + string \<times> string) \<times> world" where
  "getHostByAddress E their_addr w =
     (case sys_call E (GetNameInfo their_addr) w of (r, w) \<Rightarrow>
        case throwIfError E False (ret r) ''getHostByAddress'' w of
          (Inl e, w) \<Rightarrow> (Inl e, w)
        | (Inr _, w) \<Rightarrow> (Inr (names r), w))"

end
