(* ===== verification/SocketChannel.thy ===== *)
theory SocketChannel
  imports SocketSystem StreamQueue EventCallback ConcurrentQueueClients
begin

text \<open>
  \<open>Channel\<close> of \<open>Socket.hpp\<close>/\<open>Socket.cpp\<close>: the connection to one peer.  Messages are queued in \<open>writeQueue\<close>, taken from it
  and sent by \<open>handleWriteQueue\<close>; \<open>readData\<close> receives bytes into \<open>incomingQueue\<close> and calls the listeners.  Each operation
  runs without another one of the same channel in between; what other threads do while it waits for the operating
  system is part of the answer of the system call.  A message is the bytes it holds, \<open>None\<close> when its data pointer is null.
\<close>

section \<open>State\<close>

text \<open>
  \<open>writeQueue\<close> and \<open>writeSema\<close> are the inner queue and the count of the semaphore of the \<open>BlockingConcurrentQueue\<close>;
  \<open>readLock\<close> and \<open>writeLock\<close> say that another thread holds the mutex, and \<open>readThread\<close> and \<open>writeThread\<close> are the threads
  the members refer to, if any.
\<close>

record channel =
  clientDescriptor :: int
  channel_active :: bool
  owner :: nat
  readLock :: bool
  writeLock :: bool
  readThread :: "thread_id option"
  writeThread :: "thread_id option"
  incomingQueue :: stream_queue
  writeQueue :: "byte list cqueue"
  writeSema :: int
  writeConsumeToken :: ctoken

text \<open>The channel with \<open>active\<close> of its socket and the rest of the world.\<close>

record chan_state =
  chan :: channel
  sock_active :: bool
  io :: world

definition CHANNEL_LOG_TAG :: string where
  "CHANNEL_LOG_TAG = ''channel''"

definition Channel :: "env \<Rightarrow> nat \<Rightarrow> int \<Rightarrow> exn + channel" where
  "Channel E socket_id descriptor =
     (if sema_ok E then
        case ConsumerToken (ConcurrentQueue (malloc_ok E) default_traits (6 * BLOCK_SIZE default_traits)) of (tok, q) \<Rightarrow>
          Inr \<lparr>clientDescriptor = descriptor, channel_active = True, owner = socket_id, readLock = False, writeLock = False,
               readThread = None, writeThread = None, incomingQueue = empty_queue, writeQueue = q, writeSema = 0, writeConsumeToken = tok\<rparr>
      else Inl bad_alloc)"

text \<open>\<open>Channel::isActive\<close>.\<close>

definition isActive :: "chan_state \<Rightarrow> bool" where
  "isActive s \<longleftrightarrow> channel_active (chan s) \<and> sock_active s"

text \<open>A system call of the channel: meanwhile other threads may stop the channel or the socket.\<close>

definition chan_call :: "env \<Rightarrow> sys \<Rightarrow> chan_state \<Rightarrow> reply \<times> chan_state" where
  "chan_call E c s =
     (case sys_call E c (io s) of (r, w) \<Rightarrow>
        (r, s\<lparr>io := w, chan := (chan s)\<lparr>channel_active := channel_active (chan s) \<and> \<not> stops_channel r\<rparr>,
              sock_active := sock_active s \<and> \<not> stops_socket r\<rparr>))"

definition on_io :: "(world \<Rightarrow> world) \<Rightarrow> chan_state \<Rightarrow> chan_state" where
  "on_io f s = s\<lparr>io := f (io s)\<rparr>"

definition queueShutdown :: "env \<Rightarrow> chan_state \<Rightarrow> chan_state" where
  "queueShutdown E s =
     (let s = on_io (fmtLog E DEBUG_LEVEL CHANNEL_LOG_TAG ''Queing shutdown for {}'' [FInt (int (owner (chan s)))]) s
      in s\<lparr>chan := (chan s)\<lparr>channel_active := False\<rparr>\<rparr>)"

section \<open>Sending\<close>

text \<open>
  The loop of \<open>sendBytes\<close>.  The condition compares the \<open>long\<close> with the \<open>size_t\<close> after conversion to \<open>size_t\<close>.  \<open>None\<close> is
  a loop that has not ended after the given number of rounds.
\<close>

primrec send_loop :: "nat \<Rightarrow> env \<Rightarrow> int \<Rightarrow> byte list \<Rightarrow> chan_state \<Rightarrow> ((exn + unit) \<times> chan_state) option" where
  "send_loop 0 E sent_bytes bs s = None"
| "send_loop (Suc rounds) E sent_bytes bs s =
     (if \<not> (of_int sent_bytes :: size_t) < of_nat (length bs) then Some (Inr (), s)
      else if \<not> isActive s then Some (Inr (), s)
      else case chan_call E (Send (clientDescriptor (chan s)) bs) s of (r, s) \<Rightarrow>
        let e = errno (io s) in
        if ret r < 0 then
          if e = EWOULDBLOCK then send_loop rounds E (ret r) bs (snd (chan_call E (Sleep 50) s))
          else
            let s = queueShutdown E s in
            case throwIfError E True e CHANNEL_LOG_TAG (io s) of (x, w) \<Rightarrow> Some (x, s\<lparr>io := w\<rparr>)
        else if (of_int (ret r) :: size_t) < of_nat (length bs)
        then send_loop rounds E (ret r) (drop (nat (ret r)) bs) s
        else send_loop rounds E (ret r) bs s)"

text \<open>Enough rounds for every behaviour of \<open>send\<close> that makes progress: each sends at least one byte.\<close>

definition sendBytes :: "env \<Rightarrow> byte list \<Rightarrow> chan_state \<Rightarrow> ((exn + unit) \<times> chan_state) option" where
  "sendBytes E bs s =
     (if \<not> channel_active (chan s) \<or> \<not> sock_active s
      then Some (Inr (), on_io (writeLog E WARN CHANNEL_LOG_TAG ''Sending data when socket isn't active, why?'') s)
      else send_loop (length bs + 2) E 0 bs s)"

definition sendMessage :: "env \<Rightarrow> byte list \<Rightarrow> chan_state \<Rightarrow> ((exn + unit) \<times> chan_state) option" where
  "sendMessage E message s = sendBytes E message s"

text \<open>\<open>queueWrite\<close>, called by thread \<open>tid\<close>; \<open>throws\<close> is what copying the message throws.  The result of \<open>enqueue\<close> is ignored.\<close>

definition queueWrite :: "env \<Rightarrow> thread_id \<Rightarrow> exn option \<Rightarrow> byte list option \<Rightarrow> chan_state \<Rightarrow> ((exn + unit) \<times> chan_state) option" where
  "queueWrite E tid throws msg s =
     (if \<not> channel_active (chan s) then Some (Inr (), s)
      else if msg = None \<or> msg = Some [] then Some (Inr (), s)
      else if Some tid \<noteq> writeThread (chan s) then
        (case enqueue (malloc_ok E) default_traits CanAlloc throws tid (the msg) (writeQueue (chan s)) of
           None \<Rightarrow> None
         | Some (r, q) \<Rightarrow>
             Some (case r of Inl e \<Rightarrow> Inl e | Inr _ \<Rightarrow> Inr (),
                   s\<lparr>chan := (chan s)\<lparr>writeQueue := q, writeSema := (if r = Inr True then writeSema (chan s) + 1 else writeSema (chan s))\<rparr>\<rparr>))
      else sendMessage E (the msg) s)"

text \<open>
  \<open>wait_dequeue_bulk_timed\<close> of the write queue when no other thread interferes: as many permits as there are, or none once the
  time is up, then the loop over the inner dequeue.
\<close>

primrec take_permitted :: "nat \<Rightarrow> nat \<Rightarrow> ctoken \<Rightarrow> byte list cqueue \<Rightarrow> (byte list option list \<times> ctoken \<times> byte list cqueue) option" where
  "take_permitted 0 n tok q = (if n = 0 then Some ([], tok, q) else None)"
| "take_permitted (Suc rounds) n tok q =
     (if n = 0 then Some ([], tok, q)
      else case try_dequeue_bulk_token default_traits tok n q of None \<Rightarrow> None
        | Some (items, tok, q) \<Rightarrow>
            map_option (\<lambda>(rest, tok, q). (items @ rest, tok, q)) (take_permitted rounds (n - length items) tok q))"

definition dequeue_messages :: "nat \<Rightarrow> channel \<Rightarrow> (byte list option list \<times> channel) option" where
  "dequeue_messages mx c =
     (let n = (if writeSema c > 0 then min mx (nat (writeSema c)) else 0) in
      map_option (\<lambda>(items, tok, q). (items, c\<lparr>writeQueue := q, writeConsumeToken := tok, writeSema := writeSema c - int n\<rparr>))
        (take_permitted (Suc n) n (writeConsumeToken c) (writeQueue c)))"

text \<open>The loop that sends the messages taken; reading memory that holds no message is undefined, not returning.\<close>

primrec send_all :: "env \<Rightarrow> byte list option list \<Rightarrow> chan_state \<Rightarrow> ((exn + unit) \<times> chan_state) option" where
  "send_all E [] s = Some (Inr (), s)"
| "send_all E (m # ms) s =
     (case m of None \<Rightarrow> None
      | Some bs \<Rightarrow>
          (case sendMessage E bs s of
             None \<Rightarrow> None
           | Some (Inl e, s) \<Rightarrow> Some (Inl e, s)
           | Some (Inr _, s) \<Rightarrow> send_all E ms s))"

definition what :: "exn \<Rightarrow> string" where
  "what e = (case e of bad_alloc \<Rightarrow> ''std::bad_alloc'' | runtime_error m \<Rightarrow> m | invalid_argument m \<Rightarrow> m)"

definition crashed :: "env \<Rightarrow> string \<Rightarrow> exn \<Rightarrow> chan_state \<Rightarrow> chan_state" where
  "crashed E message e s = queueShutdown E (on_io (fmtLog E ERROR CHANNEL_LOG_TAG message [FStr (what e)]) s)"

definition handleWriteQueue :: "env \<Rightarrow> chan_state \<Rightarrow> (bool \<times> chan_state) option" where
  "handleWriteQueue E s =
     (if \<not> channel_active (chan s) then Some (False, s)
      else if max 0 (writeSema (chan s)) = 0 then Some (False, s)
      else if writeLock (chan s) then Some (False, s)
      else case dequeue_messages 10 (chan s) of
        None \<Rightarrow> None
      | Some (messages, c) \<Rightarrow>
          let s = s\<lparr>chan := c\<rparr> in
          if messages = [] then Some (False, s)
          else case send_all E messages s of
            None \<Rightarrow> None
          | Some (Inl e, s) \<Rightarrow> Some (False, crashed E ''Closing socket because it has crashed fatally while writing: {}'' e s)
          | Some (Inr _, s) \<Rightarrow> Some (True, s))"

section \<open>Receiving\<close>

text \<open>
  \<open>readData\<close> with a buffer of \<open>n\<close> bytes; \<open>listeners\<close> are the callbacks of \<open>listenCallback\<close> and \<open>beh\<close> what they do with the
  channel.  Nothing but the termination of the process leaves it as an exception.
\<close>

definition listener_failed :: "env \<Rightarrow> exn \<Rightarrow> chan_state \<Rightarrow> chan_state outcome" where
  "listener_failed E e s = Ret (on_io (fmtLog E ERROR CHANNEL_LOG_TAG ''Exception caught in listener: {}'' [FStr (what e)]) s)"

definition readData :: "env \<Rightarrow> (unit, chan_state) behaviour \<Rightarrow> callback list \<Rightarrow> nat \<Rightarrow> chan_state \<Rightarrow> (bool \<times> chan_state) outcome" where
  "readData E beh listeners n s =
     (if \<not> channel_active (chan s) then Ret (False, s)
      else if readLock (chan s) then Ret (False, s)
      else case chan_call E (Recv (clientDescriptor (chan s)) n) s of (r, s) \<Rightarrow>
        let e = errno (io s) in
        if \<not> isActive s then Ret (False, s)
        else if ret r = 0 then Ret (False, queueShutdown E s)
        else if ret r < 0 then
          if e = ECONNRESET then Ret (False, queueShutdown E s)
          else if e = EWOULDBLOCK then Ret (False, s)
          else
            let s = queueShutdown E s in
            (case throwIfError E True e CHANNEL_LOG_TAG (io s) of
               (Inl x, w) \<Rightarrow> Ret (False, crashed E ''Closing socket because it has crashed fatally while reading: {}'' x (s\<lparr>io := w\<rparr>))
             | (Inr _, w) \<Rightarrow> Ret (False, s\<lparr>io := w\<rparr>))
        else
          let s = s\<lparr>chan := (chan s)\<lparr>incomingQueue := enqueueMove (take (nat (ret r)) (received r)) (incomingQueue (chan s))\<rparr>\<rparr> in
          if event_empty listeners then Ret (True, s)
          else case invokeError beh (listener_failed E) () listeners s of
            Ret s \<Rightarrow> Ret (True, s)
          | Throw x s \<Rightarrow> Ret (False, crashed E ''Closing socket because it has crashed fatally while reading: {}'' x s)
          | Terminate s \<Rightarrow> Terminate (False, s))"

section \<open>Shutdown\<close>

text \<open>
  \<open>awaitShutdown\<close> waits for the threads and for both mutexes; while another thread holds one it does not return.
\<close>

definition awaitShutdown :: "env \<Rightarrow> chan_state \<Rightarrow> chan_state option" where
  "awaitShutdown E s =
     (let s = queueShutdown E s;
          join = (\<lambda>t name message s. case t of None \<Rightarrow> s
                    | Some _ \<Rightarrow> snd (chan_call E (Join name) (on_io (writeLog E DEBUG_LEVEL CHANNEL_LOG_TAG message) s)));
          s = join (readThread (chan s)) ''readThread'' ''Read detach'' s;
          s = join (writeThread (chan s)) ''writeThread'' ''Write wait end'' s
      in if readLock (chan s) \<or> writeLock (chan s) then None
         else Some (on_io (writeLog E DEBUG_LEVEL CHANNEL_LOG_TAG ''Ending channel'') s))"

definition destroy_Channel :: "env \<Rightarrow> chan_state \<Rightarrow> chan_state option" where
  "destroy_Channel E s = awaitShutdown E (queueShutdown E s)"

end
