(* ===== verification/SocketBase.thy ===== *)
theory SocketBase
  imports SocketChannel
begin

text \<open>\<open>Socket\<close> of \<open>Socket.hpp\<close>/\<open>Socket.cpp\<close>, the base of the client and the server socket.\<close>

section \<open>State\<close>

text \<open>\<open>servInfo\<close> is the list from the node it points to on, the empty list when it is null.\<close>

record socket =
  socket_id :: nat
  servInfo :: "addrinfo list"
  host :: "string option"
  port :: u32
  socketDescriptor :: int
  active :: bool
  noDelay :: bool
  bufferSize :: u32
  listenCallback :: "callback list"
  connectCallback :: "callback list"

definition SOCKET_LOG_TAG :: string where
  "SOCKET_LOG_TAG = ''socket_core''"

text \<open>\<open>std::to_string\<close> of the port.\<close>

fun to_string :: "nat \<Rightarrow> string" where
  "to_string n = (if n < 10 then [char_of (48 + n)] else to_string (n div 10) @ [char_of (48 + n mod 10)])"

section \<open>Construction and destruction\<close>

text \<open>
  The loop of the constructor: the descriptor and the node of the first address a socket can be made for.  When
  there is none, the descriptor is that of the last attempt and \<open>servInfo\<close> stays at the head of the list.
\<close>

primrec make_socket :: "env \<Rightarrow> addrinfo list \<Rightarrow> addrinfo list \<Rightarrow> int \<Rightarrow> world \<Rightarrow> (exn + int \<times> addrinfo list) \<times> world" where
  "make_socket E serv [] descriptor w = (Inr (descriptor, serv), w)"
| "make_socket E serv (p # rest) descriptor w =
     (let w = writeLog E DEBUG_LEVEL SOCKET_LOG_TAG ''creating socket'' w in
      case sys_call E (NewSocket (ai_family p) (ai_socktype p) (ai_protocol p)) w of (r, w) \<Rightarrow>
        if ret r = -1
        then make_socket E serv rest (ret r) (logIfError E False ERROR (ret r) ''creating socket'' SOCKET_LOG_TAG w)
        else case checked_call E (FcntlSetNonblock (ret r)) SOCKET_LOG_TAG (do_call E (FcntlGet (ret r)) w) of
            (Inl e, w) \<Rightarrow> (Inl e, w)
          | (Inr _, w) \<Rightarrow> (Inr (ret r, p # rest), w))"

definition Socket :: "env \<Rightarrow> addrinfo list \<Rightarrow> nat \<Rightarrow> string option \<Rightarrow> u32 \<Rightarrow> world \<Rightarrow> (exn + socket) \<times> world" where
  "Socket E garbage sid addr prt w =
     (case resolveEndpoint E garbage addr (to_string (unat prt)) w of (serv, w) \<Rightarrow>
        case throwIfNull E serv SOCKET_LOG_TAG w of
          (Inl e, w) \<Rightarrow> (Inl e, w)
        | (Inr _, w) \<Rightarrow>
            (case make_socket E serv serv (-1) w of
               (Inl e, w) \<Rightarrow> (Inl e, w)
             | (Inr (descriptor, serv), w) \<Rightarrow>
                 (case throwIfNull E serv SOCKET_LOG_TAG w of
                    (Inl e, w) \<Rightarrow> (Inl e, w)
                  | (Inr _, w) \<Rightarrow>
                      (Inr \<lparr>socket_id = sid, servInfo = serv, host = addr, port = prt, socketDescriptor = descriptor, active = False,
                            noDelay = False, bufferSize = 512, listenCallback = [], connectCallback = []\<rparr>, w))))"

definition destroy_Socket :: "env \<Rightarrow> socket \<Rightarrow> world \<Rightarrow> world" where
  "destroy_Socket E s w =
     (let w = writeLog E DEBUG_LEVEL SOCKET_LOG_TAG ''Destroy!'' w
      in if servInfo s \<noteq> [] then do_call E (FreeAddrInfo (servInfo s)) w else w)"

definition notifyStop :: "socket \<Rightarrow> socket" where
  "notifyStop s = s\<lparr>active := False\<rparr>"

end
