(* ===== verification/SocketServer.thy ===== *)
theory SocketServer
  imports SocketBase
begin

text \<open>
  \<open>ServerSocket\<close> of \<open>ServerSocket.hpp\<close>/\<open>ServerSocket.cpp\<close>: it accepts clients, keeps a channel for each and lets its worker
  threads read from and write to them.  The definitions give what an operation or a round of a loop does when no other
  thread touches the map of clients meanwhile.  The code does not always guarantee that: \<open>onConnectedClient\<close>, \<open>write\<close>, the rounds of
  the worker loops and the first half of \<open>closeClient\<close> hold the mutex of the map, but \<open>threadLoop\<close> and the destructor walk the
  map without it, and a round of the connection loop is several critical sections.  How the threads
  interleave between those is the relation \<open>server_steps\<close> of \<open>SocketServerSafety\<close>.  The order in which a loop visits the
  map is the library's choice: the argument \<open>order\<close>.  An operation gives \<open>None\<close> when it does not return or its
  behaviour is undefined.
\<close>

section \<open>State\<close>

text \<open>
  \<open>generation fd\<close> counts the channels the map has had for \<open>fd\<close>, so that a descriptor and its generation tell which channel a
  pointer refers to.  \<open>starting\<close> are the detached threads of \<open>onConnectedClient\<close> that have not run yet, with the channel they
  hold a pointer to.
\<close>

record server =
  sock :: socket
  clients :: "(int \<times> channel) list"
  workerThreadCount :: "16 word"
  threads :: "string list"
  generation :: "int \<Rightarrow> nat"
  starting :: "(int \<times> nat) list"
  sio :: world

definition SERVER_LOG_TAG :: string where
  "SERVER_LOG_TAG = ''server''"

text \<open>The numbers of the socket options, as Linux has them.\<close>

definition SOL_SOCKET :: int where "SOL_SOCKET = 1"
definition IPPROTO_TCP :: int where "IPPROTO_TCP = 6"
definition TCP_NODELAY :: int where "TCP_NODELAY = 1"
definition SO_REUSEADDR :: int where "SO_REUSEADDR = 2"
definition SO_KEEPALIVE :: int where "SO_KEEPALIVE = 9"
definition SO_REUSEPORT :: int where "SO_REUSEPORT = 15"

definition SOCKET_SERVER_BACKLOG :: int where
  "SOCKET_SERVER_BACKLOG = 10"

definition ServerSocket :: "env \<Rightarrow> addrinfo list \<Rightarrow> nat \<Rightarrow> u32 \<Rightarrow> world \<Rightarrow> (exn + server) \<times> world" where
  "ServerSocket E garbage sid prt w =
     (case Socket E garbage sid None prt w of
        (Inl e, w) \<Rightarrow> (Inl e, w)
      | (Inr s, w) \<Rightarrow> (Inr \<lparr>sock = s, clients = [], workerThreadCount = 2, threads = [], generation = (\<lambda>_. 0), starting = [], sio = w\<rparr>, w))"

definition on_sio :: "(world \<Rightarrow> world) \<Rightarrow> server \<Rightarrow> server" where
  "on_sio f s = s\<lparr>sio := f (sio s)\<rparr>"

definition set_active :: "bool \<Rightarrow> server \<Rightarrow> server" where
  "set_active b s = s\<lparr>sock := (sock s)\<lparr>active := b\<rparr>\<rparr>"

text \<open>A system call of the server: meanwhile another thread may call \<open>notifyStop\<close>.\<close>

definition server_call :: "env \<Rightarrow> sys \<Rightarrow> server \<Rightarrow> reply \<times> server" where
  "server_call E c s =
     (case sys_call E c (sio s) of (r, w) \<Rightarrow> (r, set_active (active (sock s) \<and> \<not> stops_socket r) (s\<lparr>sio := w\<rparr>)))"

definition server_try :: "env \<Rightarrow> sys \<Rightarrow> server \<Rightarrow> (exn + unit) \<times> server" where
  "server_try E c s =
     (case server_call E c s of (r, s) \<Rightarrow>
        case throwIfError E False (ret r) SERVER_LOG_TAG (sio s) of (x, w) \<Rightarrow> (x, s\<lparr>sio := w\<rparr>))"

definition spawn :: "env \<Rightarrow> string \<Rightarrow> server \<Rightarrow> server" where
  "spawn E name s = (snd (server_call E (Spawn name) s))\<lparr>threads := threads s @ [name]\<rparr>"

section \<open>Binding\<close>

definition setupReuseAddr :: "env \<Rightarrow> server \<Rightarrow> (exn + unit) \<times> server" where
  "setupReuseAddr E s =
     (case server_call E (SetSockOpt (socketDescriptor (sock s)) SOL_SOCKET SO_REUSEADDR) s of (r, s) \<Rightarrow>
        let status = (if ret r = -1 then 1 else 0 :: int) in
        if status \<noteq> 0 then
          (case fmtThrowError E invalid_argument SERVER_LOG_TAG ''There was an error: {}'' [FStr (gai_strerror E status)] (sio s) of
             (e, w) \<Rightarrow> (Inl e, s\<lparr>sio := w\<rparr>))
        else (Inr (), s))"

text \<open>The calls that \<open>bindAndListen\<close> checks, up to the first that fails.\<close>

primrec server_tries :: "env \<Rightarrow> sys list \<Rightarrow> server \<Rightarrow> (exn + unit) \<times> server" where
  "server_tries E [] s = (Inr (), s)"
| "server_tries E (c # cs) s = (case server_try E c s of (Inl e, s) \<Rightarrow> (Inl e, s) | (Inr _, s) \<Rightarrow> server_tries E cs s)"

text \<open>
  Once the connection thread has been started, it is joined by the destructor only: a second start assigns to a thread that can
  be joined, which ends the process.
\<close>

definition bindAndListen :: "env \<Rightarrow> server \<Rightarrow> server outcome" where
  "bindAndListen E s =
     (if active (sock s) then
        (case fmtThrowError E runtime_error SERVER_LOG_TAG ''Already running server!'' [] (sio s) of (e, w) \<Rightarrow> Throw e (s\<lparr>sio := w\<rparr>))
      else
        let s = set_active True s; fd = socketDescriptor (sock s) in
        case server_tries E
            ([SetSockOpt fd SOL_SOCKET (or (or SO_REUSEADDR SO_REUSEPORT) SO_KEEPALIVE)]
             @ (if noDelay (sock s) then [SetSockOpt fd IPPROTO_TCP TCP_NODELAY] else [])
             @ [Bind fd (ai_addr (hd (servInfo (sock s))))]) s of
          (Inl e, s) \<Rightarrow> Throw e s
        | (Inr _, s) \<Rightarrow>
            let joinable = (''connectionListenLoop'' \<in> set (threads s)); s = spawn E ''connectionListenLoop'' s in
            if joinable then Terminate s
            else (case server_try E (Listen fd SOCKET_SERVER_BACKLOG) s of
               (Inl e, s) \<Rightarrow> Throw e s
             | (Inr _, s) \<Rightarrow>
                 Ret (((\<lambda>s. spawn E ''writeLoop'' (spawn E ''readLoop'' s)) ^^ unat (max (workerThreadCount s) 1)) s)))"

section \<open>Clients\<close>

definition erase_client :: "int \<Rightarrow> server \<Rightarrow> server" where
  "erase_client fd s = s\<lparr>clients := filter (\<lambda>(d, c). d \<noteq> fd) (clients s)\<rparr>"

text \<open>Run an operation of a channel that belongs to this server.\<close>

definition with_channel :: "channel \<Rightarrow> server \<Rightarrow> chan_state" where
  "with_channel c s = \<lparr>chan = c, sock_active = active (sock s), io = sio s\<rparr>"

definition after_channel :: "chan_state \<Rightarrow> server \<Rightarrow> server" where
  "after_channel cs s = set_active (sock_active cs) (s\<lparr>sio := io cs\<rparr>)"

definition put_channel :: "int \<Rightarrow> chan_state \<Rightarrow> server \<Rightarrow> server" where
  "put_channel fd cs s = (after_channel cs s)\<lparr>clients := map (\<lambda>(d, c). if d = fd then (d, chan cs) else (d, c)) (clients s)\<rparr>"

text \<open>
  \<open>onConnectedClient\<close>.  \<open>emplace\<close> keeps an entry that is there already, and the new channel is destroyed.
\<close>

definition onConnectedClient :: "env \<Rightarrow> int \<Rightarrow> server \<Rightarrow> server outcome option" where
  "onConnectedClient E fd s =
     (case Channel E (socket_id (sock s)) fd of
        Inl e \<Rightarrow> Some (Throw e s)
      | Inr c \<Rightarrow>
          map_option (\<lambda>s. Ret (if event_empty (connectCallback (sock s)) then s
                               else (snd (server_call E (Spawn ''connectCallback'') s))\<lparr>starting := (fd, generation s fd) # starting s\<rparr>))
            (case map_of (clients s) fd of
               None \<Rightarrow> Some (s\<lparr>clients := (fd, c) # clients s, generation := (generation s)(fd := generation s fd + 1)\<rparr>)
             | Some _ \<Rightarrow> map_option (\<lambda>cs. after_channel cs s) (destroy_Channel E (with_channel c s))))"

text \<open>
  A detached thread runs: it calls the listeners with the channel it has a pointer to, which must still be there; a new channel
  with the same descriptor is not the one the pointer refers to.
\<close>

definition run_connect :: "(int \<times> bool, server) behaviour \<Rightarrow> int \<times> nat \<Rightarrow> server \<Rightarrow> server outcome option" where
  "run_connect beh ptr s =
     (if ptr \<in> set (starting s) then
        (let s = s\<lparr>starting := remove1 ptr (starting s)\<rparr>; (fd, g) = ptr in
         if map_of (clients s) fd = None \<or> g \<noteq> generation s fd then None
         else Some (invoke beh (fd, True) (connectCallback (sock s)) s))
      else None)"

text \<open>\<open>ServerSocket::write\<close> by thread \<open>tid\<close>.\<close>

definition no_client :: "env \<Rightarrow> int \<Rightarrow> server \<Rightarrow> server outcome" where
  "no_client E fd s =
     (case fmtThrowError E runtime_error SERVER_LOG_TAG ''Client descriptor {} does not exist'' [FInt fd] (sio s) of
        (e, w) \<Rightarrow> Throw e (s\<lparr>sio := w\<rparr>))"

definition server_write :: "env \<Rightarrow> thread_id \<Rightarrow> exn option \<Rightarrow> int \<Rightarrow> byte list option \<Rightarrow> server \<Rightarrow> server outcome option" where
  "server_write E tid throws fd message s =
     (case map_of (clients s) fd of
        None \<Rightarrow> Some (no_client E fd s)
      | Some c \<Rightarrow>
          map_option (\<lambda>(x, cs). (case x of Inl e \<Rightarrow> Throw e | Inr _ \<Rightarrow> Ret) (put_channel fd cs s))
            (queueWrite E tid throws message (with_channel c s)))"

text \<open>
  \<open>closeClient\<close>: take the channel out of the map, under the mutex; then, without it, tell the listeners, close the descriptor,
  destroy the channel.
\<close>

definition finish_close :: "env \<Rightarrow> (int \<times> bool, server) behaviour \<Rightarrow> int \<Rightarrow> channel \<Rightarrow> server \<Rightarrow> server outcome option" where
  "finish_close E beh fd c s =
     (case (if event_empty (connectCallback (sock s)) then Ret s else invoke beh (fd, False) (connectCallback (sock s)) s) of
        Throw e s \<Rightarrow> Some (Throw e s)
      | Terminate s \<Rightarrow> Some (Terminate s)
      | Ret s \<Rightarrow>
          let s = snd (server_call E (Shutdown fd) s);
              s = snd (server_call E (Close fd) s);
              s = on_sio (fmtLog E DEBUG_LEVEL SERVER_LOG_TAG ''Fully finished clearing client data from server memory.'' []) s
          in map_option (\<lambda>cs. Ret (after_channel cs s)) (destroy_Channel E (with_channel c s)))"

definition closeClient :: "env \<Rightarrow> (int \<times> bool, server) behaviour \<Rightarrow> int \<Rightarrow> server \<Rightarrow> server outcome option" where
  "closeClient E beh fd s =
     (case map_of (clients s) fd of
        None \<Rightarrow> Some (no_client E fd s)
      | Some c \<Rightarrow> finish_close E beh fd c (erase_client fd s))"

definition getPeerName :: "env \<Rightarrow> int \<Rightarrow> server \<Rightarrow> (exn + nat) \<times> server" where
  "getPeerName E fd s =
     (case server_call E (GetPeerName fd) s of (r, s) \<Rightarrow>
        case throwIfError E False (ret r) SERVER_LOG_TAG (sio s) of
          (Inl e, w) \<Rightarrow> (Inl e, s\<lparr>sio := w\<rparr>)
        | (Inr _, w) \<Rightarrow> (Inr (address r), s\<lparr>sio := w\<rparr>))"

definition getPeerAddress :: "env \<Rightarrow> int \<Rightarrow> server \<Rightarrow> (exn + string \<times> string) \<times> server" where
  "getPeerAddress E fd s =
     (case getPeerName E fd s of
        (Inl e, s) \<Rightarrow> (Inl e, s)
      | (Inr addr, s) \<Rightarrow> (case getHostByAddress E addr (sio s) of (x, w) \<Rightarrow> (x, s\<lparr>sio := w\<rparr>)))"

section \<open>Loops\<close>

text \<open>Close every client of \<open>order\<close>, for the destructor; an entry that has gone meanwhile invalidates the iterator.\<close>

primrec close_all :: "env \<Rightarrow> (int \<times> bool, server) behaviour \<Rightarrow> int list \<Rightarrow> server \<Rightarrow> server outcome option" where
  "close_all E beh [] s = Some (Ret s)"
| "close_all E beh (fd # order) s =
     (case map_of (clients s) fd of None \<Rightarrow> None
      | Some _ \<Rightarrow> (case closeClient E beh fd s of Some (Ret s) \<Rightarrow> close_all E beh order s | r \<Rightarrow> r))"

text \<open>\<open>threadLoop\<close>, undisturbed: close every client whose channel has become inactive.\<close>

primrec threadLoop :: "env \<Rightarrow> (int \<times> bool, server) behaviour \<Rightarrow> int list \<Rightarrow> server \<Rightarrow> server outcome option" where
  "threadLoop E beh [] s = Some (Ret s)"
| "threadLoop E beh (fd # order) s =
     (case map_of (clients s) fd of
        None \<Rightarrow> None
      | Some c \<Rightarrow>
          if isActive (with_channel c s) then threadLoop E beh order s
          else (case closeClient E beh (clientDescriptor c) s of Some (Ret s) \<Rightarrow> threadLoop E beh order s | r \<Rightarrow> r))"

text \<open>What the connection loop does with what \<open>accept\<close> gave: \<open>Inl\<close> says whether the loop goes on, \<open>Inr\<close> is a new client.\<close>

definition after_accept :: "env \<Rightarrow> reply \<Rightarrow> server \<Rightarrow> (bool + int) \<times> server" where
  "after_accept E r s =
     (let e = errno (sio s) in
      if \<not> active (sock s) then (Inl False, s)
      else if ret r < 0 then
        if e = EWOULDBLOCK then (Inl True, snd (server_call E (Sleep 50000) s))
        else (Inl True, on_sio (logIfError E False ERROR (ret r) ''Failed to accept client'' SERVER_LOG_TAG) s)
      else (Inr (ret r), s))"

text \<open>One round of \<open>connectionListenLoop\<close>, undisturbed; the flag says whether the loop goes on.\<close>

definition connection_round :: "env \<Rightarrow> (int \<times> bool, server) behaviour \<Rightarrow> int list \<Rightarrow> server \<Rightarrow> (bool \<times> server outcome) option" where
  "connection_round E beh order s =
     (if \<not> active (sock s) then Some (False, Ret s)
      else case threadLoop E beh order s of
        None \<Rightarrow> None
      | Some (Throw e s) \<Rightarrow> Some (False, Throw e s)
      | Some (Terminate s) \<Rightarrow> Some (False, Terminate s)
      | Some (Ret s) \<Rightarrow>
          (case server_call E (Accept (socketDescriptor (sock s))) s of (r, s) \<Rightarrow>
             case after_accept E r s of
               (Inl goes_on, s) \<Rightarrow> Some (goes_on, Ret s)
             | (Inr fd, s) \<Rightarrow> map_option (Pair True) (onConnectedClient E fd s)))"

text \<open>One round over the channels for the two worker loops: \<open>f\<close> is \<open>readData\<close> or \<open>handleWriteQueue\<close>.\<close>

primrec channel_round ::
  "(chan_state \<Rightarrow> (bool \<times> chan_state) outcome option) \<Rightarrow> int list \<Rightarrow> bool \<Rightarrow> server \<Rightarrow> (bool \<times> server) outcome option" where
  "channel_round f [] found s = Some (Ret (found, s))"
| "channel_round f (fd # order) found s =
     (case map_of (clients s) fd of
        None \<Rightarrow> None
      | Some c \<Rightarrow>
          if \<not> isActive (with_channel c s) then channel_round f order found s
          else case f (with_channel c s) of
            None \<Rightarrow> None
          | Some (Ret (b, cs)) \<Rightarrow> channel_round f order (found \<or> b) (put_channel fd cs s)
          | Some (Throw e (b, cs)) \<Rightarrow> Some (Throw e (found, put_channel fd cs s))
          | Some (Terminate (b, cs)) \<Rightarrow> Some (Terminate (found, put_channel fd cs s)))"

text \<open>A round that found nothing to do sleeps.\<close>

definition rest_after :: "env \<Rightarrow> nat \<Rightarrow> (bool \<times> server) outcome \<Rightarrow> server outcome" where
  "rest_after E sleepTime r =
     (case r of
        Ret (found, s) \<Rightarrow> Ret (if found then s else snd (server_call E (Sleep sleepTime) s))
      | Throw e (_, s) \<Rightarrow> Throw e s
      | Terminate (_, s) \<Rightarrow> Terminate s)"

definition sleep_time :: "server \<Rightarrow> nat" where
  "sleep_time s = max (length (clients s) * 50) 500"

definition read_round :: "env \<Rightarrow> (unit, chan_state) behaviour \<Rightarrow> int list \<Rightarrow> server \<Rightarrow> server outcome option" where
  "read_round E listen order s =
     (if \<not> active (sock s) then Some (Ret s)
      else map_option (rest_after E (sleep_time s))
        (channel_round (\<lambda>cs. Some (readData E listen (listenCallback (sock s)) (unat (bufferSize (sock s))) cs)) order False s))"

definition write_round :: "env \<Rightarrow> int list \<Rightarrow> server \<Rightarrow> server outcome option" where
  "write_round E order s =
     (if \<not> active (sock s) then Some (Ret s)
      else map_option (rest_after E (sleep_time s))
        (channel_round (\<lambda>cs. map_option Ret (handleWriteQueue E cs)) order False s))"

section \<open>Destruction\<close>

text \<open>The destructor when no other thread touches the map of clients while it walks it.\<close>

definition destroy_ServerSocket :: "env \<Rightarrow> (int \<times> bool, server) behaviour \<Rightarrow> int list \<Rightarrow> server \<Rightarrow> server outcome option" where
  "destroy_ServerSocket E beh order s =
     (let s = on_sio (fmtLog E DEBUG_LEVEL SERVER_LOG_TAG ''Deleting server socket'' []) s;
          s = s\<lparr>sock := notifyStop (sock s)\<rparr> in
      case close_all E beh order s of
        Some (Ret s) \<Rightarrow>
          let s = fold (\<lambda>t s. snd (server_call E (Join t) s)) (threads s) s;
              s = (if socketDescriptor (sock s) \<noteq> -1 then
                     let fd = socketDescriptor (sock s);
                         (r, s) = server_call E (Shutdown fd) s;
                         s = on_sio (logIfError E False ERROR (ret r) ''Unable to queueShutdown'' SERVER_LOG_TAG) s;
                         (r, s) = server_call E (Close fd) s;
                         s = on_sio (logIfError E False ERROR (ret r) ''Unable to close'' SERVER_LOG_TAG) s
                     in s\<lparr>sock := (sock s)\<lparr>socketDescriptor := -1\<rparr>\<rparr>
                   else s);
              s = on_sio (fmtLog E DEBUG_LEVEL SERVER_LOG_TAG ''Finish deleting server socket'' []) s
          in Some (Ret (on_sio (destroy_Socket E (sock s)) s))
      | r \<Rightarrow> r)"

end
