(* ===== verification/SocketClient.thy ===== *)
theory SocketClient
  imports SocketBase
begin

text \<open>
  \<open>ClientSocket\<close> of \<open>ClientSocket.hpp\<close>/\<open>ClientSocket.cpp\<close>.  An operation gives \<open>None\<close> when it does not return or its
  behaviour is undefined.
\<close>

record client =
  csock :: socket
  cchannel :: "channel option"
  cio :: world

definition CLIENT_LOG_TAG :: string where
  "CLIENT_LOG_TAG = ''client''"

definition on_cio :: "(world \<Rightarrow> world) \<Rightarrow> client \<Rightarrow> client" where
  "on_cio f s = s\<lparr>cio := f (cio s)\<rparr>"

text \<open>A system call of the client: meanwhile another thread may call \<open>notifyStop\<close>.\<close>

definition client_call :: "env \<Rightarrow> sys \<Rightarrow> client \<Rightarrow> reply \<times> client" where
  "client_call E c s =
     (case sys_call E c (cio s) of (r, w) \<Rightarrow>
        (r, s\<lparr>cio := w, csock := (csock s)\<lparr>active := active (csock s) \<and> \<not> stops_socket r\<rparr>\<rparr>))"

definition ClientSocket :: "env \<Rightarrow> addrinfo list \<Rightarrow> nat \<Rightarrow> string \<Rightarrow> u32 \<Rightarrow> world \<Rightarrow> (exn + client) \<times> world" where
  "ClientSocket E garbage sid addr prt w =
     (case Socket E garbage sid (Some addr) prt w of
        (Inl e, w) \<Rightarrow> (Inl e, w)
      | (Inr s, w) \<Rightarrow>
          (case sys_call E (InetNtop (ai_family (hd (servInfo s))) (ai_addr (hd (servInfo s)))) w of (r, w) \<Rightarrow>
             let w = fmtLog E DEBUG_LEVEL CLIENT_LOG_TAG ''Connecting to {}'' [FStr (fst (names r))] w
             in (Inr \<lparr>csock = s, cchannel = None, cio = w\<rparr>, w)))"

text \<open>
  The loop of \<open>connect\<close>: try again while the call would block, give up on any other error.  \<open>None\<close> is a loop that has not
  ended after the given number of rounds.
\<close>

primrec connect_loop :: "nat \<Rightarrow> env \<Rightarrow> client \<Rightarrow> ((exn + unit) \<times> client) option" where
  "connect_loop 0 E s = None"
| "connect_loop (Suc rounds) E s =
     (let fd = socketDescriptor (csock s) in
      case client_call E (Connect fd (ai_addr (hd (servInfo (csock s))))) s of (r, s) \<Rightarrow>
        let e = errno (cio s) in
        if ret r = 0 then Some (Inr (), s)
        else if e = EWOULDBLOCK then connect_loop rounds E (snd (client_call E (Sleep 100) s))
        else
          let s = snd (client_call E (Close fd) s) in
          case fmtThrowError E runtime_error CLIENT_LOG_TAG ''Failed to connect'' [] (cio s) of (x, w) \<Rightarrow> Some (Inl x, s\<lparr>cio := w\<rparr>))"

text \<open>Destroy the channel there is; \<open>None\<close> when its destructor does not return.\<close>

definition reset_channel :: "env \<Rightarrow> client \<Rightarrow> client option" where
  "reset_channel E s =
     (case cchannel s of
        None \<Rightarrow> Some s
      | Some c \<Rightarrow>
          map_option (\<lambda>cs. s\<lparr>cchannel := None, cio := io cs, csock := (csock s)\<lparr>active := sock_active cs\<rparr>\<rparr>)
            (destroy_Channel E \<lparr>chan = c, sock_active = active (csock s), io = cio s\<rparr>))"

text \<open>
  \<open>connect\<close>, with the number of rounds its loop may take.  The new channel is made before it replaces the one of an earlier
  call, which is destroyed then.
\<close>

definition client_connect :: "nat \<Rightarrow> env \<Rightarrow> client \<Rightarrow> ((exn + unit) \<times> client) option" where
  "client_connect rounds E s =
     (case (if noDelay (csock s) then
              (case client_call E (SetSockOpt (socketDescriptor (csock s)) 6 1) s of (r, s) \<Rightarrow>
                 case throwIfError E False (ret r) CLIENT_LOG_TAG (cio s) of (x, w) \<Rightarrow> (x, s\<lparr>cio := w\<rparr>))
            else (Inr (), s)) of
        (Inl e, s) \<Rightarrow> Some (Inl e, s)
      | (Inr _, s) \<Rightarrow>
          (case connect_loop rounds E s of
             None \<Rightarrow> None
           | Some (Inl e, s) \<Rightarrow> Some (Inl e, s)
           | Some (Inr _, s) \<Rightarrow>
               let s = s\<lparr>csock := (csock s)\<lparr>active := True\<rparr>\<rparr> in
               (case Channel E (socket_id (csock s)) (socketDescriptor (csock s)) of
                  Inl e \<Rightarrow> Some (Inl e, s)
                | Inr c \<Rightarrow>
                    map_option (\<lambda>s.
                        let s = s\<lparr>cchannel := Some c\<rparr> in
                        (Inr (), if event_empty (connectCallback (csock s)) then s
                                 else snd (client_call E (Spawn ''connectCallback'') s)))
                      (reset_channel E s))))"

text \<open>\<open>write\<close> by thread \<open>tid\<close>, which dereferences the channel.\<close>

definition client_write :: "env \<Rightarrow> thread_id \<Rightarrow> exn option \<Rightarrow> byte list option \<Rightarrow> client \<Rightarrow> ((exn + unit) \<times> client) option" where
  "client_write E tid throws msg s =
     (case cchannel s of
        None \<Rightarrow> None
      | Some c \<Rightarrow>
          map_option (\<lambda>(x, cs). (x, s\<lparr>cchannel := Some (chan cs), cio := io cs, csock := (csock s)\<lparr>active := sock_active cs\<rparr>\<rparr>))
            (queueWrite E tid throws msg \<lparr>chan = c, sock_active = active (csock s), io = cio s\<rparr>))"

text \<open>\<open>close\<close>: the descriptor first; then the channel is dereferenced, whether there is one or not.\<close>

definition close_descriptor :: "env \<Rightarrow> client \<Rightarrow> client" where
  "close_descriptor E s =
     (if socketDescriptor (csock s) \<noteq> -1 then
        let fd = socketDescriptor (csock s);
            (r, s) = client_call E (Shutdown fd) s;
            s = (if ret r \<noteq> 0 then on_cio (fmtLog E ERROR CLIENT_LOG_TAG ''Unable to shut down client'' []) s else s);
            (r, s) = client_call E (Close fd) s;
            s = (if ret r \<noteq> 0 then on_cio (fmtLog E ERROR CLIENT_LOG_TAG ''Unable to close client'' []) s else s)
        in s\<lparr>csock := (csock s)\<lparr>socketDescriptor := -1\<rparr>\<rparr>
      else s)"

definition client_close :: "env \<Rightarrow> (bool, client) behaviour \<Rightarrow> client \<Rightarrow> client outcome option" where
  "client_close E beh s =
     (let s = close_descriptor E s in
      case cchannel s of
        None \<Rightarrow> None
      | Some _ \<Rightarrow>
          Some (case (if event_empty (connectCallback (csock s)) then Ret s else invoke beh False (connectCallback (csock s)) s) of
                  Ret s \<Rightarrow> Ret (on_cio (fmtLog E DEBUG_LEVEL CLIENT_LOG_TAG ''Closed client socket'' []) s)
                | r \<Rightarrow> r))"

text \<open>The destructor: \<open>close\<close>, then the channel and the base are destroyed.\<close>

definition destroy_ClientSocket :: "env \<Rightarrow> (bool, client) behaviour \<Rightarrow> client \<Rightarrow> client outcome option" where
  "destroy_ClientSocket E beh s =
     (case client_close E beh (on_cio (fmtLog E DEBUG_LEVEL CLIENT_LOG_TAG ''Deleting client socket'' []) s) of
        Some (Ret s) \<Rightarrow>
          map_option (\<lambda>s. Ret (on_cio (destroy_Socket E (csock s)) s))
            (reset_channel E (on_cio (fmtLog E DEBUG_LEVEL CLIENT_LOG_TAG ''Finish deleting client socket'' []) s))
      | r \<Rightarrow> r)"

text \<open>One round of \<open>readLoop\<close> and of \<open>writeLoop\<close>, which no code runs.\<close>

definition client_round :: "env \<Rightarrow> (chan_state \<Rightarrow> (bool \<times> chan_state) outcome option) \<Rightarrow> client \<Rightarrow> client outcome option" where
  "client_round E f s =
     (if \<not> active (csock s) then Some (Ret s)
      else case cchannel s of
        None \<Rightarrow> None
      | Some c \<Rightarrow>
          let back = (\<lambda>cs. s\<lparr>cchannel := Some (chan cs), cio := io cs, csock := (csock s)\<lparr>active := sock_active cs\<rparr>\<rparr>) in
          map_option (\<lambda>r. case r of
              Ret (found, cs) \<Rightarrow> Ret (if found then back cs else snd (client_call E (Sleep 500) (back cs)))
            | Throw e (_, cs) \<Rightarrow> Throw e (back cs)
            | Terminate (_, cs) \<Rightarrow> Terminate (back cs))
            (f \<lparr>chan = c, sock_active = active (csock s), io = cio s\<rparr>))"

definition client_read_round :: "env \<Rightarrow> (unit, chan_state) behaviour \<Rightarrow> client \<Rightarrow> client outcome option" where
  "client_read_round E listen s =
     client_round E (\<lambda>cs. Some (readData E listen (listenCallback (csock s)) (unat (bufferSize (csock s))) cs)) s"

definition client_write_round :: "env \<Rightarrow> client \<Rightarrow> client outcome option" where
  "client_write_round E s = client_round E (\<lambda>cs. map_option Ret (handleWriteQueue E cs)) s"

end
