(* ===== verification/SocketHandlers.thy ===== *)
theory SocketHandlers
  imports SocketServer SocketClient
begin

text \<open>
  \<open>SocketHandler\<close> of \<open>SocketHandler.hpp\<close>/\<open>SocketHandler.cpp\<close>: it owns the sockets, keyed by an id, and the thread that
  hands the log tasks to the listeners.  The constructors and destructors of the sockets are parameters of the
  operations here (\<open>mk\<close>, \<open>destroy\<close>), and so is the type of the sockets.
\<close>

record 's handler =
  handler_active :: bool
  nextId :: u32
  sockets :: "u32 \<rightharpoonup> 's"
  loggerThread :: bool
  loggerCallback :: "callback list"
  hio :: world

definition SocketHandler :: "world \<Rightarrow> 's handler" where
  "SocketHandler w =
     \<lparr>handler_active = True, nextId = 0, sockets = Map.empty, loggerThread = True, loggerCallback = [], hio = w\<rparr>"

definition validateActive :: "'s handler \<Rightarrow> (exn + unit)" where
  "validateActive h = (if handler_active h then Inr () else Inl (runtime_error ''Socket handler is no longer active!''))"

text \<open>
  \<open>sockets.emplace\<close>: an entry that is there is kept, and the new socket is destroyed; the result is the id of the socket
  the pointer returned refers to.
\<close>

definition emplace_socket :: "('s \<Rightarrow> world \<Rightarrow> world) \<Rightarrow> u32 \<Rightarrow> 's \<Rightarrow> 's handler \<Rightarrow> 's handler" where
  "emplace_socket destroy i s h =
     (if sockets h i = None then h\<lparr>sockets := (sockets h)(i \<mapsto> s)\<rparr> else h\<lparr>hio := destroy s (hio h)\<rparr>)"

type_synonym 's maker = "u32 \<Rightarrow> world \<Rightarrow> (exn + 's) \<times> world"

definition createServerSocket :: "('s \<Rightarrow> world \<Rightarrow> world) \<Rightarrow> 's maker \<Rightarrow> 's handler \<Rightarrow> (exn + u32) \<times> 's handler" where
  "createServerSocket destroy mk h =
     (case validateActive h of
        Inl e \<Rightarrow> (Inl e, h)
      | Inr _ \<Rightarrow>
          let i = nextId h; h = h\<lparr>nextId := i + 1\<rparr> in
          (case mk i (hio h) of
             (Inl e, w) \<Rightarrow> (Inl e, h\<lparr>hio := w\<rparr>)
           | (Inr s, w) \<Rightarrow> (Inr i, emplace_socket destroy i s (h\<lparr>hio := w\<rparr>))))"

definition createClientSocket :: "('s \<Rightarrow> world \<Rightarrow> world) \<Rightarrow> 's maker \<Rightarrow> 's handler \<Rightarrow> (exn + u32) \<times> 's handler" where
  "createClientSocket destroy mk h =
     (case validateActive h of
        Inl e \<Rightarrow> (Inl e, h)
      | Inr _ \<Rightarrow>
          let i = nextId h; h = h\<lparr>nextId := of_nat (card (dom (sockets h)))\<rparr> in
          (case mk i (hio h) of
             (Inl e, w) \<Rightarrow> (Inl e, h\<lparr>hio := w\<rparr>)
           | (Inr s, w) \<Rightarrow> (Inr i, emplace_socket destroy i s (h\<lparr>hio := w\<rparr>))))"

definition destroySocket :: "('s \<Rightarrow> world \<Rightarrow> world) \<Rightarrow> u32 \<Rightarrow> 's handler \<Rightarrow> 's handler" where
  "destroySocket destroy i h =
     (case sockets h i of
        None \<Rightarrow> h
      | Some s \<Rightarrow> h\<lparr>hio := destroy s (hio h), sockets := (sockets h)(i := None), nextId := i\<rparr>)"

text \<open>
  One round of \<open>handleLogThread\<close>: up to 20 tasks are taken from the log queue and handed to the listeners, with level, tag
  and text.
\<close>

primrec deliver :: "(LogTask, 's handler) behaviour \<Rightarrow> LogTask list \<Rightarrow> 's handler \<Rightarrow> 's handler outcome" where
  "deliver beh [] h = Ret h"
| "deliver beh (t # ts) h =
     (case invoke beh t (loggerCallback h) h of Ret h \<Rightarrow> deliver beh ts h | r \<Rightarrow> r)"

definition handleLogThread_round :: "env \<Rightarrow> (LogTask, 's handler) behaviour \<Rightarrow> 's handler \<Rightarrow> 's handler outcome" where
  "handleLogThread_round E beh h =
     (if \<not> handler_active h then Ret h
      else
        let tasks = take 20 (logs (hio h));
            h = h\<lparr>hio := (hio h)\<lparr>logs := drop 20 (logs (hio h))\<rparr>\<rparr> in
        if tasks = [] then Ret (h\<lparr>hio := do_call E (Sleep 10000) (hio h)\<rparr>) else deliver beh tasks h)"

text \<open>The destructor: the sockets are destroyed in the order the map has them.\<close>

definition destroy_SocketHandler :: "env \<Rightarrow> ('s \<Rightarrow> world \<Rightarrow> world) \<Rightarrow> u32 list \<Rightarrow> 's handler \<Rightarrow> 's handler" where
  "destroy_SocketHandler E destroy order h =
     h\<lparr>handler_active := False, loggerThread := False, sockets := Map.empty,
       hio := fold (\<lambda>i w. case sockets h i of None \<Rightarrow> w | Some s \<Rightarrow> destroy s w) order (hio h)\<rparr>"

end
