(* ===== verification/SocketChannelFlow.thy ===== *)
theory SocketChannelFlow
  imports SocketChannelSafety
begin

text \<open>
  The channel and its write queue together: what threads hand to \<open>queueWrite\<close> and what the kernel gets from
  \<open>handleWriteQueue\<close>.
\<close>

section \<open>The queue of a channel\<close>

lemma default_traits_ok: "traits_ok default_traits" "BLOCK_SIZE default_traits < 2 ^ 63"
  using pow2_exp [of 5] by (simp_all add: default_traits_def traits_ok_def)

text \<open>\<open>trace\<close> is what has gone into the write queue and out of it; no thread of the channel is running.\<close>

definition queue_ok :: "env \<Rightarrow> channel \<Rightarrow> byte list act list \<Rightarrow> bool" where
  "queue_ok E c trace \<longleftrightarrow>
     cq_run (malloc_ok E) default_traits (writeQueue c) Map.empty [0 \<mapsto> writeConsumeToken c] trace
     \<and> writeSema c = int (in_flight trace) \<and> writeThread c = None \<and> \<not> writeLock c"

lemma queue_ok_same: "same_queue s s' \<Longrightarrow> queue_ok E (chan s) trace \<Longrightarrow> queue_ok E (chan s') trace"
  by (simp add: same_queue_def queue_ok_def)

lemma queue_ok_inv:
  assumes "queue_ok E c trace" and "length trace < 2 ^ 63"
  obtains f where "cq_inv default_traits (writeQueue c) Map.empty [0 \<mapsto> writeConsumeToken c] trace f"
  using assms cq_run_inv [OF default_traits_ok] unfolding queue_ok_def by blast

lemma fifo_received_le:
  assumes "fifo trace f"
  shows "length (filter (Not \<circ> is_sent) trace) \<le> length (filter is_sent trace)"
proof -
  obtain ev where ev: "trace = map seen ev" "replay ev (\<lambda>_. []) = Some f" using assms by (auto simp: fifo_def)
  show ?thesis using replay_count [of "index ` set ev", OF _ ev(2)] ev(1) by simp
qed

lemma Channel_ok:
  assumes "Channel E sid fd = Inr c"
  shows "queue_ok E c []" "clientDescriptor c = fd" "channel_active c" "\<not> readLock c" "incomingQueue c = empty_queue"
proof -
  let ?q = "ConcurrentQueue (malloc_ok E) default_traits (6 * BLOCK_SIZE default_traits)"
  obtain tok q where t: "ConsumerToken (?q :: byte list cqueue) = (tok, q)" by (metis prod.exhaust)
  have "cq_run (malloc_ok E) default_traits q Map.empty [0 \<mapsto> tok] []" by (rule cq_history.consumer [OF cq_history.start t])
  then show "queue_ok E c []" using assms t by (auto simp: Channel_def queue_ok_def in_flight_def split: if_splits)
  show "clientDescriptor c = fd" "channel_active c" "\<not> readLock c" "incomingQueue c = empty_queue"
    using assms t by (auto simp: Channel_def split: if_splits)
qed

section \<open>Taking messages\<close>

lemma dequeue_messages_ok:
  assumes "queue_ok E c trace" and "length trace < 2 ^ 63"
  obtains xs c' where "dequeue_messages mx c = Some (map Some xs, c')" "length xs = min mx (in_flight trace)"
    "queue_ok E c' (trace @ map (Received \<circ> Some) xs)" "cq_hash (writeQueue c') = cq_hash (writeQueue c)"
    "clientDescriptor c' = clientDescriptor c" "channel_active c' = channel_active c"
proof -
  let ?q = "writeQueue c" and ?tok = "writeConsumeToken c"
  define n where "n = min mx (in_flight trace)"
  have n: "(if writeSema c > 0 then min mx (nat (writeSema c)) else 0) = n" using assms(1) by (auto simp: queue_ok_def n_def)
  have run: "cq_run (malloc_ok E) default_traits ?q Map.empty [0 \<mapsto> ?tok] trace" using assms(1) by (simp add: queue_ok_def)
  show thesis
  proof (cases "n = 0")
    case True
    then have "dequeue_messages mx c = Some ([], c\<lparr>writeQueue := ?q, writeConsumeToken := ?tok, writeSema := writeSema c - int 0\<rparr>)"
      using n by (simp add: dequeue_messages_def Let_def)
    moreover have "c\<lparr>writeQueue := ?q, writeConsumeToken := ?tok, writeSema := writeSema c - int 0\<rparr> = c" by simp
    ultimately show thesis using that [of "[]" c] assms(1) True by (simp add: n_def)
  next
    case False
    obtain f where inv: "cq_inv default_traits ?q Map.empty [0 \<mapsto> ?tok] trace f" by (rule queue_ok_inv [OF assms])
    have rep: "cq_rep default_traits ?q f" "token_ok ?q ?tok" "fifo trace f" using inv by (simp_all add: cq_inv_def)
    have tot: "total ?q f = in_flight trace" by (rule fifo_total(1) [OF rep(3,1)])
    obtain items tok' q' where d: "try_dequeue_bulk_token default_traits ?tok n ?q = Some (items, tok', q')"
      "takes_many default_traits n ?q f items q'"
      using try_dequeue_bulk_token_ok [OF rep(1) cq_inv_total [OF inv assms(2)] rep(2)] by blast
    obtain ps :: "(nat \<times> byte list) list" where "items = map (\<lambda>(i, x). Some x) ps" using d(2) unfolding takes_many_def by blast
    then have items: "items = map Some (map snd ps)" by (simp add: case_prod_beta o_def)
    have len: "length items = n" using d(2) tot by (simp add: takes_many_def n_def)
    have hash: "cq_hash q' = cq_hash ?q" using d(2) by (simp add: takes_many_def same_nodes_def)
    define c' where "c' = c\<lparr>writeQueue := q', writeConsumeToken := tok', writeSema := writeSema c - int n\<rparr>"
    have "take_permitted (Suc n) n ?tok ?q = Some (items, tok', q')"
      using d(1) len False by (cases n) auto
    then have "dequeue_messages mx c = Some (items, c')"
      unfolding dequeue_messages_def n by (simp add: Let_def c'_def)
    moreover have "cq_run (malloc_ok E) default_traits q' Map.empty [0 \<mapsto> tok'] (trace @ map Received items)"
      using cq_history.bulk_token [OF run _ d(1), of 0] by simp
    moreover have "in_flight (trace @ map Received items) = in_flight trace - n"
      using len by (simp add: in_flight_def o_def filter_empty_conv)
    ultimately show thesis using that [of "map snd ps" c'] assms(1) items len hash
      by (simp add: queue_ok_def c'_def n_def of_nat_diff o_def)
  qed
qed

section \<open>Flushing and queueing\<close>

text \<open>The bytes of the messages \<open>ms\<close> that got through when the kernel took the first \<open>ks\<close> bytes of each.\<close>

definition cut :: "nat list \<Rightarrow> byte list list \<Rightarrow> byte list" where
  "cut ks ms = concat (map2 take ks ms)"

lemma cut_Nil [simp]: "cut [] [] = []"
  by (simp add: cut_def)

lemma cut_Cons [simp]: "cut (k # ks) (m # ms) = take k m @ cut ks ms"
  by (simp add: cut_def)

lemma cut_append: "length ks = length ms \<Longrightarrow> cut (ks @ js) (ms @ ns) = cut ks ms @ cut js ns"
  by (simp add: cut_def)

lemma cut_zeros [simp]: "cut (replicate (length ms) 0) ms = []"
  by (induction ms) simp_all

lemma send_all_ok:
  assumes "send_ok E"
  shows "\<forall>m\<in>set ms. length m < 2 ^ 63 \<Longrightarrow> \<exists>x s' ks. send_all E (map Some ms) s = Some (x, s') \<and> length ks = length ms
    \<and> sent_from E (io s) (io s') (cut ks ms) \<and> same_queue s s'"
proof (induction ms arbitrary: s)
  case Nil
  then show ?case using sent_from_quiet [OF quiet_refl] by (intro exI [of _ "Inr ()"] exI [of _ s] exI [of _ "[]"]) simp
next
  case (Cons m ms)
  obtain x s1 k where 1: "sendBytes E m s = Some (x, s1)" "sent_from E (io s) (io s1) (take k m)"
    using sendBytes_ok [OF assms, of m s] Cons.prems by auto
  note same = sendBytes_same [OF 1(1)]
  show ?case
  proof (cases x)
    case (Inl e)
    then have "send_all E (map Some (m # ms)) s = Some (Inl e, s1)" using 1(1) by (simp add: sendMessage_def)
    then show ?thesis using 1(2) same
      by (intro exI [of _ "Inl e"] exI [of _ s1] exI [of _ "k # replicate (length ms) 0"]) simp
  next
    case (Inr u)
    obtain y s2 ks where 2: "send_all E (map Some ms) s1 = Some (y, s2)" "length ks = length ms"
      "sent_from E (io s1) (io s2) (cut ks ms)" "same_queue s1 s2"
      using Cons by (metis list.set_intros(2))
    have "send_all E (map Some (m # ms)) s = Some (y, s2)" using 1(1) 2(1) Inr by (simp add: sendMessage_def)
    then show ?thesis using 2(2) sent_from_trans [OF 1(2) 2(3)] same_queue_trans [OF same 2(4)]
      by (intro exI [of _ y] exI [of _ s2] exI [of _ "k # ks"]) simp
  qed
qed

section \<open>A kernel that takes everything\<close>

text \<open>Every \<open>send\<close> takes all bytes and nobody stops the channel or the socket.\<close>

definition whole :: "env \<Rightarrow> bool" where
  "whole E \<longleftrightarrow> (\<forall>h fd bs. ret (os E h (Send fd bs)) = int (length bs)) \<and> (\<forall>h c. \<not> stops_channel (os E h c) \<and> \<not> stops_socket (os E h c))"

lemma whole_send_ok: "whole E \<Longrightarrow> send_ok E"
  by (simp add: whole_def send_ok_def Let_def)

lemma sent_from_unique: "sent_from E w w' xs \<Longrightarrow> sent_from E w w' ys \<Longrightarrow> xs = ys"
  by (auto simp: sent_from_def)

lemma sendBytes_whole:
  assumes "whole E" and "length bs < 2 ^ 63" and "isActive s"
  obtains s' where "sendBytes E bs s = Some (Inr (), s')" "sent_from E (io s) (io s') bs" "isActive s'"
proof (cases "bs = []")
  case True
  then have "sendBytes E bs s = Some (Inr (), s)" using assms(3) by (simp add: sendBytes_def isActive_def)
  then show thesis using that [of s] sent_from_quiet [OF quiet_refl] assms(3) True by simp
next
  case False
  obtain r s1 where c: "chan_call E (Send (clientDescriptor (chan s)) bs) s = (r, s1)" by (metis prod.exhaust)
  have r: "ret r = int (length bs)" "\<not> stops_channel r" "\<not> stops_socket r"
    using chan_call_io [OF c] assms(1) by (simp_all add: whole_def)
  have "isActive s1" using c r assms(3) by (auto simp: chan_call_def isActive_def sys_call_def Let_def)
  moreover have "(0 :: size_t) < of_nat (length bs)" using of_nat_less_size [of 0 "length bs"] assms(2) False by simp
  then have "sendBytes E bs s = Some (Inr (), s1)"
    using c r assms(3) False by (cases "length bs") (simp_all add: sendBytes_def isActive_def Let_def)
  ultimately show thesis using that [of s1] sent_from_call [OF c] r by simp
qed

lemma send_all_whole:
  assumes "whole E"
  shows "\<forall>m\<in>set ms. length m < 2 ^ 63 \<Longrightarrow> isActive s \<Longrightarrow>
    \<exists>s'. send_all E (map Some ms) s = Some (Inr (), s') \<and> sent_from E (io s) (io s') (concat ms) \<and> isActive s'"
proof (induction ms arbitrary: s)
  case Nil
  then show ?case using sent_from_quiet [OF quiet_refl] by simp
next
  case (Cons m ms)
  obtain s1 where 1: "sendBytes E m s = Some (Inr (), s1)" "sent_from E (io s) (io s1) m" "isActive s1"
    using sendBytes_whole [OF assms _ Cons.prems(2), of m] Cons.prems(1) by auto
  obtain s2 where 2: "send_all E (map Some ms) s1 = Some (Inr (), s2)" "sent_from E (io s1) (io s2) (concat ms)" "isActive s2"
    using Cons.IH [OF _ 1(3)] Cons.prems(1) by auto
  show ?case using 1(1) 2 sent_from_trans [OF 1(2) 2(2)] by (simp add: sendMessage_def)
qed

lemma crashed_ok [simp]: "same_queue s (crashed E m e s') = same_queue s s'"
  by (simp add: crashed_def)

lemma crashed_quiet: "quiet (io s) (io (crashed E m e s))"
  unfolding crashed_def by (rule quiet_trans [OF _ shutdown_quiet]) (simp add: on_io_def)

lemma replay_received_sent:
  "replay ev f = Some g \<Longrightarrow> Got i x \<in> set ev \<Longrightarrow> x \<in> set (f i) \<or> Put i x \<in> set ev"
proof (induction ev arbitrary: f)
  case (Cons e ev)
  show ?case
  proof (cases e)
    case (Put j y)
    have "x \<in> set ((f(j := f j @ [y])) i) \<or> Put i x \<in> set ev" by (rule Cons.IH [of "f(j := f j @ [y])"]) (use Cons.prems Put in \<open>simp_all add: fun_upd_def\<close>)
    then show ?thesis using Put by (cases "i = j") auto
  next
    case (Got j y)
    then obtain ys where "f j = y # ys" "replay ev (f(j := ys)) = Some g" using Cons.prems(1) replay_Got by metis
    then have "x \<in> set ((f(j := ys)) i) \<or> Put i x \<in> set ev \<or> i = j \<and> x = y"
      using Cons.IH [OF \<open>replay ev (f(j := ys)) = Some g\<close>] Cons.prems(2) Got by auto
    then show ?thesis using \<open>f j = y # ys\<close> by (cases "i = j") auto
  qed
qed simp

lemma fifo_received_sent:
  assumes "fifo trace f" and "Received v \<in> set trace"
  obtains i x where "v = Some x" "Sent i x \<in> set trace"
proof -
  obtain ev where ev: "trace = map seen ev" "replay ev (\<lambda>_. []) = Some f" using assms(1) by (auto simp: fifo_def)
  then obtain e where e: "e \<in> set ev" "Received v = seen e" using assms(2) by auto
  have "\<exists>i x. e = Got i x" using e(2) by (cases e rule: event.exhaust) simp_all
  then obtain i x where g: "e = Got i x" by blast
  then have "Put i x \<in> set ev" "v = Some x" using replay_received_sent [OF ev(2), of i x] e by auto
  then show thesis using that ev(1) by force
qed

text \<open>
  \<open>handleWriteQueue\<close> always returns: it takes up to ten messages when the channel is active and hands each to the kernel,
  which gets a prefix of it.
\<close>

lemma handleWriteQueue_ok:
  assumes "send_ok E" and "queue_ok E (chan s) trace" and "length trace + 10 < 2 ^ 63"
    and "\<And>i x. Sent i x \<in> set trace \<Longrightarrow> length x < 2 ^ 63"
  obtains b s' ms ks where "handleWriteQueue E s = Some (b, s')" "length ks = length ms"
    "sent_from E (io s) (io s') (cut ks ms)" "queue_ok E (chan s') (trace @ map (Received \<circ> Some) ms)"
    "cq_hash (writeQueue (chan s')) = cq_hash (writeQueue (chan s))"
    "length ms = (if channel_active (chan s) then min 10 (in_flight trace) else 0)"
    "whole E \<Longrightarrow> isActive s \<Longrightarrow> isActive s' \<and> cut ks ms = concat ms"
proof (cases "channel_active (chan s) \<and> in_flight trace > 0")
  case False
  then have "handleWriteQueue E s = Some (False, s)" using assms(2) by (auto simp: handleWriteQueue_def queue_ok_def)
  then show thesis using that [of False s "[]" "[]"] False assms(2) sent_from_quiet [OF quiet_refl] by auto
next
  case True
  have len: "length trace < 2 ^ 63" using assms(3) by simp
  obtain ms c where d: "dequeue_messages 10 (chan s) = Some (map Some ms, c)" "length ms = min 10 (in_flight trace)"
    "queue_ok E c (trace @ map (Received \<circ> Some) ms)" "cq_hash (writeQueue c) = cq_hash (writeQueue (chan s))"
    "channel_active c = channel_active (chan s)"
    by (rule dequeue_messages_ok [OF assms(2) len])
  let ?s = "s\<lparr>chan := c\<rparr>"
  have "length (trace @ map (Received \<circ> Some) ms) < 2 ^ 63" using assms(3) d(2) by simp
  then obtain f where "fifo (trace @ map (Received \<circ> Some) ms) f" using queue_ok_inv [OF d(3)] unfolding cq_inv_def by metis
  then have "\<exists>i. Sent i m \<in> set trace" if m: "m \<in> set ms" for m
  proof -
    have "Received (Some m) \<in> set (trace @ map (Received \<circ> Some) ms)" using m by simp
    then obtain i x where "Some m = Some x" "Sent i x \<in> set (trace @ map (Received \<circ> Some) ms)"
      by (rule fifo_received_sent [OF \<open>fifo _ f\<close>])
    then show ?thesis by auto
  qed
  then have small: "\<forall>m\<in>set ms. length m < 2 ^ 63" using assms(4) by blast
  obtain x s1 ks where a: "send_all E (map Some ms) ?s = Some (x, s1)" "length ks = length ms"
    "sent_from E (io ?s) (io s1) (cut ks ms)" "same_queue ?s s1"
    using send_all_ok [OF assms(1) small] by blast
  have ne: "ms \<noteq> []" using d(2) True by auto
  have pre: "writeSema (chan s) > 0" "\<not> writeLock (chan s)" using assms(2) True by (simp_all add: queue_ok_def)
  define s' where "s' = (case x of Inl e \<Rightarrow> crashed E ''Closing socket because it has crashed fatally while writing: {}'' e s1 | Inr _ \<Rightarrow> s1)"
  have h: "\<exists>b. handleWriteQueue E s = Some (b, s')"
    using True pre d(1) a(1) ne by (cases x) (auto simp: handleWriteQueue_def s'_def Let_def)
  have s1: "same_queue ?s s'" "quiet (io s1) (io s')" using a(4) crashed_quiet by (auto simp: s'_def split: sum.split)
  have "sent_from E (io s) (io s') (cut ks ms)" using sent_from_trans [OF a(3) sent_from_quiet [OF s1(2)]] by simp
  moreover have "queue_ok E (chan s') (trace @ map (Received \<circ> Some) ms)" using queue_ok_same [OF s1(1)] d(3) by simp
  moreover have "cq_hash (writeQueue (chan s')) = cq_hash (writeQueue (chan s))" using s1(1) d(4) by (simp add: same_queue_def)
  moreover have "isActive s' \<and> cut ks ms = concat ms" if w: "whole E" "isActive s"
  proof -
    have "isActive ?s" using w(2) d(5) by (simp add: isActive_def)
    then obtain s2 where "send_all E (map Some ms) ?s = Some (Inr (), s2)" "sent_from E (io ?s) (io s2) (concat ms)" "isActive s2"
      using send_all_whole [OF w(1) small] by blast
    then show ?thesis using a(1,3) sent_from_unique by (auto simp: s'_def)
  qed
  ultimately show thesis using that h a(2) d(2) True by metis
qed

text \<open>\<open>queueWrite\<close> returns, sends nothing, and puts at most the message into the queue, for the producer of the thread.\<close>

definition producer :: "chan_state \<Rightarrow> thread_id \<Rightarrow> nat" where
  "producer s tid = the (the (producer_of (writeQueue (chan s)) tid))"

lemma queueWrite_ok:
  assumes "queue_ok E (chan s) trace" and "length trace < 2 ^ 63" and "live tid"
  obtains x s' new where "queueWrite E tid th msg s = Some (x, s')" "io s' = io s"
    "queue_ok E (chan s') (trace @ map (Sent (producer s' tid)) new)"
    "new = [] \<or> new = [the msg] \<and> msg \<noteq> None \<and> channel_active (chan s) \<and> (\<exists>i. producer_of (writeQueue (chan s')) tid = Some (Some i))"
    "\<And>k. live k \<Longrightarrow> producer_of (writeQueue (chan s)) k \<noteq> None \<Longrightarrow> producer_of (writeQueue (chan s')) k = producer_of (writeQueue (chan s)) k"
    "writeSema (chan s') = writeSema (chan s) + int (length new)"
proof (cases "\<not> channel_active (chan s) \<or> msg = None \<or> msg = Some []")
  case True
  then have "queueWrite E tid th msg s = Some (Inr (), s)" by (auto simp: queueWrite_def)
  then show thesis using that [of "Inr ()" s "[]"] assms(1) by simp
next
  case False
  obtain f where inv: "cq_inv default_traits (writeQueue (chan s)) Map.empty [0 \<mapsto> writeConsumeToken (chan s)] trace f"
    by (rule queue_ok_inv [OF assms(1,2)])
  obtain r q g where e: "enqueue (malloc_ok E) default_traits CanAlloc th tid (the msg) (writeQueue (chan s)) = Some (r, q)"
    "cq_inv default_traits q Map.empty [0 \<mapsto> writeConsumeToken (chan s)]
       (if r = Inr True then trace @ [Sent (the (the (producer_of q tid))) (the msg)] else trace) g"
    "\<And>k. live k \<Longrightarrow> producer_of (writeQueue (chan s)) k \<noteq> None \<Longrightarrow> producer_of q k = producer_of (writeQueue (chan s)) k"
    "r = Inr True \<Longrightarrow> \<exists>i. producer_of q tid = Some (Some i)"
    by (rule enqueue_inv [OF inv assms(3), where mo = "malloc_ok E" and m = CanAlloc and th = th and x = "the msg"]) blast
  define s' where "s' = s\<lparr>chan := (chan s)\<lparr>writeQueue := q, writeSema := (if r = Inr True then writeSema (chan s) + 1 else writeSema (chan s))\<rparr>\<rparr>"
  define new where "new = (if r = Inr True then [the msg] else [])"
  have w: "queueWrite E tid th msg s = Some (case r of Inl e \<Rightarrow> Inl e | Inr _ \<Rightarrow> Inr (), s')"
    using False e(1) assms(1) by (auto simp: queueWrite_def queue_ok_def s'_def)
  have "cq_run (malloc_ok E) default_traits (writeQueue (chan s)) Map.empty [0 \<mapsto> writeConsumeToken (chan s)] trace"
    using assms(1) by (simp add: queue_ok_def)
  from cq_history.enqueue [OF this assms(3) e(1)]
  have run: "cq_run (malloc_ok E) default_traits q Map.empty [0 \<mapsto> writeConsumeToken (chan s)] (trace @ map (Sent (producer s' tid)) new)"
    by (simp add: producer_def s'_def new_def split: if_splits)
  have "fifo trace f" using inv by (simp add: cq_inv_def)
  from fifo_received_le [OF this]
  have "in_flight (trace @ map (Sent (producer s' tid)) new) = in_flight trace + length new"
    by (simp add: in_flight_def new_def)
  then have ok: "queue_ok E (chan s') (trace @ map (Sent (producer s' tid)) new)"
    using assms(1) run by (simp add: queue_ok_def s'_def new_def)
  show thesis
    by (rule that [OF w _ ok]) (use e(3,4) False in \<open>auto simp: s'_def new_def\<close>)
qed

section \<open>Messages and threads\<close>

definition sents :: "'a act list \<Rightarrow> (nat \<times> 'a) list" where
  "sents trace = concat (map (\<lambda>a. case a of Sent i x \<Rightarrow> [(i, x)] | Received v \<Rightarrow> []) trace)"

definition recs :: "'a act list \<Rightarrow> 'a list" where
  "recs trace = concat (map (\<lambda>a. case a of Sent i x \<Rightarrow> [] | Received v \<Rightarrow> [the v]) trace)"

text \<open>The messages of thread \<open>t\<close> among messages marked with their thread.\<close>

definition from_thread :: "'t \<Rightarrow> ('t \<times> 'a) list \<Rightarrow> 'a list" where
  "from_thread t ms = map snd (filter (\<lambda>(u, x). u = t) ms)"

lemma from_thread_simps [simp]:
  "from_thread t [] = []" "from_thread t ((u, x) # ms) = (if u = t then x # from_thread t ms else from_thread t ms)"
  "from_thread t (ms @ ns) = from_thread t ms @ from_thread t ns"
  by (simp_all add: from_thread_def)

lemma from_thread_none: "t \<notin> fst ` set ms \<Longrightarrow> from_thread t ms = []"
  by (induction ms) auto

lemma from_thread_map: "(\<And>u x. (u, x) \<in> set ms \<Longrightarrow> h u = t' \<longleftrightarrow> u = t) \<Longrightarrow> from_thread t' (map (\<lambda>(u, x). (h u, x)) ms) = from_thread t ms"
proof (induction ms)
  case (Cons m ms)
  obtain u x where m: "m = (u, x)" by (metis prod.exhaust)
  have "from_thread t' (map (\<lambda>(u, x). (h u, x)) ms) = from_thread t ms" by (rule Cons.IH) (use Cons.prems in auto)
  moreover have "h u = t' \<longleftrightarrow> u = t" by (rule Cons.prems [of u x]) (simp add: m)
  ultimately show ?case by (simp add: m)
qed simp

lemma sents_simps [simp]:
  "sents [] = []" "sents (Sent i x # trace) = (i, x) # sents trace" "sents (Received v # trace) = sents trace"
  "sents (trace @ trace') = sents trace @ sents trace'"
  "recs [] = []" "recs (Sent i x # trace) = recs trace" "recs (Received v # trace) = the v # recs trace"
  "recs (trace @ trace') = recs trace @ recs trace'"
  by (simp_all add: sents_def recs_def)

lemma sents_maps [simp]:
  "sents (map (Sent i) xs) = map (Pair i) xs" "recs (map (Sent i) xs) = []"
  "sents (map (Received \<circ> Some) xs) = []" "recs (map (Received \<circ> Some) xs) = xs"
  by (induction xs) simp_all

lemma sents_set: "(i, x) \<in> set (sents trace) \<longleftrightarrow> Sent i x \<in> set trace"
  by (induction trace) (auto simp: sents_def split: act.splits)

lemma sents_length: "length (sents trace) = length (filter is_sent trace)" "length (recs trace) = length (filter (Not \<circ> is_sent) trace)"
  by (induction trace) (auto simp: sents_def recs_def split: act.splits)

primrec got_pair :: "'a event \<Rightarrow> (nat \<times> 'a) list" where
  "got_pair (Put i x) = []"
| "got_pair (Got i x) = [(i, x)]"

lemma put_from: "concat (map (put i) ev) = from_thread i (sents (map seen ev))"
proof (induction ev)
  case (Cons e ev)
  then show ?case by (cases e) simp_all
qed simp

lemma got_from: "concat (map (got i) ev) = from_thread i (concat (map got_pair ev))"
proof (induction ev)
  case (Cons e ev)
  then show ?case by (cases e) simp_all
qed simp

lemma got_recs: "map snd (concat (map got_pair ev)) = recs (map seen ev)"
proof (induction ev)
  case (Cons e ev)
  then show ?case by (cases e) simp_all
qed simp

text \<open>
  When every message accepted was put for the producer of its thread and no two threads have the same, the messages handed
  out are those of each thread, oldest first.
\<close>

lemma threads_fifo:
  fixes trace :: "'a act list"
  assumes "fifo trace f" and "sents trace = map (\<lambda>(t, x). (p t, x)) acc" and "inj_on p (fst ` set acc)"
  obtains tms where "map snd tms = recs trace" "\<And>t. t \<in> fst ` set acc \<Longrightarrow> from_thread t acc = from_thread t tms @ f (p t)"
    "fst ` set tms \<subseteq> fst ` set acc"
proof -
  let ?A = "fst ` set acc"
  obtain ev where ev: "trace = map seen ev" "replay ev (\<lambda>_. []) = Some f" using assms(1) by (auto simp: fifo_def)
  let ?gots = "concat (map got_pair ev)"
  define tms where "tms = map (\<lambda>(i, x). (inv_into ?A p i, x)) ?gots"
  have owner: "i \<in> p ` ?A" if "(i, x) \<in> set ?gots" for i x
  proof -
    obtain e where "e \<in> set ev" "(i, x) \<in> set (got_pair e)" using \<open>(i, x) \<in> set ?gots\<close> by auto
    then have "Got i x \<in> set ev" by (cases e rule: event.exhaust) auto
    then have "Put i x \<in> set ev" using replay_received_sent [OF ev(2)] by auto
    then have "(i, x) \<in> set (sents trace)" using ev(1) by (force simp: sents_set)
    then show ?thesis using assms(2) by force
  qed
  have "from_thread t acc = from_thread t tms @ f (p t)" if t: "t \<in> ?A" for t
  proof -
    have "inv_into ?A p i = t \<longleftrightarrow> i = p t" if g: "(i, x) \<in> set ?gots" for i x
    proof -
      obtain u where "i = p u" "u \<in> ?A" using owner [OF g] by blast
      then show ?thesis using t inv_into_f_f [OF assms(3)] by metis
    qed
    then have "from_thread t tms = concat (map (got (p t)) ev)" unfolding tms_def got_from by (rule from_thread_map)
    moreover have "from_thread (p t) (map (\<lambda>(t, x). (p t, x)) acc) = from_thread t acc"
      using assms(3) t by (intro from_thread_map) (force dest: inj_onD)
    then have "from_thread t acc = concat (map (put (p t)) ev)" using assms(2) ev(1) put_from by metis
    ultimately show ?thesis using replay_fifo [OF ev(2), of "p t"] by simp
  qed
  moreover have "map snd tms = recs trace" using got_recs [of ev] ev(1) by (simp add: tms_def case_prod_beta o_def)
  moreover have "fst ` set tms \<subseteq> ?A" using owner unfolding tms_def by (force intro: inv_into_into)
  ultimately show thesis using that by blast
qed

section \<open>Runs of a channel\<close>

text \<open>
  What the threads of a program do with a channel: write a message, flush the write queue, read into a buffer and hand what came to
  the listeners there are, ask for the shutdown.  A listener that throws ends the process (\<open>invokeError_handler_dead\<close>): \<open>readData\<close> does not return.
\<close>

datatype chan_op =
    Write thread_id "exn option" "byte list option" | Flush | ReadIn "(unit, chan_state) behaviour" "callback list" nat | Stop

fun chan_step :: "env \<Rightarrow> chan_op \<Rightarrow> chan_state \<Rightarrow> chan_state option" where
  "chan_step E (Write tid th msg) s = map_option snd (queueWrite E tid th msg s)"
| "chan_step E Flush s = map_option snd (handleWriteQueue E s)"
| "chan_step E (ReadIn beh ls n) s = (case readData E beh ls n s of Ret (b, s) \<Rightarrow> Some s | _ \<Rightarrow> None)"
| "chan_step E Stop s = Some (queueShutdown E s)"

primrec chan_exec :: "env \<Rightarrow> chan_op list \<Rightarrow> chan_state \<Rightarrow> chan_state option" where
  "chan_exec E [] s = Some s"
| "chan_exec E (x # xs) s = (case chan_step E x s of None \<Rightarrow> None | Some s \<Rightarrow> chan_exec E xs s)"

primrec written :: "chan_op list \<Rightarrow> (thread_id \<times> byte list) list" where
  "written [] = []"
| "written (x # xs) = (case x of Write tid th (Some m) \<Rightarrow> [(tid, m)] | _ \<Rightarrow> []) @ written xs"

text \<open>
  The threads are threads of the program and the messages fit into memory; the listeners of a read return and touch neither
  the write queue nor \<open>send\<close> themselves: what a listener writes is a \<open>Write\<close> of its own.
\<close>

definition listener_ok :: "(unit, chan_state) behaviour \<Rightarrow> bool" where
  "listener_ok beh \<longleftrightarrow> (\<forall>f s. \<exists>s'. beh f () s = Ret s' \<and> same_queue s s' \<and> quiet (io s) (io s'))"

definition op_ok :: "chan_op \<Rightarrow> bool" where
  "op_ok x = (case x of Write tid th m \<Rightarrow> live tid \<and> length (the m) < 2 ^ 63 | ReadIn beh ls n \<Rightarrow> listener_ok beh | _ \<Rightarrow> True)"

lemma quiet_invokeError:
  "listener_ok beh \<Longrightarrow> \<exists>s'. invokeError beh h () ls s = Ret s' \<and> same_queue s s' \<and> quiet (io s) (io s')"
proof (induction ls arbitrary: s)
  case (Cons f ls)
  obtain s1 where 1: "beh f () s = Ret s1" "same_queue s s1" "quiet (io s) (io s1)" using Cons.prems by (auto simp: listener_ok_def)
  obtain s2 where "invokeError beh h () ls s1 = Ret s2" "same_queue s1 s2" "quiet (io s1) (io s2)" using Cons by blast
  then show ?case using 1 same_queue_trans quiet_trans by (auto simp: call_def)
qed simp

text \<open>\<open>acc\<close> are the messages accepted, with their threads; what has been handed out has been cut as \<open>ks\<close> says.\<close>

definition chan_inv :: "env \<Rightarrow> world \<Rightarrow> chan_state \<Rightarrow> byte list act list \<Rightarrow> (thread_id \<times> byte list) list \<Rightarrow> nat list \<Rightarrow> bool" where
  "chan_inv E w s trace acc ks \<longleftrightarrow>
     queue_ok E (chan s) trace \<and> sents trace = map (\<lambda>(t, x). (producer s t, x)) acc
     \<and> (\<forall>(t, x)\<in>set acc. live t \<and> length x < 2 ^ 63 \<and> (\<exists>i. producer_of (writeQueue (chan s)) t = Some (Some i)))
     \<and> length ks = length (recs trace) \<and> sent_from E w (io s) (cut ks (recs trace))"

lemma readData_cases [consumes 2, case_names same received stop queued error]:
  assumes "readData E beh ls n s = Ret (b, s')" and "chan_call E (Recv (clientDescriptor (chan s)) n) s = (r, s1)"
  obtains (same) "s' = s" | (received) "s' = s1" | (stop) "s' = queueShutdown E s1"
    | (queued) q s2 where "s2 = s1\<lparr>chan := (chan s1)\<lparr>incomingQueue := q\<rparr>\<rparr>"
        "event_empty ls \<and> s' = s2 \<or> invokeError beh (listener_failed E) () ls s2 = Ret s'
         \<or> (\<exists>x s3 m. invokeError beh (listener_failed E) () ls s2 = Throw x s3 \<and> s' = crashed E m x s3)"
    | (error) e x w m x' where "throwIfError E True e CHANNEL_LOG_TAG (io (queueShutdown E s1)) = (x, w)"
        "s' = (queueShutdown E s1)\<lparr>io := w\<rparr> \<or> s' = crashed E m x' ((queueShutdown E s1)\<lparr>io := w\<rparr>)"
proof (cases "\<not> channel_active (chan s) \<or> readLock (chan s)")
  case True
  then have "s' = s" using assms(1) by (cases "channel_active (chan s)") (simp_all add: readData_def)
  then show thesis by (rule same)
next
  case False
  note go = this assms(2)
  consider "\<not> isActive s1 \<or> ret r < 0 \<and> errno (io s1) = EWOULDBLOCK" | "isActive s1" "ret r = 0 \<or> ret r < 0 \<and> errno (io s1) = ECONNRESET"
    | "isActive s1" "ret r > 0"
    | "isActive s1" "ret r < 0" "errno (io s1) \<noteq> ECONNRESET" "errno (io s1) \<noteq> EWOULDBLOCK"
    by linarith
  then show thesis
  proof cases
    case 1
    then have "s' = s1" using assms(1) go by (cases "isActive s1") (auto simp: readData_def Let_def ECONNRESET_def EWOULDBLOCK_def)
    then show thesis by (rule received)
  next
    case 2
    then have "s' = queueShutdown E s1" using assms(1) go by (auto simp: readData_def Let_def)
    then show thesis by (rule stop)
  next
    case 3
    let ?s = "s1\<lparr>chan := (chan s1)\<lparr>incomingQueue := enqueueMove (take (nat (ret r)) (received r)) (incomingQueue (chan s1))\<rparr>\<rparr>"
    have "event_empty ls \<and> s' = ?s \<or> invokeError beh (listener_failed E) () ls ?s = Ret s'
      \<or> (\<exists>x s3 m. invokeError beh (listener_failed E) () ls ?s = Throw x s3 \<and> s' = crashed E m x s3)"
      using assms(1) go 3 by (cases "invokeError beh (listener_failed E) () ls ?s"; cases "event_empty ls") (auto simp: readData_def Let_def)
    then show thesis by (rule queued [OF refl])
  next
    case 4
    obtain x w where t: "throwIfError E True (errno (io s1)) CHANNEL_LOG_TAG (io (queueShutdown E s1)) = (x, w)" by (metis prod.exhaust)
    then have "s' = (queueShutdown E s1)\<lparr>io := w\<rparr> \<or> (\<exists>m x'. s' = crashed E m x' ((queueShutdown E s1)\<lparr>io := w\<rparr>))"
      using assms(1) go 4 by (cases x) (auto simp: readData_def Let_def)
    then show thesis using error [OF t] by blast
  qed
qed

lemma readData_quiet:
  assumes "readData E beh ls n s = Ret (b, s')" and "listener_ok beh"
  shows "same_queue s s'" and "quiet (io s) (io s')"
proof -
  obtain r s1 where c: "chan_call E (Recv (clientDescriptor (chan s)) n) s = (r, s1)" by (metis prod.exhaust)
  have 1: "same_queue s s1" by (rule same_queue_call [OF c])
  have 2: "quiet (io s) (io s1)" using chan_call_io [OF c] by (simp add: only_def is_send_def)
  note stop = quiet_trans [OF 2 shutdown_quiet]
  have "same_queue s s' \<and> quiet (io s) (io s')"
    using assms(1) c
  proof (cases rule: readData_cases)
    case (queued q s2)
    obtain s3 where 3: "invokeError beh (listener_failed E) () ls s2 = Ret s3" "same_queue s2 s3" "quiet (io s2) (io s3)"
      using quiet_invokeError [OF assms(2)] by blast
    have "s' = s2 \<or> s' = s3" using queued(2) 3(1) by auto
    moreover have "same_queue s s2" "quiet (io s) (io s2)" using queued(1) 1 2 by (simp_all add: same_queue_def)
    ultimately show ?thesis using same_queue_trans quiet_trans 3(2,3) by metis
  next
    case (error e x w m x')
    then have "quiet (io s) w" using quiet_trans [OF stop throw_quiet] by blast
    then show ?thesis using error(2) 1 quiet_trans [OF _ crashed_quiet, of "io s" "(queueShutdown E s1)\<lparr>io := w\<rparr>"] by auto
  qed (use 1 2 stop in simp_all)
  then show "same_queue s s'" "quiet (io s) (io s')" by simp_all
qed

lemma readData_returns:
  assumes "listener_ok beh"
  shows "\<exists>b s'. readData E beh ls n s = Ret (b, s')"
proof -
  have "\<exists>s'. invokeError beh (listener_failed E) () ls s1 = Ret s'" for s1 using quiet_invokeError [OF assms] by blast
  then have "\<exists>b s'. (case invokeError beh (listener_failed E) () ls s1 of Ret s \<Rightarrow> Ret (True, s)
      | Throw x s \<Rightarrow> Ret (False, crashed E m x s) | Terminate s \<Rightarrow> Terminate (False, s)) = Ret (b, s')" for s1 m
    by (metis outcome.simps(10))
  then show ?thesis by (auto simp: readData_def Let_def split: prod.splits sum.splits)
qed

lemma chan_inv_start:
  assumes "Channel E sid fd = Inr c"
  shows "chan_inv E w \<lparr>chan = c, sock_active = b, io = w\<rparr> [] [] []"
  using Channel_ok(1) [OF assms] sent_from_quiet [OF quiet_refl] by (simp add: chan_inv_def)

lemma chan_inv_quiet:
  assumes "chan_inv E w s trace acc ks" and "same_queue s s'" and "quiet (io s) (io s')"
  shows "chan_inv E w s' trace acc ks"
  using assms queue_ok_same [OF assms(2)] sent_from_trans [OF _ sent_from_quiet [OF assms(3)]]
  by (fastforce simp: chan_inv_def same_queue_def producer_def)

lemma chan_inv_length:
  assumes "chan_inv E w s trace acc ks" and "length trace < 2 ^ 63"
  shows "length trace \<le> 2 * length acc"
proof -
  obtain f where "fifo trace f" using assms queue_ok_inv unfolding chan_inv_def cq_inv_def by metis
  then have "length (recs trace) \<le> length (sents trace)" using fifo_received_le by (simp add: sents_length)
  moreover have "length trace = length (filter is_sent trace) + length (filter (Not \<circ> is_sent) trace)"
    using sum_length_filter_compl [of is_sent trace] by (simp add: o_def)
  moreover have "length (sents trace) = length acc" using assms(1) by (simp add: chan_inv_def)
  ultimately show ?thesis by (simp add: sents_length)
qed

lemma chan_inv_write:
  assumes "chan_inv E w s trace acc ks" and "length trace < 2 ^ 63" and "op_ok (Write tid th msg)"
  obtains s' new where "chan_step E (Write tid th msg) s = Some s'"
    "chan_inv E w s' (trace @ map (Sent (producer s' tid)) new) (acc @ map (Pair tid) new) ks" "length new \<le> 1"
    "map (Pair tid) new = [] \<or> map (Pair tid) new = written [Write tid th msg]" "isActive s' = isActive s"
    "writeSema (chan s') = writeSema (chan s) + int (length new)"
proof -
  have q: "queue_ok E (chan s) trace" using assms(1) by (simp add: chan_inv_def)
  have tid: "live tid" "length (the msg) < 2 ^ 63" using assms(3) by (simp_all add: op_ok_def)
  obtain x s' new where w: "queueWrite E tid th msg s = Some (x, s')" "io s' = io s"
    "queue_ok E (chan s') (trace @ map (Sent (producer s' tid)) new)"
    "new = [] \<or> new = [the msg] \<and> msg \<noteq> None \<and> channel_active (chan s) \<and> (\<exists>i. producer_of (writeQueue (chan s')) tid = Some (Some i))"
    "\<And>k. live k \<Longrightarrow> producer_of (writeQueue (chan s)) k \<noteq> None \<Longrightarrow> producer_of (writeQueue (chan s')) k = producer_of (writeQueue (chan s)) k"
    "writeSema (chan s') = writeSema (chan s) + int (length new)"
    by (rule queueWrite_ok [OF q assms(2) tid(1)]) blast+
  have keep: "producer_of (writeQueue (chan s')) t = producer_of (writeQueue (chan s)) t" if "(t, y) \<in> set acc" for t y
    using w(5) [of t] assms(1) that by (auto simp: chan_inv_def)
  then have "map (\<lambda>(t, x). (producer s' t, x)) acc = map (\<lambda>(t, x). (producer s t, x)) acc" by (auto simp: producer_def)
  then have "chan_inv E w s' (trace @ map (Sent (producer s' tid)) new) (acc @ map (Pair tid) new) ks"
    using assms(1) w(2,3,4) keep tid by (auto simp: chan_inv_def o_def)
  moreover have "map (Pair tid) new = [] \<or> map (Pair tid) new = written [Write tid th msg]" using w(4) by auto
  moreover have "isActive s' = isActive s" using w(1) q
    by (auto simp: queueWrite_def queue_ok_def isActive_def split: if_splits option.splits prod.splits)
  moreover have "length new \<le> 1" using w(4) by auto
  ultimately show thesis using that w(1,6) by simp
qed

lemma chan_inv_flush:
  assumes "chan_inv E w s trace acc ks" and "length trace + 10 < 2 ^ 63" and "send_ok E"
  obtains s' ms js where "chan_step E Flush s = Some s'" "chan_inv E w s' (trace @ map (Received \<circ> Some) ms) acc (ks @ js)"
    "length js = length ms" "length ms = (if channel_active (chan s) then min 10 (in_flight trace) else 0)"
    "whole E \<Longrightarrow> isActive s \<Longrightarrow> isActive s' \<and> cut js ms = concat ms"
proof -
  have q: "queue_ok E (chan s) trace" using assms(1) by (simp add: chan_inv_def)
  have small: "length x < 2 ^ 63" if "Sent i x \<in> set trace" for i x
  proof -
    have "(i, x) \<in> set (sents trace)" using that by (simp add: sents_set)
    then obtain t where "(t, x) \<in> set acc" using assms(1) by (auto simp: chan_inv_def)
    then show ?thesis using assms(1) by (auto simp: chan_inv_def)
  qed
  obtain b s' ms js where h: "handleWriteQueue E s = Some (b, s')" "length js = length ms"
    "sent_from E (io s) (io s') (cut js ms)" "queue_ok E (chan s') (trace @ map (Received \<circ> Some) ms)"
    "cq_hash (writeQueue (chan s')) = cq_hash (writeQueue (chan s))"
    "length ms = (if channel_active (chan s) then min 10 (in_flight trace) else 0)"
    "whole E \<Longrightarrow> isActive s \<Longrightarrow> isActive s' \<and> cut js ms = concat ms"
    by (rule handleWriteQueue_ok [OF assms(3) q assms(2) small]) blast+
  have p: "producer_of (writeQueue (chan s')) = producer_of (writeQueue (chan s))" "producer s' = producer s"
    using h(5) by (auto simp: producer_of_def producer_def)
  have "chan_inv E w s' (trace @ map (Received \<circ> Some) ms) acc (ks @ js)"
    using assms(1) h(2,4) p sent_from_trans [OF _ h(3), of w] by (simp add: chan_inv_def cut_append)
  then show thesis using that h by simp
qed

text \<open>The messages the write queue accepts: those that raise the count of the semaphore.\<close>

primrec accepted_writes :: "env \<Rightarrow> chan_op list \<Rightarrow> chan_state \<Rightarrow> (thread_id \<times> byte list) list" where
  "accepted_writes E [] s = []"
| "accepted_writes E (x # xs) s =
     (case chan_step E x s of
        None \<Rightarrow> []
      | Some s' \<Rightarrow> (if writeSema (chan s') > writeSema (chan s) then written [x] else []) @ accepted_writes E xs s')"

text \<open>Nothing that was handed out has been cut, and the channel is active.\<close>

definition uncut :: "chan_state \<Rightarrow> byte list act list \<Rightarrow> nat list \<Rightarrow> bool" where
  "uncut s trace ks \<longleftrightarrow> isActive s \<and> cut ks (recs trace) = concat (recs trace)"

definition keeps_open :: "chan_op \<Rightarrow> bool" where
  "keeps_open x = (case x of Write tid th m \<Rightarrow> True | Flush \<Rightarrow> True | _ \<Rightarrow> False)"

lemma chan_inv_step:
  assumes "chan_inv E w s trace acc ks" and "length trace + 10 < 2 ^ 63" and "send_ok E" and "op_ok x"
  obtains s' trace' ks' where "chan_step E x s = Some s'" "length trace' \<le> length trace + 10"
    "chan_inv E w s' trace' (acc @ (if writeSema (chan s') > writeSema (chan s) then written [x] else [])) ks'"
    "whole E \<Longrightarrow> keeps_open x \<Longrightarrow> uncut s trace ks \<Longrightarrow> uncut s' trace' ks'"
proof (cases x)
  case (Write tid th msg)
  have len: "length trace < 2 ^ 63" using assms(2) by simp
  obtain s' new where w: "chan_step E x s = Some s'" "chan_inv E w s' (trace @ map (Sent (producer s' tid)) new) (acc @ map (Pair tid) new) ks"
    "length new \<le> 1" "map (Pair tid) new = [] \<or> map (Pair tid) new = written [x]" "isActive s' = isActive s"
    "writeSema (chan s') = writeSema (chan s) + int (length new)"
    using chan_inv_write [OF assms(1) len] assms(4) Write by metis
  have "map (Pair tid) new = (if writeSema (chan s') > writeSema (chan s) then written [x] else [])" using w(4,6) by auto
  then show thesis using that [OF w(1), of "trace @ map (Sent (producer s' tid)) new" ks] w(2,3,5) by (simp add: uncut_def)
next
  case Flush
  obtain s' ms js where h: "chan_step E Flush s = Some s'" "chan_inv E w s' (trace @ map (Received \<circ> Some) ms) acc (ks @ js)"
    "length js = length ms" "length ms = (if channel_active (chan s) then min 10 (in_flight trace) else 0)"
    "whole E \<Longrightarrow> isActive s \<Longrightarrow> isActive s' \<and> cut js ms = concat ms"
    by (rule chan_inv_flush [OF assms(1-3)]) blast+
  have "length ks = length (recs trace)" using assms(1) by (simp add: chan_inv_def)
  then have u: "uncut s' (trace @ map (Received \<circ> Some) ms) (ks @ js)" if "whole E" "uncut s trace ks"
    using h(5) that by (auto simp: uncut_def cut_append)
  have "length (trace @ map (Received \<circ> Some) ms) \<le> length trace + 10" using h(4) by simp
  then show thesis using that [of s' "trace @ map (Received \<circ> Some) ms" "ks @ js"] h(1,2) u Flush by simp
next
  case (ReadIn beh ls n)
  then have beh: "listener_ok beh" using assms(4) by (simp add: op_ok_def)
  then obtain b s' where r: "readData E beh ls n s = Ret (b, s')" using readData_returns by blast
  have "chan_inv E w s' trace acc ks" by (rule chan_inv_quiet [OF assms(1) readData_quiet [OF r beh]])
  then show thesis using that [of s' trace ks] r ReadIn readData_quiet(1) [OF r beh] by (simp add: keeps_open_def same_queue_def)
next
  case Stop
  have "chan_inv E w (queueShutdown E s) trace acc ks" by (rule chan_inv_quiet [OF assms(1) _ shutdown_quiet]) simp
  moreover have "writeSema (chan (queueShutdown E s)) = writeSema (chan s)" using same_queue_shutdown [of s E s] by (simp add: same_queue_def)
  ultimately show thesis using that [of "queueShutdown E s" trace ks] Stop by (simp add: keeps_open_def)
qed

lemma chan_exec_inv:
  assumes "send_ok E"
  shows "chan_inv E w s trace acc ks \<Longrightarrow> length trace + 10 * length xs < 2 ^ 63 \<Longrightarrow> \<forall>x\<in>set xs. op_ok x \<Longrightarrow>
    \<exists>s' trace' ks'. chan_exec E xs s = Some s' \<and> chan_inv E w s' trace' (acc @ accepted_writes E xs s) ks'
      \<and> length trace' \<le> length trace + 10 * length xs
      \<and> (whole E \<and> (\<forall>x\<in>set xs. keeps_open x) \<and> uncut s trace ks \<longrightarrow> uncut s' trace' ks')"
proof (induction xs arbitrary: s trace acc ks)
  case (Cons x xs)
  have len: "length trace + 10 < 2 ^ 63" and x: "op_ok x" using Cons.prems by simp_all
  let ?a = "\<lambda>s'. if writeSema (chan s') > writeSema (chan s) then written [x] else []"
  obtain s1 trace1 ks1 where 1: "chan_step E x s = Some s1" "length trace1 \<le> length trace + 10"
    "chan_inv E w s1 trace1 (acc @ ?a s1) ks1" "whole E \<Longrightarrow> keeps_open x \<Longrightarrow> uncut s trace ks \<Longrightarrow> uncut s1 trace1 ks1"
    by (rule chan_inv_step [OF Cons.prems(1) len assms x]) blast+
  have "length trace1 + 10 * length xs < 2 ^ 63" using 1(2) Cons.prems(2) by simp
  from Cons.IH [OF 1(3) this] obtain s2 trace2 ks2 where 2: "chan_exec E xs s1 = Some s2"
    "chan_inv E w s2 trace2 ((acc @ ?a s1) @ accepted_writes E xs s1) ks2" "length trace2 \<le> length trace1 + 10 * length xs"
    "whole E \<and> (\<forall>x\<in>set xs. keeps_open x) \<and> uncut s1 trace1 ks1 \<longrightarrow> uncut s2 trace2 ks2"
    using Cons.prems(3) by auto
  have "accepted_writes E (x # xs) s = ?a s1 @ accepted_writes E xs s1" using 1(1) by simp
  then have "chan_inv E w s2 trace2 (acc @ accepted_writes E (x # xs) s) ks2" using 2(2) by (simp only: append_assoc)
  moreover have "chan_exec E (x # xs) s = Some s2" using 1(1) 2(1) by simp
  moreover have "length trace2 \<le> length trace + 10 * length (x # xs)" using 1(2) 2(3) by simp
  moreover have "whole E \<and> (\<forall>x\<in>set (x # xs). keeps_open x) \<and> uncut s trace ks \<longrightarrow> uncut s2 trace2 ks2" using 1(4) 2(4) by simp
  ultimately show ?case by blast
qed auto

lemma chan_inv_fifo:
  assumes "chan_inv E w s trace acc ks" and "length trace < 2 ^ 63"
  obtains tms pend where "map snd tms = recs trace" "\<And>t. from_thread t acc = from_thread t tms @ pend t"
    "in_flight trace = 0 \<Longrightarrow> \<forall>t. pend t = []"
proof -
  have q: "queue_ok E (chan s) trace" using assms(1) by (simp add: chan_inv_def)
  obtain f where inv: "cq_inv default_traits (writeQueue (chan s)) Map.empty [0 \<mapsto> writeConsumeToken (chan s)] trace f"
    by (rule queue_ok_inv [OF q assms(2)])
  then have f: "fifo trace f" "cq_rep default_traits (writeQueue (chan s)) f" "hash_rep default_traits (writeQueue (chan s))"
    by (simp_all add: cq_inv_def)
  then have known: "known_ok (usable (writeQueue (chan s))) (producer_of (writeQueue (chan s)))"
    by (simp add: hash_rep_def default_traits_def)
  have owned: "live t \<and> producer_of (writeQueue (chan s)) t = Some (Some (producer s t))" if "t \<in> fst ` set acc" for t
    using assms(1) that by (auto simp: chan_inv_def producer_def)
  have inj: "inj_on (producer s) (fst ` set acc)"
  proof (rule inj_onI)
    fix t u assume tu: "t \<in> fst ` set acc" "u \<in> fst ` set acc" "producer s t = producer s u"
    then show "t = u" using known owned [OF tu(1)] owned [OF tu(2)] unfolding known_ok_def by metis
  qed
  have sents: "sents trace = map (\<lambda>(t, x). (producer s t, x)) acc" using assms(1) by (simp add: chan_inv_def)
  obtain tms where tms: "map snd tms = recs trace" "\<And>t. t \<in> fst ` set acc \<Longrightarrow> from_thread t acc = from_thread t tms @ f (producer s t)"
    "fst ` set tms \<subseteq> fst ` set acc"
    by (rule threads_fifo [OF f(1) sents inj]) blast
  define pend where "pend t = (if t \<in> fst ` set acc then f (producer s t) else [])" for t
  have "from_thread t acc = from_thread t tms @ pend t" for t
  proof (cases "t \<in> fst ` set acc")
    case False
    then have "t \<notin> fst ` set tms" using tms(3) by blast
    then show ?thesis using False by (simp add: from_thread_none pend_def)
  qed (simp add: tms(2) pend_def)
  moreover have "\<forall>t. pend t = []" if "in_flight trace = 0"
    using that fifo_total(1) [OF f(1,2)] total_zero [OF f(2)] by (simp add: pend_def)
  ultimately show thesis by (rule that [OF tms(1)])
qed

lemma flush_all:
  assumes "whole E"
  shows "chan_inv E w s trace acc ks \<Longrightarrow> length trace + 10 * n < 2 ^ 63 \<Longrightarrow> uncut s trace ks \<Longrightarrow> in_flight trace \<le> 10 * n \<Longrightarrow>
    \<exists>s' trace' ks'. chan_exec E (replicate n Flush) s = Some s' \<and> chan_inv E w s' trace' acc ks' \<and> uncut s' trace' ks'
      \<and> in_flight trace' = 0 \<and> length trace' < 2 ^ 63"
proof (induction n arbitrary: s trace ks)
  case (Suc n)
  have len: "length trace + 10 < 2 ^ 63" using Suc.prems(2) by simp
  obtain s1 ms js where h: "chan_step E Flush s = Some s1" "chan_inv E w s1 (trace @ map (Received \<circ> Some) ms) acc (ks @ js)"
    "length js = length ms" "length ms = (if channel_active (chan s) then min 10 (in_flight trace) else 0)"
    "whole E \<Longrightarrow> isActive s \<Longrightarrow> isActive s1 \<and> cut js ms = concat ms"
    by (rule chan_inv_flush [OF Suc.prems(1) len whole_send_ok [OF assms]]) blast+
  let ?t = "trace @ map (Received \<circ> Some) ms"
  have act: "isActive s" "channel_active (chan s)" using Suc.prems(3) by (simp_all add: uncut_def isActive_def)
  have "length ks = length (recs trace)" using Suc.prems(1) by (simp add: chan_inv_def)
  then have "uncut s1 ?t (ks @ js)" using h(5) [OF assms act(1)] Suc.prems(3) by (simp add: uncut_def cut_append)
  note u = this
  have "in_flight ?t = in_flight trace - length ms" by (simp add: in_flight_def filter_empty_conv o_def)
  then have left: "in_flight ?t \<le> 10 * n" using h(4) act(2) Suc.prems(4) by simp
  have "length ms \<le> 10" using h(4) by simp
  then have "length ?t + 10 * n < 2 ^ 63" using Suc.prems(2) by simp
  from Suc.IH [OF h(2) this u left] obtain s2 trace2 ks2 where "chan_exec E (replicate n Flush) s1 = Some s2"
    "chan_inv E w s2 trace2 acc ks2" "uncut s2 trace2 ks2" "in_flight trace2 = 0" "length trace2 < 2 ^ 63"
    by blast
  moreover from this have "chan_exec E (replicate (Suc n) Flush) s = Some s2" using h(1) by (simp del: chan_step.simps)
  ultimately show ?case by blast
qed auto

section \<open>Properties\<close>

text \<open>An environment with memory in which \<open>send\<close> takes every byte.\<close>

definition demo_reply :: "sys \<Rightarrow> reply" where
  "demo_reply c = \<lparr>ret = (case c of Send fd bs \<Rightarrow> int (length bs) | _ \<Rightarrow> 0), err = None, received = [], infos = [], address = 0,
     names = ([], []), stops_channel = False, stops_socket = False\<rparr>"

definition demo_env :: env where
  "demo_env = \<lparr>os = (\<lambda>h. demo_reply), enqueue_fails = (\<lambda>h. 0), fmt = (\<lambda>s a. s), strerror = (\<lambda>e. []), gai_strerror = (\<lambda>e. []),
     malloc_ok = (\<lambda>n. True), sema_ok = True\<rparr>"

definition demo_world :: world where
  "demo_world = \<lparr>made = [], errno = 0, logs = [], DebugEnabled = False\<rparr>"

lemma demo_whole: "whole demo_env"
  by (simp add: whole_def demo_env_def demo_reply_def)

lemma demo_channel: obtains c where "Channel demo_env 0 4 = Inr c"
proof -
  obtain tok q where "ConsumerToken (ConcurrentQueue (malloc_ok demo_env) default_traits (6 * BLOCK_SIZE default_traits) :: byte list cqueue) = (tok, q)"
    by (metis prod.exhaust)
  then show thesis using that by (simp add: Channel_def demo_env_def)
qed

lemma demo_ops: "\<forall>x\<in>set [Write 5 None (Some [1, 2]), Flush]. op_ok x"
  by (simp add: op_ok_def live_def invalid_thread_id_def invalid_thread_id2_def)

text \<open>
  (C2) \<open>Channel\<close> and its write queue are first in, first out for every thread.  Whatever sequence of \<open>queueWrite\<close> (with or
  without memory, throwing or not), \<open>handleWriteQueue\<close>, \<open>readData\<close> with any listeners that return (one that throws ends the
  process) and leave the write queue alone, and \<open>queueShutdown\<close> runs on a new channel without threads of its own, and however
  the operating system answers within what POSIX promises of \<open>send\<close>, every operation returns; the bytes the kernel has taken are prefixes of messages, one after
  the other, and for each thread these messages, in order, followed by those still queued are the messages it wrote
  that were accepted.
\<close>

theorem channel_fifo:
  assumes "send_ok E" and "Channel E sid fd = Inr c" and "\<forall>x\<in>set ops. op_ok x" and "10 * length ops < 2 ^ 63"
  shows "\<exists>s' tms ks pend. chan_exec E ops \<lparr>chan = c, sock_active = b, io = w\<rparr> = Some s'
    \<and> length ks = length tms \<and> sent_from E w (io s') (concat (map2 take ks (map snd tms)))
    \<and> (\<forall>t. from_thread t (accepted_writes E ops \<lparr>chan = c, sock_active = b, io = w\<rparr>) = from_thread t tms @ pend t)"
proof -
  have len: "length ([] :: byte list act list) + 10 * length ops < 2 ^ 63" using assms(4) by simp
  obtain s' trace ks where e: "chan_exec E ops \<lparr>chan = c, sock_active = b, io = w\<rparr> = Some s'"
    "chan_inv E w s' trace ([] @ accepted_writes E ops \<lparr>chan = c, sock_active = b, io = w\<rparr>) ks" "length trace \<le> length ([] :: byte list act list) + 10 * length ops"
    using chan_exec_inv [OF assms(1) chan_inv_start [OF assms(2)] len assms(3)] by blast
  have "length trace < 2 ^ 63" using e(3) assms(4) by simp
  then obtain tms pend where t: "map snd tms = recs trace"
    "\<And>t. from_thread t ([] @ accepted_writes E ops \<lparr>chan = c, sock_active = b, io = w\<rparr>) = from_thread t tms @ pend t"
    by (rule chan_inv_fifo [OF e(2)]) blast
  have "length ks = length tms" using e(2) arg_cong [OF t(1), of length] by (simp add: chan_inv_def)
  moreover have "sent_from E w (io s') (concat (map2 take ks (map snd tms)))" using e(2) t(1) by (simp add: chan_inv_def cut_def)
  ultimately show ?thesis using e(1) t(2) unfolding append_Nil by blast
qed

theorem channel_fifo_witness:
  "\<exists>c s' ks tms. Channel demo_env 0 4 = Inr c
     \<and> chan_exec demo_env [Write 5 None (Some [1, 2]), Flush] \<lparr>chan = c, sock_active = True, io = demo_world\<rparr> = Some s'
     \<and> sent_from demo_env demo_world (io s') (concat (map2 take ks (map snd (tms :: (thread_id \<times> byte list) list))))"
proof -
  obtain c where c: "Channel demo_env 0 4 = Inr c" by (rule demo_channel)
  have "10 * length [Write 5 None (Some [1, 2]), Flush] < 2 ^ 63" by simp
  from channel_fifo [OF whole_send_ok [OF demo_whole] c demo_ops this, of True demo_world] obtain s' tms ks
    where "chan_exec demo_env [Write 5 None (Some [1, 2]), Flush] \<lparr>chan = c, sock_active = True, io = demo_world\<rparr> = Some s'"
      "sent_from demo_env demo_world (io s') (concat (map2 take ks (map snd (tms :: (thread_id \<times> byte list) list))))" by blast
  then show ?thesis using c by blast
qed

text \<open>
  (C3) Nothing accepted is lost or mixed up when the kernel takes all bytes of each \<open>send\<close> and nobody stops the channel:
  after any writes and flushes, and enough further rounds of \<open>handleWriteQueue\<close> at ten messages each, the bytes on the wire
  are whole messages, and for each thread exactly its accepted messages in the order it wrote them.
\<close>

theorem channel_delivers:
  assumes "whole E" and "Channel E sid fd = Inr c" and "\<forall>x\<in>set ops. op_ok x \<and> keeps_open x"
    and "length ops \<le> 10 * n" and "10 * (length ops + n) < 2 ^ 63"
  shows "\<exists>s' tms. chan_exec E (ops @ replicate n Flush) \<lparr>chan = c, sock_active = True, io = w\<rparr> = Some s'
    \<and> sent_from E w (io s') (concat (map snd tms)) \<and> isActive s'
    \<and> (\<forall>t. from_thread t tms = from_thread t (accepted_writes E ops \<lparr>chan = c, sock_active = True, io = w\<rparr>))"
proof -
  let ?s = "\<lparr>chan = c, sock_active = True, io = w\<rparr>"
  have ok: "send_ok E" "\<forall>x\<in>set ops. op_ok x" using whole_send_ok assms(1,3) by blast+
  have len: "length ([] :: byte list act list) + 10 * length ops < 2 ^ 63" using assms(5) by simp
  obtain s1 trace1 ks1 where e: "chan_exec E ops ?s = Some s1" "chan_inv E w s1 trace1 ([] @ accepted_writes E ops ?s) ks1"
    "length trace1 \<le> length ([] :: byte list act list) + 10 * length ops"
    "whole E \<and> (\<forall>x\<in>set ops. keeps_open x) \<and> uncut ?s [] [] \<longrightarrow> uncut s1 trace1 ks1"
    using chan_exec_inv [OF ok(1) chan_inv_start [OF assms(2)] len ok(2)] by blast
  have "uncut ?s [] []" using Channel_ok(3) [OF assms(2)] by (simp add: uncut_def isActive_def)
  then have u: "uncut s1 trace1 ks1" using e(4) assms(1,3) by blast
  have l1: "length trace1 + 10 * n < 2 ^ 63" using e(3) assms(5) by simp
  have "length (accepted_writes E ops s) \<le> length ops" for s
  proof (induction ops arbitrary: s)
    case (Cons x ops)
    have "length (written [x]) \<le> 1" by (auto split: chan_op.split option.split)
    then show ?case using Cons.IH by (force simp del: written.simps split: option.split intro: le_SucI add_le_mono [of _ 1, simplified])
  qed simp
  then have left: "in_flight trace1 \<le> 10 * n"
  proof -
    have "in_flight trace1 \<le> length (sents trace1)" by (simp add: in_flight_def sents_length)
    also have "\<dots> = length (accepted_writes E ops ?s)" using e(2) by (simp add: chan_inv_def)
    also have "\<dots> \<le> length ops" by fact
    finally show ?thesis using assms(4) by simp
  qed
  obtain s2 trace2 ks2 where f: "chan_exec E (replicate n Flush) s1 = Some s2" "chan_inv E w s2 trace2 (accepted_writes E ops ?s) ks2"
    "uncut s2 trace2 ks2" "in_flight trace2 = 0" "length trace2 < 2 ^ 63"
    using flush_all [OF assms(1) e(2) l1 u left] unfolding append_Nil by blast
  have "chan_exec E (ops @ xs) s = (case chan_exec E ops s of None \<Rightarrow> None | Some s \<Rightarrow> chan_exec E xs s)" for xs s
    by (induction ops arbitrary: s) (simp_all split: option.split)
  then have run: "chan_exec E (ops @ replicate n Flush) ?s = Some s2" using e(1) f(1) by simp
  show ?thesis
  proof (rule chan_inv_fifo [OF f(2,5)])
    fix tms pend
    assume t: "map snd tms = recs trace2" "\<And>t. from_thread t (accepted_writes E ops ?s) = from_thread t tms @ pend t"
      and "in_flight trace2 = 0 \<Longrightarrow> \<forall>t. pend t = []"
    then have "from_thread t tms = from_thread t (accepted_writes E ops ?s)" for t using f(4) by simp
    moreover have "sent_from E w (io s2) (concat (map snd tms))" using f(2,3) t(1) by (simp add: chan_inv_def uncut_def)
    moreover have "isActive s2" using f(3) by (simp add: uncut_def)
    ultimately show ?thesis using run by blast
  qed
qed

theorem channel_delivers_witness:
  "\<exists>c s' tms. Channel demo_env 0 4 = Inr c
     \<and> chan_exec demo_env ([Write 5 None (Some [1, 2]), Flush] @ replicate 1 Flush) \<lparr>chan = c, sock_active = True, io = demo_world\<rparr> = Some s'
     \<and> sent_from demo_env demo_world (io s') (concat (map snd (tms :: (thread_id \<times> byte list) list)))"
proof -
  obtain c where c: "Channel demo_env 0 4 = Inr c" by (rule demo_channel)
  have "\<forall>x\<in>set [Write 5 None (Some [1, 2]), Flush]. op_ok x \<and> keeps_open x" using demo_ops by (simp add: keeps_open_def)
  from channel_delivers [OF demo_whole c this, of 1 demo_world] show ?thesis using c by force
qed

text \<open>
  (C31) A short \<open>send\<close> loses the rest of the message without an error: the condition of the loop compares the bytes just
  sent with the bytes left, so when at least half is taken the loop ends; and when the kernel would block the result
  -1, converted to \<open>size_t\<close>, ends it as well, after the sleep that was meant to precede another attempt.
\<close>

theorem short_send_drops_rest:
  assumes "isActive s" and "length bs < 2 ^ 63" and "0 < length bs" and "c = Send (clientDescriptor (chan s)) bs"
  shows "(\<forall>k. ret (os E (made (io s)) c) = int k \<and> k < length bs \<and> length bs \<le> 2 * k \<longrightarrow>
      (\<exists>s'. sendBytes E bs s = Some (Inr (), s') \<and> made (io s') = made (io s) @ [c] \<and> sent_from E (io s) (io s') (take k bs)))
    \<and> (ret (os E (made (io s)) c) = -1 \<and> err (os E (made (io s)) c) = Some EWOULDBLOCK \<longrightarrow>
      (\<exists>s'. sendBytes E bs s = Some (Inr (), s') \<and> made (io s') = made (io s) @ [c, Sleep 50] \<and> sent_from E (io s) (io s') []))"
proof (intro conjI allI impI)
  obtain r s1 where c: "chan_call E c s = (r, s1)" by (metis prod.exhaust)
  have r: "r = os E (made (io s)) c" "made (io s1) = made (io s) @ [c]" using chan_call_io [OF c] by simp_all
  have act: "channel_active (chan s)" "sock_active s" using assms(1) by (simp_all add: isActive_def)
  have pos: "(0 :: size_t) < of_nat (length bs)" using of_nat_less_size [of 0 "length bs"] assms(2,3) by simp
  {
    fix k assume k: "ret (os E (made (io s)) c) = int k \<and> k < length bs \<and> length bs \<le> 2 * k"
    have "(of_nat k :: size_t) < of_nat (length bs)" "\<not> (of_nat k :: size_t) < of_nat (length bs - k)"
      using of_nat_less_size [of k "length bs"] of_nat_less_size [of k "length bs - k"] k assms(2) by auto
    then have "sendBytes E bs s = Some (Inr (), s1)"
      using act c assms(1) k r(1) pos unfolding assms(4) by (cases "length bs") (simp_all add: sendBytes_def Let_def of_nat_diff)
    then show "\<exists>s'. sendBytes E bs s = Some (Inr (), s') \<and> made (io s') = made (io s) @ [c] \<and> sent_from E (io s) (io s') (take k bs)"
      using r k sent_from_call [OF c [unfolded assms(4)]] by (auto simp: assms(4))
  next
    assume b: "ret (os E (made (io s)) c) = -1 \<and> err (os E (made (io s)) c) = Some EWOULDBLOCK"
    obtain r2 s2 where c2: "chan_call E (Sleep 50) s1 = (r2, s2)" by (metis prod.exhaust)
    have "errno (io s1) = EWOULDBLOCK" using c b by (auto simp: chan_call_def sys_call_def Let_def)
    then have "sendBytes E bs s = Some (Inr (), s2)"
      using act c c2 assms(1) b r(1) pos minus_one_size [OF assms(2)] unfolding assms(4)
      by (cases "length bs") (simp_all add: sendBytes_def Let_def)
    moreover have "sent_from E (io s) (io s2) []"
      using sent_from_trans [OF sent_from_call [OF c [unfolded assms(4)]] sent_from_quiet [OF sleep_quiet [OF c2]]] b r(1) by (simp add: assms(4))
    ultimately show "\<exists>s'. sendBytes E bs s = Some (Inr (), s') \<and> made (io s') = made (io s) @ [c, Sleep 50] \<and> sent_from E (io s) (io s') []"
      using r(2) chan_call_io [OF c2] by auto
  }
qed

text \<open>The environment of the example above, with a kernel that takes three bytes at most.\<close>

definition short_env :: env where
  "short_env = demo_env\<lparr>os := (\<lambda>h c. (demo_reply c)\<lparr>ret := 3\<rparr>)\<rparr>"

theorem short_send_drops_rest_witness:
  "\<exists>s s'. isActive s \<and> sendBytes short_env [1, 2, 3, 4, 5] s = Some (Inr (), s') \<and> sent_from short_env (io s) (io s') [1, 2, 3]"
proof -
  obtain c where c: "Channel demo_env 0 4 = Inr c" by (rule demo_channel)
  let ?s = "\<lparr>chan = c, sock_active = True, io = demo_world\<rparr>"
  have act: "isActive ?s" using Channel_ok(3) [OF c] by (simp add: isActive_def)
  have "ret (os short_env h c) = int 3" for h c by (simp add: short_env_def)
  moreover have "length [1, 2, 3, 4, 5 :: byte] < 2 ^ 63" "0 < length [1, 2, 3, 4, 5 :: byte]" by simp_all
  ultimately obtain s' where "sendBytes short_env [1, 2, 3, 4, 5] ?s = Some (Inr (), s')"
    "sent_from short_env (io ?s) (io s') (take 3 [1, 2, 3, 4, 5])"
    using short_send_drops_rest [OF act _ _ refl, of "[1, 2, 3, 4, 5]" short_env] by fastforce
  then show ?thesis using act by fastforce
qed

end
