(* ===== verification/SocketServerSafety.thy ===== *)
theory SocketServerSafety
  imports SocketServer SocketChannelFlow
begin

text \<open>
  What the server guarantees of the descriptors of its clients: which of them it closes, and how often, in any order of
  the rounds of its threads and of the calls of its clients.
\<close>

section \<open>Accepted and closed descriptors\<close>

fun accepts :: "env \<Rightarrow> sys list \<Rightarrow> sys list \<Rightarrow> int list" where
  "accepts E h [] = []"
| "accepts E h (c # cs) =
     (case c of Accept l \<Rightarrow> if ret (os E h c) \<ge> 0 then [ret (os E h c)] else [] | _ \<Rightarrow> []) @ accepts E (h @ [c]) cs"

primrec closed :: "sys list \<Rightarrow> int list" where
  "closed [] = []"
| "closed (c # cs) = (case c of Close fd \<Rightarrow> [fd] | _ \<Rightarrow> []) @ closed cs"

definition harmless :: "sys \<Rightarrow> bool" where
  "harmless c = (case c of Accept l \<Rightarrow> False | Close fd \<Rightarrow> False | _ \<Rightarrow> True)"

lemma harmless_simps [simp]:
  "harmless (Sleep n)" "harmless (Send fd bs)" "harmless (Recv fd n)" "harmless (Shutdown fd)" "harmless (Spawn t)" "harmless (Join t)"
  by (simp_all add: harmless_def)

abbreviation calm :: "world \<Rightarrow> world \<Rightarrow> bool" where
  "calm \<equiv> only harmless"

lemma accepts_append: "accepts E h (cs @ ds) = accepts E h cs @ accepts E (h @ cs) ds"
  by (induction cs arbitrary: h) simp_all

lemma closed_append [simp]: "closed (cs @ ds) = closed cs @ closed ds"
  by (induction cs) simp_all

lemma harmless_none: "\<forall>c\<in>set cs. harmless c \<Longrightarrow> accepts E h cs = [] \<and> closed cs = []"
  by (induction cs arbitrary: h) (auto simp: harmless_def split: sys.splits)

lemma calm_counts: "calm w w' \<Longrightarrow> accepts E [] (made w') = accepts E [] (made w) \<and> closed (made w') = closed (made w)"
  using harmless_none by (fastforce simp: only_def accepts_append)

lemmas log_calm [simp] = log_only [of harmless, OF harmless_simps(1)]
lemmas throw_calm = throw_only [of harmless, OF harmless_simps(1)]
lemmas fmtThrow_calm = fmtThrow_only [of harmless, OF harmless_simps(1)]
lemmas shutdown_calm = shutdown_only [of harmless, OF harmless_simps(1)]
lemmas calm_trans = only_trans [of harmless]

section \<open>Operations of a channel\<close>

text \<open>No thread runs in the channel and none waits for it.\<close>

definition idle_channel :: "channel \<Rightarrow> bool" where
  "idle_channel c \<longleftrightarrow> readThread c = None \<and> writeThread c = None \<and> \<not> readLock c \<and> \<not> writeLock c"

definition kept :: "chan_state \<Rightarrow> chan_state \<Rightarrow> bool" where
  "kept s s' \<longleftrightarrow> calm (io s) (io s') \<and> clientDescriptor (chan s') = clientDescriptor (chan s)
     \<and> (idle_channel (chan s) \<longrightarrow> idle_channel (chan s')) \<and> (sock_active s' \<longrightarrow> sock_active s)"

lemma kept_refl [simp]: "kept s s"
  by (simp add: kept_def)

lemma kept_trans: "kept s s' \<Longrightarrow> kept s' s'' \<Longrightarrow> kept s s''"
  unfolding kept_def using calm_trans by metis

lemma kept_io: "calm (io s) w \<Longrightarrow> kept s (s\<lparr>io := w\<rparr>)"
  by (simp add: kept_def)

lemma kept_call: "chan_call E c s = (r, s') \<Longrightarrow> harmless c \<Longrightarrow> kept s s'"
  using chan_call_io [of E c s r s'] by (auto simp: kept_def only_def chan_call_def idle_channel_def split: prod.splits)

lemma kept_shutdown: "kept s (queueShutdown E s)"
  using shutdown_calm by (simp add: kept_def) (simp add: queueShutdown_def on_io_def Let_def idle_channel_def)

lemma kept_log: "kept s (on_io (fmtLog E lvl tag str args) s)" "kept s (on_io (writeLog E lvl tag log) s)"
  by (simp_all add: kept_def on_io_def)

lemma kept_crashed: "kept s (crashed E m e s)"
  unfolding crashed_def by (rule kept_trans [OF kept_log(1) kept_shutdown])

lemma send_loop_kept: "send_loop rounds E sent bs s = Some (x, s') \<Longrightarrow> kept s s'"
proof (induction rounds arbitrary: sent bs s)
  case (Suc rounds)
  obtain r s1 where c: "chan_call E (Send (clientDescriptor (chan s)) bs) s = (r, s1)" by (metis prod.exhaust)
  obtain r2 s2 where c2: "chan_call E (Sleep 50) s1 = (r2, s2)" by (metis prod.exhaust)
  have 1: "kept s s1" "kept s1 s2" using kept_call c c2 harmless_simps by blast+
  then have 2: "kept s t" if "kept s1 t \<or> kept s2 t" for t using that kept_trans by blast
  have 3: "kept s ((queueShutdown E s1)\<lparr>io := w\<rparr>)" if "throwIfError E True e CHANNEL_LOG_TAG (io (queueShutdown E s1)) = (y, w)" for e y w
    using kept_trans [OF kept_shutdown kept_io [OF throw_calm [OF that]]] 2 by blast
  show ?case
    using Suc.prems 1 by (auto simp: Let_def c c2 split: if_splits prod.splits dest!: Suc.IH intro: 2 3)
qed simp

lemma sendBytes_kept: "sendBytes E bs s = Some (x, s') \<Longrightarrow> kept s s'"
  using kept_log(2) by (auto simp: sendBytes_def simp del: send_loop.simps split: if_splits dest: send_loop_kept)

lemma send_all_kept: "send_all E ms s = Some (x, s') \<Longrightarrow> kept s s'"
proof (induction ms arbitrary: s)
  case (Cons m ms)
  then show ?case
    by (auto simp: sendMessage_def split: option.splits sum.splits dest: sendBytes_kept intro: kept_trans [OF sendBytes_kept])
qed simp

lemma dequeue_messages_kept: "dequeue_messages mx c = Some (ms, c') \<Longrightarrow> clientDescriptor c' = clientDescriptor c \<and> (idle_channel c' = idle_channel c)"
  by (auto simp: dequeue_messages_def Let_def idle_channel_def)

lemma handleWriteQueue_kept:
  assumes "handleWriteQueue E s = Some (b, s')"
  shows "kept s s'"
proof (cases "\<exists>ms c. dequeue_messages 10 (chan s) = Some (ms, c)")
  case True
  then obtain ms c where d: "dequeue_messages 10 (chan s) = Some (ms, c)" by blast
  have 1: "kept s (s\<lparr>chan := c\<rparr>)" using dequeue_messages_kept [OF d] by (simp add: kept_def)
  have 2: "kept s t" if "send_all E ms (s\<lparr>chan := c\<rparr>) = Some (x, t)" for x t by (rule kept_trans [OF 1 send_all_kept [OF that]])
  have 3: "kept s (crashed E m e t)" if "send_all E ms (s\<lparr>chan := c\<rparr>) = Some (x, t)" for m e x t
    by (rule kept_trans [OF 2 [OF that] kept_crashed])
  show ?thesis using assms d 1 by (auto simp: handleWriteQueue_def Let_def split: if_splits option.splits sum.splits intro: 2 3)
next
  case False
  then show ?thesis using assms by (auto simp: handleWriteQueue_def split: if_splits option.splits)
qed

lemma queueWrite_kept:
  assumes "queueWrite E tid th msg s = Some (x, s')"
  shows "kept s s'"
proof (cases "\<not> channel_active (chan s) \<or> msg = None \<or> msg = Some [] \<or> Some tid = writeThread (chan s)")
  case True
  then show ?thesis using assms sendBytes_kept by (fastforce simp: queueWrite_def sendMessage_def split: if_splits)
next
  case False
  then show ?thesis using assms by (auto simp: queueWrite_def kept_def idle_channel_def split: option.splits)
qed

text \<open>Listeners that return, log at most, and leave the threads of the channel alone.\<close>

definition tame_listener :: "(unit, chan_state) behaviour \<Rightarrow> bool" where
  "tame_listener beh \<longleftrightarrow> (\<forall>f s. \<exists>s'. beh f () s = Ret s' \<and> kept s s')"

lemma tame_invokeError: "tame_listener beh \<Longrightarrow> \<exists>s'. invokeError beh h () ls s = Ret s' \<and> kept s s'"
proof (induction ls arbitrary: s)
  case (Cons f ls)
  obtain s1 where 1: "beh f () s = Ret s1" "kept s s1" using Cons.prems by (auto simp: tame_listener_def)
  obtain s2 where "invokeError beh h () ls s1 = Ret s2" "kept s1 s2" using Cons by blast
  then show ?case using 1 kept_trans by (auto simp: call_def)
qed simp

lemma readData_kept:
  assumes "readData E beh ls n s = Ret (b, s')" and "tame_listener beh"
  shows "kept s s'"
proof -
  obtain r s1 where c: "chan_call E (Recv (clientDescriptor (chan s)) n) s = (r, s1)" by (metis prod.exhaust)
  have 1: "kept s s1" by (rule kept_call [OF c]) simp
  note stop = kept_trans [OF 1 kept_shutdown]
  show ?thesis
    using assms(1) c
  proof (cases rule: readData_cases)
    case (queued q s2)
    then have 2: "kept s s2" using 1 by (simp add: kept_def idle_channel_def)
    obtain s3 where "invokeError beh (listener_failed E) () ls s2 = Ret s3" "kept s2 s3" using tame_invokeError [OF assms(2)] by blast
    then show ?thesis using queued(2) 2 kept_trans [OF 2] by auto
  next
    case (error e x w m x')
    note thrown = kept_trans [OF stop kept_io [OF throw_calm [OF error(1)]]]
    then show ?thesis using error(2) kept_trans [OF thrown kept_crashed] by auto
  qed (use 1 stop in simp_all)
qed

lemma destroy_Channel_kept:
  assumes "idle_channel (chan s)"
  obtains s' where "destroy_Channel E s = Some s'" "calm (io s) (io s')" "sock_active s' = sock_active s"
proof -
  let ?s = "queueShutdown E (queueShutdown E s)"
  have k: "kept s ?s" by (rule kept_trans [OF kept_shutdown kept_shutdown])
  then have "idle_channel (chan ?s)" using assms by (simp add: kept_def)
  then have "destroy_Channel E s = Some (on_io (writeLog E DEBUG_LEVEL CHANNEL_LOG_TAG ''Ending channel'') ?s)"
    by (simp add: destroy_Channel_def awaitShutdown_def Let_def idle_channel_def)
  moreover have "kept s (on_io (writeLog E DEBUG_LEVEL CHANNEL_LOG_TAG ''Ending channel'') ?s)" by (rule kept_trans [OF k kept_log(2)])
  moreover have "sock_active (on_io f ?s) = sock_active s" for f by (simp add: queueShutdown_def on_io_def Let_def)
  ultimately show thesis using that by (auto simp: kept_def)
qed

section \<open>The invariant of the server\<close>

text \<open>
  What POSIX promises of \<open>accept\<close>: the descriptor it returns is not open, so that it has been closed as often as it was
  returned before.
\<close>

definition accept_fresh :: "env \<Rightarrow> bool" where
  "accept_fresh E \<longleftrightarrow> (\<forall>h l. ret (os E h (Accept l)) \<ge> 0 \<longrightarrow>
     count_list (accepts E [] h) (ret (os E h (Accept l))) \<le> count_list (closed h) (ret (os E h (Accept l))))"

definition held :: "server \<Rightarrow> int \<Rightarrow> nat" where
  "held s fd = (if fd \<in> fst ` set (clients s) then 1 else 0)"

definition clients_ok :: "(int \<times> channel) list \<Rightarrow> bool" where
  "clients_ok cs \<longleftrightarrow> distinct (map fst cs) \<and> (\<forall>(fd, c)\<in>set cs. clientDescriptor c = fd \<and> idle_channel c)"

text \<open>
  Every descriptor is open at most once.  It has been closed, belongs to a client or is one of \<open>out\<close>, which some thread is
  about to make a client or to close, at most as often as it was accepted; and exactly as often when \<open>strict\<close>, that is when nobody
  stopped the server during a call of \<open>accept\<close>.
\<close>

definition server_inv :: "env \<Rightarrow> bool \<Rightarrow> int list \<Rightarrow> server \<Rightarrow> bool" where
  "server_inv E strict out s \<longleftrightarrow>
     clients_ok (clients s)
     \<and> (\<forall>fd. count_list (accepts E [] (made (sio s))) fd \<le> count_list (closed (made (sio s))) fd + 1)
     \<and> (\<forall>fd. count_list (closed (made (sio s))) fd + held s fd + count_list out fd \<le> count_list (accepts E [] (made (sio s))) fd)
     \<and> (strict \<longrightarrow> (\<forall>fd. count_list (closed (made (sio s))) fd + held s fd + count_list out fd = count_list (accepts E [] (made (sio s))) fd))"

definition never_stopped :: "env \<Rightarrow> bool" where
  "never_stopped E \<longleftrightarrow> (\<forall>h c. \<not> stops_socket (os E h c))"

text \<open>A step that leaves the clients alone, neither accepts nor closes, and does not start a server that was stopped.\<close>

definition server_kept :: "server \<Rightarrow> server \<Rightarrow> bool" where
  "server_kept s s' \<longleftrightarrow> clients s' = clients s \<and> calm (sio s) (sio s') \<and> (active (sock s') \<longrightarrow> active (sock s))"

lemma server_kept_refl [simp]: "server_kept s s"
  by (simp add: server_kept_def)

lemma server_kept_trans: "server_kept s s' \<Longrightarrow> server_kept s' s'' \<Longrightarrow> server_kept s s''"
  unfolding server_kept_def using calm_trans by metis

lemma server_kept_sio: "calm (sio s) w \<Longrightarrow> server_kept s (s\<lparr>sio := w\<rparr>)"
  by (simp add: server_kept_def)

lemma server_kept_threads [simp]:
  "server_kept s (s'\<lparr>starting := fds\<rparr>) = server_kept s s'" "server_kept s (s'\<lparr>threads := ts\<rparr>) = server_kept s s'"
  by (simp_all add: server_kept_def)

lemma server_kept_call: "harmless c \<Longrightarrow> server_call E c s = (r, s') \<Longrightarrow> server_kept s s'"
  using only_call(2) [of harmless c E "sio s"] by (auto simp: server_call_def server_kept_def set_active_def split: prod.splits)

lemma server_kept_call_snd: "harmless c \<Longrightarrow> server_kept s (snd (server_call E c s))"
  using server_kept_call by (metis prod.collapse)

lemma server_kept_log: "server_kept s (on_sio (fmtLog E lvl tag str args) s)"
  by (simp add: on_sio_def server_kept_def)

lemma server_kept_inv: "server_kept s s' \<Longrightarrow> server_inv E strict out s \<Longrightarrow> server_inv E strict out s'"
  using calm_counts [of "sio s" "sio s'"] by (simp add: server_kept_def server_inv_def held_def)

text \<open>Listeners that return and leave the clients and their descriptors alone.\<close>

definition tame :: "(int \<times> bool, server) behaviour \<Rightarrow> bool" where
  "tame beh \<longleftrightarrow> (\<forall>f a s. \<exists>s'. beh f a s = Ret s' \<and> server_kept s s')"

lemma tame_invoke: "tame beh \<Longrightarrow> \<exists>s'. invoke beh a fs s = Ret s' \<and> server_kept s s'"
proof (induction fs arbitrary: s)
  case (Cons f fs)
  obtain s1 where 1: "beh f a s = Ret s1" "server_kept s s1" using Cons.prems unfolding tame_def by metis
  obtain s2 where "invoke beh a fs s1 = Ret s2" "server_kept s1 s2" using Cons by blast
  then show ?case using 1 server_kept_trans by (auto simp: call_def)
qed simp

lemma clients_ok_channel: "clients_ok cs \<Longrightarrow> map_of cs fd = Some c \<Longrightarrow> clientDescriptor c = fd \<and> idle_channel c"
  unfolding clients_ok_def using map_of_SomeD by fastforce

section \<open>Closing a client\<close>

lemma erase_client_keys: "fst ` set (clients (erase_client fd s)) = fst ` set (clients s) - {fd}"
  by (auto simp: erase_client_def)

lemma erase_clients_ok: "clients_ok (clients s) \<Longrightarrow> clients_ok (clients (erase_client fd s))"
  by (auto simp: clients_ok_def erase_client_def distinct_map_filter)

text \<open>
  The second half of \<open>closeClient\<close> shuts the descriptor down and closes it once, and nothing else.
\<close>

lemma finish_close_ok:
  assumes "idle_channel c" and "tame beh"
  obtains s' where "finish_close E beh fd c s = Some (Ret s')" "clients s' = clients s"
    "closed (made (sio s')) = closed (made (sio s)) @ [fd]" "accepts E [] (made (sio s')) = accepts E [] (made (sio s))"
    "active (sock s') \<longrightarrow> active (sock s)"
proof -
  define r where "r = (if event_empty (connectCallback (sock s)) then Ret s else invoke beh (fd, False) (connectCallback (sock s)) s)"
  obtain s1 where 1: "r = Ret s1" "server_kept s s1" using tame_invoke [OF assms(2)] unfolding r_def by (metis server_kept_refl)
  obtain r2 s2 where 2: "server_call E (Shutdown fd) s1 = (r2, s2)" by (metis prod.exhaust)
  obtain r3 s3 where 3: "server_call E (Close fd) s2 = (r3, s3)" by (metis prod.exhaust)
  let ?s4 = "on_sio (fmtLog E DEBUG_LEVEL SERVER_LOG_TAG ''Fully finished clearing client data from server memory.'' []) s3"
  have k2: "server_kept s s2" by (rule server_kept_trans [OF 1(2) server_kept_call [OF _ 2]]) simp
  have m3: "made (sio s3) = made (sio s2) @ [Close fd]" "clients s3 = clients s2" "active (sock s3) \<longrightarrow> active (sock s2)"
    using 3 by (auto simp: server_call_def sys_call_def Let_def set_active_def)
  have "idle_channel (chan (with_channel c ?s4))" using assms(1) by (simp add: with_channel_def)
  then obtain cs where d: "destroy_Channel E (with_channel c ?s4) = Some cs" "calm (sio ?s4) (io cs)" "sock_active cs = active (sock ?s4)"
    using destroy_Channel_kept by (metis chan_state.select_convs(2,3) with_channel_def)
  let ?s5 = "after_channel cs ?s4"
  have "server_kept s3 ?s5" using d(2,3)
    by (simp add: server_kept_def after_channel_def set_active_def on_sio_def) (use calm_trans [OF log_calm(1)] in blast)
  then have c5: "clients ?s5 = clients s" "closed (made (sio ?s5)) = closed (made (sio s3))" "accepts E [] (made (sio ?s5)) = accepts E [] (made (sio s3))"
    using calm_counts k2 m3(2) by (simp_all add: server_kept_def)
  have "closed (made (sio s2)) = closed (made (sio s))" "accepts E [] (made (sio s2)) = accepts E [] (made (sio s))"
    using k2 calm_counts [of "sio s" "sio s2"] by (simp_all add: server_kept_def)
  then have "closed (made (sio ?s5)) = closed (made (sio s)) @ [fd]" "accepts E [] (made (sio ?s5)) = accepts E [] (made (sio s))"
    using c5(2,3) m3(1) by (simp_all add: accepts_append)
  moreover have "finish_close E beh fd c s = Some (Ret ?s5)"
    using 1(1) 2 3 d(1) unfolding r_def by (simp add: finish_close_def Let_def)
  moreover have "active (sock ?s5) \<longrightarrow> active (sock s)" using k2 m3(3) d(3)
    by (simp add: server_kept_def after_channel_def set_active_def on_sio_def)
  ultimately show thesis using that c5(1) by blast
qed

lemma closeClient_ok:
  assumes "clients_ok (clients s)" and "tame beh" and "map_of (clients s) fd \<noteq> None"
  obtains s' where "closeClient E beh fd s = Some (Ret s')" "clients s' = clients (erase_client fd s)"
    "closed (made (sio s')) = closed (made (sio s)) @ [fd]" "accepts E [] (made (sio s')) = accepts E [] (made (sio s))"
    "active (sock s') \<longrightarrow> active (sock s)"
proof -
  obtain c where c: "map_of (clients s) fd = Some c" using assms(3) by auto
  have "idle_channel c" using clients_ok_channel [OF assms(1) c] by simp
  then obtain s' where "finish_close E beh fd c (erase_client fd s) = Some (Ret s')" "clients s' = clients (erase_client fd s)"
    "closed (made (sio s')) = closed (made (sio (erase_client fd s))) @ [fd]"
    "accepts E [] (made (sio s')) = accepts E [] (made (sio (erase_client fd s)))"
    "active (sock s') \<longrightarrow> active (sock (erase_client fd s))" by (rule finish_close_ok [OF _ assms(2)])
  then show thesis using that [of s'] c by (simp add: closeClient_def) (simp add: erase_client_def)
qed

lemma closeClient_unknown:
  assumes "map_of (clients s) fd = None"
  obtains e s' where "closeClient E beh fd s = Some (Throw e s')" "server_kept s s'"
proof -
  obtain e w where t: "fmtThrowError E runtime_error SERVER_LOG_TAG ''Client descriptor {} does not exist'' [FInt fd] (sio s) = (e, w)"
    by (metis prod.exhaust)
  then have "closeClient E beh fd s = Some (Throw e (s\<lparr>sio := w\<rparr>))" using assms by (simp add: closeClient_def no_client_def)
  then show thesis using that server_kept_sio [OF fmtThrow_calm [OF t]] by blast
qed

lemma count_list_snoc: "count_list (xs @ [x]) y = count_list xs y + (if x = y then 1 else 0)"
  by simp

lemma closeClient_inv:
  assumes "server_inv E strict out s" and "tame beh" and "map_of (clients s) fd \<noteq> None" and "closeClient E beh fd s = Some (Ret s')"
  shows "server_inv E strict out s'" and "clients s' = clients (erase_client fd s)" and "closed (made (sio s')) = closed (made (sio s)) @ [fd]"
    and "active (sock s') \<longrightarrow> active (sock s)"
proof -
  have ok: "clients_ok (clients s)" using assms(1) by (simp add: server_inv_def)
  have s': "clients s' = clients (erase_client fd s)" "closed (made (sio s')) = closed (made (sio s)) @ [fd]"
    "accepts E [] (made (sio s')) = accepts E [] (made (sio s))" "active (sock s') \<longrightarrow> active (sock s)"
    by (rule closeClient_ok [OF ok assms(2,3), of E]; use assms(4) in simp)+
  have "fd \<in> fst ` set (clients s)" using assms(3) by (metis map_of_eq_None_iff)
  then have "held s' d + (if fd = d then 1 else 0) = held s d" for d
    using s'(1) erase_client_keys [of fd s] by (auto simp: held_def)
  then have "count_list (closed (made (sio s'))) d + held s' d = count_list (closed (made (sio s))) d + held s d" for d
    unfolding s'(2) count_list_snoc by (metis add.assoc add.commute)
  moreover have "count_list (closed (made (sio s))) d \<le> count_list (closed (made (sio s'))) d" for d unfolding s'(2) by simp
  ultimately show "server_inv E strict out s'" using assms(1) s'(1,3) erase_clients_ok [OF ok]
    by (auto simp: server_inv_def intro: order_trans)
  show "clients s' = clients (erase_client fd s)" "closed (made (sio s')) = closed (made (sio s)) @ [fd]"
    "active (sock s') \<longrightarrow> active (sock s)" using s' by simp_all
qed

text \<open>The two halves on their own: in between the descriptor is on its way out.\<close>

lemma erase_inv:
  assumes "server_inv E strict out s" and "map_of (clients s) fd = Some c"
  shows "server_inv E strict (fd # out) (erase_client fd s)"
proof -
  have ok: "clients_ok (clients s)" using assms(1) by (simp add: server_inv_def)
  have "fd \<in> fst ` set (clients s)" using assms(2) by (metis map_of_eq_None_iff option.distinct(1))
  then have "held (erase_client fd s) d + count_list (fd # out) d = held s d + count_list out d" for d
    using erase_client_keys [of fd s] by (auto simp: held_def)
  moreover have "sio (erase_client fd s) = sio s" by (simp add: erase_client_def)
  ultimately show ?thesis using assms(1) erase_clients_ok [OF ok] by (simp add: server_inv_def add.assoc)
qed

lemma count_list_remove1: "x \<in> set xs \<Longrightarrow> count_list xs y = count_list (remove1 x xs) y + (if x = y then 1 else 0)"
  by (induction xs) auto

lemma finish_inv:
  assumes "server_inv E strict out s" and "fd \<in> set out" and "idle_channel c" and "tame beh" and "finish_close E beh fd c s = Some (Ret s')"
  shows "server_inv E strict (remove1 fd out) s'"
proof -
  have s': "clients s' = clients s" "closed (made (sio s')) = closed (made (sio s)) @ [fd]"
    "accepts E [] (made (sio s')) = accepts E [] (made (sio s))"
    by (rule finish_close_ok [OF assms(3,4), of E fd s]; use assms(5) in simp)+
  have "held s' = held s" using s'(1) by (simp add: held_def fun_eq_iff)
  then have "count_list (closed (made (sio s'))) d + held s' d + count_list (remove1 fd out) d
      = count_list (closed (made (sio s))) d + held s d + count_list out d" for d
    unfolding s'(2) count_list_snoc count_list_remove1 [OF assms(2), of d] by simp
  moreover have "count_list (closed (made (sio s))) d \<le> count_list (closed (made (sio s'))) d" for d unfolding s'(2) by simp
  ultimately show ?thesis using assms(1) s'(1,3) by (auto simp: server_inv_def intro: order_trans)
qed

section \<open>The loops\<close>

lemma erase_other: "d \<noteq> fd \<Longrightarrow> map_of (clients (erase_client fd s)) d = map_of (clients s) d"
proof -
  have "d \<noteq> fd \<Longrightarrow> map_of (filter (\<lambda>(e, c). e \<noteq> fd) cs) d = map_of cs d" for cs :: "(int \<times> channel) list"
    by (induction cs) auto
  then show "d \<noteq> fd \<Longrightarrow> ?thesis" by (simp add: erase_client_def)
qed

lemma erase_filter: "filter (\<lambda>(d, c). d \<notin> set ds) (clients (erase_client fd s)) = filter (\<lambda>(d, c). d \<notin> set (fd # ds)) (clients s)"
  unfolding erase_client_def by (auto intro: filter_cong)

text \<open>
  The destructor closes each client it visits exactly once.
\<close>

lemma close_all_ok:
  assumes "tame beh"
  shows "server_inv E strict out s \<Longrightarrow> distinct order \<Longrightarrow> set order \<subseteq> fst ` set (clients s) \<Longrightarrow>
    \<exists>s'. close_all E beh order s = Some (Ret s') \<and> server_inv E strict out s' \<and> clients s' = filter (\<lambda>(d, c). d \<notin> set order) (clients s)
      \<and> closed (made (sio s')) = closed (made (sio s)) @ order"
proof (induction order arbitrary: s)
  case (Cons fd order)
  have some: "map_of (clients s) fd \<noteq> None" using Cons.prems(3) by (simp add: map_of_eq_None_iff)
  have ok: "clients_ok (clients s)" using Cons.prems(1) by (simp add: server_inv_def)
  obtain s1 where c: "closeClient E beh fd s = Some (Ret s1)" using closeClient_ok [OF ok assms some] by metis
  note c1 = closeClient_inv [OF Cons.prems(1) assms some c]
  have "set order \<subseteq> fst ` set (clients s1)" using Cons.prems(2,3) erase_client_keys [of fd s] c1(2) by auto
  then obtain s2 where 2: "close_all E beh order s1 = Some (Ret s2)" "server_inv E strict out s2"
    "clients s2 = filter (\<lambda>(d, c). d \<notin> set order) (clients s1)" "closed (made (sio s2)) = closed (made (sio s1)) @ order"
    using Cons.IH [OF c1(1)] Cons.prems(2) by auto
  have "clients s2 = filter (\<lambda>(d, c). d \<notin> set (fd # order)) (clients s)"
    unfolding 2(3) c1(2) by (rule erase_filter)
  then show ?case using 2 c c1(3) some by (auto split: option.split)
qed simp

text \<open>
  \<open>threadLoop\<close> closes the clients whose channel has become inactive; when the server is still active afterwards, only
  those.
\<close>

lemma threadLoop_ok:
  assumes "tame beh"
  shows "server_inv E strict out s \<Longrightarrow> distinct order \<Longrightarrow> set order \<subseteq> fst ` set (clients s) \<Longrightarrow>
    \<exists>s'. threadLoop E beh order s = Some (Ret s') \<and> server_inv E strict out s' \<and> (active (sock s') \<longrightarrow> active (sock s))
      \<and> (\<exists>gone. clients s' = filter (\<lambda>(d, c). d \<notin> set gone) (clients s) \<and> closed (made (sio s')) = closed (made (sio s)) @ gone
         \<and> distinct gone \<and> set gone \<subseteq> set order
         \<and> (\<forall>(d, c)\<in>set (clients s). d \<in> set order \<longrightarrow> (\<not> channel_active c \<longrightarrow> d \<in> set gone) \<and> (active (sock s') \<and> d \<in> set gone \<longrightarrow> \<not> channel_active c)))"
proof (induction order arbitrary: s)
  case Nil
  then show ?case by (intro exI [of _ s] conjI exI [of _ "[]"]) simp_all
next
  case (Cons fd order)
  have some: "map_of (clients s) fd \<noteq> None" using Cons.prems(3) by (simp add: map_of_eq_None_iff)
  then obtain c where c: "map_of (clients s) fd = Some c" by auto
  have ok: "clients_ok (clients s)" using Cons.prems(1) by (simp add: server_inv_def)
  then have uniq: "c' = c" if "(fd, c') \<in> set (clients s)" for c'
    using that c by (simp add: clients_ok_def map_of_is_SomeI)
  note fdc = clients_ok_channel [OF ok c]
  show ?case
  proof (cases "isActive (with_channel c s)")
    case True
    then have act: "channel_active c" by (simp add: isActive_def with_channel_def)
    obtain s' gone where s': "threadLoop E beh order s = Some (Ret s')" "server_inv E strict out s'" "active (sock s') \<longrightarrow> active (sock s)"
      "clients s' = filter (\<lambda>(d, c). d \<notin> set gone) (clients s)" "closed (made (sio s')) = closed (made (sio s)) @ gone"
      "distinct gone" "set gone \<subseteq> set order"
      "\<forall>(d, c)\<in>set (clients s). d \<in> set order \<longrightarrow> (\<not> channel_active c \<longrightarrow> d \<in> set gone) \<and> (active (sock s') \<and> d \<in> set gone \<longrightarrow> \<not> channel_active c)"
      using Cons.IH [OF Cons.prems(1)] Cons.prems(2,3) by auto
    have "threadLoop E beh (fd # order) s = Some (Ret s')" using s'(1) c True by simp
    moreover have "fd \<notin> set gone" using s'(7) Cons.prems(2) by auto
    then have "\<forall>(d, c)\<in>set (clients s). d \<in> set (fd # order) \<longrightarrow> (\<not> channel_active c \<longrightarrow> d \<in> set gone) \<and> (active (sock s') \<and> d \<in> set gone \<longrightarrow> \<not> channel_active c)"
      using s'(8) uniq act by fastforce
    ultimately show ?thesis using s'(2-7) by (intro exI [of _ s'] conjI exI [of _ gone]) auto
  next
    case False
    obtain s1 where cl: "closeClient E beh fd s = Some (Ret s1)" using closeClient_ok [OF ok assms some] by metis
    note c1 = closeClient_inv [OF Cons.prems(1) assms some cl]
    have sub: "set order \<subseteq> fst ` set (clients s1)" using Cons.prems(2,3) erase_client_keys [of fd s] c1(2) by auto
    obtain s' gone where s': "threadLoop E beh order s1 = Some (Ret s')" "server_inv E strict out s'" "active (sock s') \<longrightarrow> active (sock s1)"
      "clients s' = filter (\<lambda>(d, c). d \<notin> set gone) (clients s1)" "closed (made (sio s')) = closed (made (sio s1)) @ gone"
      "distinct gone" "set gone \<subseteq> set order"
      "\<forall>(d, c)\<in>set (clients s1). d \<in> set order \<longrightarrow> (\<not> channel_active c \<longrightarrow> d \<in> set gone) \<and> (active (sock s') \<and> d \<in> set gone \<longrightarrow> \<not> channel_active c)"
      using Cons.IH [OF c1(1) _ sub] Cons.prems(2) by auto
    have "threadLoop E beh (fd # order) s = Some (Ret s')" using s'(1) c False cl fdc by simp
    moreover have "clients s' = filter (\<lambda>(d, c). d \<notin> set (fd # gone)) (clients s)"
      unfolding s'(4) c1(2) by (rule erase_filter)
    moreover have "active (sock s') \<longrightarrow> active (sock s)" using s'(3) c1(4) by blast
    moreover have "\<not> channel_active c \<or> \<not> active (sock s)" using False by (simp add: isActive_def with_channel_def)
    moreover have "fd \<notin> set gone" "distinct (fd # gone)" "set (fd # gone) \<subseteq> set (fd # order)" using s'(6,7) Cons.prems(2) by auto
    moreover have "(d, c') \<in> set (clients s1)" if "(d, c') \<in> set (clients s)" "d \<noteq> fd" for d c'
      using that c1(2) by (auto simp: erase_client_def)
    then have "\<forall>(d, c)\<in>set (clients s). d \<in> set (fd # order) \<longrightarrow> (\<not> channel_active c \<longrightarrow> d \<in> set (fd # gone)) \<and> (active (sock s') \<and> d \<in> set (fd # gone) \<longrightarrow> \<not> channel_active c)"
      using s'(8) uniq calculation(3,4) by fastforce
    ultimately show ?thesis using s'(2,5) c1(3) by (intro exI [of _ s'] conjI exI [of _ "fd # gone"]) auto
  qed
qed

section \<open>Channels in the map\<close>

lemma put_channel_ok:
  assumes "clients_ok (clients s)" and "map_of (clients s) fd = Some c" and "kept (with_channel c s) cs"
  shows "clients_ok (clients (put_channel fd cs s))" and "fst ` set (clients (put_channel fd cs s)) = fst ` set (clients s)"
    and "calm (sio s) (sio (put_channel fd cs s))" and "active (sock (put_channel fd cs s)) \<longrightarrow> active (sock s)"
proof -
  note c = clients_ok_channel [OF assms(1,2)]
  have k: "clientDescriptor (chan cs) = fd" "idle_channel (chan cs)" "calm (sio s) (io cs)" "sock_active cs \<longrightarrow> active (sock s)"
    using assms(3) c by (simp_all add: kept_def with_channel_def)
  have "map fst (map (\<lambda>(d, c). if d = fd then (d, chan cs) else (d, c)) xs) = map fst xs" for xs :: "(int \<times> channel) list"
    by (induction xs) auto
  then have m: "map fst (clients (put_channel fd cs s)) = map fst (clients s)" by (simp add: put_channel_def)
  show "clients_ok (clients (put_channel fd cs s))"
  proof -
    have "distinct (map fst (clients (put_channel fd cs s)))" using assms(1) m by (simp add: clients_ok_def)
    then show ?thesis using assms(1) k(1,2) unfolding clients_ok_def by (auto simp: put_channel_def split: if_splits)
  qed
  show "fst ` set (clients (put_channel fd cs s)) = fst ` set (clients s)" using m by (metis set_map)
  show "calm (sio s) (sio (put_channel fd cs s))" "active (sock (put_channel fd cs s)) \<longrightarrow> active (sock s)"
    using k(3,4) by (simp_all add: put_channel_def after_channel_def set_active_def)
qed

lemma put_channel_inv:
  assumes "server_inv E strict out s" and "map_of (clients s) fd = Some c" and "kept (with_channel c s) cs"
  shows "server_inv E strict out (put_channel fd cs s)"
proof -
  have ok: "clients_ok (clients s)" using assms(1) by (simp add: server_inv_def)
  note p = put_channel_ok [OF ok assms(2,3)]
  have "held (put_channel fd cs s) = held s" using p(2) by (simp add: held_def fun_eq_iff)
  then show ?thesis using assms(1) p(1) calm_counts [OF p(3)] by (simp add: server_inv_def)
qed

lemma channel_round_inv:
  assumes "\<And>cs b cs'. f cs = Some (Ret (b, cs')) \<Longrightarrow> kept cs cs'"
  shows "server_inv E strict out s \<Longrightarrow> channel_round f order found s = Some (Ret (b, s')) \<Longrightarrow> server_inv E strict out s'"
proof (induction order arbitrary: found s)
  case (Cons fd order)
  then obtain c where c: "map_of (clients s) fd = Some c" by (auto split: option.splits)
  show ?case
  proof (cases "isActive (with_channel c s)")
    case True
    then obtain b' cs where r: "f (with_channel c s) = Some (Ret (b', cs))" "channel_round f order (found \<or> b') (put_channel fd cs s) = Some (Ret (b, s'))"
      using Cons.prems(2) c by (auto split: option.splits outcome.splits)
    have "kept (with_channel c s) cs" using assms [OF r(1)] by auto
    from put_channel_inv [OF Cons.prems(1) c this] show ?thesis using Cons.IH r(2) by blast
  next
    case False
    then show ?thesis using Cons.prems Cons.IH c by simp
  qed
qed simp

lemma rest_after_inv:
  assumes "\<And>b t. r = Ret (b, t) \<Longrightarrow> server_inv E strict out t" and "rest_after E n r = Ret s'"
  shows "server_inv E strict out s'"
proof -
  obtain b t where r: "r = Ret (b, t)" using assms(2) by (auto simp: rest_after_def split: outcome.splits)
  then have "s' = t \<or> s' = snd (server_call E (Sleep n) t)" using assms(2) by (auto simp: rest_after_def split: if_splits)
  then show ?thesis using assms(1) [OF r] server_kept_inv server_kept_call_snd [of "Sleep n" t E] by auto
qed

section \<open>Construction and binding\<close>

lemma harmless_setup [simp]:
  "harmless (GetAddrInfo h p)" "harmless (FreeAddrInfo l)" "harmless (NewSocket a b c)" "harmless (FcntlGet fd)" "harmless (FcntlSetNonblock fd)"
  "harmless (SetSockOpt fd a b)" "harmless (Bind fd n)" "harmless (Listen fd m)" "harmless (GetPeerName fd)" "harmless (GetNameInfo n)"
  by (simp_all add: harmless_def)

text \<open>The constructor of the base makes these calls only.\<close>

definition setup_call :: "sys \<Rightarrow> bool" where
  "setup_call c = (case c of Sleep n \<Rightarrow> True | GetAddrInfo h p \<Rightarrow> True | FreeAddrInfo l \<Rightarrow> True | NewSocket f t p \<Rightarrow> True
     | FcntlGet fd \<Rightarrow> True | FcntlSetNonblock fd \<Rightarrow> True | _ \<Rightarrow> False)"

lemma setup_call_simps [simp]:
  "setup_call (Sleep n)" "setup_call (GetAddrInfo h p)" "setup_call (FreeAddrInfo l)" "setup_call (NewSocket f t q)"
  "setup_call (FcntlGet fd)" "setup_call (FcntlSetNonblock fd)"
  by (simp_all add: setup_call_def)

abbreviation making :: "world \<Rightarrow> world \<Rightarrow> bool" where
  "making \<equiv> only setup_call"

lemmas log_setup [simp] = log_only [of setup_call, OF setup_call_simps(1)]
lemmas throw_setup = throw_only [of setup_call, OF setup_call_simps(1)]
lemmas fmtThrow_setup = fmtThrow_only [of setup_call, OF setup_call_simps(1)]
lemmas setup_trans = only_trans [of setup_call]

lemma logIfError_setup: "making w (logIfError E b lvl st tag msg w)"
  by (simp add: logIfError_def)

lemma logIfError_calm: "calm w (logIfError E b lvl st tag msg w)"
  by (simp add: logIfError_def)

lemma resolveEndpoint_setup: "resolveEndpoint E g loc p w = (x, w') \<Longrightarrow> making w w'"
proof -
  assume a: "resolveEndpoint E g loc p w = (x, w')"
  obtain r w1 where c: "sys_call E (GetAddrInfo loc p) w = (r, w1)" by (metis prod.exhaust)
  have 1: "making w w1" by (rule only_call(2) [OF _ c]) simp
  have "making w1 (do_call E (FreeAddrInfo g) (fmtLog E lvl tag str args w1))" for lvl tag str args
    by (rule setup_trans [OF log_setup(1) only_call(1)]) simp
  then show ?thesis using a c 1 setup_trans by (auto simp: resolveEndpoint_def split: if_splits)
qed

lemma checked_call_setup: "setup_call c \<Longrightarrow> checked_call E c tag w = (x, w') \<Longrightarrow> making w w'"
  unfolding checked_call_def by (auto split: prod.splits intro: setup_trans [OF only_call(2) throw_setup])

lemma throwIfNull_setup: "throwIfNull E st tag w = (x, w') \<Longrightarrow> making w w'"
  by (auto simp: throwIfNull_def split: if_splits prod.splits intro: fmtThrow_setup)

lemma make_socket_setup: "make_socket E serv ps d w = (x, w') \<Longrightarrow> making w w'"
proof (induction ps arbitrary: d w)
  case (Cons p ps)
  let ?w = "writeLog E DEBUG_LEVEL SOCKET_LOG_TAG ''creating socket'' w"
  obtain r w1 where c: "sys_call E (NewSocket (ai_family p) (ai_socktype p) (ai_protocol p)) ?w = (r, w1)" by (metis prod.exhaust)
  have 1: "making w w1" by (rule setup_trans [OF log_setup(2) only_call(2) [OF _ c]]) simp
  show ?case
  proof (cases "ret r = -1")
    case True
    have "make_socket E serv ps (-1) (logIfError E False ERROR (-1) ''creating socket'' SOCKET_LOG_TAG w1) = (x, w')"
      using Cons.prems c True by (simp add: Let_def)
    then have "making w1 w'" by (rule setup_trans [OF logIfError_setup Cons.IH])
    then show ?thesis using 1 setup_trans by blast
  next
    case False
    obtain y w2 where 2: "checked_call E (FcntlSetNonblock (ret r)) SOCKET_LOG_TAG (do_call E (FcntlGet (ret r)) w1) = (y, w2)"
      by (metis prod.exhaust)
    have "making w1 w2" by (rule setup_trans [OF only_call(1) checked_call_setup [OF _ 2]]) simp_all
    moreover have "w' = w2" using Cons.prems c False 2 by (auto simp: Let_def split: sum.splits)
    ultimately show ?thesis using 1 setup_trans by blast
  qed
qed simp

lemma Socket_setup: "Socket E g sid addr prt w = (x, w') \<Longrightarrow> making w w'"
  unfolding Socket_def
  by (auto split: prod.splits sum.splits intro: resolveEndpoint_setup throwIfNull_setup
      setup_trans [OF resolveEndpoint_setup throwIfNull_setup]
      setup_trans [OF setup_trans [OF resolveEndpoint_setup throwIfNull_setup] make_socket_setup]
      setup_trans [OF setup_trans [OF setup_trans [OF resolveEndpoint_setup throwIfNull_setup] make_socket_setup] throwIfNull_setup])

lemma Socket_calm: "Socket E g sid addr prt w = (x, w') \<Longrightarrow> calm w w'"
  by (rule only_mono [OF Socket_setup]) (auto simp: setup_call_def harmless_def split: sys.splits)

lemma ServerSocket_inv:
  assumes "made w = []" and "ServerSocket E g sid prt w = (Inr s, w')"
  shows "server_inv E strict [] s"
proof -
  obtain k where k: "Socket E g sid None prt w = (Inr k, w')" "clients s = []" "sio s = w'"
    using assms(2) by (auto simp: ServerSocket_def split: prod.splits sum.splits)
  have "accepts E [] (made w') = [] \<and> closed (made w') = []" using calm_counts [OF Socket_calm [OF k(1)], of E] assms(1) by simp
  then show ?thesis using k(2,3) by (simp add: server_inv_def clients_ok_def held_def)
qed

text \<open>Binding leaves the clients alone and neither accepts nor closes.\<close>

definition same_clients :: "server \<Rightarrow> server \<Rightarrow> bool" where
  "same_clients s s' \<longleftrightarrow> clients s' = clients s \<and> calm (sio s) (sio s')"

lemma same_clients_trans: "same_clients s s' \<Longrightarrow> same_clients s' s'' \<Longrightarrow> same_clients s s''"
  unfolding same_clients_def using calm_trans by metis

lemma same_clients_inv: "same_clients s s' \<Longrightarrow> server_inv E strict out s \<Longrightarrow> server_inv E strict out s'"
  using calm_counts [of "sio s" "sio s'"] by (simp add: same_clients_def server_inv_def held_def)

lemma server_kept_same: "server_kept s s' \<Longrightarrow> same_clients s s'"
  by (simp add: server_kept_def same_clients_def)

lemma server_try_same: "harmless c \<Longrightarrow> server_try E c s = (x, s') \<Longrightarrow> same_clients s s'"
proof -
  assume c: "harmless c" and t: "server_try E c s = (x, s')"
  obtain r s1 where 1: "server_call E c s = (r, s1)" by (metis prod.exhaust)
  obtain w where w: "throwIfError E False (ret r) SERVER_LOG_TAG (sio s1) = (x, w)" "s' = s1\<lparr>sio := w\<rparr>"
    using t 1 by (auto simp: server_try_def split: prod.splits)
  show ?thesis
    using server_kept_same [OF server_kept_trans [OF server_kept_call [OF c 1] server_kept_sio [OF throw_calm [OF w(1)]]]] w(2) by simp
qed

lemma server_tries_same: "\<forall>c\<in>set cs. harmless c \<Longrightarrow> server_tries E cs s = (x, s') \<Longrightarrow> same_clients s s'"
proof (induction cs arbitrary: s)
  case (Cons c cs)
  obtain y s1 where 1: "server_try E c s = (y, s1)" by (metis prod.exhaust)
  have "same_clients s s1" using server_try_same [OF _ 1] Cons.prems(1) by simp
  then show ?case using Cons 1 same_clients_trans by (fastforce split: sum.splits)
qed (simp add: same_clients_def)

lemma spawn_same: "same_clients s (spawn E name s)"
proof -
  have "server_kept s (spawn E name s)" unfolding spawn_def server_kept_threads by (rule server_kept_call_snd) simp
  then show ?thesis by (rule server_kept_same)
qed

lemma spawns_same: "same_clients s (((\<lambda>s. spawn E a (spawn E b s)) ^^ n) s)"
proof (induction n)
  case (Suc n)
  then show ?case using same_clients_trans [OF same_clients_trans [OF Suc spawn_same] spawn_same] by simp
qed (simp add: same_clients_def)

lemma set_active_sel [simp]:
  "socketDescriptor (sock (set_active b s)) = socketDescriptor (sock s)" "noDelay (sock (set_active b s)) = noDelay (sock s)"
  "servInfo (sock (set_active b s)) = servInfo (sock s)" "active (sock (set_active b s)) = b"
  "clients (set_active b s) = clients s" "sio (set_active b s) = sio s"
  by (simp_all add: set_active_def)

text \<open>The calls of \<open>bindAndListen\<close> up to the start of the connection thread, and the rest.\<close>

definition bind_calls :: "server \<Rightarrow> sys list" where
  "bind_calls s = (let fd = socketDescriptor (sock s) in
     [SetSockOpt fd SOL_SOCKET (or (or SO_REUSEADDR SO_REUSEPORT) SO_KEEPALIVE)]
     @ (if noDelay (sock s) then [SetSockOpt fd IPPROTO_TCP TCP_NODELAY] else [])
     @ [Bind fd (ai_addr (hd (servInfo (sock s))))])"

lemma bindAndListen_eq:
  assumes "\<not> active (sock s)" and "server_tries E (bind_calls s) (set_active True s) = (y, s1)"
    and "server_try E (Listen (socketDescriptor (sock s)) SOCKET_SERVER_BACKLOG) (spawn E ''connectionListenLoop'' s1) = (z, s2)"
  shows "bindAndListen E s = (case y of Inl e \<Rightarrow> Throw e s1 | Inr _ \<Rightarrow>
     if ''connectionListenLoop'' \<in> set (threads s1) then Terminate (spawn E ''connectionListenLoop'' s1)
     else (case z of Inl e \<Rightarrow> Throw e s2
       | Inr _ \<Rightarrow> Ret (((\<lambda>s. spawn E ''writeLoop'' (spawn E ''readLoop'' s)) ^^ unat (max (workerThreadCount s2) 1)) s2)))"
  using assms(2) unfolding bindAndListen_def Let_def set_active_sel bind_calls_def
  by (simp add: assms(1,3) del: server_tries.simps split: sum.split)

lemma bindAndListen_same:
  assumes "bindAndListen E s = r" and "r = Ret s' \<or> r = Throw e s'"
  shows "same_clients s s'"
proof (cases "active (sock s)")
  case True
  then show ?thesis using assms fmtThrow_calm by (auto simp: bindAndListen_def same_clients_def split: prod.splits)
next
  case False
  let ?s = "set_active True s" and ?fd = "socketDescriptor (sock s)"
  obtain y s1 where 1: "server_tries E (bind_calls s) ?s = (y, s1)" by (metis prod.exhaust)
  have "same_clients s ?s" by (simp add: same_clients_def)
  moreover have "same_clients ?s s1" by (rule server_tries_same [OF _ 1]) (simp add: bind_calls_def Let_def)
  ultimately have s1: "same_clients s s1" by (rule same_clients_trans)
  obtain z s2 where 2: "server_try E (Listen ?fd SOCKET_SERVER_BACKLOG) (spawn E ''connectionListenLoop'' s1) = (z, s2)" by (metis prod.exhaust)
  have s2: "same_clients s s2" by (rule same_clients_trans [OF same_clients_trans [OF s1 spawn_same] server_try_same [OF _ 2]]) simp
  show ?thesis using assms s1 s2 same_clients_trans [OF s2 spawns_same] unfolding bindAndListen_eq [OF False 1 2]
    by (auto split: sum.splits if_splits)
qed

section \<open>Accepting\<close>

text \<open>\<open>fd\<close> has been accepted and nobody has got it yet.\<close>

lemma onConnectedClient_inv:
  assumes "server_inv E strict (fd # out) s" and "onConnectedClient E fd s = Some (Ret s')"
  shows "server_inv E strict out s'"
proof -
  note inv = assms(1) [unfolded server_inv_def]
  have "count_list (closed (made (sio s))) fd + held s fd + count_list (fd # out) fd \<le> count_list (closed (made (sio s))) fd + 1"
    using inv by (metis order_trans)
  then have "held s fd = 0" by simp
  then have new: "fd \<notin> fst ` set (clients s)" by (simp add: held_def split: if_splits)
  then have none: "map_of (clients s) fd = None" by (simp add: map_of_eq_None_iff)
  obtain c where c: "Channel E (socket_id (sock s)) fd = Inr c" using assms(2) by (auto simp: onConnectedClient_def split: sum.splits)
  then have ch: "clientDescriptor c = fd" "idle_channel c" by (auto simp: Channel_def idle_channel_def split: if_splits prod.splits)
  let ?s = "s\<lparr>clients := (fd, c) # clients s, generation := (generation s)(fd := generation s fd + 1)\<rparr>"
  have "held ?s d + count_list out d = held s d + count_list (fd # out) d" for d using new by (auto simp: held_def)
  then have "server_inv E strict out ?s" using inv ch new by (simp add: server_inv_def clients_ok_def add.assoc)
  moreover have "s' = ?s \<or> (\<exists>x. s' = (snd (server_call E (Spawn ''connectCallback'') ?s))\<lparr>starting := x\<rparr>)"
    using assms(2) c none by (auto simp: onConnectedClient_def split: if_splits)
  moreover have "server_kept ?s ((snd (server_call E (Spawn ''connectCallback'') ?s))\<lparr>starting := x\<rparr>)" for x
    unfolding server_kept_threads by (rule server_kept_call_snd) simp
  ultimately show ?thesis using server_kept_inv by blast
qed

lemma accept_inv:
  assumes "server_inv E strict out s" and "accept_fresh E" and "server_call E (Accept l) s = (r, s')"
  shows "server_inv E False out s'" and "ret r < 0 \<Longrightarrow> server_inv E strict out s'" and "ret r \<ge> 0 \<Longrightarrow> server_inv E strict (ret r # out) s'"
proof -
  have r: "r = os E (made (sio s)) (Accept l)" "made (sio s') = made (sio s) @ [Accept l]" "clients s' = clients s"
    using assms(3) by (auto simp: server_call_def sys_call_def Let_def set_active_def)
  have a: "accepts E [] (made (sio s')) = accepts E [] (made (sio s)) @ (if ret r \<ge> 0 then [ret r] else [])"
    and c: "closed (made (sio s')) = closed (made (sio s))" and h: "held s' = held s"
    using r by (auto simp: accepts_append held_def fun_eq_iff)
  note inv = assms(1) [unfolded server_inv_def]
  have "count_list (accepts E [] (made (sio s))) (ret r) \<le> count_list (closed (made (sio s))) (ret r)" if "ret r \<ge> 0"
    using assms(2) that r(1) by (simp add: accept_fresh_def)
  then have once: "count_list (accepts E [] (made (sio s'))) d \<le> count_list (closed (made (sio s'))) d + 1" for d
    using inv unfolding a c by (cases "d = ret r") simp_all
  show "server_inv E False out s'" using inv a c h r(3) once by (auto simp: server_inv_def intro: le_SucI)
  show "server_inv E strict out s'" if "ret r < 0" using inv a c h r(3) that by (simp add: server_inv_def)
  show "server_inv E strict (ret r # out) s'" if "ret r \<ge> 0"
  proof -
    have "count_list (accepts E [] (made (sio s'))) d = count_list (accepts E [] (made (sio s))) d + (if d = ret r then 1 else 0)" for d
      using a that by simp
    then show ?thesis using inv c h r(3) once by (simp add: server_inv_def)
  qed
qed

lemma after_accept_kept:
  assumes "after_accept E r s = (x, s')"
  shows "server_kept s s'" and "x = Inl True \<Longrightarrow> ret r < 0" and "x = Inr fd \<Longrightarrow> fd = ret r \<and> ret r \<ge> 0"
proof -
  have "server_kept s (on_sio (logIfError E False ERROR (ret r) ''Failed to accept client'' SERVER_LOG_TAG) s)"
    using logIfError_calm by (simp add: server_kept_def on_sio_def)
  then show "server_kept s s'" using assms server_kept_call_snd [of "Sleep 50000" s E]
    by (auto simp: after_accept_def Let_def split: if_splits)
  show "x = Inl True \<Longrightarrow> ret r < 0" "x = Inr fd \<Longrightarrow> fd = ret r \<and> ret r \<ge> 0"
    using assms by (auto simp: after_accept_def Let_def split: if_splits)
qed

section \<open>Runs of a server\<close>

text \<open>
  Where the connection thread is: at the head of its loop, in \<open>threadLoop\<close> with the entries still to visit, about to call
  \<open>closeClient\<close> or between its two halves, with a client it has accepted, or at its end.
\<close>

datatype loop_pc = Head | Visiting "int list" | Closing int "int list" | Finishing int channel "int list" | Accepted int | Ended

text \<open>
  All interleavings of the threads of a server, of the callers of its public operations and of its detached threads.  A step is
  what happens under the mutex of the map of clients at once, a visit of one entry by \<open>threadLoop\<close>, which does
  not hold the mutex, or one of the two halves of \<open>closeClient\<close>; \<open>cl\<close> are the channels other threads than the connection
  thread have taken out of the map and not yet finished closing.  An exception of a call goes to the caller; one that leaves a thread
  ends the process.  An entry that has gone before \<open>threadLoop\<close> gets to it is skipped; had the iterator already pointed to it, the
  behaviour would be undefined.
\<close>

inductive server_steps ::
  "env \<Rightarrow> (int \<times> bool, server) behaviour \<Rightarrow> (unit, chan_state) behaviour \<Rightarrow> loop_pc \<Rightarrow> (int \<times> channel) list \<Rightarrow> server \<Rightarrow> bool"
  for E beh listen where
  new: "made w = [] \<Longrightarrow> ServerSocket E g sid prt w = (Inr s, w') \<Longrightarrow> server_steps E beh listen Head [] s"
| bind: "server_steps E beh listen p cl s \<Longrightarrow> bindAndListen E s = r \<Longrightarrow> r = Ret s' \<or> r = Throw e s' \<Longrightarrow> server_steps E beh listen p cl s'"
| reading: "server_steps E beh listen p cl s \<Longrightarrow> read_round E listen order s = Some (Ret s') \<Longrightarrow> server_steps E beh listen p cl s'"
| writing: "server_steps E beh listen p cl s \<Longrightarrow> write_round E order s = Some (Ret s') \<Longrightarrow> server_steps E beh listen p cl s'"
| send: "server_steps E beh listen p cl s \<Longrightarrow> server_write E tid th fd msg s = Some r \<Longrightarrow> r = Ret s' \<or> r = Throw e s' \<Longrightarrow>
    server_steps E beh listen p cl s'"
| peer: "server_steps E beh listen p cl s \<Longrightarrow> getPeerAddress E fd s = (x, s') \<Longrightarrow> server_steps E beh listen p cl s'"
| listener: "server_steps E beh listen p cl s \<Longrightarrow> run_connect beh ptr s = Some (Ret s') \<Longrightarrow> server_steps E beh listen p cl s'"
| stop: "server_steps E beh listen p cl s \<Longrightarrow> server_steps E beh listen p cl (s\<lparr>sock := notifyStop (sock s)\<rparr>)"
| close_begin: "server_steps E beh listen p cl s \<Longrightarrow> map_of (clients s) fd = Some c \<Longrightarrow>
    server_steps E beh listen p ((fd, c) # cl) (erase_client fd s)"
| close_end: "server_steps E beh listen p cl s \<Longrightarrow> (fd, c) \<in> set cl \<Longrightarrow> finish_close E beh fd c s = Some (Ret s') \<Longrightarrow>
    server_steps E beh listen p (remove1 (fd, c) cl) s'"
| close_unknown: "server_steps E beh listen p cl s \<Longrightarrow> map_of (clients s) fd = None \<Longrightarrow> closeClient E beh fd s = Some (Throw e s') \<Longrightarrow>
    server_steps E beh listen p cl s'"
| loop_begin: "server_steps E beh listen Head cl s \<Longrightarrow> active (sock s) \<Longrightarrow> distinct order \<Longrightarrow> set order = fst ` set (clients s) \<Longrightarrow>
    server_steps E beh listen (Visiting order) cl s"
| loop_end: "server_steps E beh listen Head cl s \<Longrightarrow> \<not> active (sock s) \<Longrightarrow> server_steps E beh listen Ended cl s"
| visit_gone: "server_steps E beh listen (Visiting (fd # order)) cl s \<Longrightarrow> map_of (clients s) fd = None \<Longrightarrow>
    server_steps E beh listen (Visiting order) cl s"
| visit_active: "server_steps E beh listen (Visiting (fd # order)) cl s \<Longrightarrow> map_of (clients s) fd = Some c \<Longrightarrow>
    isActive (with_channel c s) \<Longrightarrow> server_steps E beh listen (Visiting order) cl s"
| visit_inactive: "server_steps E beh listen (Visiting (fd # order)) cl s \<Longrightarrow> map_of (clients s) fd = Some c \<Longrightarrow>
    \<not> isActive (with_channel c s) \<Longrightarrow> server_steps E beh listen (Closing (clientDescriptor c) order) cl s"
| close_own: "server_steps E beh listen (Closing fd order) cl s \<Longrightarrow> map_of (clients s) fd = Some c \<Longrightarrow>
    server_steps E beh listen (Finishing fd c order) cl (erase_client fd s)"
| finish_own: "server_steps E beh listen (Finishing fd c order) cl s \<Longrightarrow> finish_close E beh fd c s = Some (Ret s') \<Longrightarrow>
    server_steps E beh listen (Visiting order) cl s'"
| accept: "server_steps E beh listen (Visiting []) cl s \<Longrightarrow> server_call E (Accept (socketDescriptor (sock s))) s = (r, s1) \<Longrightarrow>
    after_accept E r s1 = (x, s') \<Longrightarrow>
    server_steps E beh listen (case x of Inl goes_on \<Rightarrow> if goes_on then Head else Ended | Inr fd \<Rightarrow> Accepted fd) cl s'"
| connect: "server_steps E beh listen (Accepted fd) cl s \<Longrightarrow> onConnectedClient E fd s = Some (Ret s') \<Longrightarrow> server_steps E beh listen Head cl s'"

text \<open>The states between two rounds of the connection loop, or after its end, in which nobody is in the middle of a \<open>closeClient\<close>.\<close>

abbreviation server_run :: "env \<Rightarrow> (int \<times> bool, server) behaviour \<Rightarrow> (unit, chan_state) behaviour \<Rightarrow> bool \<Rightarrow> server \<Rightarrow> bool" where
  "server_run E beh listen running s \<equiv> server_steps E beh listen (if running then Head else Ended) [] s"

text \<open>Undisturbed, the steps add up to the definitions above: \<open>closeClient\<close>, \<open>threadLoop\<close> and a round of the connection loop.\<close>

lemma closeClient_steps:
  assumes "server_steps E beh listen p cl s" and "closeClient E beh fd s = Some r" and "r = Ret s' \<or> r = Throw e s' \<and> map_of (clients s) fd = None"
  shows "server_steps E beh listen p cl s'"
proof (cases "map_of (clients s) fd")
  case None
  then have "r = Throw e s'" using assms(2,3) by (auto simp: closeClient_def no_client_def split: prod.splits)
  then show ?thesis using server_steps.close_unknown [OF assms(1) None] assms(2) by blast
next
  case (Some c)
  then have "finish_close E beh fd c (erase_client fd s) = Some (Ret s')" using assms(2,3) by (auto simp: closeClient_def)
  from server_steps.close_end [OF server_steps.close_begin [OF assms(1) Some] _ this] show ?thesis by simp
qed

lemma threadLoop_steps:
  "threadLoop E beh order s = Some (Ret s') \<Longrightarrow> server_steps E beh listen (Visiting order) cl s \<Longrightarrow> server_steps E beh listen (Visiting []) cl s'"
proof (induction order arbitrary: s)
  case (Cons fd order)
  then obtain c where c: "map_of (clients s) fd = Some c" by (auto split: option.splits)
  show ?case
  proof (cases "isActive (with_channel c s)")
    case True
    then show ?thesis using Cons c server_steps.visit_active [OF Cons.prems(2) c True] by simp
  next
    case False
    then obtain s1 where s1: "closeClient E beh (clientDescriptor c) s = Some (Ret s1)" "threadLoop E beh order s1 = Some (Ret s')"
      using Cons.prems(1) c by (auto split: option.splits outcome.splits)
    then obtain c' where c': "map_of (clients s) (clientDescriptor c) = Some c'" "finish_close E beh (clientDescriptor c) c' (erase_client (clientDescriptor c) s) = Some (Ret s1)"
      by (auto simp: closeClient_def no_client_def split: option.splits prod.splits)
    from server_steps.finish_own [OF server_steps.close_own [OF server_steps.visit_inactive [OF Cons.prems(2) c False] c'(1)] c'(2)]
    show ?thesis using Cons.IH [OF s1(2)] by blast
  qed
qed simp

lemma connection_round_steps:
  assumes "server_steps E beh listen Head cl s" and "distinct order" and "set order = fst ` set (clients s)"
    and "connection_round E beh order s = Some (goes_on, Ret s')"
  shows "server_steps E beh listen (if goes_on then Head else Ended) cl s'"
proof (cases "active (sock s)")
  case False
  then show ?thesis using assms(4) server_steps.loop_end [OF assms(1)] by (auto simp: connection_round_def)
next
  case True
  then obtain s1 where s1: "threadLoop E beh order s = Some (Ret s1)" using assms(4)
    by (auto simp: connection_round_def split: option.splits outcome.splits)
  have v: "server_steps E beh listen (Visiting []) cl s1"
    by (rule threadLoop_steps [OF s1 server_steps.loop_begin [OF assms(1) True assms(2,3)]])
  obtain r s2 where 2: "server_call E (Accept (socketDescriptor (sock s1))) s1 = (r, s2)" by (metis prod.exhaust)
  obtain x s3 where 3: "after_accept E r s2 = (x, s3)" by (metis prod.exhaust)
  note a = server_steps.accept [OF v 2 3]
  have round: "Some (goes_on, Ret s') = (case x of Inl goes_on \<Rightarrow> Some (goes_on, Ret s3) | Inr fd \<Rightarrow> map_option (Pair True) (onConnectedClient E fd s3))"
    using assms(4) True s1 2 3 by (simp add: connection_round_def)
  show ?thesis
  proof (cases x)
    case (Inl b)
    then show ?thesis using a round by simp
  next
    case (Inr fd)
    then have "onConnectedClient E fd s3 = Some (Ret s')" "goes_on" using round by (cases "onConnectedClient E fd s3"; auto)+
    then show ?thesis using server_steps.connect [of E beh listen fd cl s3 s'] a Inr by simp
  qed
qed

lemma getPeerAddress_same:
  assumes "getPeerAddress E fd s = (x, s')"
  shows "same_clients s s'"
proof -
  obtain r s1 where 1: "server_call E (GetPeerName fd) s = (r, s1)" by (metis prod.exhaust)
  obtain y w where 2: "throwIfError E False (ret r) SERVER_LOG_TAG (sio s1) = (y, w)" by (metis prod.exhaust)
  let ?s = "s1\<lparr>sio := w\<rparr>"
  have k: "same_clients s ?s"
    using server_kept_same [OF server_kept_trans [OF server_kept_call [OF _ 1] server_kept_sio [OF throw_calm [OF 2]]]] by simp
  have host: "calm w w'" if "getHostByAddress E a w = (z, w')" for a z w'
  proof -
    obtain r3 w3 where 3: "sys_call E (GetNameInfo a) w = (r3, w3)" by (metis prod.exhaust)
    obtain u w4 where 4: "throwIfError E False (ret r3) ''getHostByAddress'' w3 = (u, w4)" by (metis prod.exhaust)
    have "calm w w4" by (rule calm_trans [OF only_call(2) [OF _ 3] throw_calm [OF 4]]) simp
    then show ?thesis using that 3 4 by (auto simp: getHostByAddress_def split: sum.splits)
  qed
  show ?thesis
  proof (cases y)
    case (Inl e)
    then show ?thesis using assms 1 2 k by (simp add: getPeerAddress_def getPeerName_def)
  next
    case (Inr u)
    obtain z w' where h: "getHostByAddress E (address r) w = (z, w')" by (metis prod.exhaust)
    have "same_clients ?s (?s\<lparr>sio := w'\<rparr>)" using host [OF h] by (simp add: same_clients_def)
    then show ?thesis using assms 1 2 Inr h same_clients_trans [OF k] by (auto simp: getPeerAddress_def getPeerName_def)
  qed
qed

lemma server_write_inv:
  assumes "server_inv E strict out s" and "server_write E tid th fd msg s = Some r" and "r = Ret s' \<or> r = Throw e s'"
  shows "server_inv E strict out s'"
proof (cases "map_of (clients s) fd")
  case None
  obtain e' w where t: "fmtThrowError E runtime_error SERVER_LOG_TAG ''Client descriptor {} does not exist'' [FInt fd] (sio s) = (e', w)"
    by (metis prod.exhaust)
  then have "s' = s\<lparr>sio := w\<rparr>" using assms(2,3) None by (auto simp: server_write_def no_client_def)
  then show ?thesis using server_kept_inv [OF server_kept_sio [OF fmtThrow_calm [OF t]] assms(1)] by simp
next
  case (Some c)
  then obtain x cs where q: "queueWrite E tid th msg (with_channel c s) = Some (x, cs)" using assms(2) by (auto simp: server_write_def)
  then have "s' = put_channel fd cs s" using assms(2,3) Some by (auto simp: server_write_def split: sum.splits)
  then show ?thesis using put_channel_inv [OF assms(1) Some queueWrite_kept [OF q]] by simp
qed

lemma rounds_inv:
  assumes "server_inv E strict out s" and "tame_listener listen"
  shows "read_round E listen order s = Some (Ret s') \<Longrightarrow> server_inv E strict out s'" and "write_round E order s = Some (Ret s') \<Longrightarrow> server_inv E strict out s'"
proof -
  have r: "kept cs cs'" if "Some (readData E listen ls n cs) = Some (Ret (b, cs'))" for ls n cs b cs'
    using readData_kept [OF _ assms(2)] that by simp
  have w: "kept cs cs'" if "map_option Ret (handleWriteQueue E cs) = Some (Ret (b, cs'))" for cs b cs'
    using handleWriteQueue_kept that by auto
  show "server_inv E strict out s'" if rd: "read_round E listen order s = Some (Ret s')"
  proof (cases "active (sock s)")
    case True
    then obtain o' where o: "channel_round (\<lambda>cs. Some (readData E listen (listenCallback (sock s)) (unat (bufferSize (sock s))) cs)) order False s = Some o'"
      "rest_after E (sleep_time s) o' = Ret s'" using rd by (auto simp: read_round_def)
    have "server_inv E strict out t" if "o' = Ret (b, t)" for b t
      by (rule channel_round_inv [OF _ assms(1) o(1) [unfolded that]]) (rule r)
    then show ?thesis by (rule rest_after_inv [OF _ o(2)])
  qed (use rd assms(1) in \<open>simp add: read_round_def\<close>)
  show "server_inv E strict out s'" if wr: "write_round E order s = Some (Ret s')"
  proof (cases "active (sock s)")
    case True
    then obtain o' where o: "channel_round (\<lambda>cs. map_option Ret (handleWriteQueue E cs)) order False s = Some o'"
      "rest_after E (sleep_time s) o' = Ret s'" using wr by (auto simp: write_round_def)
    have "server_inv E strict out t" if "o' = Ret (b, t)" for b t
      by (rule channel_round_inv [OF _ assms(1) o(1) [unfolded that]]) (rule w)
    then show ?thesis by (rule rest_after_inv [OF _ o(2)])
  qed (use wr assms(1) in \<open>simp add: write_round_def\<close>)
qed

text \<open>The descriptors some thread is about to make a client or to close.\<close>

definition out_of :: "loop_pc \<Rightarrow> (int \<times> channel) list \<Rightarrow> int list" where
  "out_of p cl = (case p of Finishing fd c order \<Rightarrow> [fd] | Accepted fd \<Rightarrow> [fd] | _ \<Rightarrow> []) @ map fst cl"

definition steps_inv :: "env \<Rightarrow> loop_pc \<Rightarrow> (int \<times> channel) list \<Rightarrow> server \<Rightarrow> bool" where
  "steps_inv E p cl s \<longleftrightarrow> server_inv E (p \<noteq> Ended) (out_of p cl) s
     \<and> (\<forall>(fd, c)\<in>set cl. idle_channel c) \<and> (\<forall>fd c order. p = Finishing fd c order \<longrightarrow> idle_channel c)"

lemma steps_inv_same: "steps_inv E p cl s \<Longrightarrow> (server_inv E (p \<noteq> Ended) (out_of p cl) s \<Longrightarrow> server_inv E (p \<noteq> Ended) (out_of p cl) s') \<Longrightarrow> steps_inv E p cl s'"
  by (simp add: steps_inv_def)

text \<open>The invariant depends on the descriptors on their way out only, not on their order or who has them.\<close>

lemma server_inv_out: "server_inv E strict out s \<Longrightarrow> (\<And>fd. count_list out' fd = count_list out fd) \<Longrightarrow> server_inv E strict out' s"
  by (simp add: server_inv_def)

lemma server_inv_lax: "server_inv E strict out s \<Longrightarrow> server_inv E False out s"
  by (simp add: server_inv_def)

lemma steps_inv_idle: "steps_inv E p cl s \<Longrightarrow> map_of (clients s) fd = Some c \<Longrightarrow> idle_channel c"
  using clients_ok_channel by (auto simp: steps_inv_def server_inv_def)

lemma count_out_remove: "x \<in> set cl \<Longrightarrow> count_list (out_of p (remove1 x cl)) d = count_list (remove1 (fst x) (out_of p cl)) d"
proof -
  assume "x \<in> set cl"
  then have "count_list (map fst cl) d = count_list (map fst (remove1 x cl)) d + (if fst x = d then 1 else 0)" by (induction cl) auto
  moreover have "fst x \<in> set (out_of p cl)" using \<open>x \<in> set cl\<close> by (simp add: out_of_def)
  ultimately show ?thesis using count_list_remove1 [of "fst x" "out_of p cl" d] by (simp add: out_of_def)
qed

lemma steps_inv_close:
  assumes "steps_inv E p cl s"
  shows "map_of (clients s) fd = Some c \<Longrightarrow> steps_inv E p ((fd, c) # cl) (erase_client fd s)"
    and "(fd, c) \<in> set cl \<Longrightarrow> tame beh \<Longrightarrow> finish_close E beh fd c s = Some (Ret s') \<Longrightarrow> steps_inv E p (remove1 (fd, c) cl) s'"
    and "p = Closing fd order \<Longrightarrow> map_of (clients s) fd = Some c \<Longrightarrow> steps_inv E (Finishing fd c order) cl (erase_client fd s)"
    and "p = Finishing fd c order \<Longrightarrow> tame beh \<Longrightarrow> finish_close E beh fd c s = Some (Ret s') \<Longrightarrow> steps_inv E (Visiting order) cl s'"
proof -
  have inv: "server_inv E (p \<noteq> Ended) (out_of p cl) s" and idle: "\<And>fd c. (fd, c) \<in> set cl \<Longrightarrow> idle_channel c"
    using assms by (auto simp: steps_inv_def)
  show "steps_inv E p ((fd, c) # cl) (erase_client fd s)" if "map_of (clients s) fd = Some c"
    using server_inv_out [OF erase_inv [OF inv that], of "out_of p ((fd, c) # cl)"] assms steps_inv_idle [OF assms that]
    by (simp add: steps_inv_def out_of_def)
  show "steps_inv E p (remove1 (fd, c) cl) s'" if "(fd, c) \<in> set cl" "tame beh" "finish_close E beh fd c s = Some (Ret s')"
  proof -
    have "fd \<in> set (out_of p cl)" using that(1) by (force simp: out_of_def)
    from finish_inv [OF inv this idle [OF that(1)] that(2,3)] have "server_inv E (p \<noteq> Ended) (remove1 fd (out_of p cl)) s'" .
    from server_inv_out [OF this, of "out_of p (remove1 (fd, c) cl)"] show ?thesis
      using assms count_out_remove [OF that(1), of p] by (auto simp: steps_inv_def dest: notin_set_remove1 set_remove1_subset [THEN subsetD])
  qed
  show "steps_inv E (Finishing fd c order) cl (erase_client fd s)" if "p = Closing fd order" "map_of (clients s) fd = Some c"
    using erase_inv [OF inv that(2)] assms steps_inv_idle [OF assms that(2)] that(1) by (simp add: steps_inv_def out_of_def)
  show "steps_inv E (Visiting order) cl s'" if "p = Finishing fd c order" "tame beh" "finish_close E beh fd c s = Some (Ret s')"
    using finish_inv [OF inv _ _ that(2,3)] assms that(1) by (simp add: steps_inv_def out_of_def)
qed

lemma run_connect_kept: "tame beh \<Longrightarrow> run_connect beh ptr s = Some (Ret s') \<Longrightarrow> server_kept s s'"
proof -
  assume t: "tame beh" and r: "run_connect beh ptr s = Some (Ret s')"
  let ?s = "s\<lparr>starting := remove1 ptr (starting s)\<rparr>"
  obtain s1 where "invoke beh (fst ptr, True) (connectCallback (sock ?s)) ?s = Ret s1" "server_kept ?s s1" using tame_invoke [OF t] by blast
  then show ?thesis using r by (auto simp: run_connect_def server_kept_def Let_def split: if_splits prod.splits)
qed

lemma server_steps_inv:
  assumes "accept_fresh E" and "tame beh" and "tame_listener listen"
  shows "server_steps E beh listen p cl s \<Longrightarrow> steps_inv E p cl s"
proof (induction rule: server_steps.induct)
  case (new w g sid prt s w')
  from ServerSocket_inv [OF new.hyps] show ?case by (simp add: steps_inv_def out_of_def)
next
  case (bind p cl s r s' e)
  show ?case by (rule steps_inv_same [OF bind.IH same_clients_inv [OF bindAndListen_same [OF bind.hyps(2,3)]]])
next
  case (reading p cl s order s')
  show ?case by (rule steps_inv_same [OF reading.IH rounds_inv(1) [OF _ assms(3) reading.hyps(2)]])
next
  case (writing p cl s order s')
  show ?case by (rule steps_inv_same [OF writing.IH rounds_inv(2) [OF _ assms(3) writing.hyps(2)]])
next
  case (send p cl s tid th fd msg r s' e)
  show ?case by (rule steps_inv_same [OF send.IH server_write_inv [OF _ send.hyps(2,3)]])
next
  case (peer p cl s fd x s')
  show ?case by (rule steps_inv_same [OF peer.IH same_clients_inv [OF getPeerAddress_same [OF peer.hyps(2)]]])
next
  case (listener p cl s ptr s')
  show ?case by (rule steps_inv_same [OF listener.IH server_kept_inv [OF run_connect_kept [OF assms(2) listener.hyps(2)]]])
next
  case (stop p cl s)
  show ?case by (rule steps_inv_same [OF stop.IH]) (simp add: server_inv_def held_def)
next
  case (close_unknown p cl s fd e s')
  obtain e' t where t: "closeClient E beh fd s = Some (Throw e' t)" "server_kept s t" by (rule closeClient_unknown [OF close_unknown.hyps(2)])
  then have "server_kept s s'" using close_unknown.hyps(3) by simp
  from steps_inv_same [OF close_unknown.IH server_kept_inv [OF this]] show ?case .
next
  case (loop_end cl s)
  then show ?case using server_inv_lax [of E True "map fst cl" s] by (simp add: steps_inv_def out_of_def)
next
  case (accept cl s r s1 x s')
  have inv: "server_inv E True (map fst cl) s" using accept.IH by (simp add: steps_inv_def out_of_def)
  note a = accept_inv [OF inv assms(1) accept.hyps(2)] and k = after_accept_kept [OF accept.hyps(3)]
  have x: "x = Inl True \<or> x = Inl False \<or> (\<exists>fd. x = Inr fd)" by (cases x) auto
  show ?case using x accept.IH a k(2,3) server_kept_inv [OF k(1)] by (auto simp: steps_inv_def out_of_def)
next
  case (connect fd cl s s')
  then show ?case using onConnectedClient_inv [OF _ connect.hyps(2), of True "map fst cl"] by (simp add: steps_inv_def out_of_def)
next
  case (close_begin p cl s fd c)
  show ?case by (rule steps_inv_close(1) [OF close_begin.IH close_begin.hyps(2)])
next
  case (close_end p cl s fd c s')
  show ?case by (rule steps_inv_close(2) [OF close_end.IH close_end.hyps(2) assms(2) close_end.hyps(3)])
next
  case (close_own fd order cl s c)
  show ?case by (rule steps_inv_close(3) [OF close_own.IH refl close_own.hyps(2)])
next
  case (finish_own fd c order cl s s')
  show ?case by (rule steps_inv_close(4) [OF finish_own.IH refl assms(2) finish_own.hyps(2)])
qed (simp_all add: steps_inv_def out_of_def)

lemma server_run_inv:
  assumes "accept_fresh E" and "tame beh" and "tame_listener listen" and "server_run E beh listen running s"
  shows "server_inv E running [] s"
  using server_steps_inv [OF assms] by (cases running) (simp_all add: steps_inv_def out_of_def)

section \<open>Destruction\<close>

lemma joins_kept: "server_kept s (fold (\<lambda>t s. snd (server_call E (Join t) s)) ts s)"
proof (induction ts arbitrary: s)
  case (Cons t ts)
  show ?case using server_kept_trans [OF server_kept_call_snd Cons.IH, of "Join t"] by simp
qed simp

text \<open>The descriptor the server listens on stays the same, unless a listener changes it.\<close>

lemma server_call_listening [simp]: "socketDescriptor (sock (snd (server_call E c s))) = socketDescriptor (sock s)"
  by (simp add: server_call_def set_active_def split: prod.split)

lemma joins_listening: "socketDescriptor (sock (fold (\<lambda>t s. snd (server_call E (Join t) s)) ts s)) = socketDescriptor (sock s)"
  by (induction ts arbitrary: s) simp_all

definition keeps_listening :: "(int \<times> bool, server) behaviour \<Rightarrow> bool" where
  "keeps_listening beh \<longleftrightarrow> (\<forall>f a s s'. beh f a s = Ret s' \<longrightarrow> socketDescriptor (sock s') = socketDescriptor (sock s))"

lemma invoke_listening: "keeps_listening beh \<Longrightarrow> invoke beh a fs s = Ret s' \<Longrightarrow> socketDescriptor (sock s') = socketDescriptor (sock s)"
proof (induction fs arbitrary: s)
  case (Cons f fs)
  then obtain t where t: "beh f a s = Ret t" "invoke beh a fs t = Ret s'" by (auto simp: call_def split: outcome.splits)
  have "socketDescriptor (sock t) = socketDescriptor (sock s)" using Cons.prems(1) t(1) unfolding keeps_listening_def by metis
  then show ?case using Cons.IH [OF Cons.prems(1) t(2)] by simp
qed simp

lemma closeClient_listening:
  assumes "keeps_listening beh" and "closeClient E beh fd s = Some (Ret s')"
  shows "socketDescriptor (sock s') = socketDescriptor (sock s)"
proof -
  obtain c where c: "finish_close E beh fd c (erase_client fd s) = Some (Ret s')"
    using assms(2) by (auto simp: closeClient_def no_client_def split: option.splits prod.splits)
  have e: "socketDescriptor (sock (erase_client fd s)) = socketDescriptor (sock s)" by (simp add: erase_client_def)
  have i: "socketDescriptor (sock t) = socketDescriptor (sock s)" if "invoke beh a fs (erase_client fd s) = Ret t" for a fs t
    using invoke_listening [OF assms(1) that] e by simp
  show ?thesis using c i e
    by (auto simp: finish_close_def Let_def after_channel_def set_active_def on_sio_def split: outcome.splits if_splits)
qed

lemma close_all_listening:
  "keeps_listening beh \<Longrightarrow> close_all E beh order s = Some (Ret s') \<Longrightarrow> socketDescriptor (sock s') = socketDescriptor (sock s)"
proof (induction order arbitrary: s)
  case (Cons fd order)
  then obtain s1 where "closeClient E beh fd s = Some (Ret s1)" "close_all E beh order s1 = Some (Ret s')"
    by (auto split: option.splits outcome.splits)
  then show ?case using Cons.IH [OF Cons.prems(1)] closeClient_listening [OF Cons.prems(1)] by metis
qed simp

definition closing_calls :: "world \<Rightarrow> world \<Rightarrow> int list \<Rightarrow> bool" where
  "closing_calls w w' fds \<longleftrightarrow> closed (made w') = closed (made w) @ fds \<and> (\<forall>E. accepts E [] (made w') = accepts E [] (made w))"

lemma calm_closing: "calm w w' \<Longrightarrow> closing_calls w w' []"
  using calm_counts by (auto simp: closing_calls_def)

lemma closing_trans: "closing_calls w w' xs \<Longrightarrow> closing_calls w' w'' ys \<Longrightarrow> closing_calls w w'' (xs @ ys)"
  by (auto simp: closing_calls_def)

lemma destroy_Socket_calm: "calm w (destroy_Socket E k w)"
  using calm_trans [OF log_calm(2) only_call(1)] by (auto simp: destroy_Socket_def Let_def)

text \<open>The part of the destructor after the clients have been closed.\<close>

lemma destroy_ServerSocket_eq:
  assumes "close_all E beh order (on_sio (fmtLog E DEBUG_LEVEL SERVER_LOG_TAG ''Deleting server socket'' []) s\<lparr>sock := notifyStop (sock s)\<rparr>) = Some (Ret t)"
  obtains s' where "destroy_ServerSocket E beh order s = Some (Ret s')" "clients s' = clients t" "socketDescriptor (sock s') = -1"
    "closing_calls (sio t) (sio s') (if socketDescriptor (sock t) = -1 then [] else [socketDescriptor (sock t)])"
proof -
  let ?t = "fold (\<lambda>n s. snd (server_call E (Join n) s)) (threads t) t"
  let ?fd = "socketDescriptor (sock ?t)"
  obtain r1 t1 where 1: "server_call E (Shutdown ?fd) ?t = (r1, t1)" by (metis prod.exhaust)
  let ?t1 = "on_sio (logIfError E False ERROR (ret r1) ''Unable to queueShutdown'' SERVER_LOG_TAG) t1"
  obtain r2 t2 where 2: "server_call E (Close ?fd) ?t1 = (r2, t2)" by (metis prod.exhaust)
  let ?t2 = "on_sio (logIfError E False ERROR (ret r2) ''Unable to close'' SERVER_LOG_TAG) t2"
  define t3 where "t3 = (if ?fd \<noteq> -1 then ?t2\<lparr>sock := (sock ?t2)\<lparr>socketDescriptor := -1\<rparr>\<rparr> else ?t)"
  define s' where "s' = on_sio (destroy_Socket E (sock t3)) (on_sio (fmtLog E DEBUG_LEVEL SERVER_LOG_TAG ''Finish deleting server socket'' []) t3)"
  have d: "destroy_ServerSocket E beh order s = Some (Ret s')"
    using assms 1 2 by (simp add: destroy_ServerSocket_def Let_def on_sio_def s'_def t3_def)
  have kt: "server_kept t ?t" by (rule joins_kept)
  have t1: "clients t1 = clients ?t" "calm (sio ?t) (sio t1)" using server_kept_call [OF _ 1] by (simp_all add: server_kept_def)
  have m2: "made (sio t2) = made (sio ?t1) @ [Close ?fd]" "clients t2 = clients t1"
    using 2 by (auto simp: server_call_def sys_call_def Let_def set_active_def on_sio_def)
  then have c2: "closing_calls (sio ?t1) (sio t2) [?fd]" by (auto simp: closing_calls_def accepts_append)
  have "closing_calls (sio t) (sio ?t1) []"
    using calm_closing [OF calm_trans [OF calm_trans [OF _ t1(2)] logIfError_calm]] kt by (simp add: server_kept_def on_sio_def)
  from closing_trans [OF closing_trans [OF this c2] calm_closing [OF logIfError_calm]]
  have listening: "closing_calls (sio t) (sio ?t2) [?fd]" by (simp add: on_sio_def)
  have "closing_calls (sio t) (sio t3) (if ?fd \<noteq> -1 then [?fd] else [])"
    using listening calm_closing kt by (auto simp: t3_def server_kept_def)
  moreover have "closing_calls (sio t3) (sio s') []"
    unfolding s'_def on_sio_def by (simp add: calm_closing [OF calm_trans [OF log_calm(1) destroy_Socket_calm]])
  ultimately have "closing_calls (sio t) (sio s') (if ?fd \<noteq> -1 then [?fd] else [])" using closing_trans by fastforce
  moreover have "?fd = socketDescriptor (sock t)" by (rule joins_listening)
  moreover have "clients s' = clients t" using t1(1) m2(2) kt by (simp add: s'_def t3_def on_sio_def server_kept_def)
  moreover have "socketDescriptor (sock s') = -1" by (simp add: s'_def t3_def on_sio_def)
  ultimately show thesis using that [of s'] d by (simp split: if_splits)
qed

section \<open>A server that nobody stops\<close>

lemma server_try_active: "never_stopped E \<Longrightarrow> server_try E c s = (x, s') \<Longrightarrow> active (sock s') = active (sock s)"
  by (auto simp: server_try_def server_call_def sys_call_def never_stopped_def set_active_def Let_def split: prod.splits)

lemma server_tries_active: "never_stopped E \<Longrightarrow> server_tries E cs s = (x, s') \<Longrightarrow> active (sock s') = active (sock s)"
proof (induction cs arbitrary: s)
  case (Cons c cs)
  obtain y s1 where 1: "server_try E c s = (y, s1)" by (metis prod.exhaust)
  then show ?case using Cons server_try_active [OF Cons.prems(1) 1] by (auto split: sum.splits)
qed simp

lemma server_try_made:
  assumes "server_try E c s = (x, s')"
  shows "\<exists>ds. made (sio s') = made (sio s) @ c # ds"
proof -
  obtain r s1 where 1: "server_call E c s = (r, s1)" by (metis prod.exhaust)
  obtain w where w: "throwIfError E False (ret r) SERVER_LOG_TAG (sio s1) = (x, w)" "s' = s1\<lparr>sio := w\<rparr>"
    using assms 1 by (auto simp: server_try_def split: prod.splits)
  have "made (sio s1) = made (sio s) @ [c]" using 1 by (auto simp: server_call_def sys_call_def set_active_def Let_def)
  then show ?thesis using throw_calm [OF w(1)] w(2) by (auto simp: only_def)
qed

lemma server_tries_first:
  assumes "server_tries E (c # cs) s = (x, s')"
  shows "\<exists>ds. made (sio s') = made (sio s) @ c # ds"
proof -
  obtain y s1 where 1: "server_try E c s = (y, s1)" by (metis prod.exhaust)
  have more: "\<exists>ds. made (sio t) = made (sio s) @ ds" if "server_tries E cs s = (x, t)" for cs s t
    using that
  proof (induction cs arbitrary: s)
    case (Cons c cs)
    obtain y s1 where 1: "server_try E c s = (y, s1)" by (metis prod.exhaust)
    then show ?case using Cons server_try_made [OF 1] by (fastforce split: sum.splits)
  qed simp
  show ?thesis using assms 1 server_try_made [OF 1] more by (fastforce split: sum.splits)
qed

section \<open>Pending threads\<close>

lemma server_call_starting: "starting (snd (server_call E c s)) = starting s"
  by (simp add: server_call_def set_active_def split: prod.split)

lemma server_call_generation: "generation (snd (server_call E c s)) = generation s"
  by (simp add: server_call_def set_active_def split: prod.split)

lemma closeClient_starting:
  assumes "\<And>f a t. beh f a t = Ret t" and "closeClient E beh fd s = Some (Ret s')"
  shows "starting s' = starting s" and "generation s' = generation s"
proof -
  obtain c where c: "finish_close E beh fd c (erase_client fd s) = Some (Ret s')"
    using assms(2) by (auto simp: closeClient_def no_client_def split: option.splits prod.splits)
  have i: "invoke beh a fs t = Ret t" for a fs t by (induction fs) (simp_all add: assms(1) call_def)
  let ?s = "erase_client fd s"
  let ?t = "on_sio (fmtLog E DEBUG_LEVEL SERVER_LOG_TAG ''Fully finished clearing client data from server memory.'' [])
    (snd (server_call E (Close fd) (snd (server_call E (Shutdown fd) ?s))))"
  obtain cs where "s' = after_channel cs ?t" using c
    by (cases "event_empty (connectCallback (sock ?s))") (auto simp: finish_close_def Let_def i)
  then show "starting s' = starting s" "generation s' = generation s"
    by (simp_all add: after_channel_def set_active_def on_sio_def server_call_starting server_call_generation) (simp_all add: erase_client_def)
qed

section \<open>Properties\<close>



text \<open>
  The destructor is not protected against the connection thread.  While it still has a client, the server can be stopped with the
  connection thread on its way to that client in \<open>threadLoop\<close>; which of the two gets to \<open>closeClient\<close> first takes the client out of the
  map, and \<open>closeClient\<close> throws in the other: out of the destructor in the first of the two states below, out of the connection
  thread in the second.  Either ends the process.
\<close>

theorem destructor_races_loop:
  assumes "server_run E beh listen True s" and "active (sock s)" and "clients s = [(fd, c)]" and "clientDescriptor c = fd"
  shows "(\<exists>s1 e t. server_steps E beh listen (Finishing fd c []) [] s1 \<and> \<not> active (sock s1) \<and> closeClient E beh fd s1 = Some (Throw e t))
    \<and> (\<exists>s1 e t. server_steps E beh listen (Closing fd []) [(fd, c)] s1 \<and> \<not> active (sock s1) \<and> closeClient E beh fd s1 = Some (Throw e t))"
proof -
  let ?s = "s\<lparr>sock := notifyStop (sock s)\<rparr>"
  have "server_steps E beh listen (Visiting [fd]) [] s" using server_steps.loop_begin [of E beh listen "[]" s "[fd]"] assms(1-3) by simp
  then have v: "server_steps E beh listen (Visiting [fd]) [] ?s" by (rule server_steps.stop)
  have c: "map_of (clients ?s) fd = Some c" "\<not> isActive (with_channel c ?s)" "\<not> active (sock ?s)"
    using assms(3) by (simp_all add: isActive_def with_channel_def notifyStop_def)
  have v: "server_steps E beh listen (Closing fd []) [] ?s" using server_steps.visit_inactive [OF v c(1,2)] assms(4) by simp
  have gone: "map_of (clients (erase_client fd ?s)) fd = None" "\<not> active (sock (erase_client fd ?s))"
    using assms(3) c(3) by (simp_all add: erase_client_def)
  obtain e t where "closeClient E beh fd (erase_client fd ?s) = Some (Throw e t)" by (rule closeClient_unknown [OF gone(1)])
  then show ?thesis using server_steps.close_own [OF v c(1)] server_steps.close_begin [OF v c(1)] gone(2) by blast
qed


text \<open>
  (C35) The thread that tells the listeners of a new client holds a pointer into the map of clients.  When the client is
  closed before that thread has run, the listeners are called with a channel that no longer exists, even when a new client has got the
  same descriptor meanwhile.
\<close>

theorem connect_listener_dangles:
  assumes "clients_ok (clients s)" and "map_of (clients s) fd = None" and "\<not> event_empty (connectCallback (sock s))" and "sema_ok E"
    and "\<And>f a t. beh f a t = Ret t"
  shows "\<exists>s1 s2. onConnectedClient E fd s = Some (Ret s1) \<and> closeClient E beh fd s1 = Some (Ret s2)
    \<and> (fd, generation s2 fd) \<in> set (starting s2) \<and> map_of (clients s2) fd = None \<and> run_connect beh (fd, generation s2 fd) s2 = None
    \<and> (\<exists>s3. onConnectedClient E fd s2 = Some (Ret s3) \<and> map_of (clients s3) fd \<noteq> None \<and> run_connect beh (fd, generation s2 fd) s3 = None)"
proof -
  obtain tok q where "ConsumerToken (ConcurrentQueue (malloc_ok E) default_traits (6 * BLOCK_SIZE default_traits) :: byte list cqueue) = (tok, q)"
    by (metis prod.exhaust)
  then obtain c where c: "Channel E (socket_id (sock s)) fd = Inr c" "clientDescriptor c = fd" "idle_channel c"
    using assms(4) by (simp add: Channel_def idle_channel_def)
  let ?g = "(generation s)(fd := generation s fd + 1)"
  let ?s = "s\<lparr>clients := (fd, c) # clients s, generation := ?g\<rparr>"
  define s1 where "s1 = (snd (server_call E (Spawn ''connectCallback'') ?s))\<lparr>starting := (fd, generation s fd + 1) # starting s\<rparr>"
  have 1: "onConnectedClient E fd s = Some (Ret s1)"
    using c(1) assms(2,3) by (simp add: onConnectedClient_def s1_def)
  have "server_kept ?s (snd (server_call E (Spawn ''connectCallback'') ?s))" by (rule server_kept_call_snd) simp
  then have s1: "clients s1 = (fd, c) # clients s" "starting s1 = (fd, generation s fd + 1) # starting s" "generation s1 = ?g"
    by (simp_all add: s1_def server_kept_def server_call_generation)
  have "clients_ok (clients s1)" using assms(1,2) c(2,3) unfolding s1(1) by (auto simp: clients_ok_def map_of_eq_None_iff)
  moreover have "tame beh" using assms(5) by (simp add: tame_def)
  moreover have "map_of (clients s1) fd \<noteq> None" unfolding s1(1) by simp
  ultimately obtain s2 where 2: "closeClient E beh fd s1 = Some (Ret s2)" "clients s2 = clients (erase_client fd s1)"
    using closeClient_ok by metis
  have gone: "map_of (clients s2) fd = None" unfolding 2(2) map_of_eq_None_iff erase_client_keys by simp
  have s2: "starting s2 = starting s1" "generation s2 = ?g"
    using closeClient_starting [OF assms(5) 2(1)] s1(3) by simp_all
  obtain tok' q' where "ConsumerToken (ConcurrentQueue (malloc_ok E) default_traits (6 * BLOCK_SIZE default_traits) :: byte list cqueue) = (tok', q')"
    by (metis prod.exhaust)
  then obtain c' where c': "Channel E (socket_id (sock s2)) fd = Inr c'" using assms(4) by (simp add: Channel_def)
  let ?s2 = "s2\<lparr>clients := (fd, c') # clients s2, generation := (generation s2)(fd := generation s2 fd + 1)\<rparr>"
  obtain s3 where s3: "onConnectedClient E fd s2 = Some (Ret s3)" "clients s3 = clients ?s2" "generation s3 = generation ?s2"
    using c' gone by (cases "event_empty (connectCallback (sock ?s2))") (simp_all add: onConnectedClient_def server_call_def set_active_def split: prod.splits)
  have "run_connect beh (fd, generation s2 fd) s3 = None" using s3(3) by (simp add: run_connect_def)
  moreover have "map_of (clients s3) fd \<noteq> None" using s3(2) by simp
  moreover have "(fd, generation s2 fd) \<in> set (starting s2)" using s1(2) s2 by simp
  moreover have "run_connect beh (fd, generation s2 fd) s2 = None" using gone by (simp add: run_connect_def)
  ultimately show ?thesis using 1 2(1) gone s3(1) by blast
qed

text \<open>
  A failed \<open>bindAndListen\<close> leaves the server marked as active, so that trying again only throws \<open>Already running
  server!\<close>; and the first option it asks for is the bitwise or of three option numbers, which is \<open>SO_REUSEPORT\<close>.
\<close>

theorem failed_bind_stays_active:
  assumes "\<not> active (sock s)" and "never_stopped E" and "bindAndListen E s = Throw e s'"
  shows "active (sock s')
    \<and> (\<exists>s''. bindAndListen E s' = Throw (runtime_error (fmt E ''Already running server!'' [])) s'' \<and> calm (sio s') (sio s''))
    \<and> (\<exists>cs. made (sio s') = made (sio s) @ SetSockOpt (socketDescriptor (sock s)) SOL_SOCKET SO_REUSEPORT # cs)"
proof -
  let ?s = "set_active True s" and ?fd = "socketDescriptor (sock s)"
  have opt: "(or (or SO_REUSEADDR SO_REUSEPORT) SO_KEEPALIVE) = SO_REUSEPORT" by (simp add: SO_REUSEADDR_def SO_REUSEPORT_def SO_KEEPALIVE_def)
  obtain y s1 where 1: "server_tries E (bind_calls s) ?s = (y, s1)" by (metis prod.exhaust)
  obtain z s2 where 2: "server_try E (Listen ?fd SOCKET_SERVER_BACKLOG) (spawn E ''connectionListenLoop'' s1) = (z, s2)" by (metis prod.exhaust)
  have a1: "active (sock s1)" using server_tries_active [OF assms(2) 1] by simp
  have "active (sock (spawn E ''connectionListenLoop'' s1))" using a1 assms(2) by (simp add: spawn_def server_call_def never_stopped_def set_active_def sys_call_def Let_def)
  then have a2: "active (sock s2)" using server_try_active [OF assms(2) 2] by simp
  have s': "s' = s1 \<or> s' = s2" using assms(3) unfolding bindAndListen_eq [OF assms(1) 1 2] by (auto split: sum.splits if_splits)
  obtain cs where "bind_calls s = SetSockOpt ?fd SOL_SOCKET SO_REUSEPORT # cs" by (simp add: bind_calls_def Let_def opt)
  then obtain ds where d: "made (sio s1) = made (sio s) @ SetSockOpt ?fd SOL_SOCKET SO_REUSEPORT # ds"
    using server_tries_first [OF 1 [unfolded \<open>bind_calls s = _\<close>]] by auto
  have "same_clients s1 s2" by (rule same_clients_trans [OF spawn_same server_try_same [OF _ 2]]) simp
  then have "\<exists>cs. made (sio s2) = made (sio s1) @ cs" by (auto simp: same_clients_def only_def)
  then have "\<exists>cs. made (sio s') = made (sio s) @ SetSockOpt ?fd SOL_SOCKET SO_REUSEPORT # cs" using s' d by auto
  moreover have act: "active (sock s')" using s' a1 a2 by auto
  obtain x w where f: "fmtThrowError E runtime_error SERVER_LOG_TAG ''Already running server!'' [] (sio s') = (x, w)" by (metis prod.exhaust)
  then have "bindAndListen E s' = Throw x (s'\<lparr>sio := w\<rparr>)" using act by (simp add: bindAndListen_def)
  moreover have "x = runtime_error (fmt E ''Already running server!'' [])" using f by (simp add: fmtThrowError_def)
  ultimately show ?thesis using act fmtThrow_calm [OF f] by simp
qed

text \<open>An environment in which every call succeeds and \<open>accept\<close> returns a new descriptor each time.\<close>

definition serve_env :: env where
  "serve_env = demo_env\<lparr>os := (\<lambda>h c. (demo_reply c)\<lparr>
     ret := (case c of Accept l \<Rightarrow> 100 + int (length h) | Send fd bs \<Rightarrow> int (length bs) | _ \<Rightarrow> 0),
     infos := [\<lparr>ai_family = 2, ai_socktype = 1, ai_protocol = 6, ai_addr = 7\<rparr>]\<rparr>)\<rparr>"

lemma serve_accepts: "x \<in> set (accepts serve_env h cs) \<Longrightarrow> x < 100 + int (length h) + int (length cs)"
  by (induction cs arbitrary: h) (fastforce simp: serve_env_def split: sys.splits if_splits)+

lemma serve_fresh: "accept_fresh serve_env"
proof -
  have "count_list (accepts serve_env [] h) (ret (os serve_env h (Accept l))) = 0" for h l
    using serve_accepts [of _ "[]" h] by (force simp: count_list_0_iff serve_env_def)
  then show ?thesis by (simp add: accept_fresh_def)
qed

definition quiet_server :: "(int \<times> bool, server) behaviour" where
  "quiet_server f a s = Ret s"

definition quiet_listener :: "(unit, chan_state) behaviour" where
  "quiet_listener f a s = Ret s"

lemma quiet_tame: "tame quiet_server" "tame_listener quiet_listener"
  by (simp_all add: tame_def tame_listener_def quiet_server_def quiet_listener_def)

lemma quiet_keeps: "keeps_listening quiet_server"
  by (simp add: keeps_listening_def quiet_server_def)

lemma serve_ok: "os serve_env h c = (demo_reply c)\<lparr>
     ret := (case c of Accept l \<Rightarrow> 100 + int (length h) | Send fd bs \<Rightarrow> int (length bs) | _ \<Rightarrow> 0),
     infos := [\<lparr>ai_family = 2, ai_socktype = 1, ai_protocol = 6, ai_addr = 7\<rparr>]\<rparr>" "enqueue_fails serve_env h = 0" "sema_ok serve_env"
  by (simp_all add: serve_env_def demo_env_def)

lemma demo_server:
  obtains s where "server_run serve_env quiet_server quiet_listener True s" "clients s = []" "active (sock s)" "connectCallback (sock s) = []"
proof -
  note calls = sys_call_def serve_ok(1) demo_reply_def do_call_def
  obtain s w where s: "ServerSocket serve_env [] 0 80 demo_world = (Inr s, w)" "\<not> active (sock s)" "\<not> noDelay (sock s)" "clients s = []"
     "connectCallback (sock s) = []" "workerThreadCount s = 2" "threads s = []"
    by (simp add: ServerSocket_def Socket_def resolveEndpoint_def throwIfNull_def writeLog_def demo_world_def checked_call_def throwIfError_def calls Let_def)
  have 0: "made demo_world = []" by (simp add: demo_world_def)
  note run = server_steps.new [OF 0 s(1), where beh = quiet_server and listen = quiet_listener]
  have n: "unat (max (2 :: 16 word) 1) = 2" "(f ^^ 2) x = f (f x)" for f :: "server \<Rightarrow> server" and x
  proof -
    show "unat (max (2 :: 16 word) 1) = 2" by (simp add: max_def word_le_nat_alt)
    show "(f ^^ 2) x = f (f x)" for f :: "server \<Rightarrow> server" and x by (simp add: numeral_2_eq_2)
  qed
  obtain t where t: "bindAndListen serve_env s = Ret t" "active (sock t)" "clients t = []" "connectCallback (sock t) = []"
    using s by (simp add: bindAndListen_def server_try_def server_call_def spawn_def set_active_def throwIfError_def calls Let_def n)
  have "server_steps serve_env quiet_server quiet_listener Head [] t" by (rule server_steps.bind [OF run t(1)]) simp
  then show thesis using that [of t] t(2-4) by simp
qed

text \<open>The run goes on: a client connects.\<close>

lemma demo_client:
  obtains s fd c where "server_run serve_env quiet_server quiet_listener True s" "clients s = [(fd, c)]" "active (sock s)"
    "connectCallback (sock s) = []"
proof -
  obtain s where s: "server_run serve_env quiet_server quiet_listener True s" "clients s = []" "active (sock s)" "connectCallback (sock s) = []"
    by (rule demo_server)
  obtain r t where r: "server_call serve_env (Accept (socketDescriptor (sock s))) s = (r, t)" by (metis prod.exhaust)
  then have t: "ret r \<ge> 0" "clients t = []" "active (sock t)" "connectCallback (sock t) = []"
    using s(2-4) by (auto simp: server_call_def sys_call_def serve_ok(1) demo_reply_def set_active_def Let_def)
  obtain tok q where "ConsumerToken (ConcurrentQueue (malloc_ok serve_env) default_traits (6 * BLOCK_SIZE default_traits) :: byte list cqueue) = (tok, q)"
    by (metis prod.exhaust)
  then obtain c where c: "Channel serve_env (socket_id (sock t)) (ret r) = Inr c" by (simp add: Channel_def serve_ok(3))
  let ?u = "t\<lparr>clients := [(ret r, c)], generation := (generation t)(ret r := generation t (ret r) + 1)\<rparr>"
  have "connection_round serve_env quiet_server [] s = Some (True, Ret ?u)"
    using s(3) r t c by (simp add: connection_round_def after_accept_def onConnectedClient_def event_empty_def Let_def)
  with connection_round_steps [of serve_env quiet_server quiet_listener "[]" s "[]" True ?u]
  have "server_run serve_env quiet_server quiet_listener True ?u" using s(1,2) by simp
  then show thesis using that [of ?u "ret r" c] t(3,4) by simp
qed



theorem destructor_races_loop_witness:
  "\<exists>fd c s e t. server_steps serve_env quiet_server quiet_listener (Finishing fd c []) [] s
     \<and> closeClient serve_env quiet_server fd s = Some (Throw e t)"
proof -
  obtain s fd c where s: "server_run serve_env quiet_server quiet_listener True s" "clients s = [(fd, c)]" "active (sock s)" by (rule demo_client)
  have "clientDescriptor c = fd" using server_run_inv [OF serve_fresh quiet_tame s(1)] s(2) by (auto simp: server_inv_def clients_ok_def)
  from destructor_races_loop [OF s(1,3,2) this] show ?thesis by blast
qed


theorem connect_listener_dangles_witness:
  "\<exists>s s1 s2. onConnectedClient serve_env 9 s = Some (Ret s1) \<and> closeClient serve_env quiet_server 9 s1 = Some (Ret s2)
     \<and> (9, generation s2 9) \<in> set (starting s2) \<and> run_connect quiet_server (9, generation s2 9) s2 = None"
proof -
  obtain s where s: "server_run serve_env quiet_server quiet_listener True s" "clients s = []" "active (sock s)" "connectCallback (sock s) = []"
    by (rule demo_server)
  let ?s = "s\<lparr>sock := (sock s)\<lparr>connectCallback := [FnPtr 1]\<rparr>\<rparr>"
  have "clients_ok (clients ?s)" "map_of (clients ?s) 9 = None" "\<not> event_empty (connectCallback (sock ?s))"
    using s(2) by (simp_all add: clients_ok_def event_empty_def)
  from connect_listener_dangles [OF this serve_ok(3), of quiet_server] show ?thesis by (auto simp: quiet_server_def)
qed

text \<open>An environment in which every call fails.\<close>

definition refusing_env :: env where
  "refusing_env = demo_env\<lparr>os := (\<lambda>h c. (demo_reply c)\<lparr>ret := -1, err := Some 98\<rparr>)\<rparr>"

theorem failed_bind_stays_active_witness:
  "\<exists>s e s'. \<not> active (sock s) \<and> bindAndListen refusing_env s = Throw e s' \<and> active (sock s')"
proof -
  obtain t where t: "server_run serve_env quiet_server quiet_listener True t" "clients t = []" "active (sock t)" "connectCallback (sock t) = []"
    by (rule demo_server)
  let ?s = "set_active False t"
  have n: "never_stopped refusing_env" by (simp add: never_stopped_def refusing_env_def demo_reply_def)
  obtain e s' where b: "bindAndListen refusing_env ?s = Throw e s'"
    by (auto simp: bindAndListen_def server_try_def server_call_def sys_call_def refusing_env_def demo_reply_def throwIfError_def fmtThrowError_def
        set_active_def Let_def split: prod.splits)
  from failed_bind_stays_active [OF _ n b] b show ?thesis by force
qed

end
