(* ===== verification/SocketHandlersSafety.thy ===== *)
theory SocketHandlersSafety
  imports SocketHandlers SocketServerSafety
begin

text \<open>What the socket handler guarantees of the ids of its sockets.\<close>

section \<open>Ids\<close>

text \<open>A maker that succeeds makes a socket of what it is given.\<close>

lemma createServerSocket_made:
  assumes "handler_active h" and "mk (nextId h) (hio h) = (Inr s, w)"
  shows "createServerSocket destroy mk h =
    (Inr (nextId h), emplace_socket destroy (nextId h) s (h\<lparr>nextId := nextId h + 1, hio := w\<rparr>))"
  using assms by (simp add: createServerSocket_def validateActive_def Let_def)

lemma createClientSocket_made:
  assumes "handler_active h" and "mk (nextId h) (hio h) = (Inr s, w)"
  shows "createClientSocket destroy mk h =
    (Inr (nextId h), emplace_socket destroy (nextId h) s (h\<lparr>nextId := of_nat (card (dom (sockets h))), hio := w\<rparr>))"
  using assms by (simp add: createClientSocket_def validateActive_def Let_def)

text \<open>The ids below \<open>n\<close>.\<close>

definition below :: "nat \<Rightarrow> u32 set" where
  "below n = {i. unat i < n}"

lemma unat_of_nat_u32: "n < 2 ^ 32 \<Longrightarrow> unat (of_nat n :: u32) = n"
  by (simp add: unat_of_nat take_bit_nat_eq_self)

lemma below_Suc: "n < 2 ^ 32 \<Longrightarrow> below (Suc n) = insert (of_nat n) (below n)"
  by (auto simp: below_def word_unat_eq_iff unat_of_nat_u32 less_Suc_eq)

lemma below_new: "n < 2 ^ 32 \<Longrightarrow> of_nat n \<notin> below n"
  by (simp add: below_def unat_of_nat_u32)

lemma card_below: "n \<le> 2 ^ 32 \<Longrightarrow> finite (below n) \<and> card (below n) = n"
proof (induction n)
  case (Suc n)
  then show ?case using below_Suc [of n] below_new [of n] by simp
qed (simp add: below_def)

text \<open>The state after \<open>n\<close> sockets have been created and none destroyed.\<close>

definition handler_ok :: "nat \<Rightarrow> 's handler \<Rightarrow> bool" where
  "handler_ok n h \<longleftrightarrow> handler_active h \<and> dom (sockets h) = below n \<and> nextId h = of_nat n"

text \<open>Creating server sockets one after the other.\<close>

primrec create_servers :: "('s \<Rightarrow> world \<Rightarrow> world) \<Rightarrow> 's maker list \<Rightarrow> 's handler \<Rightarrow> (exn + u32) list \<times> 's handler" where
  "create_servers destroy [] h = ([], h)"
| "create_servers destroy (mk # mks) h =
     (case createServerSocket destroy mk h of (r, h) \<Rightarrow> case create_servers destroy mks h of (rs, h) \<Rightarrow> (r # rs, h))"

lemma create_servers_ok:
  assumes "\<forall>mk\<in>set mks. \<forall>i w. \<exists>s w'. mk i w = (Inr s, w')"
  shows "handler_ok n h \<Longrightarrow> n + length mks < 2 ^ 32 \<Longrightarrow>
    \<exists>h'. create_servers destroy mks h = (map (Inr \<circ> of_nat) [n..<n + length mks], h') \<and> handler_ok (n + length mks) h' \<and> sockets h \<subseteq>\<^sub>m sockets h'"
  using assms
proof (induction mks arbitrary: n h)
  case (Cons mk mks)
  obtain s w where mk: "mk (nextId h) (hio h) = (Inr s, w)" using Cons.prems(3) by (metis list.set_intros(1))
  have ok: "handler_active h" "dom (sockets h) = below n" "nextId h = of_nat n" using Cons.prems(1) by (simp_all add: handler_ok_def)
  have n: "n < 2 ^ 32" "Suc n < 2 ^ 32" using Cons.prems(2) by simp_all
  have free: "sockets h (of_nat n) = None" using below_new [OF n(1)] ok(2) by (metis domIff)
  let ?h = "h\<lparr>nextId := of_nat n + 1, hio := w, sockets := (sockets h)(of_nat n \<mapsto> s)\<rparr>"
  have 1: "createServerSocket destroy mk h = (Inr (of_nat n), ?h)"
    using createServerSocket_made [of h mk s w destroy] ok(1) mk ok(3) free by (simp add: emplace_socket_def)
  have "handler_ok (Suc n) ?h" using ok below_Suc [OF n(1)] by (simp add: handler_ok_def add.commute)
  then obtain h' where 2: "create_servers destroy mks ?h = (map (Inr \<circ> of_nat) [Suc n..<Suc n + length mks], h')"
    "handler_ok (Suc n + length mks) h'" "sockets ?h \<subseteq>\<^sub>m sockets h'"
  proof -
    have "\<forall>mk\<in>set mks. \<forall>i w. \<exists>s w'. mk i w = (Inr s, w')" "Suc n + length mks < 2 ^ 32" using Cons.prems(2,3) by simp_all
    with Cons.IH \<open>handler_ok (Suc n) ?h\<close> show thesis using that by blast
  qed
  have "sockets h \<subseteq>\<^sub>m sockets ?h" using free by (auto simp: map_le_def)
  then have "sockets h \<subseteq>\<^sub>m sockets h'" using 2(3) map_le_trans by blast
  moreover have "[n..<n + length (mk # mks)] = n # [Suc n..<Suc n + length mks]" by (simp add: upt_rec)
  ultimately show ?case using 1 2(1,2) by simp
qed simp

section \<open>Properties of the handler\<close>

text \<open>
  (C11) A handler that only makes server sockets and destroys none gives each of them a new id and keeps them all: the
  ids are 0, 1, 2 and so on, no socket is lost or destroyed, up to the size of the id.
\<close>

theorem server_ids_fresh:
  assumes "\<forall>mk\<in>set mks. \<forall>i w. \<exists>s w'. mk i w = (Inr s, w')" and "length mks < 2 ^ 32"
  shows "\<exists>h'. create_servers destroy mks (SocketHandler w) = (map (Inr \<circ> of_nat) [0..<length mks], h')
    \<and> dom (sockets h') = {i. unat i < length mks} \<and> nextId h' = of_nat (length mks)"
proof -
  have "handler_ok 0 (SocketHandler w)" by (simp add: handler_ok_def SocketHandler_def below_def)
  then obtain h' where "create_servers destroy mks (SocketHandler w) = (map (Inr \<circ> of_nat) [0..<0 + length mks], h')" "handler_ok (0 + length mks) h'"
    using create_servers_ok [OF assms(1), of 0 "SocketHandler w" destroy] assms(2) by auto
  then show ?thesis by (auto simp: handler_ok_def below_def)
qed

definition demo_maker :: "nat \<Rightarrow> nat maker" where
  "demo_maker k i w = (Inr k, w)"

theorem server_ids_fresh_witness:
  "\<exists>h'. create_servers (\<lambda>s w. w) [demo_maker 7, demo_maker 8] (SocketHandler demo_world) = ([Inr 0, Inr 1], h') \<and> nextId h' = 2"
proof -
  have "\<forall>mk\<in>set [demo_maker 7, demo_maker 8]. \<forall>i w. \<exists>s w'. mk i w = (Inr s, w')" "length [demo_maker 7, demo_maker 8] < 2 ^ 32"
    by (simp_all add: demo_maker_def)
  from server_ids_fresh [OF this, of "\<lambda>s w. w" demo_world] show ?thesis by (auto simp: upt_rec)
qed

text \<open>
  (C34) A client socket takes the next id and then sets the next id to the number of sockets there were, which is the
  id just taken: the next socket to be created, of either kind, gets the same id, is destroyed at once, and the caller is
  given the older socket.  The same happens after a socket was destroyed, when the ids run into those in use.
\<close>

theorem client_id_collides:
  assumes "handler_active h" and "dom (sockets h) = {i. unat i < n}" and "nextId h = of_nat n" and "n < 2 ^ 32"
    and "\<And>i w. mk i w = (Inr s, f w)" and "\<And>i w. mk' i w = (Inr s', f' w)"
  shows "\<exists>h1 h2 h3. createClientSocket destroy mk h = (Inr (of_nat n), h1) \<and> sockets h1 (of_nat n) = Some s
      \<and> createClientSocket destroy mk' h1 = (Inr (of_nat n), h2) \<and> sockets h2 = sockets h1 \<and> hio h2 = destroy s' (f' (hio h1))
      \<and> createServerSocket destroy mk' h1 = (Inr (of_nat n), h3) \<and> sockets h3 = sockets h1 \<and> hio h3 = destroy s' (f' (hio h1))"
proof -
  have dom: "dom (sockets h) = below n" using assms(2) by (simp add: below_def)
  have free: "sockets h (of_nat n) = None" using below_new [OF assms(4)] dom by (metis domIff)
  have card: "card (dom (sockets h)) = n" using card_below [of n] assms(4) dom by simp
  let ?h1 = "h\<lparr>nextId := of_nat n, hio := f (hio h), sockets := (sockets h)(of_nat n \<mapsto> s)\<rparr>"
  have 1: "createClientSocket destroy mk h = (Inr (of_nat n), ?h1)"
    using createClientSocket_made [of h mk s "f (hio h)" destroy] assms(1,3,5) free card by (simp add: emplace_socket_def)
  have act: "handler_active ?h1" using assms(1) by simp
  have 2: "mk' (nextId ?h1) (hio ?h1) = (Inr s', f' (f (hio h)))" by (simp add: assms(6))
  let ?g = "\<lambda>k. ?h1\<lparr>nextId := k, hio := destroy s' (f' (hio ?h1))\<rparr>"
  have "createClientSocket destroy mk' ?h1 = (Inr (of_nat n), ?g (of_nat (card (dom (sockets ?h1)))))"
    using createClientSocket_made [where mk = mk', OF act 2, of destroy] by (simp add: emplace_socket_def)
  moreover have "createServerSocket destroy mk' ?h1 = (Inr (of_nat n), ?g (of_nat n + 1))"
    using createServerSocket_made [where mk = mk', OF act 2, of destroy] by (simp add: emplace_socket_def)
  moreover have "sockets ?h1 (of_nat n) = Some s" "sockets (?g k) = sockets ?h1" "hio (?g k) = destroy s' (f' (hio ?h1))" for k by simp_all
  ultimately show ?thesis using 1 by blast
qed

theorem client_id_collides_witness:
  "\<exists>h1 h2. createClientSocket (\<lambda>s w. w) (demo_maker 7) (SocketHandler demo_world) = (Inr 0, h1)
     \<and> createClientSocket (\<lambda>s w. w) (demo_maker 8) h1 = (Inr 0, h2) \<and> sockets h2 0 = Some 7"
proof -
  have h: "handler_active (SocketHandler demo_world)" "dom (sockets (SocketHandler demo_world)) = {i. unat i < 0}"
    "nextId (SocketHandler demo_world) = of_nat 0" by (simp_all add: SocketHandler_def)
  from client_id_collides [OF h, of "demo_maker 7" 7 id "demo_maker 8" 8 id "\<lambda>s w. w"]
  show ?thesis by (auto simp: demo_maker_def)
qed

text \<open>
  Destroying a socket makes its id the next one: when it was not the newest, the socket created after the next gets
  an id in use and is destroyed at once.
\<close>

theorem reused_id_collides:
  assumes "handler_active h" and "sockets h i = Some s" and "sockets h (i + 1) = Some t"
    and "\<And>i w. mk i w = (Inr s1, f w)" and "\<And>i w. mk' i w = (Inr s2, f' w)"
  shows "\<exists>h1 h2. createServerSocket destroy mk (destroySocket destroy i h) = (Inr i, h1) \<and> sockets h1 i = Some s1
    \<and> createServerSocket destroy mk' h1 = (Inr (i + 1), h2) \<and> sockets h2 (i + 1) = Some t \<and> hio h2 = destroy s2 (f' (hio h1))"
proof -
  let ?h = "destroySocket destroy i h"
  have h: "handler_active ?h" "nextId ?h = i" "sockets ?h = (sockets h)(i := None)" using assms(1,2) by (simp_all add: destroySocket_def)
  have 1: "mk (nextId ?h) (hio ?h) = (Inr s1, f (hio ?h))" by (simp add: assms(4))
  let ?h1 = "?h\<lparr>nextId := i + 1, hio := f (hio ?h), sockets := (sockets ?h)(i \<mapsto> s1)\<rparr>"
  have e1: "createServerSocket destroy mk ?h = (Inr i, ?h1)"
    using createServerSocket_made [where mk = mk, OF h(1) 1, of destroy] h(2,3) by (simp add: emplace_socket_def)
  have act: "handler_active ?h1" using h(1) by simp
  have 2: "mk' (nextId ?h1) (hio ?h1) = (Inr s2, f' (hio ?h1))" by (simp add: assms(5))
  have "sockets ?h1 (i + 1) = Some t" using h(3) assms(3) by simp
  let ?g = "?h1\<lparr>nextId := i + 1 + 1, hio := destroy s2 (f' (hio ?h1))\<rparr>"
  note used = \<open>sockets ?h1 (i + 1) = Some t\<close>
  then have "createServerSocket destroy mk' ?h1 = (Inr (i + 1), ?g)"
    using createServerSocket_made [where mk = mk', OF act 2, of destroy] by (simp add: emplace_socket_def)
  moreover have "sockets ?h1 i = Some s1" "sockets ?g (i + 1) = Some t" "hio ?g = destroy s2 (f' (hio ?h1))" using used by simp_all
  ultimately show ?thesis using e1 by blast
qed

end
