(* ===== verification/SocketClientSafety.thy ===== *)
theory SocketClientSafety
  imports SocketClient SocketServerSafety
begin

text \<open>What the client does with the connection it has: which system calls it makes and how often it closes its descriptor.\<close>

section \<open>Invariant\<close>

text \<open>A call that transmits bytes, and one that neither does nor starts one of the loops that would.\<close>

definition transmits :: "sys \<Rightarrow> bool" where
  "transmits c = (case c of Send fd bs \<Rightarrow> True | Recv fd n \<Rightarrow> True | _ \<Rightarrow> False)"

definition quiet_call :: "sys \<Rightarrow> bool" where
  "quiet_call c = (\<not> transmits c \<and> c \<noteq> Spawn ''readLoop'' \<and> c \<noteq> Spawn ''writeLoop'')"

abbreviation silent :: "world \<Rightarrow> world \<Rightarrow> bool" where
  "silent \<equiv> only quiet_call"

lemma quiet_call_simps [simp]:
  "quiet_call (Sleep n)" "quiet_call (SetSockOpt fd a b)" "quiet_call (sys.Connect fd l)" "quiet_call (Close fd)"
  "quiet_call (Shutdown fd)" "quiet_call (Spawn ''connectCallback'')" "quiet_call (Join t)" "quiet_call (InetNtop f l)" "quiet_call (FreeAddrInfo as)"
  by (simp_all add: quiet_call_def transmits_def)

lemmas log_silent [simp] = log_only [of quiet_call, OF quiet_call_simps(1)]
lemmas throw_silent = throw_only [of quiet_call, OF quiet_call_simps(1)]
lemmas fmtThrow_silent = fmtThrow_only [of quiet_call, OF quiet_call_simps(1)]
lemmas silent_trans = only_trans [of quiet_call]

lemma Socket_silent: "Socket E g sid addr prt w = (x, w') \<Longrightarrow> silent w w'"
  by (rule only_mono [OF Socket_setup]) (auto simp: setup_call_def quiet_call_def transmits_def split: sys.splits)

definition client_kept :: "client \<Rightarrow> client \<Rightarrow> bool" where
  "client_kept s s' \<longleftrightarrow> silent (cio s) (cio s') \<and> cchannel s' = cchannel s"

lemma client_kept_refl [simp]: "client_kept s s"
  by (simp add: client_kept_def)

lemma client_kept_trans: "client_kept s s' \<Longrightarrow> client_kept s' s'' \<Longrightarrow> client_kept s s''"
  unfolding client_kept_def using silent_trans by metis

lemma client_kept_cio: "silent (cio s) w \<Longrightarrow> client_kept s (s\<lparr>cio := w\<rparr>)"
  by (simp add: client_kept_def)

lemma client_kept_sock [simp]: "client_kept s (s'\<lparr>csock := k\<rparr>) = client_kept s s'"
  by (simp add: client_kept_def)

lemma client_kept_call: "quiet_call c \<Longrightarrow> client_call E c s = (r, s') \<Longrightarrow> client_kept s s'"
  using only_call(2) [of quiet_call c E "cio s"] by (auto simp: client_call_def client_kept_def split: prod.splits)

lemma client_kept_log: "client_kept s (on_cio (fmtLog E lvl tag str args) s)"
  by (simp add: on_cio_def client_kept_def)

lemma connect_loop_kept: "connect_loop n E s = Some (x, s') \<Longrightarrow> client_kept s s'"
proof (induction n arbitrary: s)
  case (Suc n)
  let ?fd = "socketDescriptor (csock s)"
  obtain r s1 where 1: "client_call E (sys.Connect ?fd (ai_addr (hd (servInfo (csock s))))) s = (r, s1)" by (metis prod.exhaust)
  obtain r2 s2 where 2: "client_call E (Sleep 100) s1 = (r2, s2)" by (metis prod.exhaust)
  obtain r3 s3 where 3: "client_call E (Close ?fd) s1 = (r3, s3)" by (metis prod.exhaust)
  obtain e w where 4: "fmtThrowError E runtime_error CLIENT_LOG_TAG ''Failed to connect'' [] (cio s3) = (e, w)" by (metis prod.exhaust)
  have k1: "client_kept s s1" by (rule client_kept_call [OF _ 1]) simp
  have k2: "client_kept s s2" by (rule client_kept_trans [OF k1 client_kept_call [OF _ 2]]) simp
  have k3: "client_kept s (s3\<lparr>cio := w\<rparr>)"
    by (rule client_kept_trans [OF client_kept_trans [OF k1 client_kept_call [OF _ 3]] client_kept_cio [OF fmtThrow_silent [OF 4]]]) simp
  show ?case
    using Suc.prems k1 k3 client_kept_trans [OF k2 Suc.IH] by (auto simp: Let_def 1 2 3 4 split: if_splits)
qed simp

lemma close_descriptor_kept: "client_kept s (close_descriptor E s)"
proof (cases "socketDescriptor (csock s) = -1")
  case False
  let ?fd = "socketDescriptor (csock s)"
  obtain r s1 where 1: "client_call E (Shutdown ?fd) s = (r, s1)" by (metis prod.exhaust)
  define s2 where "s2 = (if ret r \<noteq> 0 then on_cio (fmtLog E ERROR CLIENT_LOG_TAG ''Unable to shut down client'' []) s1 else s1)"
  obtain r' s3 where 3: "client_call E (Close ?fd) s2 = (r', s3)" by (metis prod.exhaust)
  define s4 where "s4 = (if ret r' \<noteq> 0 then on_cio (fmtLog E ERROR CLIENT_LOG_TAG ''Unable to close client'' []) s3 else s3)"
  have "client_kept s s1" by (rule client_kept_call [OF _ 1]) simp
  moreover have "client_kept s1 s2" "client_kept s3 s4" using client_kept_log by (simp_all add: s2_def s4_def)
  moreover have "client_kept s2 s3" by (rule client_kept_call [OF _ 3]) simp
  ultimately have "client_kept s s4" using client_kept_trans by blast
  then show ?thesis using False 1 3 by (simp add: close_descriptor_def Let_def s2_def [symmetric] s4_def [symmetric])
qed (simp add: close_descriptor_def)

text \<open>Listeners of the client that return, neither transmit nor start a loop themselves and leave the channel.\<close>

definition tame_client :: "(bool, client) behaviour \<Rightarrow> bool" where
  "tame_client beh \<longleftrightarrow> (\<forall>f a s. \<exists>s'. beh f a s = Ret s' \<and> client_kept s s')"

lemma tame_client_invoke: "tame_client beh \<Longrightarrow> \<exists>s'. invoke beh a fs s = Ret s' \<and> client_kept s s'"
proof (induction fs arbitrary: s)
  case (Cons f fs)
  obtain s1 where 1: "beh f a s = Ret s1" "client_kept s s1" using Cons.prems unfolding tame_client_def by metis
  obtain s2 where "invoke beh a fs s1 = Ret s2" "client_kept s1 s2" using Cons by blast
  then show ?case using 1 client_kept_trans by (auto simp: call_def)
qed simp

text \<open>Nothing has been transmitted, neither loop has been started, and no thread of the channel runs, which is so from its construction on.\<close>

definition client_inv :: "client \<Rightarrow> bool" where
  "client_inv s \<longleftrightarrow> (\<forall>c\<in>set (made (cio s)). quiet_call c) \<and> (\<forall>c. cchannel s = Some c \<longrightarrow> idle_channel c)"

lemma client_kept_inv: "client_kept s s' \<Longrightarrow> client_inv s \<Longrightarrow> client_inv s'"
  by (auto simp: client_kept_def client_inv_def only_def)

lemma silent_inv: "client_inv s \<Longrightarrow> silent (cio s) w \<Longrightarrow> client_inv (s\<lparr>cchannel := None, cio := w\<rparr>)"
  by (auto simp: client_inv_def only_def)

lemma Channel_idle: "Channel E sid fd = Inr c \<Longrightarrow> idle_channel c"
  by (auto simp: Channel_def idle_channel_def split: if_splits prod.splits)

lemma reset_channel_ok:
  assumes "client_inv s"
  obtains s' where "reset_channel E s = Some s'" "client_inv s'"
proof (cases "cchannel s")
  case None
  then show thesis using that [of s] assms by (simp add: reset_channel_def)
next
  case (Some c)
  let ?s = "\<lparr>chan = c, sock_active = active (csock s), io = cio s\<rparr>"
  let ?t = "queueShutdown E (queueShutdown E ?s)"
  have "readThread (chan ?t) = None" "writeThread (chan ?t) = None" "\<not> readLock (chan ?t)" "\<not> writeLock (chan ?t)"
    using assms Some by (simp_all add: client_inv_def idle_channel_def queueShutdown_def on_io_def Let_def)
  then have d: "destroy_Channel E ?s = Some (on_io (writeLog E DEBUG_LEVEL CHANNEL_LOG_TAG ''Ending channel'') ?t)"
    by (simp add: destroy_Channel_def awaitShutdown_def Let_def)
  have "silent (io ?s) (io (queueShutdown E ?s))" "silent (io (queueShutdown E ?s)) (io ?t)" by (rule shutdown_only, simp)+
  then have "silent (io ?s) (io (on_io (writeLog E DEBUG_LEVEL CHANNEL_LOG_TAG ''Ending channel'') ?t))"
    using silent_trans log_silent(2) unfolding on_io_def by simp
  from silent_inv [OF assms this [simplified]]
  show thesis using that d Some by (simp add: reset_channel_def client_inv_def)
qed

lemma client_connect_inv:
  assumes "client_inv s" and "client_connect n E s = Some (x, s')"
  shows "client_inv s'"
proof -
  define opt where "opt = (if noDelay (csock s) then
      (case client_call E (SetSockOpt (socketDescriptor (csock s)) 6 1) s of (r, s) \<Rightarrow>
         case throwIfError E False (ret r) CLIENT_LOG_TAG (cio s) of (x, w) \<Rightarrow> (x, s\<lparr>cio := w\<rparr>))
    else (Inr (), s))"
  obtain y s1 where o: "opt = (y, s1)" by (metis prod.exhaust)
  have k1: "client_kept s s1"
  proof (cases "noDelay (csock s)")
    case True
    obtain r t where 1: "client_call E (SetSockOpt (socketDescriptor (csock s)) 6 1) s = (r, t)" by (metis prod.exhaust)
    obtain z w where 2: "throwIfError E False (ret r) CLIENT_LOG_TAG (cio t) = (z, w)" by (metis prod.exhaust)
    have "client_kept s (t\<lparr>cio := w\<rparr>)" by (rule client_kept_trans [OF client_kept_call [OF _ 1] client_kept_cio [OF throw_silent [OF 2]]]) simp
    then show ?thesis using o True 1 2 by (simp add: opt_def)
  qed (use o in \<open>simp add: opt_def\<close>)
  note inv1 = client_kept_inv [OF k1 assms(1)]
  have body: "client_connect n E s = (case opt of (Inl e, s) \<Rightarrow> Some (Inl e, s)
     | (Inr _, s) \<Rightarrow>
          (case connect_loop n E s of
             None \<Rightarrow> None
           | Some (Inl e, s) \<Rightarrow> Some (Inl e, s)
           | Some (Inr _, s) \<Rightarrow>
               let s = s\<lparr>csock := (csock s)\<lparr>active := True\<rparr>\<rparr> in
               (case Channel E (socket_id (csock s)) (socketDescriptor (csock s)) of
                  Inl e \<Rightarrow> Some (Inl e, s)
                | Inr c \<Rightarrow>
                    map_option (\<lambda>s.
                        let s = s\<lparr>cchannel := Some c\<rparr> in
                        (Inr (), if event_empty (connectCallback (csock s)) then s
                                 else snd (client_call E (Spawn ''connectCallback'') s)))
                      (reset_channel E s))))"
    by (simp add: client_connect_def opt_def)
  show ?thesis
  proof (cases y)
    case (Inl e)
    then show ?thesis using assms(2) inv1 by (simp add: body o)
  next
    case (Inr u)
    then obtain z s2 where l: "connect_loop n E s1 = Some (z, s2)" using assms(2) by (auto simp: body o split: option.splits)
    note inv2 = client_kept_inv [OF connect_loop_kept [OF l] inv1]
    let ?s = "s2\<lparr>csock := (csock s2)\<lparr>active := True\<rparr>\<rparr>"
    have inv3: "client_inv ?s" using inv2 by (simp add: client_inv_def)
    show ?thesis
    proof (cases z)
      case (Inl e)
      then show ?thesis using assms(2) Inr inv2 by (simp add: body o l)
    next
      case z: (Inr v)
      show ?thesis
      proof (cases "Channel E (socket_id (csock ?s)) (socketDescriptor (csock ?s))")
        case (Inl e)
        then show ?thesis using assms(2) Inr z inv3 by (simp add: body o l Let_def)
      next
        case c: (Inr c)
        obtain t where t: "reset_channel E ?s = Some t" "client_inv t" by (rule reset_channel_ok [OF inv3])
        have inv4: "client_inv (t\<lparr>cchannel := Some c\<rparr>)" using t(2) Channel_idle [OF c] by (simp add: client_inv_def)
        have "client_kept t (snd (client_call E (Spawn ''connectCallback'') t))" for t
          by (rule client_kept_call [OF _ prod.collapse [symmetric]]) simp
        then show ?thesis using assms(2) Inr z c t(1) client_kept_inv inv4 by (auto simp: body o l Let_def split: if_splits)
      qed
    qed
  qed
qed

lemma client_write_inv:
  assumes "client_inv s" and "client_write E tid th msg s = Some (x, s')"
  shows "client_inv s'"
proof -
  obtain c where c: "cchannel s = Some c" using assms(2) by (auto simp: client_write_def split: option.splits)
  let ?s = "\<lparr>chan = c, sock_active = active (csock s), io = cio s\<rparr>"
  obtain y t where q: "queueWrite E tid th msg ?s = Some (y, t)" using assms(2) c by (auto simp: client_write_def)
  have "idle_channel c" using assms(1) c by (simp add: client_inv_def)
  then have "io t = cio s \<and> idle_channel (chan t)" using q
    by (auto simp: queueWrite_def idle_channel_def split: if_splits option.splits)
  then show ?thesis using assms q c by (auto simp: client_write_def client_inv_def)
qed

lemma client_close_inv:
  assumes "client_inv s" and "tame_client beh" and "client_close E beh s = Some (Ret s')"
  shows "client_inv s'"
proof -
  let ?s = "close_descriptor E s"
  define r where "r = (if event_empty (connectCallback (csock ?s)) then Ret ?s else invoke beh False (connectCallback (csock ?s)) ?s)"
  obtain t where t: "r = Ret t" "client_kept ?s t" using tame_client_invoke [OF assms(2)] unfolding r_def by (metis client_kept_refl)
  have "s' = on_cio (fmtLog E DEBUG_LEVEL CLIENT_LOG_TAG ''Closed client socket'' []) t"
    using assms(3) t(1) by (auto simp: client_close_def Let_def r_def [symmetric] split: option.splits)
  then have "client_kept s s'" using client_kept_trans [OF client_kept_trans [OF close_descriptor_kept t(2)] client_kept_log] by simp
  then show ?thesis using client_kept_inv assms(1) by blast
qed

lemma destroy_ClientSocket_inv:
  assumes "client_inv s" and "tame_client beh" and "destroy_ClientSocket E beh s = Some (Ret s')"
  shows "client_inv s'"
proof -
  let ?log = "\<lambda>str. on_cio (fmtLog E DEBUG_LEVEL CLIENT_LOG_TAG str [])"
  obtain t where t: "client_close E beh (?log ''Deleting client socket'' s) = Some (Ret t)"
    using assms(3) by (auto simp: destroy_ClientSocket_def split: option.splits outcome.splits)
  have "client_inv (?log ''Finish deleting client socket'' t)"
    by (rule client_kept_inv [OF client_kept_log client_close_inv [OF client_kept_inv [OF client_kept_log assms(1)] assms(2) t]])
  then obtain u where u: "reset_channel E (?log ''Finish deleting client socket'' t) = Some u" "client_inv u" by (rule reset_channel_ok)
  have "silent (cio u) (destroy_Socket E (csock u) (cio u))"
    using silent_trans [OF log_silent(2) only_call(1)] by (auto simp: destroy_Socket_def Let_def)
  then have "client_kept u s'" using assms(3) t u(1) by (auto simp: destroy_ClientSocket_def on_cio_def client_kept_cio)
  then show ?thesis using client_kept_inv u(2) by blast
qed

text \<open>
  What a program can do with a client: make it, connect any number of times, write and close, in any order, the connect listeners in
  between; and what the threads of the client do: once a thread for it has been started, \<open>readLoop\<close> and \<open>writeLoop\<close> may run a
  round at any time, whatever comes of it.
\<close>

inductive client_run :: "env \<Rightarrow> (bool, client) behaviour \<Rightarrow> (unit, chan_state) behaviour \<Rightarrow> client \<Rightarrow> bool" for E beh listen where
  new: "made w = [] \<Longrightarrow> ClientSocket E g sid addr prt w = (Inr s, w') \<Longrightarrow> client_run E beh listen s"
| connect: "client_run E beh listen s \<Longrightarrow> client_connect n E s = Some (x, s') \<Longrightarrow> client_run E beh listen s'"
| queue: "client_run E beh listen s \<Longrightarrow> client_write E tid th msg s = Some (x, s') \<Longrightarrow> client_run E beh listen s'"
| listeners: "client_run E beh listen s \<Longrightarrow> invoke beh True (connectCallback (csock s)) s = Ret s' \<Longrightarrow> client_run E beh listen s'"
| reading: "client_run E beh listen s \<Longrightarrow> Spawn ''readLoop'' \<in> set (made (cio s)) \<Longrightarrow> client_read_round E listen s = Some r \<Longrightarrow>
    r = Ret s' \<or> r = Throw e s' \<or> r = Terminate s' \<Longrightarrow> client_run E beh listen s'"
| writing: "client_run E beh listen s \<Longrightarrow> Spawn ''writeLoop'' \<in> set (made (cio s)) \<Longrightarrow> client_write_round E s = Some r \<Longrightarrow>
    r = Ret s' \<or> r = Throw e s' \<or> r = Terminate s' \<Longrightarrow> client_run E beh listen s'"
| close: "client_run E beh listen s \<Longrightarrow> client_close E beh s = Some (Ret s') \<Longrightarrow> client_run E beh listen s'"
| stop: "client_run E beh listen s \<Longrightarrow> client_run E beh listen (s\<lparr>csock := notifyStop (csock s)\<rparr>)"

lemma ClientSocket_inv:
  assumes "made w = []" and "ClientSocket E g sid addr prt w = (Inr s, w')"
  shows "client_inv s"
proof -
  obtain k w1 where 1: "Socket E g sid (Some addr) prt w = (Inr k, w1)" using assms(2) by (auto simp: ClientSocket_def split: prod.splits sum.splits)
  obtain r w2 where 2: "sys_call E (InetNtop (ai_family (hd (servInfo k))) (ai_addr (hd (servInfo k)))) w1 = (r, w2)" by (metis prod.exhaust)
  have s: "s = \<lparr>csock = k, cchannel = None, cio = fmtLog E DEBUG_LEVEL CLIENT_LOG_TAG ''Connecting to {}'' [FStr (fst (names r))] w2\<rparr>"
    using assms(2) 1 2 by (auto simp: ClientSocket_def Let_def)
  have "silent w (cio s)" unfolding s client.select_convs
    by (rule silent_trans [OF silent_trans [OF Socket_silent [OF 1] only_call(2) [OF _ 2]] log_silent(1)]) simp
  then show ?thesis using assms(1) s by (auto simp: client_inv_def only_def)
qed

lemma client_run_inv:
  assumes "tame_client beh"
  shows "client_run E beh listen s \<Longrightarrow> client_inv s"
proof (induction rule: client_run.induct)
  case (new w g sid addr prt s w')
  then show ?case using ClientSocket_inv by blast
next
  case (connect s n x s')
  then show ?case using client_connect_inv by blast
next
  case (queue s tid th msg x s')
  then show ?case using client_write_inv by blast
next
  case (listeners s s')
  then obtain t where "invoke beh True (connectCallback (csock s)) s = Ret t" "client_kept s t" using tame_client_invoke [OF assms] by blast
  then show ?case using listeners client_kept_inv by auto
next
  case (reading s r s' e)
  then show ?case by (auto simp: client_inv_def quiet_call_def)
next
  case (writing s r s' e)
  then show ?case by (auto simp: client_inv_def quiet_call_def)
next
  case (close s s')
  then show ?case using client_close_inv [OF _ assms] by blast
next
  case (stop s)
  then show ?case by (simp add: client_inv_def)
qed


lemma client_call_made:
  assumes "client_call E c s = (r, s')"
  shows "made (cio s') = made (cio s) @ [c]" and "cchannel s' = cchannel s" and "socketDescriptor (csock s') = socketDescriptor (csock s)"
  using assms by (auto simp: client_call_def sys_call_def Let_def)

text \<open>
  (C33) Any answer of \<open>connect\<close> but success and \<open>EWOULDBLOCK\<close> - on a non-blocking socket the usual one is
  \<open>EINPROGRESS\<close> - closes the descriptor and throws, but keeps its number: \<open>close\<close>, and so the destructor, closes the same
  number again, which may belong to another connection by then, and follows the null pointer to the channel.
\<close>

theorem failed_connect_closes_twice:
  assumes "\<not> noDelay (csock s)" and "cchannel s = None" and "socketDescriptor (csock s) = fd" and "fd \<noteq> -1"
    and "os E (made (cio s)) (sys.Connect fd (ai_addr (hd (servInfo (csock s))))) = r" and "ret r \<noteq> 0" and "err r = Some e" and "e \<noteq> EWOULDBLOCK"
  shows "\<exists>x s'. client_connect (Suc n) E s = Some (Inl x, s') \<and> count_list (closed (made (cio s'))) fd = count_list (closed (made (cio s))) fd + 1
    \<and> count_list (closed (made (cio (close_descriptor E s')))) fd = count_list (closed (made (cio s))) fd + 2
    \<and> client_close E beh s' = None \<and> destroy_ClientSocket E beh s' = None"
proof -
  obtain r1 s1 where 1: "client_call E (sys.Connect fd (ai_addr (hd (servInfo (csock s))))) s = (r1, s1)" by (metis prod.exhaust)
  note c1 = client_call_made [OF 1]
  have r1: "r1 = r" "errno (cio s1) = e" using 1 assms(5,7) by (auto simp: client_call_def sys_call_def Let_def)
  obtain r2 s2 where 2: "client_call E (Close fd) s1 = (r2, s2)" by (metis prod.exhaust)
  note c2 = client_call_made [OF 2]
  obtain x w where 3: "fmtThrowError E runtime_error CLIENT_LOG_TAG ''Failed to connect'' [] (cio s2) = (x, w)" by (metis prod.exhaust)
  let ?s = "s2\<lparr>cio := w\<rparr>"
  have con: "client_connect (Suc n) E s = Some (Inl x, ?s)"
    using assms(1,3,6,8) r1 1 2 3 by (simp add: client_connect_def Let_def)
  have count: "closed (made w) = closed (made (cio s)) @ [fd]"
    using calm_counts [OF fmtThrow_calm [OF 3]] c1(1) c2(1) by simp
  have fd: "socketDescriptor (csock ?s) = fd" "cchannel ?s = None" using c1(2,3) c2(2,3) assms(2,3) by simp_all
  obtain r4 s4 where 4: "client_call E (Shutdown fd) ?s = (r4, s4)" by (metis prod.exhaust)
  define s5 where "s5 = (if ret r4 \<noteq> 0 then on_cio (fmtLog E ERROR CLIENT_LOG_TAG ''Unable to shut down client'' []) s4 else s4)"
  obtain r6 s6 where 6: "client_call E (Close fd) s5 = (r6, s6)" by (metis prod.exhaust)
  define s7 where "s7 = (if ret r6 \<noteq> 0 then on_cio (fmtLog E ERROR CLIENT_LOG_TAG ''Unable to close client'' []) s6 else s6)"
  have cl: "close_descriptor E ?s = s7\<lparr>csock := (csock s7)\<lparr>socketDescriptor := -1\<rparr>\<rparr>"
    using fd(1) assms(4) 4 6 by (simp add: close_descriptor_def Let_def s5_def [symmetric] s7_def [symmetric])
  have "calm (cio s4) (cio s5)" "calm (cio s6) (cio s7)" by (simp_all add: s5_def s7_def on_cio_def)
  then have "closed (made (cio s7)) = closed (made w) @ [fd]"
    using calm_counts client_call_made(1) [OF 4] client_call_made(1) [OF 6] by simp
  then have twice: "closed (made (cio (close_descriptor E ?s))) = closed (made (cio s)) @ [fd, fd]" using cl count by simp
  have null: "client_close E beh t = None" if "cchannel t = None" for t
    using that close_descriptor_kept [of t E] by (simp add: client_close_def Let_def client_kept_def)
  have "destroy_ClientSocket E beh ?s = None" using null [of "on_cio _ ?s"] fd(2) by (simp add: destroy_ClientSocket_def on_cio_def)
  then show ?thesis using con count twice null [OF fd(2)] by (intro exI [of _ x] exI [of _ ?s]) simp
qed

definition quiet_client :: "(bool, client) behaviour" where
  "quiet_client f a s = Ret s"

lemma demo_client_run:
  obtains s where "client_run serve_env quiet_client quiet_listener s" "cchannel s \<noteq> None"
proof -
  note calls = sys_call_def serve_ok(1) demo_reply_def do_call_def
  obtain s w where s: "ClientSocket serve_env [] 0 ''localhost'' 80 demo_world = (Inr s, w)" "\<not> noDelay (csock s)" "connectCallback (csock s) = []"
      "cchannel s = None"
    by (simp add: ClientSocket_def Socket_def resolveEndpoint_def throwIfNull_def writeLog_def fmtLog_def demo_world_def checked_call_def throwIfError_def
        calls Let_def)
  have 0: "made demo_world = []" by (simp add: demo_world_def)
  note run = client_run.new [OF 0 s(1), where beh = quiet_client and listen = quiet_listener]
  obtain r t where r: "client_call serve_env (sys.Connect (socketDescriptor (csock s)) (ai_addr (hd (servInfo (csock s))))) s = (r, t)" by (metis prod.exhaust)
  then have t: "ret r = 0" "connectCallback (csock t) = []" "cchannel t = None" using s(3,4) by (auto simp: client_call_def calls Let_def)
  obtain tok q where "ConsumerToken (ConcurrentQueue (malloc_ok serve_env) default_traits (6 * BLOCK_SIZE default_traits) :: byte list cqueue) = (tok, q)"
    by (metis prod.exhaust)
  then obtain c where c: "Channel serve_env (socket_id (csock t)) (socketDescriptor (csock t)) = Inr c" by (simp add: Channel_def serve_ok(3))
  let ?u = "t\<lparr>csock := (csock t)\<lparr>active := True\<rparr>, cchannel := Some c\<rparr>"
  have "client_connect 1 serve_env s = Some (Inr (), ?u)"
    using s(2) r t c by (simp add: client_connect_def reset_channel_def event_empty_def Let_def)
  then have "client_run serve_env quiet_client quiet_listener ?u" by (rule client_run.connect [OF run])
  then show thesis using that by simp
qed


definition demo_closed_client :: client where
  "demo_closed_client = \<lparr>csock = \<lparr>socket_id = 0, servInfo = [], host = None, port = 80, socketDescriptor = 5, active = False, noDelay = False,
     bufferSize = 512, listenCallback = [], connectCallback = []\<rparr>, cchannel = None, cio = demo_world\<rparr>"

theorem failed_connect_closes_twice_witness:
  "\<exists>x s'. client_connect 1 refusing_env demo_closed_client = Some (Inl x, s')
     \<and> count_list (closed (made (cio (close_descriptor refusing_env s')))) 5 = 2 \<and> client_close refusing_env quiet_client s' = None"
proof -
  have s: "\<not> noDelay (csock demo_closed_client)" "cchannel demo_closed_client = None" "socketDescriptor (csock demo_closed_client) = 5"
    "(5 :: int) \<noteq> -1" "closed (made (cio demo_closed_client)) = []" by (simp_all add: demo_closed_client_def demo_world_def)
  have r: "ret (os refusing_env h c) \<noteq> 0" "err (os refusing_env h c) = Some 98" "(98 :: int) \<noteq> EWOULDBLOCK" for h c
    by (simp_all add: refusing_env_def EWOULDBLOCK_def)
  from failed_connect_closes_twice [OF s(1-4) refl r, of 0 quiet_client] show ?thesis using s(5) by force
qed

end
