(* ===== verification/Spec2Isabelle.thy ===== *)
theory Spec2Isabelle
  imports StreamQueue Message ExclusiveSharedMutex LightweightSemaphore EventCallback CQ_FreeList ConcurrentQueueProgress ConcurrentQueueDestroy ConcurrentQueueMove ThreadExit BlockingQueueBuffer
    SocketHandlersSafety SocketClientSafety
begin

text \<open>
  Verification of the socket library: a TCP client and server over channels, each of which queues messages in a
  concurrent queue that writer threads empty into the socket.

  \<^bold>\<open>The program and the theories.\<close>  The library is built in layers; a theory imports the theories of the layers it uses.

  \<^item> Vocabulary.  \<open>Prelude\<close>: the machine types with their widths, the exceptions and the result type \<open>error + 'a\<close>
    (\<open>Inl\<close> is what leaves a function as an exception).  \<open>Threads\<close>: sums over the program counters of any number of
    threads, for the models in which threads interleave.
  \<^item> Data.  \<open>StreamQueue\<close>: \<open>shared/StreamQueue.hpp\<close>, bytes as a list.  \<open>Message\<close>: \<open>shared/Message.hpp\<close>, a
    pointer and a length over an explicit heap with an allocator that may fail.  \<open>EventCallback\<close>:
    \<open>shared/utils/EventCallback.hpp\<close>, both containers as the list in which they iterate.
  \<^item> Locks.  \<open>ExclusiveSharedMutex\<close>: \<open>shared/ExclusiveSharedMutex.h\<close>.  \<open>LightweightSemaphore\<close>:
    \<open>shared/queue_internal/lightweightsemaphore.h\<close>.  Both are step relations: a step is one atomic access (or one
    critical section of the internal mutex) of one thread, and any thread may take the next step.  The counter of the semaphore is an
    integer in \<open>sem_step\<close>; \<open>machine_step\<close> is the same semaphore with the 64-bit counter that wraps and with the truncation to \<open>int\<close>, and
    \<open>machine_exact\<close> shows that the two agree below the stated bounds.
  \<^item> The queue, \<open>shared/queue_internal/concurrentqueue.h\<close>.  \<open>CQ_Details\<close>: traits, hashes and the comparison of
    wrapping indices.  \<open>CQ_Block\<close>: blocks of elements and the two ways of counting their free elements.
    \<open>CQ_Pool\<close>: the initial blocks, the free list as a stack and the heap.  \<open>CQ_FreeList\<close>: the same free list as the lock-free
    algorithm it is, with reference counts, one atomic access per step.  \<open>CQ_Explicit\<close>, \<open>CQ_Implicit\<close>: the two kinds of
    sub-queue, the ring of blocks with a linear index and the list of blocks with a circular index.  \<open>CQ_Destroy\<close>: their destructors.
    \<open>CQ_ProducerHash\<close>: the hash from threads to their producers.  \<open>ThreadExit\<close>: the linked lists through which producers learn that
    their thread exits.  \<open>ConcurrentQueue\<close>: the list of producers, tokens and
    the operations of the class.  \<open>ConcurrentQueueDestroy\<close>: its destructor.  \<open>ConcurrentQueueMove\<close>: moving and swapping queue objects, with
    the pointers that have to follow.  \<open>BlockingConcurrentQueue\<close> (\<open>blockingconcurrentqueue.h\<close>) adds the semaphore, and its
    operations are steps again: an operation of the inner queue is one step, an access to the semaphore another.
  \<^item> Sockets, \<open>src/*.cpp\<close> and their headers.  \<open>SocketSystem\<close>: system calls, logger and \<open>SocketUtil.hpp\<close>.
    \<open>SocketChannel\<close>: class \<open>Channel\<close>.  \<open>SocketBase\<close>, \<open>SocketServer\<close>, \<open>SocketClient\<close>, \<open>SocketHandlers\<close>: the classes
    \<open>Socket\<close>, \<open>ServerSocket\<close>, \<open>ClientSocket\<close> and \<open>SocketHandler\<close>.

  The theories that end in \<open>Fifo\<close>, \<open>Flow\<close>, \<open>Safety\<close>, \<open>Clients\<close>, \<open>Bulk\<close>, \<open>Buffer\<close>, \<open>Progress\<close> or \<open>Invariants\<close> hold the invariants and
  properties of the models above them; \<open>CQ_SubQueue\<close> and \<open>CQ_BulkFill\<close> hold what both kinds of sub-queue share.

  \<^bold>\<open>State and operations.\<close>  A class is a \<open>record\<close> with the fields of the source, an operation a definition that takes the
  object and gives it back changed.  The indices of a queue are natural numbers that are compared as the code compares
  them, modulo \<open>2 ^ 64\<close> (\<open>index_less\<close>, \<open>index_less_wraps\<close>), so that a property about more elements than half of that range
  names the bound.  Storage without an object is \<open>None\<close>.  A pointer to a block is its number, one to a producer its place in the
  list.  An operation of the queue that does not return is \<open>None\<close>, and an operation of a socket is \<open>None\<close> when it does not
  return or touches what has been destroyed; a theorem that the result is \<open>Some\<close> says that this does not happen.  What throws in the
  code is \<open>Inl\<close> in the model.  An operation that constructs an element is told what its constructor throws, a bulk operation for each
  element; with \<open>noexcept_ctor\<close>, the static test of the code, nothing is thrown.  Assignments of dequeued elements do not
  throw.  Allocation takes its success as an argument.  A socket works on a \<open>world\<close>: the system calls made so far with their times, the log,
  and the answer of the operating system to each call as a function of the calls before it.

  \<^bold>\<open>Runs and what they leave out.\<close>  A run is an inductive relation with a rule for every operation and every result of it, failures
  included.  A bulk enqueue with a producer token that fails after it has taken blocks leaves the block index of its producer out of
  step, and from then on the queue is neither first in first out nor complete (\<open>failed_bulk_breaks_fifo\<close>).  Therefore \<open>cq_history\<close> (the
  concurrent queue) and \<open>bhistory\<close> (the blocking queue) count these failures: the properties of the queues hold for the runs
  in which the count is 0, for which \<open>cq_run\<close> and \<open>breach\<close> are abbreviations, and say so; failures of every other operation are inside
  those runs.  In the same way \<open>msg_history\<close> counts the copy assignments of messages that throw, which \<open>assign_copy_throw_double_free\<close>
  shows to free a buffer twice.  The runs of a server, \<open>server_steps\<close>, interleave its threads and the callers of its operations: a
  step is what happens under the mutex of the map of clients, a visit of one entry by \<open>threadLoop\<close> or a half of
  \<open>closeClient\<close>.  \<open>threadLoop\<close>, \<open>closeClient\<close>, a round of the connection loop and the destructor are also given as whole operations that
  nobody disturbs; \<open>closeClient_steps\<close>, \<open>threadLoop_steps\<close> and \<open>connection_round_steps\<close> show that the steps add up to them, and
  \<open>destructor_races_loop\<close> that the code does not keep the connection thread from disturbing the destructor.

  \<^bold>\<open>What the lemmas show.\<close>
  \<^item> Queue.  Each kind of sub-queue implements a list, first in, first out, also when a constructor or an allocation fails,
    and takes no block of another (\<open>explicit_producer_fifo\<close>, \<open>implicit_producer_fifo\<close>); a bulk enqueue adds all its elements
    or none (\<open>CQ_ExplicitBulk\<close>, \<open>CQ_ImplicitBulk\<close>).  All producers share one pool
    and stay apart, whatever tokens and threads come and go; from this follow first-in first-out per producer, complete
    dequeues, exact sizes and a hash search that ends (\<open>ConcurrentQueueFifo\<close>, \<open>ConcurrentQueueClients\<close>); an enqueue with memory and room
    succeeds (\<open>ConcurrentQueueProgress\<close>), and the destructor destroys what is left, all of it and once (\<open>ConcurrentQueueDestroy\<close>).  A queue
    that is moved or swapped keeps its contents, and one moved from is as new (\<open>ConcurrentQueueMove\<close>).
  \<^item> Free list.  Under any interleaving of threads that add and get nodes no node is given to two threads and none is lost, and
    without interleaving it is the stack \<open>CQ_Pool\<close> uses (\<open>CQ_FreeList\<close>).
  \<^item> Semaphore and blocking queue.  The semaphore never grants more than was signalled and forgets no waiting thread.  With
    it a thread that holds a permit always finds an element, sleeps for good only when there is nothing for it, and the
    count is exact when all is quiet (\<open>BlockingQueueFifo\<close>); a bulk dequeue writes no more than it was given room for
    (\<open>BlockingQueueBuffer\<close>).
  \<^item> Messages, events, mutex: ownership of buffers, the set of registered callbacks, exclusion among writers.
  \<^item> Sockets.  A channel sends what was queued, in order and complete when the kernel takes all of it
    (\<open>SocketChannelFlow\<close>); the server closes every descriptor it accepted once, however its threads interleave (\<open>SocketServerSafety\<close>); ids of server
    sockets are fresh (\<open>SocketHandlersSafety\<close>).
  \<^item> Theorems of kind error show what the code does where it does not do what it is meant to: a reader beside a writer, a
    double free after a throwing assignment, elements out of order after a bulk enqueue that failed, a destructor that destroys
    elements that never were after a constructor that threw, messages cut short, a client that never transmits, colliding ids, a
    dangling channel, a destructor that races with the connection thread.

  \<^bold>\<open>Interfaces.\<close>  \<open>sub_queue\<close> is the contract of a producer (a relation to a list and what each operation does to the
  list), interpreted on both kinds; \<open>bulk_sub_queue\<close> adds bulk enqueues; \<open>framed_sub_queue\<close> adds that a sub-queue does not notice what others do, and is
  interpreted on the dispatch between the kinds.  \<open>sub_invariant\<close> is what an invariant of single producers needs to hold for
  all producers after any run, interpreted on the distance the tail has moved and on the index of implicit producers.  \<open>callback_container\<close> is what both event classes need of their set,
  interpreted on the ordered and the unordered one.  \<open>byte_stream\<close> is a queue of bytes, interpreted on two of the three
  ways to enqueue (the third is the one that overtakes).

  \<^bold>\<open>Bounds and fuel.\<close>  Loops are recursive functions with their own termination, except the following.  \<open>sendBytes\<close> may go
  on for as long as the kernel takes nothing; its fuel is the number of bytes plus two, and \<open>channel_fifo\<close> shows that it returns
  for any kernel that answers with what it may answer.  The search in the hash is bounded by the capacity, which visits
  every entry; that it finds a free or matching entry before is part of \<open>enqueue_returns\<close>.  The destructor of an explicit producer
  follows the ring for at most as many rounds as there are blocks; \<open>concurrent_queue_destructor\<close> shows that these are enough.  \<open>connect\<close>
  and the loops of worker threads take the number of rounds as an argument and the properties hold for any number.

  \<^bold>\<open>Assumptions on the environment.\<close>  \<open>send\<close> returns -1 or at most as many bytes as it was given; \<open>accept\<close> gives a
  descriptor that is not open; listeners return and do not call back into the socket that calls them, nor into
  the write queue of its channel.  The properties name them
  as hypotheses and each has a witness with a concrete operating system.

  \<^bold>\<open>Not modelled.\<close>  An iterator of \<open>threadLoop\<close> that points to an entry another thread has erased is undefined behaviour: a run
  goes on only where the entry had not been reached yet.  The operations of \<open>ConcurrentQueue\<close> are atomic: memory orders, and the interleaving of two operations
  inside the lock-free code, are not covered, except for its \<open>FreeList\<close>, whose accesses interleave but are sequentially
  consistent.  The destructors leave out the arrays of the block indices, and the aligned allocation is \<open>malloc\<close>.  The semaphores
  for Windows and Mach, the logger for Paper, compiled-out debug code (\<open>MCDBGQ\<close>), and
  \<open>get_in_addr\<close> (pointer arithmetic whose result only \<open>inet_ntop\<close> reads) are left out, as are the forwarding headers and the
  example programs under \<open>test\<close>.
\<close>

end
